(* ===== verification/Kernel_Prelude.thy ===== *)
theory Kernel_Prelude
  imports Main "HOL-Library.Word" "HOL-Library.Signed_Division" "HOL-Library.Multiset"
begin

text \<open>
  What every driver of the development shares: the C integers of the platform (LP64 Linux,
  signed arithmetic wrapping as the kernel is compiled with it), error numbers, the outcome of
  a kernel-mode computation, the kernel allocator, the copies between kernel and user memory,
  semaphores, and the encoding of ioctl numbers.

  The kernel services are modelled by their documented behaviour; what the documentation
  leaves open (which allocation fails, how much of a user buffer is accessible, whether a
  signal is pending) is an argument of the model.
\<close>

named_theorems cint \<open>conversions between the C integer types that lose nothing\<close>
named_theorems kmem_simps \<open>effects of the allocator on its state\<close>

section \<open>C integers\<close>

text \<open>A C value of a signed or unsigned 32 or 64 bit type is the integer it denotes; a
  conversion to the type reduces it into the type's range.\<close>

definition s32 :: "int \<Rightarrow> int" where
  "s32 x = (x + 2147483648) mod 4294967296 - 2147483648"

definition u32 :: "int \<Rightarrow> int" where
  "u32 x = x mod 4294967296"

definition s64 :: "int \<Rightarrow> int" where
  "s64 x = (x + 9223372036854775808) mod 18446744073709551616 - 9223372036854775808"

definition u64 :: "int \<Rightarrow> int" where
  "u64 x = x mod 18446744073709551616"

lemma s32_id [cint]: "- 2147483648 \<le> x \<Longrightarrow> x < 2147483648 \<Longrightarrow> s32 x = x"
  by (simp add: s32_def)

lemma u32_id [cint]: "0 \<le> x \<Longrightarrow> x < 4294967296 \<Longrightarrow> u32 x = x"
  by (simp add: u32_def)

lemma s64_id [cint]:
  "- 9223372036854775808 \<le> x \<Longrightarrow> x < 9223372036854775808 \<Longrightarrow> s64 x = x"
  by (simp add: s64_def)

lemma u64_id [cint]: "0 \<le> x \<Longrightarrow> x < 18446744073709551616 \<Longrightarrow> u64 x = x"
  by (simp add: u64_def)

lemma s32_shift [simp]: "s32 (4294967296 + x) = s32 x"
proof -
  have "4294967296 + x + 2147483648 = x + 2147483648 + 4294967296 * 1" by simp
  then show ?thesis unfolding s32_def by (simp only: mod_mult_self2)
qed

lemma s32_range: "- 2147483648 \<le> s32 x" "s32 x < 2147483648"
proof -
  have "0 \<le> (x + 2147483648) mod 4294967296" "(x + 2147483648) mod 4294967296 < 4294967296"
    by simp_all
  then show "- 2147483648 \<le> s32 x" "s32 x < 2147483648"
    unfolding s32_def by linarith+
qed

lemma u64_nonneg [simp]: "0 \<le> u64 x"
  by (simp add: u64_def)

text \<open>The conversions are those of the machine words.\<close>

lemma s32_word: "s32 x = sint (word_of_int x :: 32 word)"
  by (simp add: s32_def sint_sbintrunc' signed_take_bit_eq_take_bit_shift take_bit_eq_mod)

lemma u64_word: "u64 x = uint (word_of_int x :: 64 word)"
  by (simp add: u64_def uint_word_of_int)

text \<open>Division of C truncates towards zero; on non-negative operands it is \<open>div\<close>.\<close>

lemma sdiv_nonneg [cint]: "0 \<le> (a::int) \<Longrightarrow> 0 \<le> b \<Longrightarrow> a sdiv b = a div b"
  by (cases "a = 0 \<or> b = 0") (auto simp: signed_divide_int_def)

lemma smod_nonneg [cint]: "0 \<le> (a::int) \<Longrightarrow> 0 \<le> b \<Longrightarrow> a smod b = a mod b"
  by (cases "a = 0") (auto simp: signed_modulo_int_def)

lemma int_div_less:
  assumes "0 < (q::int)" "p < n * q"
  shows "p div q < n"
proof (rule ccontr)
  assume "\<not> p div q < n"
  then have "n * q \<le> p div q * q" using assms(1) by (intro mult_right_mono) auto
  also have "\<dots> \<le> p"
    using div_mult_mod_eq [of p q] pos_mod_sign [OF assms(1), of p] by linarith
  finally show False using assms(2) by simp
qed

section \<open>Errors and outcomes\<close>

datatype errno =
    EPERM | EINTR | EIO | EAGAIN | ENOMEM | EFAULT | EBUSY | ENODEV | EINVAL | ENOTTY
  | ERESTARTSYS | EIOCBQUEUED | EOPNOTSUPP | ENOIOCTLCMD

text \<open>A return value of C that is negative for an error is a value of \<open>errno + 'a\<close>. A
  computation returns, goes to sleep with the lock it waits for unavailable, or takes the
  kernel down: a division by zero, a NULL dereference, an access outside an allocated object,
  a free of something that is not allocated, a failed check of the kernel itself.\<close>

datatype crash = Divide_error | Null_deref | Out_of_bounds | Bad_free | Kernel_bug

datatype 'a outcome = Done 'a | Block | Crash crash

fun and_then :: "'a outcome \<Rightarrow> ('a \<Rightarrow> 'b outcome) \<Rightarrow> 'b outcome" where
  "and_then (Done x) f = f x"
| "and_then Block f = Block"
| "and_then (Crash c) f = Crash c"

lemma and_then_Done_iff: "and_then m f = Done y \<longleftrightarrow> (\<exists>x. m = Done x \<and> f x = Done y)"
  by (cases m) auto

lemma and_then_assoc: "and_then (and_then m f) g = and_then m (\<lambda>x. and_then (f x) g)"
  by (cases m) auto

lemma and_then_cong [fundef_cong]:
  "m = m' \<Longrightarrow> (\<And>x. m' = Done x \<Longrightarrow> f x = g x) \<Longrightarrow> and_then m f = and_then m' g"
  by (cases m') auto

definition c_div :: "int \<Rightarrow> int \<Rightarrow> int outcome" where
  "c_div a b = (if b = 0 then Crash Divide_error else Done (a sdiv b))"

definition c_mod :: "int \<Rightarrow> int \<Rightarrow> int outcome" where
  "c_mod a b = (if b = 0 then Crash Divide_error else Done (a smod b))"

lemma c_div_nonneg [cint]: "0 \<le> a \<Longrightarrow> 0 < b \<Longrightarrow> c_div a b = Done (a div b)"
  by (simp add: c_div_def sdiv_nonneg)

lemma c_mod_nonneg [cint]: "0 \<le> a \<Longrightarrow> 0 < b \<Longrightarrow> c_mod a b = Done (a mod b)"
  by (simp add: c_mod_def smod_nonneg)

section \<open>Kernel memory\<close>

text \<open>
  An address names an allocated object. The allocator never hands out an address twice, so
  \<open>km_next\<close> is both the next address and the number of the next request; \<open>km_fail n\<close> says
  that request \<open>n\<close> fails, and a request above \<open>km_max\<close> bytes always does. \<open>km_live\<close> holds
  the allocated objects with their sizes. A memory cell is \<open>None\<close> until something is written
  to it: \<open>kmalloc\<close> does not clear what it returns.
\<close>

type_synonym addr = nat
type_synonym byte = "8 word"
type_synonym cell = "byte option"

record kmem =
  km_next :: nat
  km_live :: "addr \<Rightarrow> int option"
  km_fail :: "nat \<Rightarrow> bool"
  km_max :: int

definition kmalloc :: "int \<Rightarrow> kmem \<Rightarrow> addr option \<times> kmem" where
  "kmalloc n k =
     (if km_fail k (km_next k) \<or> u64 n > km_max k
      then (None, k\<lparr>km_next := Suc (km_next k)\<rparr>)
      else (Some (km_next k),
            k\<lparr>km_next := Suc (km_next k), km_live := (km_live k)(km_next k \<mapsto> u64 n)\<rparr>))"

definition kfree :: "addr \<Rightarrow> kmem \<Rightarrow> kmem outcome" where
  "kfree a k =
     (case km_live k a of
        None \<Rightarrow> Crash Bad_free
      | Some _ \<Rightarrow> Done (k\<lparr>km_live := (km_live k)(a := None)\<rparr>))"

definition kmem_ok :: "kmem \<Rightarrow> bool" where
  "kmem_ok k \<longleftrightarrow> (\<forall>a n. km_live k a = Some n \<longrightarrow> a < km_next k)"

definition fresh_kmem :: "kmem" where
  "fresh_kmem = \<lparr>km_next = 1, km_live = Map.empty, km_fail = (\<lambda>_. False), km_max = 4194304\<rparr>"

lemma kmem_ok_fresh [simp]: "kmem_ok fresh_kmem"
  by (simp add: kmem_ok_def fresh_kmem_def)

lemma kmalloc_Some:
  assumes "kmalloc n k = (Some a, k')" and "kmem_ok k"
  shows "a \<notin> dom (km_live k)" "km_live k' = (km_live k)(a \<mapsto> u64 n)" "kmem_ok k'"
  using assms by (fastforce simp: kmalloc_def kmem_ok_def less_Suc_eq split: if_splits)+

lemma kmalloc_None:
  assumes "kmalloc n k = (None, k')"
  shows "km_live k' = km_live k" "kmem_ok k \<Longrightarrow> kmem_ok k'"
  using assms by (fastforce simp: kmalloc_def kmem_ok_def less_Suc_eq split: if_splits)+

lemma kmalloc_kmem_ok: "kmem_ok k \<Longrightarrow> kmem_ok (snd (kmalloc n k))"
  by (fastforce simp: kmalloc_def kmem_ok_def less_Suc_eq)

lemma kfree_live [kmem_simps]:
  "a \<in> dom (km_live k) \<Longrightarrow> kfree a k = Done (k\<lparr>km_live := (km_live k)(a := None)\<rparr>)"
  by (auto simp: kfree_def)

text \<open>Freeing a list of objects, the shape every clean-up loop below has.\<close>

fun kfree_all :: "addr list \<Rightarrow> kmem \<Rightarrow> kmem outcome" where
  "kfree_all [] k = Done k"
| "kfree_all (a # as) k = and_then (kfree a k) (kfree_all as)"

lemma kfree_all_append:
  "kfree_all (xs @ ys) k = and_then (kfree_all xs k) (kfree_all ys)"
  by (induction xs arbitrary: k) (auto simp: kfree_def split: option.split)

lemma kfree_all_Done:
  assumes "distinct xs" and "set xs \<subseteq> dom (km_live k)"
  shows "kfree_all xs k = Done (k\<lparr>km_live := (km_live k) |` (- set xs)\<rparr>)"
  using assms
proof (induction xs arbitrary: k)
  case Nil
  then show ?case by simp
next
  case (Cons a xs)
  let ?k = "k\<lparr>km_live := (km_live k)(a := None)\<rparr>"
  have "kfree_all xs ?k = Done (?k\<lparr>km_live := (km_live ?k) |` (- set xs)\<rparr>)"
    using Cons.prems by (intro Cons.IH) auto
  moreover have "((km_live k)(a := None)) |` (- set xs) = (km_live k) |` (- set (a # xs))"
    by (rule ext) (simp add: restrict_map_def)
  ultimately show ?case
    using Cons.prems by (simp add: kfree_live)
qed

text \<open>
  Accounting for memory: a component owns the objects it has allocated and not freed.
  \<open>accounted k as k' bs\<close> says that a step from \<open>k\<close> to \<open>k'\<close> that turned the owned objects \<open>as\<close>
  into \<open>bs\<close> neither leaked nor freed anything else: what is allocated besides the owned
  objects is unchanged, and the owned objects are distinct and allocated after it.
\<close>

definition owns :: "addr list \<Rightarrow> kmem \<Rightarrow> bool" where
  "owns as k \<longleftrightarrow> kmem_ok k \<and> distinct as \<and> set as \<subseteq> dom (km_live k)"

definition accounted :: "kmem \<Rightarrow> addr list \<Rightarrow> kmem \<Rightarrow> addr list \<Rightarrow> bool" where
  "accounted k as k' bs \<longleftrightarrow>
     (owns as k \<longrightarrow>
        owns bs k' \<and> km_live k' |` (- set bs) = km_live k |` (- set as))"

lemma accounted_refl [simp]: "accounted k as k as"
  by (simp add: accounted_def)

lemma accounted_trans:
  "accounted k as k' bs \<Longrightarrow> accounted k' bs k'' cs \<Longrightarrow> accounted k as k'' cs"
  by (simp add: accounted_def)

lemma owns_mset: "mset as = mset bs \<Longrightarrow> owns as k = owns bs k"
  by (metis mset_eq_imp_distinct_iff mset_eq_setD owns_def)

lemma accounted_mset:
  "mset as = mset as' \<Longrightarrow> mset bs = mset bs' \<Longrightarrow> accounted k as k' bs = accounted k as' k' bs'"
  by (metis accounted_def mset_eq_setD owns_mset)

lemma kmalloc_accounted:
  "kmalloc n k = (Some a, k') \<Longrightarrow> accounted k as k' (a # as)"
  "kmalloc n k = (None, k') \<Longrightarrow> accounted k as k' as"
proof -
  assume eq: "kmalloc n k = (Some a, k')"
  show "accounted k as k' (a # as)"
    unfolding accounted_def
  proof
    assume "owns as k"
    then have ok: "kmem_ok k" "distinct as" "set as \<subseteq> dom (km_live k)"
      by (auto simp: owns_def)
    note new = kmalloc_Some [OF eq ok(1)]
    have "km_live k' |` (- set (a # as)) = km_live k |` (- set as)"
      using new(1,2) by (auto simp: restrict_map_def fun_eq_iff)
    with ok new show "owns (a # as) k' \<and> km_live k' |` (- set (a # as)) = km_live k |` (- set as)"
      by (auto simp: owns_def)
  qed
next
  assume "kmalloc n k = (None, k')"
  then show "accounted k as k' as"
    using kmalloc_None [of n k k'] by (simp add: accounted_def owns_def)
qed

lemma kfree_all_accounted:
  assumes "owns (xs @ as) k"
  shows "\<exists>k'. kfree_all xs k = Done k' \<and> owns as k' \<and> km_live k' = km_live k |` (- set xs)"
proof -
  from assms have "distinct xs" "set xs \<subseteq> dom (km_live k)" "set xs \<inter> set as = {}"
      "distinct as" "set as \<subseteq> dom (km_live k)" "kmem_ok k"
    by (auto simp: owns_def)
  then show ?thesis
    by (auto simp: kfree_all_Done owns_def kmem_ok_def restrict_map_def split: if_splits)
qed

lemma kfree_list_accounted:
  assumes "owns (xs @ as) k"
  shows "\<exists>k'. kfree_all xs k = Done k' \<and> accounted k (xs @ as) k' as"
proof -
  obtain k' where k': "kfree_all xs k = Done k'" "owns as k'" "km_live k' = km_live k |` (- set xs)"
    using kfree_all_accounted [OF assms] by blast
  have "km_live k' |` (- set as) = km_live k |` (- set (xs @ as))"
    using k'(3) by (auto simp: restrict_map_def fun_eq_iff)
  with k' show ?thesis
    by (auto simp: accounted_def)
qed

section \<open>User memory\<close>

text \<open>
  A user buffer a driver reads from is the list of the bytes that are accessible there. When
  fewer than \<open>n\<close> are, \<open>copy_from_user\<close> pads the kernel's copy with zero bytes and returns
  how many bytes are missing. A user buffer a driver writes to has \<open>room\<close> accessible bytes;
  \<open>copy_to_user\<close> delivers that many and returns how many it could not.
\<close>

definition copy_from_user :: "byte list \<Rightarrow> nat \<Rightarrow> cell list \<times> nat" where
  "copy_from_user src n =
     (map Some (take n src) @ replicate (n - length src) (Some 0), n - length src)"

definition copy_to_user :: "nat \<Rightarrow> cell list \<Rightarrow> cell list \<times> nat" where
  "copy_to_user room src = (take room src, length src - room)"

lemma length_copy_from_user [simp]: "length (fst (copy_from_user src n)) = n"
  by (simp add: copy_from_user_def)

lemma copy_from_user_0 [simp]:
  "snd (copy_from_user src n) = 0 \<Longrightarrow> fst (copy_from_user src n) = map Some (take n src)"
  by (simp add: copy_from_user_def)

text \<open>Single words: user memory maps addresses to the integers stored there.
  \<open>get_user\<close> sets its variable to 0 when the address is not mapped.\<close>

type_synonym umem = "int \<Rightarrow> int option"

definition get_user :: "umem \<Rightarrow> int \<Rightarrow> errno option \<times> int" where
  "get_user um p = (case um p of None \<Rightarrow> (Some EFAULT, 0) | Some v \<Rightarrow> (None, v))"

definition put_user :: "int \<Rightarrow> int \<Rightarrow> umem \<Rightarrow> errno option \<times> umem" where
  "put_user v p um =
     (case um p of None \<Rightarrow> (Some EFAULT, um) | Some _ \<Rightarrow> (None, um(p \<mapsto> v)))"

text \<open>The status of such an access as a return value.\<close>

definition status :: "errno option \<Rightarrow> errno + int" where
  "status e = (case e of None \<Rightarrow> Inr 0 | Some err \<Rightarrow> Inl err)"

section \<open>Numbers of ioctl commands\<close>

text \<open>A command is 32 bits: two for the direction of the transfer, 14 for the size of the
  argument, eight for the type of the driver and eight for the number.\<close>

definition IOC_NONE :: "32 word" where "IOC_NONE = 0"
definition IOC_WRITE :: "32 word" where "IOC_WRITE = 1"
definition IOC_READ :: "32 word" where "IOC_READ = 2"

definition ioc :: "32 word \<Rightarrow> 32 word \<Rightarrow> 32 word \<Rightarrow> 32 word \<Rightarrow> 32 word" where
  "ioc dir typ nr sz = or (or (push_bit 30 dir) (push_bit 16 sz)) (or (push_bit 8 typ) nr)"

definition ioc_dir :: "32 word \<Rightarrow> 32 word" where "ioc_dir cmd = drop_bit 30 cmd"
definition ioc_size :: "32 word \<Rightarrow> 32 word" where "ioc_size cmd = and (drop_bit 16 cmd) 0x3fff"
definition ioc_type :: "32 word \<Rightarrow> 32 word" where "ioc_type cmd = and (drop_bit 8 cmd) 0xff"
definition ioc_nr :: "32 word \<Rightarrow> 32 word" where "ioc_nr cmd = and cmd 0xff"

text \<open>\<open>_IO\<close>, \<open>_IOR\<close>, \<open>_IOW\<close> and \<open>_IOWR\<close> for an argument of type \<open>int\<close>.\<close>

definition io_cmd :: "32 word \<Rightarrow> 32 word \<Rightarrow> 32 word" where
  "io_cmd typ nr = ioc IOC_NONE typ nr 0"
definition ior_cmd :: "32 word \<Rightarrow> 32 word \<Rightarrow> 32 word" where
  "ior_cmd typ nr = ioc IOC_READ typ nr 4"
definition iow_cmd :: "32 word \<Rightarrow> 32 word \<Rightarrow> 32 word" where
  "iow_cmd typ nr = ioc IOC_WRITE typ nr 4"
definition iowr_cmd :: "32 word \<Rightarrow> 32 word \<Rightarrow> 32 word" where
  "iowr_cmd typ nr = ioc (or IOC_READ IOC_WRITE) typ nr 4"

lemmas ioc_defs = ioc_def ioc_dir_def ioc_size_def ioc_type_def ioc_nr_def
  io_cmd_def ior_cmd_def iow_cmd_def iowr_cmd_def IOC_NONE_def IOC_READ_def IOC_WRITE_def

text \<open>The fields of a command are what it was made of.\<close>

lemma word_less_take_bit:
  "(x :: 32 word) < 4 \<Longrightarrow> take_bit 2 x = x"
  "(x :: 32 word) < 256 \<Longrightarrow> take_bit 8 x = x"
  "(x :: 32 word) < 16384 \<Longrightarrow> take_bit 14 x = x"
  by (simp_all add: word_uint_eq_iff take_bit_eq_mod word_less_def uint_mod)

lemma bit_ioc:
  "bit (ioc dir typ nr sz) n \<longleftrightarrow> n < 32 \<and>
     (30 \<le> n \<and> bit dir (n - 30) \<or> 16 \<le> n \<and> bit sz (n - 16) \<or> 8 \<le> n \<and> bit typ (n - 8) \<or> bit nr n)"
  by (auto simp: ioc_def bit_simps dest: bit_imp_le_length)

lemma and_ioc_masks: "and x (0xff :: 32 word) = take_bit 8 x" "and x (0x3fff :: 32 word) = take_bit 14 x" 
  by (simp_all add: take_bit_eq_mask mask_eq_decr_exp)

lemma ioc_fields:
  assumes "dir < 4" "typ < 256" "nr < 256" "sz < 16384"
  shows "ioc_dir (ioc dir typ nr sz) = dir" "ioc_type (ioc dir typ nr sz) = typ"
    "ioc_nr (ioc dir typ nr sz) = nr" "ioc_size (ioc dir typ nr sz) = sz"
proof -
  have t: "take_bit 2 dir = dir" "take_bit 8 typ = typ" "take_bit 8 nr = nr" "take_bit 14 sz = sz"
    using assms by (simp_all add: word_less_take_bit)
  have b: "bit dir n \<longleftrightarrow> bit dir n \<and> n < 2" "bit typ n \<longleftrightarrow> bit typ n \<and> n < 8" "bit nr n \<longleftrightarrow> bit nr n \<and> n < 8" "bit sz n \<longleftrightarrow> bit sz n \<and> n < 14" for n
    using t by (metis bit_take_bit_iff)+
  have b': "bit dir n \<Longrightarrow> n < 2" "bit typ n \<Longrightarrow> n < 8" "bit nr n \<Longrightarrow> n < 8" "bit sz n \<Longrightarrow> n < 14" for n
    using b by blast+
  show "ioc_dir (ioc dir typ nr sz) = dir"
    by (rule bit_word_eqI) (auto simp: ioc_dir_def bit_drop_bit_eq bit_ioc dest: b')
  show "ioc_type (ioc dir typ nr sz) = typ"
    by (rule bit_word_eqI) (auto simp: ioc_type_def and_ioc_masks bit_take_bit_iff bit_drop_bit_eq bit_ioc dest: b')
  show "ioc_nr (ioc dir typ nr sz) = nr"
    by (rule bit_word_eqI) (auto simp: ioc_nr_def and_ioc_masks bit_take_bit_iff bit_drop_bit_eq bit_ioc dest: b')
  show "ioc_size (ioc dir typ nr sz) = sz"
    by (rule bit_word_eqI) (auto simp: ioc_size_def and_ioc_masks bit_take_bit_iff bit_drop_bit_eq bit_ioc dest: b')
qed

section \<open>Semaphores\<close>

text \<open>\<open>down_interruptible\<close> takes the semaphore when it is free; otherwise it fails when a
  signal is pending and sleeps when none is. The result is the semaphore's new count.\<close>

definition down_interruptible :: "bool \<Rightarrow> int \<Rightarrow> (errno + int) outcome" where
  "down_interruptible sig sem =
     (if 0 < sem then Done (Inr (sem - 1)) else if sig then Done (Inl EINTR) else Block)"

definition down :: "int \<Rightarrow> int outcome" where
  "down sem = (if 0 < sem then Done (sem - 1) else Block)"

definition up :: "int \<Rightarrow> int" where
  "up sem = sem + 1"

lemma down_free [simp]:
  "0 < sem \<Longrightarrow> down_interruptible sig sem = Done (Inr (sem - 1))"
  "0 < sem \<Longrightarrow> down sem = Done (sem - 1)"
  by (simp_all add: down_interruptible_def down_def)

lemma up_down [simp]: "up (sem - 1) = sem"
  by (simp add: up_def)

section \<open>Results of file operations\<close>

text \<open>What a read or write leaves: the value returned, the bytes that reached the user
  buffer, the file position, the device and the kernel memory.\<close>

record 'd io =
  io_ret :: "errno + int"
  io_out :: "cell list"
  io_pos :: int
  io_dev :: 'd
  io_mem :: kmem

definition io_result ::
    "errno + int \<Rightarrow> cell list \<Rightarrow> int \<Rightarrow> 'd \<Rightarrow> kmem \<Rightarrow> 'd io outcome" where
  "io_result r out pos d k =
     Done \<lparr>io_ret = r, io_out = out, io_pos = pos, io_dev = d, io_mem = k\<rparr>"

text \<open>The access mode bits of \<open>f_flags\<close>.\<close>

definition O_ACCMODE :: int where "O_ACCMODE = 3"
definition O_WRONLY :: int where "O_WRONLY = 1"
definition O_NONBLOCK :: int where "O_NONBLOCK = 2048"

definition write_only :: "int \<Rightarrow> bool" where
  "write_only f_flags \<longleftrightarrow> and f_flags O_ACCMODE = O_WRONLY"

definition nonblocking :: "int \<Rightarrow> bool" where
  "nonblocking f_flags \<longleftrightarrow> and f_flags O_NONBLOCK \<noteq> 0"

section \<open>Counting the elements of a list with a property\<close>

definition num :: "('a \<Rightarrow> bool) \<Rightarrow> 'a list \<Rightarrow> int" where
  "num P xs = int (length (filter P xs))"

lemma num_update:
  "i < length xs \<Longrightarrow> num P (xs[i := x]) =
     num P xs - (if P (xs ! i) then 1 else 0) + (if P x then 1 else 0)"
proof -
  assume "i < length xs"
  then have "xs = take i xs @ xs ! i # drop (Suc i) xs"
    "xs[i := x] = take i xs @ x # drop (Suc i) xs"
    by (simp_all add: id_take_nth_drop upd_conv_take_nth_drop)
  then have "num P xs = num P (take i xs @ xs ! i # drop (Suc i) xs)"
    "num P (xs[i := x]) = num P (take i xs @ x # drop (Suc i) xs)"
    by simp_all
  then show ?thesis by (simp add: num_def)
qed

lemma num_nonneg [simp]: "0 \<le> num P xs"
  by (simp add: num_def)

lemma num_pos: "i < length xs \<Longrightarrow> P (xs ! i) \<Longrightarrow> 0 < num P xs"
  using length_pos_if_in_set [of "xs ! i" "filter P xs"] by (simp add: num_def)

lemma num_le: "num P xs \<le> int (length xs)"
  by (simp add: num_def)

lemma num_map: "(\<And>x. P (f x) = P x) \<Longrightarrow> num P (map f xs) = num P xs"
  by (simp add: num_def filter_map comp_def)

lemma list_all_update: "list_all P xs \<Longrightarrow> P x \<Longrightarrow> list_all P (xs[i := x])"
  by (auto simp: list_all_iff dest: set_update_subset_insert [THEN subsetD])

end
