(* ===== verification/Quantum_Store.thy ===== *)
theory Quantum_Store
  imports Kernel_Prelude
begin

text \<open>
  The memory layout all scull drivers share (\<open>struct scull_qset\<close> of scull.h and the
  corresponding fields of \<open>struct scullc_dev\<close> and its siblings): a linked list of items, each
  with a pointer to an array of \<open>qset\<close> pointers, each of which points to a quantum, a block of
  \<open>quantum\<close> bytes. Every pointer of the structure is set once, to a fresh allocation, so the
  structure is a tree: an item holds its address and, unless its \<open>data\<close> pointer is NULL, the
  address and the contents of its array.
\<close>

type_synonym quantum_block = "addr \<times> cell list"
type_synonym quantum_array = "addr \<times> quantum_block option list"

record qnode =
  qn_at :: addr
  qn_data :: "quantum_array option"

section \<open>Operations\<close>

subsection \<open>Locating a position\<close>

text \<open>The item, the index in its quantum set and the offset in the quantum:
  \<open>item = (long)*f_pos / itemsize; rest = (long)*f_pos % itemsize;
  s_pos = rest / quantum; q_pos = rest % quantum\<close>, each assigned to an \<open>int\<close>.\<close>

definition locate :: "int \<Rightarrow> int \<Rightarrow> int \<Rightarrow> (int \<times> int \<times> int) outcome" where
  "locate quantum qset f_pos =
     (let itemsize = s32 (quantum * qset) in
      and_then (c_div f_pos itemsize) (\<lambda>d.
      and_then (c_mod f_pos itemsize) (\<lambda>m.
      let item = s32 d; rest = s32 m in
      and_then (c_div rest quantum) (\<lambda>s_pos.
      and_then (c_mod rest quantum) (\<lambda>q_pos.
        Done (item, s32 s_pos, s32 q_pos))))))"

text \<open>Shortening a count: \<open>if (*f_pos + count > dev->size) count = dev->size - *f_pos;\<close> and
  \<open>if (count > quantum - q_pos) count = quantum - q_pos;\<close>, both in unsigned 64 bit arithmetic.\<close>

definition until_eof :: "int \<Rightarrow> int \<Rightarrow> int \<Rightarrow> int" where
  "until_eof len f_pos cnt = (if u64 (f_pos + cnt) > len then u64 (len - f_pos) else cnt)"

definition within_quantum :: "int \<Rightarrow> int \<Rightarrow> int \<Rightarrow> int" where
  "within_quantum quantum q_pos cnt =
     (if cnt > u64 (quantum - q_pos) then u64 (quantum - q_pos) else cnt)"

lemma until_eof_min:
  "\<lbrakk>0 \<le> f_pos; f_pos \<le> len; len < 9223372036854775808; 0 \<le> cnt; cnt < 9223372036854775808\<rbrakk>
    \<Longrightarrow> until_eof len f_pos cnt = min cnt (len - f_pos)"
  by (auto simp: until_eof_def u64_id)

lemma within_quantum_min:
  "\<lbrakk>0 \<le> q_pos; q_pos \<le> quantum; quantum < 2147483648\<rbrakk>
    \<Longrightarrow> within_quantum quantum q_pos cnt = min cnt (quantum - q_pos)"
  by (auto simp: within_quantum_def u64_id)

subsection \<open>Following the list\<close>

text \<open>The loop \<open>while (n--)\<close> of the \<open>follow\<close> functions, from the item at index \<open>i\<close>: a
  missing successor is allocated (\<open>new\<close> makes the cleared item) and linked. The count runs as
  an unsigned number of steps: a negative \<open>n\<close> counts down through the whole range of
  \<open>int\<close>. On an allocation failure the result is no item, and the list as far as it got.\<close>

fun follow_steps ::
    "(addr \<Rightarrow> 'a qnode_scheme) \<Rightarrow> int \<Rightarrow> nat \<Rightarrow> nat \<Rightarrow> 'a qnode_scheme list \<Rightarrow> kmem \<Rightarrow>
     nat option \<times> 'a qnode_scheme list \<times> kmem" where
  "follow_steps new bytes 0 i qs k = (Some i, qs, k)"
| "follow_steps new bytes (Suc n) i qs k =
     (if Suc i < length qs then follow_steps new bytes n (Suc i) qs k
      else case kmalloc bytes k of
        (None, k') \<Rightarrow> (None, qs, k')
      | (Some a, k') \<Rightarrow> follow_steps new bytes n (Suc i) (qs @ [new a]) k')"

definition loop_count :: "int \<Rightarrow> nat" where
  "loop_count n = nat (u32 n)"

subsection \<open>Reaching a quantum\<close>

text \<open>\<open>dptr->data[s_pos]\<close> once \<open>dptr->data\<close> is known not to be NULL.\<close>

definition array_get :: "quantum_array \<Rightarrow> int \<Rightarrow> quantum_block option outcome" where
  "array_get arr i =
     (if 0 \<le> i \<and> nat i < length (snd arr) then Done (snd arr ! nat i) else Crash Out_of_bounds)"

text \<open>The tests \<open>!dptr->data || !dptr->data[s_pos]\<close> of a read.\<close>

definition peek :: "'a qnode_scheme \<Rightarrow> int \<Rightarrow> quantum_block option outcome" where
  "peek node s_pos =
     (case qn_data node of None \<Rightarrow> Done None | Some arr \<Rightarrow> array_get arr s_pos)"

text \<open>Reading and writing a range of a block; an access past its end is a crash.\<close>

definition load_cells :: "cell list \<Rightarrow> int \<Rightarrow> int \<Rightarrow> cell list outcome" where
  "load_cells cs off n =
     (if 0 \<le> off \<and> off + n \<le> int (length cs) then Done (take (nat n) (drop (nat off) cs))
      else Crash Out_of_bounds)"

definition store_cells :: "cell list \<Rightarrow> int \<Rightarrow> cell list \<Rightarrow> cell list outcome" where
  "store_cells cs off new =
     (if 0 \<le> off \<and> off + int (length new) \<le> int (length cs)
      then Done (take (nat off) cs @ new @ drop (nat off + length new) cs)
      else Crash Out_of_bounds)"

text \<open>The body of a write once the item is found: allocate the array of \<open>qset\<close> cleared
  pointers and the quantum (by \<open>alloc\<close>, which differs between the drivers) if they are
  missing, then copy from the user. \<open>ENOMEM\<close> is the value of \<open>retval\<close> at the \<open>goto\<close>.\<close>

definition ensure_array ::
    "int \<Rightarrow> 'a qnode_scheme \<Rightarrow> kmem \<Rightarrow> quantum_array option \<times> kmem" where
  "ensure_array qset node k =
     (case qn_data node of
        Some arr \<Rightarrow> (Some arr, k)
      | None \<Rightarrow>
          (case kmalloc (qset * 8) k of
             (None, k') \<Rightarrow> (None, k')
           | (Some a, k') \<Rightarrow> (Some (a, replicate (nat qset) None), k')))"

definition ensure_quantum ::
    "(kmem \<Rightarrow> (quantum_block option \<times> kmem) outcome) \<Rightarrow> quantum_array \<Rightarrow> int \<Rightarrow> kmem \<Rightarrow>
     (quantum_block option \<times> kmem) outcome" where
  "ensure_quantum alloc arr s_pos k =
     and_then (array_get arr s_pos) (\<lambda>slot.
       case slot of Some q \<Rightarrow> Done (Some q, k) | None \<Rightarrow> alloc k)"

definition put_quantum ::
    "quantum_array \<Rightarrow> int \<Rightarrow> quantum_block \<Rightarrow> quantum_array" where
  "put_quantum arr s_pos q = (fst arr, (snd arr)[nat s_pos := Some q])"

definition fill_quantum ::
    "int \<Rightarrow> (kmem \<Rightarrow> (quantum_block option \<times> kmem) outcome) \<Rightarrow> int \<Rightarrow>
     'a qnode_scheme \<Rightarrow> int \<Rightarrow> int \<Rightarrow> byte list \<Rightarrow> int \<Rightarrow> kmem \<Rightarrow>
     ((errno + int) \<times> 'a qnode_scheme \<times> kmem) outcome" where
  "fill_quantum qset alloc quantum node s_pos q_pos ubuf cnt k =
     (case ensure_array qset node k of
        (None, k) \<Rightarrow> Done (Inl ENOMEM, node, k)
      | (Some arr, k) \<Rightarrow>
          and_then (ensure_quantum alloc arr s_pos k) (\<lambda>(slot, k).
            case slot of
              None \<Rightarrow> Done (Inl ENOMEM, node\<lparr>qn_data := Some arr\<rparr>, k)
            | Some (a, cs) \<Rightarrow>
                let cnt = within_quantum quantum q_pos cnt;
                    (new, missing) = copy_from_user ubuf (nat cnt)
                in and_then (store_cells cs q_pos new) (\<lambda>cs'.
                  Done (if missing \<noteq> 0 then Inl EFAULT else Inr cnt,
                        node\<lparr>qn_data := Some (put_quantum arr s_pos (a, cs'))\<rparr>, k))))"

subsection \<open>Freeing\<close>

text \<open>\<open>for (i = 0; i < qset; i++) kfree(dptr->data[i]);\<close> A NULL pointer is skipped, by
  \<open>kfree\<close> or by the test the drivers with their own allocator make.\<close>

fun free_quanta :: "nat \<Rightarrow> quantum_block option list \<Rightarrow> kmem \<Rightarrow> kmem outcome" where
  "free_quanta 0 ps k = Done k"
| "free_quanta (Suc n) [] k = Crash Out_of_bounds"
| "free_quanta (Suc n) (None # ps) k = free_quanta n ps k"
| "free_quanta (Suc n) (Some q # ps) k = and_then (kfree (fst q) k) (free_quanta n ps)"

definition free_item_data :: "int \<Rightarrow> 'a qnode_scheme \<Rightarrow> kmem \<Rightarrow> kmem outcome" where
  "free_item_data qset node k =
     (case qn_data node of
        None \<Rightarrow> Done k
      | Some (a, ps) \<Rightarrow> and_then (free_quanta (nat qset) ps k) (kfree a))"

fun free_items :: "int \<Rightarrow> 'a qnode_scheme list \<Rightarrow> kmem \<Rightarrow> kmem outcome" where
  "free_items qset [] k = Done k"
| "free_items qset (node # rest) k =
     and_then (free_item_data qset node k) (\<lambda>k.
     and_then (kfree (qn_at node) k) (free_items qset rest))"

section \<open>What the structure stores\<close>

text \<open>The cell at a position, \<open>None\<close> in a hole.\<close>

definition node_cell :: "'a qnode_scheme \<Rightarrow> nat \<Rightarrow> nat \<Rightarrow> cell option" where
  "node_cell node s r =
     (case qn_data node of
        None \<Rightarrow> None
      | Some (a, ps) \<Rightarrow>
          if length ps \<le> s then None
          else case ps ! s of
            None \<Rightarrow> None
          | Some (b, cs) \<Rightarrow> if length cs \<le> r then None else Some (cs ! r))"

definition cell_at :: "int \<Rightarrow> int \<Rightarrow> 'a qnode_scheme list \<Rightarrow> int \<Rightarrow> cell option" where
  "cell_at quantum qset qs p =
     (let i = nat (p div (quantum * qset)) in
      if p < 0 \<or> length qs \<le> i then None
      else node_cell (qs ! i) (nat (p mod (quantum * qset) div quantum)) (nat (p mod quantum)))"

definition block_ok :: "int \<Rightarrow> quantum_block option \<Rightarrow> bool" where
  "block_ok quantum q = (case q of None \<Rightarrow> True | Some (a, cs) \<Rightarrow> length cs = nat quantum)"

definition node_ok :: "int \<Rightarrow> int \<Rightarrow> 'a qnode_scheme \<Rightarrow> bool" where
  "node_ok quantum qset node =
     (case qn_data node of
        None \<Rightarrow> True
      | Some (a, ps) \<Rightarrow> length ps = nat qset \<and> list_all (block_ok quantum) ps)"

text \<open>The objects the structure owns.\<close>

fun block_addrs :: "quantum_block option list \<Rightarrow> addr list" where
  "block_addrs [] = []"
| "block_addrs (None # ps) = block_addrs ps"
| "block_addrs (Some q # ps) = fst q # block_addrs ps"

definition data_addrs :: "'a qnode_scheme \<Rightarrow> addr list" where
  "data_addrs node =
     (case qn_data node of None \<Rightarrow> [] | Some (a, ps) \<Rightarrow> block_addrs ps @ [a])"

definition node_addrs :: "'a qnode_scheme \<Rightarrow> addr list" where
  "node_addrs node = data_addrs node @ [qn_at node]"

definition nodes_addrs :: "'a qnode_scheme list \<Rightarrow> addr list" where
  "nodes_addrs qs = concat (map node_addrs qs)"


section \<open>Locating and following\<close>

text \<open>The geometry of a device: positive parameters whose product is an \<open>int\<close>.\<close>

definition geometry :: "int \<Rightarrow> int \<Rightarrow> bool" where
  "geometry quantum qset \<longleftrightarrow> 0 < quantum \<and> 0 < qset \<and> quantum * qset < 2147483648"

lemma geometry_bounds:
  assumes "geometry quantum qset"
  shows "quantum < 2147483648" "qset < 2147483648" "0 < quantum * qset"
proof -
  from assms have pos: "0 < quantum" "0 < qset" "quantum * qset < 2147483648"
    by (auto simp: geometry_def)
  then have "quantum * 1 \<le> quantum * qset" "1 * qset \<le> quantum * qset"
    by (intro mult_mono; simp)+
  with pos(3) show "quantum < 2147483648" "qset < 2147483648"
    by linarith+
  from pos show "0 < quantum * qset" by simp
qed

lemma slot_index:
  "0 < quantum \<Longrightarrow> 0 < qset \<Longrightarrow> p mod (quantum * qset) div quantum = (p div quantum) mod (qset::int)"
  by (simp add: zmod_zmult2_eq)

lemma locate_ok:
  assumes g: "geometry quantum qset" and p: "0 \<le> p" "p div (quantum * qset) < 2147483648"
  shows "locate quantum qset p =
      Done (p div (quantum * qset), p mod (quantum * qset) div quantum, p mod quantum)"
    and "0 \<le> p mod (quantum * qset) div quantum" "p mod (quantum * qset) div quantum < qset"
    and "0 \<le> p mod quantum" "p mod quantum < quantum"
proof -
  let ?I = "quantum * qset"
  note b = geometry_bounds [OF g]
  have pos: "0 < quantum" "0 < qset" "?I < 2147483648"
    using g by (auto simp: geometry_def)
  have m: "0 \<le> p mod ?I" "p mod ?I < ?I"
    using b by simp_all
  show s: "0 \<le> p mod ?I div quantum"
    using m pos by (simp add: pos_imp_zdiv_nonneg_iff)
  show s': "p mod ?I div quantum < qset"
    using pos by (simp add: slot_index)
  show r: "0 \<le> p mod quantum" "p mod quantum < quantum"
    using pos by simp_all
  have d: "0 \<le> p div ?I"
    using p b by (simp add: pos_imp_zdiv_nonneg_iff)
  have e: "s32 ?I = ?I" "s32 (p mod ?I) = p mod ?I" "s32 (p div ?I) = p div ?I"
      "s32 (p mod ?I div quantum) = p mod ?I div quantum" "s32 (p mod quantum) = p mod quantum"
    using b m pos p d s s' r by (intro s32_id; linarith)+
  have c: "c_div p ?I = Done (p div ?I)" "c_mod p ?I = Done (p mod ?I)"
      "c_div (p mod ?I) quantum = Done (p mod ?I div quantum)"
      "c_mod (p mod ?I) quantum = Done (p mod quantum)"
    using p b(3) m pos
    by (simp_all only: c_div_nonneg c_mod_nonneg mod_mod_cancel dvd_triv_left)
  show "locate quantum qset p = Done (p div ?I, p mod ?I div quantum, p mod quantum)"
    unfolding locate_def Let_def by (simp only: e c and_then.simps)
qed

lemma follow_steps_present:
  "i + n < length qs \<Longrightarrow> follow_steps new bytes n i qs k = (Some (i + n), qs, k)"
  by (induction n arbitrary: i) auto

lemma follow_steps_result:
  assumes "follow_steps new bytes n i qs k = (r, qs', k')" and "i < length qs"
  shows "\<exists>as. qs' = qs @ map new as \<and> (\<forall>j. r = Some j \<longrightarrow> j = i + n \<and> j < length qs')
      \<and> length qs' \<le> max (length qs) (Suc (i + n)) \<and> (\<forall>f. accounted k f k' (as @ f))"
  using assms
proof (induction n arbitrary: i qs k)
  case 0
  then show ?case by auto
next
  case (Suc n)
  show ?case
  proof (cases "Suc i < length qs")
    case True
    with Suc.prems have "follow_steps new bytes n (Suc i) qs k = (r, qs', k')" by simp
    from Suc.IH [OF this True] show ?thesis by auto
  next
    case False
    show ?thesis
    proof (cases "kmalloc bytes k")
      case (Pair q k1)
      show ?thesis
      proof (cases q)
        case None
        with Suc.prems False Pair have "r = None" "qs' = qs" "k' = k1" by auto
        with kmalloc_accounted(2) [of bytes k k1] Pair None show ?thesis by auto
      next
        case (Some a)
        with Suc.prems False Pair have
          step: "follow_steps new bytes n (Suc i) (qs @ [new a]) k1 = (r, qs', k')" by simp
        have "Suc i < length (qs @ [new a])" using Suc.prems(2) by simp
        from Suc.IH [OF step this] obtain as where as:
          "qs' = (qs @ [new a]) @ map new as"
          "\<forall>j. r = Some j \<longrightarrow> j = Suc i + n \<and> j < length qs'"
          "length qs' \<le> max (length (qs @ [new a])) (Suc (Suc i + n))"
          "\<forall>f. accounted k1 f k' (as @ f)"
          by blast
        have "accounted k f k' ((a # as) @ f)" for f
        proof -
          have "accounted k f k1 (a # f)" using kmalloc_accounted(1) Pair Some by blast
          moreover have "accounted k1 (a # f) k' (as @ a # f)" using as(4) by blast
          ultimately have "accounted k f k' (as @ a # f)" by (rule accounted_trans)
          then show ?thesis
            by (simp add: accounted_mset [of f f "as @ a # f" "(a # as) @ f"])
        qed
        with as(1-3) Suc.prems(2) False show ?thesis by (intro exI [of _ "a # as"]) auto
      qed
    qed
  qed
qed

section \<open>Filling a quantum\<close>

lemma store_cells_Done:
  assumes "store_cells cs off new = Done cs'"
  shows "length cs' = length cs"
    and "x < length cs \<Longrightarrow> cs' ! x =
      (if nat off \<le> x \<and> x < nat off + length new then new ! (x - nat off) else cs ! x)"
  using assms by (auto simp: store_cells_def nth_append min_def split: if_splits)

lemma store_cells_total:
  "0 \<le> off \<Longrightarrow> off + int (length new) \<le> int (length cs) \<Longrightarrow> \<exists>cs'. store_cells cs off new = Done cs'"
  by (simp add: store_cells_def)

lemma block_addrs_replicate [simp]: "block_addrs (replicate n None) = []"
  by (induction n) auto

lemma block_addrs_put_same:
  "s < length ps \<Longrightarrow> ps ! s = Some (b, cs) \<Longrightarrow> block_addrs (ps[s := Some (b, cs')]) = block_addrs ps"
proof (induction ps arbitrary: s)
  case (Cons p ps)
  then show ?case by (cases p; cases s) auto
qed simp

lemma block_addrs_put_new:
  "s < length ps \<Longrightarrow> ps ! s = None \<Longrightarrow>
     mset (block_addrs (ps[s := Some (b, cs)])) = mset (b # block_addrs ps)"
proof (induction ps arbitrary: s)
  case (Cons p ps)
  then show ?case by (cases p; cases s) auto
qed simp

lemma data_addrs_simps [simp]:
  "data_addrs (node\<lparr>qn_data := Some (a, ps)\<rparr>) = block_addrs ps @ [a]"
  "qn_data node = None \<Longrightarrow> data_addrs node = []"
  "qn_data node = Some (a, ps) \<Longrightarrow> data_addrs node = block_addrs ps @ [a]"
  by (simp_all add: data_addrs_def)

lemma node_cell_put:
  assumes "s < length ps"
  shows "node_cell (node\<lparr>qn_data := Some (a, ps[s := Some (b, cs)])\<rparr>) t x =
     (if t = s then (if x < length cs then Some (cs ! x) else None)
      else node_cell (node\<lparr>qn_data := Some (a, ps)\<rparr>) t x)"
  using assms by (simp add: node_cell_def)

lemma node_cell_cleared [simp]:
  "node_cell (node\<lparr>qn_data := Some (a, replicate n None)\<rparr>) = (\<lambda>_ _. None)"
  "qn_data node = None \<Longrightarrow> node_cell node = (\<lambda>_ _. None)"
  "qn_data node = Some arr \<Longrightarrow> node_cell (node\<lparr>qn_data := Some arr\<rparr>) = node_cell node"
  by (auto simp: node_cell_def fun_eq_iff not_le)

lemma ensure_array_result:
  assumes "ensure_array qset node k = (r, k')" and "node_ok quantum qset node"
  shows "r = None \<Longrightarrow> accounted k f k' f"
    and "r = Some (a, ps) \<Longrightarrow> node_ok quantum qset (node\<lparr>qn_data := Some (a, ps)\<rparr>)"
    and "r = Some (a, ps) \<Longrightarrow> node_cell (node\<lparr>qn_data := Some (a, ps)\<rparr>) = node_cell node"
    and "r = Some (a, ps) \<Longrightarrow> accounted k (data_addrs node @ f) k' (block_addrs ps @ [a] @ f)"
  using assms kmalloc_accounted
  by (auto simp: ensure_array_def node_ok_def block_ok_def list_all_iff
      split: option.splits prod.splits)

text \<open>What a write leaves in its item: bytes outside the range written keep their value, other
  quanta are untouched, and a successful write stores the bytes given.\<close>

definition filled ::
    "'a qnode_scheme \<Rightarrow> nat \<Rightarrow> nat \<Rightarrow> int \<Rightarrow> byte list \<Rightarrow> errno + int \<Rightarrow> 'a qnode_scheme \<Rightarrow> bool" where
  "filled node s r lim ubuf ret node' \<longleftrightarrow>
     qn_at node' = qn_at node \<and> qnode.more node' = qnode.more node \<and>
     (\<forall>t x. t \<noteq> s \<longrightarrow> node_cell node' t x = node_cell node t x) \<and>
     (\<forall>x v. (x < r \<or> r + nat lim \<le> x) \<longrightarrow> node_cell node s x = Some v \<longrightarrow>
        node_cell node' s x = Some v) \<and>
     (case ret of
        Inl e \<Rightarrow> (e = ENOMEM \<and> node_cell node' = node_cell node) \<or>
                 (e = EFAULT \<and> int (length ubuf) < lim)
      | Inr c \<Rightarrow> c = lim \<and> c \<le> int (length ubuf) \<and>
          (\<forall>x < nat c. node_cell node' s (r + x) = Some (Some (ubuf ! x))))"

text \<open>The last part of a write: the block is there, the bytes are copied into it.\<close>

lemma fill_block:
  assumes ok: "node_ok quantum qset (node\<lparr>qn_data := Some (a, ps)\<rparr>)"
    and s: "nat s < length ps" and r: "0 \<le> r" "r < quantum" and n: "0 \<le> lim" "lim \<le> quantum - r"
    and len: "length cs = nat quantum"
    and old: "\<And>x v. node_cell (node\<lparr>qn_data := Some (a, ps)\<rparr>) (nat s) x = Some v \<Longrightarrow>
        x < length cs \<and> cs ! x = v"
    and cu: "copy_from_user ubuf (nat lim) = (new, missing)"
  obtains cs' where "store_cells cs r new = Done cs'" "length cs' = nat quantum"
    "node_ok quantum qset (node\<lparr>qn_data := Some (put_quantum (a, ps) s (b, cs'))\<rparr>)"
    "filled (node\<lparr>qn_data := Some (a, ps)\<rparr>) (nat s) (nat r) lim ubuf
      (if missing \<noteq> 0 then Inl EFAULT else Inr lim)
      (node\<lparr>qn_data := Some (put_quantum (a, ps) s (b, cs'))\<rparr>)"
proof -
  have new: "length new = nat lim" "missing = nat lim - length ubuf"
      "missing = 0 \<Longrightarrow> new = map Some (take (nat lim) ubuf)"
    using cu by (auto simp: copy_from_user_def)
  have "r + int (length new) \<le> int (length cs)"
    using r n new len by auto
  then obtain cs' where st: "store_cells cs r new = Done cs'"
    using store_cells_total r(1) by blast
  note st' = store_cells_Done [OF st]
  let ?node = "node\<lparr>qn_data := Some (a, ps)\<rparr>"
  let ?node' = "node\<lparr>qn_data := Some (put_quantum (a, ps) s (b, cs'))\<rparr>"
  let ?ret = "if missing \<noteq> 0 then Inl EFAULT else Inr lim"
  have cell: "node_cell ?node' t x =
      (if t = nat s then (if x < length cs' then Some (cs' ! x) else None)
       else node_cell ?node t x)" for t x
    unfolding put_quantum_def fst_conv snd_conv by (rule node_cell_put [OF s])
  have stored: "\<forall>x < nat lim. node_cell ?node' (nat s) (nat r + x) = Some (Some (ubuf ! x))"
    if "missing = 0"
    using that new cell st' len r n by auto
  have kept: "node_cell ?node' (nat s) x = Some v"
    if "x < nat r \<or> nat r + nat lim \<le> x" "node_cell ?node (nat s) x = Some v" for x v
    using that old [OF that(2)] st' new(1) by (auto simp: cell)
  have "filled ?node (nat s) (nat r) lim ubuf ?ret ?node'"
    unfolding filled_def
    using stored kept new(2) n by (auto simp: cell)
  moreover have "node_ok quantum qset ?node'"
    using ok len st'(1) s
    by (auto simp: node_ok_def block_ok_def put_quantum_def list_all_length nth_list_update)
  ultimately show ?thesis using st st'(1) len by (intro that) auto
qed

lemma filled_kept:
  "\<lbrakk>filled node s r lim ubuf ret node'; x < r \<or> r + nat lim \<le> x; node_cell node s x = Some v\<rbrakk>
    \<Longrightarrow> node_cell node' s x = Some v"
  unfolding filled_def by blast

lemma filled_qn_data [simp]:
  "node_cell (node\<lparr>qn_data := d\<rparr>) = node_cell node \<Longrightarrow>
     filled (node\<lparr>qn_data := d\<rparr>) s r lim ubuf ret node' = filled node s r lim ubuf ret node'"
  by (simp add: filled_def split: sum.split)

lemma put_quantum_addrs:
  assumes "nat s < length ps"
    and "ps ! nat s = Some (b, cs) \<and> as = [] \<or> ps ! nat s = None \<and> as = [b]"
    and "accounted k1 (block_addrs ps @ [a] @ f) k2 (as @ block_addrs ps @ [a] @ f)"
  shows "accounted k1 (block_addrs ps @ [a] @ f) k2
      (data_addrs (node\<lparr>qn_data := Some (put_quantum (a, ps) s (b, cs'))\<rparr>) @ f)"
  using assms(2)
proof
  assume "ps ! nat s = Some (b, cs) \<and> as = []"
  then show ?thesis using assms(1,3) by (simp add: put_quantum_def block_addrs_put_same)
next
  assume new: "ps ! nat s = None \<and> as = [b]"
  then have "mset (data_addrs (node\<lparr>qn_data := Some (put_quantum (a, ps) s (b, cs'))\<rparr>) @ f) =
      mset (as @ block_addrs ps @ [a] @ f)"
    using block_addrs_put_new [OF assms(1), of b cs'] by (simp add: put_quantum_def)
  then show ?thesis using assms(3) accounted_mset by blast
qed

locale quantum_allocator =
  fixes alloc :: "kmem \<Rightarrow> (quantum_block option \<times> kmem) outcome" and quantum :: int
  assumes alloc_total: "\<exists>q k'. alloc k = Done (q, k')"
    and alloc_length: "alloc k = Done (Some (a, cs), k') \<Longrightarrow> length cs = nat quantum"
    and alloc_accounted: "alloc k = Done (Some (a, cs), k') \<Longrightarrow> accounted k f k' (a # f)"
    and alloc_failed: "alloc k = Done (None, k') \<Longrightarrow> accounted k f k' f"
begin

lemma ensure_quantum_result:
  assumes s: "0 \<le> s" "s < int (length ps)" and ok: "list_all (block_ok quantum) ps"
  obtains (failed) k' where "ensure_quantum alloc (a, ps) s k = Done (None, k')"
      "ps ! nat s = None" "\<And>f. accounted k f k' f"
    | (present) b cs where "ensure_quantum alloc (a, ps) s k = Done (Some (b, cs), k)"
      "ps ! nat s = Some (b, cs)" "length cs = nat quantum"
    | (fresh) b cs k' where "ensure_quantum alloc (a, ps) s k = Done (Some (b, cs), k')"
      "ps ! nat s = None" "length cs = nat quantum" "\<And>f. accounted k f k' (b # f)"
proof (cases "ps ! nat s")
  case None
  obtain q k' where al: "alloc k = Done (q, k')" using alloc_total by blast
  with None s have eq: "ensure_quantum alloc (a, ps) s k = Done (q, k')"
    by (simp add: ensure_quantum_def array_get_def)
  show ?thesis
  proof (cases q)
    case None
    with eq al \<open>ps ! nat s = None\<close> alloc_failed show ?thesis by (intro failed) auto
  next
    case (Some p)
    with eq al \<open>ps ! nat s = None\<close> alloc_length alloc_accounted show ?thesis
      by (cases p) (intro fresh, auto)
  qed
next
  case (Some p)
  moreover have "block_ok quantum (ps ! nat s)"
    using ok s by (simp add: list_all_length)
  ultimately show ?thesis
    using s by (cases p) (intro present, auto simp: ensure_quantum_def array_get_def block_ok_def)
qed

lemma fill_quantum_result:
  assumes ok: "node_ok quantum qset node" and g: "geometry quantum qset"
    and s: "0 \<le> s" "s < qset" and r: "0 \<le> r" "r < quantum" and n: "0 \<le> n"
  obtains ret node' k' where
    "fill_quantum qset alloc quantum node s r ubuf n k = Done (ret, node', k')"
    "node_ok quantum qset node'"
    "filled node (nat s) (nat r) (min n (quantum - r)) ubuf ret node'"
    "\<And>f. accounted k (data_addrs node @ f) k' (data_addrs node' @ f)"
proof -
  let ?lim = "min n (quantum - r)"
  note result = that
  have q: "within_quantum quantum r n = ?lim"
    using r geometry_bounds(1) [OF g] by (intro within_quantum_min) auto
  obtain new missing where cu: "copy_from_user ubuf (nat ?lim) = (new, missing)" by fastforce
  obtain arr k1 where ea: "ensure_array qset node k = (arr, k1)" by fastforce
  note ear = ensure_array_result [OF ea ok]
  show ?thesis
  proof (cases arr)
    case None
    then show ?thesis
      using ear(1) ea ok
      by (intro result [of "Inl ENOMEM" node k1]) (auto simp: fill_quantum_def filled_def)
  next
    case (Some p)
    obtain a ps where p: "p = (a, ps)" by fastforce
    let ?node = "node\<lparr>qn_data := Some (a, ps)\<rparr>"
    note arr = ear(2-4) [OF Some [unfolded p]]
    have ps: "length ps = nat qset" "list_all (block_ok quantum) ps"
      using arr(1) by (auto simp: node_ok_def)
    have s': "nat s < length ps" "s < int (length ps)" using s ps by auto
    have filling: ?thesis
      if eq: "ensure_quantum alloc (a, ps) s k1 = Done (Some (b, cs), k2)"
        and len: "length cs = nat quantum"
        and slot: "ps ! nat s = Some (b, cs) \<and> bs = [] \<or> ps ! nat s = None \<and> bs = [b]"
        and acc: "\<And>f. accounted k1 f k2 (bs @ f)"
      for b cs k2 bs
    proof -
      have old: "x < length cs \<and> cs ! x = v" if "node_cell ?node (nat s) x = Some v" for x v
        using that slot s'(1) by (auto simp: node_cell_def split: if_splits)
      obtain cs' where cs': "store_cells cs r new = Done cs'"
          "node_ok quantum qset (node\<lparr>qn_data := Some (put_quantum (a, ps) s (b, cs'))\<rparr>)"
          "filled ?node (nat s) (nat r) ?lim ubuf (if missing \<noteq> 0 then Inl EFAULT else Inr ?lim)
            (node\<lparr>qn_data := Some (put_quantum (a, ps) s (b, cs'))\<rparr>)"
        using fill_block [OF arr(1) s'(1) r _ _ len old cu] n r by auto
      show ?thesis
      proof (rule result)
        show "fill_quantum qset alloc quantum node s r ubuf n k =
            Done (if missing \<noteq> 0 then Inl EFAULT else Inr ?lim,
              node\<lparr>qn_data := Some (put_quantum (a, ps) s (b, cs'))\<rparr>, k2)"
          using ea Some p eq q cu cs'(1) by (simp add: fill_quantum_def)
      qed (use cs'(2,3) arr(2) accounted_trans [OF arr(3) put_quantum_addrs [OF s'(1) slot acc]]
        in simp_all)
    qed
    show ?thesis
    proof (rule ensure_quantum_result [OF s(1) s'(2) ps(2), where k = k1 and a = a])
      fix k2 assume "ensure_quantum alloc (a, ps) s k1 = Done (None, k2)" "\<And>f. accounted k1 f k2 f"
      then show ?thesis
        using ea Some p arr accounted_trans [OF arr(3)]
        by (intro result [of "Inl ENOMEM" ?node k2]) (auto simp: fill_quantum_def filled_def)
    next
      fix b cs assume "ensure_quantum alloc (a, ps) s k1 = Done (Some (b, cs), k1)"
        "ps ! nat s = Some (b, cs)" "length cs = nat quantum"
      then show ?thesis by (intro filling [of b cs k1 "[]"]) auto
    next
      fix b cs k2 assume "ensure_quantum alloc (a, ps) s k1 = Done (Some (b, cs), k2)"
        "ps ! nat s = None" "length cs = nat quantum" "\<And>f. accounted k1 f k2 (b # f)"
      then show ?thesis by (intro filling [of b cs k2 "[b]"]) auto
    qed
  qed
qed

end

section \<open>Freeing everything\<close>

lemma free_quanta_all: "free_quanta (length ps) ps k = kfree_all (block_addrs ps) k"
proof (induction ps arbitrary: k)
  case (Cons q ps)
  then show ?case by (cases q) (auto intro: and_then_cong)
qed simp

lemma free_item_data_all:
  assumes "node_ok quantum qset node"
  shows "free_item_data qset node k = kfree_all (data_addrs node) k"
proof (cases "qn_data node")
  case (Some arr)
  then obtain a ps where arr: "qn_data node = Some (a, ps)" by (cases arr) auto
  with assms have "nat qset = length ps" by (simp add: node_ok_def)
  then have "free_quanta (nat qset) ps k = kfree_all (block_addrs ps) k"
    by (simp add: free_quanta_all)
  moreover have "and_then m (kfree a) = and_then m (kfree_all [a])" for m
    by (cases m) (auto simp: kfree_def split: option.split)
  ultimately show ?thesis
    using arr by (simp add: free_item_data_def kfree_all_append)
qed (simp add: free_item_data_def)

lemma free_items_all:
  "list_all (node_ok quantum qset) qs \<Longrightarrow> free_items qset qs k = kfree_all (nodes_addrs qs) k"
proof (induction qs arbitrary: k)
  case Nil
  then show ?case by (simp add: nodes_addrs_def)
next
  case (Cons node qs)
  then have "free_items qset qs = kfree_all (nodes_addrs qs)" by auto
  with Cons.prems show ?case
    by (auto simp: nodes_addrs_def node_addrs_def kfree_all_append free_item_data_all
        and_then_assoc intro!: and_then_cong)
qed

section \<open>The structure as a sparse array\<close>

text \<open>A position is a block number and an offset: block \<open>b\<close> is entry \<open>b mod qset\<close> of item
  \<open>b div qset\<close>.\<close>

definition block_cell :: "int \<Rightarrow> 'a qnode_scheme list \<Rightarrow> int \<Rightarrow> int \<Rightarrow> cell option" where
  "block_cell qset qs b off =
     (if length qs \<le> nat (b div qset) then None
      else node_cell (qs ! nat (b div qset)) (nat (b mod qset)) (nat off))"

lemma cell_at_block:
  assumes "geometry quantum qset" and "0 \<le> p"
  shows "cell_at quantum qset qs p = block_cell qset qs (p div quantum) (p mod quantum)"
  using assms
  by (simp add: cell_at_def block_cell_def Let_def geometry_def slot_index zdiv_zmult2_eq)

lemma cell_at_negative [simp]: "p < 0 \<Longrightarrow> cell_at quantum qset qs p = None"
  by (simp add: cell_at_def)

lemma cell_at_Nil [simp]: "cell_at quantum qset [] p = None"
  by (simp add: cell_at_def)

lemma cell_at_cleared_items:
  assumes "\<And>a. qn_data (new a) = None"
  shows "cell_at quantum qset (qs @ map new as) = cell_at quantum qset qs"
  using assms by (auto simp: cell_at_def Let_def fun_eq_iff nth_append not_le)

lemma block_of_index:
  assumes "0 < (qset::int)" "0 \<le> b" "0 \<le> b'"
  shows "nat (b' div qset) = nat (b div qset) \<and> nat (b' mod qset) = nat (b mod qset) \<longleftrightarrow> b' = b"
proof -
  have "0 \<le> b div qset" "0 \<le> b' div qset"
    using assms by (simp_all add: pos_imp_zdiv_nonneg_iff)
  moreover have "0 \<le> b mod qset" "0 \<le> b' mod qset" using assms by simp_all
  ultimately have "nat (b' div qset) = nat (b div qset) \<and> nat (b' mod qset) = nat (b mod qset) \<longleftrightarrow>
      b' div qset = b div qset \<and> b' mod qset = b mod qset"
    by (auto simp: eq_nat_nat_iff)
  also have "\<dots> \<longleftrightarrow> b' = b"
    by (metis mult_div_mod_eq)
  finally show ?thesis .
qed

lemma block_cell_filled:
  assumes "0 < qset" "0 \<le> b" "0 \<le> b'" and i: "nat (b div qset) < length qs"
    and fl: "filled (qs ! nat (b div qset)) (nat (b mod qset)) r lim ubuf ret node'"
  shows "block_cell qset (qs[nat (b div qset) := node']) b' x =
      (if b' = b then node_cell node' (nat (b mod qset)) (nat x) else block_cell qset qs b' x)"
proof (cases "nat (b' div qset) = nat (b div qset) \<and> b' \<noteq> b")
  case True
  then have "nat (b' mod qset) \<noteq> nat (b mod qset)"
    using block_of_index [OF assms(1-3)] by auto
  then show ?thesis using True i fl by (simp add: block_cell_def filled_def)
next
  case False
  then show ?thesis using i by (auto simp: block_cell_def)
qed

lemma same_block_offset:
  assumes "p' div quantum = p div (quantum::int)" "0 < quantum" "0 \<le> lim"
    and "p' < p \<or> p + lim \<le> p'"
  shows "nat (p' mod quantum) < nat (p mod quantum) \<or>
      nat (p mod quantum) + nat lim \<le> nat (p' mod quantum)"
proof -
  have "p' - p = p' mod quantum - p mod quantum"
    using assms(1) by (metis add_diff_cancel_left mult_div_mod_eq)
  moreover have "0 \<le> p' mod quantum" "0 \<le> p mod quantum" using assms(2) by simp_all
  ultimately show ?thesis using assms(3,4) by linarith
qed

lemma cell_at_filled:
  assumes g: "geometry quantum qset" and p: "0 \<le> p" "nat (p div (quantum * qset)) < length qs"
    and lim: "0 \<le> lim" "lim \<le> quantum - p mod quantum"
    and fl: "filled (qs ! nat (p div (quantum * qset)))
       (nat (p mod (quantum * qset) div quantum)) (nat (p mod quantum)) lim ubuf ret node'"
  defines "qs' \<equiv> qs[nat (p div (quantum * qset)) := node']"
  shows "\<lbrakk>p' < p \<or> p + lim \<le> p'; cell_at quantum qset qs p' = Some v\<rbrakk>
      \<Longrightarrow> cell_at quantum qset qs' p' = Some v"
    and "\<lbrakk>ret = Inr c; 0 \<le> j; j < c\<rbrakk> \<Longrightarrow>
      cell_at quantum qset qs' (p + j) = Some (Some (ubuf ! nat j))"
    and "p' div quantum \<noteq> p div quantum \<Longrightarrow> cell_at quantum qset qs' p' = cell_at quantum qset qs p'"
proof -
  let ?b = "p div quantum"
  have pos: "0 < quantum" "0 < qset" using g by (auto simp: geometry_def)
  have idx: "p div (quantum * qset) = ?b div qset" "p mod (quantum * qset) div quantum = ?b mod qset"
    using pos by (simp_all add: zdiv_zmult2_eq slot_index)
  have b0: "0 \<le> ?b" using p pos by (simp add: pos_imp_zdiv_nonneg_iff)
  note fl = fl [unfolded idx] and i = p(2) [unfolded idx]
  have cell: "cell_at quantum qset qs' x = (if x div quantum = ?b
      then node_cell node' (nat (?b mod qset)) (nat (x mod quantum)) else cell_at quantum qset qs x)"
    if "0 \<le> x" for x
    using block_cell_filled [OF pos(2) b0 _ i fl] that pos g
    by (simp add: cell_at_block qs'_def idx pos_imp_zdiv_nonneg_iff)
  show "cell_at quantum qset qs' p' = Some v"
    if out: "p' < p \<or> p + lim \<le> p'" and old: "cell_at quantum qset qs p' = Some v" for v p'
  proof (cases "p' div quantum = ?b")
    case True
    have p': "0 \<le> p'" using old by (metis cell_at_negative not_le option.distinct(1))
    have "node_cell (qs ! nat (?b div qset)) (nat (?b mod qset)) (nat (p' mod quantum)) = Some v"
      using old True i g p' by (simp add: cell_at_block block_cell_def)
    then have "node_cell node' (nat (?b mod qset)) (nat (p' mod quantum)) = Some v"
      by (rule filled_kept [OF fl same_block_offset [OF True pos(1) lim(1) out]])
    then show ?thesis using cell [OF p'] True by simp
  next
    case False
    then show ?thesis using old cell by (metis cell_at_negative not_le)
  qed
  show "cell_at quantum qset qs' (p + j) = Some (Some (ubuf ! nat j))"
    if "ret = Inr c" "0 \<le> j" "j < c" for c j
  proof -
    have lt: "p mod quantum + j < quantum" "c = lim" using that fl lim by (auto simp: filled_def)
    have eq: "p + j = quantum * ?b + (p mod quantum + j)" by simp
    have "0 \<le> p mod quantum + j" using that(2) pos by simp
    then have "(p + j) div quantum = ?b" "(p + j) mod quantum = p mod quantum + j"
      using int_div_pos_eq [OF eq] int_mod_pos_eq [OF eq] lt(1) by blast+
    then show ?thesis
      using cell [of "p + j"] that fl p pos by (simp add: filled_def nat_add_distrib)
  qed
  show "cell_at quantum qset qs' p' = cell_at quantum qset qs p'"
    if "p' div quantum \<noteq> ?b" for p'
    using that cell by (cases "0 \<le> p'") auto
qed

section \<open>Reads and writes of a list of items\<close>

text \<open>What a write of \<open>lim\<close> bytes at \<open>p\<close> does to the cells: the cells outside the range that
  exist are kept, other blocks do not change at all, and a write that succeeds stores the
  bytes of the user buffer.\<close>

definition wrote ::
    "int \<Rightarrow> byte list \<Rightarrow> int \<Rightarrow> int \<Rightarrow> errno + int \<Rightarrow> (int \<Rightarrow> cell option) \<Rightarrow> (int \<Rightarrow> cell option) \<Rightarrow> bool"
    where
  "wrote quantum ubuf p lim ret cell cell' \<longleftrightarrow>
     (\<forall>p' v. (p' < p \<or> p + lim \<le> p') \<longrightarrow> cell p' = Some v \<longrightarrow> cell' p' = Some v) \<and>
     (\<forall>p'. p' div quantum \<noteq> p div quantum \<longrightarrow> cell' p' = cell p') \<and>
     (case ret of
        Inl e \<Rightarrow> e = ENOMEM \<and> cell' = cell \<or> e = EFAULT \<and> int (length ubuf) < lim
      | Inr c \<Rightarrow> c = lim \<and> c \<le> int (length ubuf) \<and>
          (\<forall>j. 0 \<le> j \<longrightarrow> j < c \<longrightarrow> cell' (p + j) = Some (Some (ubuf ! nat j))))"

text \<open>What a read of \<open>cnt\<close> bytes at \<open>pos\<close> returns on a file with contents \<open>cell\<close> and length
  \<open>len\<close>: nothing at the end of the file and in a hole, otherwise the bytes up to the end of the
  quantum, the end of the file or the count, whichever is first.\<close>

definition read_spec ::
    "(int \<Rightarrow> cell option) \<Rightarrow> int \<Rightarrow> int \<Rightarrow> nat \<Rightarrow> int \<Rightarrow> int \<Rightarrow> (errno + int) \<times> cell list \<times> int" where
  "read_spec cell len quantum room cnt pos =
     (if len \<le> pos \<or> cell pos = None then (Inr 0, [], pos)
      else let n = min cnt (min (len - pos) (quantum - pos mod quantum));
               src = map (\<lambda>j. the (cell (pos + int j))) [0..<nat n]
           in if n \<le> int room then (Inr n, src, pos + n) else (Inl EFAULT, take room src, pos))"

lemma nodes_addrs_append [simp]: "nodes_addrs (xs @ ys) = nodes_addrs xs @ nodes_addrs ys"
  by (simp add: nodes_addrs_def)

lemma nodes_addrs_Cons [simp]: "nodes_addrs (x # xs) = node_addrs x @ nodes_addrs xs"
  by (simp add: nodes_addrs_def)

lemma nodes_addrs_Nil [simp]: "nodes_addrs [] = []"
  by (simp add: nodes_addrs_def)

lemma nodes_addrs_cleared:
  assumes "\<And>a. qn_data (new a) = None" "\<And>a. qn_at (new a) = a"
  shows "nodes_addrs (map new as) = as"
  using assms by (induction as) (auto simp: node_addrs_def data_addrs_def)

lemma nodes_addrs_update:
  assumes "i < length qs" and "qn_at node' = qn_at (qs ! i)"
    and acc: "\<And>f. accounted k (data_addrs (qs ! i) @ f) k' (data_addrs node' @ f)"
  shows "accounted k (nodes_addrs qs @ f) k' (nodes_addrs (qs[i := node']) @ f)"
proof -
  let ?rest = "nodes_addrs (take i qs) @ [qn_at (qs ! i)] @ nodes_addrs (drop (Suc i) qs) @ f"
  have "qs = take i qs @ qs ! i # drop (Suc i) qs"
    using assms(1) by (rule id_take_nth_drop)
  then have "nodes_addrs qs = nodes_addrs (take i qs @ qs ! i # drop (Suc i) qs)" by simp
  then have "mset (data_addrs (qs ! i) @ ?rest) = mset (nodes_addrs qs @ f)"
    by (simp add: node_addrs_def)
  moreover have "mset (data_addrs node' @ ?rest) = mset (nodes_addrs (qs[i := node']) @ f)"
    using assms(1,2) by (simp add: upd_conv_take_nth_drop node_addrs_def)
  ultimately show ?thesis using acc [of ?rest] accounted_mset by blast
qed

text \<open>The end of a quantum is not past the end of its item.\<close>

lemma block_end:
  assumes g: "geometry quantum qset" and p: "0 \<le> p" "nat (p div (quantum * qset)) < n"
    and c: "c \<le> quantum - p mod quantum"
  shows "p + c \<le> int n * (quantum * qset)"
proof -
  let ?I = "quantum * qset" and ?s = "p mod (quantum * qset) div quantum"
  have pos: "0 < quantum" "0 < qset" "0 < ?I" using g by (auto simp: geometry_def)
  have "p mod ?I = quantum * ?s + p mod quantum"
    by (metis mod_mod_cancel dvd_triv_left mult_div_mod_eq)
  moreover have "?s + 1 \<le> qset"
    using pos_mod_bound [OF pos(2), of "p div quantum"] by (simp add: slot_index [OF pos(1,2)])
  then have "quantum * (?s + 1) \<le> ?I" using pos by (intro mult_left_mono) auto
  ultimately have "p mod ?I + c \<le> ?I" using c by (simp add: distrib_left)
  moreover have "(p div ?I + 1) * ?I \<le> int n * ?I"
    using p pos by (intro mult_right_mono) (auto simp: nat_less_iff pos_imp_zdiv_nonneg_iff)
  ultimately show ?thesis
    using div_mult_mod_eq [of p ?I] by (simp add: distrib_right)
qed

lemma cell_at_nothing:
  "node_cell node' = node_cell (qs ! i) \<Longrightarrow> cell_at quantum qset (qs[i := node']) = cell_at quantum qset qs"
  by (cases "i < length qs") (auto simp: cell_at_def Let_def fun_eq_iff nth_list_update)

context quantum_allocator
begin

lemma store_write:
  assumes ok: "list_all (node_ok quantum qset) qs" and g: "geometry quantum qset"
    and p: "0 \<le> p" "i = nat (p div (quantum * qset))" "i < length qs" and n: "0 \<le> n"
  obtains ret node' k' where
    "fill_quantum qset alloc quantum (qs ! i) (p mod (quantum * qset) div quantum) (p mod quantum)
       ubuf n k = Done (ret, node', k')"
    "list_all (node_ok quantum qset) (qs[i := node'])"
    "wrote quantum ubuf p (min n (quantum - p mod quantum)) ret
       (cell_at quantum qset qs) (cell_at quantum qset (qs[i := node']))"
    "\<And>f. accounted k (data_addrs (qs ! i) @ f) k' (data_addrs node' @ f)"
    "qn_at node' = qn_at (qs ! i)" "qnode.more node' = qnode.more (qs ! i)"
proof -
  let ?s = "p mod (quantum * qset) div quantum" and ?r = "p mod quantum"
  have pos: "0 < quantum" "0 < qset" using g by (auto simp: geometry_def)
  then have s: "0 \<le> ?s" "?s < qset" and r: "0 \<le> ?r" "?r < quantum"
    by (simp_all add: slot_index)
  have node: "node_ok quantum qset (qs ! i)"
    using ok p(3) by (simp add: list_all_length)
  obtain ret node' k' where f: "fill_quantum qset alloc quantum (qs ! i) ?s ?r ubuf n k = Done (ret, node', k')"
      and ok': "node_ok quantum qset node'"
      and fl: "filled (qs ! i) (nat ?s) (nat ?r) (min n (quantum - ?r)) ubuf ret node'"
      and acc: "\<And>f. accounted k (data_addrs (qs ! i) @ f) k' (data_addrs node' @ f)"
    using fill_quantum_result [OF node g s r n, where ubuf = ubuf and k = k] by blast
  have "wrote quantum ubuf p (min n (quantum - ?r)) ret
      (cell_at quantum qset qs) (cell_at quantum qset (qs[i := node']))"
    unfolding wrote_def
  proof (intro conjI allI impI)
    show "case ret of
        Inl e \<Rightarrow> e = ENOMEM \<and> cell_at quantum qset (qs[i := node']) = cell_at quantum qset qs \<or>
          e = EFAULT \<and> int (length ubuf) < min n (quantum - ?r)
      | Inr c \<Rightarrow> c = min n (quantum - ?r) \<and> c \<le> int (length ubuf) \<and>
          (\<forall>j. 0 \<le> j \<longrightarrow> j < c \<longrightarrow>
            cell_at quantum qset (qs[i := node']) (p + j) = Some (Some (ubuf ! nat j)))"
      using fl cell_at_nothing [of node' qs "nat (p div (quantum * qset))" quantum qset]
        cell_at_filled(2) [OF g p(1) _ _ _ fl [unfolded p(2)]] n p r
      by (auto simp: filled_def split: sum.splits)
  qed (use cell_at_filled(1,3) [OF g p(1) _ _ _ fl [unfolded p(2)]] n p r in auto)
  moreover have "list_all (node_ok quantum qset) (qs[i := node'])"
    using ok ok' p(3) by (simp add: list_all_length nth_list_update)
  ultimately show ?thesis
    using f fl acc by (intro that [of ret node' k']) (auto simp: filled_def)
qed

end

lemma store_read:
  assumes ok: "list_all (node_ok quantum qset) qs" and g: "geometry quantum qset"
    and p: "0 \<le> p" "i = nat (p div (quantum * qset))" "i < length qs"
    and n: "0 \<le> n" "n \<le> quantum - p mod quantum"
  obtains (hole) "peek (qs ! i) (p mod (quantum * qset) div quantum) = Done None"
      "cell_at quantum qset qs p = None"
    | (block) a cs where "peek (qs ! i) (p mod (quantum * qset) div quantum) = Done (Some (a, cs))"
      "cell_at quantum qset qs p \<noteq> None"
      "load_cells cs (p mod quantum) n =
         Done (map (\<lambda>j. the (cell_at quantum qset qs (p + int j))) [0..<nat n])"
proof -
  let ?s = "p mod (quantum * qset) div quantum" and ?r = "p mod quantum"
  have pos: "0 < quantum" "0 < qset" using g by (auto simp: geometry_def)
  then have s: "0 \<le> ?s" "?s < qset" and r: "0 \<le> ?r" "?r < quantum"
    by (simp_all add: slot_index)
  have node: "node_ok quantum qset (qs ! i)"
    using ok p(3) by (simp add: list_all_length)
  have cell: "cell_at quantum qset qs (p + int j) = node_cell (qs ! i) (nat ?s) (nat ?r + j)"
    if "?r + int j < quantum" for j
  proof -
    have eq: "p + int j = quantum * (p div quantum) + (?r + int j)" by simp
    have "0 \<le> ?r + int j" using r by simp
    then have "(p + int j) div quantum = p div quantum" "(p + int j) mod quantum = ?r + int j"
      using int_div_pos_eq [OF eq] int_mod_pos_eq [OF eq] that by blast+
    then show ?thesis
      using p g r pos
      by (simp add: cell_at_block block_cell_def zdiv_zmult2_eq slot_index nat_add_distrib)
  qed
  show ?thesis
  proof (cases "qn_data (qs ! i)")
    case None
    then show ?thesis
      using cell [of 0] r by (intro hole) (auto simp: peek_def)
  next
    case (Some arr)
    obtain a ps where arr: "qn_data (qs ! i) = Some (a, ps)" using Some by (cases arr) auto
    have len: "nat ?s < length ps" and bl: "block_ok quantum (ps ! nat ?s)"
      using node arr s by (auto simp: node_ok_def list_all_length)
    show ?thesis
    proof (cases "ps ! nat ?s")
      case None
      then show ?thesis
        using cell [of 0] r arr len s
        by (intro hole) (auto simp: peek_def array_get_def node_cell_def)
    next
      case (Some q)
      obtain b cs where q: "ps ! nat ?s = Some (b, cs)" using Some by (cases q) auto
      have lc: "length cs = nat quantum" using bl q by (simp add: block_ok_def)
      have "load_cells cs ?r n = Done (take (nat n) (drop (nat ?r) cs))"
        using n r lc by (simp add: load_cells_def)
      also have "take (nat n) (drop (nat ?r) cs) =
          map (\<lambda>j. the (cell_at quantum qset qs (p + int j))) [0..<nat n]"
      proof (rule nth_equalityI)
        fix j assume "j < length (take (nat n) (drop (nat ?r) cs))"
        then have j: "j < nat n" by simp
        then have "?r + int j < quantum" using n by linarith
        moreover from this have "nat ?r + j < nat quantum" using r by linarith
        ultimately show "take (nat n) (drop (nat ?r) cs) ! j =
            map (\<lambda>j. the (cell_at quantum qset qs (p + int j))) [0..<nat n] ! j"
          using cell [of j] j n lc r arr q len by (simp add: node_cell_def)
      qed (use n r lc in auto)
      finally show ?thesis
        using cell [of 0] arr q len lc r s
        by (intro block) (auto simp: peek_def array_get_def node_cell_def)
    qed
  qed
qed

end
