(* ===== verification/File_Contract.thy ===== *)
theory File_Contract
  imports Quantum_Store
begin

text \<open>
  The contract of a scull file: what \<open>read\<close> and \<open>write\<close> promise to whoever calls them, the
  system call layer or the asynchronous operations of the driver itself, in terms of the
  contents of the file. The drivers' theories interpret it on their operations.
\<close>

text \<open>
  \<open>ok\<close> is the invariant of the device with its lock free, \<open>cell\<close>, \<open>len\<close> and \<open>bound\<close> its
  contents, its length and the size of a quantum, \<open>reach\<close> the positions a write may start at,
  and \<open>mem\<close> what the driver needs of the allocator.
\<close>

locale scull_file =
  fixes ok :: "'d \<Rightarrow> bool" and cell :: "'d \<Rightarrow> int \<Rightarrow> cell option" and len :: "'d \<Rightarrow> int"
    and bound :: "'d \<Rightarrow> int" and reach :: "'d \<Rightarrow> int \<Rightarrow> bool" and mem :: "kmem \<Rightarrow> bool"
    and rd :: "nat \<Rightarrow> 'd \<Rightarrow> int \<Rightarrow> int \<Rightarrow> kmem \<Rightarrow> 'd io outcome"
    and wr :: "byte list \<Rightarrow> 'd \<Rightarrow> int \<Rightarrow> int \<Rightarrow> kmem \<Rightarrow> 'd io outcome"
  assumes bound_pos: "ok d \<Longrightarrow> 0 < bound d"
    and reach_range: "ok d \<Longrightarrow> reach d p \<Longrightarrow> 0 \<le> p \<and> p < 9223372036854775808"
    and rd_law: "\<lbrakk>ok d; mem k; 0 \<le> p; p < 9223372036854775808; 0 \<le> n; n < 9223372036854775808;
        read_spec (cell d) (len d) (bound d) room n p = (ret, bytes, pos)\<rbrakk> \<Longrightarrow>
        \<exists>d' k'. rd room d n p k = io_result ret bytes pos d' k' \<and> mem k' \<and> ok d' \<and>
          cell d' = cell d \<and> len d' = len d \<and> bound d' = bound d"
    and wr_law: "\<lbrakk>ok d; mem k; reach d p; 0 \<le> n; n < 9223372036854775808\<rbrakk> \<Longrightarrow>
        \<exists>ret d' k'.
          wr ubuf d n p k = io_result ret [] (case ret of Inl e \<Rightarrow> p | Inr c \<Rightarrow> p + c) d' k' \<and>
          mem k' \<and> ok d' \<and> bound d' = bound d \<and>
          wrote (bound d) ubuf p (min n (bound d - p mod bound d)) ret (cell d) (cell d') \<and>
          len d' = (case ret of Inl e \<Rightarrow> len d | Inr c \<Rightarrow> max (len d) (p + c)) \<and>
          (\<forall>p'. reach d p' \<longrightarrow> reach d' p')"
begin

text \<open>A write of a positive number of accessible bytes stores at least one, or reports that
  memory has run out.\<close>

lemma write_progress:
  assumes "ok d" "mem k" "reach d p" and n: "0 < n" "n \<le> int (length ubuf)" "n < 9223372036854775808"
    and w: "wr ubuf d n p k = io_result ret out pos d' k'"
  shows "ret = Inl ENOMEM \<or> (\<exists>c. ret = Inr c \<and> 0 < c \<and> c \<le> n \<and> pos = p + c)"
proof -
  have b: "0 < bound d" using bound_pos assms(1) .
  have "0 \<le> p mod bound d" "p mod bound d < bound d" using b by simp_all
  moreover have "0 \<le> n" using n by simp
  ultimately show ?thesis
    using wr_law [OF assms(1-3) \<open>0 \<le> n\<close> n(3), of ubuf] w n
    by (auto simp: io_result_def wrote_def split: sum.splits)
qed

text \<open>What a write has stored a read returns.\<close>

lemma write_read:
  assumes d: "ok d" "mem k" "reach d p" and n: "0 \<le> n" "n < 9223372036854775808"
    and w: "wr ubuf d n p k = io_result (Inr c) out pos d' k'" and room: "c \<le> int room"
  shows "\<exists>d'' k''. rd room d' c p k' =
      io_result (Inr c) (map Some (take (nat c) ubuf)) (p + c) d'' k''"
proof -
  have b: "0 < bound d" using bound_pos d(1) .
  have r: "0 \<le> p mod bound d" "p mod bound d < bound d" using b by simp_all
  from wr_law [OF d n, of ubuf] w
  have w': "mem k'" "ok d'" "bound d' = bound d"
      "wrote (bound d) ubuf p (min n (bound d - p mod bound d)) (Inr c) (cell d) (cell d')"
      "len d' = max (len d) (p + c)"
    by (auto simp: io_result_def)
  then have c: "c = min n (bound d - p mod bound d)" "c \<le> int (length ubuf)"
      "\<And>j. 0 \<le> j \<Longrightarrow> j < c \<Longrightarrow> cell d' (p + j) = Some (Some (ubuf ! nat j))"
    by (auto simp: wrote_def)
  have c0: "0 \<le> c" "c < 9223372036854775808" using c(1) n r by linarith+
  have p: "0 \<le> p" "p < 9223372036854775808" using reach_range d by auto
  have src: "map (\<lambda>j. the (cell d' (p + int j))) [0..<nat c] = map Some (take (nat c) ubuf)"
    using c(2,3) c0 by (intro nth_equalityI) auto
  have "read_spec (cell d') (len d') (bound d') room c p =
      (Inr c, map Some (take (nat c) ubuf), p + c)"
  proof (cases "c = 0")
    case True
    then show ?thesis using c0 b r w'(3) by (auto simp: read_spec_def Let_def)
  next
    case False
    then have "0 < c" using c0 by simp
    then have "cell d' p = Some (Some (ubuf ! 0))" using c(3) [of 0] by simp
    moreover have "min c (min (len d' - p) (bound d' - p mod bound d')) = c"
      using w'(3,5) c(1) by auto
    ultimately show ?thesis
      using src \<open>0 < c\<close> w'(5) room by (simp add: read_spec_def Let_def)
  qed
  from rd_law [OF w'(2,1) p c0 this] show ?thesis by blast
qed

text \<open>A write leaves the other bytes of the file as they are.\<close>

lemma write_elsewhere:
  assumes d: "ok d" "mem k" "reach d p" and n: "0 \<le> n" "n < 9223372036854775808"
    and w: "wr ubuf d n p k = io_result ret out pos d' k'"
    and p': "p' < p \<or> p + n \<le> p'" and v: "cell d p' = Some v"
  shows "cell d' p' = Some v" "len d \<le> len d'"
proof -
  from wr_law [OF d n, of ubuf] w
  have w': "wrote (bound d) ubuf p (min n (bound d - p mod bound d)) ret (cell d) (cell d')"
      "len d' = (case ret of Inl e \<Rightarrow> len d | Inr c \<Rightarrow> max (len d) (p + c))"
    by (auto simp: io_result_def)
  have "p' < p \<or> p + min n (bound d - p mod bound d) \<le> p'" using p' by auto
  with w'(1) v show "cell d' p' = Some v" unfolding wrote_def by blast
  show "len d \<le> len d'" using w'(2) by (simp split: sum.split)
qed

end

end
