(* ===== verification/Scull_Main.thy ===== *)
theory Scull_Main
  imports File_Contract
begin

text \<open>
  The bare scull device: \<open>scull_trim\<close>, \<open>scull_open\<close>, \<open>scull_release\<close>, \<open>scull_follow\<close>,
  \<open>scull_read\<close>, \<open>scull_write\<close> and \<open>scull_llseek\<close> of Kernel/Driver/scull/main.c over the
  device structure of scull.h. The list \<open>dev->data\<close> is a list of items; a pointer to an item
  is its index. Each operation that takes the device semaphore takes it from and returns it to
  the device's count.
\<close>

section \<open>State\<close>

record scull_dev =
  dev_data :: "qnode list"
  dev_quantum :: int
  dev_qset :: int
  dev_size :: int
  dev_access_key :: int
  dev_sem :: int

text \<open>The module parameters the operations read (\<open>scull_quantum\<close>, \<open>scull_qset\<close>) and the
  buffer size of the pipe device, which the same ioctl method sets.\<close>

record scull_globals =
  g_quantum :: int
  g_qset :: int
  g_p_buffer :: int

definition SCULL_QUANTUM :: int where "SCULL_QUANTUM = 4000"
definition SCULL_QSET :: int where "SCULL_QSET = 1000"
definition SCULL_P_BUFFER :: int where "SCULL_P_BUFFER = 4000"

definition scull_default_globals :: scull_globals where
  "scull_default_globals =
     \<lparr>g_quantum = SCULL_QUANTUM, g_qset = SCULL_QSET, g_p_buffer = SCULL_P_BUFFER\<rparr>"

section \<open>Operations\<close>

text \<open>\<open>scull_trim\<close> returns 0 always; the result is the device and the memory.\<close>

definition scull_trim ::
    "scull_globals \<Rightarrow> scull_dev \<Rightarrow> kmem \<Rightarrow> (scull_dev \<times> kmem) outcome" where
  "scull_trim g dev k =
     and_then (free_items (dev_qset dev) (dev_data dev) k) (\<lambda>k.
       Done (dev\<lparr>dev_size := 0, dev_quantum := g_quantum g, dev_qset := g_qset g,
                 dev_data := []\<rparr>, k))"

definition scull_open ::
    "scull_globals \<Rightarrow> bool \<Rightarrow> int \<Rightarrow> scull_dev \<Rightarrow> kmem \<Rightarrow>
     ((errno + int) \<times> scull_dev \<times> kmem) outcome" where
  "scull_open g sig f_flags dev k =
     (if write_only f_flags
      then and_then (down_interruptible sig (dev_sem dev)) (\<lambda>d.
        case d of
          Inl _ \<Rightarrow> Done (Inl ERESTARTSYS, dev, k)
        | Inr sem \<Rightarrow>
            and_then (scull_trim g (dev\<lparr>dev_sem := sem\<rparr>) k) (\<lambda>(dev, k).
              Done (Inr 0, dev\<lparr>dev_sem := up (dev_sem dev)\<rparr>, k)))
      else Done (Inr 0, dev, k))"

definition scull_release :: "scull_dev \<Rightarrow> (errno + int) \<times> scull_dev" where
  "scull_release dev = (Inr 0, dev)"

text \<open>A cleared \<open>struct scull_qset\<close> (16 bytes: two pointers).\<close>

definition clear_qset :: "addr \<Rightarrow> qnode" where
  "clear_qset a = \<lparr>qn_at = a, qn_data = None\<rparr>"

definition scull_follow ::
    "scull_dev \<Rightarrow> int \<Rightarrow> kmem \<Rightarrow> nat option \<times> scull_dev \<times> kmem" where
  "scull_follow dev n k =
     (case (if dev_data dev = []
            then (case kmalloc 16 k of
                    (None, k) \<Rightarrow> (None, k)
                  | (Some a, k) \<Rightarrow> (Some [clear_qset a], k))
            else (Some (dev_data dev), k)) of
        (None, k) \<Rightarrow> (None, dev, k)
      | (Some qs, k) \<Rightarrow>
          (case follow_steps clear_qset 16 (loop_count n) 0 qs k of
             (r, qs, k) \<Rightarrow> (r, dev\<lparr>dev_data := qs\<rparr>, k)))"

text \<open>\<open>scull_read\<close> and \<open>scull_write\<close> copy \<open>dev->quantum\<close> and \<open>dev->qset\<close> to local variables
  before they take the semaphore: \<open>scull_read_with\<close> and \<open>scull_write_with\<close> are the functions
  from the semaphore on, which may be granted to them when the device has other parameters.\<close>

definition scull_read_with ::
    "int \<Rightarrow> int \<Rightarrow> bool \<Rightarrow> nat \<Rightarrow> scull_dev \<Rightarrow> int \<Rightarrow> int \<Rightarrow> kmem \<Rightarrow> scull_dev io outcome" where
  "scull_read_with quantum qset sig room dev cnt f_pos k =
     and_then (down_interruptible sig (dev_sem dev)) (\<lambda>d.
       case d of
         Inl _ \<Rightarrow> io_result (Inl ERESTARTSYS) [] f_pos dev k
       | Inr sem \<Rightarrow>
           let dev = dev\<lparr>dev_sem := sem\<rparr>;
               out = (\<lambda>ret bytes pos dev k.
                        io_result ret bytes pos (dev\<lparr>dev_sem := up (dev_sem dev)\<rparr>) k)
           in
           if u64 f_pos \<ge> dev_size dev then out (Inr 0) [] f_pos dev k
           else
             let cnt = until_eof (dev_size dev) f_pos cnt in
             and_then (locate quantum qset f_pos) (\<lambda>(item, s_pos, q_pos).
               case scull_follow dev item k of
                 (None, dev, k) \<Rightarrow> out (Inr 0) [] f_pos dev k
               | (Some i, dev, k) \<Rightarrow>
                   and_then (peek (dev_data dev ! i) s_pos) (\<lambda>q.
                     case q of
                       None \<Rightarrow> out (Inr 0) [] f_pos dev k
                     | Some (a, cs) \<Rightarrow>
                         let cnt = within_quantum quantum q_pos cnt in
                         and_then (load_cells cs q_pos cnt) (\<lambda>src.
                           case copy_to_user room src of (bytes, missing) \<Rightarrow>
                             if missing \<noteq> 0 then out (Inl EFAULT) bytes f_pos dev k
                             else out (Inr cnt) bytes (s64 (f_pos + cnt)) dev k))))"

definition scull_read ::
    "bool \<Rightarrow> nat \<Rightarrow> scull_dev \<Rightarrow> int \<Rightarrow> int \<Rightarrow> kmem \<Rightarrow> scull_dev io outcome" where
  "scull_read sig room dev = scull_read_with (dev_quantum dev) (dev_qset dev) sig room dev"

text \<open>The quantum of the bare device is \<open>kmalloc\<close>ed and not cleared.\<close>

definition scull_alloc :: "int \<Rightarrow> kmem \<Rightarrow> (quantum_block option \<times> kmem) outcome" where
  "scull_alloc quantum k =
     (case kmalloc quantum k of
        (None, k) \<Rightarrow> Done (None, k)
      | (Some a, k) \<Rightarrow> Done (Some (a, replicate (nat quantum) None), k))"

definition scull_write_with ::
    "int \<Rightarrow> int \<Rightarrow> bool \<Rightarrow> byte list \<Rightarrow> scull_dev \<Rightarrow> int \<Rightarrow> int \<Rightarrow> kmem \<Rightarrow> scull_dev io outcome" where
  "scull_write_with quantum qset sig ubuf dev cnt f_pos k =
     and_then (down_interruptible sig (dev_sem dev)) (\<lambda>d.
       case d of
         Inl _ \<Rightarrow> io_result (Inl ERESTARTSYS) [] f_pos dev k
       | Inr sem \<Rightarrow>
           let dev = dev\<lparr>dev_sem := sem\<rparr>;
               out = (\<lambda>ret pos dev k.
                        io_result ret [] pos (dev\<lparr>dev_sem := up (dev_sem dev)\<rparr>) k)
           in
           and_then (locate quantum qset f_pos) (\<lambda>(item, s_pos, q_pos).
             case scull_follow dev item k of
               (None, dev, k) \<Rightarrow> out (Inl ENOMEM) f_pos dev k
             | (Some i, dev, k) \<Rightarrow>
                 and_then
                   (fill_quantum qset (scull_alloc quantum) quantum (dev_data dev ! i)
                      s_pos q_pos ubuf cnt k) (\<lambda>(ret, node, k).
                   let dev = dev\<lparr>dev_data := (dev_data dev)[i := node]\<rparr> in
                   case ret of
                     Inl e \<Rightarrow> out (Inl e) f_pos dev k
                   | Inr n \<Rightarrow>
                       let pos = s64 (f_pos + n) in
                       out (Inr n) pos
                         (if dev_size dev < u64 pos then dev\<lparr>dev_size := u64 pos\<rparr> else dev) k)))"

definition scull_write ::
    "bool \<Rightarrow> byte list \<Rightarrow> scull_dev \<Rightarrow> int \<Rightarrow> int \<Rightarrow> kmem \<Rightarrow> scull_dev io outcome" where
  "scull_write sig ubuf dev = scull_write_with (dev_quantum dev) (dev_qset dev) sig ubuf dev"

text \<open>The result is the return value and the new \<open>filp->f_pos\<close>.\<close>

definition scull_llseek :: "scull_dev \<Rightarrow> int \<Rightarrow> int \<Rightarrow> int \<Rightarrow> (errno + int) \<times> int" where
  "scull_llseek dev f_pos off whence =
     (let seek = (\<lambda>newpos. if newpos < 0 then (Inl EINVAL, f_pos) else (Inr newpos, newpos)) in
      if whence = 0 then seek off
      else if whence = 1 then seek (s64 (f_pos + off))
      else if whence = 2 then seek (s64 (dev_size dev + off))
      else (Inl EINVAL, f_pos))"

section \<open>The invariant\<close>

text \<open>
  Positive parameters whose product is an \<open>int\<close>, arrays and blocks of the sizes the parameters
  say, no more items than an \<open>int\<close> can count, and every position below \<open>size\<close> in an item that
  exists.
\<close>

definition scull_wf :: "scull_dev \<Rightarrow> bool" where
  "scull_wf dev \<longleftrightarrow>
     geometry (dev_quantum dev) (dev_qset dev) \<and>
     list_all (node_ok (dev_quantum dev) (dev_qset dev)) (dev_data dev) \<and>
     length (dev_data dev) \<le> 2147483648 \<and>
     0 \<le> dev_size dev \<and>
     dev_size dev \<le> int (length (dev_data dev)) * (dev_quantum dev * dev_qset dev)"

definition scull_addrs :: "scull_dev \<Rightarrow> addr list" where
  "scull_addrs dev = nodes_addrs (dev_data dev)"

definition scull_cell :: "scull_dev \<Rightarrow> int \<Rightarrow> cell option" where
  "scull_cell dev p = cell_at (dev_quantum dev) (dev_qset dev) (dev_data dev) p"

text \<open>The positions whose item number is not truncated by the conversion to \<open>int\<close>.\<close>

definition scull_addressable :: "scull_dev \<Rightarrow> int \<Rightarrow> bool" where
  "scull_addressable dev p \<longleftrightarrow>
     0 \<le> p \<and> p div (dev_quantum dev * dev_qset dev) < 2147483648"

definition sane_globals :: "scull_globals \<Rightarrow> bool" where
  "sane_globals g \<longleftrightarrow> geometry (g_quantum g) (g_qset g)"

section \<open>Lemmas\<close>

interpretation scull_q: quantum_allocator "scull_alloc quantum" quantum for quantum
proof unfold_locales
  show "\<exists>q k'. scull_alloc quantum k = Done (q, k')" for k
    by (simp add: scull_alloc_def split: prod.split option.split)
  show "length cs = nat quantum" if "scull_alloc quantum k = Done (Some (a, cs), k')" for k a cs k'
    using that by (auto simp: scull_alloc_def split: prod.splits option.splits)
  show "accounted k f k' (a # f)" if "scull_alloc quantum k = Done (Some (a, cs), k')" for k a cs k' f
    using that kmalloc_accounted(1) by (fastforce simp: scull_alloc_def split: prod.splits option.splits)
  show "accounted k f k' f" if "scull_alloc quantum k = Done (None, k')" for k k' f
    using that kmalloc_accounted(2) by (fastforce simp: scull_alloc_def split: prod.splits option.splits)
qed

lemma clear_qset_simps [simp]:
  "qn_data (clear_qset a) = None" "qn_at (clear_qset a) = a" "node_ok quantum qset (clear_qset a)"
  by (simp_all add: clear_qset_def node_ok_def)

lemma loop_count_nonneg [cint]: "0 \<le> n \<Longrightarrow> n < 2147483648 \<Longrightarrow> loop_count n = nat n"
  by (simp add: loop_count_def u32_id)

lemma scull_follow_result:
  assumes "scull_follow dev n k = (r, dev', k')" and "0 \<le> n" "n < 2147483648"
  obtains as where "dev' = dev\<lparr>dev_data := dev_data dev @ map clear_qset as\<rparr>"
    "\<And>j. r = Some j \<Longrightarrow> j = nat n \<and> j < length (dev_data dev')"
    "length (dev_data dev') \<le> max (length (dev_data dev)) (Suc (nat n))"
    "\<And>f. accounted k f k' (as @ f)"
proof (cases "dev_data dev = []")
  case False
  then obtain qs where st: "follow_steps clear_qset 16 (nat n) 0 (dev_data dev) k = (r, qs, k')"
      and dev': "dev' = dev\<lparr>dev_data := qs\<rparr>"
    using assms by (auto simp: scull_follow_def loop_count_nonneg split: prod.splits)
  have "0 < length (dev_data dev)" using False by simp
  from follow_steps_result [OF st this] dev' show ?thesis
    by (auto intro!: that)
next
  case empty: True
  obtain q k1 where km: "kmalloc 16 k = (q, k1)" by fastforce
  show ?thesis
  proof (cases q)
    case None
    then have "r = None" "dev' = dev" "k' = k1"
      using empty assms km by (auto simp: scull_follow_def)
    with km None empty kmalloc_accounted(2) show ?thesis by (intro that [of "[]"]) auto
  next
    case (Some a)
    with empty km assms obtain qs where
      st: "follow_steps clear_qset 16 (nat n) 0 [clear_qset a] k1 = (r, qs, k')"
      and dev': "dev' = dev\<lparr>dev_data := qs\<rparr>"
      by (auto simp: scull_follow_def loop_count_nonneg split: prod.splits)
    from follow_steps_result [OF st] obtain as where as: "qs = [clear_qset a] @ map clear_qset as"
        "\<forall>j. r = Some j \<longrightarrow> j = 0 + nat n \<and> j < length qs"
        "length qs \<le> max (length [clear_qset a]) (Suc (0 + nat n))"
        "\<forall>f. accounted k1 f k' (as @ f)" by auto
    have "accounted k f k' ((a # as) @ f)" for f
    proof -
      have "accounted k f k1 (a # f)" using kmalloc_accounted(1) km Some by blast
      with as(4) have "accounted k f k' (as @ a # f)" using accounted_trans by blast
      then show ?thesis by (simp add: accounted_mset [of f f "as @ a # f" "(a # as) @ f"])
    qed
    with as dev' empty show ?thesis by (intro that [of "a # as"]) auto
  qed
qed

lemma scull_follow_present:
  assumes "0 \<le> n" "n < int (length (dev_data dev))" "length (dev_data dev) \<le> 2147483648"
  shows "scull_follow dev n k = (Some (nat n), dev, k)"
proof -
  have "n < 2147483648" "dev_data dev \<noteq> []" "0 + nat n < length (dev_data dev)"
    using assms by auto
  with assms(1) follow_steps_present [of 0 "nat n" "dev_data dev" clear_qset 16 k] show ?thesis
    by (simp add: scull_follow_def loop_count_nonneg)
qed

lemma scull_trim_result:
  assumes "scull_wf dev" and "owns (scull_addrs dev @ f) k"
  obtains k' where
    "scull_trim g dev k = Done (dev\<lparr>dev_size := 0, dev_quantum := g_quantum g,
       dev_qset := g_qset g, dev_data := []\<rparr>, k')"
    "owns f k'" "km_live k' = km_live k |` (- set (scull_addrs dev))"
proof -
  have "free_items (dev_qset dev) (dev_data dev) k = kfree_all (scull_addrs dev) k"
    using assms(1) by (auto simp: scull_wf_def scull_addrs_def intro: free_items_all)
  with kfree_all_accounted [OF assms(2)] that show ?thesis
    by (auto simp: scull_trim_def)
qed

text \<open>The bounds the invariant gives on the size and on the items of positions below it.\<close>

lemma scull_wf_size:
  assumes "scull_wf dev"
  shows "dev_size dev < 4611686018427387904"
proof -
  let ?I = "dev_quantum dev * dev_qset dev"
  have "0 < ?I" "?I < 2147483648" "int (length (dev_data dev)) \<le> 2147483648"
      "dev_size dev \<le> int (length (dev_data dev)) * ?I"
    using assms geometry_bounds(3) by (auto simp: scull_wf_def geometry_def)
  moreover from this have "int (length (dev_data dev)) * ?I \<le> 2147483648 * ?I"
    by (intro mult_right_mono) auto
  ultimately show ?thesis by linarith
qed

lemma scull_wf_item:
  assumes "scull_wf dev" "0 \<le> p" "p < dev_size dev"
  shows "p div (dev_quantum dev * dev_qset dev) < int (length (dev_data dev))"
    and "0 \<le> p div (dev_quantum dev * dev_qset dev)"
proof -
  let ?I = "dev_quantum dev * dev_qset dev"
  have I: "0 < ?I" "p < int (length (dev_data dev)) * ?I"
    using assms geometry_bounds(3) by (auto simp: scull_wf_def)
  show "p div ?I < int (length (dev_data dev))"
    using I by (rule int_div_less)
  show "0 \<le> p div ?I" using I assms(2) by (simp add: pos_imp_zdiv_nonneg_iff)
qed

lemma scull_read_result:
  assumes wf: "scull_wf dev" and sem: "0 < dev_sem dev"
    and p: "0 \<le> f_pos" "f_pos < 9223372036854775808"
    and n: "0 \<le> cnt" "cnt < 9223372036854775808"
  shows "scull_read sig room dev cnt f_pos k =
     (case read_spec (scull_cell dev) (dev_size dev) (dev_quantum dev) room cnt f_pos of
        (ret, bytes, pos) \<Rightarrow> io_result ret bytes pos dev k)"
proof -
  let ?q = "dev_quantum dev" and ?I = "dev_quantum dev * dev_qset dev"
  let ?locked = "dev\<lparr>dev_sem := dev_sem dev - 1\<rparr>"
  have unlock: "?locked\<lparr>dev_sem := up (dev_sem ?locked)\<rparr> = dev" by simp
  have g: "geometry ?q (dev_qset dev)" and ok: "list_all (node_ok ?q (dev_qset dev)) (dev_data dev)"
    using wf by (auto simp: scull_wf_def)
  have u: "u64 f_pos = f_pos" using p by (simp add: u64_id)
  show ?thesis
  proof (cases "f_pos < dev_size dev")
    case False
    then show ?thesis
      using sem u by (simp add: scull_read_def scull_read_with_def read_spec_def Let_def)
  next
    case True
    let ?i = "f_pos div ?I" and ?r = "f_pos mod ?q"
    let ?m = "min cnt (min (dev_size dev - f_pos) (?q - ?r))"
    note size = scull_wf_size [OF wf] and item = scull_wf_item [OF wf p(1) True]
    have lt: "?i < 2147483648" using item wf by (auto simp: scull_wf_def)
    note loc = locate_ok [OF g p(1) lt]
    have follow: "scull_follow ?locked ?i k = (Some (nat ?i), ?locked, k)"
      using item wf by (intro scull_follow_present) (auto simp: scull_wf_def)
    have m: "0 \<le> ?m" "?m \<le> ?q - ?r" using n True loc(4,5) by auto
    have c1: "until_eof (dev_size dev) f_pos cnt = min cnt (dev_size dev - f_pos)"
      using True size p n by (intro until_eof_min) auto
    have c2: "within_quantum ?q ?r (min cnt (dev_size dev - f_pos)) = ?m"
      using loc(4,5) geometry_bounds(1) [OF g] by (simp add: within_quantum_min min.assoc)
    have pos: "s64 (f_pos + ?m) = f_pos + ?m"
      using m p size True by (intro s64_id) auto
    have idx: "nat ?i < length (dev_data dev)" using item by (simp add: nat_less_iff)
    note step = scull_read_def scull_read_with_def follow loc(1) u c1 c2 pos
    show ?thesis
    proof (cases rule: store_read [OF ok g p(1) refl idx m])
      case 1
      then show ?thesis
        using sem True by (simp add: step read_spec_def scull_cell_def Let_def cong: if_cong)
    next
      case (2 a cs)
      have "scull_read sig room dev cnt f_pos k =
          (case copy_to_user room (map (\<lambda>j. the (scull_cell dev (f_pos + int j))) [0..<nat ?m]) of
             (bytes, missing) \<Rightarrow>
               if missing \<noteq> 0 then io_result (Inl EFAULT) bytes f_pos dev k
               else io_result (Inr ?m) bytes (f_pos + ?m) dev k)"
        using sem True 2 by (simp add: step scull_cell_def Let_def cong: if_cong)
      then show ?thesis
        using True m(1) 2(2) by (auto simp: read_spec_def scull_cell_def Let_def copy_to_user_def)
    qed
  qed
qed

lemma addressable_bound:
  assumes "geometry quantum qset" "p div (quantum * qset) < 2147483648"
  shows "p < 4611686018427387904"
proof -
  let ?I = "quantum * qset"
  have I: "0 < ?I" "?I < 2147483648"
    using assms(1) geometry_bounds(3) by (auto simp: geometry_def)
  have "p = p div ?I * ?I + p mod ?I" by (rule div_mult_mod_eq [symmetric])
  also have "\<dots> < 2147483647 * ?I + ?I"
    using I assms(2) by (intro add_le_less_mono mult_right_mono) auto
  finally show ?thesis using I by linarith
qed

text \<open>The invariant after a write that stored \<open>c\<close> bytes in an item of the extended list.\<close>

lemma scull_wf_grow:
  assumes wf: "scull_wf dev" and p: "0 \<le> p" "p div (dev_quantum dev * dev_qset dev) < 2147483648"
    and qs: "length qs \<le> max (length (dev_data dev)) (Suc (nat (p div (dev_quantum dev * dev_qset dev))))"
      "length (dev_data dev) \<le> length qs"
      "list_all (node_ok (dev_quantum dev) (dev_qset dev)) qs"
    and len: "dev_size dev \<le> len" "len \<le> max (dev_size dev) (int (length qs) * (dev_quantum dev * dev_qset dev))"
  shows "scull_wf (dev\<lparr>dev_data := qs, dev_size := len, dev_sem := s\<rparr>)"
proof -
  let ?I = "dev_quantum dev * dev_qset dev"
  have I: "0 < ?I" using wf geometry_bounds(3) by (auto simp: scull_wf_def)
  have "int (length (dev_data dev)) * ?I \<le> int (length qs) * ?I"
    using qs(2) I by (intro mult_right_mono) auto
  then have "len \<le> int (length qs) * ?I" using len(2) wf by (auto simp: scull_wf_def)
  moreover have "length qs \<le> 2147483648" using qs(1) p wf by (auto simp: scull_wf_def)
  ultimately show ?thesis using wf qs(3) len(1) by (auto simp: scull_wf_def)
qed

lemma scull_write_result:
  assumes wf: "scull_wf dev" and sem: "0 < dev_sem dev"
    and p: "scull_addressable dev f_pos" and n: "0 \<le> cnt"
  obtains ret pos dev' k' where
    "scull_write sig ubuf dev cnt f_pos k = io_result ret [] pos dev' k'"
    "scull_wf dev'" "dev_sem dev' = dev_sem dev"
    "dev_quantum dev' = dev_quantum dev" "dev_qset dev' = dev_qset dev"
    "wrote (dev_quantum dev) ubuf f_pos (min cnt (dev_quantum dev - f_pos mod dev_quantum dev))
       ret (scull_cell dev) (scull_cell dev')"
    "pos = (case ret of Inl e \<Rightarrow> f_pos | Inr c \<Rightarrow> f_pos + c)"
    "dev_size dev' = (case ret of Inl e \<Rightarrow> dev_size dev | Inr c \<Rightarrow> max (dev_size dev) (f_pos + c))"
    "\<And>f. accounted k (scull_addrs dev @ f) k' (scull_addrs dev' @ f)"
proof -
  let ?q = "dev_quantum dev" and ?n = "dev_qset dev" and ?I = "dev_quantum dev * dev_qset dev"
  let ?locked = "dev\<lparr>dev_sem := dev_sem dev - 1\<rparr>" and ?i = "f_pos div ?I"
  let ?lim = "min cnt (?q - f_pos mod ?q)"
  have g: "geometry ?q ?n" and ok: "list_all (node_ok ?q ?n) (dev_data dev)"
    using wf by (auto simp: scull_wf_def)
  have p: "0 \<le> f_pos" "?i < 2147483648" using p by (auto simp: scull_addressable_def)
  have i0: "0 \<le> ?i" using p geometry_bounds(3) [OF g] by (simp add: pos_imp_zdiv_nonneg_iff)
  note loc = locate_ok [OF g p] and bound = addressable_bound [OF g p(2)]
  obtain r dev1 k1 where fo: "scull_follow ?locked ?i k = (r, dev1, k1)" by (metis prod_cases3)
  obtain as where as: "dev1 = ?locked\<lparr>dev_data := dev_data dev @ map clear_qset as\<rparr>"
      "\<And>j. r = Some j \<Longrightarrow> j = nat ?i \<and> j < length (dev_data dev1)"
      "length (dev_data dev1) \<le> max (length (dev_data dev)) (Suc (nat ?i))"
      "\<And>f. accounted k f k1 (as @ f)"
    by (rule scull_follow_result [OF fo i0 p(2)]) auto
  let ?qs = "dev_data dev @ map clear_qset as"
  have ok1: "list_all (node_ok ?q ?n) ?qs" using ok by (auto simp: list_all_iff)
  have cell1: "cell_at ?q ?n ?qs = scull_cell dev"
    by (simp add: cell_at_cleared_items scull_cell_def fun_eq_iff)
  have acc1: "accounted k (scull_addrs dev @ f) k1 (nodes_addrs ?qs @ f)" for f
    using as(4) [of "scull_addrs dev @ f"]
    by (subst accounted_mset [where as' = "scull_addrs dev @ f"
          and bs' = "as @ scull_addrs dev @ f"]) (simp_all add: scull_addrs_def nodes_addrs_cleared)
  show ?thesis
  proof (cases r)
    case None
    have eq: "scull_write sig ubuf dev cnt f_pos k =
        io_result (Inl ENOMEM) [] f_pos (dev\<lparr>dev_data := ?qs\<rparr>) k1"
      using sem loc(1) fo None as(1) by (simp add: scull_write_def scull_write_with_def Let_def)
    have "scull_wf (dev\<lparr>dev_data := ?qs, dev_size := dev_size dev, dev_sem := dev_sem dev\<rparr>)"
      using as(1,3) ok1 by (intro scull_wf_grow [OF wf p]) auto
    with acc1 cell1 show ?thesis
      by (intro that [OF eq]) (auto simp: wrote_def scull_cell_def scull_addrs_def)
  next
    case (Some j)
    have j: "j = nat ?i" "j < length ?qs" using as(1,2) Some by auto
    obtain ret node' k2 where fill: "fill_quantum ?n (scull_alloc ?q) ?q (?qs ! j)
           (f_pos mod ?I div ?q) (f_pos mod ?q) ubuf cnt k1 = Done (ret, node', k2)"
        and ok2: "list_all (node_ok ?q ?n) (?qs[j := node'])"
        and wr: "wrote ?q ubuf f_pos ?lim ret (cell_at ?q ?n ?qs) (cell_at ?q ?n (?qs[j := node']))"
        and acc: "\<And>f. accounted k1 (data_addrs (?qs ! j) @ f) k2 (data_addrs node' @ f)"
        and same: "qn_at node' = qn_at (?qs ! j)"
      by (rule scull_q.store_write [OF ok1 g p(1) j n, where ubuf = ubuf and k = k1]) (rule that)
    note acc2 = nodes_addrs_update [OF j(2) same acc]
    let ?len = "case ret of Inl e \<Rightarrow> dev_size dev | Inr c \<Rightarrow> max (dev_size dev) (f_pos + c)"
    let ?dev' = "dev\<lparr>dev_data := ?qs[j := node'], dev_size := ?len, dev_sem := dev_sem dev\<rparr>"
    have ret: "0 \<le> c \<and> c \<le> ?q - f_pos mod ?q" if "ret = Inr c" for c
      using wr that n loc(5) by (auto simp: wrote_def)
    have pos: "s64 (f_pos + c) = f_pos + c" "u64 (f_pos + c) = f_pos + c" if "ret = Inr c" for c
      using ret [OF that] bound p(1) geometry_bounds(1) [OF g] loc(4)
      by (auto intro!: s64_id u64_id)
    have eq: "scull_write sig ubuf dev cnt f_pos k =
        io_result ret [] (case ret of Inl e \<Rightarrow> f_pos | Inr c \<Rightarrow> f_pos + c) ?dev' k2"
      using sem loc(1) fo Some as(1) fill pos
      by (auto simp: scull_write_def scull_write_with_def Let_def max_def split: sum.split)
    have "?len \<le> max (dev_size dev) (int (length (?qs[j := node'])) * ?I)"
      using block_end [OF g p(1) j(2) [unfolded j(1)]] ret
      by (auto split: sum.split intro: max.coboundedI2)
    then have "scull_wf ?dev'"
      using as(1,3) ok2 by (intro scull_wf_grow [OF wf p]) (auto split: sum.split)
    moreover have "scull_cell ?dev' = cell_at ?q ?n (?qs[j := node'])"
      by (simp add: scull_cell_def fun_eq_iff)
    ultimately show ?thesis
      using acc1 acc2 wr cell1
      by (intro that [OF eq]) (auto simp: scull_addrs_def intro: accounted_trans)
  qed
qed

text \<open>The bare device keeps the contract of a scull file, whatever the allocator does.\<close>

interpretation scull_f: scull_file
  "\<lambda>dev. scull_wf dev \<and> 0 < dev_sem dev" scull_cell dev_size dev_quantum scull_addressable
  "\<lambda>_. True" "scull_read sig" "scull_write sig" for sig
proof unfold_locales
  show "0 < dev_quantum d" if "scull_wf d \<and> 0 < dev_sem d" for d
    using that by (simp add: scull_wf_def geometry_def)
  show "0 \<le> p \<and> p < 9223372036854775808"
    if "scull_wf d \<and> 0 < dev_sem d" "scull_addressable d p" for d p
    using that addressable_bound [of "dev_quantum d" "dev_qset d" p]
    by (auto simp: scull_addressable_def scull_wf_def)
next
  fix d k p n room ret bytes pos
  assume "scull_wf d \<and> 0 < dev_sem d" "(0::int) \<le> p" "p < 9223372036854775808"
    "(0::int) \<le> n" "n < 9223372036854775808"
    "read_spec (scull_cell d) (dev_size d) (dev_quantum d) room n p = (ret, bytes, pos)"
  then show "\<exists>d' k'. scull_read sig room d n p k = io_result ret bytes pos d' k' \<and> True \<and>
      (scull_wf d' \<and> 0 < dev_sem d') \<and> scull_cell d' = scull_cell d \<and>
      dev_size d' = dev_size d \<and> dev_quantum d' = dev_quantum d"
    using scull_read_result [of d p n sig room k] by auto
next
  fix d k p n ubuf
  assume "scull_wf d \<and> 0 < dev_sem d" "scull_addressable d p" "(0::int) \<le> n"
  then have d: "scull_wf d" "0 < dev_sem d" "scull_addressable d p" "0 \<le> n" by auto
  obtain ret pos d' k' where "scull_write sig ubuf d n p k = io_result ret [] pos d' k'"
      "scull_wf d'" "dev_sem d' = dev_sem d" "dev_quantum d' = dev_quantum d"
      "wrote (dev_quantum d) ubuf p (min n (dev_quantum d - p mod dev_quantum d)) ret
        (scull_cell d) (scull_cell d')"
      "pos = (case ret of Inl e \<Rightarrow> p | Inr c \<Rightarrow> p + c)"
      "dev_size d' = (case ret of Inl e \<Rightarrow> dev_size d | Inr c \<Rightarrow> max (dev_size d) (p + c))"
      "dev_qset d' = dev_qset d"
    by (rule scull_write_result [OF d, of sig ubuf k]) (rule that)
  with d(2) show "\<exists>ret d' k'.
      scull_write sig ubuf d n p k =
        io_result ret [] (case ret of Inl e \<Rightarrow> p | Inr c \<Rightarrow> p + c) d' k' \<and>
      True \<and> (scull_wf d' \<and> 0 < dev_sem d') \<and> dev_quantum d' = dev_quantum d \<and>
      wrote (dev_quantum d) ubuf p (min n (dev_quantum d - p mod dev_quantum d)) ret
        (scull_cell d) (scull_cell d') \<and>
      dev_size d' = (case ret of Inl e \<Rightarrow> dev_size d | Inr c \<Rightarrow> max (dev_size d) (p + c)) \<and>
      (\<forall>p'. scull_addressable d p' \<longrightarrow> scull_addressable d' p')"
    by (intro exI [of _ ret] exI [of _ d'] exI [of _ k']) (simp add: scull_addressable_def)
qed

section \<open>Concrete devices\<close>

text \<open>An empty device with quanta of 4 bytes and sets of 2 quanta; the same device and the
  memory after two bytes have been written to it at position 1.\<close>

definition empty_dev :: "scull_dev" where
  "empty_dev = \<lparr>dev_data = [], dev_quantum = 4, dev_qset = 2, dev_size = 0,
     dev_access_key = 0, dev_sem = 1\<rparr>"

definition used_dev :: "scull_dev" where
  "used_dev = empty_dev\<lparr>dev_size := 3,
     dev_data := [\<lparr>qn_at = 1, qn_data =
       Some (2, [Some (3, [None, Some 65, Some 66, None]), None])\<rparr>]\<rparr>"

definition used_mem :: "kmem" where
  "used_mem = fresh_kmem\<lparr>km_next := 4, km_live := [1 \<mapsto> 16, 2 \<mapsto> 16, 3 \<mapsto> 4]\<rparr>"

lemma example_devs [simp]:
  "scull_wf empty_dev" "scull_wf used_dev" "owns (scull_addrs used_dev) used_mem"
  by (auto simp: scull_wf_def empty_dev_def used_dev_def geometry_def node_ok_def block_ok_def
      owns_def kmem_ok_def used_mem_def scull_addrs_def node_addrs_def data_addrs_def)

lemma used_dev_sel [simp]:
  "dev_size used_dev = 3" "dev_quantum used_dev = 4" "dev_sem used_dev = 1"
  "dev_qset used_dev = 2" "dev_quantum empty_dev = 4" "dev_sem empty_dev = 1" "dev_qset empty_dev = 2" "dev_size empty_dev = 0"
  by (simp_all add: used_dev_def empty_dev_def)

lemma used_dev_written:
  "scull_write False [65, 66] empty_dev 2 1 fresh_kmem = io_result (Inr 2) [] 3 used_dev used_mem"
  by (simp add: scull_write_def scull_write_with_def locate_def c_div_def c_mod_def s32_def
      u64_def signed_divide_int_def signed_modulo_int_def Let_def scull_follow_def kmalloc_def
      fresh_kmem_def loop_count_def u32_def empty_dev_def fill_quantum_def ensure_array_def
      ensure_quantum_def clear_qset_def array_get_def scull_alloc_def copy_from_user_def
      store_cells_def within_quantum_def put_quantum_def s64_def up_def used_dev_def
      used_mem_def numeral_eq_Suc)

lemma used_dev_read:
  "scull_read False 3 used_dev 3 0 used_mem =
     io_result (Inr 3) [None, Some 65, Some 66] 3 used_dev used_mem"
proof -
  have "read_spec (scull_cell used_dev) 3 4 3 3 0 = (Inr 3, [None, Some 65, Some 66], 3)"
    by code_simp
  then show ?thesis
    using scull_read_result [of used_dev 0 3 False 3 used_mem] by simp
qed

lemma locate_far:
  assumes g: "geometry quantum qset" and p: "0 \<le> p" "p div (quantum * qset) < 2147483648"
  shows "locate quantum qset (p + 4294967296 * (quantum * qset)) = locate quantum qset p"
proof -
  let ?I = "quantum * qset"
  have pos: "0 < quantum" "0 < qset" "0 < ?I" "?I < 2147483648"
    using g geometry_bounds(3) [OF g] by (auto simp: geometry_def)
  have "c_div (p + 4294967296 * ?I) ?I = Done (4294967296 + p div ?I)"
    "c_mod (p + 4294967296 * ?I) ?I = Done (p mod ?I)" "c_div p ?I = Done (p div ?I)"
    "c_mod p ?I = Done (p mod ?I)"
    using p(1) pos by (simp_all add: c_div_nonneg c_mod_nonneg)
  moreover have "s32 ?I = ?I" using pos by (intro s32_id; linarith)
  ultimately show ?thesis
    unfolding locate_def Let_def by (simp only: and_then.simps s32_shift)
qed

section \<open>Properties\<close>

text \<open>C2: a read of a device with its semaphore free returns what the contents of the
  file say: nothing at the end of the file or in a hole, otherwise the bytes up to the end of
  the quantum, of the file or of the request, whichever comes first, and \<open>EFAULT\<close>
  when the user buffer is too short; it changes neither the device nor the memory.\<close>

theorem scull_read_spec:
  assumes "scull_wf dev" "0 < dev_sem dev" "0 \<le> f_pos" "f_pos < 9223372036854775808"
    "0 \<le> cnt" "cnt < 9223372036854775808"
  shows "scull_read sig room dev cnt f_pos k =
     (case read_spec (scull_cell dev) (dev_size dev) (dev_quantum dev) room cnt f_pos of
        (ret, bytes, pos) \<Rightarrow> io_result ret bytes pos dev k)"
  using assms by (rule scull_read_result)

lemma scull_read_spec_witness:
  "scull_read False 3 used_dev 3 0 used_mem =
     io_result (Inr 3) [None, Some 65, Some 66] 3 used_dev used_mem"
proof -
  have "read_spec (scull_cell used_dev) 3 4 3 3 0 = (Inr 3, [None, Some 65, Some 66], 3)"
    by code_simp
  then show ?thesis
    using scull_read_spec [of used_dev 0 3 False 3 used_mem] by simp
qed

text \<open>C1: a write never crashes and keeps the invariant and the parameters, whatever
  allocations fail and however much of the user buffer is accessible. It stores the bytes up to
  the end of the quantum, moves the position and the size by what it stored, keeps every other
  byte of the file, releases the semaphore, and the only memory it takes is reachable from the
  device.\<close>

theorem scull_write_spec:
  assumes "scull_wf dev" "0 < dev_sem dev" "scull_addressable dev f_pos" "0 \<le> cnt"
  shows "\<exists>ret pos dev' k'.
      scull_write sig ubuf dev cnt f_pos k = io_result ret [] pos dev' k' \<and>
      scull_wf dev' \<and> dev_sem dev' = dev_sem dev \<and>
      dev_quantum dev' = dev_quantum dev \<and> dev_qset dev' = dev_qset dev \<and>
      wrote (dev_quantum dev) ubuf f_pos (min cnt (dev_quantum dev - f_pos mod dev_quantum dev))
        ret (scull_cell dev) (scull_cell dev') \<and>
      pos = (case ret of Inl e \<Rightarrow> f_pos | Inr c \<Rightarrow> f_pos + c) \<and>
      dev_size dev' = (case ret of Inl e \<Rightarrow> dev_size dev | Inr c \<Rightarrow> max (dev_size dev) (f_pos + c)) \<and>
      (\<forall>f. accounted k (scull_addrs dev @ f) k' (scull_addrs dev' @ f))"
  by (rule scull_write_result [OF assms, of sig ubuf k]) blast

lemma scull_write_spec_witness:
  "\<exists>ret pos dev' k'. scull_write False [65, 66] empty_dev 2 1 fresh_kmem = io_result ret [] pos dev' k' \<and>
     scull_wf dev' \<and> (\<forall>f. accounted fresh_kmem (scull_addrs empty_dev @ f) k' (scull_addrs dev' @ f))"
proof -
  have "scull_addressable empty_dev 1" by code_simp
  then show ?thesis
    using scull_write_spec [of empty_dev 1 2 False "[65, 66]" fresh_kmem] by auto
qed

text \<open>C4: what a write has accepted a read at the same position returns.\<close>

theorem scull_write_read:
  assumes "scull_wf dev" "0 < dev_sem dev" "scull_addressable dev f_pos"
    and "0 \<le> cnt" "cnt < 9223372036854775808"
    and "scull_write sig ubuf dev cnt f_pos k = io_result (Inr n) out pos dev' k'"
    and "n \<le> int room"
  shows "\<exists>dev'' k''. scull_read sig room dev' n f_pos k' =
      io_result (Inr n) (map Some (take (nat n) ubuf)) (f_pos + n) dev'' k''"
  using scull_f.write_read [where d = dev and p = f_pos and n = cnt and ubuf = ubuf] assms by auto

lemma scull_write_read_witness:
  "\<exists>dev'' k''. scull_read False 2 used_dev 2 1 used_mem =
     io_result (Inr 2) [Some 65, Some 66] 3 dev'' k''"
  using scull_write_read [OF _ _ _ _ _ used_dev_written, of 2]
  by (simp add: scull_addressable_def)

text \<open>Opening a device for writing only empties it, gives it the current parameters,
  and frees exactly the memory the device held.\<close>

theorem scull_open_truncates:
  assumes "scull_wf dev" "0 < dev_sem dev" "owns (scull_addrs dev @ f) k" "write_only f_flags"
  shows "\<exists>k'. scull_open g sig f_flags dev k =
        Done (Inr 0, dev\<lparr>dev_data := [], dev_size := 0, dev_quantum := g_quantum g,
                         dev_qset := g_qset g\<rparr>, k') \<and>
      owns f k' \<and> km_live k' = km_live k |` (- set (scull_addrs dev))"
proof -
  let ?locked = "dev\<lparr>dev_sem := dev_sem dev - 1\<rparr>"
  have "scull_wf ?locked" "owns (scull_addrs ?locked @ f) k"
    using assms(1,3) by (auto simp: scull_wf_def scull_addrs_def)
  from scull_trim_result [OF this, of g] obtain k' where
    "scull_trim g ?locked k = Done (?locked\<lparr>dev_size := 0, dev_quantum := g_quantum g,
       dev_qset := g_qset g, dev_data := []\<rparr>, k')"
    "owns f k'" "km_live k' = km_live k |` (- set (scull_addrs ?locked))"
    by blast
  with assms(2,4) show ?thesis
    by (auto simp: scull_open_def scull_addrs_def)
qed

lemma scull_open_truncates_witness:
  "\<exists>k'. scull_open scull_default_globals False 1 used_dev used_mem =
        Done (Inr 0, used_dev\<lparr>dev_data := [], dev_size := 0, dev_quantum := 4000, dev_qset := 1000\<rparr>, k') \<and>
      dom (km_live k') = {}"
proof -
  have "write_only 1" by code_simp
  moreover have "scull_addrs used_dev = [3, 2, 1]"
    by (simp add: scull_addrs_def used_dev_def node_addrs_def data_addrs_def)
  moreover from this have "owns [3, 2, 1] used_mem" using example_devs(3) by simp
  moreover have "km_live used_mem |` (- {3, 2, 1}) = Map.empty"
    by (auto simp: used_mem_def restrict_map_def)
  ultimately show ?thesis
    using scull_open_truncates [of used_dev "[]" used_mem 1 scull_default_globals False]
    by (auto simp: scull_default_globals_def SCULL_QUANTUM_def SCULL_QSET_def)
qed

text \<open>The parameters are read before the semaphore is taken. A writer that waited
  while the device was emptied and given a smaller quantum writes past the end of the
  block.\<close>

theorem scull_write_stale_parameters:
  assumes wf: "scull_wf dev" and sem: "0 < dev_sem dev" and blk: "scull_cell dev 0 \<noteq> None"
    and g: "geometry quantum qset" and big: "dev_quantum dev < quantum" "dev_quantum dev < cnt"
  shows "scull_write_with quantum qset sig ubuf dev cnt 0 k = Crash Out_of_bounds"
proof -
  have loc: "locate quantum qset 0 = Done (0, 0, 0)"
    using locate_ok(1) [OF g, of 0] by simp
  have d: "geometry (dev_quantum dev) (dev_qset dev)" using wf by (simp add: scull_wf_def)
  obtain node rest where qs: "dev_data dev = node # rest"
    using blk by (cases "dev_data dev") (auto simp: scull_cell_def)
  obtain a ps where arr: "qn_data node = Some (a, ps)"
    using blk qs by (cases "qn_data node") (auto simp: scull_cell_def cell_at_def node_cell_def)
  obtain b cs where slot: "0 < length ps" "ps ! 0 = Some (b, cs)"
    using blk qs arr by (auto simp: scull_cell_def cell_at_def node_cell_def split: if_splits option.splits)
  have len: "length cs = nat (dev_quantum dev)"
  proof -
    have "node_ok (dev_quantum dev) (dev_qset dev) node" using wf qs by (simp add: scull_wf_def)
    then have "block_ok (dev_quantum dev) (ps ! 0)"
      using arr slot(1) by (cases ps) (auto simp: node_ok_def)
    then show ?thesis using slot(2) by (simp add: block_ok_def)
  qed
  have "scull_follow (dev\<lparr>dev_sem := dev_sem dev - 1\<rparr>) 0 k = (Some 0, dev\<lparr>dev_sem := dev_sem dev - 1\<rparr>, k)"
    using qs by (simp add: scull_follow_def loop_count_def u32_def)
  moreover have "within_quantum quantum 0 cnt = min cnt quantum"
    using geometry_bounds(1) [OF g] g by (simp add: within_quantum_min geometry_def)
  moreover have "store_cells cs 0 (fst (copy_from_user ubuf (nat (min cnt quantum)))) = Crash Out_of_bounds"
    using big len d by (simp add: store_cells_def geometry_def)
  ultimately show ?thesis
    using sem loc qs arr slot
    by (simp add: scull_write_with_def fill_quantum_def ensure_array_def ensure_quantum_def
        array_get_def Let_def split_beta)
qed

lemma scull_write_stale_parameters_witness:
  "scull_write_with 8 2 False [] used_dev 8 0 used_mem = Crash Out_of_bounds"
proof -
  have "scull_cell used_dev 0 \<noteq> None" by code_simp
  then show ?thesis
    using scull_write_stale_parameters [of used_dev 8 2 8 False "[]" used_mem]
    by (simp add: geometry_def)
qed

text \<open>A quantum is not cleared when it is allocated, so the bytes before a first
  write in it are returned by a read with whatever the allocator left there.\<close>

theorem scull_read_uninitialised:
  "scull_write False [65, 66] empty_dev 2 1 fresh_kmem = io_result (Inr 2) [] 3 used_dev used_mem \<and>
   scull_read False 3 used_dev 3 0 used_mem =
     io_result (Inr 3) [None, Some 65, Some 66] 3 used_dev used_mem"
  by (simp add: used_dev_written used_dev_read)

text \<open>The item number is converted to an \<open>int\<close>: a write 2^32 items
  further on ends in the same item, block and offset, and returns the same value.\<close>

theorem scull_far_write_aliases:
  assumes wf: "scull_wf dev" and sem: "0 < dev_sem dev"
    and addr: "scull_addressable dev p" and n: "0 \<le> cnt"
    and far: "q = p + 4294967296 * (dev_quantum dev * dev_qset dev)" "q < 4611686018427387904"
  shows "\<exists>ret pos far_pos dev' far_size k'.
      scull_write sig ubuf dev cnt p k = io_result ret [] pos dev' k' \<and>
      scull_write sig ubuf dev cnt q k =
        io_result ret [] far_pos (dev'\<lparr>dev_size := far_size\<rparr>) k'"
proof -
  have g: "geometry (dev_quantum dev) (dev_qset dev)" using wf by (simp add: scull_wf_def)
  have p: "0 \<le> p" "p div (dev_quantum dev * dev_qset dev) < 2147483648"
    using addr by (auto simp: scull_addressable_def)
  note eq = locate_far [OF g p, folded far(1)]
  obtain ret pos dev' k' where w: "scull_write sig ubuf dev cnt p k = io_result ret [] pos dev' k'"
    by (rule scull_write_result [OF wf sem addr n, of sig ubuf k]) (rule that)
  obtain r b c where fo:
      "scull_follow (dev\<lparr>dev_sem := dev_sem dev - 1\<rparr>) (p div (dev_quantum dev * dev_qset dev)) k = (r, b, c)"
    by (metis prod_cases3)
  show ?thesis
  proof (cases r)
    case None
    then show ?thesis
      using sem locate_ok(1) [OF g p] fo
      by (cases b) (auto simp: scull_write_def scull_write_with_def eq Let_def io_result_def)
  next
    case (Some i)
    then obtain ret node k2 where fill: "fill_quantum (dev_qset dev) (scull_alloc (dev_quantum dev))
        (dev_quantum dev) (dev_data b ! i) (p mod (dev_quantum dev * dev_qset dev) div dev_quantum dev)
        (p mod dev_quantum dev) ubuf cnt c = Done (ret, node, k2)"
      using w sem locate_ok(1) [OF g p] fo
      by (auto simp: scull_write_def scull_write_with_def Let_def io_result_def and_then_Done_iff)
    then show ?thesis
      using sem locate_ok(1) [OF g p] fo Some
      by (cases b; cases ret)
        (auto simp: scull_write_def scull_write_with_def eq Let_def io_result_def)
  qed
qed

lemma scull_far_write_aliases_witness:
  "\<exists>ret pos far_pos dev' far_size k'.
      scull_write False [67] used_dev 1 1 used_mem = io_result ret [] pos dev' k' \<and>
      scull_write False [67] used_dev 1 34359738369 used_mem =
        io_result ret [] far_pos (dev'\<lparr>dev_size := far_size\<rparr>) k'"
proof -
  have "scull_addressable used_dev 1" by code_simp
  then show ?thesis
    using scull_far_write_aliases [of used_dev 1 1 34359738369 False "[67]" used_mem]
    by simp
qed

end
