(* ===== verification/Scull_Ioctl.thy ===== *)
theory Scull_Ioctl
  imports Scull_Main
begin

text \<open>
  \<open>scull_ioctl\<close> of Kernel/Driver/scull/main.c, which the bare devices, the pipes and the
  access-controlled devices all use, and the command numbers of scull.h. The method works on
  the module's parameters and on the memory of the caller. Whether the caller has
  \<open>CAP_SYS_ADMIN\<close> and which user ranges \<open>access_ok\<close> accepts are arguments.
\<close>

section \<open>Commands\<close>

definition SCULL_IOC_MAGIC :: "32 word" where "SCULL_IOC_MAGIC = 107"
definition SCULL_IOC_MAXNR :: "32 word" where "SCULL_IOC_MAXNR = 14"

definition SCULL_IOCRESET :: "32 word" where "SCULL_IOCRESET = io_cmd SCULL_IOC_MAGIC 0"
definition SCULL_IOCSQUANTUM :: "32 word" where "SCULL_IOCSQUANTUM = iow_cmd SCULL_IOC_MAGIC 1"
definition SCULL_IOCSQSET :: "32 word" where "SCULL_IOCSQSET = iow_cmd SCULL_IOC_MAGIC 2"
definition SCULL_IOCTQUANTUM :: "32 word" where "SCULL_IOCTQUANTUM = io_cmd SCULL_IOC_MAGIC 3"
definition SCULL_IOCTQSET :: "32 word" where "SCULL_IOCTQSET = io_cmd SCULL_IOC_MAGIC 4"
definition SCULL_IOCGQUANTUM :: "32 word" where "SCULL_IOCGQUANTUM = ior_cmd SCULL_IOC_MAGIC 5"
definition SCULL_IOCGQSET :: "32 word" where "SCULL_IOCGQSET = ior_cmd SCULL_IOC_MAGIC 6"
definition SCULL_IOCQQUANTUM :: "32 word" where "SCULL_IOCQQUANTUM = io_cmd SCULL_IOC_MAGIC 7"
definition SCULL_IOCQQSET :: "32 word" where "SCULL_IOCQQSET = io_cmd SCULL_IOC_MAGIC 8"
definition SCULL_IOCXQUANTUM :: "32 word" where "SCULL_IOCXQUANTUM = iowr_cmd SCULL_IOC_MAGIC 9"
definition SCULL_IOCXQSET :: "32 word" where "SCULL_IOCXQSET = iowr_cmd SCULL_IOC_MAGIC 10"
definition SCULL_IOCHQUANTUM :: "32 word" where "SCULL_IOCHQUANTUM = io_cmd SCULL_IOC_MAGIC 11"
definition SCULL_IOCHQSET :: "32 word" where "SCULL_IOCHQSET = io_cmd SCULL_IOC_MAGIC 12"
definition SCULL_P_IOCTSIZE :: "32 word" where "SCULL_P_IOCTSIZE = io_cmd SCULL_IOC_MAGIC 13"
definition SCULL_P_IOCQSIZE :: "32 word" where "SCULL_P_IOCQSIZE = io_cmd SCULL_IOC_MAGIC 14"

lemmas scull_cmd_defs = SCULL_IOC_MAGIC_def SCULL_IOC_MAXNR_def SCULL_IOCRESET_def
  SCULL_IOCSQUANTUM_def SCULL_IOCSQSET_def SCULL_IOCTQUANTUM_def SCULL_IOCTQSET_def
  SCULL_IOCGQUANTUM_def SCULL_IOCGQSET_def SCULL_IOCQQUANTUM_def SCULL_IOCQQSET_def
  SCULL_IOCXQUANTUM_def SCULL_IOCXQSET_def SCULL_IOCHQUANTUM_def SCULL_IOCHQSET_def
  SCULL_P_IOCTSIZE_def SCULL_P_IOCQSIZE_def

section \<open>The method\<close>

text \<open>The result is the return value, the parameters and the caller's memory.\<close>

definition scull_ioctl ::
    "bool \<Rightarrow> (int \<Rightarrow> int \<Rightarrow> bool) \<Rightarrow> 32 word \<Rightarrow> int \<Rightarrow> scull_globals \<Rightarrow> umem \<Rightarrow>
     (errno + int) \<times> scull_globals \<times> umem" where
  "scull_ioctl capable access_ok cmd arg g um =
     (if ioc_type cmd \<noteq> SCULL_IOC_MAGIC then (Inl ENOTTY, g, um)
      else if ioc_nr cmd > SCULL_IOC_MAXNR then (Inl ENOTTY, g, um)
      else
        let err =
          (if and (ioc_dir cmd) IOC_READ \<noteq> 0 then \<not> access_ok arg (uint (ioc_size cmd))
           else if and (ioc_dir cmd) IOC_WRITE \<noteq> 0 then \<not> access_ok arg (uint (ioc_size cmd))
           else False)
        in
        if err then (Inl EFAULT, g, um)
        else if cmd = SCULL_IOCRESET then
          (Inr 0, g\<lparr>g_quantum := SCULL_QUANTUM, g_qset := SCULL_QSET\<rparr>, um)
        else if cmd = SCULL_IOCSQUANTUM then
          (if \<not> capable then (Inl EPERM, g, um)
           else case get_user um arg of (e, v) \<Rightarrow> (status e, g\<lparr>g_quantum := v\<rparr>, um))
        else if cmd = SCULL_IOCTQUANTUM then
          (if \<not> capable then (Inl EPERM, g, um)
           else (Inr 0, g\<lparr>g_quantum := s32 arg\<rparr>, um))
        else if cmd = SCULL_IOCGQUANTUM then
          (case put_user (g_quantum g) arg um of (e, um) \<Rightarrow> (status e, g, um))
        else if cmd = SCULL_IOCQQUANTUM then (Inr (g_quantum g), g, um)
        else if cmd = SCULL_IOCXQUANTUM then
          (if \<not> capable then (Inl EPERM, g, um)
           else case get_user um arg of
             (Some e, v) \<Rightarrow> (Inl e, g\<lparr>g_quantum := v\<rparr>, um)
           | (None, v) \<Rightarrow>
               (case put_user (g_quantum g) arg um of
                  (e, um) \<Rightarrow> (status e, g\<lparr>g_quantum := v\<rparr>, um)))
        else if cmd = SCULL_IOCHQUANTUM then
          (if \<not> capable then (Inl EPERM, g, um)
           else (Inr (g_quantum g), g\<lparr>g_quantum := s32 arg\<rparr>, um))
        else if cmd = SCULL_IOCSQSET then
          (if \<not> capable then (Inl EPERM, g, um)
           else case get_user um arg of (e, v) \<Rightarrow> (status e, g\<lparr>g_qset := v\<rparr>, um))
        else if cmd = SCULL_IOCTQSET then
          (if \<not> capable then (Inl EPERM, g, um)
           else (Inr 0, g\<lparr>g_qset := s32 arg\<rparr>, um))
        else if cmd = SCULL_IOCGQSET then
          (case put_user (g_qset g) arg um of (e, um) \<Rightarrow> (status e, g, um))
        else if cmd = SCULL_IOCQQSET then (Inr (g_qset g), g, um)
        else if cmd = SCULL_IOCXQSET then
          (if \<not> capable then (Inl EPERM, g, um)
           else case get_user um arg of
             (Some e, v) \<Rightarrow> (Inl e, g\<lparr>g_qset := v\<rparr>, um)
           | (None, v) \<Rightarrow>
               (case put_user (g_qset g) arg um of
                  (e, um) \<Rightarrow> (status e, g\<lparr>g_qset := v\<rparr>, um)))
        else if cmd = SCULL_IOCHQSET then
          (if \<not> capable then (Inl EPERM, g, um)
           else (Inr (g_qset g), g\<lparr>g_qset := s32 arg\<rparr>, um))
        else if cmd = SCULL_P_IOCTSIZE then (Inr 0, g\<lparr>g_p_buffer := s32 arg\<rparr>, um)
        else if cmd = SCULL_P_IOCQSIZE then (Inr (g_p_buffer g), g, um)
        else (Inl ENOTTY, g, um))"

section \<open>What the commands mean\<close>

text \<open>The letters of the command names, for a parameter with the value \<open>v\<close>: Set, Tell, Get,
  Query, eXchange, sHift. The result is the return value, the new value and the caller's
  memory.\<close>

datatype param_op = Set_op | Tell_op | Get_op | Query_op | Exchange_op | Shift_op

fun param_spec :: "param_op \<Rightarrow> int \<Rightarrow> int \<Rightarrow> umem \<Rightarrow> (errno + int) \<times> int \<times> umem" where
  "param_spec Set_op arg v um =
     (case um arg of None \<Rightarrow> (Inl EFAULT, 0, um) | Some w \<Rightarrow> (Inr 0, w, um))"
| "param_spec Tell_op arg v um = (Inr 0, s32 arg, um)"
| "param_spec Get_op arg v um =
     (case um arg of None \<Rightarrow> (Inl EFAULT, v, um) | Some w \<Rightarrow> (Inr 0, v, um(arg \<mapsto> v)))"
| "param_spec Query_op arg v um = (Inr v, v, um)"
| "param_spec Exchange_op arg v um =
     (case um arg of None \<Rightarrow> (Inl EFAULT, 0, um) | Some w \<Rightarrow> (Inr 0, w, um(arg \<mapsto> v)))"
| "param_spec Shift_op arg v um = (Inr v, s32 arg, um)"

definition changes :: "param_op \<Rightarrow> bool" where
  "changes op \<longleftrightarrow> op \<notin> {Get_op, Query_op}"

definition by_pointer :: "param_op \<Rightarrow> bool" where
  "by_pointer op \<longleftrightarrow> op \<in> {Set_op, Get_op, Exchange_op}"

datatype scull_request =
  Reset_request | Quantum_request param_op | Qset_request param_op | Pipe_tell | Pipe_query

text \<open>The command of each request.\<close>

fun scull_command :: "scull_request \<Rightarrow> 32 word" where
  "scull_command Reset_request = SCULL_IOCRESET"
| "scull_command (Quantum_request Set_op) = SCULL_IOCSQUANTUM"
| "scull_command (Quantum_request Tell_op) = SCULL_IOCTQUANTUM"
| "scull_command (Quantum_request Get_op) = SCULL_IOCGQUANTUM"
| "scull_command (Quantum_request Query_op) = SCULL_IOCQQUANTUM"
| "scull_command (Quantum_request Exchange_op) = SCULL_IOCXQUANTUM"
| "scull_command (Quantum_request Shift_op) = SCULL_IOCHQUANTUM"
| "scull_command (Qset_request Set_op) = SCULL_IOCSQSET"
| "scull_command (Qset_request Tell_op) = SCULL_IOCTQSET"
| "scull_command (Qset_request Get_op) = SCULL_IOCGQSET"
| "scull_command (Qset_request Query_op) = SCULL_IOCQQSET"
| "scull_command (Qset_request Exchange_op) = SCULL_IOCXQSET"
| "scull_command (Qset_request Shift_op) = SCULL_IOCHQSET"
| "scull_command Pipe_tell = SCULL_P_IOCTSIZE"
| "scull_command Pipe_query = SCULL_P_IOCQSIZE"

fun request_pointer :: "scull_request \<Rightarrow> bool" where
  "request_pointer (Quantum_request op) = by_pointer op"
| "request_pointer (Qset_request op) = by_pointer op"
| "request_pointer _ = False"

fun request_privileged :: "scull_request \<Rightarrow> bool" where
  "request_privileged (Quantum_request op) = changes op"
| "request_privileged (Qset_request op) = changes op"
| "request_privileged _ = False"

text \<open>What a request does once it is allowed.\<close>

fun request_effect ::
    "scull_request \<Rightarrow> int \<Rightarrow> scull_globals \<Rightarrow> umem \<Rightarrow> (errno + int) \<times> scull_globals \<times> umem" where
  "request_effect Reset_request arg g um =
     (Inr 0, g\<lparr>g_quantum := 4000, g_qset := 1000\<rparr>, um)"
| "request_effect (Quantum_request op) arg g um =
     (case param_spec op arg (g_quantum g) um of (r, v, um) \<Rightarrow> (r, g\<lparr>g_quantum := v\<rparr>, um))"
| "request_effect (Qset_request op) arg g um =
     (case param_spec op arg (g_qset g) um of (r, v, um) \<Rightarrow> (r, g\<lparr>g_qset := v\<rparr>, um))"
| "request_effect Pipe_tell arg g um = (Inr 0, g\<lparr>g_p_buffer := s32 arg\<rparr>, um)"
| "request_effect Pipe_query arg g um = (Inr (g_p_buffer g), g, um)"

section \<open>Lemmas\<close>

lemmas scull_cmd_values = scull_cmd_defs [unfolded ioc_defs]

lemma ioctl_command:
  "scull_ioctl capable access_ok (scull_command r) arg g um =
     (if request_pointer r \<and> \<not> access_ok arg 4 then (Inl EFAULT, g, um)
      else if request_privileged r \<and> \<not> capable then (Inl EPERM, g, um)
      else request_effect r arg g um)"
proof (cases r)
  case (Quantum_request op)
  then show ?thesis
    by (cases op) (simp_all add: scull_ioctl_def scull_cmd_values ioc_defs by_pointer_def
        changes_def get_user_def put_user_def status_def split: option.split)
next
  case (Qset_request op)
  then show ?thesis
    by (cases op) (simp_all add: scull_ioctl_def scull_cmd_values ioc_defs by_pointer_def
        changes_def get_user_def put_user_def status_def split: option.split)
qed (simp_all add: scull_ioctl_def scull_cmd_values SCULL_QUANTUM_def SCULL_QSET_def ioc_defs)

lemma ioctl_unknown:
  assumes "cmd \<notin> range scull_command"
  shows "scull_ioctl capable access_ok cmd arg g um \<in> {(Inl ENOTTY, g, um), (Inl EFAULT, g, um)}"
proof -
  have "cmd \<noteq> scull_command r" for r using assms by blast
  from this [of Reset_request] this [of "Quantum_request Set_op"]
    this [of "Quantum_request Tell_op"] this [of "Quantum_request Get_op"]
    this [of "Quantum_request Query_op"] this [of "Quantum_request Exchange_op"]
    this [of "Quantum_request Shift_op"] this [of "Qset_request Set_op"]
    this [of "Qset_request Tell_op"] this [of "Qset_request Get_op"]
    this [of "Qset_request Query_op"] this [of "Qset_request Exchange_op"]
    this [of "Qset_request Shift_op"] this [of Pipe_tell] this [of Pipe_query]
  show ?thesis
    by (simp add: scull_ioctl_def Let_def)
qed

lemma request_effect_unprivileged:
  assumes "request_effect r arg g um = (ret, g', um')" "\<not> request_privileged r"
  shows "g' = g \<or> r = Reset_request \<and> g' = g\<lparr>g_quantum := 4000, g_qset := 1000\<rparr> \<or>
    r = Pipe_tell \<and> g' = g\<lparr>g_p_buffer := s32 arg\<rparr>"
proof (cases r)
  case (Quantum_request op)
  with assms show ?thesis
    by (cases op; cases "um arg") (auto simp: changes_def)
next
  case (Qset_request op)
  with assms show ?thesis
    by (cases op; cases "um arg") (auto simp: changes_def)
qed (use assms in auto)

section \<open>Properties\<close>

text \<open>The method answers every command. One of the fifteen of scull.h fails with
  \<open>EFAULT\<close> when it carries a pointer that \<open>access_ok\<close> refuses, with \<open>EPERM\<close> when it changes a
  parameter for a caller without the capability, and otherwise does what its name says: Set,
  Tell, Get, Query, eXchange or sHift the quantum or the set size, reset both, set or return the
  size of the pipes' buffers. Any other command changes nothing.\<close>

theorem scull_ioctl_meaning:
  "(\<exists>r. cmd = scull_command r \<and> scull_ioctl capable access_ok cmd arg g um =
       (if request_pointer r \<and> \<not> access_ok arg 4 then (Inl EFAULT, g, um)
        else if request_privileged r \<and> \<not> capable then (Inl EPERM, g, um)
        else request_effect r arg g um)) \<or>
   cmd \<notin> range scull_command \<and>
     scull_ioctl capable access_ok cmd arg g um \<in> {(Inl ENOTTY, g, um), (Inl EFAULT, g, um)}"
  using ioctl_command ioctl_unknown by (cases "cmd \<in> range scull_command") blast+

text \<open>A caller without \<open>CAP_SYS_ADMIN\<close> can change the parameters in two ways only: back
  to the default quantum and set size, and, unlike what the other commands require, the size of
  the pipes' buffers to any value.\<close>

theorem scull_ioctl_unprivileged:
  "\<exists>ret g' um'. scull_ioctl False access_ok cmd arg g um = (ret, g', um') \<and>
     (g' = g \<or>
      cmd = SCULL_IOCRESET \<and> g' = g\<lparr>g_quantum := SCULL_QUANTUM, g_qset := SCULL_QSET\<rparr> \<or>
      cmd = SCULL_P_IOCTSIZE \<and> g' = g\<lparr>g_p_buffer := s32 arg\<rparr>)"
proof (cases "cmd \<in> range scull_command")
  case False
  then show ?thesis using ioctl_unknown [OF False, of False access_ok arg g um] by auto
next
  case True
  then obtain r where cmd: "cmd = scull_command r" by blast
  obtain ret g' um' where eff: "request_effect r arg g um = (ret, g', um')" by (metis prod_cases3)
  show ?thesis
    using request_effect_unprivileged [OF eff]
    by (auto simp: cmd ioctl_command eff SCULL_QUANTUM_def SCULL_QSET_def)
qed

text \<open>When the argument of the Set command is a bad pointer the call fails with
  \<open>EFAULT\<close>, but \<open>__get_user\<close> has set the parameter to 0. The next device opened for writing
  gets a quantum of 0, and every write to it divides by zero.\<close>

theorem scull_ioctl_bad_pointer:
  assumes "access_ok arg 4" "um arg = None"
    and "scull_wf dev" "0 < dev_sem dev" "owns (scull_addrs dev @ f) k" "write_only f_flags"
  shows "\<exists>g' dev' k'. scull_ioctl True access_ok SCULL_IOCSQUANTUM arg g um = (Inl EFAULT, g', um) \<and>
      scull_open g' sig f_flags dev k = Done (Inr 0, dev', k') \<and>
      (\<forall>ubuf cnt f_pos. scull_write sig ubuf dev' cnt f_pos k' = Crash Divide_error)"
proof -
  let ?g = "g\<lparr>g_quantum := 0\<rparr>" and ?locked = "dev\<lparr>dev_sem := dev_sem dev - 1\<rparr>"
  have "scull_ioctl True access_ok SCULL_IOCSQUANTUM arg g um = (Inl EFAULT, ?g, um)"
    using ioctl_command [of True access_ok "Quantum_request Set_op" arg g um] assms(1,2) by simp
  moreover have "scull_wf ?locked" "owns (scull_addrs ?locked @ f) k"
    using assms(3,5) by (auto simp: scull_wf_def scull_addrs_def)
  from scull_trim_result [OF this, of ?g] obtain k' where
    "scull_trim ?g ?locked k = Done (?locked\<lparr>dev_size := 0, dev_quantum := 0,
       dev_qset := g_qset g, dev_data := []\<rparr>, k')"
    by auto
  ultimately show ?thesis
    using assms(4,6)
    by (auto simp: scull_open_def scull_write_def scull_write_with_def locate_def c_div_def
        s32_def Let_def)
qed

lemma scull_ioctl_bad_pointer_witness:
  "\<exists>g' dev' k'. scull_ioctl True (\<lambda>_ _. True) SCULL_IOCSQUANTUM 0 scull_default_globals Map.empty =
        (Inl EFAULT, g', Map.empty) \<and>
      scull_open g' False 1 used_dev used_mem = Done (Inr 0, dev', k') \<and>
      (\<forall>ubuf cnt f_pos. scull_write False ubuf dev' cnt f_pos k' = Crash Divide_error)"
proof -
  have "write_only 1" by code_simp
  then show ?thesis
    using scull_ioctl_bad_pointer [where dev = used_dev and f = "[]" and k = used_mem] by simp
qed

end
