(* ===== verification/Scull_Pipe.thy ===== *)
theory Scull_Pipe
  imports Scull_Main
begin

text \<open>
  The pipe device: Kernel/Driver/scull/pipe.c. The pointers \<open>end\<close>, \<open>rp\<close> and \<open>wp\<close> are offsets
  from \<open>buffer\<close>. The parts of \<open>scull_p_read\<close> and \<open>scull_p_write\<close> that run with the semaphore
  held are functions here; the theory Scull_Pipe_Machine puts them together with the sleeping.
\<close>

section \<open>State\<close>

record scull_pipe =
  p_buffer :: "quantum_block option"
  p_buffersize :: int
  p_end :: int
  p_rp :: int
  p_wp :: int
  p_nreaders :: int
  p_nwriters :: int
  p_async :: "nat list"
  p_sem :: int

text \<open>A cleared device with its semaphore initialised, as \<open>scull_p_init\<close> makes it.\<close>

definition clear_pipe :: "scull_pipe" where
  "clear_pipe = \<lparr>p_buffer = None, p_buffersize = 0, p_end = 0, p_rp = 0, p_wp = 0,
     p_nreaders = 0, p_nwriters = 0, p_async = [], p_sem = 1\<rparr>"

section \<open>Operations\<close>

subsection \<open>Open and release\<close>

text \<open>\<open>fasync_helper\<close> adds the file to the list of files that get \<open>SIGIO\<close>, or removes it;
  it returns 1 when that changed the list.\<close>

definition scull_p_fasync :: "nat \<Rightarrow> int \<Rightarrow> scull_pipe \<Rightarrow> int \<times> scull_pipe" where
  "scull_p_fasync filp mode dev =
     (if mode = 0
      then (if filp \<in> set (p_async dev) then 1 else 0,
            dev\<lparr>p_async := remove1 filp (p_async dev)\<rparr>)
      else if filp \<in> set (p_async dev) then (0, dev)
      else (1, dev\<lparr>p_async := filp # p_async dev\<rparr>))"

definition scull_p_open ::
    "scull_globals \<Rightarrow> bool \<Rightarrow> bool \<Rightarrow> bool \<Rightarrow> scull_pipe \<Rightarrow> kmem \<Rightarrow>
     ((errno + int) \<times> scull_pipe \<times> kmem) outcome" where
  "scull_p_open g sig fmode_read fmode_write dev k =
     and_then (down_interruptible sig (p_sem dev)) (\<lambda>d.
       case d of
         Inl _ \<Rightarrow> Done (Inl ERESTARTSYS, dev, k)
       | Inr sem \<Rightarrow>
           let dev = dev\<lparr>p_sem := sem\<rparr> in
           case (case p_buffer dev of
                   Some b \<Rightarrow> (Some b, k)
                 | None \<Rightarrow>
                     (case kmalloc (g_p_buffer g) k of
                        (None, k) \<Rightarrow> (None, k)
                      | (Some a, k) \<Rightarrow> (Some (a, replicate (nat (g_p_buffer g)) None), k))) of
             (None, k) \<Rightarrow> Done (Inl ENOMEM, dev\<lparr>p_sem := up (p_sem dev)\<rparr>, k)
           | (Some b, k) \<Rightarrow>
               let dev = dev\<lparr>p_buffer := Some b, p_buffersize := g_p_buffer g,
                             p_end := g_p_buffer g, p_rp := 0, p_wp := 0\<rparr>;
                   dev = (if fmode_read then dev\<lparr>p_nreaders := s32 (p_nreaders dev + 1)\<rparr> else dev);
                   dev = (if fmode_write then dev\<lparr>p_nwriters := s32 (p_nwriters dev + 1)\<rparr> else dev)
               in Done (Inr 0, dev\<lparr>p_sem := up (p_sem dev)\<rparr>, k))"

definition scull_p_release ::
    "nat \<Rightarrow> bool \<Rightarrow> bool \<Rightarrow> scull_pipe \<Rightarrow> kmem \<Rightarrow> (scull_pipe \<times> kmem) outcome" where
  "scull_p_release filp fmode_read fmode_write dev k =
     (let dev = snd (scull_p_fasync filp 0 dev) in
      and_then (down (p_sem dev)) (\<lambda>sem.
        let dev = dev\<lparr>p_sem := sem\<rparr>;
            dev = (if fmode_read then dev\<lparr>p_nreaders := s32 (p_nreaders dev - 1)\<rparr> else dev);
            dev = (if fmode_write then dev\<lparr>p_nwriters := s32 (p_nwriters dev - 1)\<rparr> else dev)
        in if s32 (p_nreaders dev + p_nwriters dev) = 0
           then and_then (case p_buffer dev of None \<Rightarrow> Done k | Some b \<Rightarrow> kfree (fst b) k) (\<lambda>k.
                  Done (dev\<lparr>p_buffer := None, p_sem := up (p_sem dev)\<rparr>, k))
           else Done (dev\<lparr>p_sem := up (p_sem dev)\<rparr>, k)))"

subsection \<open>Space and data\<close>

definition spacefree :: "scull_pipe \<Rightarrow> int outcome" where
  "spacefree dev =
     (if p_rp dev = p_wp dev then Done (s32 (p_buffersize dev - 1))
      else and_then (c_mod (p_rp dev + p_buffersize dev - p_wp dev) (p_buffersize dev)) (\<lambda>m.
        Done (s32 (m - 1))))"

text \<open>\<open>if (dev->rp == dev->end) dev->rp = dev->buffer;\<close>, and the same for \<open>wp\<close>.\<close>

definition wrap :: "int \<Rightarrow> int \<Rightarrow> int" where
  "wrap end_off p = (if p = end_off then 0 else p)"

text \<open>\<open>scull_p_read\<close> from \<open>ok, data is there\<close> to \<open>up(&dev->sem)\<close>. The file's pointers are
  of no use without a buffer.\<close>

definition p_read_chunk ::
    "nat \<Rightarrow> scull_pipe \<Rightarrow> int \<Rightarrow> ((errno + int) \<times> cell list \<times> scull_pipe) outcome" where
  "p_read_chunk room dev cnt =
     (let cnt = (if p_wp dev > p_rp dev then min cnt (u64 (p_wp dev - p_rp dev))
                 else min cnt (u64 (p_end dev - p_rp dev)))
      in case p_buffer dev of
           None \<Rightarrow> Crash Out_of_bounds
         | Some (a, cs) \<Rightarrow>
             and_then (load_cells cs (p_rp dev) cnt) (\<lambda>src.
               case copy_to_user room src of (bytes, missing) \<Rightarrow>
                 if missing \<noteq> 0 then Done (Inl EFAULT, bytes, dev\<lparr>p_sem := up (p_sem dev)\<rparr>)
                 else
                   Done (Inr cnt, bytes, dev\<lparr>p_rp := wrap (p_end dev) (p_rp dev + cnt),
                                            p_sem := up (p_sem dev)\<rparr>)))"

text \<open>\<open>scull_p_write\<close> from \<open>ok, space is there\<close> to \<open>up(&dev->sem)\<close>.\<close>

definition p_write_chunk ::
    "byte list \<Rightarrow> scull_pipe \<Rightarrow> int \<Rightarrow> ((errno + int) \<times> scull_pipe) outcome" where
  "p_write_chunk ubuf dev cnt =
     and_then (spacefree dev) (\<lambda>free.
       let cnt = min cnt (u64 free);
           cnt = (if p_wp dev \<ge> p_rp dev then min cnt (u64 (p_end dev - p_wp dev))
                  else min cnt (u64 (p_rp dev - p_wp dev - 1)))
       in case p_buffer dev of
            None \<Rightarrow> Crash Out_of_bounds
          | Some (a, cs) \<Rightarrow>
              (case copy_from_user ubuf (nat cnt) of (new, missing) \<Rightarrow>
                 and_then (store_cells cs (p_wp dev) new) (\<lambda>cs.
                   let dev = dev\<lparr>p_buffer := Some (a, cs)\<rparr> in
                   if missing \<noteq> 0 then Done (Inl EFAULT, dev\<lparr>p_sem := up (p_sem dev)\<rparr>)
                   else
                     Done (Inr cnt, dev\<lparr>p_wp := wrap (p_end dev) (p_wp dev + cnt),
                                       p_sem := up (p_sem dev)\<rparr>))))"

definition POLLIN :: int where "POLLIN = 1"
definition POLLOUT :: int where "POLLOUT = 4"
definition POLLRDNORM :: int where "POLLRDNORM = 64"
definition POLLWRNORM :: int where "POLLWRNORM = 256"

definition scull_p_poll :: "scull_pipe \<Rightarrow> (int \<times> scull_pipe) outcome" where
  "scull_p_poll dev =
     and_then (down (p_sem dev)) (\<lambda>sem.
       let dev = dev\<lparr>p_sem := sem\<rparr>;
           mask = 0;
           mask = (if p_rp dev \<noteq> p_wp dev then or mask (or POLLIN POLLRDNORM) else mask)
       in and_then (spacefree dev) (\<lambda>free.
            let mask = (if free \<noteq> 0 then or mask (or POLLOUT POLLWRNORM) else mask)
            in Done (mask, dev\<lparr>p_sem := up (p_sem dev)\<rparr>)))"

section \<open>The buffer as a queue\<close>

definition pipe_ok :: "scull_pipe \<Rightarrow> bool" where
  "pipe_ok dev \<longleftrightarrow>
     (case p_buffer dev of
        None \<Rightarrow> False
      | Some (a, cs) \<Rightarrow> length cs = nat (p_buffersize dev)) \<and>
     0 < p_buffersize dev \<and> p_buffersize dev < 2147483648 \<and> p_end dev = p_buffersize dev \<and>
     0 \<le> p_rp dev \<and> p_rp dev < p_buffersize dev \<and>
     0 \<le> p_wp dev \<and> p_wp dev < p_buffersize dev"

text \<open>What lies between index \<open>r\<close> and index \<open>w\<close> of a circular buffer.\<close>

definition ring_cells :: "'a list \<Rightarrow> nat \<Rightarrow> nat \<Rightarrow> 'a list" where
  "ring_cells cs r w = (if r \<le> w then take (w - r) (drop r cs) else drop r cs @ take w cs)"

lemma length_ring:
  "r < length cs \<Longrightarrow> w < length cs \<Longrightarrow>
     length (ring_cells cs r w) = (if r \<le> w then w - r else length cs - r + w)"
  by (auto simp: ring_cells_def)

definition ring_next :: "'a list \<Rightarrow> nat \<Rightarrow> nat" where
  "ring_next cs i = (if i = length cs then 0 else i)"

lemma ring_get:
  assumes "r < length cs" "w < length cs"
    and c: "r < w \<and> r + c \<le> w \<or> w < r \<and> r + c \<le> length cs"
  shows "ring_cells cs r w = take c (drop r cs) @ ring_cells cs (ring_next cs (r + c)) w"
  using c
proof
  assume "r < w \<and> r + c \<le> w"
  then have "w - r = c + (w - (r + c))" and "r + c \<noteq> length cs" using assms(2) by auto
  moreover from this have "take (w - r) (drop r cs) = take c (drop r cs) @ take (w - (r + c)) (drop c (drop r cs))"
    using take_add by metis
  ultimately show ?thesis
    using \<open>r < w \<and> r + c \<le> w\<close> by (simp add: ring_cells_def ring_next_def add.commute)
next
  assume wr: "w < r \<and> r + c \<le> length cs"
  have "drop r cs = take c (drop r cs) @ drop (r + c) cs"
    by (metis append_take_drop_id drop_drop add.commute)
  with wr show ?thesis
    by (cases "r + c = length cs") (auto simp: ring_cells_def ring_next_def)
qed

lemma ring_put:
  assumes "r < length cs" "w < length cs" and n: "n = length new"
    and c: "r \<le> w \<and> w + n \<le> length cs \<and> (r = 0 \<longrightarrow> w + n < length cs) \<or> w < r \<and> w + n < r"
    and cs': "cs' = take w cs @ new @ drop (w + n) cs"
  shows "ring_cells cs' r (ring_next cs (w + n)) = ring_cells cs r w @ new" "ring_cells cs' r w = ring_cells cs r w"
  using c
proof -
  show "ring_cells cs' r (ring_next cs (w + n)) = ring_cells cs r w @ new"
    using assms by (auto simp: ring_cells_def ring_next_def drop_take)
  show "ring_cells cs' r w = ring_cells cs r w"
    using assms by (auto simp: ring_cells_def drop_take)
qed
definition pipe_content :: "scull_pipe \<Rightarrow> cell list" where
  "pipe_content dev =
     (case p_buffer dev of
        None \<Rightarrow> []
      | Some (a, cs) \<Rightarrow> ring_cells cs (nat (p_rp dev)) (nat (p_wp dev)))"

definition pipe_capacity :: "scull_pipe \<Rightarrow> nat" where
  "pipe_capacity dev = nat (p_buffersize dev - 1)"

text \<open>A bounded queue as its clients see it. \<open>get\<close> and \<open>put\<close> may transfer less than they
  are asked to, but something whenever something can be transferred.\<close>

locale bounded_queue =
  fixes ok :: "'d \<Rightarrow> bool" and content :: "'d \<Rightarrow> cell list" and capacity :: "'d \<Rightarrow> nat"
    and get :: "nat \<Rightarrow> 'd \<Rightarrow> int \<Rightarrow> ((errno + int) \<times> cell list \<times> 'd) outcome"
    and put :: "byte list \<Rightarrow> 'd \<Rightarrow> int \<Rightarrow> ((errno + int) \<times> 'd) outcome"
  assumes content_capacity: "ok d \<Longrightarrow> length (content d) \<le> capacity d"
    and get_law: "\<lbrakk>ok d; content d \<noteq> []; 0 \<le> n\<rbrakk> \<Longrightarrow> \<exists>ret bytes d'.
        get room d n = Done (ret, bytes, d') \<and> ok d' \<and> capacity d' = capacity d \<and>
        (case ret of
           Inl e \<Rightarrow> e = EFAULT \<and> int room < n \<and> content d' = content d
         | Inr c \<Rightarrow> c = int (length bytes) \<and> c \<le> n \<and> (0 < n \<longrightarrow> 0 < c) \<and>
             content d = bytes @ content d')"
    and put_law: "\<lbrakk>ok d; length (content d) < capacity d; 0 \<le> n\<rbrakk> \<Longrightarrow> \<exists>ret d'.
        put ubuf d n = Done (ret, d') \<and> ok d' \<and> capacity d' = capacity d \<and>
        (case ret of
           Inl e \<Rightarrow> e = EFAULT \<and> int (length ubuf) < n \<and> content d' = content d
         | Inr c \<Rightarrow> 0 \<le> c \<and> c \<le> n \<and> (0 < n \<longrightarrow> 0 < c) \<and> c \<le> int (length ubuf) \<and>
             content d' = content d @ map Some (take (nat c) ubuf))"
begin

lemma get_put_order:
  assumes "ok d" "length (content d) < capacity d" "0 < n" "n \<le> int (length ubuf)"
    and "put ubuf d n = Done (r, d')"
  shows "\<exists>c. r = Inr c \<and> 0 < c \<and> content d' = content d @ map Some (take (nat c) ubuf)"
proof -
  have "0 \<le> n" using assms(3) by simp
  from put_law [OF assms(1,2) this, of ubuf] assms(3-5) show ?thesis
    by (auto split: sum.splits)
qed

end

section \<open>The pipe is a bounded queue\<close>

lemma pipe_okE:
  assumes "pipe_ok dev"
  obtains a cs r w where "p_buffer dev = Some (a, cs)" "p_buffersize dev = int (length cs)"
    "p_end dev = int (length cs)" "p_rp dev = int r" "p_wp dev = int w"
    "r < length cs" "w < length cs" "length cs < 2147483648"
proof -
  obtain a cs where b: "p_buffer dev = Some (a, cs)"
    using assms by (auto simp: pipe_ok_def split: option.splits)
  with assms show ?thesis
    by (intro that [of a cs "nat (p_rp dev)" "nat (p_wp dev)"]) (auto simp: pipe_ok_def)
qed

lemma pipe_length:
  assumes "pipe_ok dev"
  shows "length (pipe_content dev) \<le> pipe_capacity dev"
    and "pipe_content dev = [] \<longleftrightarrow> p_rp dev = p_wp dev"
    and "int (length (pipe_content dev)) = (p_wp dev - p_rp dev) mod p_buffersize dev"
  using assms
proof (atomize (full), elim pipe_okE)
  fix a cs r w
  assume d: "p_buffer dev = Some (a, cs)" "p_buffersize dev = int (length cs)"
    "p_rp dev = int r" "p_wp dev = int w" "r < length cs" "w < length cs"
  have "(int w - int r) mod int (length cs) = (if r \<le> w then int w - int r else int (length cs) - int r + int w)"
    using d(5,6) by (auto simp: mod_pos_pos_trivial intro!: int_mod_pos_eq [of _ _ "-1"])
  with d show "length (pipe_content dev) \<le> pipe_capacity dev \<and>
      (pipe_content dev = [] \<longleftrightarrow> p_rp dev = p_wp dev) \<and>
      int (length (pipe_content dev)) = (p_wp dev - p_rp dev) mod p_buffersize dev"
    by (auto simp: pipe_content_def pipe_capacity_def length_ring simp flip: length_0_conv)
qed

lemma spacefree_free:
  assumes "pipe_ok dev"
  shows "spacefree dev = Done (int (pipe_capacity dev) - int (length (pipe_content dev)))"
  using assms
proof (elim pipe_okE)
  fix a cs r w
  assume d: "p_buffer dev = Some (a, cs)" "p_buffersize dev = int (length cs)"
    "p_rp dev = int r" "p_wp dev = int w" "r < length cs" "w < length cs" "length cs < 2147483648"
  have "(int r + int (length cs) - int w) mod int (length cs) =
      (if w < r then int r - int w else int r + int (length cs) - int w)" if "r \<noteq> w"
    using d(5,6) that by (auto simp: mod_pos_pos_trivial intro!: int_mod_pos_eq [of _ _ "1"])
  with d show ?thesis
    by (auto simp: spacefree_def pipe_content_def pipe_capacity_def length_ring c_mod_nonneg
        and_then_Done_iff s32_id)
qed

lemma pipe_sem_update [simp]:
  "pipe_ok (dev\<lparr>p_sem := s\<rparr>) = pipe_ok dev"
  "pipe_content (dev\<lparr>p_sem := s\<rparr>) = pipe_content dev"
  "pipe_capacity (dev\<lparr>p_sem := s\<rparr>) = pipe_capacity dev"
  by (simp_all add: pipe_ok_def pipe_content_def pipe_capacity_def cong: option.case_cong)

lemma p_read_chunk_result:
  assumes ok: "pipe_ok dev" and ne: "pipe_content dev \<noteq> []" and n: "0 \<le> n"
  shows "\<exists>ret bytes dev'. p_read_chunk room dev n = Done (ret, bytes, dev') \<and> pipe_ok dev' \<and>
      pipe_capacity dev' = pipe_capacity dev \<and> p_sem dev' = up (p_sem dev) \<and>
      (case ret of
         Inl e \<Rightarrow> e = EFAULT \<and> int room < n \<and> pipe_content dev' = pipe_content dev
       | Inr c \<Rightarrow> c = int (length bytes) \<and> c \<le> n \<and> (0 < n \<longrightarrow> 0 < c) \<and>
           pipe_content dev = bytes @ pipe_content dev')"
proof -
  from ok obtain a cs r w where d: "p_buffer dev = Some (a, cs)" "p_buffersize dev = int (length cs)"
    "p_end dev = int (length cs)" "p_rp dev = int r" "p_wp dev = int w"
    "r < length cs" "w < length cs" "length cs < 2147483648"
    by (rule pipe_okE)
  have rw: "r \<noteq> w" using ne d by (auto simp: pipe_content_def ring_cells_def)
  define c where "c = nat (min n (if r < w then int w - int r else int (length cs) - int r))"
  have cnt: "(if p_wp dev > p_rp dev then min n (u64 (p_wp dev - p_rp dev))
      else min n (u64 (p_end dev - p_rp dev))) = int c"
    using d n by (simp add: u64_id c_def)
  have c: "int c \<le> n" "0 < n \<longrightarrow> 0 < c" "r + c \<le> length cs"
      "r < w \<and> r + c \<le> w \<or> w < r \<and> r + c \<le> length cs"
    using d rw n by (auto simp: c_def)
  have load: "load_cells cs (p_rp dev) (int c) = Done (take c (drop r cs))"
    using d c(3) by (simp add: load_cells_def)
  have nx: "wrap (int (length cs)) (int r + int c) = int (ring_next cs (r + c))"
      "ring_next cs (r + c) < length cs"
    using c(3) d(6) by (auto simp: ring_next_def wrap_def)
  show ?thesis
  proof (cases "room < c")
    case True
    then have "p_read_chunk room dev n =
        Done (Inl EFAULT, take room (take c (drop r cs)), dev\<lparr>p_sem := up (p_sem dev)\<rparr>)"
      using d load c(3) unfolding p_read_chunk_def cnt Let_def
      by (simp add: copy_to_user_def)
    with True c(1) ok show ?thesis by auto
  next
    case False
    let ?dev' = "dev\<lparr>p_rp := int (ring_next cs (r + c)), p_sem := up (p_sem dev)\<rparr>"
    have "p_read_chunk room dev n = Done (Inr (int c), take c (drop r cs), ?dev')"
      using False d load c(3) nx(1) unfolding p_read_chunk_def cnt Let_def
      by (simp add: copy_to_user_def)
    moreover have "pipe_content dev = take c (drop r cs) @ pipe_content ?dev'"
      using ring_get [OF d(6,7) c(4)] d by (simp add: pipe_content_def)
    moreover have "pipe_ok ?dev'" using ok nx(2) d by (simp add: pipe_ok_def)
    moreover have "c = length (take c (drop r cs))" using c(3) d(6) by simp
    ultimately show ?thesis
      using c(1,2) by (auto simp: pipe_capacity_def)
  qed
qed

lemma p_write_chunk_result:
  assumes ok: "pipe_ok dev" and room: "length (pipe_content dev) < pipe_capacity dev" and n: "0 \<le> n"
  shows "\<exists>ret dev'. p_write_chunk ubuf dev n = Done (ret, dev') \<and> pipe_ok dev' \<and>
      pipe_capacity dev' = pipe_capacity dev \<and> p_sem dev' = up (p_sem dev) \<and>
      (case ret of
         Inl e \<Rightarrow> e = EFAULT \<and> int (length ubuf) < n \<and> pipe_content dev' = pipe_content dev
       | Inr c \<Rightarrow> 0 \<le> c \<and> c \<le> n \<and> (0 < n \<longrightarrow> 0 < c) \<and> c \<le> int (length ubuf) \<and>
           pipe_content dev' = pipe_content dev @ map Some (take (nat c) ubuf))"
proof -
  from ok obtain a cs r w where d: "p_buffer dev = Some (a, cs)" "p_buffersize dev = int (length cs)"
    "p_end dev = int (length cs)" "p_rp dev = int r" "p_wp dev = int w"
    "r < length cs" "w < length cs" "length cs < 2147483648"
    by (rule pipe_okE)
  define free where "free = pipe_capacity dev - length (pipe_content dev)"
  have sf: "spacefree dev = Done (int free)" and f0: "0 < free"
    using spacefree_free [OF ok] pipe_length(1) [OF ok] room by (auto simp: free_def)
  have f: "free = (if r \<le> w then length cs - 1 - (w - r) else r - w - 1)"
    using d by (auto simp: free_def pipe_capacity_def pipe_content_def length_ring)
  define lim where "lim = (if r \<le> w then length cs - w else r - w - 1)"
  define c where "c = nat (min (min n (int free)) (int lim))"
  have lim: "0 < lim" using d f f0 by (auto simp: lim_def split: if_splits)
  have "(if p_wp dev \<ge> p_rp dev then u64 (p_end dev - p_wp dev)
      else u64 (p_rp dev - p_wp dev - 1)) = int lim" "u64 (int free) = int free"
    using d f by (auto simp: u64_id lim_def)
  then have cnt: "(if p_wp dev \<ge> p_rp dev then min (min n (u64 (int free))) (u64 (p_end dev - p_wp dev))
      else min (min n (u64 (int free))) (u64 (p_rp dev - p_wp dev - 1))) = int c"
    using n by (auto simp: c_def split: if_splits)
  have c: "int c \<le> n" "0 < n \<longrightarrow> 0 < c" and le: "c \<le> free" "c \<le> lim"
    using n f0 lim by (auto simp: c_def)
  have c': "w + c \<le> length cs"
      "r \<le> w \<and> w + c \<le> length cs \<and> (r = 0 \<longrightarrow> w + c < length cs) \<or> w < r \<and> w + c < r"
    using le f f0 lim d(6,7) by (auto simp: lim_def split: if_splits)
  note c = c c'
  obtain new missing where cu: "copy_from_user ubuf (nat (int c)) = (new, missing)" by fastforce
  then have new: "c = length new" "missing = c - length ubuf"
      "missing = 0 \<Longrightarrow> new = map Some (take c ubuf)"
    by (auto simp: copy_from_user_def)
  define cs' where "cs' = take w cs @ new @ drop (w + c) cs"
  have store: "store_cells cs (p_wp dev) new = Done cs'"
    using d c(3) new(1) by (simp add: store_cells_def cs'_def)
  have len: "length cs' = length cs" using c(3) new(1) d(7) by (simp add: cs'_def)
  note ring_cells = ring_put [OF d(6,7) new(1) c(4) cs'_def]
  have nx: "wrap (int (length cs)) (int w + int c) = int (ring_next cs (w + c))"
      "ring_next cs (w + c) < length cs"
    using c(3) d(7) by (auto simp: ring_next_def wrap_def)
  show ?thesis
  proof (cases "missing = 0")
    case False
    let ?dev' = "dev\<lparr>p_buffer := Some (a, cs'), p_sem := up (p_sem dev)\<rparr>"
    have "p_write_chunk ubuf dev n = Done (Inl EFAULT, ?dev')"
      using False d store unfolding p_write_chunk_def sf and_then.simps Let_def cnt
      by (simp add: cu [simplified])
    with False c(1) ok len ring_cells(2) new(2) d show ?thesis
      by (auto simp: pipe_ok_def pipe_capacity_def pipe_content_def)
  next
    case True
    let ?dev' = "dev\<lparr>p_buffer := Some (a, cs'), p_wp := int (ring_next cs (w + c)),
        p_sem := up (p_sem dev)\<rparr>"
    have "p_write_chunk ubuf dev n = Done (Inr (int c), ?dev')"
      using True d store nx(1) unfolding p_write_chunk_def sf and_then.simps Let_def cnt
      by (simp add: cu [simplified])
    moreover have "pipe_ok ?dev'" using ok len nx(2) d by (simp add: pipe_ok_def)
    moreover have "pipe_content ?dev' = pipe_content dev @ map Some (take c ubuf)"
      using ring_cells(1) new(3) True d by (simp add: pipe_content_def)
    moreover have "int c \<le> int (length ubuf)" using new(2) True by simp
    ultimately show ?thesis
      using c(1,2) by (auto simp: pipe_capacity_def)
  qed
qed

text \<open>The parts of read and write that run with the semaphore held keep the contract.\<close>

interpretation pipe_q: bounded_queue pipe_ok pipe_content pipe_capacity p_read_chunk p_write_chunk
proof unfold_locales
  show "length (pipe_content d) \<le> pipe_capacity d" if "pipe_ok d" for d
    using that by (rule pipe_length)
next
  fix d room and n :: int
  assume "pipe_ok d" "pipe_content d \<noteq> []" "0 \<le> n"
  from p_read_chunk_result [OF this, of room]
  show "\<exists>ret bytes d'. p_read_chunk room d n = Done (ret, bytes, d') \<and> pipe_ok d' \<and>
      pipe_capacity d' = pipe_capacity d \<and>
      (case ret of
         Inl e \<Rightarrow> e = EFAULT \<and> int room < n \<and> pipe_content d' = pipe_content d
       | Inr c \<Rightarrow> c = int (length bytes) \<and> c \<le> n \<and> (0 < n \<longrightarrow> 0 < c) \<and>
           pipe_content d = bytes @ pipe_content d')"
    by blast
next
  fix d ubuf and n :: int
  assume "pipe_ok d" "length (pipe_content d) < pipe_capacity d" "0 \<le> n"
  from p_write_chunk_result [OF this, of ubuf]
  show "\<exists>ret d'. p_write_chunk ubuf d n = Done (ret, d') \<and> pipe_ok d' \<and>
      pipe_capacity d' = pipe_capacity d \<and>
      (case ret of
         Inl e \<Rightarrow> e = EFAULT \<and> int (length ubuf) < n \<and> pipe_content d' = pipe_content d
       | Inr c \<Rightarrow> 0 \<le> c \<and> c \<le> n \<and> (0 < n \<longrightarrow> 0 < c) \<and> c \<le> int (length ubuf) \<and>
           pipe_content d' = pipe_content d @ map Some (take (nat c) ubuf))"
    by blast
qed

section \<open>Properties\<close>

text \<open>\<open>poll\<close> reports the pipe readable when it holds data, writable when there is space,
  and nothing else, and leaves the device as it was.\<close>

theorem scull_p_poll_ready:
  assumes "pipe_ok dev" "0 < p_sem dev"
  shows "scull_p_poll dev =
     Done ((if pipe_content dev \<noteq> [] then 65 else 0) +
           (if length (pipe_content dev) < pipe_capacity dev then 260 else 0), dev)"
proof -
  have "or 0 (or POLLIN POLLRDNORM) = 65" "or 0 (or POLLOUT POLLWRNORM) = 260"
    "or 65 (or POLLOUT POLLWRNORM) = 325"
    by (simp_all add: POLLIN_def POLLRDNORM_def POLLOUT_def POLLWRNORM_def)
  moreover have "spacefree (dev\<lparr>p_sem := p_sem dev - 1\<rparr>) = spacefree dev"
    by (simp add: spacefree_def)
  ultimately show ?thesis
    using assms(2) spacefree_free [OF assms(1)] pipe_length(1,2) [OF assms(1)]
    by (auto simp: scull_p_poll_def Let_def)
qed

text \<open>A pipe with a buffer of four bytes that holds two.\<close>

definition used_pipe :: scull_pipe where
  "used_pipe = \<lparr>p_buffer = Some (1, [Some 65, None, None, Some 66]), p_buffersize = 4, p_end = 4,
     p_rp = 3, p_wp = 1, p_nreaders = 1, p_nwriters = 1, p_async = [], p_sem = 1\<rparr>"

lemma used_pipe_ok: "pipe_ok used_pipe" "p_sem used_pipe = 1" "p_buffersize used_pipe = 4"
  by (simp_all add: used_pipe_def pipe_ok_def)

lemma scull_p_poll_ready_witness: "scull_p_poll used_pipe = Done (325, used_pipe)"
proof -
  have "pipe_content used_pipe = [Some 66, Some 65]" "pipe_capacity used_pipe = 3" by code_simp+
  then show ?thesis using scull_p_poll_ready [of used_pipe] used_pipe_ok by simp
qed

text \<open>\<open>scull_p_open\<close> sets the size of the buffer to the current parameter also when the
  buffer was allocated with another one. When the parameter has grown, the next write runs over
  the end of the buffer.\<close>

theorem scull_p_open_resized:
  assumes "pipe_ok dev" "0 < p_sem dev" "p_buffersize dev + 1 < g_p_buffer g"
    and "g_p_buffer g < 2147483648" "p_buffersize dev < n"
  shows "\<exists>dev' k'. scull_p_open g sig r w dev k = Done (Inr 0, dev', k') \<and>
     p_write_chunk ubuf dev' n = Crash Out_of_bounds"
proof -
  obtain a cs where b: "p_buffer dev = Some (a, cs)" "int (length cs) = p_buffersize dev"
    using assms(1) by (auto simp: pipe_ok_def split: option.splits)
  let ?d = "dev\<lparr>p_buffersize := g_p_buffer g, p_end := g_p_buffer g, p_rp := 0, p_wp := 0\<rparr>"
  let ?nr = "if r then s32 (p_nreaders dev + 1) else p_nreaders dev"
  let ?nw = "if w then s32 (p_nwriters dev + 1) else p_nwriters dev"
  let ?d' = "?d\<lparr>p_nreaders := ?nr, p_nwriters := ?nw\<rparr>"
  have open': "scull_p_open g sig r w dev k = Done (Inr 0, ?d', k)"
    using assms(2) b(1) by (auto simp: scull_p_open_def Let_def)
  have "0 \<le> p_buffersize dev" using b(2) by simp
  then have "spacefree ?d' = Done (g_p_buffer g - 1)"
    using assms(3,4) by (simp add: spacefree_def s32_id)
  moreover have "u64 (g_p_buffer g - 1) = g_p_buffer g - 1" "u64 (g_p_buffer g) = g_p_buffer g"
    using assms(3,4) \<open>0 \<le> p_buffersize dev\<close> by (auto intro: u64_id)
  moreover have "store_cells cs 0 (fst (copy_from_user ubuf
      (nat (min (min n (g_p_buffer g - 1)) (g_p_buffer g))))) = Crash Out_of_bounds"
    using assms(3,5) b(2) \<open>0 \<le> p_buffersize dev\<close> by (simp add: store_cells_def)
  ultimately have "p_write_chunk ubuf ?d' n = Crash Out_of_bounds"
    using b(1) by (simp add: p_write_chunk_def Let_def split_beta)
  with open' show ?thesis by blast
qed

lemma scull_p_open_resized_witness:
  "\<exists>dev' k'. scull_p_open scull_default_globals False True False used_pipe fresh_kmem =
       Done (Inr 0, dev', k') \<and> p_write_chunk [] dev' 100 = Crash Out_of_bounds"
  using scull_p_open_resized [of used_pipe scull_default_globals 100] used_pipe_ok
  by (simp add: scull_default_globals_def SCULL_P_BUFFER_def)

end
