(* ===== verification/Pipe_Machine.thy ===== *)
theory Pipe_Machine
  imports Scull_Pipe
begin

text \<open>
  Processes on a pipe device: \<open>scull_p_read\<close>, \<open>scull_getwritespace\<close> and \<open>scull_p_write\<close> of
  Kernel/Driver/scull/pipe.c as state machines whose steps interleave, with the semaphore and the
  two wait queues. A step is a piece of code that other processes cannot observe in the middle:
  everything done with the semaphore held counts as one step from the time it is taken.
\<close>

section \<open>Processes\<close>

text \<open>Where a process is. \<open>R_lock\<close> and \<open>W_lock\<close> are at a \<open>down_interruptible\<close>, \<open>R_check\<close>
  and \<open>W_check\<close> hold the semaphore and test whether there is data or space. \<open>R_test\<close> and
  \<open>W_test\<close> have entered themselves in the wait queue and test again, \<open>R_sleep\<close> and \<open>W_sleep\<close>
  are asleep; the flag says that a wake-up has come since the process entered the queue.
  \<open>W_awake\<close> looks for a signal, \<open>R_wake\<close> and \<open>W_wake\<close> have released the semaphore and are about
  to wake the other side up and return a count.\<close>

datatype pipe_pc =
    Idle
  | R_lock | R_check | R_test bool | R_sleep bool | R_wake int
  | W_lock | W_check | W_test bool | W_sleep bool | W_awake | W_wake int

record pipe_proc =
  pr_modes :: "(bool \<times> bool) option"
  pr_pc :: pipe_pc
  pr_flags :: int
  pr_count :: int
  pr_room :: nat
  pr_ubuf :: "byte list"
  pr_ret :: "errno + int"

definition idle_proc :: pipe_proc where
  "idle_proc = \<lparr>pr_modes = None, pr_pc = Idle, pr_flags = 0, pr_count = 0, pr_room = 0,
     pr_ubuf = [], pr_ret = Inr 0\<rparr>"

text \<open>What the rest of the system sees of a step.\<close>

datatype pipe_event =
    Opened | Freed | Got "cell list" | Put "cell list" | Wake_readers | Wake_writers | Sigio "nat list"

definition return_from :: "errno + int \<Rightarrow> pipe_proc \<Rightarrow> pipe_proc" where
  "return_from r p = p\<lparr>pr_pc := Idle, pr_ret := r\<rparr>"

definition lock_step ::
    "bool \<Rightarrow> pipe_pc \<Rightarrow> pipe_proc \<Rightarrow> scull_pipe \<Rightarrow>
     (pipe_proc \<times> scull_pipe \<times> pipe_event list) outcome" where
  "lock_step sig locked p dev =
     and_then (down_interruptible sig (p_sem dev)) (\<lambda>d.
       case d of
         Inl _ \<Rightarrow> Done (return_from (Inl ERESTARTSYS) p, dev, [])
       | Inr sem \<Rightarrow> Done (p\<lparr>pr_pc := locked\<rparr>, dev\<lparr>p_sem := sem\<rparr>, []))"

definition scull_p_read_step ::
    "bool \<Rightarrow> pipe_proc \<Rightarrow> scull_pipe \<Rightarrow> (pipe_proc \<times> scull_pipe \<times> pipe_event list) outcome" where
  "scull_p_read_step sig p dev =
     (case pr_pc p of
        R_lock \<Rightarrow> lock_step sig R_check p dev
      | R_check \<Rightarrow>
          if p_rp dev = p_wp dev then
            let dev = dev\<lparr>p_sem := up (p_sem dev)\<rparr> in
            if nonblocking (pr_flags p) then Done (return_from (Inl EAGAIN) p, dev, [])
            else Done (p\<lparr>pr_pc := R_test False\<rparr>, dev, [])
          else
            and_then (p_read_chunk (pr_room p) dev (pr_count p)) (\<lambda>(r, bytes, dev).
              case r of
                Inl e \<Rightarrow> Done (return_from (Inl e) p, dev, [])
              | Inr n \<Rightarrow> Done (p\<lparr>pr_pc := R_wake n\<rparr>, dev, [Got bytes]))
      | R_test woken \<Rightarrow>
          if p_rp dev \<noteq> p_wp dev then Done (p\<lparr>pr_pc := R_lock\<rparr>, dev, [])
          else if sig then Done (return_from (Inl ERESTARTSYS) p, dev, [])
          else Done (p\<lparr>pr_pc := R_sleep woken\<rparr>, dev, [])
      | R_sleep woken \<Rightarrow>
          if woken \<or> sig then Done (p\<lparr>pr_pc := R_test False\<rparr>, dev, []) else Block
      | R_wake n \<Rightarrow> Done (return_from (Inr n) p, dev, [Wake_writers])
      | _ \<Rightarrow> Block)"

definition scull_getwritespace_step ::
    "bool \<Rightarrow> pipe_proc \<Rightarrow> scull_pipe \<Rightarrow> (pipe_proc \<times> scull_pipe \<times> pipe_event list) outcome" where
  "scull_getwritespace_step sig p dev =
     (case pr_pc p of
        W_test woken \<Rightarrow>
          and_then (spacefree dev) (\<lambda>free.
            if free = 0 then Done (p\<lparr>pr_pc := W_sleep woken\<rparr>, dev, [])
            else Done (p\<lparr>pr_pc := W_awake\<rparr>, dev, []))
      | W_sleep woken \<Rightarrow>
          if woken \<or> sig then Done (p\<lparr>pr_pc := W_awake\<rparr>, dev, []) else Block
      | W_awake \<Rightarrow>
          if sig then Done (return_from (Inl ERESTARTSYS) p, dev, [])
          else Done (p\<lparr>pr_pc := W_lock\<rparr>, dev, [])
      | _ \<Rightarrow> Block)"

definition scull_p_write_step ::
    "bool \<Rightarrow> pipe_proc \<Rightarrow> scull_pipe \<Rightarrow> (pipe_proc \<times> scull_pipe \<times> pipe_event list) outcome" where
  "scull_p_write_step sig p dev =
     (case pr_pc p of
        W_lock \<Rightarrow> lock_step sig W_check p dev
      | W_check \<Rightarrow>
          and_then (spacefree dev) (\<lambda>free.
            if free = 0 then
              let dev = dev\<lparr>p_sem := up (p_sem dev)\<rparr> in
              if nonblocking (pr_flags p) then Done (return_from (Inl EAGAIN) p, dev, [])
              else Done (p\<lparr>pr_pc := W_test False\<rparr>, dev, [])
            else
              and_then (p_write_chunk (pr_ubuf p) dev (pr_count p)) (\<lambda>(r, dev).
                case r of
                  Inl e \<Rightarrow> Done (return_from (Inl e) p, dev, [])
                | Inr n \<Rightarrow>
                    Done (p\<lparr>pr_pc := W_wake n\<rparr>, dev, [Put (map Some (take (nat n) (pr_ubuf p)))])))
      | W_wake n \<Rightarrow>
          Done (return_from (Inr n) p, dev,
                Wake_readers # (if p_async dev \<noteq> [] then [Sigio (p_async dev)] else []))
      | _ \<Rightarrow> scull_getwritespace_step sig p dev)"

fun reading :: "pipe_pc \<Rightarrow> bool" where
  "reading R_lock = True"
| "reading R_check = True"
| "reading (R_test _) = True"
| "reading (R_sleep _) = True"
| "reading (R_wake _) = True"
| "reading _ = False"

definition pipe_proc_step ::
    "bool \<Rightarrow> pipe_proc \<Rightarrow> scull_pipe \<Rightarrow> (pipe_proc \<times> scull_pipe \<times> pipe_event list) outcome" where
  "pipe_proc_step sig p dev =
     (if reading (pr_pc p) then scull_p_read_step sig p dev else scull_p_write_step sig p dev)"

section \<open>The system\<close>

record pipe_sys =
  ps_dev :: scull_pipe
  ps_mem :: kmem
  ps_procs :: "pipe_proc list"

text \<open>\<open>wake_up_interruptible\<close> reaches every process in the queue.\<close>

fun wake_reader :: "pipe_pc \<Rightarrow> pipe_pc" where
  "wake_reader (R_test _) = R_test True"
| "wake_reader (R_sleep _) = R_sleep True"
| "wake_reader pc = pc"

fun wake_writer :: "pipe_pc \<Rightarrow> pipe_pc" where
  "wake_writer (W_test _) = W_test True"
| "wake_writer (W_sleep _) = W_sleep True"
| "wake_writer pc = pc"

definition wake_up :: "pipe_event list \<Rightarrow> pipe_proc list \<Rightarrow> pipe_proc list" where
  "wake_up evs ps =
     map (\<lambda>p. p\<lparr>pr_pc :=
       (if Wake_readers \<in> set evs then wake_reader else id)
       ((if Wake_writers \<in> set evs then wake_writer else id) (pr_pc p))\<rparr>) ps"

text \<open>The steps of the system, with the parameters \<open>g\<close> fixed. The virtual file system lets a
  process read or write only through a file opened for that, and releases a file when no call on
  it is in progress.\<close>

inductive pipe_step :: "scull_globals \<Rightarrow> pipe_sys \<Rightarrow> pipe_event list \<Rightarrow> pipe_sys \<Rightarrow> bool"
  for g :: scull_globals where
  run: "\<lbrakk>i < length (ps_procs s);
      pipe_proc_step sig (ps_procs s ! i) (ps_dev s) = Done (p, dev, evs)\<rbrakk> \<Longrightarrow>
    pipe_step g s evs (s\<lparr>ps_dev := dev, ps_procs := wake_up evs ((ps_procs s)[i := p])\<rparr>)"
| call_read: "\<lbrakk>i < length (ps_procs s); pr_pc (ps_procs s ! i) = Idle;
      pr_modes (ps_procs s ! i) = Some (True, w); 0 \<le> n\<rbrakk> \<Longrightarrow>
    pipe_step g s [] (s\<lparr>ps_procs := (ps_procs s)[i := (ps_procs s ! i)
      \<lparr>pr_pc := R_lock, pr_flags := flags, pr_count := n, pr_room := room\<rparr>]\<rparr>)"
| call_write: "\<lbrakk>i < length (ps_procs s); pr_pc (ps_procs s ! i) = Idle;
      pr_modes (ps_procs s ! i) = Some (r, True); 0 \<le> n\<rbrakk> \<Longrightarrow>
    pipe_step g s [] (s\<lparr>ps_procs := (ps_procs s)[i := (ps_procs s ! i)
      \<lparr>pr_pc := W_lock, pr_flags := flags, pr_count := n, pr_ubuf := ubuf\<rparr>]\<rparr>)"
| open_file: "\<lbrakk>i < length (ps_procs s); pr_pc (ps_procs s ! i) = Idle;
      pr_modes (ps_procs s ! i) = None;
      scull_p_open g sig r w (ps_dev s) (ps_mem s) = Done (Inr 0, dev, k)\<rbrakk> \<Longrightarrow>
    pipe_step g s [Opened] (s\<lparr>ps_dev := dev, ps_mem := k,
      ps_procs := (ps_procs s)[i := (ps_procs s ! i)\<lparr>pr_modes := Some (r, w)\<rparr>]\<rparr>)"
| release_file: "\<lbrakk>i < length (ps_procs s); pr_pc (ps_procs s ! i) = Idle;
      pr_modes (ps_procs s ! i) = Some (r, w);
      scull_p_release i r w (ps_dev s) (ps_mem s) = Done (dev, k)\<rbrakk> \<Longrightarrow>
    pipe_step g s (if p_buffer dev = None then [Freed] else []) (s\<lparr>ps_dev := dev, ps_mem := k,
      ps_procs := (ps_procs s)[i := (ps_procs s ! i)\<lparr>pr_modes := None\<rparr>]\<rparr>)"

inductive pipe_reach :: "scull_globals \<Rightarrow> pipe_sys \<Rightarrow> pipe_event list \<Rightarrow> pipe_sys \<Rightarrow> bool"
  for g :: scull_globals and s0 :: pipe_sys where
  start: "pipe_reach g s0 [] s0"
| step: "pipe_reach g s0 tr s \<Longrightarrow> pipe_step g s evs s' \<Longrightarrow> pipe_reach g s0 (tr @ evs) s'"

text \<open>\<open>n\<close> processes and a pipe no one has opened.\<close>

definition pipe_start :: "nat \<Rightarrow> pipe_sys" where
  "pipe_start n =
     \<lparr>ps_dev = clear_pipe, ps_mem = fresh_kmem, ps_procs = replicate n idle_proc\<rparr>"

section \<open>The abstract pipe\<close>

fun fifo_step :: "pipe_event \<Rightarrow> cell list \<Rightarrow> cell list option" where
  "fifo_step Opened q = Some []"
| "fifo_step Freed q = Some []"
| "fifo_step (Put bs) q = Some (q @ bs)"
| "fifo_step (Got bs) q = (if take (length bs) q = bs then Some (drop (length bs) q) else None)"
| "fifo_step _ q = Some q"

fun fifo_run :: "pipe_event list \<Rightarrow> cell list \<Rightarrow> cell list option" where
  "fifo_run [] q = Some q"
| "fifo_run (e # es) q = (case fifo_step e q of None \<Rightarrow> None | Some q \<Rightarrow> fifo_run es q)"

section \<open>The invariant\<close>

fun holding :: "pipe_pc \<Rightarrow> bool" where
  "holding R_check = True"
| "holding W_check = True"
| "holding _ = False"

definition writing :: "pipe_pc \<Rightarrow> bool" where
  "writing pc \<longleftrightarrow> \<not> reading pc \<and> pc \<noteq> Idle"

definition reader :: "pipe_proc \<Rightarrow> bool" where
  "reader p \<longleftrightarrow> (\<exists>w. pr_modes p = Some (True, w))"

definition writer :: "pipe_proc \<Rightarrow> bool" where
  "writer p \<longleftrightarrow> (\<exists>r. pr_modes p = Some (r, True))"

definition proc_ok :: "pipe_proc \<Rightarrow> bool" where
  "proc_ok p \<longleftrightarrow> (reading (pr_pc p) \<longrightarrow> reader p) \<and> (writing (pr_pc p) \<longrightarrow> writer p) \<and> 0 \<le> pr_count p"

definition pipe_inv :: "scull_globals \<Rightarrow> pipe_sys \<Rightarrow> bool" where
  "pipe_inv g s \<longleftrightarrow>
     0 < g_p_buffer g \<and> g_p_buffer g < 2147483648 \<and> length (ps_procs s) < 1073741824 \<and>
     list_all proc_ok (ps_procs s) \<and>
     p_sem (ps_dev s) = 1 - num (\<lambda>p. holding (pr_pc p)) (ps_procs s) \<and> 0 \<le> p_sem (ps_dev s) \<and>
     p_nreaders (ps_dev s) = num reader (ps_procs s) \<and>
     p_nwriters (ps_dev s) = num writer (ps_procs s) \<and>
     (case p_buffer (ps_dev s) of
        None \<Rightarrow> num reader (ps_procs s) + num writer (ps_procs s) = 0
      | Some b \<Rightarrow> pipe_ok (ps_dev s) \<and> p_buffersize (ps_dev s) = g_p_buffer g \<and>
          fst b \<in> dom (km_live (ps_mem s)))"

section \<open>Steps of one process\<close>

lemma p_read_chunk_frame:
  assumes "p_read_chunk room dev n = Done (r, bs, dev')"
  shows "p_nreaders dev' = p_nreaders dev" "p_nwriters dev' = p_nwriters dev"
    "p_buffersize dev' = p_buffersize dev" "map_option fst (p_buffer dev') = map_option fst (p_buffer dev)"
    "r = Inl e \<Longrightarrow> p_rp dev' = p_rp dev \<and> p_wp dev' = p_wp dev"
  using assms
  by (auto simp: p_read_chunk_def copy_to_user_def Let_def and_then_Done_iff
      split: option.splits if_splits)

lemma p_write_chunk_frame:
  assumes "p_write_chunk ubuf dev n = Done (r, dev')"
  shows "p_nreaders dev' = p_nreaders dev" "p_nwriters dev' = p_nwriters dev"
    "p_buffersize dev' = p_buffersize dev" "map_option fst (p_buffer dev') = map_option fst (p_buffer dev)"
    "r = Inl e \<Longrightarrow> p_rp dev' = p_rp dev \<and> p_wp dev' = p_wp dev"
  using assms
  by (auto simp: p_write_chunk_def copy_from_user_def Let_def and_then_Done_iff
      split: option.splits if_splits)

text \<open>What a step of a process does to the pipe.\<close>

definition stepped :: "pipe_proc \<Rightarrow> scull_pipe \<Rightarrow> pipe_proc \<Rightarrow> scull_pipe \<Rightarrow> pipe_event list \<Rightarrow> bool" where
  "stepped p dev p' dev' evs \<longleftrightarrow>
     pr_modes p' = pr_modes p \<and> (reading (pr_pc p') \<longrightarrow> reading (pr_pc p)) \<and>
     (writing (pr_pc p') \<longrightarrow> writing (pr_pc p)) \<and> pr_count p' = pr_count p \<and>
     p_sem dev' = p_sem dev + (if holding (pr_pc p) then 1 else 0) -
       (if holding (pr_pc p') then 1 else 0) \<and>
     (holding (pr_pc p') \<and> \<not> holding (pr_pc p) \<longrightarrow> 0 < p_sem dev) \<and>
     pipe_ok dev' \<and> p_buffersize dev' = p_buffersize dev \<and>
     map_option fst (p_buffer dev') = map_option fst (p_buffer dev) \<and>
     p_nreaders dev' = p_nreaders dev \<and> p_nwriters dev' = p_nwriters dev \<and>
     fifo_run evs (pipe_content dev) = Some (pipe_content dev')"

lemma lock_step_stepped:
  assumes st: "lock_step sig locked p dev = Done (p', dev', evs)" and ok: "pipe_ok dev"
    and p: "\<not> holding (pr_pc p)" and l: "holding locked"
      "reading locked \<longrightarrow> reading (pr_pc p)" "writing locked \<longrightarrow> writing (pr_pc p)"
  shows "stepped p dev p' dev' evs"
proof (cases "0 < p_sem dev")
  case True
  with st have "p' = p\<lparr>pr_pc := locked\<rparr>" "dev' = dev\<lparr>p_sem := p_sem dev - 1\<rparr>" "evs = []"
    by (auto simp: lock_step_def)
  with True ok p l show ?thesis by (simp add: stepped_def)
next
  case False
  with st have "p' = return_from (Inl ERESTARTSYS) p" "dev' = dev" "evs = []"
    by (auto simp: lock_step_def down_interruptible_def split: if_splits)
  with ok p show ?thesis by (simp add: stepped_def return_from_def writing_def)
qed

lemma read_step_stepped:
  assumes st: "scull_p_read_step sig p dev = Done (p', dev', evs)" and ok: "pipe_ok dev"
    and n: "0 \<le> pr_count p"
  shows "stepped p dev p' dev' evs"
proof (cases "pr_pc p")
  case R_lock
  then show ?thesis
    using st ok lock_step_stepped [of sig R_check p dev p' dev' evs]
    by (simp add: scull_p_read_step_def writing_def)
next
  case R_check
  show ?thesis
  proof (cases "p_rp dev = p_wp dev")
    case True
    then show ?thesis
      using st ok R_check
      by (auto simp: scull_p_read_step_def Let_def stepped_def return_from_def writing_def up_def
          split: if_splits)
  next
    case False
    then have ne: "pipe_content dev \<noteq> []" using pipe_length(2) [OF ok] by simp
    from p_read_chunk_result [OF ok ne n, of "pr_room p"] obtain ret bytes d where
      c: "p_read_chunk (pr_room p) dev (pr_count p) = Done (ret, bytes, d)" "pipe_ok d"
        "p_sem d = up (p_sem dev)"
        "case ret of Inl e \<Rightarrow> e = EFAULT \<and> int (pr_room p) < pr_count p \<and> pipe_content d = pipe_content dev
         | Inr c \<Rightarrow> c = int (length bytes) \<and> c \<le> pr_count p \<and> (0 < pr_count p \<longrightarrow> 0 < c) \<and>
             pipe_content dev = bytes @ pipe_content d"
      by blast
    show ?thesis
      using st False R_check c p_read_chunk_frame [OF c(1)]
      by (auto simp: scull_p_read_step_def stepped_def return_from_def writing_def up_def
          split: sum.splits)
  qed
qed (use assms in \<open>auto simp: scull_p_read_step_def stepped_def return_from_def writing_def
      split: if_splits\<close>)

lemma write_step_stepped:
  assumes st: "scull_p_write_step sig p dev = Done (p', dev', evs)" and ok: "pipe_ok dev"
    and n: "0 \<le> pr_count p" and nr: "\<not> reading (pr_pc p)"
  shows "stepped p dev p' dev' evs"
proof (cases "pr_pc p")
  case W_lock
  then show ?thesis
    using st ok lock_step_stepped [of sig W_check p dev p' dev' evs]
    by (simp add: scull_p_write_step_def writing_def)
next
  case W_check
  note sf = spacefree_free [OF ok]
  show ?thesis
  proof (cases "length (pipe_content dev) < pipe_capacity dev")
    case False
    then have "spacefree dev = Done 0" using sf pipe_length(1) [OF ok] by simp
    then show ?thesis
      using st ok W_check
      by (auto simp: scull_p_write_step_def Let_def stepped_def return_from_def writing_def up_def
          split: if_splits)
  next
    case True
    from p_write_chunk_result [OF ok True n, of "pr_ubuf p"] obtain ret d where
      c: "p_write_chunk (pr_ubuf p) dev (pr_count p) = Done (ret, d)" "pipe_ok d"
        "p_sem d = up (p_sem dev)"
        "case ret of Inl e \<Rightarrow> e = EFAULT \<and> int (length (pr_ubuf p)) < pr_count p \<and> pipe_content d = pipe_content dev
         | Inr c \<Rightarrow> 0 \<le> c \<and> c \<le> pr_count p \<and> (0 < pr_count p \<longrightarrow> 0 < c) \<and>
             c \<le> int (length (pr_ubuf p)) \<and>
             pipe_content d = pipe_content dev @ map Some (take (nat c) (pr_ubuf p))"
      by blast
    show ?thesis
      using st True W_check c sf p_write_chunk_frame [OF c(1)]
      by (auto simp: scull_p_write_step_def stepped_def return_from_def writing_def up_def
          split: sum.splits)
  qed
qed (use assms in \<open>auto simp: scull_p_write_step_def scull_getwritespace_step_def stepped_def
      return_from_def writing_def and_then_Done_iff
      split: if_splits\<close>)

lemma proc_step_stepped:
  assumes "pipe_proc_step sig p dev = Done (p', dev', evs)" "pipe_ok dev" "0 \<le> pr_count p"
  shows "stepped p dev p' dev' evs"
  using assms read_step_stepped write_step_stepped by (auto simp: pipe_proc_step_def split: if_splits)

section \<open>The invariant is kept\<close>

lemma wake_keeps [simp]:
  "holding (wake_reader pc) = holding pc" "holding (wake_writer pc) = holding pc"
  "reading (wake_reader pc) = reading pc" "reading (wake_writer pc) = reading pc"
  "wake_reader pc = Idle \<longleftrightarrow> pc = Idle" "wake_writer pc = Idle \<longleftrightarrow> pc = Idle"
  by (cases pc; simp)+

lemma wake_up_nums [simp]:
  "num (\<lambda>p. holding (pr_pc p)) (wake_up evs ps) = num (\<lambda>p. holding (pr_pc p)) ps"
  "num reader (wake_up evs ps) = num reader ps" "num writer (wake_up evs ps) = num writer ps"
  "length (wake_up evs ps) = length ps" "list_all proc_ok (wake_up evs ps) = list_all proc_ok ps"
  unfolding wake_up_def
  by (auto intro!: num_map simp: reader_def writer_def list_all_iff proc_ok_def writing_def)

lemma active_pipe_ok:
  assumes inv: "pipe_inv g s" and i: "i < length (ps_procs s)"
    and rw: "reader (ps_procs s ! i) \<or> writer (ps_procs s ! i)"
  obtains b where "p_buffer (ps_dev s) = Some b" "pipe_ok (ps_dev s)"
    "p_buffersize (ps_dev s) = g_p_buffer g" "fst b \<in> dom (km_live (ps_mem s))"
proof -
  have "num reader (ps_procs s) + num writer (ps_procs s) \<noteq> 0"
    using rw i num_pos [of i "ps_procs s" reader] num_pos [of i "ps_procs s" writer]
      num_nonneg [of reader "ps_procs s"] num_nonneg [of writer "ps_procs s"] by linarith
  then show ?thesis using inv by (auto simp: pipe_inv_def intro: that split: option.splits)
qed

lemma step_not_idle:
  "pipe_proc_step sig p dev = Done r \<Longrightarrow> pr_pc p \<noteq> Idle"
  by (auto simp: pipe_proc_step_def scull_p_write_step_def scull_getwritespace_step_def)

lemma run_active:
  assumes inv: "pipe_inv g s" and i: "i < length (ps_procs s)"
    and st: "pipe_proc_step sig (ps_procs s ! i) (ps_dev s) = Done (p, dev, evs)"
  shows "stepped (ps_procs s ! i) (ps_dev s) p dev evs" "pipe_ok (ps_dev s)"
    "p_buffersize (ps_dev s) = g_p_buffer g" "proc_ok (ps_procs s ! i)"
proof -
  show ok: "proc_ok (ps_procs s ! i)" using inv i by (auto simp: pipe_inv_def list_all_length)
  then have "reader (ps_procs s ! i) \<or> writer (ps_procs s ! i)"
    using step_not_idle [OF st] by (auto simp: proc_ok_def writing_def)
  then show "pipe_ok (ps_dev s)" "p_buffersize (ps_dev s) = g_p_buffer g"
    using active_pipe_ok [OF inv i] by metis+
  then show "stepped (ps_procs s ! i) (ps_dev s) p dev evs"
    using proc_step_stepped [OF st] ok by (simp add: proc_ok_def)
qed

lemma sys_run_inv:
  assumes inv: "pipe_inv g s" and i: "i < length (ps_procs s)"
    and st: "pipe_proc_step sig (ps_procs s ! i) (ps_dev s) = Done (p, dev, evs)"
  shows "pipe_inv g (s\<lparr>ps_dev := dev, ps_procs := wake_up evs ((ps_procs s)[i := p])\<rparr>)"
proof -
  let ?p = "ps_procs s ! i"
  note act = run_active [OF inv i st]
  have p: "pr_modes p = pr_modes ?p" "proc_ok p" "reader p = reader ?p" "writer p = writer ?p"
    using act(1,4) by (auto simp: stepped_def proc_ok_def reader_def writer_def)
  have "num (\<lambda>p. holding (pr_pc p)) ((ps_procs s)[i := p]) =
      num (\<lambda>p. holding (pr_pc p)) (ps_procs s) - (if holding (pr_pc ?p) then 1 else 0) +
      (if holding (pr_pc p) then 1 else 0)"
    "num reader ((ps_procs s)[i := p]) = num reader (ps_procs s)"
    "num writer ((ps_procs s)[i := p]) = num writer (ps_procs s)"
    using i p by (simp_all add: num_update)
  moreover have "list_all proc_ok ((ps_procs s)[i := p])"
    using inv p(2) by (simp add: pipe_inv_def list_all_update)
  moreover have "0 \<le> p_sem dev"
    using act(1) inv by (auto simp: stepped_def pipe_inv_def split: if_splits)
  moreover have "p_buffer (ps_dev s) \<noteq> None" "p_buffer dev \<noteq> None"
    using act(1,2) by (auto simp: stepped_def pipe_ok_def split: option.splits)
  ultimately show ?thesis
    using inv act(1) by (auto simp: pipe_inv_def stepped_def)
qed

lemma call_inv:
  assumes inv: "pipe_inv g s" and i: "i < length (ps_procs s)"
    and p: "pr_modes p = pr_modes (ps_procs s ! i)" "proc_ok p" "holding (pr_pc p) = holding (pr_pc (ps_procs s ! i))"
  shows "pipe_inv g (s\<lparr>ps_procs := (ps_procs s)[i := p]\<rparr>)"
proof -
  have "num (\<lambda>p. holding (pr_pc p)) ((ps_procs s)[i := p]) = num (\<lambda>p. holding (pr_pc p)) (ps_procs s)"
    "num reader ((ps_procs s)[i := p]) = num reader (ps_procs s)"
    "num writer ((ps_procs s)[i := p]) = num writer (ps_procs s)"
    using i p(1,3) by (simp_all add: num_update reader_def writer_def)
  moreover have "list_all proc_ok ((ps_procs s)[i := p])"
    using inv p(2) by (simp add: pipe_inv_def list_all_update)
  ultimately show ?thesis using inv by (simp add: pipe_inv_def cong: option.case_cong)
qed

text \<open>What an open and a release leave.\<close>

lemma open_result:
  assumes inv: "pipe_inv g s" and i: "i < length (ps_procs s)"
    and op: "scull_p_open g sig r w (ps_dev s) (ps_mem s) = Done (Inr 0, dev, k)"
  shows "\<exists>b. p_buffer dev = Some b \<and> fst b \<in> dom (km_live k)" "pipe_ok dev"
    "p_buffersize dev = g_p_buffer g" "pipe_content dev = []" "p_sem dev = p_sem (ps_dev s)"
    "p_nreaders dev = p_nreaders (ps_dev s) + (if r then 1 else 0)"
    "p_nwriters dev = p_nwriters (ps_dev s) + (if w then 1 else 0)"
proof -
  let ?d = "ps_dev s"
  have sem: "0 < p_sem ?d"
    using op by (auto simp: scull_p_open_def down_interruptible_def split: if_splits)
  have sz: "0 < g_p_buffer g" "g_p_buffer g < 2147483648" using inv by (auto simp: pipe_inv_def)
  have "p_nreaders ?d \<le> 1073741824" "0 \<le> p_nreaders ?d" "p_nwriters ?d \<le> 1073741824" "0 \<le> p_nwriters ?d"
    using inv num_le [of reader "ps_procs s"] num_le [of writer "ps_procs s"]
    by (auto simp: pipe_inv_def)
  then have n: "s32 (p_nreaders ?d + 1) = p_nreaders ?d + 1" "s32 (p_nwriters ?d + 1) = p_nwriters ?d + 1"
    by (simp_all add: s32_id)
  have "\<exists>b. p_buffer dev = Some b \<and> length (snd b) = nat (g_p_buffer g) \<and> fst b \<in> dom (km_live k) \<and>
      dev = ?d\<lparr>p_buffer := Some b, p_buffersize := g_p_buffer g, p_end := g_p_buffer g, p_rp := 0,
        p_wp := 0, p_nreaders := p_nreaders ?d + (if r then 1 else 0),
        p_nwriters := p_nwriters ?d + (if w then 1 else 0)\<rparr>"
  proof (cases "p_buffer ?d")
    case None
    then show ?thesis
      using op sem n
      by (auto simp: scull_p_open_def Let_def kmalloc_def split: if_splits)
  next
    case (Some b)
    moreover from this have "length (snd b) = nat (g_p_buffer g)" "fst b \<in> dom (km_live (ps_mem s))"
      using inv by (auto simp: pipe_inv_def pipe_ok_def split: prod.splits)
    ultimately show ?thesis
      using op sem n by (cases b) (auto simp: scull_p_open_def Let_def split: if_splits)
  qed
  then obtain b where b: "length (snd b) = nat (g_p_buffer g)" "fst b \<in> dom (km_live k)"
      "dev = ?d\<lparr>p_buffer := Some b, p_buffersize := g_p_buffer g, p_end := g_p_buffer g, p_rp := 0,
        p_wp := 0, p_nreaders := p_nreaders ?d + (if r then 1 else 0),
        p_nwriters := p_nwriters ?d + (if w then 1 else 0)\<rparr>" by blast
  show "\<exists>b. p_buffer dev = Some b \<and> fst b \<in> dom (km_live k)" "pipe_ok dev"
    "p_buffersize dev = g_p_buffer g" "pipe_content dev = []" "p_sem dev = p_sem ?d"
    "p_nreaders dev = p_nreaders ?d + (if r then 1 else 0)"
    "p_nwriters dev = p_nwriters ?d + (if w then 1 else 0)"
    using b sz by (auto simp: pipe_ok_def pipe_content_def ring_cells_def split: prod.splits)
qed

lemma open_inv:
  assumes inv: "pipe_inv g s" and i: "i < length (ps_procs s)"
    and idle: "pr_pc (ps_procs s ! i) = Idle" and m: "pr_modes (ps_procs s ! i) = None"
    and op: "scull_p_open g sig r w (ps_dev s) (ps_mem s) = Done (Inr 0, dev, k)"
  shows "pipe_inv g (s\<lparr>ps_dev := dev, ps_mem := k,
      ps_procs := (ps_procs s)[i := (ps_procs s ! i)\<lparr>pr_modes := Some (r, w)\<rparr>]\<rparr>)"
proof -
  let ?p = "(ps_procs s ! i)\<lparr>pr_modes := Some (r, w)\<rparr>"
  have "proc_ok (ps_procs s ! i)" using inv i by (simp add: pipe_inv_def list_all_length)
  then have "proc_ok ?p" using idle by (simp add: proc_ok_def writing_def)
  then have "list_all proc_ok ((ps_procs s)[i := ?p])"
    using inv by (simp add: pipe_inv_def list_all_update)
  moreover have "num (\<lambda>p. holding (pr_pc p)) ((ps_procs s)[i := ?p]) = num (\<lambda>p. holding (pr_pc p)) (ps_procs s)"
    "num reader ((ps_procs s)[i := ?p]) = num reader (ps_procs s) + (if r then 1 else 0)"
    "num writer ((ps_procs s)[i := ?p]) = num writer (ps_procs s) + (if w then 1 else 0)"
    using i m by (simp_all add: num_update reader_def writer_def)
  ultimately show ?thesis
    using inv open_result [OF inv i op] by (auto simp: pipe_inv_def)
qed

lemma release_result:
  assumes inv: "pipe_inv g s" and i: "i < length (ps_procs s)"
    and m: "pr_modes (ps_procs s ! i) = Some (r, w)" and sem: "0 < p_sem (ps_dev s)"
  obtains dev k where "scull_p_release i r w (ps_dev s) (ps_mem s) = Done (dev, k)"
    "p_sem dev = p_sem (ps_dev s)"
    "p_nreaders dev = p_nreaders (ps_dev s) - (if r then 1 else 0)"
    "p_nwriters dev = p_nwriters (ps_dev s) - (if w then 1 else 0)"
    "if p_nreaders dev + p_nwriters dev = 0 then p_buffer dev = None
     else p_buffer dev = p_buffer (ps_dev s) \<and> k = ps_mem s"
    "p_buffersize dev = p_buffersize (ps_dev s)" "p_end dev = p_end (ps_dev s)"
    "p_rp dev = p_rp (ps_dev s)" "p_wp dev = p_wp (ps_dev s)"
proof -
  let ?d = "ps_dev s"
  have rd: "0 < p_nreaders ?d" if r
    using inv num_pos [of i "ps_procs s" reader] i m that by (auto simp: pipe_inv_def reader_def)
  have wr: "0 < p_nwriters ?d" if w
    using inv num_pos [of i "ps_procs s" writer] i m that by (auto simp: pipe_inv_def writer_def)
  have b: "p_nreaders ?d < 1073741824" "0 \<le> p_nreaders ?d" "p_nwriters ?d < 1073741824" "0 \<le> p_nwriters ?d"
    using inv num_le [of reader "ps_procs s"] num_le [of writer "ps_procs s"]
    by (auto simp: pipe_inv_def)
  define nr where "nr = p_nreaders ?d - (if r then 1 else 0)"
  define nw where "nw = p_nwriters ?d - (if w then 1 else 0)"
  have n: "s32 (p_nreaders ?d - 1) = p_nreaders ?d - 1" "s32 (p_nwriters ?d - 1) = p_nwriters ?d - 1"
    "s32 (nr + nw) = nr + nw"
    using b by (auto simp: nr_def nw_def intro!: s32_id)
  let ?d' = "(snd (scull_p_fasync i 0 ?d))\<lparr>p_nreaders := nr, p_nwriters := nw\<rparr>"
  have fas: "snd (scull_p_fasync i 0 ?d) = ?d\<lparr>p_async := remove1 i (p_async ?d)\<rparr>"
    by (simp add: scull_p_fasync_def)
  show ?thesis
  proof (cases "nr + nw = 0")
    case False
    then have eq: "scull_p_release i r w ?d (ps_mem s) = Done (?d', ps_mem s)"
      using sem n by (auto simp: scull_p_release_def Let_def fas nr_def nw_def)
    show ?thesis by (rule that [OF eq]) (use False in \<open>auto simp: fas nr_def nw_def\<close>)
  next
    case True
    have "\<exists>k. (case p_buffer ?d of None \<Rightarrow> Done (ps_mem s) | Some b \<Rightarrow> kfree (fst b) (ps_mem s)) = Done k"
      using inv by (auto simp: pipe_inv_def kfree_def split: option.splits)
    then obtain k where "(case p_buffer ?d of None \<Rightarrow> Done (ps_mem s) | Some b \<Rightarrow> kfree (fst b) (ps_mem s)) = Done k"
      by blast
    then have eq: "scull_p_release i r w ?d (ps_mem s) = Done (?d'\<lparr>p_buffer := None\<rparr>, k)"
      using sem n True by (auto simp: scull_p_release_def Let_def fas nr_def nw_def)
    show ?thesis by (rule that [OF eq]) (use True in \<open>auto simp: fas nr_def nw_def\<close>)
  qed
qed

lemma release_inv:
  assumes inv: "pipe_inv g s" and i: "i < length (ps_procs s)"
    and idle: "pr_pc (ps_procs s ! i) = Idle" and m: "pr_modes (ps_procs s ! i) = Some (r, w)"
    and re: "scull_p_release i r w (ps_dev s) (ps_mem s) = Done (dev, k)"
  shows "pipe_inv g (s\<lparr>ps_dev := dev, ps_mem := k,
      ps_procs := (ps_procs s)[i := (ps_procs s ! i)\<lparr>pr_modes := None\<rparr>]\<rparr>)"
    and "pipe_content dev = (if p_buffer dev = None then [] else pipe_content (ps_dev s))"
    and "p_sem dev = p_sem (ps_dev s)" "0 < p_sem (ps_dev s)"
    and "p_rp dev = p_rp (ps_dev s)" "p_wp dev = p_wp (ps_dev s)"
    and "p_buffersize dev = p_buffersize (ps_dev s)"
proof -
  show sem: "0 < p_sem (ps_dev s)"
    using re by (auto simp: scull_p_release_def scull_p_fasync_def down_def Let_def split: if_splits)
  have d: "p_sem dev = p_sem (ps_dev s)"
    "p_nreaders dev = p_nreaders (ps_dev s) - (if r then 1 else 0)"
    "p_nwriters dev = p_nwriters (ps_dev s) - (if w then 1 else 0)"
    "if p_nreaders dev + p_nwriters dev = 0 then p_buffer dev = None
     else p_buffer dev = p_buffer (ps_dev s) \<and> k = ps_mem s"
    "p_buffersize dev = p_buffersize (ps_dev s)" "p_end dev = p_end (ps_dev s)"
    "p_rp dev = p_rp (ps_dev s)" "p_wp dev = p_wp (ps_dev s)"
    using release_result [OF inv i m sem] re by (metis (no_types, lifting) Pair_inject outcome.inject)+
  let ?p = "(ps_procs s ! i)\<lparr>pr_modes := None\<rparr>"
  have "proc_ok (ps_procs s ! i)" using inv i by (simp add: pipe_inv_def list_all_length)
  then have "proc_ok ?p" using idle by (simp add: proc_ok_def writing_def)
  then have "list_all proc_ok ((ps_procs s)[i := ?p])"
    using inv by (simp add: pipe_inv_def list_all_update)
  moreover have "num (\<lambda>p. holding (pr_pc p)) ((ps_procs s)[i := ?p]) = num (\<lambda>p. holding (pr_pc p)) (ps_procs s)"
    "num reader ((ps_procs s)[i := ?p]) = num reader (ps_procs s) - (if r then 1 else 0)"
    "num writer ((ps_procs s)[i := ?p]) = num writer (ps_procs s) - (if w then 1 else 0)"
    using i m by (simp_all add: num_update reader_def writer_def)
  moreover have act: "p_buffer (ps_dev s) \<noteq> None" if "r \<or> w"
  proof -
    have "reader (ps_procs s ! i) \<or> writer (ps_procs s ! i)"
      using m that by (auto simp: reader_def writer_def)
    then show ?thesis using active_pipe_ok [OF inv i] by (metis option.distinct(1))
  qed
  moreover have "pipe_ok dev" if "p_buffer dev \<noteq> None"
    using inv d that by (auto simp: pipe_inv_def pipe_ok_def split: option.splits if_splits)
  ultimately show "pipe_inv g (s\<lparr>ps_dev := dev, ps_mem := k, ps_procs := (ps_procs s)[i := ?p]\<rparr>)"
    using inv d act by (auto simp: pipe_inv_def split: option.splits if_splits)
  show "pipe_content dev = (if p_buffer dev = None then [] else pipe_content (ps_dev s))"
    using d by (auto simp: pipe_content_def split: if_splits)
  show "p_sem dev = p_sem (ps_dev s)" "p_rp dev = p_rp (ps_dev s)" "p_wp dev = p_wp (ps_dev s)"
    "p_buffersize dev = p_buffersize (ps_dev s)"
    using d by auto
qed

text \<open>Every step keeps the invariant and does to the contents what its events say.\<close>

lemma step_inv:
  assumes "pipe_step g s evs s'" and inv: "pipe_inv g s"
  shows "pipe_inv g s' \<and> fifo_run evs (pipe_content (ps_dev s)) = Some (pipe_content (ps_dev s'))"
  using assms
proof cases
  case (run i sig p dev)
  then show ?thesis using sys_run_inv [OF inv] run_active(1) [OF inv] by (auto simp: stepped_def)
next
  case (call_read i w n flags room)
  then have "proc_ok (ps_procs s ! i)" using inv by (simp add: pipe_inv_def list_all_length)
  with call_read show ?thesis
    using call_inv [OF inv call_read(3)] by (auto simp: proc_ok_def reader_def writing_def)
next
  case (call_write i r n flags ubuf)
  then have "proc_ok (ps_procs s ! i)" using inv by (simp add: pipe_inv_def list_all_length)
  with call_write show ?thesis
    using call_inv [OF inv call_write(3)] by (auto simp: proc_ok_def writer_def writing_def)
next
  case (open_file i sig r w dev k)
  then show ?thesis using open_inv [OF inv] open_result(4) [OF inv] by auto
next
  case (release_file i r w dev k)
  then show ?thesis using release_inv [OF inv] by auto
qed

lemma fifo_run_append:
  "fifo_run (xs @ ys) q = (case fifo_run xs q of None \<Rightarrow> None | Some q \<Rightarrow> fifo_run ys q)"
  by (induction xs arbitrary: q) (auto split: option.split)

lemma reach_inv:
  assumes "pipe_reach g s0 tr s" and "pipe_inv g s0"
  shows "pipe_inv g s \<and> fifo_run tr (pipe_content (ps_dev s0)) = Some (pipe_content (ps_dev s))"
  using assms by (induction) (auto simp: fifo_run_append dest: step_inv)

lemma start_inv:
  assumes "0 < g_p_buffer g" "g_p_buffer g < 2147483648" "n < 1073741824"
  shows "pipe_inv g (pipe_start n)"
  using assms
  by (auto simp: pipe_inv_def pipe_start_def num_def clear_pipe_def idle_proc_def proc_ok_def
      writing_def reader_def writer_def list_all_iff)

section \<open>No crash\<close>

lemma lock_step_safe: "lock_step sig locked p dev \<noteq> Crash c"
  by (auto simp: lock_step_def down_interruptible_def)

lemma proc_step_safe:
  assumes ok: "pipe_ok dev" and n: "0 \<le> pr_count p"
  shows "pipe_proc_step sig p dev \<noteq> Crash c"
proof -
  note sf = spacefree_free [OF ok]
  have "scull_p_read_step sig p dev \<noteq> Crash c"
  proof (cases "pr_pc p = R_check \<and> p_rp dev \<noteq> p_wp dev")
    case True
    then have ne: "pipe_content dev \<noteq> []" using pipe_length(2) [OF ok] by simp
    obtain r bs d where "p_read_chunk (pr_room p) dev (pr_count p) = Done (r, bs, d)"
      using p_read_chunk_result [OF ok ne n] by blast
    with True show ?thesis by (cases r) (simp_all add: scull_p_read_step_def)
  next
    case False
    then show ?thesis
      by (cases "pr_pc p") (auto simp: scull_p_read_step_def lock_step_safe Let_def)
  qed
  moreover have "scull_p_write_step sig p dev \<noteq> Crash c"
  proof (cases "pr_pc p = W_check \<and> length (pipe_content dev) < pipe_capacity dev")
    case True
    then obtain r d where "p_write_chunk (pr_ubuf p) dev (pr_count p) = Done (r, d)"
      using p_write_chunk_result [OF ok _ n] by blast
    with True sf show ?thesis by (cases r) (simp_all add: scull_p_write_step_def)
  next
    case False
    then show ?thesis
      using sf pipe_length(1) [OF ok]
      by (cases "pr_pc p")
        (auto simp: scull_p_write_step_def scull_getwritespace_step_def lock_step_safe Let_def)
  qed
  ultimately show ?thesis by (simp add: pipe_proc_step_def)
qed

lemma idle_step_blocks: "pr_pc p = Idle \<Longrightarrow> pipe_proc_step sig p dev = Block"
  by (simp add: pipe_proc_step_def scull_p_write_step_def scull_getwritespace_step_def)

lemma inv_step_safe:
  assumes inv: "pipe_inv g s" and i: "i < length (ps_procs s)"
  shows "pipe_proc_step sig (ps_procs s ! i) (ps_dev s) \<noteq> Crash c"
proof (cases "pr_pc (ps_procs s ! i) = Idle")
  case True
  then show ?thesis by (simp add: idle_step_blocks)
next
  case False
  have ok: "proc_ok (ps_procs s ! i)" using inv i by (simp add: pipe_inv_def list_all_length)
  with False have "reader (ps_procs s ! i) \<or> writer (ps_procs s ! i)"
    by (auto simp: proc_ok_def writing_def)
  then have "pipe_ok (ps_dev s)" using active_pipe_ok [OF inv i] by metis
  then show ?thesis using ok by (intro proc_step_safe) (auto simp: proc_ok_def)
qed

lemma inv_release_safe:
  assumes inv: "pipe_inv g s" and i: "i < length (ps_procs s)"
    and m: "pr_modes (ps_procs s ! i) = Some (r, w)"
  shows "scull_p_release i r w (ps_dev s) (ps_mem s) \<noteq> Crash c"
proof (cases "0 < p_sem (ps_dev s)")
  case True
  then show ?thesis using release_result [OF inv i m] by (metis outcome.distinct(3))
next
  case False
  then show ?thesis
    by (simp add: scull_p_release_def scull_p_fasync_def Let_def down_def)
qed

lemma sum_case_Done:
  "(case r of Inl e \<Rightarrow> f e | Inr n \<Rightarrow> h n) = Done y \<longleftrightarrow>
     (\<exists>e. r = Inl e \<and> f e = Done y) \<or> (\<exists>n. r = Inr n \<and> h n = Done y)"
  by (cases r) auto

lemmas machine_defs = pipe_proc_step_def scull_p_read_step_def scull_p_write_step_def
  scull_getwritespace_step_def lock_step_def return_from_def down_interruptible_def
  and_then_Done_iff sum_case_Done Let_def

lemma proc_step_events:
  assumes "pipe_proc_step sig p dev = Done (p', dev', evs)"
  shows "Opened \<notin> set evs" "Freed \<notin> set evs"
  using assms
  by (cases "pr_pc p"; auto simp: machine_defs split: if_splits)+

section \<open>Sleeping and waking\<close>

text \<open>
  The discipline of a wait queue. Those who sleep wait until the pipe is \<open>ready\<close>. No one falls
  asleep when it is, a process that makes it so goes on to wake the sleepers, and waking reaches
  all of them.
\<close>

locale wake_protocol =
  fixes ready :: "scull_pipe \<Rightarrow> bool" and asleep :: "pipe_pc" and waker :: "pipe_pc \<Rightarrow> bool"
    and wake :: pipe_event
  assumes falls_asleep: "\<lbrakk>pipe_ok dev; pipe_proc_step sig p dev = Done (p', dev', evs);
      pr_pc p' = asleep\<rbrakk> \<Longrightarrow> \<not> ready dev'"
    and makes_ready: "\<lbrakk>pipe_ok dev; pipe_proc_step sig p dev = Done (p', dev', evs);
      \<not> ready dev; ready dev'\<rbrakk> \<Longrightarrow> waker (pr_pc p')"
    and waker_wakes: "\<lbrakk>pipe_proc_step sig p dev = Done (p', dev', evs); waker (pr_pc p)\<rbrakk> \<Longrightarrow>
      wake \<in> set evs"
    and all_woken: "wake \<in> set evs \<Longrightarrow> q \<in> set (wake_up evs ps) \<Longrightarrow> pr_pc q \<noteq> asleep"
    and waker_pc: "waker (wake_reader pc) = waker pc" "waker (wake_writer pc) = waker pc"
    and asleep_pc: "wake_reader pc = asleep \<Longrightarrow> pc = asleep" "wake_writer pc = asleep \<Longrightarrow> pc = asleep"
    and other_pcs: "asleep \<notin> {Idle, R_lock, W_lock}" "\<not> waker Idle"
    and ready_fields: "p_rp d = p_rp d' \<Longrightarrow> p_wp d = p_wp d' \<Longrightarrow> p_buffersize d = p_buffersize d' \<Longrightarrow>
      ready d = ready d'"
begin

definition none_forgotten :: "pipe_sys \<Rightarrow> bool" where
  "none_forgotten s \<longleftrightarrow> (\<exists>p\<in>set (ps_procs s). pr_pc p = asleep) \<longrightarrow>
     \<not> ready (ps_dev s) \<or> (\<exists>p\<in>set (ps_procs s). waker (pr_pc p))"

lemma woken_mem:
  assumes "q \<in> set (wake_up evs ps)"
  shows "\<exists>p\<in>set ps. (pr_pc q = asleep \<longrightarrow> pr_pc p = asleep)"
proof -
  from assms obtain p where p: "p \<in> set ps" and q: "pr_pc q =
      (if Wake_readers \<in> set evs then wake_reader else id)
       ((if Wake_writers \<in> set evs then wake_writer else id) (pr_pc p))"
    by (auto simp: wake_up_def)
  have "pr_pc p = asleep" if "pr_pc q = asleep"
    using that unfolding q by (metis asleep_pc id_apply)
  with p show ?thesis by blast
qed

lemma waker_stays:
  assumes "p \<in> set ps" "waker (pr_pc p)"
  shows "\<exists>q\<in>set (wake_up evs ps). waker (pr_pc q)"
  using assms waker_pc by (auto simp: wake_up_def)

lemma run_keeps:
  assumes nf: "none_forgotten s" and ok: "pipe_ok (ps_dev s)" and i: "i < length (ps_procs s)"
    and st: "pipe_proc_step sig (ps_procs s ! i) (ps_dev s) = Done (p, dev, evs)"
  shows "none_forgotten (s\<lparr>ps_dev := dev, ps_procs := wake_up evs ((ps_procs s)[i := p])\<rparr>)"
    (is "none_forgotten ?s'")
  unfolding none_forgotten_def
proof
  let ?ps = "ps_procs s"
  assume "\<exists>q\<in>set (ps_procs ?s'). pr_pc q = asleep"
  then obtain q where q: "q \<in> set (wake_up evs (?ps[i := p]))" "pr_pc q = asleep" by auto
  then have nw: "wake \<notin> set evs" using all_woken by blast
  then have self: "\<not> waker (pr_pc (?ps ! i))" using waker_wakes [OF st] by blast
  have new: "p \<in> set (?ps[i := p])" using i by (rule set_update_memI)
  show "\<not> ready (ps_dev ?s') \<or> (\<exists>q\<in>set (ps_procs ?s'). waker (pr_pc q))"
  proof (cases "ready dev")
    case True
    have "pr_pc p \<noteq> asleep" using falls_asleep [OF ok st] True by blast
    moreover obtain q' where "q' \<in> set (?ps[i := p])" "pr_pc q' = asleep"
      using woken_mem [OF q(1)] q(2) by blast
    moreover from this have "q' = p \<or> q' \<in> set ?ps"
      using set_update_subset_insert [of ?ps i p] by blast
    ultimately have "q' \<in> set ?ps" "pr_pc q' = asleep" by auto
    then consider "\<not> ready (ps_dev s)" | w where "w \<in> set ?ps" "waker (pr_pc w)"
      using nf by (auto simp: none_forgotten_def)
    then show ?thesis
    proof cases
      case 1
      then have "waker (pr_pc p)" using makes_ready [OF ok st] True by blast
      then show ?thesis using waker_stays [OF new] by auto
    next
      case (2 w)
      then obtain j where j: "j < length ?ps" "?ps ! j = w" by (auto simp: in_set_conv_nth)
      with 2 self have "j \<noteq> i" by auto
      with j have "w \<in> set (?ps[i := p])"
        by (metis length_list_update nth_list_update_neq nth_mem)
      then show ?thesis using waker_stays 2 by auto
    qed
  qed simp
qed

lemma change_keeps:
  assumes nf: "none_forgotten s" and i: "i < length (ps_procs s)" and idle: "pr_pc (ps_procs s ! i) = Idle"
    and p: "pr_pc p \<in> {Idle, R_lock, W_lock}" and d: "ready dev \<Longrightarrow> ready (ps_dev s)"
  shows "none_forgotten (s\<lparr>ps_dev := dev, ps_mem := k, ps_procs := (ps_procs s)[i := p]\<rparr>)"
  unfolding none_forgotten_def
proof
  let ?ps = "ps_procs s" and ?s' = "s\<lparr>ps_dev := dev, ps_mem := k, ps_procs := (ps_procs s)[i := p]\<rparr>"
  assume "\<exists>q\<in>set (ps_procs ?s'). pr_pc q = asleep"
  then obtain q where q: "q \<in> set (?ps[i := p])" "pr_pc q = asleep" by auto
  moreover from this have "q = p \<or> q \<in> set ?ps"
    using set_update_subset_insert [of ?ps i p] by blast
  ultimately have "q \<in> set ?ps" using p other_pcs(1) by auto
  with q nf have "\<not> ready (ps_dev s) \<or> (\<exists>w\<in>set ?ps. waker (pr_pc w))"
    by (auto simp: none_forgotten_def)
  then show "\<not> ready (ps_dev ?s') \<or> (\<exists>q\<in>set (ps_procs ?s'). waker (pr_pc q))"
  proof
    assume "\<exists>w\<in>set ?ps. waker (pr_pc w)"
    then obtain j where j: "j < length ?ps" "waker (pr_pc (?ps ! j))" by (auto simp: in_set_conv_nth)
    then have "j \<noteq> i" using idle other_pcs(2) by metis
    with j have "?ps ! j \<in> set (?ps[i := p])"
      by (metis length_list_update nth_list_update_neq nth_mem)
    then show ?thesis using j(2) by auto
  qed (use d in auto)
qed

lemma step_keeps:
  assumes st: "pipe_step g s evs s'" and inv: "pipe_inv g s" and nf: "none_forgotten s"
    and op: "\<And>dev. Opened \<in> set evs \<Longrightarrow> ps_dev s' = dev \<Longrightarrow> ready dev \<Longrightarrow> ready (ps_dev s)"
  shows "none_forgotten s'"
  using st
proof cases
  case (run i sig p dev)
  then show ?thesis using run_keeps [OF nf] run_active(2) [OF inv] by blast
next
  case (call_read i w n flags room)
  then show ?thesis using change_keeps [OF nf call_read(3,4), where dev = "ps_dev s" and k = "ps_mem s"]
    by simp
next
  case (call_write i r n flags ubuf)
  then show ?thesis using change_keeps [OF nf call_write(3,4), where dev = "ps_dev s" and k = "ps_mem s"]
    by simp
next
  case (open_file i sig r w dev k)
  then show ?thesis using change_keeps [OF nf open_file(3,4)] op by simp
next
  case (release_file i r w dev k)
  then have "ready dev = ready (ps_dev s)"
    using release_inv(5,6,7) [OF inv release_file(3-6)] ready_fields by metis
  moreover have "pr_pc ((ps_procs s ! i)\<lparr>pr_modes := None\<rparr>) \<in> {Idle, R_lock, W_lock}"
    using release_file(4) by simp
  ultimately show ?thesis unfolding release_file(2)
    by (intro change_keeps [OF nf release_file(3,4)]) auto
qed

lemma reach_keeps_unopened:
  assumes "pipe_reach g s0 tr s" "pipe_inv g s0" "none_forgotten s0" "Opened \<notin> set tr"
  shows "none_forgotten s"
  using assms
proof induction
  case (step tr s evs s')
  then show ?case
    using reach_inv [OF step.hyps(1)] by (intro step_keeps [OF step.hyps(2)]) auto
qed

end

text \<open>An open that leaves the pipe not ready cannot make anyone miss a wake-up.\<close>

locale wake_protocol_open = wake_protocol +
  assumes open_not_ready: "scull_p_open g sig r w dev k = Done (Inr 0, dev', k') \<Longrightarrow> \<not> ready dev'"
begin

lemma reach_keeps:
  assumes "pipe_reach g s0 tr s" "pipe_inv g s0" "none_forgotten s0"
  shows "none_forgotten s"
  using assms
proof induction
  case (step tr s evs s')
  have "\<not> ready (ps_dev s')" if "Opened \<in> set evs"
    using step.hyps(2) that
  proof cases
    case (run i sig p dev)
    then show ?thesis using that proc_step_events by blast
  qed (auto dest: open_not_ready split: if_splits)
  then show ?case
    using step reach_inv [OF step.hyps(1)] by (intro step_keeps [OF step.hyps(2)]) auto
qed

end

text \<open>Readers sleep until there is data, writers until there is space.\<close>

definition data_ready :: "scull_pipe \<Rightarrow> bool" where
  "data_ready dev \<longleftrightarrow> p_rp dev \<noteq> p_wp dev"

definition space_ready :: "scull_pipe \<Rightarrow> bool" where
  "space_ready dev \<longleftrightarrow> spacefree dev \<noteq> Done 0"

fun wakes_readers :: "pipe_pc \<Rightarrow> bool" where
  "wakes_readers (W_wake _) = True"
| "wakes_readers _ = False"

fun wakes_writers :: "pipe_pc \<Rightarrow> bool" where
  "wakes_writers (R_wake _) = True"
| "wakes_writers _ = False"

lemma spacefree_fields:
  "p_rp d = p_rp d' \<Longrightarrow> p_wp d = p_wp d' \<Longrightarrow> p_buffersize d = p_buffersize d' \<Longrightarrow> spacefree d = spacefree d'"
  by (simp add: spacefree_def)

lemma wake_reader_pcs:
  "wake_reader pc = R_sleep b \<longleftrightarrow> b \<and> (\<exists>b'. pc = R_sleep b')"
  "wake_reader pc = W_sleep b \<longleftrightarrow> pc = W_sleep b"
  "wakes_readers (wake_reader pc) = wakes_readers pc"
  "wakes_writers (wake_reader pc) = wakes_writers pc"
  by (cases pc; auto)+

lemma wake_writer_pcs:
  "wake_writer pc = W_sleep b \<longleftrightarrow> b \<and> (\<exists>b'. pc = W_sleep b')"
  "wake_writer pc = R_sleep b \<longleftrightarrow> pc = R_sleep b"
  "wakes_readers (wake_writer pc) = wakes_readers pc"
  "wakes_writers (wake_writer pc) = wakes_writers pc"
  by (cases pc; auto)+

lemma reader_step_data:
  assumes "pipe_proc_step sig p dev = Done (p', dev', evs)" "\<not> data_ready dev" "data_ready dev'"
  shows "wakes_readers (pr_pc p')"
  using assms
  by (cases "pr_pc p")
    (auto simp: machine_defs data_ready_def dest: p_write_chunk_frame(5) split: if_splits)

lemma writer_step_space:
  assumes "pipe_proc_step sig p dev = Done (p', dev', evs)" "\<not> space_ready dev" "space_ready dev'"
  shows "wakes_writers (pr_pc p')"
proof -
  have same: "spacefree (dev\<lparr>p_sem := n\<rparr>) = spacefree dev" for n by (simp add: spacefree_def)
  have failed: "spacefree d = spacefree dev" if "p_read_chunk room dev n = Done (Inl e, bs, d)" for room n e bs d
    using p_read_chunk_frame(3,5) [OF that] by (intro spacefree_fields) auto
  show ?thesis
    using assms
    by (cases "pr_pc p") (auto simp: machine_defs space_ready_def same failed split: if_splits)
qed

interpretation readers: wake_protocol_open data_ready "R_sleep False" wakes_readers Wake_readers
proof unfold_locales
  fix sig p dev p' dev' evs
  assume st: "pipe_proc_step sig p dev = Done (p', dev', evs)"
  show "\<not> data_ready dev'" if "pr_pc p' = R_sleep False"
    using st that
    by (cases "pr_pc p") (auto simp: machine_defs data_ready_def split: if_splits)
  show "wakes_readers (pr_pc p')" if "\<not> data_ready dev" "data_ready dev'"
    using reader_step_data st that by blast
  show "Wake_readers \<in> set evs" if "wakes_readers (pr_pc p)"
    using st that by (cases "pr_pc p") (auto simp: machine_defs)
next
  show "pr_pc q \<noteq> R_sleep False" if "Wake_readers \<in> set evs" "q \<in> set (wake_up evs ps)" for evs q ps
    using that by (auto simp: wake_up_def wake_reader_pcs)
  show "\<not> data_ready dev'" if "scull_p_open g sig r w dev k = Done (Inr 0, dev', k')" for g sig r w dev k dev' k'
    using that by (auto simp: scull_p_open_def data_ready_def down_interruptible_def Let_def
        split: option.splits prod.splits if_splits)
qed (auto simp: wake_reader_pcs wake_writer_pcs data_ready_def)

interpretation writers: wake_protocol space_ready "W_sleep False" wakes_writers Wake_writers
proof unfold_locales
  fix sig p dev p' dev' evs
  assume st: "pipe_proc_step sig p dev = Done (p', dev', evs)"
  show "\<not> space_ready dev'" if "pr_pc p' = W_sleep False"
    using st that
    by (cases "pr_pc p") (auto simp: machine_defs space_ready_def split: if_splits)
  show "wakes_writers (pr_pc p')" if "\<not> space_ready dev" "space_ready dev'"
    using writer_step_space st that by blast
  show "Wake_writers \<in> set evs" if "wakes_writers (pr_pc p)"
    using st that by (cases "pr_pc p") (auto simp: machine_defs)
next
  show "pr_pc q \<noteq> W_sleep False" if "Wake_writers \<in> set evs" "q \<in> set (wake_up evs ps)" for evs q ps
    using that by (auto simp: wake_up_def wake_reader_pcs wake_writer_pcs split: if_splits)
  show "space_ready d = space_ready d'"
    if "p_rp d = p_rp d'" "p_wp d = p_wp d'" "p_buffersize d = p_buffersize d'" for d d'
    using spacefree_fields [OF that] by (simp add: space_ready_def)
qed (auto simp: wake_reader_pcs wake_writer_pcs)

section \<open>Executions\<close>

text \<open>The steps again, each chosen by a move, to compute executions.\<close>

datatype pipe_move =
    Run nat bool | Call_read nat int int nat | Call_write nat int int "byte list"
  | Open_file nat bool bool | Release_file nat

fun pipe_exec_step ::
    "scull_globals \<Rightarrow> pipe_move \<Rightarrow> pipe_sys \<Rightarrow> (pipe_event list \<times> pipe_sys) option" where
  "pipe_exec_step g (Run i sig) s =
     (if i < length (ps_procs s)
      then case pipe_proc_step sig (ps_procs s ! i) (ps_dev s) of
             Done (p, dev, evs) \<Rightarrow>
               Some (evs, s\<lparr>ps_dev := dev, ps_procs := wake_up evs ((ps_procs s)[i := p])\<rparr>)
           | _ \<Rightarrow> None
      else None)"
| "pipe_exec_step g (Call_read i flags n room) s =
     (if i < length (ps_procs s) \<and> pr_pc (ps_procs s ! i) = Idle \<and> reader (ps_procs s ! i) \<and> 0 \<le> n
      then Some ([], s\<lparr>ps_procs := (ps_procs s)[i := (ps_procs s ! i)
        \<lparr>pr_pc := R_lock, pr_flags := flags, pr_count := n, pr_room := room\<rparr>]\<rparr>)
      else None)"
| "pipe_exec_step g (Call_write i flags n ubuf) s =
     (if i < length (ps_procs s) \<and> pr_pc (ps_procs s ! i) = Idle \<and> writer (ps_procs s ! i) \<and> 0 \<le> n
      then Some ([], s\<lparr>ps_procs := (ps_procs s)[i := (ps_procs s ! i)
        \<lparr>pr_pc := W_lock, pr_flags := flags, pr_count := n, pr_ubuf := ubuf\<rparr>]\<rparr>)
      else None)"
| "pipe_exec_step g (Open_file i r w) s =
     (if i < length (ps_procs s) \<and> pr_pc (ps_procs s ! i) = Idle \<and> pr_modes (ps_procs s ! i) = None
      then case scull_p_open g False r w (ps_dev s) (ps_mem s) of
             Done (Inr v, dev, k) \<Rightarrow>
               if v = 0 then Some ([Opened], s\<lparr>ps_dev := dev, ps_mem := k,
                 ps_procs := (ps_procs s)[i := (ps_procs s ! i)\<lparr>pr_modes := Some (r, w)\<rparr>]\<rparr>)
               else None
           | _ \<Rightarrow> None
      else None)"
| "pipe_exec_step g (Release_file i) s =
     (if i < length (ps_procs s) \<and> pr_pc (ps_procs s ! i) = Idle
      then case pr_modes (ps_procs s ! i) of
             None \<Rightarrow> None
           | Some (r, w) \<Rightarrow>
               (case scull_p_release i r w (ps_dev s) (ps_mem s) of
                  Done (dev, k) \<Rightarrow>
                    Some (if p_buffer dev = None then [Freed] else [],
                      s\<lparr>ps_dev := dev, ps_mem := k,
                        ps_procs := (ps_procs s)[i := (ps_procs s ! i)\<lparr>pr_modes := None\<rparr>]\<rparr>)
                | _ \<Rightarrow> None)
      else None)"

fun pipe_exec ::
    "scull_globals \<Rightarrow> pipe_move list \<Rightarrow> pipe_sys \<Rightarrow> (pipe_event list \<times> pipe_sys) option" where
  "pipe_exec g [] s = Some ([], s)"
| "pipe_exec g (m # ms) s =
     (case pipe_exec_step g m s of
        None \<Rightarrow> None
      | Some (evs, s) \<Rightarrow>
          (case pipe_exec g ms s of None \<Rightarrow> None | Some (tr, s) \<Rightarrow> Some (evs @ tr, s)))"

lemma exec_step_sound:
  assumes "pipe_exec_step g m s = Some (evs, s')"
  shows "pipe_step g s evs s'"
proof (cases m)
  case (Release_file i)
  then obtain r w dev k where
    "i < length (ps_procs s)" "pr_pc (ps_procs s ! i) = Idle" "pr_modes (ps_procs s ! i) = Some (r, w)"
    "scull_p_release i r w (ps_dev s) (ps_mem s) = Done (dev, k)"
    "evs = (if p_buffer dev = None then [Freed] else [])"
    "s' = s\<lparr>ps_dev := dev, ps_mem := k,
       ps_procs := (ps_procs s)[i := (ps_procs s ! i)\<lparr>pr_modes := None\<rparr>]\<rparr>"
    using assms by (auto split: if_splits outcome.splits option.splits prod.splits)
  then show ?thesis using pipe_step.release_file by blast
qed (use assms in \<open>auto simp: reader_def writer_def intro: pipe_step.intros
      split: if_splits outcome.splits option.splits sum.splits prod.splits\<close>)

lemma reach_step_first:
  assumes "pipe_reach g s1 tr s" "pipe_step g s0 evs s1"
  shows "pipe_reach g s0 (evs @ tr) s"
  using assms
proof induction
  case start
  then show ?case using pipe_reach.step [OF pipe_reach.start] by fastforce
next
  case (step tr s evs' s')
  then show ?case using pipe_reach.step by (metis append.assoc)
qed

lemma exec_reach: "pipe_exec g ms s = Some (tr, s') \<Longrightarrow> pipe_reach g s tr s'"
proof (induction ms arbitrary: s tr)
  case Nil
  then show ?case by (auto intro: pipe_reach.start)
next
  case (Cons m ms)
  then show ?case
    by (auto split: option.splits intro!: reach_step_first dest!: exec_step_sound)
qed

text \<open>Two processes on a pipe with a buffer of two bytes: the first opens it for writing, writes
  a byte, writes another and goes to sleep; the second opens the pipe for reading, reads and goes
  to sleep.\<close>

definition small_pipe_globals :: scull_globals where
  "small_pipe_globals = scull_default_globals\<lparr>g_p_buffer := 2\<rparr>"

definition full_moves :: "pipe_move list" where
  "full_moves =
     [Call_write 0 0 1 [65], Run 0 False, Run 0 False, Run 0 False,
      Call_write 0 0 1 [66], Run 0 False, Run 0 False, Run 0 False]"

definition stuck_moves :: "pipe_move list" where
  "stuck_moves =
     Open_file 0 False True # full_moves @
     [Open_file 1 True False, Call_read 1 0 1 1, Run 1 False, Run 1 False, Run 1 False]"

lemma stuck_execution:
  "case pipe_exec small_pipe_globals stuck_moves (pipe_start 2) of
     None \<Rightarrow> False
   | Some (tr, s) \<Rightarrow> map pr_pc (ps_procs s) = [W_sleep False, R_sleep False] \<and>
       pipe_content (ps_dev s) = [] \<and> spacefree (ps_dev s) = Done 1 \<and>
       list_all (\<lambda>p. pipe_proc_step False p (ps_dev s) = Block) (ps_procs s)"
  by code_simp

lemma full_execution:
  "case pipe_exec small_pipe_globals [Open_file 0 False True] (pipe_start 1) of
     None \<Rightarrow> False
   | Some (tr0, s0) \<Rightarrow> map pr_pc (ps_procs s0) = [Idle] \<and>
       (case pipe_exec small_pipe_globals full_moves s0 of
          None \<Rightarrow> False
        | Some (tr, s) \<Rightarrow> map pr_pc (ps_procs s) = [W_sleep False] \<and> tr = [Put [Some 65], Wake_readers])"
  by code_simp

lemma full_reach:
  obtains tr0 s0 tr s where "pipe_reach small_pipe_globals (pipe_start 1) tr0 s0"
    "map pr_pc (ps_procs s0) = [Idle]" "pipe_reach small_pipe_globals s0 tr s"
    "map pr_pc (ps_procs s) = [W_sleep False]" "Opened \<notin> set tr"
proof -
  obtain tr0 s0 where e0: "pipe_exec small_pipe_globals [Open_file 0 False True] (pipe_start 1) = Some (tr0, s0)"
    using full_execution by (metis (no_types, lifting) case_optionE surj_pair)
  with full_execution obtain tr s where e: "pipe_exec small_pipe_globals full_moves s0 = Some (tr, s)"
    by (cases "pipe_exec small_pipe_globals full_moves s0") auto
  show ?thesis
    using full_execution unfolding e0 option.case prod.case e
    by (intro that [OF exec_reach [OF e0] _ exec_reach [OF e]]) auto
qed

lemma stuck_reach:
  obtains tr s where "pipe_reach small_pipe_globals (pipe_start 2) tr s"
    "map pr_pc (ps_procs s) = [W_sleep False, R_sleep False]" "pipe_content (ps_dev s) = []"
    "spacefree (ps_dev s) = Done 1"
    "list_all (\<lambda>p. pipe_proc_step False p (ps_dev s) = Block) (ps_procs s)"
proof -
  obtain tr s where e: "pipe_exec small_pipe_globals stuck_moves (pipe_start 2) = Some (tr, s)"
    using stuck_execution by (metis (no_types, lifting) case_optionE surj_pair)
  show ?thesis
    using stuck_execution unfolding e option.case prod.case
    by (intro that [OF exec_reach [OF e]]) auto
qed

lemma small_pipe_globals_ok [simp]: "g_p_buffer small_pipe_globals = 2"
  by (simp add: small_pipe_globals_def)

lemma start_forgets_no_one:
  "readers.none_forgotten (pipe_start n)" "pipe_content (ps_dev (pipe_start n)) = []"
  by (auto simp: readers.none_forgotten_def pipe_start_def idle_proc_def clear_pipe_def pipe_content_def)

section \<open>Properties\<close>

text \<open>C3: whatever the interleaving of opens, releases, reads and writes of any number of
  processes, the pipe is a queue: the bytes reads return are the bytes writes have accepted, in
  their order, each once; what is not yet read is the content of the buffer. An open empties the
  queue, and so does the release that frees the buffer.\<close>

theorem pipe_is_fifo:
  assumes "0 < g_p_buffer g" "g_p_buffer g < 2147483648" "n < 1073741824"
    and "pipe_reach g (pipe_start n) tr s"
  shows "fifo_run tr [] = Some (pipe_content (ps_dev s))"
  using reach_inv [OF assms(4) start_inv [OF assms(1-3)]] start_forgets_no_one(2) by simp

lemma pipe_is_fifo_witness:
  "\<exists>tr s. pipe_reach small_pipe_globals (pipe_start 2) tr s \<and> spacefree (ps_dev s) = Done 1 \<and>
     fifo_run tr [] = Some (pipe_content (ps_dev s))"
  by (rule stuck_reach) (use pipe_is_fifo [of small_pipe_globals 2] in auto)

text \<open>C15: at most one process is between taking the semaphore and releasing it, and the
  semaphore's count says whether one is.\<close>

theorem pipe_mutual_exclusion:
  assumes "0 < g_p_buffer g" "g_p_buffer g < 2147483648" "n < 1073741824"
    and "pipe_reach g (pipe_start n) tr s"
  shows "p_sem (ps_dev s) = 1 \<and> length (filter (\<lambda>p. holding (pr_pc p)) (ps_procs s)) = 0 \<or>
    p_sem (ps_dev s) = 0 \<and> length (filter (\<lambda>p. holding (pr_pc p)) (ps_procs s)) = 1"
proof -
  have "p_sem (ps_dev s) = 1 - int (length (filter (\<lambda>p. holding (pr_pc p)) (ps_procs s)))"
    "0 \<le> p_sem (ps_dev s)"
    using reach_inv [OF assms(4) start_inv [OF assms(1-3)]] by (simp_all add: pipe_inv_def num_def)
  then show ?thesis by arith
qed

lemma pipe_mutual_exclusion_witness:
  "\<exists>tr s. pipe_reach small_pipe_globals (pipe_start 2) tr s \<and> spacefree (ps_dev s) = Done 1 \<and>
     (p_sem (ps_dev s) = 1 \<or> p_sem (ps_dev s) = 0)"
  by (rule stuck_reach) (use pipe_mutual_exclusion [of small_pipe_globals 2] in force)



text \<open>C16: no reader misses its wake-up. When a reader is asleep and has not been woken, the
  pipe is empty, or a writer that has added data is about to wake the readers.\<close>

theorem pipe_readers_woken:
  assumes "0 < g_p_buffer g" "g_p_buffer g < 2147483648" "n < 1073741824"
    and "pipe_reach g (pipe_start n) tr s" "p \<in> set (ps_procs s)" "pr_pc p = R_sleep False"
  shows "pipe_content (ps_dev s) = [] \<or> (\<exists>q c. q \<in> set (ps_procs s) \<and> pr_pc q = W_wake c)"
proof -
  note start = start_inv [OF assms(1-3)]
  have "readers.none_forgotten s"
    using readers.reach_keeps [OF assms(4) start] start_forgets_no_one(1) by simp
  then have "p_rp (ps_dev s) = p_wp (ps_dev s) \<or> (\<exists>q\<in>set (ps_procs s). wakes_readers (pr_pc q))"
    using assms(5,6) by (auto simp: readers.none_forgotten_def data_ready_def)
  moreover have "pipe_content (ps_dev s) = []" if "p_rp (ps_dev s) = p_wp (ps_dev s)"
    using that by (auto simp: pipe_content_def ring_cells_def split: option.split)
  ultimately show ?thesis by (metis wakes_readers.elims(2))
qed

lemma pipe_readers_woken_witness:
  "\<exists>tr s. pipe_reach small_pipe_globals (pipe_start 2) tr s \<and>
     map pr_pc (ps_procs s) = [W_sleep False, R_sleep False] \<and>
     (pipe_content (ps_dev s) = [] \<or> (\<exists>q c. q \<in> set (ps_procs s) \<and> pr_pc q = W_wake c))"
proof (rule stuck_reach)
  fix tr s
  assume s: "pipe_reach small_pipe_globals (pipe_start 2) tr s"
    "map pr_pc (ps_procs s) = [W_sleep False, R_sleep False]"
  then have "R_sleep False \<in> set (map pr_pc (ps_procs s))" by simp
  then obtain p where "p \<in> set (ps_procs s)" "pr_pc p = R_sleep False" by auto
  from pipe_readers_woken [OF _ _ _ s(1) this]
  have "pipe_content (ps_dev s) = [] \<or> (\<exists>q c. q \<in> set (ps_procs s) \<and> pr_pc q = W_wake c)" by simp
  with s show ?thesis by - (intro exI conjI)
qed

text \<open>No writer misses its wake-up as long as no one opens the pipe. From a state in which
  no writer sleeps, when a writer is asleep and has not been woken, the pipe is full, or a reader
  that has made space is about to wake the writers.\<close>

theorem pipe_writers_woken:
  assumes "0 < g_p_buffer g" "g_p_buffer g < 2147483648" "n < 1073741824"
    and "pipe_reach g (pipe_start n) tr0 s0" "W_sleep False \<notin> pr_pc ` set (ps_procs s0)"
    and "pipe_reach g s0 tr s" "Opened \<notin> set tr"
    and "p \<in> set (ps_procs s)" "pr_pc p = W_sleep False"
  shows "spacefree (ps_dev s) = Done 0 \<or> (\<exists>q c. q \<in> set (ps_procs s) \<and> pr_pc q = R_wake c)"
proof -
  have "pipe_inv g s0" using reach_inv [OF assms(4) start_inv [OF assms(1-3)]] by blast
  moreover have "writers.none_forgotten s0"
    using assms(5) by (force simp: writers.none_forgotten_def)
  ultimately have "writers.none_forgotten s"
    using writers.reach_keeps_unopened [OF assms(6)] assms(7) by blast
  then have "spacefree (ps_dev s) = Done 0 \<or> (\<exists>q\<in>set (ps_procs s). wakes_writers (pr_pc q))"
    using assms(8,9) by (auto simp: writers.none_forgotten_def space_ready_def)
  then show ?thesis by (metis wakes_writers.elims(2))
qed

lemma pipe_writers_woken_witness:
  "\<exists>s0 tr s. pipe_reach small_pipe_globals s0 tr s \<and> map pr_pc (ps_procs s) = [W_sleep False] \<and>
     (spacefree (ps_dev s) = Done 0 \<or> (\<exists>q c. q \<in> set (ps_procs s) \<and> pr_pc q = R_wake c))"
proof (rule full_reach)
  fix tr0 s0 tr s
  assume s: "pipe_reach small_pipe_globals (pipe_start 1) tr0 s0" "map pr_pc (ps_procs s0) = [Idle]"
    "pipe_reach small_pipe_globals s0 tr s" "map pr_pc (ps_procs s) = [W_sleep False]" "Opened \<notin> set tr"
  then have "W_sleep False \<notin> pr_pc ` set (ps_procs s0)" by (simp flip: set_map)
  moreover from s(4) obtain p where "p \<in> set (ps_procs s)" "pr_pc p = W_sleep False" by auto
  ultimately have "spacefree (ps_dev s) = Done 0 \<or> (\<exists>q c. q \<in> set (ps_procs s) \<and> pr_pc q = R_wake c)"
    using pipe_writers_woken [OF _ _ _ s(1) _ s(3,5)] by simp
  with s(3,4) show ?thesis by - (intro exI conjI)
qed

text \<open>An open empties the pipe and wakes no one. A writer that sleeps because the pipe is
  full sleeps on when another process opens the pipe, and with an empty pipe before it the reader
  goes to sleep as well: neither can go on, though there is space.\<close>

theorem pipe_open_deadlock:
  "\<exists>tr s. pipe_reach small_pipe_globals (pipe_start 2) tr s \<and>
     map pr_pc (ps_procs s) = [W_sleep False, R_sleep False] \<and>
     pipe_content (ps_dev s) = [] \<and> spacefree (ps_dev s) = Done 1 \<and>
     list_all (\<lambda>p. pipe_proc_step False p (ps_dev s) = Block) (ps_procs s)"
  by (rule stuck_reach) (intro exI conjI)

end
