(* ===== verification/Scull_Access.thy ===== *)
theory Scull_Access
  imports Scull_Main
begin

text \<open>
  The access-controlled devices: Kernel/Driver/scull/access.c. Their files use the read, write
  and llseek of the bare device; what differs is open and release. The sections under a spin
  lock and the operations of \<open>atomic_t\<close> are single steps.
\<close>

section \<open>State\<close>

text \<open>The identity of the caller: \<open>current->cred\<close> and \<open>capable(CAP_DAC_OVERRIDE)\<close>.\<close>

record cred =
  cr_uid :: int
  cr_euid :: int
  cr_override :: bool

record scull_listitem =
  cl_at :: addr
  cl_device :: scull_dev
  cl_key :: int

record scull_access =
  s_device :: scull_dev
  s_available :: int
  u_device :: scull_dev
  u_count :: int
  u_owner :: int
  w_device :: scull_dev
  w_count :: int
  w_owner :: int
  c_device :: scull_dev
  c_list :: "scull_listitem list"

text \<open>A cleared \<open>struct scull_dev\<close>, as in static storage or after \<open>memset\<close>.\<close>

definition zero_dev :: scull_dev where
  "zero_dev = \<lparr>dev_data = [], dev_quantum = 0, dev_qset = 0, dev_size = 0, dev_access_key = 0,
     dev_sem = 0\<rparr>"

definition access_boot :: scull_access where
  "access_boot = \<lparr>s_device = zero_dev, s_available = 1, u_device = zero_dev, u_count = 0,
     u_owner = 0, w_device = zero_dev, w_count = 0, w_owner = 0, c_device = zero_dev, c_list = []\<rparr>"

section \<open>Operations\<close>

text \<open>\<open>if ((filp->f_flags & O_ACCMODE) == O_WRONLY) scull_trim(dev);\<close>, without the semaphore.\<close>

definition trim_on_open ::
    "scull_globals \<Rightarrow> int \<Rightarrow> scull_dev \<Rightarrow> kmem \<Rightarrow> (scull_dev \<times> kmem) outcome" where
  "trim_on_open g f_flags dev k = (if write_only f_flags then scull_trim g dev k else Done (dev, k))"

subsection \<open>The device that is open once\<close>

definition atomic_dec_and_test :: "int \<Rightarrow> bool \<times> int" where
  "atomic_dec_and_test v = (s32 (v - 1) = 0, s32 (v - 1))"

definition atomic_inc :: "int \<Rightarrow> int" where
  "atomic_inc v = s32 (v + 1)"

definition scull_s_open ::
    "scull_globals \<Rightarrow> int \<Rightarrow> scull_access \<Rightarrow> kmem \<Rightarrow>
     ((errno + int) \<times> scull_access \<times> kmem) outcome" where
  "scull_s_open g f_flags st k =
     (case atomic_dec_and_test (s_available st) of
        (False, v) \<Rightarrow> Done (Inl EBUSY, st\<lparr>s_available := atomic_inc v\<rparr>, k)
      | (True, v) \<Rightarrow>
          let st = st\<lparr>s_available := v\<rparr> in
          and_then (trim_on_open g f_flags (s_device st) k) (\<lambda>(dev, k).
            Done (Inr 0, st\<lparr>s_device := dev\<rparr>, k)))"

definition scull_s_release :: "scull_access \<Rightarrow> (errno + int) \<times> scull_access" where
  "scull_s_release st = (Inr 0, st\<lparr>s_available := atomic_inc (s_available st)\<rparr>)"

subsection \<open>The device of one user\<close>

text \<open>The section under \<open>scull_u_lock\<close>; \<open>None\<close> is \<open>EBUSY\<close>.\<close>

definition u_enter :: "cred \<Rightarrow> scull_access \<Rightarrow> scull_access option" where
  "u_enter c st =
     (if u_count st \<noteq> 0 \<and> u_owner st \<noteq> cr_uid c \<and> u_owner st \<noteq> cr_euid c \<and> \<not> cr_override c
      then None
      else
        let st = (if u_count st = 0 then st\<lparr>u_owner := cr_uid c\<rparr> else st)
        in Some (st\<lparr>u_count := s32 (u_count st + 1)\<rparr>))"

definition scull_u_open ::
    "scull_globals \<Rightarrow> cred \<Rightarrow> int \<Rightarrow> scull_access \<Rightarrow> kmem \<Rightarrow>
     ((errno + int) \<times> scull_access \<times> kmem) outcome" where
  "scull_u_open g c f_flags st k =
     (case u_enter c st of
        None \<Rightarrow> Done (Inl EBUSY, st, k)
      | Some st \<Rightarrow>
          and_then (trim_on_open g f_flags (u_device st) k) (\<lambda>(dev, k).
            Done (Inr 0, st\<lparr>u_device := dev\<rparr>, k)))"

definition scull_u_release :: "scull_access \<Rightarrow> (errno + int) \<times> scull_access" where
  "scull_u_release st = (Inr 0, st\<lparr>u_count := s32 (u_count st - 1)\<rparr>)"

subsection \<open>The device of one user that makes others wait\<close>

definition scull_w_available :: "cred \<Rightarrow> scull_access \<Rightarrow> bool" where
  "scull_w_available c st \<longleftrightarrow>
     w_count st = 0 \<or> w_owner st = cr_uid c \<or> w_owner st = cr_euid c \<or> cr_override c"

definition w_enter :: "cred \<Rightarrow> scull_access \<Rightarrow> scull_access option" where
  "w_enter c st =
     (if \<not> scull_w_available c st then None
      else
        let st = (if w_count st = 0 then st\<lparr>w_owner := cr_uid c\<rparr> else st)
        in Some (st\<lparr>w_count := s32 (w_count st + 1)\<rparr>))"

text \<open>A caller that has to wait is blocked until another process changes the state; it then
  takes the lock and tests again.\<close>

definition scull_w_open ::
    "scull_globals \<Rightarrow> bool \<Rightarrow> cred \<Rightarrow> int \<Rightarrow> scull_access \<Rightarrow> kmem \<Rightarrow>
     ((errno + int) \<times> scull_access \<times> kmem) outcome" where
  "scull_w_open g sig c f_flags st k =
     (case w_enter c st of
        None \<Rightarrow>
          if nonblocking f_flags then Done (Inl EAGAIN, st, k)
          else if sig then Done (Inl ERESTARTSYS, st, k)
          else Block
      | Some st \<Rightarrow>
          and_then (trim_on_open g f_flags (w_device st) k) (\<lambda>(dev, k).
            Done (Inr 0, st\<lparr>w_device := dev\<rparr>, k)))"

text \<open>The second result is whether the waiting processes are woken.\<close>

definition scull_w_release :: "scull_access \<Rightarrow> (errno + int) \<times> bool \<times> scull_access" where
  "scull_w_release st =
     (let st = st\<lparr>w_count := s32 (w_count st - 1)\<rparr> in (Inr 0, w_count st = 0, st))"

subsection \<open>The device of a terminal\<close>

fun clone_index :: "int \<Rightarrow> scull_listitem list \<Rightarrow> nat option" where
  "clone_index key [] = None"
| "clone_index key (c # cs) =
     (if cl_key c = key then Some 0 else map_option Suc (clone_index key cs))"

text \<open>The result is the index in the list. \<open>sz\<close> is \<open>sizeof(struct scull_listitem)\<close>.\<close>

definition scull_c_lookfor_device ::
    "scull_globals \<Rightarrow> int \<Rightarrow> int \<Rightarrow> scull_listitem list \<Rightarrow> kmem \<Rightarrow>
     (nat option \<times> scull_listitem list \<times> kmem) outcome" where
  "scull_c_lookfor_device g sz key cs k =
     (case clone_index key cs of
        Some i \<Rightarrow> Done (Some i, cs, k)
      | None \<Rightarrow>
          (case kmalloc sz k of
             (None, k) \<Rightarrow> Done (None, cs, k)
           | (Some a, k) \<Rightarrow>
               and_then (scull_trim g zero_dev k) (\<lambda>(dev, k).
                 Done (Some 0,
                   \<lparr>cl_at = a, cl_device = dev\<lparr>dev_sem := 1\<rparr>, cl_key = key\<rparr> # cs, k))))"

text \<open>\<open>tty\<close> is the device number of the caller's terminal, if it has one.\<close>

definition scull_c_open ::
    "scull_globals \<Rightarrow> int \<Rightarrow> int option \<Rightarrow> int \<Rightarrow> scull_access \<Rightarrow> kmem \<Rightarrow>
     ((errno + int) \<times> scull_access \<times> kmem) outcome" where
  "scull_c_open g sz tty f_flags st k =
     (case tty of
        None \<Rightarrow> Done (Inl EINVAL, st, k)
      | Some key \<Rightarrow>
          and_then (scull_c_lookfor_device g sz key (c_list st) k) (\<lambda>(i, cs, k).
            let st = st\<lparr>c_list := cs\<rparr> in
            case i of
              None \<Rightarrow> Done (Inl ENOMEM, st, k)
            | Some i \<Rightarrow>
                and_then (trim_on_open g f_flags (cl_device (cs ! i)) k) (\<lambda>(dev, k).
                  Done (Inr 0, st\<lparr>c_list := cs[i := (cs ! i)\<lparr>cl_device := dev\<rparr>]\<rparr>, k))))"

definition scull_c_release :: "scull_access \<Rightarrow> (errno + int) \<times> scull_access" where
  "scull_c_release st = (Inr 0, st)"

section \<open>One open at a time\<close>

text \<open>Processes on the single-open device, interleaved at the atomic operations: closed, about
  to undo a failed decrement, granted, open.\<close>

datatype single_pc = S_closed | S_backing_off | S_granted | S_open

fun single_step :: "single_pc \<Rightarrow> int \<Rightarrow> single_pc \<times> int" where
  "single_step S_closed v =
     (case atomic_dec_and_test v of (ok, v) \<Rightarrow> (if ok then S_granted else S_backing_off, v))"
| "single_step S_backing_off v = (S_closed, atomic_inc v)"
| "single_step S_granted v = (S_open, v)"
| "single_step S_open v = (S_closed, atomic_inc v)"

inductive single_reach :: "nat \<Rightarrow> int \<Rightarrow> single_pc list \<Rightarrow> bool" for n :: nat where
  "single_reach n 1 (replicate n S_closed)"
| "single_reach n v pcs \<Longrightarrow> i < length pcs \<Longrightarrow> single_step (pcs ! i) v = (pc, v') \<Longrightarrow>
    single_reach n v' (pcs[i := pc])"

fun single_owner :: "single_pc \<Rightarrow> bool" where
  "single_owner S_granted = True"
| "single_owner S_open = True"
| "single_owner _ = False"

lemma single_reach_count:
  assumes "single_reach n v pcs" "n < 1073741824"
  shows "v = 1 - num single_owner pcs - num ((=) S_backing_off) pcs \<and> num single_owner pcs \<le> 1 \<and>
    length pcs = n"
  using assms
proof induction
  case 1
  then show ?case by (simp add: num_def)
next
  case (2 v pcs i pc v')
  let ?b = "num ((=) S_backing_off) pcs" and ?o = "num single_owner pcs"
  have inv: "v = 1 - ?o - ?b" "?o \<le> 1" "length pcs = n" using 2 by auto
  have b: "0 \<le> ?b" "?b \<le> int n" "0 \<le> ?o" using inv(3) num_le [of "(=) S_backing_off" pcs] by auto
  then have v: "s32 (v - 1) = v - 1" "s32 (v + 1) = v + 1"
    using inv(1,2) b \<open>n < 1073741824\<close> by (intro s32_id; linarith)+
  show ?case
    using 2(2,3) inv v b
    by (cases "pcs ! i")
      (auto simp: num_update atomic_dec_and_test_def atomic_inc_def simp del: num_nonneg split: if_splits)
qed

section \<open>Devices of one user\<close>

text \<open>Who may use a device that belongs to \<open>owner\<close>.\<close>

definition permitted :: "int \<Rightarrow> cred \<Rightarrow> bool" where
  "permitted owner c \<longleftrightarrow> owner = cr_uid c \<or> owner = cr_euid c \<or> cr_override c"

text \<open>The contract of a lock that the processes of one user can hold together. \<open>files\<close> are the
  credentials of those that have passed it and not yet left.\<close>

locale user_lock =
  fixes enter :: "cred \<Rightarrow> 's \<Rightarrow> 's option" and leave :: "'s \<Rightarrow> 's"
    and holders :: "'s \<Rightarrow> int" and owner :: "'s \<Rightarrow> int"
  assumes enter_law: "\<lbrakk>0 \<le> holders s; holders s < 2147483647\<rbrakk> \<Longrightarrow>
      (case enter c s of
         None \<Rightarrow> 0 < holders s \<and> \<not> permitted (owner s) c
       | Some s' \<Rightarrow> holders s' = holders s + 1 \<and>
           (if holders s = 0 then owner s' = cr_uid c else owner s' = owner s \<and> permitted (owner s) c))"
    and leave_law: "0 < holders s \<Longrightarrow> holders s < 2147483648 \<Longrightarrow>
      holders (leave s) = holders s - 1 \<and> owner (leave s) = owner s"
begin

definition consistent :: "'s \<Rightarrow> cred list \<Rightarrow> bool" where
  "consistent s files \<longleftrightarrow> holders s = int (length files) \<and> length files < 2147483647 \<and>
     list_all (permitted (owner s)) files"

lemma enter_consistent:
  assumes "consistent s files" "enter c s = Some s'" "length files < 2147483646"
  shows "consistent s' (c # files)"
  using assms enter_law [of s c]
  by (auto simp: consistent_def permitted_def split: if_splits)

lemma leave_consistent:
  assumes "consistent s files" "c \<in> set files"
  shows "consistent (leave s) (remove1 c files)"
proof -
  have "0 < length files" using assms(2) by (auto simp: length_pos_if_in_set)
  moreover from this have "int (length files - Suc 0) = int (length files) - 1"
    by (simp add: of_nat_diff Suc_leI del: length_greater_0_conv)
  ultimately show ?thesis
    using assms leave_law [of s] set_remove1_subset [of c files]
    by (auto simp: consistent_def length_remove1 list_all_iff)
qed

lemma enter_refused:
  assumes "consistent s files"
  shows "enter c s = None \<longleftrightarrow> files \<noteq> [] \<and> \<not> permitted (owner s) c"
  using assms enter_law [of s c] by (auto simp: consistent_def split: option.splits if_splits)

end

interpretation u_lock: user_lock u_enter "\<lambda>st. snd (scull_u_release st)" u_count u_owner
  by unfold_locales (auto simp: u_enter_def permitted_def scull_u_release_def s32_id)

interpretation w_lock: user_lock w_enter "\<lambda>st. snd (snd (scull_w_release st))" w_count w_owner
  by unfold_locales (auto simp: w_enter_def scull_w_available_def permitted_def scull_w_release_def
      Let_def s32_id)

text \<open>The files on the sculluid device: a state with the credentials of those who have it open.
  The contents of the devices may change in between.\<close>

inductive u_reach :: "scull_globals \<Rightarrow> scull_access \<Rightarrow> cred list \<Rightarrow> bool" for g :: scull_globals where
  u_start: "u_count st = 0 \<Longrightarrow> u_reach g st []"
| u_opened: "u_reach g st files \<Longrightarrow> length files < 2147483646 \<Longrightarrow>
    scull_u_open g c f_flags st k = Done (Inr 0, st', k') \<Longrightarrow> u_reach g st' (c # files)"
| u_released: "u_reach g st files \<Longrightarrow> c \<in> set files \<Longrightarrow> scull_u_release st = (ret, st') \<Longrightarrow>
    u_reach g st' (remove1 c files)"
| u_used: "u_reach g st files \<Longrightarrow> u_reach g (st\<lparr>u_device := dev\<rparr>) files"

text \<open>And on the scullwuid device.\<close>

inductive w_reach :: "scull_globals \<Rightarrow> scull_access \<Rightarrow> cred list \<Rightarrow> bool" for g :: scull_globals where
  w_start: "w_count st = 0 \<Longrightarrow> w_reach g st []"
| w_opened: "w_reach g st files \<Longrightarrow> length files < 2147483646 \<Longrightarrow>
    scull_w_open g sig c f_flags st k = Done (Inr 0, st', k') \<Longrightarrow> w_reach g st' (c # files)"
| w_released: "w_reach g st files \<Longrightarrow> c \<in> set files \<Longrightarrow> scull_w_release st = (ret, wake, st') \<Longrightarrow>
    w_reach g st' (remove1 c files)"
| w_used: "w_reach g st files \<Longrightarrow> w_reach g (st\<lparr>w_device := dev\<rparr>) files"

lemma u_open_enter:
  assumes "scull_u_open g c f_flags st k = Done (Inr 0, st', k')"
  shows "\<exists>s dev. u_enter c st = Some s \<and> st' = s\<lparr>u_device := dev\<rparr>"
  using assms by (auto simp: scull_u_open_def and_then_Done_iff split: option.splits)

lemma w_open_enter:
  assumes "scull_w_open g sig c f_flags st k = Done (Inr 0, st', k')"
  shows "\<exists>s dev. w_enter c st = Some s \<and> st' = s\<lparr>w_device := dev\<rparr>"
  using assms by (auto simp: scull_w_open_def and_then_Done_iff split: option.splits if_splits)

lemma consistent_device [simp]:
  "u_lock.consistent (st\<lparr>u_device := dev\<rparr>) files = u_lock.consistent st files"
  "w_lock.consistent (st\<lparr>w_device := dev\<rparr>) files = w_lock.consistent st files"
  by (simp_all add: u_lock.consistent_def w_lock.consistent_def)

lemma u_reach_consistent: "u_reach g st files \<Longrightarrow> u_lock.consistent st files"
proof (induction rule: u_reach.induct)
  case (u_opened st files c f_flags k st' k')
  then show ?case using u_open_enter u_lock.enter_consistent by fastforce
next
  case (u_released st files c ret st')
  then show ?case using u_lock.leave_consistent by fastforce
qed (simp_all add: u_lock.consistent_def)

lemma w_reach_consistent: "w_reach g st files \<Longrightarrow> w_lock.consistent st files"
proof (induction rule: w_reach.induct)
  case (w_opened st files sig c f_flags k st' k')
  then show ?case using w_open_enter w_lock.enter_consistent by fastforce
next
  case (w_released st files c ret wake st')
  then show ?case using w_lock.leave_consistent by fastforce
qed (simp_all add: w_lock.consistent_def)

section \<open>Devices of terminals\<close>

definition clone_map :: "scull_listitem list \<Rightarrow> int \<Rightarrow> scull_dev option" where
  "clone_map cs = map_of (map (\<lambda>c. (cl_key c, cl_device c)) cs)"

lemma clone_index_map:
  "clone_index key cs = None \<longleftrightarrow> clone_map cs key = None"
  "clone_index key cs = Some i \<Longrightarrow> i < length cs \<and> cl_key (cs ! i) = key \<and>
     clone_map cs key = Some (cl_device (cs ! i))"
  by (induction cs arbitrary: i) (auto simp: clone_map_def split: if_splits)

lemma clone_map_update:
  "clone_index key cs = Some i \<Longrightarrow>
     clone_map (cs[i := (cs ! i)\<lparr>cl_device := dev\<rparr>]) = (clone_map cs)(key \<mapsto> dev)"
proof (induction cs arbitrary: i)
  case (Cons c cs)
  then show ?case
    by (cases "cl_key c = key") (auto simp: clone_map_def fun_eq_iff)
qed simp

section \<open>Memory of the devices\<close>

definition clone_addrs :: "scull_listitem list \<Rightarrow> addr list" where
  "clone_addrs cs = concat (map (\<lambda>c. scull_addrs (cl_device c) @ [cl_at c]) cs)"

definition access_addrs :: "scull_access \<Rightarrow> addr list" where
  "access_addrs st = scull_addrs (s_device st) @ scull_addrs (u_device st) @
     scull_addrs (w_device st) @ scull_addrs (c_device st) @ clone_addrs (c_list st)"

lemma zero_dev_simps [simp]: "scull_addrs zero_dev = []" "dev_data zero_dev = []"
  by (simp_all add: zero_dev_def scull_addrs_def)

lemma trim_zero_dev:
  "scull_trim g zero_dev k = Done (zero_dev\<lparr>dev_quantum := g_quantum g, dev_qset := g_qset g\<rparr>, k)"
  by (simp add: scull_trim_def zero_dev_def)

text \<open>A device in use: well formed, and as many items as trim expects.\<close>

lemma trim_on_open_result:
  assumes "scull_wf dev" "owns (scull_addrs dev @ f) k"
  obtains dev' k' where "trim_on_open g f_flags dev k = Done (dev', k')"
    "owns (scull_addrs dev' @ f) k'" "sane_globals g \<Longrightarrow> scull_wf dev'" "dev_sem dev' = dev_sem dev"
    "\<not> write_only f_flags \<Longrightarrow> dev' = dev \<and> k' = k"
    "write_only f_flags \<Longrightarrow> dev' = dev\<lparr>dev_size := 0, dev_quantum := g_quantum g,
       dev_qset := g_qset g, dev_data := []\<rparr>"
proof (cases "write_only f_flags")
  case False
  then show ?thesis using assms by (intro that [of dev k]) (auto simp: trim_on_open_def)
next
  case True
  obtain k' where "scull_trim g dev k = Done (dev\<lparr>dev_size := 0, dev_quantum := g_quantum g,
       dev_qset := g_qset g, dev_data := []\<rparr>, k')" "owns f k'"
    by (rule scull_trim_result [OF assms]) (rule that)
  with True show ?thesis
    by (intro that) (auto simp: trim_on_open_def scull_addrs_def sane_globals_def scull_wf_def)
qed

lemma trim_on_open_accounted:
  assumes "scull_wf dev" "owns (scull_addrs dev @ f) k" "trim_on_open g f_flags dev k = Done (dev', k')"
  shows "accounted k (scull_addrs dev @ f) k' (scull_addrs dev' @ f)"
proof (cases "write_only f_flags")
  case False
  then show ?thesis using assms(3) by (simp add: trim_on_open_def)
next
  case True
  obtain k1 where k1: "scull_trim g dev k = Done (dev\<lparr>dev_size := 0, dev_quantum := g_quantum g,
       dev_qset := g_qset g, dev_data := []\<rparr>, k1)" "owns f k1"
       "km_live k1 = km_live k |` (- set (scull_addrs dev))"
    by (rule scull_trim_result [OF assms(1,2)]) (rule that)
  then have "k' = k1" "scull_addrs dev' = []"
    using True assms(3) by (auto simp: trim_on_open_def scull_addrs_def)
  then show ?thesis using k1 by (auto simp: accounted_def Int_commute)
qed

lemma clone_addrs_update:
  assumes "i < length cs"
  shows "mset (clone_addrs (cs[i := (cs ! i)\<lparr>cl_device := d\<rparr>])) =
    mset (scull_addrs d @ [cl_at (cs ! i)] @ clone_addrs (take i cs) @ clone_addrs (drop (Suc i) cs))"
  using assms by (simp add: upd_conv_take_nth_drop clone_addrs_def)

lemma clone_addrs_nth:
  assumes "i < length cs"
  shows "mset (clone_addrs cs) =
    mset (scull_addrs (cl_device (cs ! i)) @ [cl_at (cs ! i)] @ clone_addrs (take i cs) @
      clone_addrs (drop (Suc i) cs))"
  using clone_addrs_update [OF assms, of "cl_device (cs ! i)"] assms by (simp add: list_update_id)

lemma clone_open_device:
  assumes i: "clone_index key cs = Some i" and wf: "list_all (\<lambda>c. scull_wf (cl_device c)) cs"
    and ow: "owns (clone_addrs cs @ f) k"
  obtains dev k' where "trim_on_open g f_flags (cl_device (cs ! i)) k = Done (dev, k')"
    "clone_map (cs[i := (cs ! i)\<lparr>cl_device := dev\<rparr>]) = (clone_map cs)(key \<mapsto> dev)"
    "accounted k (clone_addrs cs @ f) k' (clone_addrs (cs[i := (cs ! i)\<lparr>cl_device := dev\<rparr>]) @ f)"
    "if write_only f_flags then dev = (cl_device (cs ! i))\<lparr>dev_size := 0, dev_quantum := g_quantum g,
       dev_qset := g_qset g, dev_data := []\<rparr> else dev = cl_device (cs ! i)"
proof -
  let ?rest = "[cl_at (cs ! i)] @ clone_addrs (take i cs) @ clone_addrs (drop (Suc i) cs) @ f"
  have lt: "i < length cs" using clone_index_map(2) [OF i] by simp
  have w: "scull_wf (cl_device (cs ! i))" using wf lt by (simp add: list_all_length)
  have ms: "mset (clone_addrs cs @ f) = mset (scull_addrs (cl_device (cs ! i)) @ ?rest)"
    using clone_addrs_nth [OF lt] by simp
  then have o: "owns (scull_addrs (cl_device (cs ! i)) @ ?rest) k" using ow owns_mset by blast
  obtain dev k' where t: "trim_on_open g f_flags (cl_device (cs ! i)) k = Done (dev, k')"
    "\<not> write_only f_flags \<Longrightarrow> dev = cl_device (cs ! i) \<and> k' = k"
    "write_only f_flags \<Longrightarrow> dev = (cl_device (cs ! i))\<lparr>dev_size := 0, dev_quantum := g_quantum g,
       dev_qset := g_qset g, dev_data := []\<rparr>"
    by (rule trim_on_open_result [OF w o, of g f_flags]) (rule that)
  have "mset (clone_addrs (cs[i := (cs ! i)\<lparr>cl_device := dev\<rparr>]) @ f) = mset (scull_addrs dev @ ?rest)"
    using clone_addrs_update [OF lt, of dev] by simp
  with ms trim_on_open_accounted [OF w o t(1)]
  have "accounted k (clone_addrs cs @ f) k' (clone_addrs (cs[i := (cs ! i)\<lparr>cl_device := dev\<rparr>]) @ f)"
    using accounted_mset by blast
  with t show ?thesis by (intro that [OF t(1) clone_map_update [OF i]]) auto
qed

section \<open>Properties\<close>

text \<open>C36: whatever the interleaving of the atomic operations of any number of processes, at
  most one has the single-open device, and the counter says how many have it or are about to undo
  a failed attempt.\<close>

theorem scull_s_exclusive:
  assumes "single_reach n v pcs" "n < 1073741824"
  shows "length (filter single_owner pcs) \<le> 1 \<and>
    v = 1 - int (length (filter single_owner pcs)) - int (length (filter ((=) S_backing_off) pcs))"
  using single_reach_count [OF assms] by (simp add: num_def)

lemma scull_s_exclusive_witness:
  "single_reach 2 (- 1) [S_granted, S_backing_off] \<and>
   length (filter single_owner [S_granted, S_backing_off]) \<le> 1"
proof -
  have "single_reach 2 0 ((replicate 2 S_closed)[0 := S_granted])"
    by (rule single_reach.intros(2) [OF single_reach.intros(1)])
      (simp_all add: atomic_dec_and_test_def s32_def)
  then have "single_reach 2 (- 1) (((replicate 2 S_closed)[0 := S_granted])[1 := S_backing_off])"
    by (rule single_reach.intros(2)) (simp_all add: atomic_dec_and_test_def s32_def)
  then have r: "single_reach 2 (- 1) [S_granted, S_backing_off]" by (simp add: numeral_2_eq_2)
  from scull_s_exclusive [OF this] r show ?thesis by simp
qed

text \<open>Everyone who has the sculluid device open is its owner, took the owner's identity or
  may override the check; the count is the number of open files; and an open fails exactly when
  the device is open and the caller is not permitted.\<close>

theorem scull_u_same_user:
  assumes "u_reach g st files"
  shows "list_all (permitted (u_owner st)) files \<and> u_count st = int (length files) \<and>
    (u_enter c st = None \<longleftrightarrow> files \<noteq> [] \<and> \<not> permitted (u_owner st) c)"
  using u_reach_consistent [OF assms] u_lock.enter_refused [of st files c]
  by (simp add: u_lock.consistent_def)

definition user_cred :: "int \<Rightarrow> cred" where
  "user_cred uid = \<lparr>cr_uid = uid, cr_euid = uid, cr_override = False\<rparr>"

lemma scull_u_same_user_witness:
  "\<exists>st. u_reach scull_default_globals st [user_cred 7] \<and> u_count st = 1 \<and> u_enter (user_cred 8) st = None"
proof -
  let ?st = "access_boot\<lparr>u_owner := 7, u_count := 1\<rparr>"
  have "scull_u_open scull_default_globals (user_cred 7) 0 access_boot fresh_kmem =
      Done (Inr 0, ?st\<lparr>u_device := u_device ?st\<rparr>, fresh_kmem)"
    by (simp add: scull_u_open_def u_enter_def trim_on_open_def write_only_def O_WRONLY_def
        access_boot_def user_cred_def s32_def)
  then have r: "u_reach scull_default_globals ?st [user_cred 7]"
    using u_reach.u_opened [OF u_reach.u_start, of access_boot] by (simp add: access_boot_def)
  from scull_u_same_user [OF this, of "user_cred 8"] have "u_enter (user_cred 8) ?st = None"
    by (simp add: permitted_def user_cred_def access_boot_def)
  with r show ?thesis by (intro exI [of _ ?st]) simp
qed

text \<open>The same for the scullwuid device, whose callers wait: the one that gets in is
  permitted, and the last to leave wakes those who wait.\<close>

theorem scull_w_same_user:
  assumes "w_reach g st files"
  shows "list_all (permitted (w_owner st)) files \<and> w_count st = int (length files) \<and>
    (w_enter c st = None \<longleftrightarrow> files \<noteq> [] \<and> \<not> permitted (w_owner st) c) \<and>
    (length files = 1 \<longrightarrow> fst (snd (scull_w_release st)))"
  using w_reach_consistent [OF assms] w_lock.enter_refused [of st files c]
  by (simp add: w_lock.consistent_def scull_w_release_def s32_def)

lemma scull_w_same_user_witness:
  "\<exists>st. w_reach scull_default_globals st [user_cred 7] \<and> w_count st = 1 \<and>
     w_enter (user_cred 8) st = None \<and> fst (snd (scull_w_release st))"
proof -
  let ?st = "access_boot\<lparr>w_owner := 7, w_count := 1\<rparr>"
  have "scull_w_open scull_default_globals False (user_cred 7) 0 access_boot fresh_kmem =
      Done (Inr 0, ?st\<lparr>w_device := w_device ?st\<rparr>, fresh_kmem)"
    by (simp add: scull_w_open_def w_enter_def scull_w_available_def trim_on_open_def
        write_only_def O_WRONLY_def access_boot_def user_cred_def s32_def)
  then have r: "w_reach scull_default_globals ?st [user_cred 7]"
    using w_reach.w_opened [OF w_reach.w_start, of access_boot] by (simp add: access_boot_def)
  from scull_w_same_user [OF this, of "user_cred 8"]
  have "w_enter (user_cred 8) ?st = None" "fst (snd (scull_w_release ?st))"
    by (simp_all add: permitted_def user_cred_def access_boot_def)
  with r show ?thesis by (intro exI [of _ ?st]) simp
qed

text \<open>An open on a terminal finds the device of that terminal, or makes an empty one with
  the current parameters, or reports that memory has run out. The devices of the other terminals
  are as before, memory is accounted for, and nothing crashes.\<close>

theorem scull_c_open_private:
  assumes "list_all (\<lambda>c. scull_wf (cl_device c)) (c_list st)" "sane_globals g"
    and "owns (clone_addrs (c_list st) @ f) k"
  shows "\<exists>ret st' k'. scull_c_open g sz (Some key) f_flags st k = Done (ret, st', k') \<and>
    accounted k (clone_addrs (c_list st) @ f) k' (clone_addrs (c_list st') @ f) \<and>
    (case ret of
       Inl e \<Rightarrow> e = ENOMEM \<and> st' = st \<and> clone_map (c_list st) key = None
     | Inr v \<Rightarrow> v = 0 \<and> (\<exists>dev. clone_map (c_list st') = (clone_map (c_list st))(key \<mapsto> dev) \<and>
         (if write_only f_flags then dev_data dev = [] \<and> dev_size dev = 0
          else case clone_map (c_list st) key of
            Some d \<Rightarrow> dev = d
          | None \<Rightarrow> dev = zero_dev\<lparr>dev_quantum := g_quantum g, dev_qset := g_qset g, dev_sem := 1\<rparr>)))"
proof (cases "clone_index key (c_list st)")
  case (Some i)
  obtain dev k' where d: "trim_on_open g f_flags (cl_device (c_list st ! i)) k = Done (dev, k')"
    "clone_map ((c_list st)[i := (c_list st ! i)\<lparr>cl_device := dev\<rparr>]) = (clone_map (c_list st))(key \<mapsto> dev)"
    "accounted k (clone_addrs (c_list st) @ f) k'
       (clone_addrs ((c_list st)[i := (c_list st ! i)\<lparr>cl_device := dev\<rparr>]) @ f)"
    "if write_only f_flags then dev = (cl_device (c_list st ! i))\<lparr>dev_size := 0,
       dev_quantum := g_quantum g, dev_qset := g_qset g, dev_data := []\<rparr>
     else dev = cl_device (c_list st ! i)"
    by (rule clone_open_device [OF Some assms(1,3), of g f_flags]) (rule that)
  then show ?thesis
    using Some clone_index_map(2) [OF Some]
    by (auto simp: scull_c_open_def scull_c_lookfor_device_def split: if_splits)
next
  case None
  then have cm: "clone_map (c_list st) key = None" using clone_index_map(1) by blast
  obtain q k1 where km: "kmalloc sz k = (q, k1)" by fastforce
  show ?thesis
  proof (cases q)
    case None
    with km \<open>clone_index key (c_list st) = None\<close> cm kmalloc_accounted(2) [of sz k k1] show ?thesis
      by (simp add: scull_c_open_def scull_c_lookfor_device_def)
  next
    case (Some a)
    let ?new = "zero_dev\<lparr>dev_quantum := g_quantum g, dev_qset := g_qset g, dev_sem := 1\<rparr>"
    let ?cs = "\<lparr>cl_at = a, cl_device = ?new, cl_key = key\<rparr> # c_list st"
    have look: "scull_c_lookfor_device g sz key (c_list st) k = Done (Some 0, ?cs, k1)"
      using km Some None by (simp add: scull_c_lookfor_device_def trim_zero_dev)
    have "scull_wf ?new" using assms(2) by (simp add: scull_wf_def sane_globals_def zero_dev_def)
    then have wf: "list_all (\<lambda>c. scull_wf (cl_device c)) ?cs" using assms(1) by simp
    have acc: "accounted k (clone_addrs (c_list st) @ f) k1 (clone_addrs ?cs @ f)"
      using kmalloc_accounted(1) [of sz k a k1] km Some by (simp add: clone_addrs_def scull_addrs_def zero_dev_def)
    then have ow: "owns (clone_addrs ?cs @ f) k1" using assms(3) by (simp add: accounted_def)
    have i: "clone_index key ?cs = Some 0" by simp
    obtain dev k' where d: "trim_on_open g f_flags (cl_device (?cs ! 0)) k1 = Done (dev, k')"
      "clone_map (?cs[0 := (?cs ! 0)\<lparr>cl_device := dev\<rparr>]) = (clone_map ?cs)(key \<mapsto> dev)"
      "accounted k1 (clone_addrs ?cs @ f) k' (clone_addrs (?cs[0 := (?cs ! 0)\<lparr>cl_device := dev\<rparr>]) @ f)"
      "if write_only f_flags then dev = (cl_device (?cs ! 0))\<lparr>dev_size := 0,
         dev_quantum := g_quantum g, dev_qset := g_qset g, dev_data := []\<rparr>
       else dev = cl_device (?cs ! 0)"
      by (rule clone_open_device [OF i wf ow, of g f_flags]) (rule that)
    have "clone_map ?cs = (clone_map (c_list st))(key \<mapsto> ?new)" by (auto simp: clone_map_def)
    then show ?thesis
      using look d accounted_trans [OF acc d(3)] cm
      by (auto simp: scull_c_open_def split: if_splits)
  qed
qed

lemma scull_c_open_private_witness:
  "\<exists>st' k' dev. scull_c_open scull_default_globals 100 (Some 5) 0 access_boot fresh_kmem =
     Done (Inr 0, st', k') \<and> clone_map (c_list st') = [5 \<mapsto> dev] \<and> dev_quantum dev = 4000"
proof -
  have "owns (clone_addrs (c_list access_boot) @ []) fresh_kmem" "sane_globals scull_default_globals"
    by (simp_all add: owns_def access_boot_def clone_addrs_def sane_globals_def geometry_def
        scull_default_globals_def SCULL_QUANTUM_def SCULL_QSET_def)
  from scull_c_open_private [OF _ this(2,1), of 100 5 0] obtain ret st' k' where
    r: "scull_c_open scull_default_globals 100 (Some 5) 0 access_boot fresh_kmem = Done (ret, st', k')"
    "case ret of
       Inl e \<Rightarrow> e = ENOMEM \<and> st' = access_boot \<and> clone_map (c_list access_boot) 5 = None
     | Inr v \<Rightarrow> v = 0 \<and> (\<exists>dev. clone_map (c_list st') = (clone_map (c_list access_boot))(5 \<mapsto> dev) \<and>
         (if write_only 0 then dev_data dev = [] \<and> dev_size dev = 0
          else case clone_map (c_list access_boot) 5 of
            Some d \<Rightarrow> dev = d
          | None \<Rightarrow> dev = zero_dev\<lparr>dev_quantum := g_quantum scull_default_globals,
              dev_qset := g_qset scull_default_globals, dev_sem := 1\<rparr>))"
    by (auto simp: access_boot_def)
  moreover have "ret \<noteq> Inl ENOMEM"
    using r(1) by (auto simp: scull_c_open_def scull_c_lookfor_device_def access_boot_def kmalloc_def
        fresh_kmem_def u64_def trim_zero_dev trim_on_open_def write_only_def O_WRONLY_def)
  moreover have "\<not> write_only 0" by code_simp
  ultimately show ?thesis
    by (cases ret) (auto simp: access_boot_def clone_map_def scull_default_globals_def SCULL_QUANTUM_def)
qed

text \<open>None of these opens takes the device semaphore. An open for writing only frees the
  items of the device while another process, which holds the semaphore, reads or writes them;
  \<open>scull_open\<close> waits in that state.\<close>

theorem access_open_ignores_semaphore:
  assumes "scull_wf dev" "owns (scull_addrs dev) k" "write_only f_flags" "dev_sem dev = 0"
  shows "scull_open g False f_flags dev k = Block \<and>
    (\<exists>k'. scull_u_open g c f_flags (st\<lparr>u_device := dev, u_count := 1, u_owner := cr_uid c\<rparr>) k =
         Done (Inr 0, st\<lparr>u_device := dev\<lparr>dev_size := 0, dev_quantum := g_quantum g,
           dev_qset := g_qset g, dev_data := []\<rparr>, u_count := 2, u_owner := cr_uid c\<rparr>, k') \<and>
       dom (km_live k') \<inter> set (scull_addrs dev) = {})"
proof -
  obtain k' where "scull_trim g dev k = Done (dev\<lparr>dev_size := 0, dev_quantum := g_quantum g,
       dev_qset := g_qset g, dev_data := []\<rparr>, k')" "owns [] k'"
       "km_live k' = km_live k |` (- set (scull_addrs dev))"
    using scull_trim_result [OF assms(1), of "[]" k g] assms(2) by (metis append_Nil2)
  moreover have "scull_open g False f_flags dev k = Block"
    using assms(3,4) by (simp add: scull_open_def down_interruptible_def)
  ultimately show ?thesis
    using assms(3)
    by (auto simp: scull_u_open_def u_enter_def trim_on_open_def s32_def)
qed

lemma access_open_ignores_semaphore_witness:
  "scull_open scull_default_globals False 1 (used_dev\<lparr>dev_sem := 0\<rparr>) used_mem = Block \<and>
   (\<exists>st k'. scull_u_open scull_default_globals (user_cred 7) 1
      (access_boot\<lparr>u_device := used_dev\<lparr>dev_sem := 0\<rparr>, u_count := 1, u_owner := 7\<rparr>) used_mem =
      Done (Inr 0, st, k'))"
proof -
  have "write_only 1" by code_simp
  moreover have "scull_wf (used_dev\<lparr>dev_sem := 0\<rparr>)" "scull_addrs (used_dev\<lparr>dev_sem := 0\<rparr>) = scull_addrs used_dev"
    using example_devs(2) by (simp_all add: scull_wf_def scull_addrs_def)
  ultimately show ?thesis
    using access_open_ignores_semaphore [of "used_dev\<lparr>dev_sem := 0\<rparr>" used_mem 1 scull_default_globals
        "user_cred 7" access_boot]
    by (auto simp: user_cred_def)
qed

end
