(* ===== verification/Scull_Module.thy ===== *)
theory Scull_Module
  imports Scull_Pipe Scull_Access
begin

text \<open>
  Loading and unloading: \<open>scull_init_module\<close> and \<open>scull_cleanup_module\<close> of
  Kernel/Driver/scull/main.c with the \<open>init\<close> and \<open>cleanup\<close> functions of pipe.c and access.c,
  over the kernel's registries of device numbers, character devices and proc entries.
\<close>

section \<open>The kernel's registries\<close>

text \<open>
  \<open>kn_regions\<close> holds the registered ranges of device numbers, \<open>kn_cdevs\<close> the numbers that have
  a device, \<open>kn_procs\<close> the proc entries. Registration \<open>n\<close> fails when \<open>kn_refuse n\<close> says so, and a
  range also when it overlaps a registered one; \<open>kn_major\<close> is the major number the kernel hands
  out. \<open>kn_warned\<close> is set when a \<open>struct cdev\<close> is deleted that was never initialised, or whose
  only reference has been dropped.
\<close>

record kern =
  kn_mem :: kmem
  kn_regions :: "(int \<times> int) list"
  kn_cdevs :: "int list"
  kn_procs :: "string list"
  kn_next :: nat
  kn_refuse :: "nat \<Rightarrow> bool"
  kn_major :: int
  kn_warned :: bool

datatype cdev = Cdev_zero | Cdev_inited | Cdev_added int | Cdev_put

definition MKDEV :: "int \<Rightarrow> int \<Rightarrow> int" where
  "MKDEV major minor = s32 (or (major * 1048576) minor)"

definition overlaps :: "int \<times> int \<Rightarrow> int \<times> int \<Rightarrow> bool" where
  "overlaps r s \<longleftrightarrow> fst r < fst s + snd s \<and> fst s < fst r + snd r"

definition register_chrdev_region :: "int \<Rightarrow> int \<Rightarrow> kern \<Rightarrow> (errno + int) \<times> kern" where
  "register_chrdev_region first n kn =
     (let no = kn_next kn; kn = kn\<lparr>kn_next := Suc no\<rparr> in
      if kn_refuse kn no \<or> list_ex (overlaps (first, n)) (kn_regions kn) then (Inl EBUSY, kn)
      else (Inr 0, kn\<lparr>kn_regions := (first, n) # kn_regions kn\<rparr>))"

definition alloc_chrdev_region :: "int \<Rightarrow> int \<Rightarrow> kern \<Rightarrow> (errno + int) \<times> kern" where
  "alloc_chrdev_region minor n kn =
     (case register_chrdev_region (MKDEV (kn_major kn) minor) n kn of
        (Inl e, kn) \<Rightarrow> (Inl e, kn)
      | (Inr _, kn) \<Rightarrow> (Inr (kn_major kn), kn))"

definition unregister_chrdev_region :: "int \<Rightarrow> int \<Rightarrow> kern \<Rightarrow> kern" where
  "unregister_chrdev_region first n kn = kn\<lparr>kn_regions := remove1 (first, n) (kn_regions kn)\<rparr>"

definition cdev_add :: "int \<Rightarrow> kern \<Rightarrow> cdev \<times> kern" where
  "cdev_add devno kn =
     (let no = kn_next kn; kn = kn\<lparr>kn_next := Suc no\<rparr> in
      if kn_refuse kn no then (Cdev_inited, kn)
      else (Cdev_added devno, kn\<lparr>kn_cdevs := devno # kn_cdevs kn\<rparr>))"

definition cdev_del :: "cdev \<Rightarrow> kern \<Rightarrow> kern" where
  "cdev_del c kn =
     (case c of
        Cdev_zero \<Rightarrow> kn\<lparr>kn_warned := True\<rparr>
      | Cdev_put \<Rightarrow> kn\<lparr>kn_warned := True\<rparr>
      | Cdev_inited \<Rightarrow> kn
      | Cdev_added devno \<Rightarrow> kn\<lparr>kn_cdevs := remove1 devno (kn_cdevs kn)\<rparr>)"

definition create_proc :: "string \<Rightarrow> kern \<Rightarrow> kern" where
  "create_proc name kn = kn\<lparr>kn_procs := name # kn_procs kn\<rparr>"

definition remove_proc_entry :: "string \<Rightarrow> kern \<Rightarrow> kern" where
  "remove_proc_entry name kn = kn\<lparr>kn_procs := remove1 name (kn_procs kn)\<rparr>"

section \<open>The module\<close>

record scull_module =
  md_globals :: scull_globals
  md_major :: int
  md_minor :: int
  md_nr_devs :: int
  md_devices :: "(addr \<times> (scull_dev \<times> cdev) list) option"
  md_p_nr_devs :: int
  md_p_devno :: int
  md_p_devices :: "(addr \<times> (scull_pipe \<times> cdev) list) option"
  md_access :: scull_access
  md_a_cdevs :: "cdev list"
  md_a_firstdev :: int
  md_debug :: bool

definition SCULL_MAJOR :: int where "SCULL_MAJOR = 0"
definition SCULL_NR_DEVS :: int where "SCULL_NR_DEVS = 4"
definition SCULL_P_NR_DEVS :: int where "SCULL_P_NR_DEVS = 4"
definition SCULL_N_ADEVS :: int where "SCULL_N_ADEVS = 4"

text \<open>The variables of the module before \<open>init\<close>, with the default parameters. \<open>md_debug\<close> says
  whether the module is built with \<open>DEBUG=y\<close>, which defines \<open>SCULL_DEBUG\<close> for pipe.c; main.c
  defines it itself.\<close>

definition scull_boot :: scull_module where
  "scull_boot =
     \<lparr>md_globals = scull_default_globals, md_major = SCULL_MAJOR, md_minor = 0,
      md_nr_devs = SCULL_NR_DEVS, md_devices = None, md_p_nr_devs = SCULL_P_NR_DEVS,
      md_p_devno = 0, md_p_devices = None, md_access = access_boot,
      md_a_cdevs = replicate 4 Cdev_zero, md_a_firstdev = 0, md_debug = False\<rparr>"

text \<open>\<open>sizeof\<close> of the structures, which depend on the kernel's configuration.\<close>

record struct_sizes =
  sz_dev :: int
  sz_pipe :: int

subsection \<open>Bare devices\<close>

definition scull_setup_cdev :: "scull_module \<Rightarrow> nat \<Rightarrow> kern \<Rightarrow> cdev \<times> kern" where
  "scull_setup_cdev md i kn = cdev_add (MKDEV (md_major md) (md_minor md + int i)) kn"

definition scull_new_dev :: "scull_globals \<Rightarrow> scull_dev" where
  "scull_new_dev g = zero_dev\<lparr>dev_quantum := g_quantum g, dev_qset := g_qset g, dev_sem := 1\<rparr>"

fun scull_setup_devs :: "scull_module \<Rightarrow> nat \<Rightarrow> nat \<Rightarrow> kern \<Rightarrow> (scull_dev \<times> cdev) list \<times> kern" where
  "scull_setup_devs md i 0 kn = ([], kn)"
| "scull_setup_devs md i (Suc n) kn =
     (case scull_setup_cdev md i kn of
        (c, kn) \<Rightarrow>
          (case scull_setup_devs md (Suc i) n kn of
             (ds, kn) \<Rightarrow> ((scull_new_dev (md_globals md), c) # ds, kn)))"

fun scull_cleanup_devs :: "scull_globals \<Rightarrow> (scull_dev \<times> cdev) list \<Rightarrow> kern \<Rightarrow> kern outcome" where
  "scull_cleanup_devs g [] kn = Done kn"
| "scull_cleanup_devs g ((dev, c) # ds) kn =
     and_then (scull_trim g dev (kn_mem kn)) (\<lambda>(dev, k).
       scull_cleanup_devs g ds (cdev_del c (kn\<lparr>kn_mem := k\<rparr>)))"

definition scull_create_proc :: "kern \<Rightarrow> kern" where
  "scull_create_proc kn = create_proc ''scullseq'' (create_proc ''scullmem'' kn)"

definition scull_remove_proc :: "kern \<Rightarrow> kern" where
  "scull_remove_proc kn = remove_proc_entry ''scullseq'' (remove_proc_entry ''scullmem'' kn)"

subsection \<open>Pipes\<close>

definition scull_p_setup_cdev :: "int \<Rightarrow> nat \<Rightarrow> kern \<Rightarrow> cdev \<times> kern" where
  "scull_p_setup_cdev devno i kn = cdev_add (s32 (devno + int i)) kn"

fun scull_p_setup_devs :: "int \<Rightarrow> nat \<Rightarrow> nat \<Rightarrow> kern \<Rightarrow> (scull_pipe \<times> cdev) list \<times> kern" where
  "scull_p_setup_devs devno i 0 kn = ([], kn)"
| "scull_p_setup_devs devno i (Suc n) kn =
     (case scull_p_setup_cdev devno i kn of
        (c, kn) \<Rightarrow>
          (case scull_p_setup_devs devno (Suc i) n kn of
             (ps, kn) \<Rightarrow> ((clear_pipe, c) # ps, kn)))"

definition scull_p_create_proc :: "scull_module \<Rightarrow> kern \<Rightarrow> kern" where
  "scull_p_create_proc md kn = (if md_debug md then create_proc ''scullpipe'' kn else kn)"

definition scull_p_remove_proc :: "scull_module \<Rightarrow> kern \<Rightarrow> kern" where
  "scull_p_remove_proc md kn = (if md_debug md then remove_proc_entry ''scullpipe'' kn else kn)"

text \<open>The result is the number of devices, which is 0 when something failed.\<close>

definition scull_p_init :: "struct_sizes \<Rightarrow> int \<Rightarrow> scull_module \<Rightarrow> kern \<Rightarrow> int \<times> scull_module \<times> kern" where
  "scull_p_init sz firstdev md kn =
     (case register_chrdev_region firstdev (md_p_nr_devs md) kn of
        (Inl _, kn) \<Rightarrow> (0, md, kn)
      | (Inr _, kn) \<Rightarrow>
          let md = md\<lparr>md_p_devno := firstdev\<rparr> in
          (case kmalloc (md_p_nr_devs md * sz_pipe sz) (kn_mem kn) of
             (None, k) \<Rightarrow>
               (0, md, unregister_chrdev_region firstdev (md_p_nr_devs md) (kn\<lparr>kn_mem := k\<rparr>))
           | (Some a, k) \<Rightarrow>
               (case scull_p_setup_devs firstdev 0 (nat (md_p_nr_devs md)) (kn\<lparr>kn_mem := k\<rparr>) of
                  (ps, kn) \<Rightarrow>
                    (md_p_nr_devs md, md\<lparr>md_p_devices := Some (a, ps)\<rparr>, scull_p_create_proc md kn))))"

fun scull_p_cleanup_devs :: "(scull_pipe \<times> cdev) list \<Rightarrow> kern \<Rightarrow> kern outcome" where
  "scull_p_cleanup_devs [] kn = Done kn"
| "scull_p_cleanup_devs ((p, c) # ps) kn =
     (let kn = cdev_del c kn in
      and_then (case p_buffer p of None \<Rightarrow> Done (kn_mem kn) | Some b \<Rightarrow> kfree (fst b) (kn_mem kn)) (\<lambda>k.
        scull_p_cleanup_devs ps (kn\<lparr>kn_mem := k\<rparr>)))"

definition scull_p_cleanup :: "scull_module \<Rightarrow> kern \<Rightarrow> (scull_module \<times> kern) outcome" where
  "scull_p_cleanup md kn =
     (let kn = scull_p_remove_proc md kn in
      case md_p_devices md of
        None \<Rightarrow> Done (md, kn)
      | Some (a, ps) \<Rightarrow>
          and_then (scull_p_cleanup_devs ps kn) (\<lambda>kn.
          and_then (kfree a (kn_mem kn)) (\<lambda>k.
            Done (md\<lparr>md_p_devices := None\<rparr>,
              unregister_chrdev_region (md_p_devno md) (md_p_nr_devs md) (kn\<lparr>kn_mem := k\<rparr>)))))"

subsection \<open>Access-controlled devices\<close>

text \<open>When \<open>cdev_add\<close> fails the reference to the \<open>cdev\<close> is dropped.\<close>

definition scull_access_setup :: "scull_globals \<Rightarrow> int \<Rightarrow> scull_dev \<Rightarrow> kern \<Rightarrow> scull_dev \<times> cdev \<times> kern" where
  "scull_access_setup g devno dev kn =
     (case cdev_add devno kn of
        (c, kn) \<Rightarrow> (dev\<lparr>dev_quantum := g_quantum g, dev_qset := g_qset g, dev_sem := 1\<rparr>,
          if c = Cdev_inited then Cdev_put else c, kn))"

definition scull_access_init :: "int \<Rightarrow> scull_module \<Rightarrow> kern \<Rightarrow> int \<times> scull_module \<times> kern" where
  "scull_access_init firstdev md kn =
     (case register_chrdev_region firstdev SCULL_N_ADEVS kn of
        (Inl _, kn) \<Rightarrow> (0, md, kn)
      | (Inr _, kn) \<Rightarrow>
          let g = md_globals md; st = md_access md in
          (case scull_access_setup g firstdev (s_device st) kn of (sd, sc, kn) \<Rightarrow>
           case scull_access_setup g (firstdev + 1) (u_device st) kn of (ud, uc, kn) \<Rightarrow>
           case scull_access_setup g (firstdev + 2) (w_device st) kn of (wd, wc, kn) \<Rightarrow>
           case scull_access_setup g (firstdev + 3) (c_device st) kn of (cd, cc, kn) \<Rightarrow>
             (SCULL_N_ADEVS,
              md\<lparr>md_a_firstdev := firstdev, md_a_cdevs := [sc, uc, wc, cc],
                 md_access := st\<lparr>s_device := sd, u_device := ud, w_device := wd, c_device := cd\<rparr>\<rparr>,
              kn)))"

fun scull_cleanup_clones :: "scull_globals \<Rightarrow> scull_listitem list \<Rightarrow> kmem \<Rightarrow> kmem outcome" where
  "scull_cleanup_clones g [] k = Done k"
| "scull_cleanup_clones g (c # cs) k =
     and_then (scull_trim g (cl_device c) k) (\<lambda>(dev, k).
     and_then (kfree (cl_at c) k) (scull_cleanup_clones g cs))"

fun scull_cleanup_adevs :: "scull_globals \<Rightarrow> (scull_dev \<times> cdev) list \<Rightarrow> kern \<Rightarrow> kern outcome" where
  "scull_cleanup_adevs g [] kn = Done kn"
| "scull_cleanup_adevs g ((dev, c) # ds) kn =
     (let kn = cdev_del c kn in
      and_then (scull_trim g dev (kn_mem kn)) (\<lambda>(dev, k).
        scull_cleanup_adevs g ds (kn\<lparr>kn_mem := k\<rparr>)))"

definition scull_access_cleanup :: "scull_module \<Rightarrow> kern \<Rightarrow> kern outcome" where
  "scull_access_cleanup md kn =
     (let st = md_access md; g = md_globals md in
      and_then (scull_cleanup_adevs g
          (zip [s_device st, u_device st, w_device st, c_device st] (md_a_cdevs md)) kn) (\<lambda>kn.
      and_then (scull_cleanup_clones g (c_list st) (kn_mem kn)) (\<lambda>k.
        Done (unregister_chrdev_region (md_a_firstdev md) SCULL_N_ADEVS (kn\<lparr>kn_mem := k\<rparr>)))))"

subsection \<open>Init and cleanup\<close>

definition scull_cleanup_module :: "scull_module \<Rightarrow> kern \<Rightarrow> (scull_module \<times> kern) outcome" where
  "scull_cleanup_module md kn =
     (let devno = MKDEV (md_major md) (md_minor md) in
      and_then
        (case md_devices md of
           None \<Rightarrow> Done kn
         | Some (a, ds) \<Rightarrow>
             and_then (scull_cleanup_devs (md_globals md) ds kn) (\<lambda>kn.
             and_then (kfree a (kn_mem kn)) (\<lambda>k. Done (kn\<lparr>kn_mem := k\<rparr>)))) (\<lambda>kn.
      let kn = scull_remove_proc kn;
          kn = unregister_chrdev_region devno (md_nr_devs md) kn
      in and_then (scull_p_cleanup md kn) (\<lambda>(md, kn).
         and_then (scull_access_cleanup md kn) (\<lambda>kn. Done (md, kn)))))"

definition scull_get_region :: "scull_module \<Rightarrow> kern \<Rightarrow> (errno + int) \<times> scull_module \<times> kern" where
  "scull_get_region md kn =
     (if md_major md \<noteq> 0
      then case register_chrdev_region (MKDEV (md_major md) (md_minor md)) (md_nr_devs md) kn of
             (r, kn) \<Rightarrow> (r, md, kn)
      else case alloc_chrdev_region (md_minor md) (md_nr_devs md) kn of
             (Inl e, kn) \<Rightarrow> (Inl e, md, kn)
           | (Inr major, kn) \<Rightarrow> (Inr 0, md\<lparr>md_major := major\<rparr>, kn))"

definition scull_init_module ::
    "struct_sizes \<Rightarrow> scull_module \<Rightarrow> kern \<Rightarrow> ((errno + int) \<times> scull_module \<times> kern) outcome" where
  "scull_init_module sz md kn =
     (case scull_get_region md kn of
        (Inl e, md, kn) \<Rightarrow> Done (Inl e, md, kn)
      | (Inr _, md, kn) \<Rightarrow>
          (case kmalloc (md_nr_devs md * sz_dev sz) (kn_mem kn) of
             (None, k) \<Rightarrow>
               and_then (scull_cleanup_module md (kn\<lparr>kn_mem := k\<rparr>)) (\<lambda>(md, kn).
                 Done (Inl ENOMEM, md, kn))
           | (Some a, k) \<Rightarrow>
               (case scull_setup_devs md 0 (nat (md_nr_devs md)) (kn\<lparr>kn_mem := k\<rparr>) of
                  (ds, kn) \<Rightarrow>
                    let md = md\<lparr>md_devices := Some (a, ds)\<rparr>;
                        dev = MKDEV (md_major md) (md_minor md + md_nr_devs md)
                    in case scull_p_init sz dev md kn of
                         (n, md, kn) \<Rightarrow>
                           (case scull_access_init (dev + n) md kn of
                              (n, md, kn) \<Rightarrow> Done (Inr 0, md, scull_create_proc kn)))))"

section \<open>What the module holds\<close>

definition devs_addrs :: "(scull_dev \<times> cdev) list \<Rightarrow> addr list" where
  "devs_addrs ds = concat (map (\<lambda>d. scull_addrs (fst d)) ds)"

definition pipe_addrs :: "scull_pipe \<Rightarrow> addr list" where
  "pipe_addrs p = (case p_buffer p of None \<Rightarrow> [] | Some b \<Rightarrow> [fst b])"

definition pipes_addrs :: "(scull_pipe \<times> cdev) list \<Rightarrow> addr list" where
  "pipes_addrs ps = concat (map (\<lambda>p. pipe_addrs (fst p)) ps)"

definition md_dev_addrs :: "scull_module \<Rightarrow> addr list" where
  "md_dev_addrs md = (case md_devices md of None \<Rightarrow> [] | Some (a, ds) \<Rightarrow> devs_addrs ds @ [a])"

definition md_pipe_addrs :: "scull_module \<Rightarrow> addr list" where
  "md_pipe_addrs md = (case md_p_devices md of None \<Rightarrow> [] | Some (a, ps) \<Rightarrow> pipes_addrs ps @ [a])"

definition module_addrs :: "scull_module \<Rightarrow> addr list" where
  "module_addrs md = md_dev_addrs md @ md_pipe_addrs md @ access_addrs (md_access md)"

fun cdev_no :: "cdev \<Rightarrow> int list" where
  "cdev_no (Cdev_added n) = [n]"
| "cdev_no _ = []"

definition cdev_nos :: "cdev list \<Rightarrow> int list" where
  "cdev_nos cs = concat (map cdev_no cs)"

fun dangling :: "cdev \<Rightarrow> bool" where
  "dangling Cdev_zero = True"
| "dangling Cdev_put = True"
| "dangling _ = False"

definition module_cdevs :: "scull_module \<Rightarrow> int list" where
  "module_cdevs md =
     (case md_devices md of None \<Rightarrow> [] | Some (a, ds) \<Rightarrow> cdev_nos (map snd ds)) @
     (case md_p_devices md of None \<Rightarrow> [] | Some (a, ps) \<Rightarrow> cdev_nos (map snd ps)) @
     cdev_nos (md_a_cdevs md)"

definition has_access :: "scull_module \<Rightarrow> bool" where
  "has_access md \<longleftrightarrow> Cdev_zero \<notin> set (md_a_cdevs md)"

definition module_regions :: "scull_module \<Rightarrow> (int \<times> int) list" where
  "module_regions md = [(MKDEV (md_major md) (md_minor md), md_nr_devs md)] @
     (if md_p_devices md = None then [] else [(md_p_devno md, md_p_nr_devs md)]) @
     (if has_access md then [(md_a_firstdev md, SCULL_N_ADEVS)] else [])"

definition pipe_proc_entries :: "scull_module \<Rightarrow> string list" where
  "pipe_proc_entries md = (if md_debug md then [''scullpipe''] else [])"

definition module_procs :: "scull_module \<Rightarrow> string list" where
  "module_procs md = [''scullmem'', ''scullseq''] @ (if md_p_devices md = None then [] else pipe_proc_entries md)"

text \<open>Every device can be trimmed, and no two of bare and pipe devices have lost their
  \<open>cdev\<close>.\<close>

definition trim_ok :: "scull_dev \<Rightarrow> bool" where
  "trim_ok dev \<longleftrightarrow> dev_data dev = [] \<or> scull_wf dev"

definition module_ok :: "scull_module \<Rightarrow> bool" where
  "module_ok md \<longleftrightarrow>
     (case md_devices md of None \<Rightarrow> True
      | Some (a, ds) \<Rightarrow> list_all (\<lambda>d. trim_ok (fst d) \<and> \<not> dangling (snd d)) ds) \<and>
     (case md_p_devices md of None \<Rightarrow> True
      | Some (a, ps) \<Rightarrow> list_all (\<lambda>p. \<not> dangling (snd p)) ps) \<and>
     trim_ok (s_device (md_access md)) \<and> trim_ok (u_device (md_access md)) \<and>
     trim_ok (w_device (md_access md)) \<and> trim_ok (c_device (md_access md)) \<and>
     list_all (\<lambda>c. trim_ok (cl_device c)) (c_list (md_access md)) \<and> length (md_a_cdevs md) = 4"

section \<open>Cleaning up\<close>

lemma trim_ok_result:
  assumes "trim_ok dev" "owns (scull_addrs dev @ f) k"
  obtains dev' k' where "scull_trim g dev k = Done (dev', k')" "owns f k'"
    "km_live k' = km_live k |` (- set (scull_addrs dev))"
proof (cases "dev_data dev = []")
  case True
  then show ?thesis
    using assms(2) by (intro that [of _ k]) (auto simp: scull_trim_def scull_addrs_def)
next
  case False
  then have "scull_wf dev" using assms(1) by (simp add: trim_ok_def)
  from scull_trim_result [OF this assms(2), of g] show ?thesis by (rule scull_trim_result) (use assms(2) \<open>scull_wf dev\<close> that in auto)
qed

text \<open>What a cleanup step does: the objects \<open>xs\<close>, the devices \<open>cs\<close>, the regions \<open>rs\<close> and the
  proc entries \<open>ps\<close> are gone, the rest of the kernel is as it was, and deleting a dangling \<open>cdev\<close>
  is noticed.\<close>

definition cleaned ::
    "kern \<Rightarrow> addr list \<Rightarrow> cdev list \<Rightarrow> (int \<times> int) list \<Rightarrow> string list \<Rightarrow> kern \<Rightarrow> bool" where
  "cleaned kn xs cs rs ps kn' \<longleftrightarrow>
     km_live (kn_mem kn') = km_live (kn_mem kn) |` (- set xs) \<and>
     mset (kn_cdevs kn') = mset (kn_cdevs kn) - mset (cdev_nos cs) \<and>
     mset (kn_regions kn') = mset (kn_regions kn) - mset rs \<and>
     mset (kn_procs kn') = mset (kn_procs kn) - mset ps \<and>
     (kn_warned kn' \<longleftrightarrow> kn_warned kn \<or> list_ex dangling cs)"

lemma cdev_del_cleaned:
  "kn_mem (cdev_del c kn) = kn_mem kn" "mset (kn_cdevs (cdev_del c kn)) = mset (kn_cdevs kn) - mset (cdev_no c)"
  "kn_regions (cdev_del c kn) = kn_regions kn" "kn_procs (cdev_del c kn) = kn_procs kn"
  "kn_warned (cdev_del c kn) \<longleftrightarrow> kn_warned kn \<or> dangling c"
  by (cases c; simp add: cdev_del_def)+

lemma restrict_restrict_set: "(m |` (- set xs)) |` (- set ys) = m |` (- set (xs @ ys))"
  by (auto simp: restrict_map_def fun_eq_iff)

lemma cleanup_devs_result:
  assumes "list_all (\<lambda>d. trim_ok (fst d)) ds" "owns (devs_addrs ds @ f) (kn_mem kn)"
  shows "\<exists>kn'. scull_cleanup_devs g ds kn = Done kn' \<and> owns f (kn_mem kn') \<and>
    cleaned kn (devs_addrs ds) (map snd ds) [] [] kn'"
  using assms
proof (induction ds arbitrary: kn)
  case Nil
  then show ?case by (simp add: devs_addrs_def cleaned_def cdev_nos_def restrict_map_def)
next
  case (Cons d ds)
  obtain dev c where d: "d = (dev, c)" by fastforce
  have "owns (scull_addrs dev @ (devs_addrs ds @ f)) (kn_mem kn)" "trim_ok dev"
    using Cons.prems d by (simp_all add: devs_addrs_def)
  then obtain dev' k where t: "scull_trim g dev (kn_mem kn) = Done (dev', k)"
      "owns (devs_addrs ds @ f) k" "km_live k = km_live (kn_mem kn) |` (- set (scull_addrs dev))"
    using trim_ok_result by metis
  let ?kn = "cdev_del c (kn\<lparr>kn_mem := k\<rparr>)"
  obtain kn' where k': "scull_cleanup_devs g ds ?kn = Done kn'" "owns f (kn_mem kn')"
      "cleaned ?kn (devs_addrs ds) (map snd ds) [] [] kn'"
    using Cons.IH [of ?kn] Cons.prems t(2) by (auto simp: cdev_del_cleaned)
  have "cleaned kn (devs_addrs (d # ds)) (map snd (d # ds)) [] [] kn'"
    using k'(3) t(3) d
    by (simp add: cleaned_def cdev_del_cleaned devs_addrs_def cdev_nos_def restrict_restrict_set)
  with k' t(1) d show ?case by simp
qed

lemma cleanup_adevs_result:
  assumes "list_all (\<lambda>d. trim_ok (fst d)) ds" "owns (devs_addrs ds @ f) (kn_mem kn)"
  shows "\<exists>kn'. scull_cleanup_adevs g ds kn = Done kn' \<and> owns f (kn_mem kn') \<and>
    cleaned kn (devs_addrs ds) (map snd ds) [] [] kn'"
  using assms
proof (induction ds arbitrary: kn)
  case Nil
  then show ?case by (simp add: devs_addrs_def cleaned_def cdev_nos_def restrict_map_def)
next
  case (Cons d ds)
  obtain dev c where d: "d = (dev, c)" by fastforce
  have "owns (scull_addrs dev @ (devs_addrs ds @ f)) (kn_mem kn)" "trim_ok dev"
    using Cons.prems d by (simp_all add: devs_addrs_def)
  then obtain dev' k where t: "scull_trim g dev (kn_mem kn) = Done (dev', k)"
      "owns (devs_addrs ds @ f) k" "km_live k = km_live (kn_mem kn) |` (- set (scull_addrs dev))"
    using trim_ok_result by metis
  let ?kn = "(cdev_del c kn)\<lparr>kn_mem := k\<rparr>"
  obtain kn' where k': "scull_cleanup_adevs g ds ?kn = Done kn'" "owns f (kn_mem kn')"
      "cleaned ?kn (devs_addrs ds) (map snd ds) [] [] kn'"
    using Cons.IH [of ?kn] Cons.prems t(2) by auto
  have "cleaned kn (devs_addrs (d # ds)) (map snd (d # ds)) [] [] kn'"
    using k'(3) t(3) d
    by (simp add: cleaned_def cdev_del_cleaned devs_addrs_def cdev_nos_def restrict_restrict_set)
  with k' t(1) d show ?case by (simp add: cdev_del_cleaned)
qed

lemma p_cleanup_devs_result:
  assumes "owns (pipes_addrs ps @ f) (kn_mem kn)"
  shows "\<exists>kn'. scull_p_cleanup_devs ps kn = Done kn' \<and> owns f (kn_mem kn') \<and>
    cleaned kn (pipes_addrs ps) (map snd ps) [] [] kn'"
  using assms
proof (induction ps arbitrary: kn)
  case Nil
  then show ?case by (simp add: pipes_addrs_def cleaned_def cdev_nos_def restrict_map_def)
next
  case (Cons p ps)
  obtain dev c where p: "p = (dev, c)" by fastforce
  have "owns (pipe_addrs dev @ (pipes_addrs ps @ f)) (kn_mem kn)"
    using Cons.prems p by (simp add: pipes_addrs_def)
  from kfree_all_accounted [OF this] obtain k where
    t: "kfree_all (pipe_addrs dev) (kn_mem kn) = Done k" "owns (pipes_addrs ps @ f) k"
      "km_live k = km_live (kn_mem kn) |` (- set (pipe_addrs dev))" by blast
  have fr: "(case p_buffer dev of None \<Rightarrow> Done (kn_mem (cdev_del c kn))
      | Some b \<Rightarrow> kfree (fst b) (kn_mem (cdev_del c kn))) = Done k"
    using t(1) by (auto simp: pipe_addrs_def and_then_Done_iff cdev_del_cleaned split: option.splits)
  let ?kn = "(cdev_del c kn)\<lparr>kn_mem := k\<rparr>"
  obtain kn' where k': "scull_p_cleanup_devs ps ?kn = Done kn'" "owns f (kn_mem kn')"
      "cleaned ?kn (pipes_addrs ps) (map snd ps) [] [] kn'"
    using Cons.IH [of ?kn] t(2) by auto
  have "cleaned kn (pipes_addrs (p # ps)) (map snd (p # ps)) [] [] kn'"
    using k'(3) t(3) p
    by (simp add: cleaned_def cdev_del_cleaned pipes_addrs_def cdev_nos_def restrict_restrict_set)
  with k' fr p show ?case by (simp add: Let_def)
qed

lemma cleanup_clones_result:
  assumes "list_all (\<lambda>c. trim_ok (cl_device c)) cs" "owns (clone_addrs cs @ f) k"
  shows "\<exists>k'. scull_cleanup_clones g cs k = Done k' \<and> owns f k' \<and>
    km_live k' = km_live k |` (- set (clone_addrs cs))"
  using assms
proof (induction cs arbitrary: k)
  case Nil
  then show ?case by (simp add: clone_addrs_def restrict_map_def)
next
  case (Cons c cs)
  have "owns (scull_addrs (cl_device c) @ (cl_at c # clone_addrs cs @ f)) k" "trim_ok (cl_device c)"
    using Cons.prems by (simp_all add: clone_addrs_def)
  then obtain dev' k1 where t: "scull_trim g (cl_device c) k = Done (dev', k1)"
      "owns ([cl_at c] @ (clone_addrs cs @ f)) k1"
      "km_live k1 = km_live k |` (- set (scull_addrs (cl_device c)))"
    using trim_ok_result by (metis append_Cons append_Nil)
  from kfree_all_accounted [OF t(2)] obtain k2 where
    f: "kfree (cl_at c) k1 = Done k2" "owns (clone_addrs cs @ f) k2"
      "km_live k2 = km_live k1 |` (- {cl_at c})" by (auto simp: and_then_Done_iff)
  obtain k' where k': "scull_cleanup_clones g cs k2 = Done k'" "owns f k'"
      "km_live k' = km_live k2 |` (- set (clone_addrs cs))"
    using Cons.IH [of k2] Cons.prems f(2) by auto
  have "km_live k' = km_live k |` (- set (clone_addrs (c # cs)))"
    using k'(3) f(3) t(3) by (auto simp: clone_addrs_def restrict_map_def fun_eq_iff)
  with k' f(1) t(1) show ?case by simp
qed

lemma cdev_nos_append [simp]: "cdev_nos (xs @ ys) = cdev_nos xs @ cdev_nos ys"
  by (simp add: cdev_nos_def)

lemma cleaned_trans:
  "cleaned kn xs cs rs ps kn1 \<Longrightarrow> cleaned kn1 ys ds qs ts kn2 \<Longrightarrow>
     cleaned kn (xs @ ys) (cs @ ds) (rs @ qs) (ps @ ts) kn2"
  by (auto simp: cleaned_def restrict_restrict_set diff_diff_add_mset add_ac)

lemma cleaned_refl [simp]: "cleaned kn [] [] [] [] kn"
  by (simp add: cleaned_def cdev_nos_def restrict_map_def)

lemma cleaned_mem:
  "km_live k = km_live (kn_mem kn) |` (- set xs) \<Longrightarrow> cleaned kn xs [] [] [] (kn\<lparr>kn_mem := k\<rparr>)"
  by (simp add: cleaned_def cdev_nos_def)

lemma cleaned_region: "cleaned kn [] [] [(first, n)] [] (unregister_chrdev_region first n kn)"
  by (simp add: cleaned_def cdev_nos_def unregister_chrdev_region_def restrict_map_def)

lemma cleaned_proc: "cleaned kn [] [] [] [name] (remove_proc_entry name kn)"
  by (simp add: cleaned_def cdev_nos_def remove_proc_entry_def restrict_map_def)

lemma cleaned_p_proc: "cleaned kn [] [] [] (pipe_proc_entries md) (scull_p_remove_proc md kn)"
  using cleaned_proc by (simp add: scull_p_remove_proc_def pipe_proc_entries_def)

lemma scull_p_remove_proc_mem [simp]: "kn_mem (scull_p_remove_proc md kn) = kn_mem kn"
  by (simp add: scull_p_remove_proc_def remove_proc_entry_def)

lemma unregister_mem [simp]:
  "kn_mem (unregister_chrdev_region first n kn) = kn_mem kn"
  "kn_mem (remove_proc_entry name kn) = kn_mem kn"
  by (simp_all add: unregister_chrdev_region_def remove_proc_entry_def)

lemma kfree_owned:
  assumes "owns (a # f) k"
  obtains k' where "kfree a k = Done k'" "owns f k'" "km_live k' = km_live k |` (- set [a])"
  using kfree_all_accounted [of "[a]" f k] assms by (auto simp: and_then_Done_iff)

lemma p_cleanup_result:
  assumes "owns (md_pipe_addrs md @ f) (kn_mem kn)"
  shows "\<exists>kn'. scull_p_cleanup md kn = Done (md\<lparr>md_p_devices := None\<rparr>, kn') \<and> owns f (kn_mem kn') \<and>
    cleaned kn (md_pipe_addrs md)
      (case md_p_devices md of None \<Rightarrow> [] | Some (a, ps) \<Rightarrow> map snd ps)
      (case md_p_devices md of None \<Rightarrow> [] | Some _ \<Rightarrow> [(md_p_devno md, md_p_nr_devs md)])
      (pipe_proc_entries md) kn'"
proof (cases "md_p_devices md")
  case None
  then have "md\<lparr>md_p_devices := None\<rparr> = md" by simp
  with None assms cleaned_p_proc [of kn md] show ?thesis
    by (simp add: scull_p_cleanup_def md_pipe_addrs_def)
next
  case (Some q)
  obtain a ps where q: "q = (a, ps)" by fastforce
  let ?kn = "scull_p_remove_proc md kn"
  have "owns (pipes_addrs ps @ (a # f)) (kn_mem ?kn)"
    using assms Some q by (simp add: md_pipe_addrs_def)
  from p_cleanup_devs_result [OF this] obtain kn1 where
    c1: "scull_p_cleanup_devs ps ?kn = Done kn1" "owns (a # f) (kn_mem kn1)"
      "cleaned ?kn (pipes_addrs ps) (map snd ps) [] [] kn1" by blast
  obtain k where k: "kfree a (kn_mem kn1) = Done k" "owns f k" "km_live k = km_live (kn_mem kn1) |` (- set [a])"
    by (rule kfree_owned [OF c1(2)])
  let ?kn' = "unregister_chrdev_region (md_p_devno md) (md_p_nr_devs md) (kn1\<lparr>kn_mem := k\<rparr>)"
  have "cleaned kn ([] @ pipes_addrs ps @ [a] @ []) ([] @ map snd ps @ [] @ [])
      ([] @ [] @ [] @ [(md_p_devno md, md_p_nr_devs md)]) (pipe_proc_entries md @ [] @ [] @ []) ?kn'"
    by (intro cleaned_trans [OF cleaned_p_proc] cleaned_trans [OF c1(3)]
        cleaned_trans [OF cleaned_mem [OF k(3)]] cleaned_region)
  with c1 k Some q show ?thesis by (simp add: scull_p_cleanup_def md_pipe_addrs_def)
qed

lemma access_cleanup_result:
  assumes ok: "module_ok md" and ow: "owns (access_addrs (md_access md) @ f) (kn_mem kn)"
  shows "\<exists>kn'. scull_access_cleanup md kn = Done kn' \<and> owns f (kn_mem kn') \<and>
    cleaned kn (access_addrs (md_access md)) (md_a_cdevs md) [(md_a_firstdev md, SCULL_N_ADEVS)] [] kn'"
proof -
  let ?st = "md_access md"
  let ?ds = "zip [s_device ?st, u_device ?st, w_device ?st, c_device ?st] (md_a_cdevs md)"
  obtain c1 c2 c3 c4 where cs: "md_a_cdevs md = [c1, c2, c3, c4]"
    using ok by (auto simp: module_ok_def length_Suc_conv eval_nat_numeral)
  have ds: "list_all (\<lambda>d. trim_ok (fst d)) ?ds" "map snd ?ds = md_a_cdevs md"
    "devs_addrs ?ds @ clone_addrs (c_list ?st) = access_addrs ?st"
    using ok cs by (auto simp: module_ok_def devs_addrs_def access_addrs_def)
  then have "owns (devs_addrs ?ds @ (clone_addrs (c_list ?st) @ f)) (kn_mem kn)"
    using ow by (metis append_assoc)
  from cleanup_adevs_result [OF ds(1) this, of "md_globals md"] obtain kn1 where
    a: "scull_cleanup_adevs (md_globals md) ?ds kn = Done kn1" "owns (clone_addrs (c_list ?st) @ f) (kn_mem kn1)"
      "cleaned kn (devs_addrs ?ds) (map snd ?ds) [] [] kn1" by blast
  have "list_all (\<lambda>c. trim_ok (cl_device c)) (c_list ?st)" using ok by (simp add: module_ok_def)
  from cleanup_clones_result [OF this a(2), of "md_globals md"] obtain k where
    c: "scull_cleanup_clones (md_globals md) (c_list ?st) (kn_mem kn1) = Done k" "owns f k"
      "km_live k = km_live (kn_mem kn1) |` (- set (clone_addrs (c_list ?st)))" by blast
  have "cleaned kn (devs_addrs ?ds @ clone_addrs (c_list ?st) @ []) (map snd ?ds @ [] @ [])
      ([] @ [] @ [(md_a_firstdev md, SCULL_N_ADEVS)]) ([] @ [] @ [])
      (unregister_chrdev_region (md_a_firstdev md) SCULL_N_ADEVS (kn1\<lparr>kn_mem := k\<rparr>))"
    by (intro cleaned_trans [OF a(3)] cleaned_trans [OF cleaned_mem [OF c(3)]] cleaned_region)
  with a c ds(2,3) show ?thesis by (simp add: scull_access_cleanup_def Let_def)
qed

definition dev_cdevs :: "scull_module \<Rightarrow> cdev list" where
  "dev_cdevs md = (case md_devices md of None \<Rightarrow> [] | Some (a, ds) \<Rightarrow> map snd ds)"

definition pipe_cdevs :: "scull_module \<Rightarrow> cdev list" where
  "pipe_cdevs md = (case md_p_devices md of None \<Rightarrow> [] | Some (a, ps) \<Rightarrow> map snd ps)"

definition pipe_regions :: "scull_module \<Rightarrow> (int \<times> int) list" where
  "pipe_regions md =
     (case md_p_devices md of None \<Rightarrow> [] | Some _ \<Rightarrow> [(md_p_devno md, md_p_nr_devs md)])"

lemma dev_cleanup_result:
  assumes ok: "module_ok md" and ow: "owns (md_dev_addrs md @ f) (kn_mem kn)"
  shows "\<exists>kn'. (case md_devices md of None \<Rightarrow> Done kn
       | Some (a, ds) \<Rightarrow> and_then (scull_cleanup_devs (md_globals md) ds kn) (\<lambda>kn.
           and_then (kfree a (kn_mem kn)) (\<lambda>k. Done (kn\<lparr>kn_mem := k\<rparr>)))) = Done kn' \<and>
     owns f (kn_mem kn') \<and> cleaned kn (md_dev_addrs md) (dev_cdevs md) [] [] kn'"
proof (cases "md_devices md")
  case None
  then show ?thesis using ow by (simp add: md_dev_addrs_def dev_cdevs_def)
next
  case (Some q)
  obtain a ds where q: "q = (a, ds)" by fastforce
  have "owns (devs_addrs ds @ (a # f)) (kn_mem kn)" "list_all (\<lambda>d. trim_ok (fst d)) ds"
    using ow ok Some q by (auto simp: md_dev_addrs_def module_ok_def list_all_iff)
  from cleanup_devs_result [OF this(2,1), of "md_globals md"] obtain kn1 where
    c1: "scull_cleanup_devs (md_globals md) ds kn = Done kn1" "owns (a # f) (kn_mem kn1)"
      "cleaned kn (devs_addrs ds) (map snd ds) [] [] kn1" by blast
  obtain k where k: "kfree a (kn_mem kn1) = Done k" "owns f k" "km_live k = km_live (kn_mem kn1) |` (- set [a])"
    by (rule kfree_owned [OF c1(2)])
  have "cleaned kn (devs_addrs ds @ [a]) (map snd ds @ []) ([] @ []) ([] @ []) (kn1\<lparr>kn_mem := k\<rparr>)"
    by (rule cleaned_trans [OF c1(3) cleaned_mem [OF k(3)]])
  with c1 k Some q show ?thesis by (simp add: md_dev_addrs_def dev_cdevs_def)
qed

lemma cleanup_module_result:
  assumes ok: "module_ok md" and ow: "owns (module_addrs md @ f) (kn_mem kn)"
  shows "\<exists>kn'. scull_cleanup_module md kn = Done (md\<lparr>md_p_devices := None\<rparr>, kn') \<and> owns f (kn_mem kn') \<and>
    cleaned kn (module_addrs md) (dev_cdevs md @ pipe_cdevs md @ md_a_cdevs md)
      ((MKDEV (md_major md) (md_minor md), md_nr_devs md) # pipe_regions md @
        [(md_a_firstdev md, SCULL_N_ADEVS)])
      ([''scullmem'', ''scullseq''] @ pipe_proc_entries md) kn'"
proof -
  have "owns (md_dev_addrs md @ (md_pipe_addrs md @ access_addrs (md_access md) @ f)) (kn_mem kn)"
    using ow by (simp add: module_addrs_def)
  from dev_cleanup_result [OF ok this] obtain kn1 where
    c1: "(case md_devices md of None \<Rightarrow> Done kn
       | Some (a, ds) \<Rightarrow> and_then (scull_cleanup_devs (md_globals md) ds kn) (\<lambda>kn.
           and_then (kfree a (kn_mem kn)) (\<lambda>k. Done (kn\<lparr>kn_mem := k\<rparr>)))) = Done kn1"
      "owns (md_pipe_addrs md @ (access_addrs (md_access md) @ f)) (kn_mem kn1)"
      "cleaned kn (md_dev_addrs md) (dev_cdevs md) [] [] kn1" by blast
  let ?r = "(MKDEV (md_major md) (md_minor md), md_nr_devs md)"
  let ?kn2 = "unregister_chrdev_region (fst ?r) (snd ?r) (scull_remove_proc kn1)"
  have c2: "cleaned kn1 [] [] [?r] [''scullmem'', ''scullseq''] ?kn2"
    using cleaned_trans [OF cleaned_trans [OF cleaned_proc cleaned_proc] cleaned_region]
    by (simp add: scull_remove_proc_def)
  have "owns (md_pipe_addrs md @ (access_addrs (md_access md) @ f)) (kn_mem ?kn2)"
    using c1(2) by (simp add: scull_remove_proc_def)
  from p_cleanup_result [OF this] obtain kn3 where
    c3: "scull_p_cleanup md ?kn2 = Done (md\<lparr>md_p_devices := None\<rparr>, kn3)"
      "owns (access_addrs (md_access md) @ f) (kn_mem kn3)"
      "cleaned ?kn2 (md_pipe_addrs md) (pipe_cdevs md) (pipe_regions md) (pipe_proc_entries md) kn3"
    unfolding pipe_cdevs_def pipe_regions_def by blast
  let ?md = "md\<lparr>md_p_devices := None\<rparr>"
  have "module_ok ?md" using ok by (simp add: module_ok_def cong: option.case_cong)
  from access_cleanup_result [OF this, of f kn3] c3(2) obtain kn4 where
    c4: "scull_access_cleanup ?md kn3 = Done kn4" "owns f (kn_mem kn4)"
      "cleaned kn3 (access_addrs (md_access md)) (md_a_cdevs md) [(md_a_firstdev md, SCULL_N_ADEVS)] [] kn4"
    by auto
  have "cleaned kn (module_addrs md) (dev_cdevs md @ pipe_cdevs md @ md_a_cdevs md)
      ((MKDEV (md_major md) (md_minor md), md_nr_devs md) # pipe_regions md @ [(md_a_firstdev md, SCULL_N_ADEVS)])
      ([''scullmem'', ''scullseq''] @ pipe_proc_entries md) kn4"
    using cleaned_trans [OF cleaned_trans [OF cleaned_trans [OF c1(3) c2] c3(3)] c4(3)]
    by (simp add: module_addrs_def)
  with c1(1) c3(1) c4(1,2) show ?thesis
    by (auto simp: scull_cleanup_module_def Let_def)
qed

section \<open>Loading\<close>

definition set_up :: "kern \<Rightarrow> cdev list \<Rightarrow> kern \<Rightarrow> bool" where
  "set_up kn cs kn' \<longleftrightarrow> kn_mem kn' = kn_mem kn \<and>
     mset (kn_cdevs kn') = mset (kn_cdevs kn) + mset (cdev_nos cs) \<and>
     kn_regions kn' = kn_regions kn \<and> kn_procs kn' = kn_procs kn \<and> kn_warned kn' = kn_warned kn"

lemma cdev_add_set_up:
  "cdev_add n kn = (c, kn') \<Longrightarrow> set_up kn [c] kn' \<and> (c = Cdev_added n \<or> c = Cdev_inited)"
  by (auto simp: cdev_add_def set_up_def cdev_nos_def Let_def split: if_splits)

lemma set_up_trans: "set_up kn cs kn1 \<Longrightarrow> set_up kn1 ds kn2 \<Longrightarrow> set_up kn (cs @ ds) kn2"
  by (simp add: set_up_def add.assoc)

lemma setup_devs_result:
  "scull_setup_devs md i n kn = (ds, kn') \<Longrightarrow> set_up kn (map snd ds) kn' \<and>
     list_all (\<lambda>d. fst d = scull_new_dev (md_globals md) \<and> \<not> dangling (snd d)) ds"
proof (induction n arbitrary: i kn ds kn')
  case 0
  then show ?case by (simp add: set_up_def cdev_nos_def)
next
  case (Suc n)
  obtain c kn1 where c: "scull_setup_cdev md i kn = (c, kn1)" by fastforce
  obtain es kn2 where es: "scull_setup_devs md (Suc i) n kn1 = (es, kn2)" by fastforce
  have "ds = (scull_new_dev (md_globals md), c) # es" "kn' = kn2" using Suc.prems c es by auto
  moreover have "set_up kn [c] kn1" "\<not> dangling c"
    using cdev_add_set_up c unfolding scull_setup_cdev_def by fastforce+
  ultimately show ?case using Suc.IH [OF es] set_up_trans [of kn "[c]" kn1] by auto
qed

lemma p_setup_devs_result:
  "scull_p_setup_devs devno i n kn = (ps, kn') \<Longrightarrow> set_up kn (map snd ps) kn' \<and>
     list_all (\<lambda>p. fst p = clear_pipe \<and> \<not> dangling (snd p)) ps"
proof (induction n arbitrary: i kn ps kn')
  case 0
  then show ?case by (simp add: set_up_def cdev_nos_def)
next
  case (Suc n)
  obtain c kn1 where c: "scull_p_setup_cdev devno i kn = (c, kn1)" by fastforce
  obtain es kn2 where es: "scull_p_setup_devs devno (Suc i) n kn1 = (es, kn2)" by fastforce
  have "ps = (clear_pipe, c) # es" "kn' = kn2" using Suc.prems c es by auto
  moreover have "set_up kn [c] kn1" "\<not> dangling c"
    using cdev_add_set_up c unfolding scull_p_setup_cdev_def by fastforce+
  ultimately show ?case using Suc.IH [OF es] set_up_trans [of kn "[c]" kn1] by auto
qed

text \<open>What loading adds: the objects \<open>xs\<close>, devices, regions and proc entries.\<close>

definition added :: "kern \<Rightarrow> addr list \<Rightarrow> cdev list \<Rightarrow> (int \<times> int) list \<Rightarrow> string list \<Rightarrow> kern \<Rightarrow> bool" where
  "added kn xs cs rs ps kn' \<longleftrightarrow>
     (\<forall>f. accounted (kn_mem kn) f (kn_mem kn') (xs @ f)) \<and>
     mset (kn_cdevs kn') = mset (kn_cdevs kn) + mset (cdev_nos cs) \<and>
     mset (kn_regions kn') = mset (kn_regions kn) + mset rs \<and>
     mset (kn_procs kn') = mset (kn_procs kn) + mset ps \<and> kn_warned kn' = kn_warned kn"

lemma added_accounted: "added kn xs cs rs ps kn' \<Longrightarrow> accounted (kn_mem kn) f (kn_mem kn') (xs @ f)"
  by (simp add: added_def)

lemma added_trans:
  assumes "added kn xs cs rs ps kn1" "added kn1 ys ds qs ts kn2"
  shows "added kn (xs @ ys) (cs @ ds) (rs @ qs) (ps @ ts) kn2"
proof -
  have "accounted (kn_mem kn) f (kn_mem kn2) ((xs @ ys) @ f)" for f
  proof -
    have "accounted (kn_mem kn) f (kn_mem kn1) (xs @ f)"
      "accounted (kn_mem kn1) (xs @ f) (kn_mem kn2) (ys @ xs @ f)"
      using assms by (simp_all add: added_def)
    then have "accounted (kn_mem kn) f (kn_mem kn2) (ys @ xs @ f)" by (rule accounted_trans)
    then show ?thesis by (simp add: accounted_mset [of f f "ys @ xs @ f" "(xs @ ys) @ f"])
  qed
  with assms show ?thesis by (simp add: added_def add_ac)
qed

lemma added_set_up: "set_up kn cs kn' \<Longrightarrow> added kn [] cs [] [] kn'"
  by (simp add: set_up_def added_def)

lemma added_refl [simp]: "added kn [] [] [] [] kn"
  by (simp add: added_def cdev_nos_def)

lemma added_kmalloc:
  "kmalloc n (kn_mem kn) = (Some a, k) \<Longrightarrow> added kn [a] [] [] [] (kn\<lparr>kn_mem := k\<rparr>)"
  "kmalloc n (kn_mem kn) = (None, k) \<Longrightarrow> added kn [] [] [] [] (kn\<lparr>kn_mem := k\<rparr>)"
  using kmalloc_accounted by (simp_all add: added_def cdev_nos_def)

lemma added_proc: "added kn [] [] [] [name] (create_proc name kn)"
  by (simp add: added_def cdev_nos_def create_proc_def)

lemma added_p_proc: "added kn [] [] [] (pipe_proc_entries md) (scull_p_create_proc md kn)"
  using added_proc by (simp add: scull_p_create_proc_def pipe_proc_entries_def)

lemma register_cases:
  assumes "register_chrdev_region first n kn = (r, kn')"
  shows "(\<exists>e. r = Inl e \<and> added kn [] [] [] [] kn') \<or>
    r = Inr 0 \<and> added kn [] [] [(first, n)] [] kn'"
  using assms
  by (auto simp: register_chrdev_region_def added_def cdev_nos_def Let_def split: if_splits)

lemma unregister_added:
  "added kn xs cs [(first, n)] ps kn' \<Longrightarrow> added kn xs cs [] ps (unregister_chrdev_region first n kn')"
  by (simp add: added_def unregister_chrdev_region_def)

lemma p_init_result:
  assumes "scull_p_init sz firstdev md kn = (n, md', kn')" "md_p_devices md = None"
  shows "\<exists>devno ps. md' = md\<lparr>md_p_devno := devno, md_p_devices := ps\<rparr> \<and>
    (case ps of None \<Rightarrow> True
     | Some (a, ps) \<Rightarrow> list_all (\<lambda>p. fst p = clear_pipe \<and> \<not> dangling (snd p)) ps) \<and>
    added kn (md_pipe_addrs md') (pipe_cdevs md') (pipe_regions md')
      (if ps = None then [] else pipe_proc_entries md) kn'"
proof -
  obtain r kn1 where r: "register_chrdev_region firstdev (md_p_nr_devs md) kn = (r, kn1)" by fastforce
  show ?thesis
  proof (cases r)
    case (Inl e)
    then have "md' = md\<lparr>md_p_devno := md_p_devno md, md_p_devices := None\<rparr>" "kn' = kn1"
      using assms r by (auto simp: scull_p_init_def)
    then show ?thesis
      using register_cases [OF r] Inl
      by (intro exI [of _ "md_p_devno md"] exI [of _ None])
        (auto simp: md_pipe_addrs_def pipe_cdevs_def pipe_regions_def)
  next
    case (Inr v)
    then have a1: "added kn [] [] [(firstdev, md_p_nr_devs md)] [] kn1" using register_cases [OF r] by auto
    obtain q k where q: "kmalloc (md_p_nr_devs md * sz_pipe sz) (kn_mem kn1) = (q, k)" by fastforce
    show ?thesis
    proof (cases q)
      case None
      then have "md' = md\<lparr>md_p_devno := firstdev, md_p_devices := None\<rparr>"
        "kn' = unregister_chrdev_region firstdev (md_p_nr_devs md) (kn1\<lparr>kn_mem := k\<rparr>)"
        using assms r Inr q by (auto simp: scull_p_init_def)
      then show ?thesis
        using unregister_added [OF added_trans [OF a1 added_kmalloc(2), unfolded append_Nil append_Nil2]]
          q None
        by (intro exI [of _ firstdev] exI [of _ None])
          (auto simp: md_pipe_addrs_def pipe_cdevs_def pipe_regions_def)
    next
      case (Some a)
      obtain ps kn2 where ps: "scull_p_setup_devs firstdev 0 (nat (md_p_nr_devs md)) (kn1\<lparr>kn_mem := k\<rparr>) = (ps, kn2)"
        by fastforce
      then have md': "md' = md\<lparr>md_p_devno := firstdev, md_p_devices := Some (a, ps)\<rparr>"
        and kn': "kn' = scull_p_create_proc md kn2"
        using assms r Inr q Some by (auto simp: scull_p_init_def Let_def scull_p_create_proc_def)
      note p = p_setup_devs_result [OF ps]
      have "pipes_addrs ps = []" using p
        by (auto simp: pipes_addrs_def pipe_addrs_def clear_pipe_def list_all_iff)
      moreover have "added kn ([] @ [a] @ [] @ []) ([] @ [] @ map snd ps @ [])
          ([(firstdev, md_p_nr_devs md)] @ [] @ [] @ []) ([] @ [] @ [] @ pipe_proc_entries md) kn'"
        unfolding kn'
        by (rule added_trans [OF a1 added_trans [OF added_kmalloc(1)
              added_trans [OF added_set_up added_p_proc]]]) (use q Some p in auto)
      ultimately show ?thesis
        using md' p
        by (intro exI [of _ firstdev] exI [of _ "Some (a, ps)"])
          (auto simp: md_pipe_addrs_def pipe_cdevs_def pipe_regions_def)
    qed
  qed
qed

lemma access_setup_result:
  assumes "scull_access_setup g n dev kn = (dev', c, kn')"
  shows "dev' = dev\<lparr>dev_quantum := g_quantum g, dev_qset := g_qset g, dev_sem := 1\<rparr>"
    "set_up kn [c] kn'" "c = Cdev_added n \<or> c = Cdev_put"
  using assms cdev_add_set_up [of n kn]
  by (fastforce simp: scull_access_setup_def set_up_def cdev_nos_def split: prod.splits if_splits)+

lemma access_init_result:
  assumes "scull_access_init firstdev md kn = (n, md', kn')" "md_a_cdevs md = replicate 4 Cdev_zero"
    "md_access md = access_boot"
  shows "md' = md\<lparr>md_access := md_access md', md_a_cdevs := md_a_cdevs md', md_a_firstdev := md_a_firstdev md'\<rparr>"
    "length (md_a_cdevs md') = 4" "access_addrs (md_access md') = []" "c_list (md_access md') = []"
    "list_all (\<lambda>d. dev_data d = [])
       [s_device (md_access md'), u_device (md_access md'), w_device (md_access md'), c_device (md_access md')]"
    "added kn [] (md_a_cdevs md') (if has_access md' then [(md_a_firstdev md', SCULL_N_ADEVS)] else []) [] kn'"
    "has_access md' \<or> md_a_cdevs md' = replicate 4 Cdev_zero"
proof -
  obtain r kn1 where r: "register_chrdev_region firstdev SCULL_N_ADEVS kn = (r, kn1)" by fastforce
  have boot: "dev_data (s_device access_boot) = []" "dev_data (u_device access_boot) = []"
    "dev_data (w_device access_boot) = []" "dev_data (c_device access_boot) = []"
    "c_list access_boot = []"
    by (simp_all add: access_boot_def zero_dev_def)
  have "md' = md\<lparr>md_access := md_access md', md_a_cdevs := md_a_cdevs md', md_a_firstdev := md_a_firstdev md'\<rparr> \<and>
    length (md_a_cdevs md') = 4 \<and> access_addrs (md_access md') = [] \<and> c_list (md_access md') = [] \<and>
    list_all (\<lambda>d. dev_data d = [])
       [s_device (md_access md'), u_device (md_access md'), w_device (md_access md'), c_device (md_access md')] \<and>
    added kn [] (md_a_cdevs md') (if has_access md' then [(md_a_firstdev md', SCULL_N_ADEVS)] else []) [] kn' \<and>
    (has_access md' \<or> md_a_cdevs md' = replicate 4 Cdev_zero)"
  proof (cases r)
    case (Inl e)
    then have "md' = md" "kn' = kn1" using assms(1) r by (auto simp: scull_access_init_def)
    then show ?thesis
      using register_cases [OF r] Inl assms(2,3) boot
      by (auto simp: has_access_def access_addrs_def scull_addrs_def clone_addrs_def added_def cdev_nos_def
          eval_nat_numeral)
  next
    case (Inr v)
    then have a1: "added kn [] [] [(firstdev, SCULL_N_ADEVS)] [] kn1" using register_cases [OF r] by auto
    obtain sd sc k1 where s1: "scull_access_setup (md_globals md) firstdev (s_device (md_access md)) kn1 = (sd, sc, k1)"
      by (metis surj_pair)
    obtain ud uc k2 where s2: "scull_access_setup (md_globals md) (firstdev + 1) (u_device (md_access md)) k1 = (ud, uc, k2)"
      by (metis surj_pair)
    obtain wd wc k3 where s3: "scull_access_setup (md_globals md) (firstdev + 2) (w_device (md_access md)) k2 = (wd, wc, k3)"
      by (metis surj_pair)
    obtain cd cc k4 where s4: "scull_access_setup (md_globals md) (firstdev + 3) (c_device (md_access md)) k3 = (cd, cc, k4)"
      by (metis surj_pair)
    note st = access_setup_result [OF s1] access_setup_result [OF s2] access_setup_result [OF s3]
      access_setup_result [OF s4]
    have md': "md' = md\<lparr>md_a_firstdev := firstdev, md_a_cdevs := [sc, uc, wc, cc],
                 md_access := (md_access md)\<lparr>s_device := sd, u_device := ud, w_device := wd, c_device := cd\<rparr>\<rparr>"
      and kn': "kn' = k4"
      using assms(1) r Inr s1 s2 s3 s4 by (auto simp: scull_access_init_def)
    have "set_up kn1 ([sc] @ [uc] @ [wc] @ [cc]) k4"
      by (rule set_up_trans [OF st(2) set_up_trans [OF st(5) set_up_trans [OF st(8) st(11)]]])
    then have "added kn1 [] [sc, uc, wc, cc] [] [] k4" using added_set_up by simp
    from added_trans [OF a1 this] have "added kn [] [sc, uc, wc, cc] [(firstdev, SCULL_N_ADEVS)] [] kn'"
      using kn' by simp
    moreover have "has_access md'" using st(3,6,9,12) by (auto simp: has_access_def md')
    ultimately show ?thesis
      using assms(2,3) boot st(1,4,7,10)
      by (simp add: md' access_addrs_def scull_addrs_def clone_addrs_def)
  qed
  then show "md' = md\<lparr>md_access := md_access md', md_a_cdevs := md_a_cdevs md', md_a_firstdev := md_a_firstdev md'\<rparr>"
    "length (md_a_cdevs md') = 4" "access_addrs (md_access md') = []" "c_list (md_access md') = []"
    "list_all (\<lambda>d. dev_data d = [])
       [s_device (md_access md'), u_device (md_access md'), w_device (md_access md'), c_device (md_access md')]"
    "added kn [] (md_a_cdevs md') (if has_access md' then [(md_a_firstdev md', SCULL_N_ADEVS)] else []) [] kn'"
    "has_access md' \<or> md_a_cdevs md' = replicate 4 Cdev_zero"
    by blast+
qed

text \<open>The module's variables before it is loaded.\<close>

definition unloaded :: "scull_module \<Rightarrow> bool" where
  "unloaded md \<longleftrightarrow> md_devices md = None \<and> md_p_devices md = None \<and> md_access md = access_boot \<and>
     md_a_cdevs md = replicate 4 Cdev_zero \<and> md_a_firstdev md = 0"

definition same_kernel :: "kern \<Rightarrow> kern \<Rightarrow> bool" where
  "same_kernel kn kn' \<longleftrightarrow> km_live (kn_mem kn') = km_live (kn_mem kn) \<and>
     mset (kn_cdevs kn') = mset (kn_cdevs kn) \<and> mset (kn_regions kn') = mset (kn_regions kn) \<and>
     mset (kn_procs kn') = mset (kn_procs kn)"

text \<open>What the module holds of the kernel: \<open>kn0\<close> is the kernel without it.\<close>

definition module_holds :: "kern \<Rightarrow> scull_module \<Rightarrow> kern \<Rightarrow> bool" where
  "module_holds kn0 md kn \<longleftrightarrow> module_ok md \<and>
     added kn0 (module_addrs md) (dev_cdevs md @ pipe_cdevs md @ md_a_cdevs md) (module_regions md)
       (module_procs md) kn"

lemma init_devices_result:
  assumes un: "md_p_devices md = None" "md_access md = access_boot" "md_a_cdevs md = replicate 4 Cdev_zero"
    and reg: "added kn0 [] [] [(MKDEV (md_major md) (md_minor md), md_nr_devs md)] [] kn"
    and al: "kmalloc n (kn_mem kn) = (Some a, k)"
    and ds: "scull_setup_devs md 0 c (kn\<lparr>kn_mem := k\<rparr>) = (ds, kn1)"
    and p: "scull_p_init sz d (md\<lparr>md_devices := Some (a, ds)\<rparr>) kn1 = (v, md1, kn2)"
    and ac: "scull_access_init d' md1 kn2 = (w, md2, kn3)"
  shows "module_holds kn0 md2 (scull_create_proc kn3)"
proof -
  have a1: "added kn [a] [] [] [] (kn\<lparr>kn_mem := k\<rparr>)" by (rule added_kmalloc(1) [OF al])
  note d = setup_devs_result [OF ds]
  have a2: "added (kn\<lparr>kn_mem := k\<rparr>) [] (map snd ds) [] [] kn1" using d added_set_up by blast
  have pm: "pipe_proc_entries (md\<lparr>md_devices := Some (a, ds)\<rparr>) = pipe_proc_entries md" by (simp add: pipe_proc_entries_def)
  have "md_p_devices (md\<lparr>md_devices := Some (a, ds)\<rparr>) = None" using un by simp
  note p' = p_init_result [OF p this, unfolded pm]
  obtain devno ps where md1: "md1 = md\<lparr>md_devices := Some (a, ds), md_p_devno := devno, md_p_devices := ps\<rparr>"
    and ps: "case ps of None \<Rightarrow> True | Some (a, ps) \<Rightarrow> list_all (\<lambda>p. fst p = clear_pipe \<and> \<not> dangling (snd p)) ps"
    and a3: "added kn1 (md_pipe_addrs md1) (pipe_cdevs md1) (pipe_regions md1)
      (if ps = None then [] else pipe_proc_entries md) kn2"
    using p' that by (elim exE conjE) auto
  have "md_a_cdevs md1 = replicate 4 Cdev_zero" "md_access md1 = access_boot" using un md1 by simp_all
  note acc = access_init_result [OF ac this]
  have a4: "added kn3 [] [] [] [''scullmem'', ''scullseq''] (scull_create_proc kn3)"
    using added_trans [OF added_proc added_proc] by (simp add: scull_create_proc_def)
  note all = added_trans [OF reg added_trans [OF a1 added_trans [OF a2 added_trans [OF a3
    added_trans [OF acc(6) a4]]]]]
  have fields: "md_devices md2 = Some (a, ds)" "md_p_devices md2 = ps" "md_p_devno md2 = devno"
    "md_p_nr_devs md2 = md_p_nr_devs md" "md_major md2 = md_major md" "md_minor md2 = md_minor md"
    "md_nr_devs md2 = md_nr_devs md" "md_debug md2 = md_debug md"
    by (subst acc(1), simp add: md1)+
  have dev: "devs_addrs ds = []"
    using d by (auto simp: devs_addrs_def list_all_iff scull_new_dev_def zero_dev_def scull_addrs_def)
  have pipe: "md_pipe_addrs md1 = md_pipe_addrs md2" "pipe_cdevs md1 = pipe_cdevs md2"
    "pipe_regions md1 = pipe_regions md2"
    by (simp_all add: md_pipe_addrs_def pipe_cdevs_def pipe_regions_def fields md1 cong: option.case_cong)
  have "module_addrs md2 = a # md_pipe_addrs md2"
    by (simp add: module_addrs_def md_dev_addrs_def fields dev acc(3))
  moreover have "dev_cdevs md2 = map snd ds" by (simp add: dev_cdevs_def fields)
  moreover have "module_regions md2 = (MKDEV (md_major md) (md_minor md), md_nr_devs md) # pipe_regions md2 @
      (if has_access md2 then [(md_a_firstdev md2, SCULL_N_ADEVS)] else [])"
    by (cases ps) (auto simp: module_regions_def pipe_regions_def fields)
  moreover have "mset (module_procs md2) =
      mset ((if ps = None then [] else pipe_proc_entries md) @ [''scullmem'', ''scullseq''])"
    by (simp add: module_procs_def pipe_proc_entries_def fields)
  moreover have "module_ok md2"
    using d ps acc(2,4,5) unfolding module_ok_def trim_ok_def fields
    by (auto simp: list_all_iff scull_new_dev_def zero_dev_def split: option.splits)
  ultimately show ?thesis
    using all by (simp add: module_holds_def pipe added_def)
qed

lemma unloaded_ok: "unloaded md \<Longrightarrow> module_ok md \<and> module_addrs md = [] \<and>
    dev_cdevs md = [] \<and> pipe_cdevs md = [] \<and> pipe_regions md = []"
  by (simp add: unloaded_def module_ok_def module_addrs_def md_dev_addrs_def md_pipe_addrs_def dev_cdevs_def
      pipe_cdevs_def pipe_regions_def access_addrs_def scull_addrs_def clone_addrs_def access_boot_def
      zero_dev_def trim_ok_def)

lemma diff_mset_disjoint: "set xs \<inter> set_mset M = {} \<Longrightarrow> M - mset xs = M"
  by (rule multiset_eqI) (metis count_diff count_mset_0_iff diff_zero disjoint_iff not_in_iff set_mset_mset zero_diff)

lemma init_failed_result:
  assumes "unloaded md" "added kn0 [] [] [(MKDEV (md_major md) (md_minor md), md_nr_devs md)] [] kn"
    and "kmem_ok (kn_mem kn0)" "(0, SCULL_N_ADEVS) \<notin> set (kn_regions kn0)"
      "set [''scullmem'', ''scullseq'', ''scullpipe''] \<inter> set (kn_procs kn0) = {}"
  shows "\<exists>kn'. scull_cleanup_module md kn = Done (md, kn') \<and> same_kernel kn0 kn' \<and> kn_warned kn'"
proof -
  have md: "md\<lparr>md_p_devices := None\<rparr> = md" using assms(1) by (simp add: unloaded_def)
  have "owns [] (kn_mem kn0)" using assms(3) by (simp add: owns_def)
  then have ow: "owns [] (kn_mem kn)" "km_live (kn_mem kn) = km_live (kn_mem kn0)"
    using assms(2) by (auto simp: added_def accounted_def restrict_map_def dest: spec [of _ "[]"])
  have "owns (module_addrs md @ []) (kn_mem kn)" using ow(1) unloaded_ok [OF assms(1)] by simp
  from cleanup_module_result [OF _ this] unloaded_ok [OF assms(1)] obtain kn' where
    c: "scull_cleanup_module md kn = Done (md, kn')"
      "cleaned kn [] (md_a_cdevs md) ((MKDEV (md_major md) (md_minor md), md_nr_devs md) # [(md_a_firstdev md, SCULL_N_ADEVS)])
        ([''scullmem'', ''scullseq''] @ pipe_proc_entries md) kn'" unfolding md by auto
  have "mset (kn_procs kn0) - mset ([''scullmem'', ''scullseq''] @ pipe_proc_entries md) = mset (kn_procs kn0)"
    using assms(5) by (intro diff_mset_disjoint) (auto simp: pipe_proc_entries_def)
  moreover have "mset (kn_regions kn0) - {#(0, SCULL_N_ADEVS)#} = mset (kn_regions kn0)"
    using assms(4) by (simp add: diff_single_trivial)
  ultimately have "same_kernel kn0 kn' \<and> kn_warned kn'"
    using c(2) assms(1,2) ow(2)
    by (simp add: same_kernel_def cleaned_def added_def unloaded_def cdev_nos_def restrict_map_def eval_nat_numeral)
  with c(1) show ?thesis by blast
qed

lemma init_region_result:
  assumes eq: "scull_get_region md kn = (r, md', kn')"
  shows "(\<exists>e. r = Inl e \<and> md' = md \<and> added kn [] [] [] [] kn') \<or>
    r = Inr 0 \<and> (\<exists>major. md' = md\<lparr>md_major := major\<rparr>) \<and>
      added kn [] [] [(MKDEV (md_major md') (md_minor md'), md_nr_devs md')] [] kn'"
proof (cases "md_major md = 0")
  case True
  obtain q kn1 where q: "register_chrdev_region (MKDEV (kn_major kn) (md_minor md)) (md_nr_devs md) kn = (q, kn1)"
    by fastforce
  have major: "kn_major kn1 = kn_major kn"
    using q by (auto simp: register_chrdev_region_def Let_def split: if_splits)
  show ?thesis
  proof (cases q)
    case (Inl e)
    then have "r = Inl e" "md' = md" "kn' = kn1"
      using eq q True by (simp_all add: scull_get_region_def alloc_chrdev_region_def)
    then show ?thesis using register_cases [OF q] Inl by simp
  next
    case (Inr v)
    then have "r = Inr 0" "md' = md\<lparr>md_major := kn_major kn\<rparr>" "kn' = kn1"
      using eq q True major by (simp_all add: scull_get_region_def alloc_chrdev_region_def)
    then show ?thesis using register_cases [OF q] Inr by auto
  qed
next
  case False
  obtain q kn1 where q: "register_chrdev_region (MKDEV (md_major md) (md_minor md)) (md_nr_devs md) kn = (q, kn1)"
    by fastforce
  have "r = q" "md' = md" "kn' = kn1" using eq q False by (simp_all add: scull_get_region_def)
  moreover have "md = md\<lparr>md_major := md_major md\<rparr>" by simp
  ultimately show ?thesis using register_cases [OF q] by (cases q) (auto intro: exI [of _ "md_major md"])
qed

lemma added_same_kernel:
  assumes "added kn [] [] [] [] kn'" "kmem_ok (kn_mem kn)"
  shows "same_kernel kn kn'" "kmem_ok (kn_mem kn')"
proof -
  have "accounted (kn_mem kn) ([] :: addr list) (kn_mem kn') ([] @ [])" using assms(1) by (auto simp: added_def)
  moreover have "owns [] (kn_mem kn)" using assms(2) by (simp add: owns_def)
  ultimately have "owns [] (kn_mem kn')" "km_live (kn_mem kn') = km_live (kn_mem kn)"
    by (simp_all add: accounted_def restrict_map_def)
  then show "same_kernel kn kn'" "kmem_ok (kn_mem kn')"
    using assms(1) by (simp_all add: added_def same_kernel_def cdev_nos_def owns_def)
qed

lemma init_result:
  assumes "unloaded md" "kmem_ok (kn_mem kn)" "(0, SCULL_N_ADEVS) \<notin> set (kn_regions kn)"
    and "set [''scullmem'', ''scullseq'', ''scullpipe''] \<inter> set (kn_procs kn) = {}"
  shows "\<exists>r md' kn'. scull_init_module sz md kn = Done (r, md', kn') \<and>
    (case r of Inr _ \<Rightarrow> module_holds kn md' kn' | Inl _ \<Rightarrow> same_kernel kn kn')"
proof -
  obtain r md1 kn1 where r: "scull_get_region md kn = (r, md1, kn1)"
    by (metis surj_pair)
  show ?thesis
  proof (cases r)
    case (Inl e)
    then have "added kn [] [] [] [] kn1" using init_region_result [OF r] by auto
    then show ?thesis
      using Inl r assms(2) added_same_kernel by (simp add: scull_init_module_def)
  next
    case (Inr v)
    then obtain major where md1: "md1 = md\<lparr>md_major := major\<rparr>"
      and reg: "added kn [] [] [(MKDEV (md_major md1) (md_minor md1), md_nr_devs md1)] [] kn1"
      using init_region_result [OF r] by auto
    have un: "unloaded md1" using assms(1) by (simp add: md1 unloaded_def)
    obtain q k where q: "kmalloc (md_nr_devs md1 * sz_dev sz) (kn_mem kn1) = (q, k)" by fastforce
    show ?thesis
    proof (cases q)
      case None
      have "added kn [] [] [(MKDEV (md_major md1) (md_minor md1), md_nr_devs md1)] [] (kn1\<lparr>kn_mem := k\<rparr>)"
        using added_trans [OF reg added_kmalloc(2)] q None by simp
      from init_failed_result [OF un this assms(2-4)] show ?thesis
        using r Inr q None by (auto simp: scull_init_module_def)
    next
      case (Some a)
      obtain ds kn2 where ds: "scull_setup_devs md1 0 (nat (md_nr_devs md1)) (kn1\<lparr>kn_mem := k\<rparr>) = (ds, kn2)"
        by fastforce
      let ?dev = "MKDEV (md_major md1) (md_minor md1 + md_nr_devs md1)"
      obtain n md2 kn3 where p: "scull_p_init sz ?dev (md1\<lparr>md_devices := Some (a, ds)\<rparr>) kn2 = (n, md2, kn3)"
        by (metis surj_pair)
      obtain w md3 kn4 where ac: "scull_access_init (?dev + n) md2 kn3 = (w, md3, kn4)" by (metis surj_pair)
      have "module_holds kn md3 (scull_create_proc kn4)"
        using un by (intro init_devices_result [OF _ _ _ reg q [unfolded Some] ds p ac]) (simp_all add: unloaded_def)
      then show ?thesis
        using r Inr q Some ds p ac by (simp add: scull_init_module_def)
    qed
  qed
qed

text \<open>Loading never crashes or sleeps. When \<open>scull_init_module\<close> returns 0, exactly the objects, device
  numbers, devices and proc entries that the module's variables name have been added to the kernel,
  whichever of the pipe and access devices could be set up. When it returns an error, memory and registries
  are what they were.\<close>

theorem scull_init_accounts:
  assumes "unloaded md" "kmem_ok (kn_mem kn)" "(0, SCULL_N_ADEVS) \<notin> set (kn_regions kn)"
    and "set [''scullmem'', ''scullseq'', ''scullpipe''] \<inter> set (kn_procs kn) = {}"
  shows "\<exists>r md' kn'. scull_init_module sz md kn = Done (r, md', kn') \<and>
    (case r of Inr _ \<Rightarrow> module_holds kn md' kn' | Inl _ \<Rightarrow> same_kernel kn kn')"
  using assms by (rule init_result)

text \<open>A kernel without drivers that refuses nothing.\<close>

definition quiet_kern :: kern where
  "quiet_kern = \<lparr>kn_mem = fresh_kmem, kn_regions = [], kn_cdevs = [], kn_procs = [], kn_next = 0,
     kn_refuse = (\<lambda>_. False), kn_major = 250, kn_warned = False\<rparr>"

lemma quiet_boot: "unloaded scull_boot" "kmem_ok (kn_mem quiet_kern)" "kn_regions quiet_kern = []"
  "kn_procs quiet_kern = []"
  by (simp_all add: unloaded_def scull_boot_def quiet_kern_def)

theorem scull_init_accounts_witness:
  "\<exists>r md kn. scull_init_module \<lparr>sz_dev = 200, sz_pipe = 300\<rparr> scull_boot quiet_kern = Done (r, md, kn) \<and>
    (case r of Inr _ \<Rightarrow> module_holds quiet_kern md kn | Inl _ \<Rightarrow> same_kernel quiet_kern kn)"
  by (rule scull_init_accounts) (simp_all add: quiet_boot)

text \<open>C17: Unloading never crashes or sleeps, whatever has been written to the devices and whichever of the
  pipe and access devices could be set up: everything the module holds is given back, and memory, device
  numbers, devices and proc entries are what they were without it. The kernel warns exactly when one of the
  four \<open>struct cdev\<close> of the access devices was never initialised or lost its reference when
  \<open>cdev_add\<close> failed.\<close>

theorem scull_cleanup_restores:
  assumes "module_holds kn0 md kn" "kmem_ok (kn_mem kn0)"
    and "(md_a_firstdev md, SCULL_N_ADEVS) \<notin> set (kn_regions kn0)" "''scullpipe'' \<notin> set (kn_procs kn0)"
  shows "\<exists>kn'. scull_cleanup_module md kn = Done (md\<lparr>md_p_devices := None\<rparr>, kn') \<and> same_kernel kn0 kn' \<and>
    (kn_warned kn' \<longleftrightarrow> kn_warned kn0 \<or> list_ex dangling (md_a_cdevs md))"
proof -
  let ?xs = "module_addrs md" and ?cs = "dev_cdevs md @ pipe_cdevs md @ md_a_cdevs md"
  have ok: "module_ok md" and add: "added kn0 ?xs ?cs (module_regions md) (module_procs md) kn"
    using assms(1) by (simp_all add: module_holds_def)
  have "accounted (kn_mem kn0) ([] :: addr list) (kn_mem kn) (?xs @ [])" using add by (rule added_accounted)
  moreover have "owns [] (kn_mem kn0)" using assms(2) by (simp add: owns_def)
  ultimately have ow: "owns (?xs @ []) (kn_mem kn)" "km_live (kn_mem kn) |` (- set ?xs) = km_live (kn_mem kn0)"
    by (simp_all add: accounted_def restrict_map_def)
  obtain kn' where c: "scull_cleanup_module md kn = Done (md\<lparr>md_p_devices := None\<rparr>, kn')"
      "cleaned kn ?xs ?cs ((MKDEV (md_major md) (md_minor md), md_nr_devs md) # pipe_regions md @
        [(md_a_firstdev md, SCULL_N_ADEVS)]) ([''scullmem'', ''scullseq''] @ pipe_proc_entries md) kn'"
    using cleanup_module_result [OF ok ow(1)] by blast
  have "module_regions md = (MKDEV (md_major md) (md_minor md), md_nr_devs md) # pipe_regions md @
      (if has_access md then [(md_a_firstdev md, SCULL_N_ADEVS)] else [])"
    by (cases "md_p_devices md") (simp_all add: module_regions_def pipe_regions_def)
  then have "mset (kn_regions kn') = mset (kn_regions kn0)"
    using c(2) add assms(3) by (auto simp: cleaned_def added_def diff_single_trivial)
  moreover have "mset (kn_procs kn') = mset (kn_procs kn0)"
    using c(2) add assms(4)
    by (auto simp: cleaned_def added_def module_procs_def pipe_proc_entries_def diff_single_trivial)
  moreover have "mset (kn_cdevs kn') = mset (kn_cdevs kn0)"
    using c(2) add by (simp add: cleaned_def added_def)
  moreover have "\<not> list_ex dangling (dev_cdevs md @ pipe_cdevs md)"
    using ok by (fastforce simp: module_ok_def dev_cdevs_def pipe_cdevs_def list_ex_iff list_all_iff
        split: option.splits)
  then have "kn_warned kn' \<longleftrightarrow> kn_warned kn0 \<or> list_ex dangling (md_a_cdevs md)"
    using c(2) add by (simp add: cleaned_def added_def)
  ultimately show ?thesis using c ow(2) by (simp add: same_kernel_def cleaned_def)
qed

text \<open>Loaded with the default parameters, in a kernel that refuses the fifteenth registration: the last
  \<open>cdev_add\<close> of the access devices.\<close>

definition loaded_module :: "scull_module \<times> kern" where
  "loaded_module =
     (case scull_init_module \<lparr>sz_dev = 200, sz_pipe = 300\<rparr> scull_boot
         (quiet_kern\<lparr>kn_refuse := (\<lambda>n. n = 14)\<rparr>) of
        Done (_, md, kn) \<Rightarrow> (md, kn) | _ \<Rightarrow> (scull_boot, quiet_kern))"

lemma loaded_module_holds:
  "module_holds (quiet_kern\<lparr>kn_refuse := (\<lambda>n. n = 14)\<rparr>) (fst loaded_module) (snd loaded_module)"
proof -
  let ?kn = "quiet_kern\<lparr>kn_refuse := (\<lambda>n. n = 14)\<rparr>"
  obtain r md kn where i: "scull_init_module \<lparr>sz_dev = 200, sz_pipe = 300\<rparr> scull_boot ?kn = Done (r, md, kn)"
      "case r of Inr _ \<Rightarrow> module_holds ?kn md kn | Inl _ \<Rightarrow> same_kernel ?kn kn"
    using init_result [of scull_boot ?kn "\<lparr>sz_dev = 200, sz_pipe = 300\<rparr>"] quiet_boot by auto
  have "case scull_init_module \<lparr>sz_dev = 200, sz_pipe = 300\<rparr> scull_boot ?kn of
      Done (Inr _, _, _) \<Rightarrow> True | _ \<Rightarrow> False"
    by code_simp
  with i show ?thesis by (auto simp: loaded_module_def split: sum.splits)
qed

theorem scull_cleanup_restores_witness:
  "\<exists>kn. scull_cleanup_module (fst loaded_module) (snd loaded_module) =
      Done ((fst loaded_module)\<lparr>md_p_devices := None\<rparr>, kn) \<and>
    same_kernel (quiet_kern\<lparr>kn_refuse := (\<lambda>n. n = 14)\<rparr>) kn \<and> kn_warned kn"
proof -
  have "list_ex dangling (md_a_cdevs (fst loaded_module))" by code_simp
  moreover have "kmem_ok (kn_mem (quiet_kern\<lparr>kn_refuse := (\<lambda>n. n = 14)\<rparr>))"
    "(md_a_firstdev (fst loaded_module), SCULL_N_ADEVS) \<notin> set (kn_regions (quiet_kern\<lparr>kn_refuse := (\<lambda>n. n = 14)\<rparr>))"
    "''scullpipe'' \<notin> set (kn_procs (quiet_kern\<lparr>kn_refuse := (\<lambda>n. n = 14)\<rparr>))"
    by (simp_all add: quiet_boot)
  ultimately show ?thesis using scull_cleanup_restores [OF loaded_module_holds] by simp
qed

text \<open>When the numbers are registered and the allocation of the devices fails, the failure path
  deletes the four \<open>struct cdev\<close> of the access devices, which were never initialised.\<close>

theorem scull_init_without_memory:
  assumes "unloaded md" "kmem_ok (kn_mem kn)" "(0, SCULL_N_ADEVS) \<notin> set (kn_regions kn)"
    and "set [''scullmem'', ''scullseq'', ''scullpipe''] \<inter> set (kn_procs kn) = {}"
    and "scull_get_region md kn = (Inr v, md1, kn1)"
    and "kmalloc (md_nr_devs md1 * sz_dev sz) (kn_mem kn1) = (None, k)"
  shows "\<exists>kn'. scull_init_module sz md kn = Done (Inl ENOMEM, md1, kn') \<and> same_kernel kn kn' \<and> kn_warned kn'"
proof -
  obtain major where md1: "md1 = md\<lparr>md_major := major\<rparr>"
    and reg: "added kn [] [] [(MKDEV (md_major md1) (md_minor md1), md_nr_devs md1)] [] kn1"
    using init_region_result [OF assms(5)] by auto
  have un: "unloaded md1" using assms(1) by (simp add: md1 unloaded_def)
  have "added kn [] [] [(MKDEV (md_major md1) (md_minor md1), md_nr_devs md1)] [] (kn1\<lparr>kn_mem := k\<rparr>)"
    using added_trans [OF reg added_kmalloc(2)] assms(6) by simp
  from init_failed_result [OF un this assms(2-4)] show ?thesis
    using assms(5,6) by (auto simp: scull_init_module_def)
qed

theorem scull_init_without_memory_witness:
  "\<exists>kn. scull_init_module \<lparr>sz_dev = 200, sz_pipe = 300\<rparr> scull_boot
        (quiet_kern\<lparr>kn_mem := fresh_kmem\<lparr>km_fail := (\<lambda>_. True)\<rparr>\<rparr>) =
      Done (Inl ENOMEM, scull_boot\<lparr>md_major := 250\<rparr>, kn) \<and>
    same_kernel (quiet_kern\<lparr>kn_mem := fresh_kmem\<lparr>km_fail := (\<lambda>_. True)\<rparr>\<rparr>) kn \<and> kn_warned kn"
proof -
  let ?kn = "quiet_kern\<lparr>kn_mem := fresh_kmem\<lparr>km_fail := (\<lambda>_. True)\<rparr>\<rparr>"
  have g: "scull_get_region scull_boot ?kn = (Inr 0, scull_boot\<lparr>md_major := 250\<rparr>, snd (snd (scull_get_region scull_boot ?kn)))"
    "kn_mem (snd (snd (scull_get_region scull_boot ?kn))) = kn_mem ?kn"
    by (simp_all add: scull_get_region_def alloc_chrdev_region_def register_chrdev_region_def scull_boot_def
        quiet_kern_def SCULL_MAJOR_def)
  have m: "kmalloc n (kn_mem (snd (snd (scull_get_region scull_boot ?kn)))) =
      (None, (kn_mem ?kn)\<lparr>km_next := Suc (km_next (kn_mem ?kn))\<rparr>)" for n
    unfolding g(2) by (simp add: kmalloc_def)
  show ?thesis
    by (rule scull_init_without_memory [OF _ _ _ _ g(1) m])
      (simp_all add: quiet_boot kmem_ok_def fresh_kmem_def)
qed

end
