(* ===== verification/List_Device.thy ===== *)
theory List_Device
  imports Scull_Main
begin

text \<open>
  What the drivers scullc, scullp, scullv and sculld of Kernel/Driver/ldd3-master share. They
  differ from the bare scull device in that the device itself is the first item of its list, in
  how a quantum is allocated and cleared, and in that a device that is mapped is not trimmed.
  The operations take what differs between the drivers as arguments; \<open>List_Drivers\<close> supplies it.
\<close>

section \<open>State\<close>

text \<open>An item of the list is a \<open>struct scullp_dev\<close>. Of the fields of an item after the first
  only \<open>data\<close>, \<open>next\<close> and \<open>order\<close> (\<open>quantum\<close> in scullc) are used; the last is \<open>it_unit\<close>, 0 in an
  item that \<open>follow\<close> has allocated and cleared. A mutex is a semaphore with the count 1.\<close>

record list_item = qnode +
  it_unit :: int

record list_dev =
  ld_items :: "list_item list"
  ld_qset :: int
  ld_size :: int
  ld_vmas :: int
  ld_sem :: int

text \<open>The parameters: the \<open>quantum\<close> of scullc or the \<open>order\<close> of the others, and \<open>qset\<close>.\<close>

record list_globals =
  lg_unit :: int
  lg_qset :: int

definition clear_item :: "addr \<Rightarrow> list_item" where
  "clear_item a = \<lparr>qn_at = a, qn_data = None, it_unit = 0\<rparr>"

definition ld_unit :: "list_dev \<Rightarrow> int" where
  "ld_unit dev = it_unit (hd (ld_items dev))"

section \<open>Operations\<close>

text \<open>A mapped device is left alone. Otherwise the data of all items is freed, and all items
  but the first.\<close>

definition ld_trim ::
    "list_globals \<Rightarrow> list_dev \<Rightarrow> kmem \<Rightarrow> ((errno + int) \<times> list_dev \<times> kmem) outcome" where
  "ld_trim g dev k =
     (if ld_vmas dev \<noteq> 0 then Done (Inl EBUSY, dev, k)
      else
        let dptr = hd (ld_items dev) in
        and_then (free_item_data (ld_qset dev) dptr k) (\<lambda>k.
        and_then (free_items (ld_qset dev) (tl (ld_items dev)) k) (\<lambda>k.
          Done (Inr 0, dev\<lparr>ld_size := 0, ld_qset := lg_qset g,
            ld_items := [dptr\<lparr>qn_data := None, it_unit := lg_unit g\<rparr>]\<rparr>, k))))"

definition ld_open ::
    "list_globals \<Rightarrow> bool \<Rightarrow> int \<Rightarrow> list_dev \<Rightarrow> kmem \<Rightarrow>
     ((errno + int) \<times> list_dev \<times> kmem) outcome" where
  "ld_open g sig f_flags dev k =
     (if write_only f_flags
      then and_then (down_interruptible sig (ld_sem dev)) (\<lambda>d.
        case d of
          Inl _ \<Rightarrow> Done (Inl ERESTARTSYS, dev, k)
        | Inr sem \<Rightarrow>
            and_then (ld_trim g (dev\<lparr>ld_sem := sem\<rparr>) k) (\<lambda>(_, dev, k).
              Done (Inr 0, dev\<lparr>ld_sem := up (ld_sem dev)\<rparr>, k)))
      else Done (Inr 0, dev, k))"

definition ld_release :: "list_dev \<Rightarrow> (errno + int) \<times> list_dev" where
  "ld_release dev = (Inr 0, dev)"

text \<open>\<open>bytes\<close> is the size of an item. The result of \<open>kmalloc\<close> goes to \<open>memset\<close> unchecked.\<close>

definition ld_follow ::
    "int \<Rightarrow> list_dev \<Rightarrow> int \<Rightarrow> kmem \<Rightarrow> (nat \<times> list_dev \<times> kmem) outcome" where
  "ld_follow bytes dev n k =
     (case follow_steps clear_item bytes (loop_count n) 0 (ld_items dev) k of
        (None, _, _) \<Rightarrow> Crash Null_deref
      | (Some i, qs, k) \<Rightarrow> Done (i, dev\<lparr>ld_items := qs\<rparr>, k))"

text \<open>\<open>quantum\<close> and \<open>qset\<close> are the local variables, read before the lock is taken.\<close>

definition ld_read_with ::
    "int \<Rightarrow> int \<Rightarrow> int \<Rightarrow> bool \<Rightarrow> nat \<Rightarrow> list_dev \<Rightarrow> int \<Rightarrow> int \<Rightarrow> kmem \<Rightarrow> list_dev io outcome" where
  "ld_read_with bytes quantum qset sig room dev cnt f_pos k =
     and_then (down_interruptible sig (ld_sem dev)) (\<lambda>d.
       case d of
         Inl _ \<Rightarrow> io_result (Inl ERESTARTSYS) [] f_pos dev k
       | Inr sem \<Rightarrow>
           let dev = dev\<lparr>ld_sem := sem\<rparr>;
               out = (\<lambda>ret bs pos dev k.
                        io_result ret bs pos (dev\<lparr>ld_sem := up (ld_sem dev)\<rparr>) k)
           in
           if u64 f_pos > ld_size dev then out (Inr 0) [] f_pos dev k
           else
             let cnt = until_eof (ld_size dev) f_pos cnt in
             and_then (locate quantum qset f_pos) (\<lambda>(item, s_pos, q_pos).
             and_then (ld_follow bytes dev item k) (\<lambda>(i, dev, k).
             and_then (peek (ld_items dev ! i) s_pos) (\<lambda>q.
               case q of
                 None \<Rightarrow> out (Inr 0) [] f_pos dev k
               | Some (a, cs) \<Rightarrow>
                   let cnt = within_quantum quantum q_pos cnt in
                   and_then (load_cells cs q_pos cnt) (\<lambda>src.
                     case copy_to_user room src of (bs, missing) \<Rightarrow>
                       if missing \<noteq> 0 then out (Inl EFAULT) bs f_pos dev k
                       else out (Inr cnt) bs (s64 (f_pos + cnt)) dev k)))))"

definition ld_write_with ::
    "int \<Rightarrow> (list_item \<Rightarrow> kmem \<Rightarrow> (quantum_block option \<times> kmem) outcome) \<Rightarrow> int \<Rightarrow> int \<Rightarrow>
     bool \<Rightarrow> byte list \<Rightarrow> list_dev \<Rightarrow> int \<Rightarrow> int \<Rightarrow> kmem \<Rightarrow> list_dev io outcome" where
  "ld_write_with bytes alloc quantum qset sig ubuf dev cnt f_pos k =
     and_then (down_interruptible sig (ld_sem dev)) (\<lambda>d.
       case d of
         Inl _ \<Rightarrow> io_result (Inl ERESTARTSYS) [] f_pos dev k
       | Inr sem \<Rightarrow>
           let dev = dev\<lparr>ld_sem := sem\<rparr>;
               out = (\<lambda>ret pos dev k.
                        io_result ret [] pos (dev\<lparr>ld_sem := up (ld_sem dev)\<rparr>) k)
           in
           and_then (locate quantum qset f_pos) (\<lambda>(item, s_pos, q_pos).
           and_then (ld_follow bytes dev item k) (\<lambda>(i, dev, k).
           and_then (fill_quantum qset (alloc (ld_items dev ! i)) quantum (ld_items dev ! i)
               s_pos q_pos ubuf cnt k) (\<lambda>(ret, node, k).
             let dev = dev\<lparr>ld_items := (ld_items dev)[i := node]\<rparr> in
             case ret of
               Inl e \<Rightarrow> out (Inl e) f_pos dev k
             | Inr n \<Rightarrow>
                 let pos = s64 (f_pos + n) in
                 out (Inr n) pos
                   (if ld_size dev < u64 pos then dev\<lparr>ld_size := u64 pos\<rparr> else dev) k))))"

definition ld_llseek :: "list_dev \<Rightarrow> int \<Rightarrow> int \<Rightarrow> int \<Rightarrow> (errno + int) \<times> int" where
  "ld_llseek dev f_pos off whence =
     (let seek = (\<lambda>newpos. if newpos < 0 then (Inl EINVAL, f_pos) else (Inr newpos, newpos)) in
      if whence = 0 then seek off
      else if whence = 1 then seek (s64 (f_pos + off))
      else if whence = 2 then seek (s64 (ld_size dev + off))
      else (Inl EINVAL, f_pos))"

subsection \<open>Memory mapping\<close>

definition PAGE_SIZE :: int where "PAGE_SIZE = 4096"
definition PAGE_SHIFT :: nat where "PAGE_SHIFT = 12"

definition ld_vma_open :: "list_dev \<Rightarrow> list_dev" where
  "ld_vma_open dev = dev\<lparr>ld_vmas := s32 (ld_vmas dev + 1)\<rparr>"

definition ld_vma_close :: "list_dev \<Rightarrow> list_dev" where
  "ld_vma_close dev = dev\<lparr>ld_vmas := s32 (ld_vmas dev - 1)\<rparr>"

text \<open>The loop \<open>for (ptr = dev; ptr && offset >= dev->qset;)\<close>: the item and the index in it, or
  no item. \<open>dev->qset\<close> is converted to \<open>unsigned long\<close>.\<close>

fun page_item :: "int \<Rightarrow> list_item list \<Rightarrow> int \<Rightarrow> (list_item \<times> int) option" where
  "page_item qset [] offset = None"
| "page_item qset (ptr # next) offset =
     (if offset \<ge> u64 qset then page_item qset next (u64 (offset - qset)) else Some (ptr, offset))"

text \<open>What a page fault gets: a page, here its frame in a quantum: the address of the block and
  the number of the byte of it the page starts at; the error \<open>VM_FAULT_SIGBUS\<close>; or 0
  without a page.\<close>

datatype fault_result = Fault_page addr int | Fault_sigbus | Fault_no_page

text \<open>\<open>out_of_range\<close> is what the method answers when the offset is not below the size;
  \<open>address\<close>, \<open>start\<close> and \<open>pgoff\<close> are the faulting address, the start of the area and the
  page the area starts at in the file.\<close>

definition fault_offset :: "int \<Rightarrow> int \<Rightarrow> int \<Rightarrow> int" where
  "fault_offset start pgoff address = u64 (u64 (address - start) + u64 (pgoff * PAGE_SIZE))"

definition ld_vma_fault ::
    "fault_result \<Rightarrow> list_dev \<Rightarrow> int \<Rightarrow> int \<Rightarrow> int \<Rightarrow> (fault_result \<times> list_dev) outcome" where
  "ld_vma_fault out_of_range dev start pgoff address =
     and_then (down (ld_sem dev)) (\<lambda>sem.
       let dev = dev\<lparr>ld_sem := sem\<rparr>;
           out = (\<lambda>r. Done (r, dev\<lparr>ld_sem := up (ld_sem dev)\<rparr>));
           offset = fault_offset start pgoff address
       in if offset \<ge> ld_size dev then out out_of_range
          else
            case page_item (ld_qset dev) (ld_items dev) (drop_bit PAGE_SHIFT offset) of
              None \<Rightarrow> out Fault_sigbus
            | Some (ptr, i) \<Rightarrow>
                and_then (peek ptr i) (\<lambda>q.
                  case q of
                    None \<Rightarrow> out Fault_sigbus
                  | Some (a, cs) \<Rightarrow> out (Fault_page a 0)))"

section \<open>The invariant\<close>

definition ld_read ::
    "int \<Rightarrow> (int \<Rightarrow> int) \<Rightarrow> bool \<Rightarrow> nat \<Rightarrow> list_dev \<Rightarrow> int \<Rightarrow> int \<Rightarrow> kmem \<Rightarrow> list_dev io outcome" where
  "ld_read bytes qof sig room dev = ld_read_with bytes (qof (ld_unit dev)) (ld_qset dev) sig room dev"

definition ld_write ::
    "int \<Rightarrow> (list_item \<Rightarrow> kmem \<Rightarrow> (quantum_block option \<times> kmem) outcome) \<Rightarrow> (int \<Rightarrow> int) \<Rightarrow>
     bool \<Rightarrow> byte list \<Rightarrow> list_dev \<Rightarrow> int \<Rightarrow> int \<Rightarrow> kmem \<Rightarrow> list_dev io outcome" where
  "ld_write bytes alloc qof sig ubuf dev =
     ld_write_with bytes alloc (qof (ld_unit dev)) (ld_qset dev) sig ubuf dev"

text \<open>As for the bare device; the list is never empty, and the size leaves room for the item that
  a read at the end of the file may add.\<close>

definition ld_wf :: "int \<Rightarrow> list_dev \<Rightarrow> bool" where
  "ld_wf quantum dev \<longleftrightarrow>
     ld_items dev \<noteq> [] \<and> geometry quantum (ld_qset dev) \<and>
     list_all (node_ok quantum (ld_qset dev)) (ld_items dev) \<and>
     length (ld_items dev) \<le> 2147483648 \<and> 0 \<le> ld_size dev \<and>
     ld_size dev \<le> int (length (ld_items dev)) * (quantum * ld_qset dev) \<and>
     ld_size dev \<le> 2147483647 * (quantum * ld_qset dev)"

definition ld_cell :: "int \<Rightarrow> list_dev \<Rightarrow> int \<Rightarrow> cell option" where
  "ld_cell quantum dev p = cell_at quantum (ld_qset dev) (ld_items dev) p"

text \<open>The objects of the device: those of its items, without the first item itself.\<close>

definition items_addrs :: "list_item list \<Rightarrow> addr list" where
  "items_addrs qs = data_addrs (hd qs) @ nodes_addrs (tl qs)"

definition ld_addrs :: "list_dev \<Rightarrow> addr list" where
  "ld_addrs dev = items_addrs (ld_items dev)"

text \<open>The unit of the item a position is in, which is 0 when the item has yet to be allocated.\<close>

definition unit_at :: "int \<Rightarrow> list_dev \<Rightarrow> int \<Rightarrow> int" where
  "unit_at quantum dev p =
     (let i = nat (p div (quantum * ld_qset dev)) in
      if i < length (ld_items dev) then it_unit (ld_items dev ! i) else 0)"

text \<open>\<open>fits u v\<close> says that an item with unit \<open>v\<close> gets blocks of the size a device of unit \<open>u\<close>
  expects. The positions a write can start at are those in such items.\<close>

definition ld_reach :: "(int \<Rightarrow> int) \<Rightarrow> (int \<Rightarrow> int \<Rightarrow> bool) \<Rightarrow> list_dev \<Rightarrow> int \<Rightarrow> bool" where
  "ld_reach qof fits dev p \<longleftrightarrow> 0 \<le> p \<and> p div (qof (ld_unit dev) * ld_qset dev) < 2147483647 \<and>
     fits (ld_unit dev) (unit_at (qof (ld_unit dev)) dev p)"

text \<open>No allocation of an item fails.\<close>

definition item_mem :: "int \<Rightarrow> kmem \<Rightarrow> bool" where
  "item_mem bytes k \<longleftrightarrow> (\<forall>n. \<not> km_fail k n) \<and> u64 bytes \<le> km_max k"

definition same_conf :: "kmem \<Rightarrow> kmem \<Rightarrow> bool" where
  "same_conf k k' \<longleftrightarrow> km_fail k' = km_fail k \<and> km_max k' = km_max k"

section \<open>Lemmas\<close>

lemma same_conf_refl [simp]: "same_conf k k"
  by (simp add: same_conf_def)

lemma same_conf_trans: "same_conf k k' \<Longrightarrow> same_conf k' k'' \<Longrightarrow> same_conf k k''"
  by (simp add: same_conf_def)

lemma item_mem_conf: "same_conf k k' \<Longrightarrow> item_mem bytes k' = item_mem bytes k"
  by (simp add: same_conf_def item_mem_def)

lemma kmalloc_conf: "kmalloc n k = (r, k') \<Longrightarrow> same_conf k k'"
  by (auto simp: kmalloc_def same_conf_def split: if_splits)

lemma kfree_conf: "kfree a k = Done k' \<Longrightarrow> same_conf k k'"
  by (auto simp: kfree_def same_conf_def split: option.splits)

lemma kmalloc_item: "item_mem bytes k \<Longrightarrow> \<exists>a k'. kmalloc bytes k = (Some a, k')"
  by (simp add: kmalloc_def item_mem_def)

lemma clear_item_simps [simp]:
  "qn_data (clear_item a) = None" "qn_at (clear_item a) = a" "node_ok quantum qset (clear_item a)"
  "it_unit (clear_item a) = 0"
  by (simp_all add: clear_item_def node_ok_def)

lemma follow_steps_total:
  "item_mem bytes k \<Longrightarrow> \<exists>j qs' k'. follow_steps new bytes n i qs k = (Some j, qs', k') \<and> same_conf k k'"
proof (induction n arbitrary: i qs k)
  case (Suc n)
  show ?case
  proof (cases "Suc i < length qs")
    case True
    then show ?thesis using Suc.IH [OF Suc.prems, of "Suc i" qs] by simp
  next
    case False
    obtain a k1 where a: "kmalloc bytes k = (Some a, k1)" using kmalloc_item Suc.prems by blast
    then have c: "same_conf k k1" by (rule kmalloc_conf)
    then have "item_mem bytes k1" using Suc.prems by (simp add: item_mem_conf)
    from Suc.IH [OF this, of "Suc i" "qs @ [new a]"] obtain j qs' k' where
      "follow_steps new bytes n (Suc i) (qs @ [new a]) k1 = (Some j, qs', k')" "same_conf k1 k'" by blast
    then show ?thesis using a False same_conf_trans [OF c] by auto
  qed
qed simp

lemma ld_follow_result:
  assumes "item_mem bytes k" "ld_items dev \<noteq> []" "0 \<le> n" "n < 2147483648"
  obtains as k' where
    "ld_follow bytes dev n k = Done (nat n, dev\<lparr>ld_items := ld_items dev @ map clear_item as\<rparr>, k')"
    "nat n < length (ld_items dev @ map clear_item as)"
    "length (ld_items dev @ map clear_item as) \<le> max (length (ld_items dev)) (Suc (nat n))"
    "\<And>f. accounted k f k' (as @ f)" "same_conf k k'"
proof -
  obtain j qs k' where st: "follow_steps clear_item bytes (nat n) 0 (ld_items dev) k = (Some j, qs, k')"
      and c: "same_conf k k'"
    using follow_steps_total [OF assms(1)] by blast
  have "0 < length (ld_items dev)" using assms(2) by simp
  from follow_steps_result [OF st this] obtain as where as: "qs = ld_items dev @ map clear_item as"
      "j = 0 + nat n" "j < length qs" "length qs \<le> max (length (ld_items dev)) (Suc (0 + nat n))"
      "\<forall>f. accounted k f k' (as @ f)" by auto
  then show ?thesis
    using st c assms(3,4) by (intro that [of as k']) (auto simp: ld_follow_def loop_count_nonneg)
qed

lemma ld_follow_present:
  assumes "0 \<le> n" "n < int (length (ld_items dev))" "length (ld_items dev) \<le> 2147483648"
  shows "ld_follow bytes dev n k = Done (nat n, dev, k)"
proof -
  have "n < 2147483648" "0 + nat n < length (ld_items dev)" using assms by auto
  with assms(1) follow_steps_present [of 0 "nat n" "ld_items dev" clear_item bytes k] show ?thesis
    by (simp add: ld_follow_def loop_count_nonneg)
qed

lemma items_addrs_cleared: "qs \<noteq> [] \<Longrightarrow> items_addrs (qs @ map clear_item as) = items_addrs qs @ as"
  by (cases qs) (simp_all add: items_addrs_def nodes_addrs_cleared)

lemma items_addrs_update:
  assumes "i < length qs" and "qn_at node' = qn_at (qs ! i)"
    and acc: "\<And>f. accounted k (data_addrs (qs ! i) @ f) k' (data_addrs node' @ f)"
  shows "accounted k (items_addrs qs @ f) k' (items_addrs (qs[i := node']) @ f)"
proof (cases qs)
  case Nil
  then show ?thesis using assms(1) by simp
next
  case (Cons q qs')
  show ?thesis
  proof (cases i)
    case 0
    then show ?thesis using acc [of "nodes_addrs qs' @ f"] Cons by (simp add: items_addrs_def)
  next
    case (Suc j)
    have "accounted k (nodes_addrs qs' @ data_addrs q @ f) k' (nodes_addrs (qs'[j := node']) @ data_addrs q @ f)"
      using assms Cons Suc by (intro nodes_addrs_update) auto
    then show ?thesis
      by (subst accounted_mset [where as' = "nodes_addrs qs' @ data_addrs q @ f" and
          bs' = "nodes_addrs (qs'[j := node']) @ data_addrs q @ f"])
        (simp_all add: Cons Suc items_addrs_def)
  qed
qed

lemma ld_wf_size:
  assumes "ld_wf q dev"
  shows "ld_size dev < 4611686018427387904"
proof -
  let ?I = "q * ld_qset dev"
  have "0 < ?I" "?I < 2147483648" "ld_size dev \<le> 2147483647 * ?I"
    using assms geometry_bounds(3) by (auto simp: ld_wf_def geometry_def)
  then show ?thesis by linarith
qed

lemma ld_wf_item:
  assumes "ld_wf q dev" "0 \<le> p" "p < ld_size dev"
  shows "p div (q * ld_qset dev) < int (length (ld_items dev))"
proof -
  have "0 < q * ld_qset dev" "p < int (length (ld_items dev)) * (q * ld_qset dev)"
    using assms geometry_bounds(3) by (auto simp: ld_wf_def)
  then show ?thesis by (rule int_div_less)
qed

text \<open>The invariant of a longer list with at least as large a size.\<close>

lemma ld_wf_grow:
  assumes wf: "ld_wf q dev" and qs: "length (ld_items dev) \<le> length qs" "length qs \<le> 2147483648"
      "list_all (node_ok q (ld_qset dev)) qs"
    and len: "ld_size dev \<le> len" "len \<le> max (ld_size dev) (int (length qs) * (q * ld_qset dev))"
      "len \<le> 2147483647 * (q * ld_qset dev)"
  shows "ld_wf q (dev\<lparr>ld_items := qs, ld_size := len, ld_sem := s\<rparr>)"
proof -
  have "int (length (ld_items dev)) * (q * ld_qset dev) \<le> int (length qs) * (q * ld_qset dev)"
    using qs(1) wf geometry_bounds(3) by (intro mult_right_mono) (auto simp: ld_wf_def less_imp_le)
  then show ?thesis using wf qs len by (auto simp: ld_wf_def)
qed

lemma ensure_array_conf: "ensure_array qset node k = (r, k') \<Longrightarrow> same_conf k k'"
  by (auto simp: ensure_array_def split: option.splits prod.splits dest: kmalloc_conf)

lemma ensure_quantum_conf:
  "\<lbrakk>ensure_quantum al arr s k = Done (r, k'); \<And>k q k'. al k = Done (q, k') \<Longrightarrow> same_conf k k'\<rbrakk>
    \<Longrightarrow> same_conf k k'"
  by (auto simp: ensure_quantum_def and_then_Done_iff split: option.splits)

lemma fill_quantum_conf:
  assumes "fill_quantum qset al quantum node s r ubuf n k = Done (ret, node', k')"
    and al: "\<And>k q k'. al k = Done (q, k') \<Longrightarrow> same_conf k k'"
  shows "same_conf k k'"
proof -
  obtain arr k1 where ea: "ensure_array qset node k = (arr, k1)" by fastforce
  note c = ensure_array_conf [OF ea]
  show ?thesis
  proof (cases arr)
    case None
    then show ?thesis using assms(1) ea c by (simp add: fill_quantum_def)
  next
    case (Some a)
    then obtain q k2 where eq: "ensure_quantum al a s k1 = Done (q, k2)" and "k' = k2"
      using assms(1) ea
      by (auto simp: fill_quantum_def and_then_Done_iff Let_def split_beta split: option.splits)
    then show ?thesis
      using ensure_quantum_conf [OF eq, of] al same_conf_trans [OF c] by blast
  qed
qed

lemma read_spec_present:
  assumes "pos < len" "m = min cnt (min (len - pos) (quantum - pos mod quantum))" "0 \<le> m"
  shows "read_spec cell len quantum room cnt pos =
    (if cell pos = None then (Inr 0, [], pos)
     else case copy_to_user room (map (\<lambda>j. the (cell (pos + int j))) [0..<nat m]) of
       (bs, missing) \<Rightarrow> if missing \<noteq> 0 then (Inl EFAULT, bs, pos) else (Inr m, bs, pos + m))"
  using assms by (auto simp: read_spec_def copy_to_user_def Let_def)

lemma unit_at_extend:
  assumes "\<exists>as. map it_unit (ld_items dev') = map it_unit (ld_items dev @ map clear_item as)"
    and "ld_qset dev' = ld_qset dev"
  shows "unit_at q dev' p = unit_at q dev p"
proof -
  obtain as where as: "map it_unit (ld_items dev') = map it_unit (ld_items dev @ map clear_item as)"
    using assms(1) by blast
  have unit: "(if i < length qs then it_unit (qs ! i) else 0) =
      (if i < length (map it_unit qs) then map it_unit qs ! i else 0)" for i and qs :: "list_item list"
    by simp
  have "map it_unit (ld_items dev @ map clear_item as) = map it_unit (ld_items dev) @ replicate (length as) 0"
    by (simp add: comp_def map_replicate_const)
  then show ?thesis
    unfolding unit_at_def Let_def unit as assms(2) by (auto simp: nth_append)
qed

section \<open>The drivers\<close>

locale list_driver =
  fixes bytes :: int and qof :: "int \<Rightarrow> int"
    and alloc :: "list_item \<Rightarrow> kmem \<Rightarrow> (quantum_block option \<times> kmem) outcome"
    and fits :: "int \<Rightarrow> int \<Rightarrow> bool"
  assumes allocator: "fits u (it_unit it) \<Longrightarrow> quantum_allocator (alloc it) (qof u)"
    and alloc_conf: "alloc it k = Done (q, k') \<Longrightarrow> same_conf k k'"
begin

lemma read_result:
  assumes wf: "ld_wf (qof (ld_unit dev)) dev" and sem: "0 < ld_sem dev" and m: "item_mem bytes k"
    and p: "0 \<le> f_pos" "f_pos < 9223372036854775808"
    and n: "0 \<le> cnt" "cnt < 9223372036854775808"
  obtains as k' where
    "ld_read bytes qof sig room dev cnt f_pos k =
     (case read_spec (ld_cell (qof (ld_unit dev)) dev) (ld_size dev) (qof (ld_unit dev)) room cnt f_pos of
        (ret, bs, pos) \<Rightarrow> io_result ret bs pos (dev\<lparr>ld_items := ld_items dev @ map clear_item as\<rparr>) k')"
    "f_pos \<noteq> ld_size dev \<longrightarrow> as = [] \<and> k' = k" "length (ld_items dev @ map clear_item as) \<le> 2147483648"
    "same_conf k k'" "\<And>f. accounted k f k' (as @ f)"
proof -
  define q where "q = qof (ld_unit dev)"
  let ?I = "q * ld_qset dev"
  let ?i = "f_pos div ?I" and ?r = "f_pos mod q"
  let ?locked = "dev\<lparr>ld_sem := ld_sem dev - 1\<rparr>"
  have wf: "ld_wf q dev" using wf q_def by simp
  then have g: "geometry q (ld_qset dev)" and ok: "list_all (node_ok q (ld_qset dev)) (ld_items dev)"
    and ne: "ld_items dev \<noteq> []" and ln: "length (ld_items dev) \<le> 2147483648"
    by (auto simp: ld_wf_def)
  have I: "0 < ?I" using geometry_bounds(3) [OF g] .
  have u: "u64 f_pos = f_pos" using p by (simp add: u64_id)
  note size = ld_wf_size [OF wf] and rd = ld_read_def ld_read_with_def q_def [symmetric] u
  consider (below) "f_pos < ld_size dev" | (eof) "f_pos = ld_size dev" | (beyond) "ld_size dev < f_pos"
    by linarith
  then show ?thesis
  proof cases
    case beyond
    then show ?thesis
      using sem ln by (intro that [of "[]" k]) (simp_all add: rd read_spec_def Let_def)
  next
    case below
    let ?m = "min cnt (min (ld_size dev - f_pos) (q - ?r))"
    note item = ld_wf_item [OF wf p(1) below]
    have i0: "0 \<le> ?i" using I p by (simp add: pos_imp_zdiv_nonneg_iff)
    have lt: "?i < 2147483648" using item ln by linarith
    note loc = locate_ok [OF g p(1) lt]
    have follow: "ld_follow bytes ?locked ?i k = Done (nat ?i, ?locked, k)"
      using item ln i0 by (intro ld_follow_present) simp_all
    have m: "0 \<le> ?m" "?m \<le> q - ?r" using n below loc(4,5) by auto
    have c1: "until_eof (ld_size dev) f_pos cnt = min cnt (ld_size dev - f_pos)"
      using below size p n by (intro until_eof_min) auto
    have c2: "within_quantum q ?r (min cnt (ld_size dev - f_pos)) = ?m"
      using loc(4,5) geometry_bounds(1) [OF g] by (simp add: within_quantum_min min.assoc)
    have pos: "s64 (f_pos + ?m) = f_pos + ?m" using m p size below by (intro s64_id) auto
    have idx: "nat ?i < length (ld_items dev)" using item i0 by (simp add: nat_less_iff)
    note spec = read_spec_present [OF below refl m(1), of "ld_cell q dev" room]
    note step = rd follow loc(1) c1 c2 pos
    show ?thesis
    proof (cases rule: store_read [OF ok g p(1) refl idx m])
      case 1
      then show ?thesis
        using sem below ln
        by (intro that [of "[]" k]) (simp_all add: step spec ld_cell_def Let_def cong: if_cong)
    next
      case (2 a cs)
      have "ld_read bytes qof sig room dev cnt f_pos k =
          (case copy_to_user room (map (\<lambda>j. the (ld_cell q dev (f_pos + int j))) [0..<nat ?m]) of
             (bs, missing) \<Rightarrow>
               if missing \<noteq> 0 then io_result (Inl EFAULT) bs f_pos dev k
               else io_result (Inr ?m) bs (f_pos + ?m) dev k)"
        using sem below 2 by (simp add: step ld_cell_def Let_def cong: if_cong)
      moreover obtain v where "ld_cell q dev f_pos = Some v" using 2(2) by (auto simp: ld_cell_def)
      ultimately show ?thesis
        using ln by (intro that [of "[]" k]) (simp_all add: spec q_def [symmetric] split_beta)
    qed
  next
    case eof
    have i: "0 \<le> ?i" "?i \<le> 2147483647"
    proof -
      show "0 \<le> ?i" using I p by (simp add: pos_imp_zdiv_nonneg_iff)
      have "f_pos div ?I \<le> 2147483647 * ?I div ?I"
        using eof wf I by (intro zdiv_mono1) (auto simp: ld_wf_def)
      moreover have "2147483647 * ?I div ?I = 2147483647" using I by (intro nonzero_mult_div_cancel_right) auto
      ultimately show "?i \<le> 2147483647" by linarith
    qed
    then have lt: "?i < 2147483648" by linarith
    note loc = locate_ok [OF g p(1) lt]
    obtain as k' where fo:
        "ld_follow bytes ?locked ?i k = Done (nat ?i, ?locked\<lparr>ld_items := ld_items dev @ map clear_item as\<rparr>, k')"
        "nat ?i < length (ld_items dev @ map clear_item as)"
        "length (ld_items dev @ map clear_item as) \<le> max (length (ld_items dev)) (Suc (nat ?i))"
        "\<And>f. accounted k f k' (as @ f)" "same_conf k k'"
      using ld_follow_result [OF m, of ?locked ?i] ne i(1) lt by auto
    let ?qs = "ld_items dev @ map clear_item as"
    have ok1: "list_all (node_ok q (ld_qset dev)) ?qs" using ok by (auto simp: list_all_iff)
    have c1: "until_eof f_pos f_pos cnt = 0"
      using eof size p n by (subst until_eof_min) auto
    have c2: "within_quantum q ?r 0 = 0"
      using loc(4,5) geometry_bounds(1) [OF g] by (subst within_quantum_min) auto
    have m0: "(0::int) \<le> 0" "0 \<le> q - ?r" using loc(5) by auto
    have pos: "s64 f_pos = f_pos" using p by (intro s64_id) auto
    note step = rd fo(1) loc(1) c1 c2 pos
    have spec: "read_spec (ld_cell q dev) (ld_size dev) q room cnt f_pos = (Inr 0, [], f_pos)"
      using eof by (simp add: read_spec_def)
    have "ld_read bytes qof sig room dev cnt f_pos k = io_result (Inr 0) [] f_pos (dev\<lparr>ld_items := ?qs\<rparr>) k'"
    proof (cases rule: store_read [OF ok1 g p(1) refl fo(2) m0])
      case 1
      then show ?thesis using sem by (simp add: step eof [symmetric] Let_def)
    next
      case (2 a cs)
      then show ?thesis using sem by (simp add: step eof [symmetric] Let_def copy_to_user_def)
    qed
    moreover have "length ?qs \<le> 2147483648" using fo(3) i ln by linarith
    ultimately show ?thesis using fo(4,5) eof spec q_def by (intro that [of as k']) auto
  qed
qed

lemma write_result:
  assumes wf: "ld_wf (qof (ld_unit dev)) dev" and sem: "0 < ld_sem dev" and m: "item_mem bytes k"
    and reach: "ld_reach qof fits dev f_pos" and n: "0 \<le> cnt"
  obtains ret pos dev' k' where
    "ld_write bytes alloc qof sig ubuf dev cnt f_pos k = io_result ret [] pos dev' k'"
    "ld_wf (qof (ld_unit dev)) dev'" "ld_sem dev' = ld_sem dev" "ld_vmas dev' = ld_vmas dev"
    "ld_unit dev' = ld_unit dev" "ld_qset dev' = ld_qset dev"
    "wrote (qof (ld_unit dev)) ubuf f_pos (min cnt (qof (ld_unit dev) - f_pos mod qof (ld_unit dev)))
       ret (ld_cell (qof (ld_unit dev)) dev) (ld_cell (qof (ld_unit dev)) dev')"
    "pos = (case ret of Inl e \<Rightarrow> f_pos | Inr c \<Rightarrow> f_pos + c)"
    "ld_size dev' = (case ret of Inl e \<Rightarrow> ld_size dev | Inr c \<Rightarrow> max (ld_size dev) (f_pos + c))"
    "same_conf k k'" "\<And>f. accounted k (ld_addrs dev @ f) k' (ld_addrs dev' @ f)"
    "\<exists>as. map it_unit (ld_items dev') = map it_unit (ld_items dev @ map clear_item as)"
proof -
  define q where "q = qof (ld_unit dev)"
  let ?n = "ld_qset dev" and ?I = "q * ld_qset dev"
  let ?locked = "dev\<lparr>ld_sem := ld_sem dev - 1\<rparr>" and ?i = "f_pos div ?I"
  let ?lim = "min cnt (q - f_pos mod q)"
  have wf: "ld_wf q dev" using wf q_def by simp
  then have g: "geometry q ?n" and ok: "list_all (node_ok q ?n) (ld_items dev)"
    and ne: "ld_items dev \<noteq> []" and ln: "length (ld_items dev) \<le> 2147483648"
    by (auto simp: ld_wf_def)
  have I: "0 < ?I" using geometry_bounds(3) [OF g] .
  have p: "0 \<le> f_pos" "?i < 2147483647" "?i < 2147483648"
    using reach q_def by (auto simp: ld_reach_def)
  have i0: "0 \<le> ?i" using p I by (simp add: pos_imp_zdiv_nonneg_iff)
  note loc = locate_ok [OF g p(1,3)] and bound = addressable_bound [OF g p(3)]
  obtain as k1 where fo:
      "ld_follow bytes ?locked ?i k = Done (nat ?i, ?locked\<lparr>ld_items := ld_items dev @ map clear_item as\<rparr>, k1)"
      "nat ?i < length (ld_items dev @ map clear_item as)"
      "length (ld_items dev @ map clear_item as) \<le> max (length (ld_items dev)) (Suc (nat ?i))"
      "\<And>f. accounted k f k1 (as @ f)" "same_conf k k1"
    using ld_follow_result [OF m, of ?locked ?i] ne i0 p(3) by auto
  let ?qs = "ld_items dev @ map clear_item as"
  have ok1: "list_all (node_ok q ?n) ?qs" using ok by (auto simp: list_all_iff)
  have cell1: "cell_at q ?n ?qs = ld_cell q dev"
    by (simp add: cell_at_cleared_items ld_cell_def fun_eq_iff)
  have acc1: "accounted k (ld_addrs dev @ f) k1 (items_addrs ?qs @ f)" for f
    using fo(4) [of "ld_addrs dev @ f"] ne
    by (subst accounted_mset [where as' = "ld_addrs dev @ f" and bs' = "as @ ld_addrs dev @ f"])
      (simp_all add: ld_addrs_def items_addrs_cleared)
  have "it_unit (?qs ! nat ?i) = unit_at q dev f_pos"
    using fo(2) by (auto simp: unit_at_def Let_def nth_append)
  then have "quantum_allocator (alloc (?qs ! nat ?i)) q"
    using allocator reach by (simp add: ld_reach_def q_def)
  then obtain ret node' k2 where fill: "fill_quantum ?n (alloc (?qs ! nat ?i)) q (?qs ! nat ?i)
         (f_pos mod ?I div q) (f_pos mod q) ubuf cnt k1 = Done (ret, node', k2)"
      and ok2: "list_all (node_ok q ?n) (?qs[nat ?i := node'])"
      and wr: "wrote q ubuf f_pos ?lim ret (cell_at q ?n ?qs) (cell_at q ?n (?qs[nat ?i := node']))"
      and acc: "\<And>f. accounted k1 (data_addrs (?qs ! nat ?i) @ f) k2 (data_addrs node' @ f)"
      and same: "qn_at node' = qn_at (?qs ! nat ?i)" "qnode.more node' = qnode.more (?qs ! nat ?i)"
    using quantum_allocator.store_write [OF _ ok1 g p(1) refl fo(2) n, where ubuf = ubuf and k = k1] by metis
  note acc2 = items_addrs_update [OF fo(2) same(1) acc]
  have "same_conf k1 k2" by (rule fill_quantum_conf [OF fill]) (rule alloc_conf)
  with fo(5) have conf: "same_conf k k2" by (rule same_conf_trans)
  let ?len = "case ret of Inl e \<Rightarrow> ld_size dev | Inr c \<Rightarrow> max (ld_size dev) (f_pos + c)"
  let ?dev' = "dev\<lparr>ld_items := ?qs[nat ?i := node'], ld_size := ?len, ld_sem := ld_sem dev\<rparr>"
  have ret: "0 \<le> c \<and> c \<le> q - f_pos mod q" if "ret = Inr c" for c
    using wr that n loc(5) by (auto simp: wrote_def)
  have pos: "s64 (f_pos + c) = f_pos + c" "u64 (f_pos + c) = f_pos + c" if "ret = Inr c" for c
    using ret [OF that] bound p(1) geometry_bounds(1) [OF g] loc(4)
    by (auto intro!: s64_id u64_id)
  have unit: "it_unit node' = it_unit (?qs ! nat ?i)" using same(2) by (cases node') (cases "?qs ! nat ?i", simp)
  have units: "map it_unit (?qs[nat ?i := node']) = map it_unit ?qs"
    using unit fo(2) by (metis list_update_id map_update nth_map)
  have eq: "ld_write bytes alloc qof sig ubuf dev cnt f_pos k =
      io_result ret [] (case ret of Inl e \<Rightarrow> f_pos | Inr c \<Rightarrow> f_pos + c) ?dev' k2"
    using sem loc(1) fo(1) fill pos
    by (auto simp: ld_write_def ld_write_with_def q_def [symmetric] Let_def max_def split: sum.split)
  have end1: "f_pos + c \<le> int (length (?qs[nat ?i := node'])) * ?I" if "c \<le> q - f_pos mod q" for c
    using block_end [OF g p(1) fo(2) that] by simp
  have end2: "f_pos + c \<le> 2147483647 * ?I" if "c \<le> q - f_pos mod q" for c
    using block_end [OF g p(1) _ that, of 2147483647] p(2) i0 by (simp add: nat_less_iff)
  have "length ?qs \<le> 2147483648" using fo(3) p(3) ln i0 by linarith
  then have "ld_wf q ?dev'"
    using ok2 end1 end2 ret wf
    by (intro ld_wf_grow [OF wf]) (auto simp: ld_wf_def split: sum.split intro: max.coboundedI2)
  moreover have "ld_unit ?dev' = ld_unit dev"
    using units ne by (cases "ld_items dev"; cases "?qs[nat ?i := node']") (auto simp: ld_unit_def)
  moreover have "ld_cell q ?dev' = cell_at q ?n (?qs[nat ?i := node'])"
    by (simp add: ld_cell_def fun_eq_iff)
  moreover have "accounted k (ld_addrs dev @ f) k2 (ld_addrs ?dev' @ f)" for f
    using accounted_trans [OF acc1 acc2] by (simp add: ld_addrs_def)
  moreover have "\<exists>as. map it_unit (ld_items ?dev') = map it_unit (ld_items dev @ map clear_item as)"
    using units by auto
  ultimately show ?thesis
    using wr cell1 conf by (intro that [folded q_def, OF eq]) simp_all
qed

end

lemma ld_wf_extend:
  assumes "ld_wf q dev" "length (ld_items dev @ map clear_item as) \<le> 2147483648"
  shows "ld_wf q (dev\<lparr>ld_items := ld_items dev @ map clear_item as\<rparr>)"
proof -
  have "ld_wf q (dev\<lparr>ld_items := ld_items dev @ map clear_item as, ld_size := ld_size dev, ld_sem := ld_sem dev\<rparr>)"
    using assms by (intro ld_wf_grow) (auto simp: ld_wf_def list_all_iff)
  then show ?thesis by simp
qed

lemma ld_extend_simps [simp]:
  "ld_items dev \<noteq> [] \<Longrightarrow> ld_unit (dev\<lparr>ld_items := ld_items dev @ qs\<rparr>) = ld_unit dev"
  "ld_cell q (dev\<lparr>ld_items := ld_items dev @ map clear_item as\<rparr>) = ld_cell q dev"
  by (simp_all add: ld_unit_def ld_cell_def cell_at_cleared_items fun_eq_iff)

text \<open>Every driver keeps the contract of a scull file, as long as items can be allocated.\<close>

sublocale list_driver \<subseteq> contract: scull_file
  "\<lambda>dev. ld_wf (qof (ld_unit dev)) dev \<and> 0 < ld_sem dev" "\<lambda>dev. ld_cell (qof (ld_unit dev)) dev"
  ld_size "\<lambda>dev. qof (ld_unit dev)" "ld_reach qof fits" "item_mem bytes"
  "ld_read bytes qof sig" "ld_write bytes alloc qof sig" for sig
proof unfold_locales
  show "0 < qof (ld_unit d)" if "ld_wf (qof (ld_unit d)) d \<and> 0 < ld_sem d" for d
    using that by (simp add: ld_wf_def geometry_def)
  show "0 \<le> p \<and> p < 9223372036854775808"
    if "ld_wf (qof (ld_unit d)) d \<and> 0 < ld_sem d" "ld_reach qof fits d p" for d p
    using that addressable_bound [of "qof (ld_unit d)" "ld_qset d" p]
    by (auto simp: ld_reach_def ld_wf_def)
next
  fix d k p n room ret bs pos
  assume d: "ld_wf (qof (ld_unit d)) d \<and> 0 < ld_sem d" and m: "item_mem bytes k"
    and p: "(0::int) \<le> p" "p < 9223372036854775808" "(0::int) \<le> n" "n < 9223372036854775808"
    and spec: "read_spec (ld_cell (qof (ld_unit d)) d) (ld_size d) (qof (ld_unit d)) room n p = (ret, bs, pos)"
  obtain as k' where r: "ld_read bytes qof sig room d n p k =
      io_result ret bs pos (d\<lparr>ld_items := ld_items d @ map clear_item as\<rparr>) k'"
      "length (ld_items d @ map clear_item as) \<le> 2147483648" "same_conf k k'"
    by (rule read_result [of d k p n sig room]) (use d m p spec in auto)
  have "ld_items d \<noteq> []" using d by (simp add: ld_wf_def)
  with r d m show "\<exists>d' k'. ld_read bytes qof sig room d n p k = io_result ret bs pos d' k' \<and> item_mem bytes k' \<and>
      (ld_wf (qof (ld_unit d')) d' \<and> 0 < ld_sem d') \<and>
      ld_cell (qof (ld_unit d')) d' = ld_cell (qof (ld_unit d)) d \<and>
      ld_size d' = ld_size d \<and> qof (ld_unit d') = qof (ld_unit d)"
    by (intro exI [of _ "d\<lparr>ld_items := ld_items d @ map clear_item as\<rparr>"] exI [of _ k'])
      (simp add: ld_wf_extend item_mem_conf)
next
  fix d k p n ubuf
  assume "ld_wf (qof (ld_unit d)) d \<and> 0 < ld_sem d" and m: "item_mem bytes k"
    and d: "ld_reach qof fits d p" "(0::int) \<le> n"
  then have wf: "ld_wf (qof (ld_unit d)) d" "0 < ld_sem d" by auto
  obtain ret pos d' k' where w: "ld_write bytes alloc qof sig ubuf d n p k = io_result ret [] pos d' k'"
      "ld_wf (qof (ld_unit d)) d'" "ld_sem d' = ld_sem d" "ld_unit d' = ld_unit d"
      "wrote (qof (ld_unit d)) ubuf p (min n (qof (ld_unit d) - p mod qof (ld_unit d))) ret
        (ld_cell (qof (ld_unit d)) d) (ld_cell (qof (ld_unit d)) d')"
      "pos = (case ret of Inl e \<Rightarrow> p | Inr c \<Rightarrow> p + c)"
      "ld_size d' = (case ret of Inl e \<Rightarrow> ld_size d | Inr c \<Rightarrow> max (ld_size d) (p + c))" "same_conf k k'"
      and qset: "ld_qset d' = ld_qset d"
      and units: "\<exists>as. map it_unit (ld_items d') = map it_unit (ld_items d @ map clear_item as)"
    by (rule write_result [OF wf m d, of sig ubuf]) (rule that)
  have "ld_reach qof fits d' = ld_reach qof fits d"
    unfolding ld_reach_def [abs_def] unit_at_extend [OF units qset] w(4) qset ..
  with w wf(2) m show "\<exists>ret d' k'.
      ld_write bytes alloc qof sig ubuf d n p k =
        io_result ret [] (case ret of Inl e \<Rightarrow> p | Inr c \<Rightarrow> p + c) d' k' \<and>
      item_mem bytes k' \<and> (ld_wf (qof (ld_unit d')) d' \<and> 0 < ld_sem d') \<and>
      qof (ld_unit d') = qof (ld_unit d) \<and>
      wrote (qof (ld_unit d)) ubuf p (min n (qof (ld_unit d) - p mod qof (ld_unit d))) ret
        (ld_cell (qof (ld_unit d)) d) (ld_cell (qof (ld_unit d')) d') \<and>
      ld_size d' = (case ret of Inl e \<Rightarrow> ld_size d | Inr c \<Rightarrow> max (ld_size d) (p + c)) \<and>
      (\<forall>p'. ld_reach qof fits d p' \<longrightarrow> ld_reach qof fits d' p')"
    by (intro exI [of _ ret] exI [of _ d'] exI [of _ k'])
      (simp add: item_mem_conf)
qed

section \<open>Trimming\<close>

lemma ld_trim_result:
  assumes "ld_wf q dev" "ld_vmas dev = 0" "owns (ld_addrs dev @ f) k"
  obtains k' where
    "ld_trim g dev k = Done (Inr 0, dev\<lparr>ld_size := 0, ld_qset := lg_qset g,
       ld_items := [(hd (ld_items dev))\<lparr>qn_data := None, it_unit := lg_unit g\<rparr>]\<rparr>, k')"
    "owns f k'" "km_live k' = km_live k |` (- set (ld_addrs dev))"
proof -
  obtain d ds where ds: "ld_items dev = d # ds" using assms(1) by (cases "ld_items dev") (auto simp: ld_wf_def)
  have "node_ok q (ld_qset dev) d" "list_all (node_ok q (ld_qset dev)) ds"
    using assms(1) ds by (auto simp: ld_wf_def)
  then have fr: "free_item_data (ld_qset dev) d k = kfree_all (data_addrs d) k"
    "free_items (ld_qset dev) ds = kfree_all (nodes_addrs ds)" for k
    by (auto simp: free_item_data_all free_items_all)
  have addrs: "ld_addrs dev = data_addrs d @ nodes_addrs ds" using ds by (simp add: ld_addrs_def items_addrs_def)
  from kfree_all_accounted [OF assms(3)] obtain k' where
    k': "kfree_all (ld_addrs dev) k = Done k'" "owns f k'" "km_live k' = km_live k |` (- set (ld_addrs dev))"
    by blast
  then obtain k1 where "kfree_all (data_addrs d) k = Done k1" "kfree_all (nodes_addrs ds) k1 = Done k'"
    by (auto simp: addrs kfree_all_append and_then_Done_iff)
  then show ?thesis
    using k'(2,3) assms(2) by (intro that [of k']) (simp_all add: ld_trim_def ds fr Let_def)
qed

section \<open>Page faults\<close>

text \<open>The block that holds a position.\<close>

definition block_at :: "int \<Rightarrow> list_dev \<Rightarrow> int \<Rightarrow> quantum_block option" where
  "block_at quantum dev p =
     (let I = quantum * ld_qset dev; i = nat (p div I) in
      if i < length (ld_items dev) then
        case qn_data (ld_items dev ! i) of
          None \<Rightarrow> None | Some arr \<Rightarrow> snd arr ! nat (p mod I div quantum)
      else None)"

lemma page_item_result:
  assumes "0 < qset" "qset < 2147483648"
  shows "0 \<le> n \<Longrightarrow> n < 18446744073709551616 \<Longrightarrow> page_item qset qs n =
    (if n div qset < int (length qs) then Some (qs ! nat (n div qset), n mod qset) else None)"
proof (induction qs arbitrary: n)
  case Nil
  then show ?case using assms by (simp add: not_less pos_imp_zdiv_nonneg_iff)
next
  case (Cons q qs)
  have u: "u64 qset = qset" using assms by (intro u64_id) auto
  show ?case
  proof (cases "n < qset")
    case True
    then show ?thesis using Cons.prems u by simp
  next
    case False
    then have n': "u64 (n - qset) = n - qset" "0 \<le> n - qset" "n - qset < 18446744073709551616"
      using Cons.prems assms by (auto intro: u64_id)
    have "n div qset = (n - qset) div qset + 1" "n mod qset = (n - qset) mod qset"
      using assms by (simp_all add: div_add_self2 [of qset "n - qset", simplified] mod_diff_left_eq)
    moreover have "0 \<le> (n - qset) div qset" using n' assms by (simp add: pos_imp_zdiv_nonneg_iff)
    ultimately show ?thesis using Cons.IH [of "n - qset"] n' False u by (simp add: nat_add_distrib)
  qed
qed

lemma block_at_slot:
  assumes "geometry q (ld_qset dev)" "0 \<le> p"
  shows "block_at q dev p =
     (let b = p div q; i = nat (b div ld_qset dev) in
      if i < length (ld_items dev) then
        case qn_data (ld_items dev ! i) of
          None \<Rightarrow> None | Some arr \<Rightarrow> snd arr ! nat (b mod ld_qset dev)
      else None)"
  using assms by (simp add: block_at_def Let_def geometry_def slot_index zdiv_zmult2_eq
      cong: option.case_cong)

lemma node_cell_block:
  "\<lbrakk>qn_data node = Some (a, ps); s < length ps; block_ok q (ps ! s); r < nat q\<rbrakk> \<Longrightarrow>
    node_cell node s r = (case ps ! s of None \<Rightarrow> None | Some (b, cs) \<Rightarrow> Some (cs ! r))"
  by (auto simp: node_cell_def block_ok_def split: option.splits)

text \<open>The cells of a block are those a read of the positions in it returns.\<close>

lemma block_at_cells:
  assumes wf: "ld_wf q dev" and p: "0 \<le> p" "p' div q = p div q" "0 \<le> p'"
  shows "ld_cell q dev p' =
    (case block_at q dev p of None \<Rightarrow> None | Some (a, cs) \<Rightarrow> Some (cs ! nat (p' mod q)))"
proof -
  have g: "geometry q (ld_qset dev)" and ok: "list_all (node_ok q (ld_qset dev)) (ld_items dev)"
    using wf by (auto simp: ld_wf_def)
  have q: "0 < q" "0 < ld_qset dev" using g by (auto simp: geometry_def)
  let ?i = "nat (p div q div ld_qset dev)" and ?s = "nat (p div q mod ld_qset dev)"
  have s: "?s < nat (ld_qset dev)" using q by simp
  show ?thesis
  proof (cases "?i < length (ld_items dev)")
    case True
    then have node: "node_ok q (ld_qset dev) (ld_items dev ! ?i)" using ok by (simp add: list_all_length)
    show ?thesis
    proof (cases "qn_data (ld_items dev ! ?i)")
      case None
      then show ?thesis
        using True g p by (simp add: ld_cell_def cell_at_block block_cell_def block_at_slot node_cell_def)
    next
      case (Some arr)
      obtain a ps where arr: "arr = (a, ps)" by fastforce
      have ps: "length ps = nat (ld_qset dev)" "block_ok q (ps ! ?s)"
        using node Some arr s by (auto simp: node_ok_def list_all_length)
      have "nat (p' mod q) < nat q" "?s < length ps" using q s ps by simp_all
      note node_cell_block [OF Some [unfolded arr] this(2) ps(2) this(1)]
      then show ?thesis
        using True Some arr g p by (simp add: ld_cell_def cell_at_block block_cell_def block_at_slot)
    qed
  next
    case False
    then show ?thesis using g p by (simp add: ld_cell_def cell_at_block block_cell_def block_at_slot)
  qed
qed

lemma fault_result:
  assumes wf: "ld_wf q dev" and sem: "0 < ld_sem dev"
    and off: "off = fault_offset start pgoff address" "off < ld_size dev"
  shows "ld_vma_fault oor dev start pgoff address =
    Done (case block_at q dev (off div PAGE_SIZE * q) of
            None \<Rightarrow> Fault_sigbus | Some (a, cs) \<Rightarrow> Fault_page a 0, dev)"
proof -
  let ?n = "off div PAGE_SIZE" and ?locked = "dev\<lparr>ld_sem := ld_sem dev - 1\<rparr>"
  have g: "geometry q (ld_qset dev)" and ok: "list_all (node_ok q (ld_qset dev)) (ld_items dev)"
    using wf by (auto simp: ld_wf_def)
  have q: "0 < q" "0 < ld_qset dev" "ld_qset dev < 2147483648" using g geometry_bounds(2) by (auto simp: geometry_def)
  have o0: "0 \<le> off" "off < 18446744073709551616" using off(1) by (simp_all add: fault_offset_def u64_def)
  then have n: "0 \<le> ?n" "?n < 18446744073709551616" by (simp_all add: PAGE_SIZE_def)
  have sh: "drop_bit PAGE_SHIFT off = ?n" by (simp add: drop_bit_eq_div PAGE_SHIFT_def PAGE_SIZE_def)
  have nq: "?n * q div q = ?n" "0 \<le> ?n * q" using q n by simp_all
  note pg = page_item_result [OF q(2,3) n, of "ld_items dev"]
  let ?i = "nat (?n div ld_qset dev)" and ?s = "?n mod ld_qset dev"
  have s: "0 \<le> ?s" "?s < ld_qset dev" using q by simp_all
  show ?thesis
  proof (cases "?n div ld_qset dev < int (length (ld_items dev))")
    case False
    then have "\<not> ?i < length (ld_items dev)" using n q by (simp add: nat_less_iff pos_imp_zdiv_nonneg_iff)
    then show ?thesis
      using sem off(2) False pg
      by (simp add: ld_vma_fault_def off(1) [symmetric] sh block_at_slot [OF g nq(2)] nq(1) Let_def)
  next
    case True
    then have i: "?i < length (ld_items dev)" using n q by (simp add: nat_less_iff pos_imp_zdiv_nonneg_iff)
    then have node: "node_ok q (ld_qset dev) (ld_items dev ! ?i)" using ok by (simp add: list_all_length)
    have "peek (ld_items dev ! ?i) ?s = Done (case qn_data (ld_items dev ! ?i) of
        None \<Rightarrow> None | Some arr \<Rightarrow> snd arr ! nat ?s)"
      using node s by (auto simp: peek_def array_get_def node_ok_def split: option.splits)
    then show ?thesis
      using sem off(2) True pg i
      by (simp add: ld_vma_fault_def off(1) [symmetric] sh block_at_slot [OF g nq(2)] nq(1) Let_def
          split: option.split)
  qed
qed

end
