(* ===== verification/List_Drivers.thy ===== *)
theory List_Drivers
  imports List_Device Scull_Ioctl
begin

text \<open>
  The drivers scullc, scullp, scullv and sculld of Kernel/Driver/ldd3-master, each as an instance
  of \<open>List_Device\<close>: how it allocates a quantum, its parameters, its file operations and its
  ioctl method (main.c), and the memory mapping of the three that have it (mmap.c).
\<close>

section \<open>Quanta\<close>

text \<open>\<open>PAGE_SIZE << order\<close> on x86-64, where the shift uses the low six bits of its count. The
  page allocator and \<open>vmalloc\<close> are requests for that many bytes.\<close>

definition page_bytes :: "int \<Rightarrow> int" where
  "page_bytes order = u64 (PAGE_SIZE * 2 ^ nat (order mod 64))"

text \<open>\<open>int quantum = PAGE_SIZE << dev->order;\<close>\<close>

definition page_quantum :: "int \<Rightarrow> int" where
  "page_quantum order = s32 (page_bytes order)"

text \<open>\<open>memset(p, 0, n)\<close> on an object of \<open>len\<close> bytes that has just been allocated.\<close>

definition memset0 :: "int \<Rightarrow> int \<Rightarrow> cell list outcome" where
  "memset0 len n =
     (if u64 n \<le> len
      then Done (replicate (nat (u64 n)) (Some 0) @ replicate (nat (len - u64 n)) None)
      else Crash Out_of_bounds)"

definition alloc_cleared :: "int \<Rightarrow> int \<Rightarrow> kmem \<Rightarrow> (quantum_block option \<times> kmem) outcome" where
  "alloc_cleared len n k =
     (case kmalloc len k of
        (None, k) \<Rightarrow> Done (None, k)
      | (Some a, k) \<Rightarrow> and_then (memset0 (u64 len) n) (\<lambda>cs. Done (Some (a, cs), k)))"

text \<open>scullc allocates from a cache, whose objects have the size the quantum had when the module
  was loaded, and clears as many bytes as the quantum has now. The others allocate and clear as
  many pages as the order of the item says.\<close>

definition scullc_alloc ::
    "int \<Rightarrow> list_globals \<Rightarrow> list_item \<Rightarrow> kmem \<Rightarrow> (quantum_block option \<times> kmem) outcome" where
  "scullc_alloc cache g dptr k = alloc_cleared cache (lg_unit g) k"

definition scullp_alloc :: "list_item \<Rightarrow> kmem \<Rightarrow> (quantum_block option \<times> kmem) outcome" where
  "scullp_alloc dptr k = alloc_cleared (page_bytes (it_unit dptr)) (page_bytes (it_unit dptr)) k"

definition scullv_alloc :: "list_item \<Rightarrow> kmem \<Rightarrow> (quantum_block option \<times> kmem) outcome" where
  "scullv_alloc dptr k = alloc_cleared (page_bytes (it_unit dptr)) (page_bytes (it_unit dptr)) k"

definition sculld_alloc :: "list_item \<Rightarrow> kmem \<Rightarrow> (quantum_block option \<times> kmem) outcome" where
  "sculld_alloc dptr k = alloc_cleared (page_bytes (it_unit dptr)) (page_bytes (it_unit dptr)) k"

section \<open>The ioctl method\<close>

definition LIST_IOC_MAGIC :: "32 word" where "LIST_IOC_MAGIC = 75"
definition LIST_IOC_MAXNR :: "32 word" where "LIST_IOC_MAXNR = 12"

definition LIST_IOCRESET :: "32 word" where "LIST_IOCRESET = io_cmd LIST_IOC_MAGIC 0"
definition LIST_IOCSUNIT :: "32 word" where "LIST_IOCSUNIT = iow_cmd LIST_IOC_MAGIC 1"
definition LIST_IOCTUNIT :: "32 word" where "LIST_IOCTUNIT = io_cmd LIST_IOC_MAGIC 2"
definition LIST_IOCGUNIT :: "32 word" where "LIST_IOCGUNIT = ior_cmd LIST_IOC_MAGIC 3"
definition LIST_IOCQUNIT :: "32 word" where "LIST_IOCQUNIT = io_cmd LIST_IOC_MAGIC 4"
definition LIST_IOCXUNIT :: "32 word" where "LIST_IOCXUNIT = iowr_cmd LIST_IOC_MAGIC 5"
definition LIST_IOCHUNIT :: "32 word" where "LIST_IOCHUNIT = io_cmd LIST_IOC_MAGIC 6"
definition LIST_IOCSQSET :: "32 word" where "LIST_IOCSQSET = iow_cmd LIST_IOC_MAGIC 7"
definition LIST_IOCTQSET :: "32 word" where "LIST_IOCTQSET = io_cmd LIST_IOC_MAGIC 8"
definition LIST_IOCGQSET :: "32 word" where "LIST_IOCGQSET = ior_cmd LIST_IOC_MAGIC 9"
definition LIST_IOCQQSET :: "32 word" where "LIST_IOCQQSET = io_cmd LIST_IOC_MAGIC 10"
definition LIST_IOCXQSET :: "32 word" where "LIST_IOCXQSET = iowr_cmd LIST_IOC_MAGIC 11"
definition LIST_IOCHQSET :: "32 word" where "LIST_IOCHQSET = io_cmd LIST_IOC_MAGIC 12"

lemmas list_cmd_defs = LIST_IOC_MAGIC_def LIST_IOC_MAXNR_def LIST_IOCRESET_def
  LIST_IOCSUNIT_def LIST_IOCTUNIT_def LIST_IOCGUNIT_def LIST_IOCQUNIT_def LIST_IOCXUNIT_def
  LIST_IOCHUNIT_def LIST_IOCSQSET_def LIST_IOCTQSET_def LIST_IOCGQSET_def LIST_IOCQQSET_def
  LIST_IOCXQSET_def LIST_IOCHQSET_def

text \<open>The four methods are the same but for the names and the default values \<open>unit\<close> and
  \<open>qset\<close>. None of them asks for a capability.\<close>

definition list_ioctl ::
    "int \<Rightarrow> int \<Rightarrow> (int \<Rightarrow> int \<Rightarrow> bool) \<Rightarrow> 32 word \<Rightarrow> int \<Rightarrow> list_globals \<Rightarrow> umem \<Rightarrow>
     (errno + int) \<times> list_globals \<times> umem" where
  "list_ioctl unit qset access_ok cmd arg g um =
     (if ioc_type cmd \<noteq> LIST_IOC_MAGIC then (Inl ENOTTY, g, um)
      else if ioc_nr cmd > LIST_IOC_MAXNR then (Inl ENOTTY, g, um)
      else
        let err =
          (if and (ioc_dir cmd) IOC_READ \<noteq> 0 then \<not> access_ok arg (uint (ioc_size cmd))
           else if and (ioc_dir cmd) IOC_WRITE \<noteq> 0 then \<not> access_ok arg (uint (ioc_size cmd))
           else False)
        in
        if err then (Inl EFAULT, g, um)
        else if cmd = LIST_IOCRESET then (Inr 0, g\<lparr>lg_qset := qset, lg_unit := unit\<rparr>, um)
        else if cmd = LIST_IOCSUNIT then
          (case get_user um arg of (e, v) \<Rightarrow> (status e, g\<lparr>lg_unit := v\<rparr>, um))
        else if cmd = LIST_IOCTUNIT then (Inr 0, g\<lparr>lg_unit := s32 arg\<rparr>, um)
        else if cmd = LIST_IOCGUNIT then
          (case put_user (lg_unit g) arg um of (e, um) \<Rightarrow> (status e, g, um))
        else if cmd = LIST_IOCQUNIT then (Inr (lg_unit g), g, um)
        else if cmd = LIST_IOCXUNIT then
          (case get_user um arg of
             (Some e, v) \<Rightarrow> (Inl e, g\<lparr>lg_unit := v\<rparr>, um)
           | (None, v) \<Rightarrow>
               (case put_user (lg_unit g) arg um of
                  (e, um) \<Rightarrow> (status e, g\<lparr>lg_unit := v\<rparr>, um)))
        else if cmd = LIST_IOCHUNIT then (Inr (lg_unit g), g\<lparr>lg_unit := s32 arg\<rparr>, um)
        else if cmd = LIST_IOCSQSET then
          (case get_user um arg of (e, v) \<Rightarrow> (status e, g\<lparr>lg_qset := v\<rparr>, um))
        else if cmd = LIST_IOCTQSET then (Inr 0, g\<lparr>lg_qset := s32 arg\<rparr>, um)
        else if cmd = LIST_IOCGQSET then
          (case put_user (lg_qset g) arg um of (e, um) \<Rightarrow> (status e, g, um))
        else if cmd = LIST_IOCQQSET then (Inr (lg_qset g), g, um)
        else if cmd = LIST_IOCXQSET then
          (case get_user um arg of
             (Some e, v) \<Rightarrow> (Inl e, g\<lparr>lg_qset := v\<rparr>, um)
           | (None, v) \<Rightarrow>
               (case put_user (lg_qset g) arg um of
                  (e, um) \<Rightarrow> (status e, g\<lparr>lg_qset := v\<rparr>, um)))
        else if cmd = LIST_IOCHQSET then (Inr (lg_qset g), g\<lparr>lg_qset := s32 arg\<rparr>, um)
        else (Inl ENOTTY, g, um))"

section \<open>scullc\<close>

definition SCULLC_QUANTUM :: int where "SCULLC_QUANTUM = 4000"
definition SCULLC_QSET :: int where "SCULLC_QSET = 500"

definition scullc_open ::
    "list_globals \<Rightarrow> bool \<Rightarrow> int \<Rightarrow> list_dev \<Rightarrow> kmem \<Rightarrow> ((errno + int) \<times> list_dev \<times> kmem) outcome" where
  "scullc_open = ld_open"

definition scullc_release :: "list_dev \<Rightarrow> (errno + int) \<times> list_dev" where
  "scullc_release = ld_release"

definition scullc_follow :: "int \<Rightarrow> list_dev \<Rightarrow> int \<Rightarrow> kmem \<Rightarrow> (nat \<times> list_dev \<times> kmem) outcome" where
  "scullc_follow = ld_follow"

definition scullc_read ::
    "int \<Rightarrow> bool \<Rightarrow> nat \<Rightarrow> list_dev \<Rightarrow> int \<Rightarrow> int \<Rightarrow> kmem \<Rightarrow> list_dev io outcome" where
  "scullc_read bytes = ld_read bytes (\<lambda>quantum. quantum)"

definition scullc_write ::
    "int \<Rightarrow> int \<Rightarrow> list_globals \<Rightarrow> bool \<Rightarrow> byte list \<Rightarrow> list_dev \<Rightarrow> int \<Rightarrow> int \<Rightarrow> kmem \<Rightarrow> list_dev io outcome" where
  "scullc_write bytes cache g = ld_write bytes (scullc_alloc cache g) (\<lambda>quantum. quantum)"

definition scullc_ioctl ::
    "(int \<Rightarrow> int \<Rightarrow> bool) \<Rightarrow> 32 word \<Rightarrow> int \<Rightarrow> list_globals \<Rightarrow> umem \<Rightarrow> (errno + int) \<times> list_globals \<times> umem" where
  "scullc_ioctl = list_ioctl SCULLC_QUANTUM SCULLC_QSET"

definition scullc_llseek :: "list_dev \<Rightarrow> int \<Rightarrow> int \<Rightarrow> int \<Rightarrow> (errno + int) \<times> int" where
  "scullc_llseek = ld_llseek"

definition scullc_trim :: "list_globals \<Rightarrow> list_dev \<Rightarrow> kmem \<Rightarrow> ((errno + int) \<times> list_dev \<times> kmem) outcome" where
  "scullc_trim = ld_trim"

section \<open>scullp\<close>

definition SCULLP_ORDER :: int where "SCULLP_ORDER = 0"
definition SCULLP_QSET :: int where "SCULLP_QSET = 500"

definition scullp_open ::
    "list_globals \<Rightarrow> bool \<Rightarrow> int \<Rightarrow> list_dev \<Rightarrow> kmem \<Rightarrow> ((errno + int) \<times> list_dev \<times> kmem) outcome" where
  "scullp_open = ld_open"

definition scullp_release :: "list_dev \<Rightarrow> (errno + int) \<times> list_dev" where
  "scullp_release = ld_release"

definition scullp_follow :: "int \<Rightarrow> list_dev \<Rightarrow> int \<Rightarrow> kmem \<Rightarrow> (nat \<times> list_dev \<times> kmem) outcome" where
  "scullp_follow = ld_follow"

definition scullp_read ::
    "int \<Rightarrow> bool \<Rightarrow> nat \<Rightarrow> list_dev \<Rightarrow> int \<Rightarrow> int \<Rightarrow> kmem \<Rightarrow> list_dev io outcome" where
  "scullp_read bytes = ld_read bytes page_quantum"

definition scullp_write ::
    "int \<Rightarrow> bool \<Rightarrow> byte list \<Rightarrow> list_dev \<Rightarrow> int \<Rightarrow> int \<Rightarrow> kmem \<Rightarrow> list_dev io outcome" where
  "scullp_write bytes = ld_write bytes scullp_alloc page_quantum"

definition scullp_ioctl ::
    "(int \<Rightarrow> int \<Rightarrow> bool) \<Rightarrow> 32 word \<Rightarrow> int \<Rightarrow> list_globals \<Rightarrow> umem \<Rightarrow> (errno + int) \<times> list_globals \<times> umem" where
  "scullp_ioctl = list_ioctl SCULLP_ORDER SCULLP_QSET"

definition scullp_llseek :: "list_dev \<Rightarrow> int \<Rightarrow> int \<Rightarrow> int \<Rightarrow> (errno + int) \<times> int" where
  "scullp_llseek = ld_llseek"

definition scullp_trim :: "list_globals \<Rightarrow> list_dev \<Rightarrow> kmem \<Rightarrow> ((errno + int) \<times> list_dev \<times> kmem) outcome" where
  "scullp_trim = ld_trim"

text \<open>The three methods of \<open>scullp_vm_ops\<close> and the \<open>mmap\<close> method, which refuses a device with an order
  other than 0.\<close>

definition scullp_vma_open :: "list_dev \<Rightarrow> list_dev" where
  "scullp_vma_open = ld_vma_open"

definition scullp_vma_close :: "list_dev \<Rightarrow> list_dev" where
  "scullp_vma_close = ld_vma_close"

definition scullp_vma_nopage :: "list_dev \<Rightarrow> int \<Rightarrow> int \<Rightarrow> int \<Rightarrow> (fault_result \<times> list_dev) outcome" where
  "scullp_vma_nopage = ld_vma_fault Fault_no_page"

definition scullp_mmap :: "list_dev \<Rightarrow> (errno + int) \<times> list_dev" where
  "scullp_mmap dev = (if ld_unit dev \<noteq> 0 then (Inl ENODEV, dev) else (Inr 0, scullp_vma_open dev))"

section \<open>scullv\<close>

definition SCULLV_ORDER :: int where "SCULLV_ORDER = 4"
definition SCULLV_QSET :: int where "SCULLV_QSET = 500"

definition scullv_open ::
    "list_globals \<Rightarrow> bool \<Rightarrow> int \<Rightarrow> list_dev \<Rightarrow> kmem \<Rightarrow> ((errno + int) \<times> list_dev \<times> kmem) outcome" where
  "scullv_open = ld_open"

definition scullv_release :: "list_dev \<Rightarrow> (errno + int) \<times> list_dev" where
  "scullv_release = ld_release"

definition scullv_follow :: "int \<Rightarrow> list_dev \<Rightarrow> int \<Rightarrow> kmem \<Rightarrow> (nat \<times> list_dev \<times> kmem) outcome" where
  "scullv_follow = ld_follow"

definition scullv_read ::
    "int \<Rightarrow> bool \<Rightarrow> nat \<Rightarrow> list_dev \<Rightarrow> int \<Rightarrow> int \<Rightarrow> kmem \<Rightarrow> list_dev io outcome" where
  "scullv_read bytes = ld_read bytes page_quantum"

definition scullv_write ::
    "int \<Rightarrow> bool \<Rightarrow> byte list \<Rightarrow> list_dev \<Rightarrow> int \<Rightarrow> int \<Rightarrow> kmem \<Rightarrow> list_dev io outcome" where
  "scullv_write bytes = ld_write bytes scullv_alloc page_quantum"

definition scullv_ioctl ::
    "(int \<Rightarrow> int \<Rightarrow> bool) \<Rightarrow> 32 word \<Rightarrow> int \<Rightarrow> list_globals \<Rightarrow> umem \<Rightarrow> (errno + int) \<times> list_globals \<times> umem" where
  "scullv_ioctl = list_ioctl SCULLV_ORDER SCULLV_QSET"

definition scullv_llseek :: "list_dev \<Rightarrow> int \<Rightarrow> int \<Rightarrow> int \<Rightarrow> (errno + int) \<times> int" where
  "scullv_llseek = ld_llseek"

definition scullv_trim :: "list_globals \<Rightarrow> list_dev \<Rightarrow> kmem \<Rightarrow> ((errno + int) \<times> list_dev \<times> kmem) outcome" where
  "scullv_trim = ld_trim"

text \<open>The three methods of \<open>scullv_vm_ops\<close> and the \<open>mmap\<close> method, which maps a device of any order.\<close>

definition scullv_vma_open :: "list_dev \<Rightarrow> list_dev" where
  "scullv_vma_open = ld_vma_open"

definition scullv_vma_close :: "list_dev \<Rightarrow> list_dev" where
  "scullv_vma_close = ld_vma_close"

definition scullv_vma_nopage :: "list_dev \<Rightarrow> int \<Rightarrow> int \<Rightarrow> int \<Rightarrow> (fault_result \<times> list_dev) outcome" where
  "scullv_vma_nopage = ld_vma_fault Fault_no_page"

definition scullv_mmap :: "list_dev \<Rightarrow> (errno + int) \<times> list_dev" where
  "scullv_mmap dev = (Inr 0, scullv_vma_open dev)"

section \<open>sculld\<close>

definition SCULLD_ORDER :: int where "SCULLD_ORDER = 0"
definition SCULLD_QSET :: int where "SCULLD_QSET = 500"

definition sculld_open ::
    "list_globals \<Rightarrow> bool \<Rightarrow> int \<Rightarrow> list_dev \<Rightarrow> kmem \<Rightarrow> ((errno + int) \<times> list_dev \<times> kmem) outcome" where
  "sculld_open = ld_open"

definition sculld_release :: "list_dev \<Rightarrow> (errno + int) \<times> list_dev" where
  "sculld_release = ld_release"

definition sculld_follow :: "int \<Rightarrow> list_dev \<Rightarrow> int \<Rightarrow> kmem \<Rightarrow> (nat \<times> list_dev \<times> kmem) outcome" where
  "sculld_follow = ld_follow"

definition sculld_read ::
    "int \<Rightarrow> bool \<Rightarrow> nat \<Rightarrow> list_dev \<Rightarrow> int \<Rightarrow> int \<Rightarrow> kmem \<Rightarrow> list_dev io outcome" where
  "sculld_read bytes = ld_read bytes page_quantum"

definition sculld_write ::
    "int \<Rightarrow> bool \<Rightarrow> byte list \<Rightarrow> list_dev \<Rightarrow> int \<Rightarrow> int \<Rightarrow> kmem \<Rightarrow> list_dev io outcome" where
  "sculld_write bytes = ld_write bytes sculld_alloc page_quantum"

definition sculld_ioctl ::
    "(int \<Rightarrow> int \<Rightarrow> bool) \<Rightarrow> 32 word \<Rightarrow> int \<Rightarrow> list_globals \<Rightarrow> umem \<Rightarrow> (errno + int) \<times> list_globals \<times> umem" where
  "sculld_ioctl = list_ioctl SCULLD_ORDER SCULLD_QSET"

definition sculld_llseek :: "list_dev \<Rightarrow> int \<Rightarrow> int \<Rightarrow> int \<Rightarrow> (errno + int) \<times> int" where
  "sculld_llseek = ld_llseek"

definition sculld_trim :: "list_globals \<Rightarrow> list_dev \<Rightarrow> kmem \<Rightarrow> ((errno + int) \<times> list_dev \<times> kmem) outcome" where
  "sculld_trim = ld_trim"

text \<open>The three methods of \<open>sculld_vm_ops\<close> and the \<open>mmap\<close> method, which refuses a device with an order
  other than 0. A fault out of range is answered with \<open>NOPAGE_SIGBUS\<close>.\<close>

definition sculld_vma_open :: "list_dev \<Rightarrow> list_dev" where
  "sculld_vma_open = ld_vma_open"

definition sculld_vma_close :: "list_dev \<Rightarrow> list_dev" where
  "sculld_vma_close = ld_vma_close"

definition sculld_vma_nopage :: "list_dev \<Rightarrow> int \<Rightarrow> int \<Rightarrow> int \<Rightarrow> (fault_result \<times> list_dev) outcome" where
  "sculld_vma_nopage = ld_vma_fault Fault_sigbus"

definition sculld_mmap :: "list_dev \<Rightarrow> (errno + int) \<times> list_dev" where
  "sculld_mmap dev = (if ld_unit dev \<noteq> 0 then (Inl ENODEV, dev) else (Inr 0, sculld_vma_open dev))"

section \<open>The contract of the four drivers\<close>

definition cache_fits :: "int \<Rightarrow> list_globals \<Rightarrow> int \<Rightarrow> int \<Rightarrow> bool" where
  "cache_fits cache g u v \<longleftrightarrow> u = cache \<and> 0 < cache \<and> cache < 2147483648 \<and> 0 \<le> lg_unit g \<and> lg_unit g \<le> cache"

definition page_fits :: "int \<Rightarrow> int \<Rightarrow> bool" where
  "page_fits u v \<longleftrightarrow> page_bytes v = page_quantum u"

lemma alloc_cleared_allocator:
  assumes "u64 n \<le> u64 len" "u64 len = q"
  shows "quantum_allocator (\<lambda>k. alloc_cleared len n k) q"
proof
  have m: "memset0 (u64 len) n = Done (replicate (nat (u64 n)) (Some 0) @ replicate (nat (q - u64 n)) None)"
    using assms by (simp add: memset0_def)
  show "\<exists>q k'. alloc_cleared len n k = Done (q, k')" for k
    using m by (simp add: alloc_cleared_def split: prod.split option.split)
  show "length cs = nat q" if "alloc_cleared len n k = Done (Some (a, cs), k')" for k a cs k'
    using that assms m by (auto simp: alloc_cleared_def nat_diff_distrib split: prod.splits option.splits)
  show "accounted k f k' (a # f)" if "alloc_cleared len n k = Done (Some (a, cs), k')" for k a cs k' f
    using that m kmalloc_accounted(1) by (fastforce simp: alloc_cleared_def split: prod.splits option.splits)
  show "accounted k f k' f" if "alloc_cleared len n k = Done (None, k')" for k k' f
    using that m kmalloc_accounted(2) by (fastforce simp: alloc_cleared_def split: prod.splits option.splits)
qed

lemma alloc_cleared_conf: "alloc_cleared len n k = Done (q, k') \<Longrightarrow> same_conf k k'"
  by (auto simp: alloc_cleared_def and_then_Done_iff dest: kmalloc_conf split: prod.splits option.splits)

lemma page_bytes_u64 [simp]: "u64 (page_bytes n) = page_bytes n" "0 \<le> page_bytes n"
  by (simp_all add: page_bytes_def u64_def)

lemma page_bytes_0 [simp]: "page_bytes 0 = 4096" "page_quantum 0 = 4096"
  by (simp_all add: page_quantum_def page_bytes_def PAGE_SIZE_def u64_def s32_def)

lemma page_driver:
  assumes "\<And>it k. al it k = alloc_cleared (page_bytes (it_unit it)) (page_bytes (it_unit it)) k"
  shows "list_driver page_quantum al page_fits"
proof (rule list_driver.intro)
  fix u and it :: list_item assume "page_fits u (it_unit it)"
  then have "quantum_allocator (\<lambda>k. alloc_cleared (page_bytes (it_unit it)) (page_bytes (it_unit it)) k) (page_quantum u)"
    using page_bytes_u64(1) [of "it_unit it"]
    by (intro alloc_cleared_allocator) (simp_all add: page_fits_def)
  then show "quantum_allocator (al it) (page_quantum u)" by (simp add: assms [abs_def])
qed (auto simp: assms dest: alloc_cleared_conf)

interpretation scullc: list_driver bytes "\<lambda>u. u" "scullc_alloc cache g" "cache_fits cache g"
  for bytes cache g
proof (rule list_driver.intro)
  show "quantum_allocator (scullc_alloc cache g it) u" if "cache_fits cache g u (it_unit it)" for u it
    unfolding scullc_alloc_def using that
    by (intro alloc_cleared_allocator) (auto simp: cache_fits_def u64_id)
qed (auto simp: scullc_alloc_def dest: alloc_cleared_conf)

interpretation scullp: list_driver bytes page_quantum scullp_alloc page_fits for bytes
  by (rule page_driver) (simp add: scullp_alloc_def)

interpretation scullv: list_driver bytes page_quantum scullv_alloc page_fits for bytes
  by (rule page_driver) (simp add: scullv_alloc_def)

interpretation sculld: list_driver bytes page_quantum sculld_alloc page_fits for bytes
  by (rule page_driver) (simp add: sculld_alloc_def)

section \<open>Lemmas\<close>

lemmas scullc_defs = scullc_open_def scullc_release_def scullc_follow_def scullc_read_def
  scullc_write_def scullc_ioctl_def scullc_llseek_def scullc_trim_def

text \<open>The commands, as those of the bare device but without the two for the pipes.\<close>

fun list_command :: "scull_request \<Rightarrow> 32 word" where
  "list_command Reset_request = LIST_IOCRESET"
| "list_command (Quantum_request Set_op) = LIST_IOCSUNIT"
| "list_command (Quantum_request Tell_op) = LIST_IOCTUNIT"
| "list_command (Quantum_request Get_op) = LIST_IOCGUNIT"
| "list_command (Quantum_request Query_op) = LIST_IOCQUNIT"
| "list_command (Quantum_request Exchange_op) = LIST_IOCXUNIT"
| "list_command (Quantum_request Shift_op) = LIST_IOCHUNIT"
| "list_command (Qset_request Set_op) = LIST_IOCSQSET"
| "list_command (Qset_request Tell_op) = LIST_IOCTQSET"
| "list_command (Qset_request Get_op) = LIST_IOCGQSET"
| "list_command (Qset_request Query_op) = LIST_IOCQQSET"
| "list_command (Qset_request Exchange_op) = LIST_IOCXQSET"
| "list_command (Qset_request Shift_op) = LIST_IOCHQSET"
| "list_command _ = 0"

definition scull_view :: "int \<Rightarrow> list_globals \<Rightarrow> scull_globals" where
  "scull_view b g = \<lparr>g_quantum = lg_unit g, g_qset = lg_qset g, g_p_buffer = b\<rparr>"

lemmas list_cmd_values = list_cmd_defs [unfolded ioc_defs]

lemma list_ioctl_request:
  "list_ioctl u n access_ok (list_command (Quantum_request op)) arg g um =
     (if by_pointer op \<and> \<not> access_ok arg 4 then (Inl EFAULT, g, um)
      else case param_spec op arg (lg_unit g) um of (r, v, um) \<Rightarrow> (r, g\<lparr>lg_unit := v\<rparr>, um))"
  "list_ioctl u n access_ok (list_command (Qset_request op)) arg g um =
     (if by_pointer op \<and> \<not> access_ok arg 4 then (Inl EFAULT, g, um)
      else case param_spec op arg (lg_qset g) um of (r, v, um) \<Rightarrow> (r, g\<lparr>lg_qset := v\<rparr>, um))"
  by (cases op; simp add: list_ioctl_def list_cmd_values ioc_defs by_pointer_def
        get_user_def put_user_def status_def split: option.split)+

lemma list_ioctl_reset:
  "list_ioctl u n access_ok LIST_IOCRESET arg g um = (Inr 0, g\<lparr>lg_qset := n, lg_unit := u\<rparr>, um)"
  by (simp add: list_ioctl_def list_cmd_values ioc_defs)

text \<open>A position in an item that does not exist yet, when memory for items has run out.\<close>

lemma ld_follow_failed:
  assumes "kmalloc bytes k = (None, k')" "ld_items dev \<noteq> []" "int (length (ld_items dev)) \<le> n" "n < 2147483648"
  shows "ld_follow bytes dev n k = Crash Null_deref"
proof -
  have "\<exists>qs k'. follow_steps clear_item bytes m i (ld_items dev) k = (None, qs, k')"
    if "i < length (ld_items dev)" "length (ld_items dev) \<le> i + m" for i m
    using that
  proof (induction m arbitrary: i)
    case (Suc m)
    then show ?case using assms(1) by (cases "Suc i < length (ld_items dev)") auto
  qed simp
  from this [of 0 "nat n"] assms obtain qs k1 where
    "follow_steps clear_item bytes (nat n) 0 (ld_items dev) k = (None, qs, k1)" by (auto simp: le_nat_iff)
  then show ?thesis using assms by (simp add: ld_follow_def loop_count_nonneg)
qed

lemma ensure_array_fresh:
  assumes "qn_data node = None" "\<forall>n. \<not> km_fail k n" "u64 (qset * 8) \<le> km_max k"
  obtains a k' where "ensure_array qset node k = (Some (a, replicate (nat qset) None), k')" "same_conf k k'"
proof -
  obtain a k' where km: "kmalloc (qset * 8) k = (Some a, k')" using assms(2,3) by (simp add: kmalloc_def)
  then show ?thesis
    using assms(1) kmalloc_conf [OF km] by (intro that [of a k']) (simp_all add: ensure_array_def)
qed

lemma ld_vma_open_simps [simp]:
  "ld_items (ld_vma_open dev) = ld_items dev" "ld_qset (ld_vma_open dev) = ld_qset dev"
  by (simp_all add: ld_vma_open_def)

lemma free_quanta_conf: "free_quanta n ps k = Done k' \<Longrightarrow> same_conf k k'"
  by (induction n ps k rule: free_quanta.induct)
    (auto simp: and_then_Done_iff intro: same_conf_trans [OF kfree_conf])

lemma free_item_data_conf: "free_item_data qset node k = Done k' \<Longrightarrow> same_conf k k'"
  by (auto simp: free_item_data_def and_then_Done_iff intro: same_conf_trans
      dest!: kfree_conf free_quanta_conf split: option.splits)

lemma free_items_conf: "free_items qset qs k = Done k' \<Longrightarrow> same_conf k k'"
  by (induction qset qs k rule: free_items.induct)
    (auto simp: and_then_Done_iff
      intro: same_conf_trans [OF free_item_data_conf same_conf_trans [OF kfree_conf]])

lemma ld_trim_conf: "ld_trim g dev k = Done (r, dev', k') \<Longrightarrow> same_conf k k'"
  by (auto simp: ld_trim_def and_then_Done_iff Let_def intro: same_conf_trans
      dest!: free_item_data_conf free_items_conf split: if_splits)

text \<open>A write to a fresh item whose blocks are shorter than the device expects.\<close>

lemma fill_fresh_overflow:
  assumes node: "qn_data node = None" and m: "\<forall>n. \<not> km_fail k n" "u64 (qset * 8) \<le> km_max k"
    and al: "\<And>k. \<forall>n. \<not> km_fail k n \<Longrightarrow> km_max k = km_max k0 \<Longrightarrow>
      al k = Crash Out_of_bounds \<or> (\<exists>b cs k'. al k = Done (Some (b, cs), k') \<and> length cs \<le> short)"
    and k0: "km_max k0 = km_max k"
    and s: "0 \<le> s" "s < qset" and r: "0 \<le> r" "int short < r + within_quantum q r n" "0 \<le> n"
  shows "fill_quantum qset al q node s r ubuf n k = Crash Out_of_bounds"
proof -
  obtain a k1 where ea: "ensure_array qset node k = (Some (a, replicate (nat qset) None), k1)" "same_conf k k1"
    by (rule ensure_array_fresh [OF node m])
  have c: "\<forall>n. \<not> km_fail k1 n" "km_max k1 = km_max k0" using ea(2) m k0 by (simp_all add: same_conf_def)
  have get: "array_get (a, replicate (nat qset) None) s = Done None" using s by (simp add: array_get_def)
  have w: "0 \<le> within_quantum q r n" using r by (simp add: within_quantum_def)
  from al [OF c] show ?thesis
  proof
    assume "al k1 = Crash Out_of_bounds"
    then show ?thesis using ea get by (simp add: fill_quantum_def ensure_quantum_def)
  next
    assume "\<exists>b cs k'. al k1 = Done (Some (b, cs), k') \<and> length cs \<le> short"
    then obtain b cs k2 where cs: "al k1 = Done (Some (b, cs), k2)" "length cs \<le> short" by blast
    have "store_cells cs r (fst (copy_from_user ubuf (nat (within_quantum q r n)))) = Crash Out_of_bounds"
      using cs(2) r w by (simp add: store_cells_def)
    then show ?thesis using ea get cs(1)
      by (simp add: fill_quantum_def ensure_quantum_def Let_def split_beta)
  qed
qed

section \<open>Properties\<close>


text \<open>What a write of scullp has accepted a read at the same position returns. The order
  of the device is 0, or the position is in the first item.\<close>

theorem scullp_write_read:
  assumes "ld_wf (page_quantum (ld_unit dev)) dev" "0 < ld_sem dev" "item_mem bytes k"
    and "ld_reach page_quantum page_fits dev f_pos" "0 \<le> cnt" "cnt < 9223372036854775808"
    and "scullp_write bytes sig ubuf dev cnt f_pos k = io_result (Inr n) out pos dev' k'"
    and "n \<le> int room"
  shows "\<exists>dev'' k''. scullp_read bytes sig room dev' n f_pos k' =
      io_result (Inr n) (map Some (take (nat n) ubuf)) (f_pos + n) dev'' k''"
  using scullp.contract.write_read [where d = dev and p = f_pos and n = cnt and ubuf = ubuf] assms
  unfolding scullp_write_def scullp_read_def by auto


text \<open>Scullv maps devices of any order, and a fault in page \<open>n\<close> of the file gets the first page
  of quantum \<open>n\<close>, which holds the byte at \<open>n * quantum\<close>.\<close>

theorem scullv_mmap_incoherent:
  assumes "ld_wf (page_quantum (ld_unit dev)) dev" "0 < ld_sem dev"
    and "off = fault_offset start pgoff address" "off < ld_size dev"
  shows "scullv_mmap dev = (Inr 0, ld_vma_open dev) \<and>
    scullv_vma_nopage (ld_vma_open dev) start pgoff address =
      Done (case block_at (page_quantum (ld_unit dev)) dev (off div PAGE_SIZE * page_quantum (ld_unit dev)) of
              None \<Rightarrow> Fault_sigbus | Some (a, cs) \<Rightarrow> Fault_page a 0, ld_vma_open dev)"
proof -
  have wf: "ld_wf (page_quantum (ld_unit dev)) (ld_vma_open dev)" "0 < ld_sem (ld_vma_open dev)"
    "off < ld_size (ld_vma_open dev)"
    using assms by (simp_all add: ld_vma_open_def ld_wf_def)
  have "block_at q (ld_vma_open dev) p = block_at q dev p" for q p
    by (simp add: block_at_def Let_def)
  with fault_result [OF wf(1,2) assms(3) wf(3), of Fault_no_page] show ?thesis
    by (simp add: scullv_mmap_def scullv_vma_open_def scullv_vma_nopage_def)
qed

text \<open>Opening a mapped device for writing succeeds and leaves its contents alone; one that is not
  mapped is emptied, gets the current parameters and gives back exactly its memory.\<close>

theorem scullp_open_trims:
  assumes "ld_wf q dev" "0 < ld_sem dev" "owns (ld_addrs dev @ f) k" "write_only f_flags"
  shows "\<exists>dev' k'. scullp_open g sig f_flags dev k = Done (Inr 0, dev', k') \<and>
    (if ld_vmas dev \<noteq> 0 then dev' = dev \<and> k' = k
     else ld_size dev' = 0 \<and> ld_unit dev' = lg_unit g \<and> ld_qset dev' = lg_qset g \<and> ld_addrs dev' = [] \<and>
       ld_sem dev' = ld_sem dev \<and> owns f k' \<and> km_live k' = km_live k |` (- set (ld_addrs dev)))"
proof (cases "ld_vmas dev = 0")
  case False
  then show ?thesis using assms(2,4) by (simp add: scullp_open_def ld_open_def ld_trim_def)
next
  case True
  let ?locked = "dev\<lparr>ld_sem := ld_sem dev - 1\<rparr>"
  have "ld_wf q ?locked" "ld_vmas ?locked = 0" "owns (ld_addrs ?locked @ f) k"
    using assms(1,3) True by (simp_all add: ld_wf_def ld_addrs_def)
  from ld_trim_result [OF this, of g] obtain k' where
    "ld_trim g ?locked k = Done (Inr 0, ?locked\<lparr>ld_size := 0, ld_qset := lg_qset g,
       ld_items := [(hd (ld_items ?locked))\<lparr>qn_data := None, it_unit := lg_unit g\<rparr>]\<rparr>, k')"
    "owns f k'" "km_live k' = km_live k |` (- set (ld_addrs ?locked))" by blast
  then show ?thesis
    using assms(2,4) True
    by (simp add: scullp_open_def ld_open_def ld_unit_def ld_addrs_def items_addrs_def data_addrs_def)
qed

text \<open>All items of a device of scullv but the first have order 0, as \<open>follow\<close> clears them, and get
  blocks of one page, but a write copies up to the end of a quantum of the order of the device: it
  writes past the end of the block it has just allocated.\<close>

theorem scullv_second_item_overflow:
  assumes "ld_wf (page_quantum (ld_unit dev)) dev" "0 < ld_sem dev" "item_mem bytes k"
    and "length (ld_items dev) = 1" "0 \<le> p" "1 \<le> p div (page_quantum (ld_unit dev) * ld_qset dev)"
      "p div (page_quantum (ld_unit dev) * ld_qset dev) < 2147483648"
    and "ld_qset dev * 8 \<le> km_max k" "4096 \<le> km_max k" "0 \<le> cnt"
    and big: "PAGE_SIZE < p mod page_quantum (ld_unit dev) + min cnt
      (page_quantum (ld_unit dev) - p mod page_quantum (ld_unit dev))"
  shows "scullv_write bytes sig ubuf dev cnt p k = Crash Out_of_bounds"
proof -
  define q where "q = page_quantum (ld_unit dev)"
  let ?locked = "dev\<lparr>ld_sem := ld_sem dev - 1\<rparr>" and ?i = "p div (q * ld_qset dev)"
  have wf: "ld_wf q dev" using assms(1) q_def by simp
  then have g: "geometry q (ld_qset dev)" by (simp add: ld_wf_def)
  then have pos: "0 < q" "0 < ld_qset dev" "ld_qset dev < 2147483648" using geometry_bounds(2) by (auto simp: geometry_def)
  have i: "1 \<le> ?i" "?i < 2147483648" using assms(6,7) q_def by simp_all
  note loc = locate_ok [OF g assms(5) i(2)]
  have ne: "ld_items ?locked \<noteq> []" using assms(4) by auto
  obtain as k1 where fo:
      "ld_follow bytes ?locked ?i k = Done (nat ?i, ?locked\<lparr>ld_items := ld_items dev @ map clear_item as\<rparr>, k1)"
      "nat ?i < length (ld_items dev @ map clear_item as)" "same_conf k k1"
    by (rule ld_follow_result [OF assms(3) ne _ i(2)]) (use i in auto)
  let ?node = "(ld_items dev @ map clear_item as) ! nat ?i"
  have node: "?node = clear_item (as ! (nat ?i - 1))"
    using fo(2) assms(4) i(1) by (simp add: nth_append)
  have conf: "\<forall>n. \<not> km_fail k1 n" "km_max k1 = km_max k" using fo(3) assms(3) by (simp_all add: same_conf_def item_mem_def)
  have "u64 (ld_qset dev * 8) = ld_qset dev * 8" using pos by (intro u64_id) auto
  then have m: "u64 (ld_qset dev * 8) \<le> km_max k1" using assms(8) conf(2) by simp
  have al: "scullv_alloc ?node k2 = Crash Out_of_bounds \<or>
      (\<exists>b cs k'. scullv_alloc ?node k2 = Done (Some (b, cs), k') \<and> length cs \<le> 4096)"
    if "\<forall>n. \<not> km_fail k2 n" "km_max k2 = km_max k1" for k2
    using that assms(9) conf(2)
    by (simp add: node scullv_alloc_def alloc_cleared_def kmalloc_def memset0_def u64_id)
  have w: "within_quantum q (p mod q) cnt = min cnt (q - p mod q)"
    using loc(4,5) geometry_bounds(1) [OF g] by (intro within_quantum_min) auto
  have "fill_quantum (ld_qset dev) (scullv_alloc ?node) q ?node (p mod (q * ld_qset dev) div q) (p mod q)
      ubuf cnt k1 = Crash Out_of_bounds"
  proof (rule fill_fresh_overflow [where ?k0.0 = k1 and short = 4096])
    show "qn_data ?node = None" by (simp add: node)
    show "int 4096 < p mod q + within_quantum q (p mod q) cnt"
      using big w by (simp add: q_def PAGE_SIZE_def)
  qed (use loc conf m al assms(10) in blast)+
  then show ?thesis
    using assms(2) loc(1) fo(1)
    by (simp add: scullv_write_def ld_write_def ld_write_with_def q_def [symmetric] Let_def)
qed

text \<open>\<open>follow\<close> clears an item it could not allocate. When memory has run out a write behind the
  last item of a device of scullc is a NULL dereference, and so is a read at the end of the file
  when the last item is full.\<close>

theorem scullc_without_memory:
  assumes "ld_wf (ld_unit dev) dev" "0 < ld_sem dev" "kmalloc bytes k = (None, k')"
    and "0 \<le> p" "int (length (ld_items dev)) \<le> p div (ld_unit dev * ld_qset dev)"
      "p div (ld_unit dev * ld_qset dev) < 2147483648"
  shows "scullc_write bytes cache g sig ubuf dev cnt p k = Crash Null_deref \<and>
    (p = ld_size dev \<longrightarrow> scullc_read bytes sig room dev cnt p k = Crash Null_deref)"
proof -
  let ?locked = "dev\<lparr>ld_sem := ld_sem dev - 1\<rparr>"
  have g: "geometry (ld_unit dev) (ld_qset dev)" and ne: "ld_items ?locked \<noteq> []"
    using assms(1) by (auto simp: ld_wf_def)
  note loc = locate_ok(1) [OF g assms(4,6)]
  have fo: "ld_follow bytes ?locked (p div (ld_unit dev * ld_qset dev)) k = Crash Null_deref"
    using assms(5,6) by (intro ld_follow_failed [OF assms(3) ne]) simp_all
  have "scullc_write bytes cache g sig ubuf dev cnt p k = Crash Null_deref"
    using assms(2) loc fo by (simp add: scullc_write_def ld_write_def ld_write_with_def Let_def)
  moreover have "scullc_read bytes sig room dev cnt p k = Crash Null_deref" if eof: "p = ld_size dev"
  proof -
    have "u64 p = p" using eof ld_wf_size [OF assms(1)] assms(4) by (intro u64_id) auto
    then show ?thesis
      using assms(2) loc fo
      by (simp add: scullc_read_def ld_read_def ld_read_with_def eof [symmetric] Let_def)
  qed
  ultimately show ?thesis by blast
qed

text \<open>The objects of the cache keep the size the quantum had when the module was loaded. Any
  process can raise the quantum; a device opened for writing then gets the new value, and the next
  write to it clears more bytes than the object has.\<close>

theorem scullc_quantum_raised:
  assumes "ld_wf q dev" "ld_vmas dev = 0" "0 < ld_sem dev" "owns (ld_addrs dev @ f) k" "write_only f_flags"
    and "0 \<le> cache" "cache < arg" "geometry arg (lg_qset g)"
    and "\<forall>n. \<not> km_fail k n" "cache \<le> km_max k" "lg_qset g * 8 \<le> km_max k"
  shows "\<exists>g' dev' k'. scullc_ioctl access_ok LIST_IOCTUNIT arg g um = (Inr 0, g', um) \<and>
    scullc_open g' sig f_flags dev k = Done (Inr 0, dev', k') \<and>
    scullc_write bytes cache g' sig ubuf dev' cnt 0 k' = Crash Out_of_bounds"
proof -
  let ?g = "g\<lparr>lg_unit := arg\<rparr>" and ?locked = "dev\<lparr>ld_sem := ld_sem dev - 1\<rparr>"
  have arg: "0 < arg" "arg < 2147483648" "0 < lg_qset g" "lg_qset g < 2147483648"
    using assms(8) geometry_bounds [OF assms(8)] by (auto simp: geometry_def)
  have "s32 arg = arg" using arg by (intro s32_id) auto
  then have i: "scullc_ioctl access_ok LIST_IOCTUNIT arg g um = (Inr 0, ?g, um)"
    using list_ioctl_request(1) [of _ _ access_ok Tell_op arg g um]
    by (simp add: scullc_ioctl_def by_pointer_def)
  have "ld_wf q ?locked" "ld_vmas ?locked = 0" "owns (ld_addrs ?locked @ f) k"
    using assms(1,2,4) by (simp_all add: ld_wf_def ld_addrs_def)
  from ld_trim_result [OF this, of ?g] obtain k' where
    tr: "ld_trim ?g ?locked k = Done (Inr 0, ?locked\<lparr>ld_size := 0, ld_qset := lg_qset g,
       ld_items := [(hd (ld_items ?locked))\<lparr>qn_data := None, it_unit := arg\<rparr>]\<rparr>, k')" by auto
  have conf: "same_conf k k'" by (rule ld_trim_conf [OF tr])
  define node where "node = (hd (ld_items dev))\<lparr>qn_data := None, it_unit := arg\<rparr>"
  define dev' where "dev' = dev\<lparr>ld_size := 0, ld_qset := lg_qset g, ld_items := [node]\<rparr>"
  have op: "scullc_open ?g sig f_flags dev k = Done (Inr 0, dev', k')"
    using assms(3,5) tr by (simp add: scullc_open_def ld_open_def dev'_def node_def)
  have dev: "ld_unit dev' = arg" "ld_qset dev' = lg_qset g" "ld_items dev' = [node]" "qn_data node = None"
    "ld_sem dev' = ld_sem dev"
    by (simp_all add: dev'_def ld_unit_def node_def)
  have loc: "locate arg (lg_qset g) 0 = Done (0, 0, 0)" using locate_ok(1) [OF assms(8), of 0] by simp
  have fo: "ld_follow bytes (dev'\<lparr>ld_sem := ld_sem dev - 1\<rparr>) 0 k' = Done (0, dev'\<lparr>ld_sem := ld_sem dev - 1\<rparr>, k')"
    using ld_follow_present [of 0 "dev'\<lparr>ld_sem := ld_sem dev - 1\<rparr>" bytes k'] dev(3) by simp
  have u: "u64 (lg_qset g * 8) = lg_qset g * 8" "u64 cache = cache" "u64 arg = arg"
    using arg assms(6,7) by (auto intro!: u64_id)
  obtain a k2 where ea: "ensure_array (lg_qset g) node k' = (Some (a, replicate (nat (lg_qset g)) None), k2)" "same_conf k' k2"
    by (rule ensure_array_fresh [OF dev(4), of k' "lg_qset g"]) (use conf u assms(9,11) in \<open>simp_all add: same_conf_def\<close>)
  then have "scullc_alloc cache ?g node k2 = Crash Out_of_bounds"
    using conf u assms(7,9,10) by (simp add: scullc_alloc_def alloc_cleared_def kmalloc_def memset0_def same_conf_def)
  then have "fill_quantum (lg_qset g) (scullc_alloc cache ?g node) arg node 0 0 ubuf cnt k' = Crash Out_of_bounds"
    using ea(1) arg by (simp add: fill_quantum_def ensure_quantum_def array_get_def)
  then have "scullc_write bytes cache ?g sig ubuf dev' cnt 0 k' = Crash Out_of_bounds"
    using assms(3) loc fo dev by (simp add: scullc_write_def ld_write_def ld_write_with_def Let_def)
  with i op show ?thesis by blast
qed

text \<open>On the quantum and the set size the commands of the four drivers do what those of the bare
  device do for a caller with \<open>CAP_SYS_ADMIN\<close>; here every caller can give them.\<close>

theorem list_ioctl_privileged:
  "map_prod id (map_prod (scull_view b) id)
      (list_ioctl u n access_ok (list_command (Quantum_request op)) arg g um) =
    scull_ioctl True access_ok (scull_command (Quantum_request op)) arg (scull_view b g) um \<and>
   map_prod id (map_prod (scull_view b) id)
      (list_ioctl u n access_ok (list_command (Qset_request op)) arg g um) =
    scull_ioctl True access_ok (scull_command (Qset_request op)) arg (scull_view b g) um"
  by (simp add: list_ioctl_request ioctl_command scull_view_def split: prod.split)

section \<open>Concrete devices\<close>

text \<open>A device with two quanta to an item, empty, and after a block has been allocated at its
  start.\<close>

definition new_list_dev :: "int \<Rightarrow> list_dev" where
  "new_list_dev u = \<lparr>ld_items = [\<lparr>qn_at = 1, qn_data = None, it_unit = u\<rparr>], ld_qset = 2, ld_size = 0,
     ld_vmas = 0, ld_sem = 1\<rparr>"

definition page_dev :: "int \<Rightarrow> list_dev" where
  "page_dev u = (new_list_dev u)\<lparr>ld_size := 10, ld_items := [\<lparr>qn_at = 1,
     qn_data = Some (2, [Some (3, replicate (nat (page_quantum u)) (Some 0)), None]), it_unit = u\<rparr>]\<rparr>"

lemma new_list_dev_simps [simp]:
  "ld_unit (new_list_dev u) = u" "ld_sem (new_list_dev u) = 1" "ld_qset (new_list_dev u) = 2"
  "ld_vmas (new_list_dev u) = 0" "ld_size (new_list_dev u) = 0" "length (ld_items (new_list_dev u)) = 1"
  "ld_unit (page_dev u) = u" "ld_sem (page_dev u) = 1" "ld_qset (page_dev u) = 2" "ld_size (page_dev u) = 10"
  by (simp_all add: new_list_dev_def page_dev_def ld_unit_def)

lemma new_list_dev_wf: "geometry q 2 \<Longrightarrow> ld_wf q (new_list_dev u)"
  by (simp add: ld_wf_def new_list_dev_def node_ok_def geometry_def)

lemma page_dev_wf: "geometry (page_quantum u) 2 \<Longrightarrow> 10 \<le> page_quantum u \<Longrightarrow> ld_wf (page_quantum u) (page_dev u)"
  by (simp add: ld_wf_def page_dev_def new_list_dev_def node_ok_def block_ok_def geometry_def)

lemma fresh_item_mem [simp]: "item_mem 200 fresh_kmem"
  by (simp add: item_mem_def fresh_kmem_def u64_id)

lemma page_bytes_4: "page_bytes 4 = 65536" "page_quantum 4 = 65536"
  by (simp_all add: page_quantum_def page_bytes_def PAGE_SIZE_def u64_def s32_def)



theorem scullv_mmap_incoherent_witness:
  "scullv_vma_nopage (ld_vma_open ((page_dev 4)\<lparr>ld_size := 10000\<rparr>)) 40960 0 45056 =
      Done (Fault_sigbus, ld_vma_open ((page_dev 4)\<lparr>ld_size := 10000\<rparr>)) \<and>
    ld_cell 65536 ((page_dev 4)\<lparr>ld_size := 10000\<rparr>) 4096 = Some (Some 0)"
proof -
  let ?dev = "(page_dev 4)\<lparr>ld_size := 10000\<rparr>"
  have "ld_wf (page_quantum (ld_unit ?dev)) ?dev"
    by (simp add: ld_wf_def page_dev_def new_list_dev_def node_ok_def block_ok_def geometry_def page_bytes_4
        ld_unit_def)
  moreover have "4096 = fault_offset 40960 0 45056" by (simp add: fault_offset_def PAGE_SIZE_def u64_def)
  moreover have "block_at 65536 ?dev 65536 = None"
    by (simp add: block_at_def page_dev_def new_list_dev_def)
  moreover have "ld_cell 65536 ?dev 4096 = Some (Some 0)"
    by (simp add: ld_cell_def cell_at_def page_dev_def new_list_dev_def node_cell_def page_bytes_4)
  moreover have "ld_unit ?dev = 4" "0 < ld_sem ?dev"
    by (simp_all add: page_dev_def new_list_dev_def ld_unit_def)
  ultimately show ?thesis
    using scullv_mmap_incoherent [of ?dev 4096 40960 0 45056] by (simp add: page_bytes_4 PAGE_SIZE_def)
qed

lemma page_dev_written:
  "\<exists>dev' k'. scullp_write 200 False [65, 66] (page_dev 0) 2 0 fresh_kmem = io_result (Inr 2) [] 2 dev' k'"
proof -
  have "geometry 4096 2" by (simp add: geometry_def)
  from locate_ok(1) [OF this, of 0] have loc: "locate 4096 2 0 = Done (0, 0, 0)" by simp
  have eq: "scullp_write 200 False [65, 66] (page_dev 0) 2 0 fresh_kmem =
      ld_write_with 200 scullp_alloc 4096 2 False [65, 66] (page_dev 0) 2 0 fresh_kmem"
    by (simp add: scullp_write_def ld_write_def)
  show ?thesis
    unfolding eq by (simp add: ld_write_with_def page_dev_def new_list_dev_def loc
        ld_follow_def loop_count_def u32_def fill_quantum_def ensure_array_def ensure_quantum_def array_get_def
        within_quantum_def u64_id copy_from_user_def store_cells_def s64_id Let_def io_result_def
        numeral_eq_Suc [of num.One])
qed

theorem scullp_write_read_witness:
  "\<exists>dev' k' dev'' k''. scullp_write 200 False [65, 66] (page_dev 0) 2 0 fresh_kmem = io_result (Inr 2) [] 2 dev' k' \<and>
    scullp_read 200 False 2 dev' 2 0 k' = io_result (Inr 2) [Some 65, Some 66] 2 dev'' k''"
proof -
  obtain dev' k' where w: "scullp_write 200 False [65, 66] (page_dev 0) 2 0 fresh_kmem = io_result (Inr 2) [] 2 dev' k'"
    using page_dev_written by blast
  have "ld_wf (page_quantum (ld_unit (page_dev 0))) (page_dev 0)" using page_dev_wf [of 0] by (simp add: geometry_def)
  moreover have "unit_at 4096 (page_dev 0) 0 = 0" by (simp add: unit_at_def page_dev_def new_list_dev_def)
  then have "ld_reach page_quantum page_fits (page_dev 0) 0" by (simp add: ld_reach_def page_fits_def)
  ultimately show ?thesis
    using scullp_write_read [OF _ _ fresh_item_mem _ _ _ w, of 2] w by (simp add: numeral_eq_Suc) blast
qed

theorem scullp_open_trims_witness:
  "\<exists>dev' k'. scullp_open \<lparr>lg_unit = 1, lg_qset = 9\<rparr> False 1 (new_list_dev 0) fresh_kmem = Done (Inr 0, dev', k') \<and>
    ld_unit dev' = 1 \<and> ld_qset dev' = 9"
proof -
  have "ld_wf 4096 (new_list_dev 0)" by (simp add: new_list_dev_wf geometry_def)
  moreover have "owns (ld_addrs (new_list_dev 0) @ []) fresh_kmem"
    by (simp add: ld_addrs_def items_addrs_def new_list_dev_def owns_def)
  moreover have "write_only 1" by code_simp
  ultimately show ?thesis
    using scullp_open_trims [of 4096 "new_list_dev 0" "[]" fresh_kmem 1 "\<lparr>lg_unit = 1, lg_qset = 9\<rparr>" False] by auto
qed

theorem scullv_second_item_overflow_witness:
  "scullv_write 200 False [] (new_list_dev 4) 8192 131072 fresh_kmem = Crash Out_of_bounds"
  by (rule scullv_second_item_overflow)
    (simp_all add: new_list_dev_wf geometry_def page_bytes_4 PAGE_SIZE_def, simp_all add: fresh_kmem_def)

theorem scullc_without_memory_witness:
  "scullc_write 200 8 g False [] (new_list_dev 8) 1 16 (fresh_kmem\<lparr>km_fail := (\<lambda>_. True)\<rparr>) = Crash Null_deref"
  using scullc_without_memory [of "new_list_dev 8" 200 "fresh_kmem\<lparr>km_fail := (\<lambda>_. True)\<rparr>" _ 16]
  by (simp add: new_list_dev_wf geometry_def kmalloc_def)

theorem scullc_quantum_raised_witness:
  "\<exists>g' dev' k'. scullc_ioctl (\<lambda>_ _. True) LIST_IOCTUNIT 4001 \<lparr>lg_unit = 4000, lg_qset = 500\<rparr> Map.empty =
      (Inr 0, g', Map.empty) \<and>
    scullc_open g' False 1 (new_list_dev 4000) fresh_kmem = Done (Inr 0, dev', k') \<and>
    scullc_write 200 4000 g' False [65] dev' 1 0 k' = Crash Out_of_bounds"
proof (rule scullc_quantum_raised)
  show "ld_wf 4000 (new_list_dev 4000)" by (simp add: new_list_dev_wf geometry_def)
  show "owns (ld_addrs (new_list_dev 4000) @ []) fresh_kmem"
    by (simp add: ld_addrs_def items_addrs_def new_list_dev_def owns_def)
  show "write_only 1" by code_simp
qed (simp_all add: geometry_def fresh_kmem_def)

end
