(* ===== verification/List_Aio.thy ===== *)
theory List_Aio
  imports List_Drivers
begin

text \<open>
  Asynchronous operations: \<open>aio_read\<close>, \<open>aio_write\<close>, \<open>defer_op\<close> and \<open>do_deferred_op\<close> of the drivers
  scullc, scullp, scullv and sculld (main.c of Kernel/Driver/ldd3-master). The first three take a
  vector of buffers, sculld a single one. The operations are clients of the drivers' own read
  and write, and what they do with a vector is shown from the contract of a scull file.
\<close>

section \<open>Operations\<close>

text \<open>The return values of C: an error is a negative number.\<close>

fun errno_no :: "errno \<Rightarrow> int" where
  "errno_no EPERM = 1"
| "errno_no EINTR = 4"
| "errno_no EIO = 5"
| "errno_no EAGAIN = 11"
| "errno_no ENOMEM = 12"
| "errno_no EFAULT = 14"
| "errno_no EBUSY = 16"
| "errno_no ENODEV = 19"
| "errno_no EINVAL = 22"
| "errno_no ENOTTY = 25"
| "errno_no ERESTARTSYS = 512"
| "errno_no EIOCBQUEUED = 529"
| "errno_no EOPNOTSUPP = 95"
| "errno_no ENOIOCTLCMD = 515"

definition ret_value :: "errno + int \<Rightarrow> int" where
  "ret_value r = (case r of Inl e \<Rightarrow> - errno_no e | Inr v \<Rightarrow> v)"

text \<open>The loop over the vector. Both \<open>count\<close> and \<open>result\<close> are of the unsigned type \<open>size_t\<close>.
  \<open>Inl\<close> is the early return. A segment of a write is the accessible bytes at its address and its
  length; a segment of a read is the accessible room and its length.\<close>

fun defer_write ::
    "(byte list \<Rightarrow> 'd \<Rightarrow> int \<Rightarrow> int \<Rightarrow> kmem \<Rightarrow> 'd io outcome) \<Rightarrow> (byte list \<times> int) list \<Rightarrow> int \<Rightarrow> 'd \<Rightarrow>
     int \<Rightarrow> kmem \<Rightarrow> ((int + int) \<times> 'd \<times> int \<times> kmem) outcome" where
  "defer_write wr [] result d pos k = Done (Inr result, d, pos, k)"
| "defer_write wr ((base, len) # iovec) result d pos k =
     and_then (wr base d len pos k) (\<lambda>io.
       let count = u64 (ret_value (io_ret io)) in
       if count < 0 then Done (Inl count, io_dev io, io_pos io, io_mem io)
       else defer_write wr iovec (u64 (result + count)) (io_dev io) (io_pos io) (io_mem io))"

fun defer_read ::
    "(nat \<Rightarrow> 'd \<Rightarrow> int \<Rightarrow> int \<Rightarrow> kmem \<Rightarrow> 'd io outcome) \<Rightarrow> (nat \<times> int) list \<Rightarrow> int \<Rightarrow> 'd \<Rightarrow>
     int \<Rightarrow> kmem \<Rightarrow> ((int + int) \<times> cell list list \<times> 'd \<times> int \<times> kmem) outcome" where
  "defer_read rd [] result d pos k = Done (Inr result, [], d, pos, k)"
| "defer_read rd ((room, len) # iovec) result d pos k =
     and_then (rd room d len pos k) (\<lambda>io.
       let count = u64 (ret_value (io_ret io)) in
       if count < 0 then Done (Inl count, [io_out io], io_dev io, io_pos io, io_mem io)
       else and_then (defer_read rd iovec (u64 (result + count)) (io_dev io) (io_pos io) (io_mem io))
         (\<lambda>(r, outs, d, pos, k). Done (r, io_out io # outs, d, pos, k)))"

text \<open>\<open>struct async_work\<close>: the request, its result and the address of the structure itself.\<close>

record async_work =
  aw_iocb :: nat
  aw_result :: int
  aw_at :: addr

text \<open>The rest of \<open>defer_op\<close>: a synchronous request is complete, another one is completed later,
  unless memory for that has run out. \<open>bytes\<close> is the size of the structure; \<open>stuff->result\<close> is an
  \<open>int\<close>. The result is the value to return and the work that has been scheduled.\<close>

definition finish_op ::
    "int \<Rightarrow> bool \<Rightarrow> nat \<Rightarrow> int \<Rightarrow> kmem \<Rightarrow> int \<times> async_work option \<times> kmem" where
  "finish_op bytes sync iocb result k =
     (if sync then (result, None, k)
      else case kmalloc bytes k of
        (None, k) \<Rightarrow> (result, None, k)
      | (Some a, k) \<Rightarrow>
          (- errno_no EIOCBQUEUED, Some \<lparr>aw_iocb = iocb, aw_result = s32 result, aw_at = a\<rparr>, k))"

text \<open>\<open>do_deferred_op\<close> gives the result of the request to \<open>aio_complete\<close>.\<close>

definition do_deferred_op :: "async_work \<Rightarrow> kmem \<Rightarrow> ((nat \<times> int) \<times> kmem) outcome" where
  "do_deferred_op stuff k =
     and_then (kfree (aw_at stuff) k) (\<lambda>k. Done ((aw_iocb stuff, aw_result stuff), k))"

text \<open>\<open>conv\<close> is the conversion to the type \<open>defer_op\<close> returns: \<open>size_t\<close> in scullc, which the
  caller converts to \<open>ssize_t\<close>, and \<open>int\<close> in the others.\<close>

definition defer_op_write ::
    "(int \<Rightarrow> int) \<Rightarrow> int \<Rightarrow> (byte list \<Rightarrow> 'd \<Rightarrow> int \<Rightarrow> int \<Rightarrow> kmem \<Rightarrow> 'd io outcome) \<Rightarrow> bool \<Rightarrow> nat \<Rightarrow>
     (byte list \<times> int) list \<Rightarrow> 'd \<Rightarrow> int \<Rightarrow> kmem \<Rightarrow> (int \<times> async_work option \<times> 'd \<times> kmem) outcome" where
  "defer_op_write conv bytes wr sync iocb iovec d pos k =
     and_then (defer_write wr iovec 0 d pos k) (\<lambda>(r, d, pos, k).
       case r of
         Inl n \<Rightarrow> Done (conv n, None, d, k)
       | Inr result \<Rightarrow>
           (case finish_op bytes sync iocb result k of (v, w, k) \<Rightarrow> Done (conv v, w, d, k)))"

definition defer_op_read ::
    "(int \<Rightarrow> int) \<Rightarrow> int \<Rightarrow> (nat \<Rightarrow> 'd \<Rightarrow> int \<Rightarrow> int \<Rightarrow> kmem \<Rightarrow> 'd io outcome) \<Rightarrow> bool \<Rightarrow> nat \<Rightarrow>
     (nat \<times> int) list \<Rightarrow> 'd \<Rightarrow> int \<Rightarrow> kmem \<Rightarrow> (int \<times> async_work option \<times> cell list list \<times> 'd \<times> kmem) outcome" where
  "defer_op_read conv bytes rd sync iocb iovec d pos k =
     and_then (defer_read rd iovec 0 d pos k) (\<lambda>(r, outs, d, pos, k).
       case r of
         Inl n \<Rightarrow> Done (conv n, None, outs, d, k)
       | Inr result \<Rightarrow>
           (case finish_op bytes sync iocb result k of (v, w, k) \<Rightarrow> Done (conv v, w, outs, d, k)))"

definition scullc_aio_read ::
    "int \<Rightarrow> int \<Rightarrow> bool \<Rightarrow> bool \<Rightarrow> nat \<Rightarrow> (nat \<times> int) list \<Rightarrow> list_dev \<Rightarrow> int \<Rightarrow> kmem \<Rightarrow>
     (int \<times> async_work option \<times> cell list list \<times> list_dev \<times> kmem) outcome" where
  "scullc_aio_read work bytes sig = defer_op_read s64 work (scullc_read bytes sig)"

definition scullc_aio_write ::
    "int \<Rightarrow> int \<Rightarrow> int \<Rightarrow> list_globals \<Rightarrow> bool \<Rightarrow> bool \<Rightarrow> nat \<Rightarrow> (byte list \<times> int) list \<Rightarrow> list_dev \<Rightarrow> int \<Rightarrow> kmem \<Rightarrow>
     (int \<times> async_work option \<times> list_dev \<times> kmem) outcome" where
  "scullc_aio_write work bytes cache g sig = defer_op_write s64 work (scullc_write bytes cache g sig)"

definition scullp_aio_read ::
    "int \<Rightarrow> int \<Rightarrow> bool \<Rightarrow> bool \<Rightarrow> nat \<Rightarrow> (nat \<times> int) list \<Rightarrow> list_dev \<Rightarrow> int \<Rightarrow> kmem \<Rightarrow>
     (int \<times> async_work option \<times> cell list list \<times> list_dev \<times> kmem) outcome" where
  "scullp_aio_read work bytes sig = defer_op_read s32 work (scullp_read bytes sig)"

definition scullp_aio_write ::
    "int \<Rightarrow> int \<Rightarrow> bool \<Rightarrow> bool \<Rightarrow> nat \<Rightarrow> (byte list \<times> int) list \<Rightarrow> list_dev \<Rightarrow> int \<Rightarrow> kmem \<Rightarrow>
     (int \<times> async_work option \<times> list_dev \<times> kmem) outcome" where
  "scullp_aio_write work bytes sig = defer_op_write s32 work (scullp_write bytes sig)"

definition scullv_aio_read ::
    "int \<Rightarrow> int \<Rightarrow> bool \<Rightarrow> bool \<Rightarrow> nat \<Rightarrow> (nat \<times> int) list \<Rightarrow> list_dev \<Rightarrow> int \<Rightarrow> kmem \<Rightarrow>
     (int \<times> async_work option \<times> cell list list \<times> list_dev \<times> kmem) outcome" where
  "scullv_aio_read work bytes sig = defer_op_read s32 work (scullv_read bytes sig)"

definition scullv_aio_write ::
    "int \<Rightarrow> int \<Rightarrow> bool \<Rightarrow> bool \<Rightarrow> nat \<Rightarrow> (byte list \<times> int) list \<Rightarrow> list_dev \<Rightarrow> int \<Rightarrow> kmem \<Rightarrow>
     (int \<times> async_work option \<times> list_dev \<times> kmem) outcome" where
  "scullv_aio_write work bytes sig = defer_op_write s32 work (scullv_write bytes sig)"

text \<open>sculld takes one buffer, and its \<open>result\<close> is an \<open>int\<close>.\<close>

definition sculld_aio_read ::
    "int \<Rightarrow> int \<Rightarrow> bool \<Rightarrow> bool \<Rightarrow> nat \<Rightarrow> nat \<times> int \<Rightarrow> list_dev \<Rightarrow> int \<Rightarrow> kmem \<Rightarrow>
     (int \<times> async_work option \<times> cell list \<times> list_dev \<times> kmem) outcome" where
  "sculld_aio_read work bytes sig sync iocb buf dev pos k =
     and_then (sculld_read bytes sig (fst buf) dev (snd buf) pos k) (\<lambda>io.
       case finish_op work sync iocb (s32 (ret_value (io_ret io))) (io_mem io) of
         (v, w, k) \<Rightarrow> Done (v, w, io_out io, io_dev io, k))"

definition sculld_aio_write ::
    "int \<Rightarrow> int \<Rightarrow> bool \<Rightarrow> bool \<Rightarrow> nat \<Rightarrow> byte list \<times> int \<Rightarrow> list_dev \<Rightarrow> int \<Rightarrow> kmem \<Rightarrow>
     (int \<times> async_work option \<times> list_dev \<times> kmem) outcome" where
  "sculld_aio_write work bytes sig sync iocb buf dev pos k =
     and_then (sculld_write bytes sig (fst buf) dev (snd buf) pos k) (\<lambda>io.
       case finish_op work sync iocb (s32 (ret_value (io_ret io))) (io_mem io) of
         (v, w, k) \<Rightarrow> Done (v, w, io_dev io, k))"

section \<open>Vectors that fit\<close>

text \<open>No segment crosses the end of a quantum, and all of every segment is accessible.\<close>

fun vector_fits :: "int \<Rightarrow> int \<Rightarrow> (byte list \<times> int) list \<Rightarrow> bool" where
  "vector_fits q p [] = True"
| "vector_fits q p ((base, len) # iovec) \<longleftrightarrow>
     0 < len \<and> len \<le> int (length base) \<and> len \<le> q - p mod q \<and> vector_fits q (p + len) iovec"

definition vector_length :: "(byte list \<times> int) list \<Rightarrow> int" where
  "vector_length iovec = sum_list (map snd iovec)"

definition vector_bytes :: "(byte list \<times> int) list \<Rightarrow> byte list" where
  "vector_bytes iovec = concat (map (\<lambda>(base, len). take (nat len) base) iovec)"

lemma vector_simps [simp]:
  "vector_length [] = 0" "vector_length ((base, len) # iovec) = len + vector_length iovec"
  "vector_bytes [] = []" "vector_bytes ((base, len) # iovec) = take (nat len) base @ vector_bytes iovec"
  by (simp_all add: vector_length_def vector_bytes_def)

lemma vector_fits_nonneg: "vector_fits q p iovec \<Longrightarrow> list_all (\<lambda>(base, len). 0 \<le> len) iovec"
  by (induction q p iovec rule: vector_fits.induct) auto

lemma vector_length_nonneg: "list_all (\<lambda>(base, len). 0 \<le> len) iovec \<Longrightarrow> 0 \<le> vector_length iovec"
  by (induction iovec) (auto simp: vector_length_def)

lemma length_vector_bytes: "vector_fits q p iovec \<Longrightarrow> int (length (vector_bytes iovec)) = vector_length iovec"
  by (induction q p iovec rule: vector_fits.induct) auto

context scull_file
begin

text \<open>One segment of a vector.\<close>

lemma defer_write_step:
  assumes d: "ok d" "mem k" "reach d p" and n: "0 \<le> ln" "ln < 9223372036854775808"
  obtains ret d1 p1 k1 where
    "defer_write wr ((base, ln) # iovec) result d p k =
      defer_write wr iovec (u64 (result + u64 (ret_value ret))) d1 p1 k1"
    "ok d1" "mem k1" "bound d1 = bound d" "\<And>p'. reach d p' \<Longrightarrow> reach d1 p'" "p \<le> p1" "p1 \<le> p + ln"
    "\<And>q v. q < p \<or> p + ln \<le> q \<Longrightarrow> cell d q = Some v \<Longrightarrow> cell d1 q = Some v"
    "\<lbrakk>ln \<le> bound d - p mod bound d; ln \<le> int (length base); 0 < ln\<rbrakk> \<Longrightarrow>
      ret = Inl ENOMEM \<and> p1 = p \<or>
      ret = Inr ln \<and> p1 = p + ln \<and>
        (\<forall>j. 0 \<le> j \<longrightarrow> j < ln \<longrightarrow> cell d1 (p + j) = Some (Some (base ! nat j)))"
proof -
  have b: "0 < bound d" using bound_pos d(1) .
  have r: "0 \<le> p mod bound d" "p mod bound d < bound d" using b by simp_all
  obtain ret d1 k1 where w: "wr base d ln p k = io_result ret [] (case ret of Inl e \<Rightarrow> p | Inr c \<Rightarrow> p + c) d1 k1"
      "mem k1" "ok d1" "bound d1 = bound d"
      "wrote (bound d) base p (min ln (bound d - p mod bound d)) ret (cell d) (cell d1)"
      "\<And>p'. reach d p' \<Longrightarrow> reach d1 p'"
    using wr_law [OF d n, of base] by blast
  let ?p1 = "case ret of Inl e \<Rightarrow> p | Inr c \<Rightarrow> p + c"
  have p1: "p \<le> ?p1" "?p1 \<le> p + ln" using w(5) n r by (auto simp: wrote_def split: sum.split)
  have nn: "\<not> u64 (ret_value ret) < 0" by (simp add: not_less)
  show ?thesis
  proof (rule that [of ret d1 ?p1 k1])
    show "defer_write wr ((base, ln) # iovec) result d p k =
      defer_write wr iovec (u64 (result + u64 (ret_value ret))) d1 ?p1 k1"
      using w(1) nn by (simp add: io_result_def Let_def)
    show "cell d1 q = Some v" if "q < p \<or> p + ln \<le> q" "cell d q = Some v" for q v
      using that w(5) by (auto simp: wrote_def)
    show "ret = Inl ENOMEM \<and> ?p1 = p \<or> ret = Inr ln \<and> ?p1 = p + ln \<and>
        (\<forall>j. 0 \<le> j \<longrightarrow> j < ln \<longrightarrow> cell d1 (p + j) = Some (Some (base ! nat j)))"
      if "ln \<le> bound d - p mod bound d" "ln \<le> int (length base)" "0 < ln"
      using that w(5) by (auto simp: wrote_def min_def split: sum.splits if_splits)
  qed (use w p1 in auto)
qed

lemma defer_write_total:
  assumes "ok d" "mem k" "list_all (\<lambda>(base, ln). 0 \<le> ln \<and> ln < 9223372036854775808) iovec"
    and "\<And>p'. p \<le> p' \<Longrightarrow> p' \<le> p + vector_length iovec \<Longrightarrow> reach d p'"
  shows "\<exists>r d' p' k'. defer_write wr iovec result d p k = Done (Inr r, d', p', k') \<and>
    ok d' \<and> mem k' \<and> bound d' = bound d \<and> p \<le> p' \<and> p' \<le> p + vector_length iovec \<and>
    (\<forall>q v. (q < p \<or> p + vector_length iovec \<le> q) \<longrightarrow> cell d q = Some v \<longrightarrow> cell d' q = Some v)"
  using assms
proof (induction iovec arbitrary: result d p k)
  case Nil
  then show ?case by simp
next
  case (Cons seg iovec)
  obtain base ln where seg: "seg = (base, ln)" by fastforce
  have n: "0 \<le> ln" "ln < 9223372036854775808" "list_all (\<lambda>(base, ln). 0 \<le> ln \<and> ln < 9223372036854775808) iovec"
    using Cons.prems(3) seg by auto
  have "list_all (\<lambda>(base, ln). 0 \<le> ln) iovec" using n(3) by (auto simp: list_all_iff)
  then have L: "0 \<le> vector_length iovec" by (rule vector_length_nonneg)
  have "reach d p" using Cons.prems(4) [of p] n(1) L seg by simp
  note st = defer_write_step [OF Cons.prems(1,2) this n(1,2), where base = base and iovec = iovec and result = result]
  obtain ret d1 p1 k1 where s:
      "defer_write wr ((base, ln) # iovec) result d p k =
        defer_write wr iovec (u64 (result + u64 (ret_value ret))) d1 p1 k1"
      "ok d1" "mem k1" "bound d1 = bound d" "\<And>p'. reach d p' \<Longrightarrow> reach d1 p'" "p \<le> p1" "p1 \<le> p + ln"
      "\<And>q v. q < p \<or> p + ln \<le> q \<Longrightarrow> cell d q = Some v \<Longrightarrow> cell d1 q = Some v"
      "\<lbrakk>ln \<le> bound d - p mod bound d; ln \<le> int (length base); 0 < ln\<rbrakk> \<Longrightarrow>
        ret = Inl ENOMEM \<and> p1 = p \<or>
        ret = Inr ln \<and> p1 = p + ln \<and>
          (\<forall>j. 0 \<le> j \<longrightarrow> j < ln \<longrightarrow> cell d1 (p + j) = Some (Some (base ! nat j)))"
    by (rule st) (rule that)
  have "reach d1 p'" if "p1 \<le> p'" "p' \<le> p1 + vector_length iovec" for p'
    using that s(5-7) Cons.prems(4) [of p'] seg by simp
  from Cons.IH [OF s(2,3) n(3) this, where result = "u64 (result + u64 (ret_value ret))"] obtain r d' p' k' where
    "defer_write wr iovec (u64 (result + u64 (ret_value ret))) d1 p1 k1 = Done (Inr r, d', p', k')"
    "ok d'" "mem k'" "bound d' = bound d1" "p1 \<le> p'" "p' \<le> p1 + vector_length iovec"
    "\<forall>q v. (q < p1 \<or> p1 + vector_length iovec \<le> q) \<longrightarrow> cell d1 q = Some v \<longrightarrow> cell d' q = Some v"
    by blast
  with s L n(1) seg show ?case by (intro exI [of _ r] exI [of _ d'] exI [of _ p'] exI [of _ k']) auto
qed

lemma defer_write_fits:
  assumes "ok d" "mem k" "vector_fits (bound d) p iovec"
    and "list_all (\<lambda>(base, ln). 0 \<le> ln \<and> ln < 9223372036854775808) iovec"
    and "\<And>p'. p \<le> p' \<Longrightarrow> p' \<le> p + vector_length iovec \<Longrightarrow> reach d p'"
    and "0 \<le> result" "result + vector_length iovec < 9223372036854775808"
  shows "\<exists>r d' p' k'. defer_write wr iovec result d p k = Done (Inr r, d', p', k') \<and>
    ok d' \<and> mem k' \<and> p' \<le> p + vector_length iovec \<and>
    (\<forall>q v. (q < p \<or> p + vector_length iovec \<le> q) \<longrightarrow> cell d q = Some v \<longrightarrow> cell d' q = Some v) \<and>
    (p' = p + vector_length iovec \<longrightarrow> r = result + vector_length iovec \<and>
      (\<forall>j. 0 \<le> j \<longrightarrow> j < vector_length iovec \<longrightarrow> cell d' (p + j) = Some (Some (vector_bytes iovec ! nat j))))"
  using assms
proof (induction iovec arbitrary: result d p k)
  case Nil
  then show ?case by simp
next
  case (Cons seg iovec)
  obtain base ln where seg: "seg = (base, ln)" by fastforce
  let ?L = "vector_length iovec"
  have n: "0 < ln" "ln < 9223372036854775808" "ln \<le> int (length base)" "ln \<le> bound d - p mod bound d"
    "vector_fits (bound d) (p + ln) iovec"
    "list_all (\<lambda>(base, ln). 0 \<le> ln \<and> ln < 9223372036854775808) iovec"
    using Cons.prems(3,4) seg by auto
  have L: "0 \<le> ?L" by (rule vector_length_nonneg [OF vector_fits_nonneg [OF n(5)]])
  have "reach d p" using Cons.prems(5) [of p] n(1) L seg by simp
  note st = defer_write_step [OF Cons.prems(1,2) this less_imp_le [OF n(1)] n(2), where base = base and
      iovec = iovec and result = result]
  obtain ret d1 p1 k1 where s:
      "defer_write wr ((base, ln) # iovec) result d p k =
        defer_write wr iovec (u64 (result + u64 (ret_value ret))) d1 p1 k1"
      "ok d1" "mem k1" "bound d1 = bound d" "\<And>p'. reach d p' \<Longrightarrow> reach d1 p'" "p \<le> p1" "p1 \<le> p + ln"
      "\<And>q v. q < p \<or> p + ln \<le> q \<Longrightarrow> cell d q = Some v \<Longrightarrow> cell d1 q = Some v"
      "\<lbrakk>ln \<le> bound d - p mod bound d; ln \<le> int (length base); 0 < ln\<rbrakk> \<Longrightarrow>
        ret = Inl ENOMEM \<and> p1 = p \<or>
        ret = Inr ln \<and> p1 = p + ln \<and>
          (\<forall>j. 0 \<le> j \<longrightarrow> j < ln \<longrightarrow> cell d1 (p + j) = Some (Some (base ! nat j)))"
    by (rule st) (rule that)
  note s9 = s(9) [OF n(4,3,1)]
  have reach1: "reach d1 p'" if "p1 \<le> p'" "p' \<le> p1 + ?L" for p'
    using that s(5-7) Cons.prems(5) [of p'] seg by simp
  show ?case
  proof (cases "ret = Inr ln")
    case False
    then have p1: "p1 = p" using s9 by auto
    from defer_write_total [OF s(2,3) n(6) reach1, where result = "u64 (result + u64 (ret_value ret))"] obtain r d' p' k' where
      "defer_write wr iovec (u64 (result + u64 (ret_value ret))) d1 p1 k1 = Done (Inr r, d', p', k')"
      "ok d'" "mem k'" "p' \<le> p1 + ?L"
      "\<forall>q v. (q < p1 \<or> p1 + ?L \<le> q) \<longrightarrow> cell d1 q = Some v \<longrightarrow> cell d' q = Some v"
      by blast
    with s(1,8) L n(1) seg p1 show ?thesis
      by (intro exI [of _ r] exI [of _ d'] exI [of _ p'] exI [of _ k']) auto
  next
    case True
    then have p1: "p1 = p + ln" and stored: "\<forall>j. 0 \<le> j \<longrightarrow> j < ln \<longrightarrow> cell d1 (p + j) = Some (Some (base ! nat j))"
      using True s9 by auto
    have res: "u64 (result + u64 (ret_value ret)) = result + ln"
      using True n(1,2) L Cons.prems(6,7) seg by (simp add: ret_value_def u64_id)
    have "vector_fits (bound d1) p1 iovec" "0 \<le> result + ln" "result + ln + ?L < 9223372036854775808"
      using n(1,5) s(4) p1 Cons.prems(6,7) seg by auto
    from Cons.IH [OF s(2,3) this(1) n(6) reach1 this(2,3)] obtain r d' p' k' where i:
      "defer_write wr iovec (result + ln) d1 p1 k1 = Done (Inr r, d', p', k')"
      "ok d'" "mem k'" "p' \<le> p1 + ?L"
      "\<forall>q v. (q < p1 \<or> p1 + ?L \<le> q) \<longrightarrow> cell d1 q = Some v \<longrightarrow> cell d' q = Some v"
      "p' = p1 + ?L \<longrightarrow> r = result + ln + ?L \<and>
        (\<forall>j. 0 \<le> j \<longrightarrow> j < ?L \<longrightarrow> cell d' (p1 + j) = Some (Some (vector_bytes iovec ! nat j)))"
      by blast
    have all: "cell d' (p + j) = Some (Some (vector_bytes (seg # iovec) ! nat j))"
      if "p' = p1 + ?L" "0 \<le> j" "j < ln + ?L" for j
    proof (cases "j < ln")
      case True
      then have "cell d' (p + j) = Some (Some (base ! nat j))" using i(5) stored that p1 by auto
      then show ?thesis using True that n(3) seg by (simp add: nth_append)
    next
      case False
      then have "cell d' (p1 + (j - ln)) = Some (Some (vector_bytes iovec ! nat (j - ln)))"
        using i(6) that by auto
      moreover have "nat j - nat ln = nat (j - ln)" using False n(1) by (simp add: nat_diff_distrib)
      moreover have "(take (nat ln) base @ vector_bytes iovec) ! nat j = vector_bytes iovec ! (nat j - nat ln)"
        using False n(1,3) by (simp add: nth_append)
      moreover have "p1 + (j - ln) = p + j" using p1 by simp
      ultimately show ?thesis unfolding seg vector_simps by simp
    qed
    show ?thesis
      using s(1,8) i all n(1) L seg p1 res
      by (intro exI [of _ r] exI [of _ d'] exI [of _ p'] exI [of _ k']) auto
  qed
qed


end

section \<open>Properties\<close>

lemma finish_op_cases:
  "finish_op bytes sync iocb result k = (v, w, k') \<Longrightarrow>
    v = result \<and> w = None \<and> (sync \<longrightarrow> k' = k) \<or>
    \<not> sync \<and> (\<exists>a. kmalloc bytes k = (Some a, k') \<and> v = - 529 \<and>
      w = Some \<lparr>aw_iocb = iocb, aw_result = s32 result, aw_at = a\<rparr>)"
  by (auto simp: finish_op_def split: if_splits prod.splits option.splits)

lemma s64_u64: "s64 (u64 x) = s64 x"
  by (simp add: s64_def u64_def mod_simps)

text \<open>A vector whose segments do not cross the end of a quantum and are accessible is written as a
  whole: the synchronous \<open>aio_write\<close> of scullc never crashes, keeps the other bytes of the file, and
  when memory suffices for every segment it returns the sum of the lengths and the file holds the
  concatenation of the segments.\<close>

theorem scullc_aio_write_fits:
  assumes "ld_wf (ld_unit dev) dev" "0 < ld_sem dev" "item_mem bytes k"
    and "vector_fits (ld_unit dev) p iovec" "p + vector_length iovec < 9223372036854775808"
    and "\<And>p'. p \<le> p' \<Longrightarrow> p' \<le> p + vector_length iovec \<Longrightarrow> ld_reach (\<lambda>u. u) (cache_fits cache g) dev p'"
  shows "\<exists>r d' p' k'. defer_write (scullc_write bytes cache g sig) iovec 0 dev p k = Done (Inr r, d', p', k') \<and>
    scullc_aio_write work bytes cache g sig True iocb iovec dev p k = Done (s64 r, None, d', k') \<and>
    ld_wf (ld_unit d') d' \<and> p' \<le> p + vector_length iovec \<and>
    (\<forall>q v. (q < p \<or> p + vector_length iovec \<le> q) \<longrightarrow>
      ld_cell (ld_unit dev) dev q = Some v \<longrightarrow> ld_cell (ld_unit d') d' q = Some v) \<and>
    (p' = p + vector_length iovec \<longrightarrow> s64 r = vector_length iovec \<and>
      (\<forall>j. 0 \<le> j \<longrightarrow> j < vector_length iovec \<longrightarrow>
        ld_cell (ld_unit d') d' (p + j) = Some (Some (vector_bytes iovec ! nat j))))"
proof -
  have nn: "list_all (\<lambda>(base, ln). 0 \<le> ln) iovec" by (rule vector_fits_nonneg [OF assms(4)])
  then have L: "0 \<le> vector_length iovec" by (rule vector_length_nonneg)
  have p0: "0 \<le> p" using assms(6) [of p] L by (simp add: ld_reach_def)
  have lens: "list_all (\<lambda>(base, ln). 0 \<le> ln \<and> ln < 9223372036854775808) iovec"
  proof -
    have "ln \<le> vector_length iovec" if "(base, ln) \<in> set iovec" for base ln
      using that nn by (induction iovec) (auto dest: vector_length_nonneg)
    then show ?thesis using nn assms(5) p0 by (fastforce simp: list_all_iff)
  qed
  have ok: "ld_wf (ld_unit dev) dev \<and> 0 < ld_sem dev" using assms(1,2) by simp
  have "\<exists>r d' p' k'. defer_write (scullc_write bytes cache g sig) iovec 0 dev p k = Done (Inr r, d', p', k') \<and>
    (ld_wf (ld_unit d') d' \<and> 0 < ld_sem d') \<and> item_mem bytes k' \<and> p' \<le> p + vector_length iovec \<and>
    (\<forall>q v. (q < p \<or> p + vector_length iovec \<le> q) \<longrightarrow>
      ld_cell (ld_unit dev) dev q = Some v \<longrightarrow> ld_cell (ld_unit d') d' q = Some v) \<and>
    (p' = p + vector_length iovec \<longrightarrow> r = 0 + vector_length iovec \<and>
      (\<forall>j. 0 \<le> j \<longrightarrow> j < vector_length iovec \<longrightarrow>
        ld_cell (ld_unit d') d' (p + j) = Some (Some (vector_bytes iovec ! nat j))))"
    unfolding scullc_write_def
    by (rule scullc.contract.defer_write_fits [OF ok assms(3,4) lens assms(6)]) (use assms(5) p0 in auto)
  then obtain r d' p' k' where w:
    "defer_write (scullc_write bytes cache g sig) iovec 0 dev p k = Done (Inr r, d', p', k')"
    "ld_wf (ld_unit d') d'" "p' \<le> p + vector_length iovec"
    "\<forall>q v. (q < p \<or> p + vector_length iovec \<le> q) \<longrightarrow>
      ld_cell (ld_unit dev) dev q = Some v \<longrightarrow> ld_cell (ld_unit d') d' q = Some v"
    "p' = p + vector_length iovec \<longrightarrow> r = vector_length iovec \<and>
      (\<forall>j. 0 \<le> j \<longrightarrow> j < vector_length iovec \<longrightarrow>
        ld_cell (ld_unit d') d' (p + j) = Some (Some (vector_bytes iovec ! nat j)))" by auto
  have "scullc_aio_write work bytes cache g sig True iocb iovec dev p k = Done (s64 r, None, d', k')"
    using w(1) by (simp add: scullc_aio_write_def defer_op_write_def finish_op_def)
  moreover have "s64 (vector_length iovec) = vector_length iovec" using L assms(5) p0 by (intro s64_id) auto
  ultimately show ?thesis using w by (intro exI [of _ r] exI [of _ d'] exI [of _ p'] exI [of _ k']) auto
qed

text \<open>A deferred request is completed with what a synchronous one returns: it leaves the same device
  and returns \<open>-EIOCBQUEUED\<close>, and the work it has scheduled completes the request with the result
  of the operation as an \<open>int\<close> and gives back the memory the work took.\<close>

theorem scullc_aio_completes:
  assumes "scullc_aio_write work bytes cache g sig True iocb iovec dev p k = Done (v, None, d', k1)"
    and "scullc_aio_write work bytes cache g sig False iocb iovec dev p k = Done (v', w, d'', k2)"
    and "km_live k1 (km_next k1) = None"
  shows "d'' = d' \<and> (case w of
      None \<Rightarrow> v' = v
    | Some stuff \<Rightarrow> v' = - errno_no EIOCBQUEUED \<and>
        (\<exists>k3. do_deferred_op stuff k2 = Done ((iocb, s32 v), k3) \<and> km_live k3 = km_live k1))"
proof -
  have s32: "s32 (s64 x) = s32 x" for x
  proof -
    have "(s64 x + 2147483648) mod 4294967296 = (x + 2147483648) mod 4294967296"
    proof -
      have "s64 x mod 4294967296 = x mod 4294967296"
      proof -
        have "s64 x = x - 18446744073709551616 * ((x + 9223372036854775808) div 18446744073709551616)"
          using div_mult_mod_eq [of "x + 9223372036854775808" 18446744073709551616] unfolding s64_def by linarith
        also have "\<dots> = x + 4294967296 * (- (4294967296 * ((x + 9223372036854775808) div 18446744073709551616)))"
          by simp
        finally show ?thesis by (simp only: mod_mult_self2)
      qed
      then show ?thesis by (metis mod_add_left_eq)
    qed
    then show ?thesis by (simp add: s32_def)
  qed
  obtain r dv pos km where dw: "defer_write (scullc_write bytes cache g sig) iovec 0 dev p k = Done (r, dv, pos, km)"
    using assms(1) by (auto simp: scullc_aio_write_def defer_op_write_def and_then_Done_iff)
  show ?thesis
  proof (cases r)
    case (Inl n)
    then show ?thesis using assms(1,2) dw by (auto simp: scullc_aio_write_def defer_op_write_def)
  next
    case (Inr n)
    then have 1: "v = s64 n" "d' = dv" "k1 = km"
      using assms(1) dw by (auto simp: scullc_aio_write_def defer_op_write_def finish_op_def)
    obtain v2 w2 k2' where f: "finish_op work False iocb n km = (v2, w2, k2')" by (metis surj_pair)
    then have 2: "v' = s64 v2" "w = w2" "d'' = dv" "k2 = k2'"
      using assms(2) dw Inr by (auto simp: scullc_aio_write_def defer_op_write_def)
    from finish_op_cases [OF f] show ?thesis
    proof
      assume "v2 = n \<and> w2 = None \<and> (False \<longrightarrow> k2' = km)"
      then show ?thesis using 1 2 by simp
    next
      assume "\<not> False \<and> (\<exists>a. kmalloc work km = (Some a, k2') \<and> v2 = - 529 \<and>
        w2 = Some \<lparr>aw_iocb = iocb, aw_result = s32 n, aw_at = a\<rparr>)"
      then obtain a where a: "kmalloc work km = (Some a, k2')" "v2 = - 529"
        "w2 = Some \<lparr>aw_iocb = iocb, aw_result = s32 n, aw_at = a\<rparr>" by blast
      have al: "a \<notin> dom (km_live km)" "km_live k2' = (km_live km)(a \<mapsto> u64 work)"
        using a(1) assms(3) 1(3) by (auto simp: kmalloc_def split: if_splits)
      have "(km_live k2')(a := None) = km_live km" using al by (simp add: fun_upd_idem_iff domIff)
      moreover have "s64 (- 529) = - 529" by (intro s64_id) auto
      ultimately show ?thesis
        using 1 2 a al(2) s32 [of n] by (simp add: do_deferred_op_def kfree_def)
    qed
  qed
qed

text \<open>An error on a later segment is added to the bytes the earlier segments have stored, because
  \<open>count\<close> is unsigned and never below zero: the synchronous \<open>aio_write\<close> of scullc returns the
  number of bytes less the error number, which is neither.\<close>

theorem scullc_aio_error_as_count:
  assumes "scullc_write bytes cache g sig base dev len p k = io_result (Inr c) [] p1 d1 k1"
    and "scullc_write bytes cache g sig base' d1 len' p1 k1 = io_result (Inl e) [] p2 d2 k2"
    and "0 \<le> c" "c < 2147483648"
  shows "scullc_aio_write work bytes cache g sig True iocb [(base, len), (base', len')] dev p k =
    Done (c - errno_no e, None, d2, k2)"
proof -
  have e: "0 < errno_no e" "errno_no e < 1000" by (cases e; simp)+
  have "u64 (u64 (u64 c) + u64 (- errno_no e)) = u64 (c - errno_no e)"
    by (simp add: u64_def mod_simps)
  moreover have "s64 (c - errno_no e) = c - errno_no e" using assms(3,4) e by (intro s64_id) auto
  moreover have "\<not> u64 x < 0" for x by (simp add: not_less)
  ultimately show ?thesis
    using assms(1,2)
    by (simp add: scullc_aio_write_def defer_op_write_def finish_op_def io_result_def ret_value_def Let_def s64_u64)
qed

section \<open>Witnesses\<close>

definition short_kmem :: kmem where
  "short_kmem = fresh_kmem\<lparr>km_fail := (\<lambda>n. n = 3)\<rparr>"

definition two_unit :: list_globals where
  "two_unit = \<lparr>lg_unit = 8, lg_qset = 2\<rparr>"

fun returns :: "'a outcome \<Rightarrow> ('a \<Rightarrow> bool) \<Rightarrow> bool" where
  "returns (Done x) P = P x"
| "returns _ P = False"

lemma returnsD: "returns m P \<Longrightarrow> \<exists>x. m = Done x \<and> P x"
  by (cases m) auto

theorem scullc_aio_error_as_count_witness:
  "\<exists>d2 k2. scullc_aio_write 64 200 8 two_unit False True 7 [([65, 66], 2), ([67], 1)] (new_list_dev 8) 6 short_kmem =
    Done (- 10, None, d2, k2)"
proof -
  have "returns (scullc_write 200 8 two_unit False [65, 66] (new_list_dev 8) 2 6 short_kmem) (\<lambda>io.
      io_ret io = Inr 2 \<and> io_out io = [] \<and> returns (scullc_write 200 8 two_unit False [67] (io_dev io) 1 (io_pos io) (io_mem io))
        (\<lambda>io'. io_ret io' = Inl ENOMEM \<and> io_out io' = []))"
    by code_simp
  then obtain io io' where w: "scullc_write 200 8 two_unit False [65, 66] (new_list_dev 8) 2 6 short_kmem = Done io"
      "io_ret io = Inr 2" "io_out io = []"
      "scullc_write 200 8 two_unit False [67] (io_dev io) 1 (io_pos io) (io_mem io) = Done io'"
      "io_ret io' = Inl ENOMEM" "io_out io' = []"
    by (blast dest: returnsD)
  then have "scullc_write 200 8 two_unit False [65, 66] (new_list_dev 8) 2 6 short_kmem =
      io_result (Inr 2) [] (io_pos io) (io_dev io) (io_mem io)"
    and "scullc_write 200 8 two_unit False [67] (io_dev io) 1 (io_pos io) (io_mem io) =
      io_result (Inl ENOMEM) [] (io_pos io') (io_dev io') (io_mem io')"
    by (simp_all add: io_result_def)
  from scullc_aio_error_as_count [OF this] show ?thesis by auto
qed

theorem scullc_aio_write_fits_witness:
  "\<exists>r d' p' k'. scullc_aio_write 64 200 8 two_unit False True 7 [([65, 66], 2), ([67], 1)] (new_list_dev 8) 0 fresh_kmem =
      Done (s64 r, None, d', k') \<and> p' \<le> (3 :: int) \<and>
    (p' = 3 \<longrightarrow> s64 r = 3 \<and> ld_cell (ld_unit d') d' 2 = Some (Some 67))"
proof -
  have "ld_wf (ld_unit (new_list_dev 8)) (new_list_dev 8)" by (simp add: new_list_dev_wf geometry_def)
  moreover have "vector_fits (ld_unit (new_list_dev 8)) 0 [([65, 66], 2), ([67], 1)]"
    by (simp add: new_list_dev_def ld_unit_def)
  moreover have "ld_reach (\<lambda>u. u) (cache_fits 8 two_unit) (new_list_dev 8) p'"
    if "0 \<le> p'" "p' \<le> 0 + vector_length [([65, 66 :: byte], 2), ([67], 1)]" for p'
    using that by (auto simp: ld_reach_def cache_fits_def two_unit_def new_list_dev_def ld_unit_def)
  moreover have "0 < ld_sem (new_list_dev 8)" by (simp add: new_list_dev_def)
  ultimately obtain r d' p' k' where
    "scullc_aio_write 64 200 8 two_unit False True 7 [([65, 66], 2), ([67], 1)] (new_list_dev 8) 0 fresh_kmem =
      Done (s64 r, None, d', k')" "p' \<le> (3 :: int)"
    "p' = 3 \<longrightarrow> s64 r = 3 \<and> (\<forall>j. 0 \<le> j \<longrightarrow> j < 3 \<longrightarrow>
        ld_cell (ld_unit d') d' j = Some (Some ([65, 66, 67] ! nat j)))"
    using scullc_aio_write_fits [of "new_list_dev 8" 200 fresh_kmem 0 "[([65, 66], 2), ([67], 1)]" 8 two_unit False 64 7]
    by (auto simp: fresh_item_mem)
  then show ?thesis by (intro exI [of _ r] exI [of _ d'] exI [of _ p'] exI [of _ k']) auto
qed

theorem scullc_aio_completes_witness:
  "\<exists>d' k2 a k3. scullc_aio_write 64 200 8 two_unit False False 7 [([65, 66], 2)] (new_list_dev 8) 0 fresh_kmem =
      Done (- 529, Some \<lparr>aw_iocb = 7, aw_result = 2, aw_at = a\<rparr>, d', k2) \<and>
    do_deferred_op \<lparr>aw_iocb = 7, aw_result = 2, aw_at = a\<rparr> k2 = Done ((7, 2), k3)"
proof -
  have "returns (scullc_aio_write 64 200 8 two_unit False True 7 [([65, 66], 2)] (new_list_dev 8) 0 fresh_kmem)
      (\<lambda>(v, w, d, k). v = 2 \<and> w = None \<and> km_live k (km_next k) = None)"
    by code_simp
  then obtain d' k1 where f: "km_live k1 (km_next k1) = None" and 1: "scullc_aio_write 64 200 8 two_unit False True 7 [([65, 66], 2)] (new_list_dev 8) 0 fresh_kmem =
      Done (2, None, d', k1)" by (auto dest!: returnsD)
  have "returns (scullc_aio_write 64 200 8 two_unit False False 7 [([65, 66], 2)] (new_list_dev 8) 0 fresh_kmem)
      (\<lambda>(v, w, d, k). v = - 529 \<and> w = Some \<lparr>aw_iocb = 7, aw_result = 2, aw_at = 3\<rparr>)"
    by code_simp
  then obtain d2 k2 where 2: "scullc_aio_write 64 200 8 two_unit False False 7 [([65, 66], 2)] (new_list_dev 8) 0 fresh_kmem =
      Done (- 529, Some \<lparr>aw_iocb = 7, aw_result = 2, aw_at = 3\<rparr>, d2, k2)" by (auto dest!: returnsD)
  have "s32 2 = 2" by (simp add: s32_def)
  then show ?thesis using scullc_aio_completes [OF 1 2 f] 2 by auto
qed

end
