(* ===== verification/List_Module.thy ===== *)
theory List_Module
  imports List_Drivers Scull_Module
begin

text \<open>
  Loading and unloading of scullc, scullp, scullv and sculld (the \<open>init\<close>, \<open>cleanup\<close> and
  \<open>setup_cdev\<close> functions of their main.c in Kernel/Driver/ldd3-master), over the kernel's registries
  of the theory \<open>Scull_Module\<close>, with the bus of lddbus/lddbus.c that sculld registers with.
\<close>

section \<open>The module\<close>

text \<open>\<open>lm_proc\<close> is the name of the proc entry, \<open>None\<close> in a module built without \<open>SCULLx_DEBUG\<close>;
  \<open>lm_cache\<close> is the descriptor of the slab cache of scullc.\<close>

record list_module =
  lm_globals :: list_globals
  lm_major :: int
  lm_devs :: int
  lm_devices :: "(addr \<times> (list_dev \<times> cdev) list) option"
  lm_cache :: "addr option"
  lm_proc :: "string option"

definition list_new_dev :: "list_globals \<Rightarrow> list_dev" where
  "list_new_dev g = \<lparr>ld_items = [(clear_item 0)\<lparr>it_unit := lg_unit g\<rparr>], ld_qset = lg_qset g,
     ld_size = 0, ld_vmas = 0, ld_sem = 1\<rparr>"

definition list_setup_cdev :: "list_module \<Rightarrow> nat \<Rightarrow> kern \<Rightarrow> cdev \<times> kern" where
  "list_setup_cdev md i kn = cdev_add (MKDEV (lm_major md) (int i)) kn"

fun list_setup_devs :: "list_module \<Rightarrow> nat \<Rightarrow> nat \<Rightarrow> kern \<Rightarrow> (list_dev \<times> cdev) list \<times> kern" where
  "list_setup_devs md i 0 kn = ([], kn)"
| "list_setup_devs md i (Suc n) kn =
     (case list_setup_cdev md i kn of
        (c, kn) \<Rightarrow>
          (case list_setup_devs md (Suc i) n kn of
             (ds, kn) \<Rightarrow> ((list_new_dev (lm_globals md), c) # ds, kn)))"

text \<open>The result of the trim is not looked at.\<close>

fun list_cleanup_devs :: "list_globals \<Rightarrow> (list_dev \<times> cdev) list \<Rightarrow> kern \<Rightarrow> kern outcome" where
  "list_cleanup_devs g [] kn = Done kn"
| "list_cleanup_devs g ((dev, c) # ds) kn =
     (let kn = cdev_del c kn in
      and_then (ld_trim g dev (kn_mem kn)) (\<lambda>(_, dev, k). list_cleanup_devs g ds (kn\<lparr>kn_mem := k\<rparr>)))"

definition list_create_proc :: "list_module \<Rightarrow> kern \<Rightarrow> kern" where
  "list_create_proc md kn = (case lm_proc md of None \<Rightarrow> kn | Some name \<Rightarrow> create_proc name kn)"

definition list_remove_proc :: "list_module \<Rightarrow> kern \<Rightarrow> kern" where
  "list_remove_proc md kn = (case lm_proc md of None \<Rightarrow> kn | Some name \<Rightarrow> remove_proc_entry name kn)"

definition list_get_region :: "list_module \<Rightarrow> kern \<Rightarrow> (errno + int) \<times> list_module \<times> kern" where
  "list_get_region md kn =
     (if lm_major md \<noteq> 0
      then case register_chrdev_region (MKDEV (lm_major md) 0) (lm_devs md) kn of
             (r, kn) \<Rightarrow> (r, md, kn)
      else case alloc_chrdev_region 0 (lm_devs md) kn of
             (Inl e, kn) \<Rightarrow> (Inl e, md, kn)
           | (Inr major, kn) \<Rightarrow> (Inr 0, md\<lparr>lm_major := major\<rparr>, kn))"

text \<open>The part of \<open>init\<close> the drivers share: the numbers, the array of devices of \<open>bytes\<close> bytes each,
  and the devices. Without memory the numbers are given back.\<close>

definition list_init_devs ::
    "int \<Rightarrow> list_module \<Rightarrow> kern \<Rightarrow> (errno + int) \<times> list_module \<times> kern" where
  "list_init_devs bytes md kn =
     (case kmalloc (lm_devs md * bytes) (kn_mem kn) of
        (None, k) \<Rightarrow>
          (Inl ENOMEM, md, unregister_chrdev_region (MKDEV (lm_major md) 0) (lm_devs md) (kn\<lparr>kn_mem := k\<rparr>))
      | (Some a, k) \<Rightarrow>
          (case list_setup_devs md 0 (nat (lm_devs md)) (kn\<lparr>kn_mem := k\<rparr>) of
             (ds, kn) \<Rightarrow> (Inr 0, md\<lparr>lm_devices := Some (a, ds)\<rparr>, kn)))"

definition list_cleanup_all :: "list_module \<Rightarrow> kern \<Rightarrow> kern outcome" where
  "list_cleanup_all md kn =
     (case lm_devices md of
        None \<Rightarrow> Done kn
      | Some (a, ds) \<Rightarrow>
          and_then (list_cleanup_devs (lm_globals md) ds kn) (\<lambda>kn.
          and_then (kfree a (kn_mem kn)) (\<lambda>k. Done (kn\<lparr>kn_mem := k\<rparr>))))"

definition list_unregister :: "list_module \<Rightarrow> kern \<Rightarrow> kern" where
  "list_unregister md kn = unregister_chrdev_region (MKDEV (lm_major md) 0) (lm_devs md) kn"

subsection \<open>scullc\<close>

definition scullc_cleanup :: "list_module \<Rightarrow> kern \<Rightarrow> kern outcome" where
  "scullc_cleanup md kn =
     and_then (list_cleanup_all md (list_remove_proc md kn)) (\<lambda>kn.
     and_then (case lm_cache md of None \<Rightarrow> Done (kn_mem kn) | Some c \<Rightarrow> kfree c (kn_mem kn)) (\<lambda>k.
       Done (list_unregister md (kn\<lparr>kn_mem := k\<rparr>))))"

text \<open>\<open>cache\<close> is the size of the descriptor of a slab cache.\<close>

definition scullc_init ::
    "int \<Rightarrow> int \<Rightarrow> list_module \<Rightarrow> kern \<Rightarrow> ((errno + int) \<times> list_module \<times> kern) outcome" where
  "scullc_init bytes cache md kn =
     (case list_get_region md kn of
        (Inl e, md, kn) \<Rightarrow> Done (Inl e, md, kn)
      | (Inr _, md, kn) \<Rightarrow>
          (case list_init_devs bytes md kn of
             (Inl e, md, kn) \<Rightarrow> Done (Inl e, md, kn)
           | (Inr _, md, kn) \<Rightarrow>
               (case kmalloc cache (kn_mem kn) of
                  (None, k) \<Rightarrow>
                    and_then (scullc_cleanup md (kn\<lparr>kn_mem := k\<rparr>)) (\<lambda>kn. Done (Inl ENOMEM, md, kn))
                | (Some c, k) \<Rightarrow>
                    Done (Inr 0, md\<lparr>lm_cache := Some c\<rparr>, list_create_proc md (kn\<lparr>kn_mem := k\<rparr>)))))"

subsection \<open>scullp and scullv\<close>

definition scullp_init :: "int \<Rightarrow> list_module \<Rightarrow> kern \<Rightarrow> (errno + int) \<times> list_module \<times> kern" where
  "scullp_init bytes md kn =
     (case list_get_region md kn of
        (Inl e, md, kn) \<Rightarrow> (Inl e, md, kn)
      | (Inr _, md, kn) \<Rightarrow>
          (case list_init_devs bytes md kn of
             (Inl e, md, kn) \<Rightarrow> (Inl e, md, kn)
           | (Inr _, md, kn) \<Rightarrow> (Inr 0, md, list_create_proc md kn)))"

definition scullp_cleanup :: "list_module \<Rightarrow> kern \<Rightarrow> kern outcome" where
  "scullp_cleanup md kn =
     and_then (list_cleanup_all md (list_remove_proc md kn)) (\<lambda>kn. Done (list_unregister md kn))"

definition scullv_init :: "int \<Rightarrow> list_module \<Rightarrow> kern \<Rightarrow> (errno + int) \<times> list_module \<times> kern" where
  "scullv_init bytes md kn =
     (case list_get_region md kn of
        (Inl e, md, kn) \<Rightarrow> (Inl e, md, kn)
      | (Inr _, md, kn) \<Rightarrow>
          (case list_init_devs bytes md kn of
             (Inl e, md, kn) \<Rightarrow> (Inl e, md, kn)
           | (Inr _, md, kn) \<Rightarrow> (Inr 0, md, list_create_proc md kn)))"

definition scullv_cleanup :: "list_module \<Rightarrow> kern \<Rightarrow> kern outcome" where
  "scullv_cleanup md kn =
     and_then (list_cleanup_all md (list_remove_proc md kn)) (\<lambda>kn. Done (list_unregister md kn))"

subsection \<open>The bus and sculld\<close>

text \<open>The bus of lddbus: whether its type is known to the kernel, its version file and its root device \<open>ldd0\<close> are there, the drivers and devices
  registered with it, by name, and the drivers that have a version file. Request \<open>n\<close> to the kernel fails when \<open>bus_refuse n\<close> says so.\<close>

record ldd_bus =
  bus_registered :: bool
  bus_version_file :: bool
  bus_ldd0 :: bool
  bus_drivers :: "string list"
  bus_devices :: "string list"
  bus_driver_files :: "string list"
  bus_next :: nat
  bus_refuse :: "nat \<Rightarrow> bool"

definition bus_request :: "ldd_bus \<Rightarrow> bool \<times> ldd_bus" where
  "bus_request b = (\<not> bus_refuse b (bus_next b), b\<lparr>bus_next := Suc (bus_next b)\<rparr>)"

definition ldd_bus_init :: "ldd_bus \<Rightarrow> (errno + int) \<times> ldd_bus" where
  "ldd_bus_init b =
     (let (ok, b) = bus_request b in
      if \<not> ok \<or> bus_registered b then (Inl EINVAL, b)
      else
        let b = b\<lparr>bus_registered := True\<rparr>;
            (ok, b) = bus_request b;
            b = b\<lparr>bus_version_file := ok\<rparr>;
            (ok, b) = bus_request b
        in if ok then (Inr 0, b\<lparr>bus_ldd0 := True\<rparr>) else (Inl EINVAL, b))"

definition ldd_bus_exit :: "ldd_bus \<Rightarrow> ldd_bus" where
  "ldd_bus_exit b = b\<lparr>bus_ldd0 := False, bus_registered := False, bus_version_file := False\<rparr>"

definition lddbus_Version :: string where
  "lddbus_Version = ''$Revision: 1.9 $''"

text \<open>The text of the version files, and the variable that a hotplug event gets, while there is room for it.\<close>

definition show_bus_version :: "string" where
  "show_bus_version = take 4095 (lddbus_Version @ [CHR 0x0A])"

definition show_version :: "string \<Rightarrow> string" where
  "show_version version = version @ [CHR 0x0A]"

definition ldd_uevent :: "bool \<Rightarrow> string list \<Rightarrow> (errno + int) \<times> string list" where
  "ldd_uevent room vars = (if room then (Inr 0, vars @ [''LDDBUS_VERSION='' @ lddbus_Version]) else (Inl ENOMEM, vars))"

text \<open>A device belongs to a driver whose name its own name starts with.\<close>

definition ldd_match :: "string \<Rightarrow> string \<Rightarrow> bool" where
  "ldd_match dev driver \<longleftrightarrow> take (length driver) dev = driver"

definition register_ldd_device :: "string \<Rightarrow> ldd_bus \<Rightarrow> (errno + int) \<times> ldd_bus" where
  "register_ldd_device name b =
     (let (ok, b) = bus_request b in
      if ok then (Inr 0, b\<lparr>bus_devices := name # bus_devices b\<rparr>) else (Inl EINVAL, b))"

definition unregister_ldd_device :: "string \<Rightarrow> ldd_bus \<Rightarrow> ldd_bus" where
  "unregister_ldd_device name b = b\<lparr>bus_devices := remove1 name (bus_devices b)\<rparr>"

text \<open>The driver stays registered when its version file cannot be made.\<close>

definition register_ldd_driver :: "string \<Rightarrow> ldd_bus \<Rightarrow> (errno + int) \<times> ldd_bus" where
  "register_ldd_driver name b =
     (let (ok, b) = bus_request b in
      if \<not> ok then (Inl EBUSY, b)
      else
        let b = b\<lparr>bus_drivers := name # bus_drivers b\<rparr>; (ok, b) = bus_request b
        in if ok then (Inr 0, b\<lparr>bus_driver_files := name # bus_driver_files b\<rparr>) else (Inl ENOMEM, b))"

definition unregister_ldd_driver :: "string \<Rightarrow> ldd_bus \<Rightarrow> ldd_bus" where
  "unregister_ldd_driver name b = b\<lparr>bus_drivers := remove1 name (bus_drivers b), bus_driver_files := remove1 name (bus_driver_files b)\<rparr>"

text \<open>The name of device \<open>i\<close>: \<open>"sculld"\<close> and the decimal number. Nobody looks at the result of a
  registration.\<close>

fun decimal :: "nat \<Rightarrow> string" where
  "decimal n = (if n < 10 then [char_of (48 + n)] else decimal (n div 10) @ [char_of (48 + n mod 10)])"

declare decimal.simps [simp del]

definition sculld_devname :: "nat \<Rightarrow> string" where
  "sculld_devname i = ''sculld'' @ decimal i"

definition sculld_register_dev :: "nat \<Rightarrow> ldd_bus \<Rightarrow> ldd_bus" where
  "sculld_register_dev i b = snd (register_ldd_device (sculld_devname i) b)"

definition sculld_init ::
    "int \<Rightarrow> list_module \<Rightarrow> kern \<Rightarrow> ldd_bus \<Rightarrow> (errno + int) \<times> list_module \<times> kern \<times> ldd_bus" where
  "sculld_init bytes md kn b =
     (case list_get_region md kn of
        (Inl e, md, kn) \<Rightarrow> (Inl e, md, kn, b)
      | (Inr _, md, kn) \<Rightarrow>
          let b = snd (register_ldd_driver ''sculld'' b) in
          (case list_init_devs bytes md kn of
             (Inl e, md, kn) \<Rightarrow> (Inl e, md, kn, b)
           | (Inr _, md, kn) \<Rightarrow>
               (Inr 0, md, list_create_proc md kn, fold sculld_register_dev [0..<nat (lm_devs md)] b)))"

definition sculld_cleanup :: "list_module \<Rightarrow> kern \<Rightarrow> ldd_bus \<Rightarrow> (kern \<times> ldd_bus) outcome" where
  "sculld_cleanup md kn b =
     and_then (list_cleanup_all md (list_remove_proc md kn)) (\<lambda>kn.
       Done (list_unregister md kn,
         unregister_ldd_driver ''sculld''
           (fold (\<lambda>i. unregister_ldd_device (sculld_devname i)) [0..<nat (lm_devs md)] b)))"

section \<open>What the module holds\<close>

definition list_devs_addrs :: "(list_dev \<times> cdev) list \<Rightarrow> addr list" where
  "list_devs_addrs ds = concat (map (\<lambda>d. ld_addrs (fst d)) ds)"

definition list_module_addrs :: "list_module \<Rightarrow> addr list" where
  "list_module_addrs md =
     (case lm_devices md of None \<Rightarrow> [] | Some (a, ds) \<Rightarrow> list_devs_addrs ds @ [a])"

definition list_module_cdevs :: "list_module \<Rightarrow> cdev list" where
  "list_module_cdevs md = (case lm_devices md of None \<Rightarrow> [] | Some (a, ds) \<Rightarrow> map snd ds)"

definition list_module_procs :: "list_module \<Rightarrow> string list" where
  "list_module_procs md = (case lm_proc md of None \<Rightarrow> [] | Some name \<Rightarrow> [name])"

text \<open>A device without mappings whose items are well formed, or without data.\<close>

definition ld_trim_ok :: "list_dev \<Rightarrow> bool" where
  "ld_trim_ok dev \<longleftrightarrow> ld_vmas dev = 0 \<and>
     ((\<exists>d. ld_items dev = [d] \<and> qn_data d = None) \<or> (\<exists>q. ld_wf q dev))"

definition list_module_ok :: "list_module \<Rightarrow> bool" where
  "list_module_ok md \<longleftrightarrow>
     (case lm_devices md of None \<Rightarrow> True
      | Some (a, ds) \<Rightarrow> list_all (\<lambda>d. ld_trim_ok (fst d) \<and> \<not> dangling (snd d)) ds)"

text \<open>The kernel \<open>kn\<close> is \<open>kn0\<close> with what the module's variables name.\<close>

definition list_holds :: "kern \<Rightarrow> list_module \<Rightarrow> kern \<Rightarrow> bool" where
  "list_holds kn0 md kn \<longleftrightarrow> list_module_ok md \<and>
     added kn0 (list_module_addrs md @ (case lm_cache md of None \<Rightarrow> [] | Some c \<Rightarrow> [c])) (list_module_cdevs md)
       [(MKDEV (lm_major md) 0, lm_devs md)] (list_module_procs md) kn"

section \<open>Lemmas\<close>

lemma restrict_map_UNIV [simp]: "m |` UNIV = m"
  by (simp add: restrict_map_def fun_eq_iff)

lemma list_new_dev_trim [simp]: "ld_trim_ok (list_new_dev g)" "ld_addrs (list_new_dev g) = []"
  by (simp_all add: list_new_dev_def ld_trim_ok_def clear_item_def ld_addrs_def items_addrs_def data_addrs_def)

lemma ld_trim_ok_result:
  assumes "ld_trim_ok dev" "owns (ld_addrs dev @ f) k"
  shows "\<exists>dev' k'. ld_trim g dev k = Done (Inr 0, dev', k') \<and> owns f k' \<and>
    km_live k' = km_live k |` (- set (ld_addrs dev))"
proof (cases "\<exists>d. ld_items dev = [d] \<and> qn_data d = None")
  case True
  then show ?thesis
    using assms by (auto simp: ld_trim_def ld_trim_ok_def free_item_data_def ld_addrs_def items_addrs_def
        data_addrs_def Let_def)
next
  case False
  then obtain q where "ld_wf q dev" "ld_vmas dev = 0" using assms(1) by (auto simp: ld_trim_ok_def)
  from ld_trim_result [OF this assms(2), of g] show ?thesis by metis
qed

lemma list_cleanup_devs_result:
  assumes "list_all (\<lambda>d. ld_trim_ok (fst d)) ds" "owns (list_devs_addrs ds @ f) (kn_mem kn)"
  shows "\<exists>kn'. list_cleanup_devs g ds kn = Done kn' \<and> owns f (kn_mem kn') \<and>
    cleaned kn (list_devs_addrs ds) (map snd ds) [] [] kn'"
  using assms
proof (induction ds arbitrary: kn)
  case Nil
  then show ?case by (simp add: list_devs_addrs_def cleaned_def cdev_nos_def restrict_map_def)
next
  case (Cons d ds)
  obtain dev c where d: "d = (dev, c)" by fastforce
  have "ld_trim_ok dev" "owns (ld_addrs dev @ (list_devs_addrs ds @ f)) (kn_mem (cdev_del c kn))"
    using Cons.prems d by (simp_all add: list_devs_addrs_def cdev_del_cleaned)
  from ld_trim_ok_result [OF this, of g] obtain dev' k where t: "ld_trim g dev (kn_mem (cdev_del c kn)) = Done (Inr 0, dev', k)"
      "owns (list_devs_addrs ds @ f) k" "km_live k = km_live (kn_mem kn) |` (- set (ld_addrs dev))"
    by (auto simp: cdev_del_cleaned)
  let ?kn = "(cdev_del c kn)\<lparr>kn_mem := k\<rparr>"
  obtain kn' where k': "list_cleanup_devs g ds ?kn = Done kn'" "owns f (kn_mem kn')"
      "cleaned ?kn (list_devs_addrs ds) (map snd ds) [] [] kn'"
    using Cons.IH [of ?kn] Cons.prems t(2) by auto
  have "cleaned kn (list_devs_addrs (d # ds)) (map snd (d # ds)) [] [] kn'"
    using k'(3) t(3) d
    by (simp add: cleaned_def cdev_del_cleaned list_devs_addrs_def cdev_nos_def restrict_restrict_set)
  with k' t(1) d show ?case by (simp add: Let_def)
qed

lemma list_cleanup_all_result:
  assumes ok: "list_module_ok md" and ow: "owns (list_module_addrs md @ f) (kn_mem kn)"
  shows "\<exists>kn'. list_cleanup_all md kn = Done kn' \<and> owns f (kn_mem kn') \<and>
    cleaned kn (list_module_addrs md) (list_module_cdevs md) [] [] kn'"
proof (cases "lm_devices md")
  case None
  then show ?thesis using ow by (simp add: list_cleanup_all_def list_module_addrs_def list_module_cdevs_def)
next
  case (Some q)
  obtain a ds where q: "q = (a, ds)" by fastforce
  have "owns (list_devs_addrs ds @ (a # f)) (kn_mem kn)" "list_all (\<lambda>d. ld_trim_ok (fst d)) ds"
    using ow ok Some q by (auto simp: list_module_addrs_def list_module_ok_def list_all_iff)
  from list_cleanup_devs_result [OF this(2,1), of "lm_globals md"] obtain kn1 where
    c1: "list_cleanup_devs (lm_globals md) ds kn = Done kn1" "owns (a # f) (kn_mem kn1)"
      "cleaned kn (list_devs_addrs ds) (map snd ds) [] [] kn1" by blast
  obtain k where k: "kfree a (kn_mem kn1) = Done k" "owns f k" "km_live k = km_live (kn_mem kn1) |` (- set [a])"
    by (rule kfree_owned [OF c1(2)])
  have "cleaned kn (list_devs_addrs ds @ [a]) (map snd ds @ []) ([] @ []) ([] @ []) (kn1\<lparr>kn_mem := k\<rparr>)"
    by (rule cleaned_trans [OF c1(3) cleaned_mem [OF k(3)]])
  with c1 k Some q show ?thesis
    by (simp add: list_cleanup_all_def list_module_addrs_def list_module_cdevs_def)
qed

lemma list_remove_proc_cleaned:
  "cleaned kn [] [] [] (list_module_procs md) (list_remove_proc md kn)" "kn_mem (list_remove_proc md kn) = kn_mem kn"
  using cleaned_proc [of kn] by (auto simp: list_remove_proc_def list_module_procs_def remove_proc_entry_def split: option.split)

text \<open>Unloading, with the memory \<open>cs\<close> of a cache that is freed in between.\<close>

lemma list_unload:
  assumes "list_module_ok md" "owns (list_module_addrs md @ f) (kn_mem kn)"
  obtains kn' where "list_cleanup_all md (list_remove_proc md kn) = Done kn'" "owns f (kn_mem kn')"
    "cleaned kn (list_module_addrs md) (list_module_cdevs md) [] (list_module_procs md) kn'"
proof -
  obtain kn' where c: "list_cleanup_all md (list_remove_proc md kn) = Done kn'" "owns f (kn_mem kn')"
      "cleaned (list_remove_proc md kn) (list_module_addrs md) (list_module_cdevs md) [] [] kn'"
    using list_cleanup_all_result [OF assms(1), of f "list_remove_proc md kn"] assms(2) list_remove_proc_cleaned(2)
    by auto
  have "cleaned kn ([] @ list_module_addrs md) ([] @ list_module_cdevs md) ([] @ []) (list_module_procs md @ []) kn'"
    by (rule cleaned_trans [OF list_remove_proc_cleaned(1) c(3)])
  then show ?thesis using that c by simp
qed

lemma scullc_cleanup_result:
  assumes "list_module_ok md" "owns (list_module_addrs md @ (case lm_cache md of None \<Rightarrow> [] | Some c \<Rightarrow> [c]) @ f) (kn_mem kn)"
  shows "\<exists>kn'. scullc_cleanup md kn = Done kn' \<and> owns f (kn_mem kn') \<and>
    cleaned kn (list_module_addrs md @ (case lm_cache md of None \<Rightarrow> [] | Some c \<Rightarrow> [c])) (list_module_cdevs md)
      [(MKDEV (lm_major md) 0, lm_devs md)] (list_module_procs md) kn'"
proof -
  let ?c = "case lm_cache md of None \<Rightarrow> [] | Some c \<Rightarrow> [c]"
  from list_unload [OF assms] obtain kn1 where c: "list_cleanup_all md (list_remove_proc md kn) = Done kn1"
      "owns (?c @ f) (kn_mem kn1)"
      "cleaned kn (list_module_addrs md) (list_module_cdevs md) [] (list_module_procs md) kn1" by blast
  have "\<exists>k. (case lm_cache md of None \<Rightarrow> Done (kn_mem kn1) | Some c \<Rightarrow> kfree c (kn_mem kn1)) = Done k \<and> owns f k \<and>
    km_live k = km_live (kn_mem kn1) |` (- set ?c)"
  proof (cases "lm_cache md")
    case None
    then show ?thesis using c(2) by simp
  next
    case (Some a)
    then have "owns (a # f) (kn_mem kn1)" using c(2) by simp
    from kfree_owned [OF this] show ?thesis using Some by (metis option.simps(5))
  qed
  then obtain k where k: "(case lm_cache md of None \<Rightarrow> Done (kn_mem kn1) | Some c \<Rightarrow> kfree c (kn_mem kn1)) = Done k"
      "owns f k" "km_live k = km_live (kn_mem kn1) |` (- set ?c)" by blast
  have "cleaned kn ((list_module_addrs md @ ?c) @ []) ((list_module_cdevs md @ []) @ [])
      (([] @ []) @ [(MKDEV (lm_major md) 0, lm_devs md)]) ((list_module_procs md @ []) @ [])
      (list_unregister md (kn1\<lparr>kn_mem := k\<rparr>))"
    unfolding list_unregister_def
    by (rule cleaned_trans [OF cleaned_trans [OF c(3) cleaned_mem [OF k(3)]] cleaned_region])
  with c(1) k show ?thesis by (simp add: scullc_cleanup_def list_unregister_def)
qed

lemma list_setup_devs_result:
  "list_setup_devs md i n kn = (ds, kn') \<Longrightarrow> set_up kn (map snd ds) kn' \<and>
     list_all (\<lambda>d. fst d = list_new_dev (lm_globals md) \<and> \<not> dangling (snd d)) ds"
proof (induction n arbitrary: i kn ds kn')
  case 0
  then show ?case by (simp add: set_up_def cdev_nos_def)
next
  case (Suc n)
  obtain c kn1 where c: "list_setup_cdev md i kn = (c, kn1)" by fastforce
  obtain es kn2 where es: "list_setup_devs md (Suc i) n kn1 = (es, kn2)" by fastforce
  have "ds = (list_new_dev (lm_globals md), c) # es" "kn' = kn2" using Suc.prems c es by auto
  moreover have "set_up kn [c] kn1" "\<not> dangling c"
    using cdev_add_set_up c unfolding list_setup_cdev_def by fastforce+
  ultimately show ?case using Suc.IH [OF es] set_up_trans [of kn "[c]" kn1] by auto
qed

lemma list_get_region_result:
  assumes eq: "list_get_region md kn = (r, md', kn')"
  shows "(\<exists>e. r = Inl e \<and> md' = md \<and> added kn [] [] [] [] kn') \<or>
    r = Inr 0 \<and> (\<exists>major. md' = md\<lparr>lm_major := major\<rparr>) \<and>
      added kn [] [] [(MKDEV (lm_major md') 0, lm_devs md')] [] kn'"
proof -
  define major where "major = (if lm_major md = 0 then kn_major kn else lm_major md)"
  obtain q kn1 where q: "register_chrdev_region (MKDEV major 0) (lm_devs md) kn = (q, kn1)" by fastforce
  have "kn_major kn1 = kn_major kn"
    using q by (auto simp: register_chrdev_region_def Let_def split: if_splits)
  then have "r = (case q of Inl e \<Rightarrow> Inl e | Inr _ \<Rightarrow> Inr 0) \<and> kn' = kn1 \<and>
      md' = (case q of Inl e \<Rightarrow> md | Inr _ \<Rightarrow> md\<lparr>lm_major := major\<rparr>)"
    using eq q register_cases [OF q]
    by (auto simp: list_get_region_def alloc_chrdev_region_def major_def split: sum.splits if_splits)
  then show ?thesis using register_cases [OF q] by (cases q) auto
qed

lemma list_init_devs_result:
  assumes "list_init_devs bytes md kn = (r, md', kn')" "lm_devices md = None"
    and "added kn0 [] [] [(MKDEV (lm_major md) 0, lm_devs md)] [] kn"
  shows "r = Inl ENOMEM \<and> md' = md \<and> added kn0 [] [] [] [] kn' \<or>
    r = Inr 0 \<and> (\<exists>ds. md' = md\<lparr>lm_devices := Some ds\<rparr>) \<and> list_module_ok md' \<and>
      added kn0 (list_module_addrs md') (list_module_cdevs md') [(MKDEV (lm_major md) 0, lm_devs md)] [] kn'"
proof -
  obtain q k where q: "kmalloc (lm_devs md * bytes) (kn_mem kn) = (q, k)" by fastforce
  show ?thesis
  proof (cases q)
    case None
    then show ?thesis
      using assms q unregister_added [OF added_trans [OF assms(3) added_kmalloc(2), unfolded append_Nil append_Nil2]]
      by (auto simp: list_init_devs_def)
  next
    case (Some a)
    obtain ds kn2 where ds: "list_setup_devs md 0 (nat (lm_devs md)) (kn\<lparr>kn_mem := k\<rparr>) = (ds, kn2)" by fastforce
    then have eq: "r = Inr 0" "md' = md\<lparr>lm_devices := Some (a, ds)\<rparr>" "kn' = kn2"
      using assms(1) q Some by (auto simp: list_init_devs_def)
    note d = list_setup_devs_result [OF ds]
    have "list_devs_addrs ds = []" using d by (auto simp: list_devs_addrs_def list_all_iff)
    moreover have "added kn0 ([] @ [a] @ []) ([] @ [] @ map snd ds)
        ([(MKDEV (lm_major md) 0, lm_devs md)] @ [] @ []) ([] @ [] @ []) kn'"
      unfolding eq(3)
      by (rule added_trans [OF assms(3) added_trans [OF added_kmalloc(1) added_set_up]]) (use q Some d in auto)
    moreover have "list_all (\<lambda>d. ld_trim_ok (fst d) \<and> \<not> dangling (snd d)) ds"
      using d by (auto simp: list_all_iff)
    ultimately show ?thesis
      using eq by (auto simp: list_module_addrs_def list_module_cdevs_def list_module_ok_def)
  qed
qed

lemma list_create_proc_added: "added kn [] [] [] (list_module_procs md) (list_create_proc md kn)"
  using added_proc by (auto simp: list_create_proc_def list_module_procs_def split: option.split)

text \<open>What has been added and cleaned again.\<close>

lemma added_cleaned_same_kernel:
  assumes "added kn0 xs cs rs ps kn" "cleaned kn xs cs rs qs kn'" "kmem_ok (kn_mem kn0)"
    and "mset ps \<subseteq># mset qs" "set (filter (\<lambda>q. q \<notin> set ps) qs) \<inter> set (kn_procs kn0) = {}" "distinct qs"
  shows "same_kernel kn0 kn'"
proof -
  have "accounted (kn_mem kn0) ([] :: addr list) (kn_mem kn) (xs @ [])" using assms(1) by (rule added_accounted)
  moreover have "owns [] (kn_mem kn0)" using assms(3) by (simp add: owns_def)
  ultimately have "km_live (kn_mem kn) |` (- set xs) = km_live (kn_mem kn0)"
    by (simp_all add: accounted_def restrict_map_def)
  moreover have "mset (kn_procs kn0) + mset ps - mset qs = mset (kn_procs kn0)"
  proof (rule multiset_eqI)
    fix x
    have le: "count (mset ps) x \<le> count (mset qs) x" using assms(4) by (simp add: mset_subset_eq_count)
    have q1: "count (mset qs) x \<le> 1" using assms(6) by (simp add: distinct_count_atmost_1)
    show "count (mset (kn_procs kn0) + mset ps - mset qs) x = count (mset (kn_procs kn0)) x"
    proof (cases "x \<in> set ps")
      case True
      then have "0 < count (mset ps) x" by (simp add: count_greater_zero_iff)
      then have "count (mset ps) x = count (mset qs) x" using le q1 by linarith
      then show ?thesis by simp
    next
      case False
      then have "x \<notin> set qs \<or> x \<notin> set (kn_procs kn0)" using assms(5) by auto
      then have "count (mset qs) x = 0 \<or> count (mset (kn_procs kn0)) x = 0" by (simp add: count_mset_0_iff)
      moreover have "count (mset ps) x = 0" using False by (simp add: count_mset_0_iff)
      ultimately show ?thesis unfolding count_union count_diff by arith
    qed
  qed
  ultimately show ?thesis using assms(1,2) by (simp add: same_kernel_def cleaned_def added_def)
qed

section \<open>Properties\<close>

lemma scullc_init_result:
  assumes "lm_devices md = None" "lm_cache md = None" "kmem_ok (kn_mem kn)"
    and "\<And>name. lm_proc md = Some name \<Longrightarrow> name \<notin> set (kn_procs kn)"
  shows "\<exists>r md' kn'. scullc_init bytes cache md kn = Done (r, md', kn') \<and>
    (case r of Inr _ \<Rightarrow> list_holds kn md' kn' | Inl _ \<Rightarrow> same_kernel kn kn')"
proof -
  obtain r md1 kn1 where r: "list_get_region md kn = (r, md1, kn1)" by (metis surj_pair)
  show ?thesis
  proof (cases r)
    case (Inl e)
    then have "added kn [] [] [] [] kn1" using list_get_region_result [OF r] by auto
    then show ?thesis using Inl r assms(3) added_same_kernel by (simp add: scullc_init_def)
  next
    case (Inr v)
    then obtain major where md1: "md1 = md\<lparr>lm_major := major\<rparr>"
      and reg: "added kn [] [] [(MKDEV (lm_major md1) 0, lm_devs md1)] [] kn1"
      using list_get_region_result [OF r] by auto
    obtain q md2 kn2 where q: "list_init_devs bytes md1 kn1 = (q, md2, kn2)" by (metis surj_pair)
    have "lm_devices md1 = None" using md1 assms(1) by simp
    from list_init_devs_result [OF q this reg] show ?thesis
    proof (elim disjE conjE exE)
      assume "q = Inl ENOMEM" "added kn [] [] [] [] kn2"
      then show ?thesis using r Inr q assms(3) added_same_kernel by (simp add: scullc_init_def)
    next
      fix ds
      let ?rs = "[(MKDEV (lm_major md1) 0, lm_devs md1)]"
      assume q0: "q = Inr 0" and md2: "md2 = md1\<lparr>lm_devices := Some ds\<rparr>" and ok: "list_module_ok md2"
        and ad: "added kn (list_module_addrs md2) (list_module_cdevs md2) ?rs [] kn2"
      obtain c k where c: "kmalloc cache (kn_mem kn2) = (c, k)" by fastforce
      let ?kn = "kn2\<lparr>kn_mem := k\<rparr>"
      show ?thesis
      proof (cases c)
        case None
        have ad': "added kn (list_module_addrs md2) (list_module_cdevs md2) ?rs [] ?kn"
          using added_trans [OF ad added_kmalloc(2)] c None by simp
        have "accounted (kn_mem kn) ([] :: addr list) (kn_mem ?kn) (list_module_addrs md2 @ [])"
          using ad' by (rule added_accounted)
        then have "owns (list_module_addrs md2 @ (case lm_cache md2 of None \<Rightarrow> [] | Some c \<Rightarrow> [c]) @ []) (kn_mem ?kn)"
          using assms(2,3) md1 md2 by (simp add: accounted_def owns_def)
        from scullc_cleanup_result [OF ok this] obtain kn' where
          cl: "scullc_cleanup md2 ?kn = Done kn'"
            "cleaned ?kn (list_module_addrs md2) (list_module_cdevs md2) ?rs (list_module_procs md2) kn'"
          using assms(2) md1 md2 by auto
        have "same_kernel kn kn'"
          by (rule added_cleaned_same_kernel [OF ad' cl(2) assms(3)])
            (use assms(4) md1 md2 in \<open>auto simp: list_module_procs_def split: option.splits\<close>)
        then show ?thesis using r Inr q q0 c None cl(1) by (simp add: scullc_init_def)
      next
        case (Some a)
        let ?md = "md2\<lparr>lm_cache := Some a\<rparr>"
        have "added kn (list_module_addrs md2 @ [a] @ []) (list_module_cdevs md2 @ [] @ []) (?rs @ [] @ [])
            ([] @ [] @ list_module_procs md2) (list_create_proc md2 ?kn)"
          by (rule added_trans [OF ad added_trans [OF added_kmalloc(1) list_create_proc_added]]) (use c Some in auto)
        then have "list_holds kn ?md (list_create_proc md2 ?kn)"
          using ok md2 by (simp add: list_holds_def list_module_ok_def list_module_addrs_def list_module_cdevs_def
              list_module_procs_def)
        then show ?thesis using r Inr q q0 c Some by (simp add: scullc_init_def)
      qed
    qed
  qed
qed

lemma scullp_init_result:
  assumes "lm_devices md = None" "lm_cache md = None" "kmem_ok (kn_mem kn)"
  shows "\<exists>r md' kn'. scullp_init bytes md kn = (r, md', kn') \<and> scullv_init bytes md kn = (r, md', kn') \<and>
    (\<exists>b'. sculld_init bytes md kn b = (r, md', kn', b')) \<and>
    (case r of Inr _ \<Rightarrow> list_holds kn md' kn' \<and> lm_cache md' = None | Inl _ \<Rightarrow> same_kernel kn kn')"
proof -
  obtain r md1 kn1 where r: "list_get_region md kn = (r, md1, kn1)" by (metis surj_pair)
  show ?thesis
  proof (cases r)
    case (Inl e)
    then have "added kn [] [] [] [] kn1" using list_get_region_result [OF r] by auto
    then show ?thesis
      using Inl r assms(3) added_same_kernel by (simp add: scullp_init_def scullv_init_def sculld_init_def)
  next
    case (Inr v)
    then obtain major where md1: "md1 = md\<lparr>lm_major := major\<rparr>"
      and reg: "added kn [] [] [(MKDEV (lm_major md1) 0, lm_devs md1)] [] kn1"
      using list_get_region_result [OF r] by auto
    obtain q md2 kn2 where q: "list_init_devs bytes md1 kn1 = (q, md2, kn2)" by (metis surj_pair)
    have "lm_devices md1 = None" using md1 assms(1) by simp
    from list_init_devs_result [OF q this reg] show ?thesis
    proof (elim disjE conjE exE)
      assume "q = Inl ENOMEM" "added kn [] [] [] [] kn2"
      then show ?thesis
        using r Inr q assms(3) added_same_kernel
        by (simp add: scullp_init_def scullv_init_def sculld_init_def)
    next
      fix ds
      let ?rs = "[(MKDEV (lm_major md1) 0, lm_devs md1)]"
      assume q0: "q = Inr 0" and md2: "md2 = md1\<lparr>lm_devices := Some ds\<rparr>" and ok: "list_module_ok md2"
        and ad: "added kn (list_module_addrs md2) (list_module_cdevs md2) ?rs [] kn2"
      have "added kn (list_module_addrs md2 @ []) (list_module_cdevs md2 @ []) (?rs @ []) ([] @ list_module_procs md2)
          (list_create_proc md2 kn2)"
        by (rule added_trans [OF ad list_create_proc_added])
      then have "list_holds kn md2 (list_create_proc md2 kn2)" using ok md1 md2 assms(2) by (simp add: list_holds_def)
      then show ?thesis
        using r Inr q q0 md1 md2 assms(2) by (simp add: scullp_init_def scullv_init_def sculld_init_def)
    qed
  qed
qed

text \<open>Loading scullc, scullp, scullv or sculld never crashes. When it succeeds, exactly the memory, device
  numbers, devices and proc entries the module's variables name have been added to the kernel; when it
  fails, wherever that is, memory and registries are what they were.\<close>

theorem list_init_accounts:
  assumes "lm_devices md = None" "lm_cache md = None" "kmem_ok (kn_mem kn)"
    and "\<And>name. lm_proc md = Some name \<Longrightarrow> name \<notin> set (kn_procs kn)"
  shows "(\<exists>r md' kn'. scullc_init bytes cache md kn = Done (r, md', kn') \<and>
      (case r of Inr _ \<Rightarrow> list_holds kn md' kn' | Inl _ \<Rightarrow> same_kernel kn kn')) \<and>
    (\<exists>r md' kn'. scullp_init bytes md kn = (r, md', kn') \<and> scullv_init bytes md kn = (r, md', kn') \<and>
      (\<exists>b'. sculld_init bytes md kn b = (r, md', kn', b')) \<and>
      (case r of Inr _ \<Rightarrow> list_holds kn md' kn' \<and> lm_cache md' = None | Inl _ \<Rightarrow> same_kernel kn kn'))"
  using scullc_init_result [OF assms] scullp_init_result [OF assms(1-3)] by blast

text \<open>Unloading any of the four drivers never crashes, whatever has been written to the devices, as long
  as none is mapped: all the memory is given back, and memory, device numbers, devices and proc entries
  are what they were without the module.\<close>

theorem list_cleanup_restores:
  assumes "list_holds kn0 md kn" "kmem_ok (kn_mem kn0)"
  shows "\<exists>kn'. scullc_cleanup md kn = Done kn' \<and> same_kernel kn0 kn' \<and> (kn_warned kn' \<longleftrightarrow> kn_warned kn0) \<and>
    (lm_cache md = None \<longrightarrow> scullp_cleanup md kn = Done kn' \<and> scullv_cleanup md kn = Done kn' \<and>
      (\<exists>b'. sculld_cleanup md kn b = Done (kn', b')))"
proof -
  let ?xs = "list_module_addrs md @ (case lm_cache md of None \<Rightarrow> [] | Some c \<Rightarrow> [c])"
  have ok: "list_module_ok md" and ad: "added kn0 ?xs (list_module_cdevs md)
      [(MKDEV (lm_major md) 0, lm_devs md)] (list_module_procs md) kn"
    using assms(1) by (simp_all add: list_holds_def)
  have "accounted (kn_mem kn0) ([] :: addr list) (kn_mem kn) (?xs @ [])" using ad by (rule added_accounted)
  then have "owns (list_module_addrs md @ (case lm_cache md of None \<Rightarrow> [] | Some c \<Rightarrow> [c]) @ []) (kn_mem kn)"
    using assms(2) by (simp add: accounted_def owns_def)
  from scullc_cleanup_result [OF ok this] obtain kn' where c: "scullc_cleanup md kn = Done kn'"
      "cleaned kn ?xs (list_module_cdevs md) [(MKDEV (lm_major md) 0, lm_devs md)] (list_module_procs md) kn'" by blast
  have "same_kernel kn0 kn'"
    by (rule added_cleaned_same_kernel [OF ad c(2) assms(2)])
      (auto simp: list_module_procs_def split: option.splits)
  moreover have "\<not> list_ex dangling (list_module_cdevs md)"
    using ok by (fastforce simp: list_module_ok_def list_module_cdevs_def list_ex_iff list_all_iff split: option.splits)
  then have "kn_warned kn' \<longleftrightarrow> kn_warned kn0" using c(2) ad by (simp add: cleaned_def added_def)
  moreover have "scullp_cleanup md kn = Done kn' \<and> scullv_cleanup md kn = Done kn' \<and>
      (\<exists>b'. sculld_cleanup md kn b = Done (kn', b'))" if "lm_cache md = None"
    using that c(1)
    by (cases "list_cleanup_all md (list_remove_proc md kn)")
      (simp_all add: scullc_cleanup_def scullp_cleanup_def scullv_cleanup_def sculld_cleanup_def)
  ultimately show ?thesis using c(1) by (intro exI [of _ kn']) simp
qed

text \<open>When the array of devices cannot be allocated, \<open>sculld_init\<close> gives the device numbers back but
  leaves its driver registered with the bus, where it names a module that is not loaded.\<close>

theorem sculld_init_leaks_driver:
  assumes "list_get_region md kn = (Inr v, md1, kn1)" "kmalloc (lm_devs md1 * bytes) (kn_mem kn1) = (None, k)"
    and "\<not> bus_refuse b (bus_next b)"
  shows "\<exists>kn' b'. sculld_init bytes md kn b = (Inl ENOMEM, md1, kn', b') \<and>
    kn_regions kn' = remove1 (MKDEV (lm_major md1) 0, lm_devs md1) (kn_regions kn1) \<and>
    bus_drivers b' = ''sculld'' # bus_drivers b"
  using assms
  by (simp add: sculld_init_def list_init_devs_def register_ldd_driver_def bus_request_def unregister_chrdev_region_def Let_def)

text \<open>Loading lddbus fails without taking its bus back when the root device cannot be registered: the kernel keeps the bus type of a
  module that is not loaded, and every later loading fails.\<close>

theorem ldd_bus_init_leaks:
  assumes "\<not> bus_registered b" "\<not> bus_refuse b (bus_next b)" "bus_refuse b (bus_next b + 2)"
  shows "\<exists>b'. ldd_bus_init b = (Inl EINVAL, b') \<and> bus_registered b' \<and>
    (\<exists>b''. ldd_bus_init b' = (Inl EINVAL, b'') \<and> bus_registered b'')"
  using assms by (simp add: ldd_bus_init_def bus_request_def Let_def)

text \<open>A driver whose version file cannot be made is registered although its registration fails.\<close>

theorem register_ldd_driver_half:
  assumes "\<not> bus_refuse b (bus_next b)" "bus_refuse b (Suc (bus_next b))"
  shows "\<exists>b'. register_ldd_driver name b = (Inl ENOMEM, b') \<and> bus_drivers b' = name # bus_drivers b"
  using assms by (simp add: register_ldd_driver_def bus_request_def Let_def)

text \<open>Every device of sculld belongs to its driver.\<close>

theorem sculld_devices_match: "ldd_match (sculld_devname i) ''sculld''"
  by (simp add: ldd_match_def sculld_devname_def)

section \<open>Witnesses\<close>

definition list_boot :: list_module where
  "list_boot = \<lparr>lm_globals = \<lparr>lg_unit = 4000, lg_qset = 500\<rparr>, lm_major = 0, lm_devs = 4, lm_devices = None,
     lm_cache = None, lm_proc = Some ''scullcmem''\<rparr>"

theorem list_init_accounts_witness:
  "\<exists>r md' kn'. scullc_init 200 100 list_boot quiet_kern = Done (r, md', kn') \<and>
    (case r of Inr _ \<Rightarrow> list_holds quiet_kern md' kn' | Inl _ \<Rightarrow> same_kernel quiet_kern kn')"
  using list_init_accounts [of list_boot quiet_kern 200 100 undefined] quiet_boot
  by (auto simp: list_boot_def)

definition loaded_scullc :: "list_module \<times> kern" where
  "loaded_scullc =
     (case scullc_init 200 100 list_boot quiet_kern of
        Done (_, md, kn) \<Rightarrow> (md, kn) | _ \<Rightarrow> (list_boot, quiet_kern))"

lemma loaded_scullc_holds: "list_holds quiet_kern (fst loaded_scullc) (snd loaded_scullc)"
proof -
  obtain r md kn where i: "scullc_init 200 100 list_boot quiet_kern = Done (r, md, kn)"
      "case r of Inr _ \<Rightarrow> list_holds quiet_kern md kn | Inl _ \<Rightarrow> same_kernel quiet_kern kn"
    using scullc_init_result [of list_boot quiet_kern 200 100] quiet_boot by (auto simp: list_boot_def)
  have "case scullc_init 200 100 list_boot quiet_kern of Done (Inr _, _, _) \<Rightarrow> True | _ \<Rightarrow> False"
    by code_simp
  with i show ?thesis by (auto simp: loaded_scullc_def split: sum.splits)
qed

theorem list_cleanup_restores_witness:
  "\<exists>kn. scullc_cleanup (fst loaded_scullc) (snd loaded_scullc) = Done kn \<and> same_kernel quiet_kern kn"
  using list_cleanup_restores [OF loaded_scullc_holds quiet_boot(2)] by blast

definition empty_bus :: ldd_bus where
  "empty_bus = \<lparr>bus_registered = True, bus_version_file = True, bus_ldd0 = True, bus_drivers = [], bus_devices = [],
     bus_driver_files = [], bus_next = 0, bus_refuse = (\<lambda>_. False)\<rparr>"

theorem sculld_init_leaks_driver_witness:
  "\<exists>kn' b'. sculld_init 200 list_boot (quiet_kern\<lparr>kn_mem := fresh_kmem\<lparr>km_fail := (\<lambda>_. True)\<rparr>\<rparr>) empty_bus =
      (Inl ENOMEM, list_boot\<lparr>lm_major := 250\<rparr>, kn', b') \<and> bus_drivers b' = [''sculld'']"
proof -
  let ?kn = "quiet_kern\<lparr>kn_mem := fresh_kmem\<lparr>km_fail := (\<lambda>_. True)\<rparr>\<rparr>"
  have g: "list_get_region list_boot ?kn = (Inr 0, list_boot\<lparr>lm_major := 250\<rparr>, snd (snd (list_get_region list_boot ?kn)))"
    "kn_mem (snd (snd (list_get_region list_boot ?kn))) = kn_mem ?kn"
    by (simp_all add: list_get_region_def alloc_chrdev_region_def register_chrdev_region_def list_boot_def quiet_kern_def)
  have m: "kmalloc n (kn_mem (snd (snd (list_get_region list_boot ?kn)))) =
      (None, (kn_mem ?kn)\<lparr>km_next := Suc (km_next (kn_mem ?kn))\<rparr>)" for n
    unfolding g(2) by (simp add: kmalloc_def)
  have "\<not> bus_refuse empty_bus (bus_next empty_bus)" "bus_drivers empty_bus = []" by (simp_all add: empty_bus_def)
  then show ?thesis
    using sculld_init_leaks_driver [OF g(1) m, where b = empty_bus and bytes = 200] by auto
qed

end
