(* ===== verification/Block_Allocator.thy ===== *)
theory Block_Allocator
  imports Kernel_Prelude
begin

text \<open>
  What a client of a block allocator relies on, for the two allocators of Other/MemoryAllocator and
  Other/MemoryAllocator_bitmap. A block is what was asked for and the offset of the answer in the
  allocator's storage. A run of an allocator is any sequence of requests and of releases of blocks
  that are live; \<open>askable\<close> are the requests the allocator serves.
\<close>

inductive alloc_run ::
    "('r \<Rightarrow> bool) \<Rightarrow> ('r \<Rightarrow> 's \<Rightarrow> (int option \<times> 's) outcome) \<Rightarrow> ('r \<Rightarrow> int \<Rightarrow> 's \<Rightarrow> 's outcome) \<Rightarrow> 's \<Rightarrow>
     's \<Rightarrow> ('r \<times> int) set \<Rightarrow> bool"
  for askable get put start where
    Run_start: "alloc_run askable get put start start {}"
  | Run_get: "alloc_run askable get put start s live \<Longrightarrow> askable r \<Longrightarrow> get r s = Done (Some p, s') \<Longrightarrow>
      alloc_run askable get put start s' (insert (r, p) live)"
  | Run_full: "alloc_run askable get put start s live \<Longrightarrow> askable r \<Longrightarrow> get r s = Done (None, s') \<Longrightarrow>
      alloc_run askable get put start s' live"
  | Run_put: "alloc_run askable get put start s live \<Longrightarrow> (r, p) \<in> live \<Longrightarrow> put r p s = Done s' \<Longrightarrow>
      alloc_run askable get put start s' (live - {(r, p)})"

inductive_cases alloc_runE: "alloc_run askable get put start s live"

text \<open>\<open>extent\<close> is the range of bytes of a block, \<open>inv\<close> relates a state to the live blocks.\<close>

locale block_allocator =
  fixes get :: "'r \<Rightarrow> 's \<Rightarrow> (int option \<times> 's) outcome"
    and put :: "'r \<Rightarrow> int \<Rightarrow> 's \<Rightarrow> 's outcome"
    and start :: 's
    and askable :: "'r \<Rightarrow> bool"
    and extent :: "'r \<Rightarrow> int \<Rightarrow> int set"
    and inv :: "'s \<Rightarrow> ('r \<times> int) set \<Rightarrow> bool"
  assumes start_law: "inv start {}"
    and get_law: "\<lbrakk>inv s live; askable r\<rbrakk> \<Longrightarrow> (\<exists>p s'. get r s = Done (Some p, s') \<and> (r, p) \<notin> live \<and>
        inv s' (insert (r, p) live)) \<or> get r s = Done (None, s)"
    and put_law: "\<lbrakk>inv s live; (r, p) \<in> live\<rbrakk> \<Longrightarrow> \<exists>s'. put r p s = Done s' \<and> inv s' (live - {(r, p)})"
    and apart_law: "\<lbrakk>inv s live; (r, p) \<in> live; (r', p') \<in> live; (r, p) \<noteq> (r', p')\<rbrakk> \<Longrightarrow>
        extent r p \<inter> extent r' p' = {}"
begin

lemma run_inv: "alloc_run askable get put start s live \<Longrightarrow> inv s live"
proof (induction rule: alloc_run.induct)
  case Run_start
  then show ?case by (rule start_law)
next
  case (Run_get s live r p s')
  then show ?case using get_law [of s live r] by fastforce
next
  case (Run_full s live r s')
  then show ?case using get_law [of s live r] by fastforce
next
  case (Run_put s live r p s')
  then show ?case using put_law [of s live r p] by fastforce
qed

lemma run_apart:
  "\<lbrakk>alloc_run askable get put start s live; (r, p) \<in> live; (r', p') \<in> live; (r, p) \<noteq> (r', p')\<rbrakk> \<Longrightarrow>
    extent r p \<inter> extent r' p' = {}"
  by (rule apart_law [OF run_inv])

lemma run_no_crash:
  "alloc_run askable get put start s live \<Longrightarrow> askable r \<Longrightarrow> \<exists>a s'. get r s = Done (a, s')"
  "alloc_run askable get put start s live \<Longrightarrow> (r, p) \<in> live \<Longrightarrow> \<exists>s'. put r p s = Done s'"
  using get_law put_law run_inv by blast+

end

text \<open>The bytes of a block of \<open>n\<close> bytes.\<close>

definition byte_range :: "nat \<Rightarrow> int \<Rightarrow> int set" where
  "byte_range n p = {p..<p + int n}"

end
