(* ===== verification/Slice_Buffer.thy ===== *)
theory Slice_Buffer
  imports Block_Allocator
begin

text \<open>
  The bitmap allocator of Other/MemoryAllocator_bitmap (MemoryRingBuffer2.hpp, bitop.hpp): a block
  of memory cut into \<open>FIXED_SLICE_CNT\<close> slices of \<open>SLICE_SIZE\<close> bytes, of which \<open>acquire\<close> hands out
  runs and \<open>release\<close> takes them back. The bitmap operations work on whole words; they are shown to
  be those on the set of taken slices.
\<close>

unbundle bit_operations_syntax

section \<open>Bit operations\<close>

text \<open>\<open>tzcnt\<close> counts the zero bits below the lowest one, \<open>ffzll\<close> is the number of the lowest zero bit
  counted from 1, or 0 when there is none.\<close>

definition tzcnt :: "64 word \<Rightarrow> nat" where
  "tzcnt w = length (takeWhile (\<lambda>i. \<not> bit w i) [0..<64])"

definition ffsll :: "64 word \<Rightarrow> nat" where
  "ffsll w = (if w = 0 then 0 else Suc (tzcnt w))"

definition ffzll :: "64 word \<Rightarrow> nat" where
  "ffzll w = ffsll (NOT w)"

definition clear_bit_of :: "nat \<Rightarrow> 64 word \<Rightarrow> 64 word" where
  "clear_bit_of nr w = w AND NOT (push_bit nr 1)"

definition set_bit_of :: "nat \<Rightarrow> 64 word \<Rightarrow> 64 word" where
  "set_bit_of nr w = w OR push_bit nr 1"

definition BitSetCount :: "64 word \<Rightarrow> nat" where
  "BitSetCount w = length (filter (bit w) [0..<64])"

section \<open>The allocator\<close>

text \<open>The bitmap has \<open>BITMAP_CNT\<close> words; an access outside of it is a crash. A slice is taken when its
  bit is 1.\<close>

type_synonym bitmap = "64 word list"

definition BITS_PER_LONG :: int where "BITS_PER_LONG = 64"

definition new_bitmap :: "nat \<Rightarrow> bitmap" where
  "new_bitmap slice_cnt = replicate (slice_cnt div 64) 0"

definition word_at :: "bitmap \<Rightarrow> int \<Rightarrow> 64 word outcome" where
  "word_at bm i = (if 0 \<le> i \<and> i < int (length bm) then Done (bm ! nat i) else Crash Out_of_bounds)"

definition change_word :: "int \<Rightarrow> (64 word \<Rightarrow> 64 word) \<Rightarrow> bitmap \<Rightarrow> bitmap outcome" where
  "change_word i f bm = and_then (word_at bm i) (\<lambda>w. Done (bm[nat i := f w]))"

fun for_each :: "('i \<Rightarrow> 's \<Rightarrow> 's outcome) \<Rightarrow> 'i list \<Rightarrow> 's \<Rightarrow> 's outcome" where
  "for_each f [] s = Done s"
| "for_each f (i # is) s = and_then (f i s) (for_each f is)"

datatype bitop = SET | CLEAR

fun bit_change :: "bitop \<Rightarrow> nat \<Rightarrow> 64 word \<Rightarrow> 64 word" where
  "bit_change SET = set_bit_of"
| "bit_change CLEAR = clear_bit_of"

fun word_change :: "bitop \<Rightarrow> 64 word \<Rightarrow> 64 word" where
  "word_change SET _ = - 1"
| "word_change CLEAR _ = 0"

text \<open>The bits \<open>NR\<close> up to \<open>NR + bits\<close>: those of the first word, whole words, and those of the last word.
  \<open>NR\<close> and \<open>bits\<close> are \<open>size_t\<close>, \<open>pos\<close> and \<open>bytes\<close> are \<open>int\<close>.\<close>

definition BitmapOP :: "bitop \<Rightarrow> int \<Rightarrow> int \<Rightarrow> bitmap \<Rightarrow> bitmap outcome" where
  "BitmapOP op NR bits bm =
     (let endBit = u64 (NR + bits);
          pos = s32 (NR div BITS_PER_LONG);
          leftEndBit = u64 ((NR div BITS_PER_LONG + 1) * BITS_PER_LONG)
      in and_then
        (for_each (\<lambda>i. change_word pos (bit_change op (nat (i AND 0x3F)))) [NR..min endBit leftEndBit - 1] bm) (\<lambda>bm.
      if endBit \<le> leftEndBit then Done bm
      else
        let pos = s32 (pos + 1); bytes = s32 (u64 (endBit div BITS_PER_LONG - pos)) in
        and_then (for_each (\<lambda>i. change_word i (word_change op)) [pos..pos + bytes - 1] bm) (\<lambda>bm.
        let pos = s32 (pos + bytes); rightOddBits = endBit AND 0x3F in
        for_each (\<lambda>bit. change_word pos (bit_change op (nat bit))) [0..rightOddBits - 1] bm)))"

text \<open>The first free slice, counted from 1; 0 when there is none.\<close>

fun find_from :: "nat \<Rightarrow> bitmap \<Rightarrow> nat" where
  "find_from i [] = 0"
| "find_from i (w # ws) = (if ffzll w \<noteq> 0 then i * 64 + ffzll w else find_from (Suc i) ws)"

definition Find :: "bitmap \<Rightarrow> nat" where
  "Find bm = find_from 0 bm"

text \<open>The first run of \<open>slices\<close> free slices, counted from 1. When the first word starts with so many
  free slices there is nothing to search for.\<close>

fun find_run :: "nat \<Rightarrow> bitmap \<Rightarrow> nat list \<Rightarrow> 64 word \<Rightarrow> nat \<Rightarrow> nat \<Rightarrow> nat outcome" where
  "find_run slices bm [] data maxSoFar currentRet = Done 0"
| "find_run slices bm (b # bs) data maxSoFar currentRet =
     (let shift = b mod 64 in
      and_then (if shift = 0 then word_at bm (int (b div 64)) else Done data) (\<lambda>data.
        if push_bit shift 1 AND data \<noteq> 0 then find_run slices bm bs data maxSoFar 0
        else
          let currentRet = currentRet + 1; maxSoFar = max currentRet maxSoFar in
          if maxSoFar = slices then Done (b + 1 - slices + 1)
          else find_run slices bm bs data maxSoFar currentRet))"

definition Find_slices :: "nat \<Rightarrow> nat \<Rightarrow> bitmap \<Rightarrow> nat outcome" where
  "Find_slices slice_cnt slices bm =
     and_then (word_at bm 0) (\<lambda>w.
       if tzcnt w < slices then find_run slices bm [0..<slice_cnt] 0 0 0 else Done 1)"

definition Round2SliceSIZE :: "nat \<Rightarrow> nat \<Rightarrow> nat" where
  "Round2SliceSIZE slice_size n = (n + slice_size - 1) div slice_size"

text \<open>\<open>acquire<n>\<close>. The result is the offset of the block in the storage.\<close>

definition slice_acquire :: "nat \<Rightarrow> nat \<Rightarrow> nat \<Rightarrow> bitmap \<Rightarrow> (int option \<times> bitmap) outcome" where
  "slice_acquire slice_cnt slice_size n bm =
     (let slices = Round2SliceSIZE slice_size n in
      and_then (if slices = 1 then Done (Find bm) else Find_slices slice_cnt slices bm) (\<lambda>slot.
        if slot \<noteq> 0
        then and_then (BitmapOP SET (int slot - 1) (int slices) bm) (\<lambda>bm.
          Done (Some (int slice_size * int slot), bm))
        else Done (None, bm)))"

text \<open>\<open>release<n>\<close> of the block at an offset.\<close>

definition slice_release :: "nat \<Rightarrow> nat \<Rightarrow> int \<Rightarrow> bitmap \<Rightarrow> bitmap outcome" where
  "slice_release slice_size n ptr bm =
     (let slices = Round2SliceSIZE slice_size n; diff = u64 ptr div int slice_size in
      BitmapOP CLEAR (u64 (diff - 1)) (int slices) bm)"

definition slice_empty :: "bitmap \<Rightarrow> bool" where
  "slice_empty bm = list_all (\<lambda>w. ffzll w = 0) bm"

definition slice_size_of :: "bitmap \<Rightarrow> nat" where
  "slice_size_of bm = sum_list (map (\<lambda>w. BitSetCount (NOT w)) bm)"

definition slice_capacity :: "nat \<Rightarrow> nat" where
  "slice_capacity slice_cnt = slice_cnt"

section \<open>The set of taken slices\<close>

definition taken :: "bitmap \<Rightarrow> nat \<Rightarrow> bool" where
  "taken bm i \<longleftrightarrow> i < 64 * length bm \<and> bit (bm ! (i div 64)) (i mod 64)"

lemma bit_one_at: "n < 64 \<Longrightarrow> m < 64 \<Longrightarrow> bit (push_bit n (1 :: 64 word)) m \<longleftrightarrow> m = n"
  by (auto simp: bit_exp_iff possible_bit_word)

lemma bit_change_iff:
  "n < 64 \<Longrightarrow> m < 64 \<Longrightarrow> bit (set_bit_of n w) m \<longleftrightarrow> m = n \<or> bit w m"
  "n < 64 \<Longrightarrow> m < 64 \<Longrightarrow> bit (clear_bit_of n w) m \<longleftrightarrow> m \<noteq> n \<and> bit w m"
  unfolding set_bit_of_def clear_bit_of_def bit_or_iff bit_and_iff bit_not_iff
  by (auto simp only: bit_one_at possible_bit_word len_bit0 len_num1)

text \<open>What an operation on a set of bits is.\<close>

definition changed :: "bitop \<Rightarrow> nat set \<Rightarrow> bitmap \<Rightarrow> bitmap \<Rightarrow> bool" where
  "changed op xs bm bm' \<longleftrightarrow> length bm' = length bm \<and>
     (\<forall>i < 64 * length bm. taken bm' i \<longleftrightarrow> (if i \<in> xs then op = SET else taken bm i))"

lemma changed_refl [simp]: "changed op {} bm bm"
  by (simp add: changed_def)

lemma changed_trans: "changed op xs bm bm1 \<Longrightarrow> changed op ys bm1 bm2 \<Longrightarrow> changed op (xs \<union> ys) bm bm2"
  by (simp add: changed_def)

lemma change_word_bit:
  assumes "i < 64 * length bm"
  shows "\<exists>bm'. change_word (int (i div 64)) (bit_change op (i mod 64)) bm = Done bm' \<and> changed op {i} bm bm'"
proof -
  let ?w = "i div 64"
  have w: "?w < length bm" using assms by (simp add: less_mult_imp_div_less mult.commute)
  let ?bm = "bm[?w := bit_change op (i mod 64) (bm ! ?w)]"
  have "taken ?bm j \<longleftrightarrow> (if j = i then op = SET else taken bm j)" if "j < 64 * length bm" for j
  proof (cases "j div 64 = ?w")
    case True
    then have "j = i \<longleftrightarrow> j mod 64 = i mod 64" by (metis div_mult_mod_eq)
    then show ?thesis
      using True w that by (cases op) (auto simp: taken_def bit_change_iff)
  next
    case False
    then show ?thesis using that by (auto simp: taken_def)
  qed
  then show ?thesis using w by (intro exI [of _ ?bm]) (simp add: change_word_def word_at_def changed_def)
qed

lemma change_word_whole:
  assumes "w < length bm"
  shows "\<exists>bm'. change_word (int w) (word_change op) bm = Done bm' \<and> changed op {64 * w..<64 * w + 64} bm bm'"
proof -
  let ?bm = "bm[w := word_change op (bm ! w)]"
  have "taken ?bm j \<longleftrightarrow> (if j \<in> {64 * w..<64 * w + 64} then op = SET else taken bm j)" if "j < 64 * length bm" for j
  proof (cases "j div 64 = w")
    case True
    then have "j \<in> {64 * w..<64 * w + 64}" by auto
    then show ?thesis using True assms that by (cases op) (auto simp: taken_def)
  next
    case False
    then have "j \<notin> {64 * w..<64 * w + 64}" by auto
    then show ?thesis using False that by (auto simp: taken_def)
  qed
  then show ?thesis using assms by (intro exI [of _ ?bm]) (simp add: change_word_def word_at_def changed_def)
qed

text \<open>A loop whose steps change disjoint or overlapping sets of bits.\<close>

lemma for_each_changed:
  assumes "\<And>i bm'. i \<in> set is \<Longrightarrow> length bm' = length bm \<Longrightarrow> \<exists>bm''. f i bm' = Done bm'' \<and> changed op (S i) bm' bm''"
  shows "\<exists>bm'. for_each f is bm = Done bm' \<and> changed op (\<Union> (S ` set is)) bm bm'"
  using assms
proof (induction "is" arbitrary: bm)
  case Nil
  then show ?case by simp
next
  case (Cons i js)
  obtain bm1 where 1: "f i bm = Done bm1" "changed op (S i) bm bm1" using Cons.prems [of i bm] by auto
  then have "length bm1 = length bm" by (simp add: changed_def)
  then obtain bm2 where "for_each f js bm1 = Done bm2" "changed op (\<Union> (S ` set js)) bm1 bm2"
    using Cons.IH [of bm1] Cons.prems by auto
  then show ?case using 1 changed_trans [OF 1(2)] by auto
qed

lemma and_63: "i AND 63 = i mod 64" for i :: int
proof -
  have "i AND 63 = take_bit 6 i" by (simp add: take_bit_eq_mask mask_eq_exp_minus_1)
  then show ?thesis by (simp add: take_bit_eq_mod)
qed

lemma bits_of_one_word:
  assumes "nr \<le> e" "e \<le> 64 * (nr div 64) + 64" "e \<le> 64 * length bm"
  shows "\<exists>bm'. for_each (\<lambda>i. change_word (int (nr div 64)) (bit_change op (nat (i AND 0x3F)))) [int nr..int e - 1] bm =
    Done bm' \<and> changed op {nr..<e} bm bm'"
proof -
  have un: "(\<Union>i\<in>set [int nr..int e - 1]. {nat i}) = {nr..<e}"
  proof
    show "{nr..<e} \<subseteq> (\<Union>i\<in>set [int nr..int e - 1]. {nat i})"
    proof
      fix x
      assume "x \<in> {nr..<e}"
      then have "int x \<in> set [int nr..int e - 1]" "x \<in> {nat (int x)}" by auto
      then show "x \<in> (\<Union>i\<in>set [int nr..int e - 1]. {nat i})" by blast
    qed
  qed auto
  have "\<exists>bm''. change_word (int (nr div 64)) (bit_change op (nat (i AND 0x3F))) bm' = Done bm'' \<and> changed op {nat i} bm' bm''"
    if "i \<in> set [int nr..int e - 1]" "length bm' = length bm" for i bm'
  proof -
    have i: "nr \<le> nat i" "nat i < e" "0 \<le> i" using that(1) by auto
    then have "nat i div 64 = nr div 64" using assms(2) by (intro div_nat_eqI) auto
    moreover have "nat (i AND 0x3F) = nat i mod 64" using i(3) by (simp add: and_63 nat_mod_distrib)
    moreover have "nat i < 64 * length bm'" using i(2) assms(3) that(2) by simp
    ultimately show ?thesis using change_word_bit [of "nat i" bm' op] by simp
  qed
  from for_each_changed [of "[int nr..int e - 1]" bm _ op "\<lambda>i. {nat i}", OF this] un show ?thesis by simp
qed

lemma whole_words:
  assumes "a \<le> b" "b \<le> length bm"
  shows "\<exists>bm'. for_each (\<lambda>i. change_word i (word_change op)) [int a..int b - 1] bm =
    Done bm' \<and> changed op {64 * a..<64 * b} bm bm'"
proof -
  let ?S = "\<lambda>i. {64 * nat i..<64 * nat i + 64}"
  have un: "(\<Union>i\<in>set [int a..int b - 1]. ?S i) = {64 * a..<64 * b}"
  proof
    show "{64 * a..<64 * b} \<subseteq> (\<Union>i\<in>set [int a..int b - 1]. ?S i)"
    proof
      fix x
      assume x: "x \<in> {64 * a..<64 * b}"
      then have "a \<le> x div 64" "x div 64 < b" by auto
      then have "int (x div 64) \<in> set [int a..int b - 1]" by (simp flip: zdiv_int)
      moreover have "x \<in> ?S (int (x div 64))" by simp
      ultimately show "x \<in> (\<Union>i\<in>set [int a..int b - 1]. ?S i)" by blast
    qed
    show "(\<Union>i\<in>set [int a..int b - 1]. ?S i) \<subseteq> {64 * a..<64 * b}" by auto
  qed
  have "\<exists>bm''. change_word i (word_change op) bm' = Done bm'' \<and> changed op (?S i) bm' bm''"
    if "i \<in> set [int a..int b - 1]" "length bm' = length bm" for i bm'
  proof -
    have "nat i < length bm'" "0 \<le> i" using that assms(2) by auto
    then show ?thesis using change_word_whole [of "nat i" bm' op] by simp
  qed
  from for_each_changed [of "[int a..int b - 1]" bm _ op ?S, OF this] un show ?thesis by simp
qed

lemma low_bits:
  assumes "e \<le> 64 * length bm"
  shows "\<exists>bm'. for_each (\<lambda>b. change_word (int (e div 64)) (bit_change op (nat b))) [0..int (e mod 64) - 1] bm =
    Done bm' \<and> changed op {64 * (e div 64)..<e} bm bm'"
proof -
  let ?S = "\<lambda>b. {64 * (e div 64) + nat b}"
  have un: "(\<Union>b\<in>set [0..int (e mod 64) - 1]. ?S b) = {64 * (e div 64)..<e}"
  proof
    show "{64 * (e div 64)..<e} \<subseteq> (\<Union>b\<in>set [0..int (e mod 64) - 1]. ?S b)"
    proof
      fix x
      assume x: "x \<in> {64 * (e div 64)..<e}"
      have "e = 64 * (e div 64) + e mod 64" by simp
      then have "x - 64 * (e div 64) < e mod 64" using x by (simp only: atLeastLessThan_iff) linarith
      then have "int (x - 64 * (e div 64)) \<in> set [0..int (e mod 64) - 1]"
        by (simp del: of_nat_mod of_nat_diff)
      moreover have "x \<in> ?S (int (x - 64 * (e div 64)))"
        using x unfolding nat_int atLeastLessThan_iff singleton_iff by linarith
      ultimately show "x \<in> (\<Union>b\<in>set [0..int (e mod 64) - 1]. ?S b)" by blast
    qed
    show "(\<Union>b\<in>set [0..int (e mod 64) - 1]. ?S b) \<subseteq> {64 * (e div 64)..<e}"
    proof
      fix x
      assume "x \<in> (\<Union>b\<in>set [0..int (e mod 64) - 1]. ?S b)"
      then obtain b where "0 \<le> b" "b \<le> int (e mod 64) - 1" "x = 64 * (e div 64) + nat b" by auto
      moreover have "e = 64 * (e div 64) + e mod 64" by simp
      ultimately show "x \<in> {64 * (e div 64)..<e}" by (simp only: atLeastLessThan_iff) linarith
    qed
  qed
  have "\<exists>bm''. change_word (int (e div 64)) (bit_change op (nat b)) bm' = Done bm'' \<and> changed op (?S b) bm' bm''"
    if "b \<in> set [0..int (e mod 64) - 1]" "length bm' = length bm" for b bm'
  proof -
    let ?i = "64 * (e div 64) + nat b"
    have b: "nat b < e mod 64" using that(1) by auto
    have "e mod 64 < 64" by simp
    then have b64: "nat b < 64" using b by linarith
    have "e = 64 * (e div 64) + e mod 64" by simp
    then have "?i < 64 * length bm'" using b assms that(2) by linarith
    moreover have "?i div 64 = e div 64" "?i mod 64 = nat b" using b64 by auto
    ultimately show ?thesis using change_word_bit [of ?i bm' op] by simp
  qed
  from for_each_changed [of "[0..int (e mod 64) - 1]" bm _ op ?S, OF this] un show ?thesis by simp
qed

lemma BitmapOP_changed:
  assumes "nr + bits \<le> 64 * length bm" "64 * length bm < 2147483648"
  shows "\<exists>bm'. BitmapOP op (int nr) (int bits) bm = Done bm' \<and> changed op {nr..<nr + bits} bm bm'"
proof -
  define e where "e = nr + bits"
  let ?w = "nr div 64"
  have e: "nr \<le> e" "e \<le> 64 * length bm" "e < 2147483648" using assms by (simp_all add: e_def)
  have c: "u64 (int nr + int bits) = int e" "s32 (int nr div 64) = int ?w"
    "u64 ((int nr div 64 + 1) * 64) = 64 * int ?w + 64"
    using e by (simp_all add: e_def u64_id s32_id zdiv_int)
  have m: "min (int e) (64 * int ?w + 64) = int (min e (64 * ?w + 64))" by simp
  obtain bm1 where 1: "for_each (\<lambda>i. change_word (int ?w) (bit_change op (nat (i AND 0x3F))))
      [int nr..int (min e (64 * ?w + 64)) - 1] bm = Done bm1" "changed op {nr..<min e (64 * ?w + 64)} bm bm1"
    using bits_of_one_word [of nr "min e (64 * ?w + 64)" bm op] e by fastforce
  show ?thesis
  proof (cases "e \<le> 64 * ?w + 64")
    case True
    then show ?thesis
      using 1(2) unfolding BitmapOP_def BITS_PER_LONG_def Let_def c m 1(1) and_then.simps
      by (intro exI [of _ bm1]) (simp flip: e_def)
  next
    case False
    have len: "length bm1 = length bm" using 1(2) by (simp add: changed_def)
    have d: "Suc ?w \<le> e div 64" "e div 64 \<le> length bm1" using False e len by auto
    obtain bm2 where 2: "for_each (\<lambda>i. change_word i (word_change op)) [int (Suc ?w)..int (e div 64) - 1] bm1 = Done bm2"
        "changed op {64 * Suc ?w..<64 * (e div 64)} bm1 bm2"
      using whole_words [OF d] by blast
    have "e \<le> 64 * length bm2" using 2(2) e len by (simp add: changed_def)
    from low_bits [OF this] obtain bm3 where
      3: "for_each (\<lambda>b. change_word (int (e div 64)) (bit_change op (nat b))) [0..int (e mod 64) - 1] bm2 = Done bm3"
        "changed op {64 * (e div 64)..<e} bm2 bm3" by blast
    have p: "s32 (int ?w + 1) = int (Suc ?w)" using e(1,3) by (simp add: s32_id)
    have b: "s32 (u64 (int e div 64 - int (Suc ?w))) = int (e div 64) - int (Suc ?w)"
    proof -
      have "int e div 64 = int (e div 64)" "e div 64 \<le> e" by (simp_all add: zdiv_int)
      then show ?thesis using d(1) e(3) by (simp only: u64_id s32_id)
    qed
    have q: "s32 (int (Suc ?w) + (int (e div 64) - int (Suc ?w))) = int (e div 64)" using e(3) by (simp add: s32_id)
    have r: "int e AND 0x3F = int (e mod 64)" by (simp add: and_63 zmod_int)
    have "BitmapOP op (int nr) (int bits) bm = Done bm3"
      unfolding BitmapOP_def BITS_PER_LONG_def Let_def c m 1(1) and_then.simps
      using False 2(1) 3(1) unfolding p b q r by simp
    moreover have "{nr..<min e (64 * ?w + 64)} \<union> ({64 * Suc ?w..<64 * (e div 64)} \<union> {64 * (e div 64)..<e}) = {nr..<e}"
      using False d(1) by auto
    then have "changed op {nr..<e} bm bm3"
      using changed_trans [OF 1(2) changed_trans [OF 2(2) 3(2)]] by simp
    ultimately show ?thesis unfolding e_def by blast
  qed
qed

section \<open>First fit\<close>

text \<open>The reference: the first position from which on \<open>s\<close> slices are free, counted from 1.\<close>

definition free_run :: "bitmap \<Rightarrow> nat \<Rightarrow> nat \<Rightarrow> bool" where
  "free_run bm i s \<longleftrightarrow> list_all (\<lambda>j. \<not> taken bm (i + j)) [0..<s]"

definition first_fit :: "bitmap \<Rightarrow> nat \<Rightarrow> nat" where
  "first_fit bm s =
     (case find (\<lambda>i. i + s \<le> 64 * length bm \<and> free_run bm i s) [0..<Suc (64 * length bm)] of
        None \<Rightarrow> 0 | Some i \<Rightarrow> Suc i)"

lemma free_run_iff: "free_run bm i s \<longleftrightarrow> (\<forall>j. i \<le> j \<longrightarrow> j < i + s \<longrightarrow> \<not> taken bm j)"
proof
  assume f: "free_run bm i s"
  show "\<forall>j. i \<le> j \<longrightarrow> j < i + s \<longrightarrow> \<not> taken bm j"
  proof (intro allI impI)
    fix j
    assume "i \<le> j" "j < i + s"
    then have "j - i < s" by auto
    have "\<forall>k\<in>set [0..<s]. \<not> taken bm (i + k)" using f by (simp only: free_run_def list_all_iff)
    then have "\<not> taken bm (i + (j - i))" by (rule bspec) (use \<open>j - i < s\<close> in simp)
    then show "\<not> taken bm j" using \<open>i \<le> j\<close> by simp
  qed
qed (simp add: free_run_def list_all_iff)

lemma find_append: "find P (xs @ ys) = (case find P xs of None \<Rightarrow> find P ys | Some x \<Rightarrow> Some x)"
  by (induction xs) auto

lemma first_fit_cases:
  obtains (full) "first_fit bm s = 0" "\<And>i. i + s \<le> 64 * length bm \<Longrightarrow> \<not> free_run bm i s"
    | (fit) i where "first_fit bm s = Suc i" "i + s \<le> 64 * length bm" "free_run bm i s"
        "\<And>j. j < i \<Longrightarrow> \<not> free_run bm j s"
proof (cases "find (\<lambda>i. i + s \<le> 64 * length bm \<and> free_run bm i s) [0..<Suc (64 * length bm)]")
  case None
  then have "first_fit bm s = 0" by (simp add: first_fit_def del: upt_Suc)
  then show ?thesis using None by (intro full) (auto simp: find_None_iff)
next
  case (Some i)
  then have f: "first_fit bm s = Suc i" by (simp add: first_fit_def)
  have "\<exists>k < length [0..<Suc (64 * length bm)].
      ([0..<Suc (64 * length bm)] ! k + s \<le> 64 * length bm \<and> free_run bm ([0..<Suc (64 * length bm)] ! k) s) \<and>
      i = [0..<Suc (64 * length bm)] ! k \<and>
      (\<forall>j<k. \<not> ([0..<Suc (64 * length bm)] ! j + s \<le> 64 * length bm \<and> free_run bm ([0..<Suc (64 * length bm)] ! j) s))"
    using Some unfolding find_Some_iff by blast
  then have "i + s \<le> 64 * length bm \<and> free_run bm i s \<and> (\<forall>j<i. \<not> (j + s \<le> 64 * length bm \<and> free_run bm j s))"
    by (auto simp del: upt_Suc)
  then show ?thesis using f by (intro fit [of i]) auto
qed

lemma first_fit_none: "(\<And>i. i + s \<le> 64 * length bm \<Longrightarrow> \<not> free_run bm i s) \<Longrightarrow> first_fit bm s = 0"
  by (cases bm s rule: first_fit_cases) auto

lemma first_fit_some:
  assumes "i + s \<le> 64 * length bm" "free_run bm i s" "\<And>j. j < i \<Longrightarrow> \<not> free_run bm j s"
  shows "first_fit bm s = Suc i"
  using assms by (cases bm s rule: first_fit_cases) (metis linorder_neqE_nat)+

lemma tzcnt_bits:
  "tzcnt w \<le> 64" "j < tzcnt w \<Longrightarrow> \<not> bit w j" "tzcnt w < 64 \<Longrightarrow> bit w (tzcnt w)"
proof -
  let ?t = "takeWhile (\<lambda>i. \<not> bit w i) [0..<64]"
  show l: "tzcnt w \<le> 64" using length_takeWhile_le [of _ "[0..<64 :: nat]"] by (simp add: tzcnt_def)
  show "\<not> bit w j" if "j < tzcnt w"
  proof -
    have "?t ! j = j" using that l by (simp add: tzcnt_def takeWhile_nth)
    then show ?thesis using that nth_mem [of j ?t] by (auto simp: tzcnt_def dest: set_takeWhileD)
  qed
  show "bit w (tzcnt w)" if "tzcnt w < 64"
    using that nth_length_takeWhile [of "\<lambda>i. \<not> bit w i" "[0..<64]"] by (simp add: tzcnt_def)
qed

lemma bit_nonzero: "w \<noteq> 0 \<longleftrightarrow> (\<exists>i<64. bit w i)" for w :: "64 word"
proof
  assume "w \<noteq> 0"
  then obtain i where "possible_bit TYPE(64 word) i" "bit w i" using bit_eq_iff [of w 0] by auto
  then show "\<exists>i<64. bit w i" by (auto simp: possible_bit_word)
qed auto

lemma ffzll_0: "ffzll w = 0 \<longleftrightarrow> (\<forall>i<64. bit w i)"
proof -
  have "ffzll w = 0 \<longleftrightarrow> NOT w = 0" by (simp add: ffzll_def ffsll_def)
  also have "\<dots> \<longleftrightarrow> (\<forall>i<64. bit w i)"
    using bit_nonzero [of "NOT w"] by (auto simp: bit_not_iff possible_bit_word)
  finally show ?thesis .
qed

lemma ffzll_Suc:
  assumes "ffzll w = Suc i"
  shows "i < 64" "\<not> bit w i" "\<And>j. j < i \<Longrightarrow> bit w j"
proof -
  have nz: "NOT w \<noteq> 0" and i: "i = tzcnt (NOT w)" using assms by (auto simp: ffzll_def ffsll_def split: if_splits)
  obtain k where "k < 64" "bit (NOT w) k" using nz bit_nonzero by blast
  then have "tzcnt (NOT w) < 64" using tzcnt_bits(1) [of "NOT w"] tzcnt_bits(2) [of k "NOT w"] by (metis le_less_linear less_le_trans linorder_neqE_nat)
  then show "i < 64" by (simp add: i)
  show "\<not> bit w i" using tzcnt_bits(3) [of "NOT w"] \<open>tzcnt (NOT w) < 64\<close> i by (auto simp: bit_not_iff possible_bit_word)
  show "bit w j" if "j < i" for j
    using tzcnt_bits(2) [of j "NOT w"] that \<open>i < 64\<close> i by (auto simp: bit_not_iff possible_bit_word)
qed

lemma find_from_first:
  "find_from i (drop i bm) = (case find (\<lambda>j. \<not> taken bm j) [64 * i..<64 * length bm] of None \<Rightarrow> 0 | Some j \<Rightarrow> Suc j)"
proof (induction "length bm - i" arbitrary: i)
  case 0
  then show ?case by simp
next
  case (Suc n)
  then have i: "i < length bm" by simp
  have split: "[64 * i..<64 * length bm] = [64 * i..<64 * Suc i] @ [64 * Suc i..<64 * length bm]"
    using i upt_add_eq_append [of "64 * i" "64 * Suc i" "64 * length bm - 64 * Suc i"] by simp
  have bits: "taken bm (64 * i + j) \<longleftrightarrow> bit (bm ! i) j" if "j < 64" for j
    using that i by (simp add: taken_def)
  have IH: "find_from (Suc i) (drop (Suc i) bm) =
      (case find (\<lambda>j. \<not> taken bm j) [64 * Suc i..<64 * length bm] of None \<Rightarrow> 0 | Some j \<Rightarrow> Suc j)"
    using Suc by (intro Suc.hyps) auto
  show ?case
  proof (cases "ffzll (bm ! i)")
    case 0
    then have "find (\<lambda>j. \<not> taken bm j) [64 * i..<64 * Suc i] = None"
    proof (unfold find_None_iff, intro notI, elim exE conjE)
      fix x
      assume x: "x \<in> set [64 * i..<64 * Suc i]" "\<not> taken bm x"
      then have "taken bm (64 * i + (x - 64 * i)) \<longleftrightarrow> bit (bm ! i) (x - 64 * i)" by (intro bits) auto
      then show False using x 0 ffzll_0 [of "bm ! i"] by auto
    qed
    then show ?thesis using 0 IH i by (simp add: Cons_nth_drop_Suc [symmetric] split find_append del: upt_Suc)
  next
    case (Suc k)
    note k = ffzll_Suc [OF Suc]
    have "find (\<lambda>j. \<not> taken bm j) [64 * i..<64 * length bm] = Some (64 * i + k)"
      unfolding find_Some_iff
      using k bits i by (intro exI [of _ k]) (auto simp: less_trans)
    then show ?thesis using Suc i by (simp add: Cons_nth_drop_Suc [symmetric])
  qed
qed

lemma Find_first_fit: "Find bm = first_fit bm 1"
proof -
  have F: "Find bm = (case find (\<lambda>j. \<not> taken bm j) [0..<64 * length bm] of None \<Rightarrow> 0 | Some j \<Rightarrow> Suc j)"
    using find_from_first [of 0 bm] by (simp add: Find_def)
  show ?thesis
  proof (cases "find (\<lambda>j. \<not> taken bm j) [0..<64 * length bm]")
    case None
    then have "Find bm = 0" using F by simp
    moreover have "first_fit bm 1 = 0"
      by (rule first_fit_none) (use None in \<open>auto simp: find_None_iff free_run_iff\<close>)
    ultimately show ?thesis by simp
  next
    case (Some i)
    then have i: "i < 64 * length bm" "\<not> taken bm i" "\<And>j. j < i \<Longrightarrow> taken bm j"
      by (auto simp: find_Some_iff)
    have "first_fit bm 1 = Suc i"
      by (rule first_fit_some) (use i in \<open>auto simp: free_run_iff less_Suc_eq_le dest: antisym\<close>)
    then show ?thesis using F Some by simp
  qed
qed

lemma bit_test: "n < 64 \<Longrightarrow> push_bit n 1 AND w \<noteq> 0 \<longleftrightarrow> bit w n" for w :: "64 word"
  unfolding bit_nonzero bit_and_iff by (metis bit_one_at)

text \<open>Where the search stands at slice \<open>b\<close>: the last \<open>cur\<close> slices are free and the one before them is not,
  and no run of \<open>s\<close> free slices has ended yet.\<close>

definition searching :: "bitmap \<Rightarrow> nat \<Rightarrow> nat \<Rightarrow> 64 word \<Rightarrow> nat \<Rightarrow> nat \<Rightarrow> bool" where
  "searching bm s b data mx cur \<longleftrightarrow>
     cur \<le> b \<and> cur \<le> mx \<and> mx < s \<and> (b mod 64 \<noteq> 0 \<longrightarrow> data = bm ! (b div 64)) \<and>
     (\<forall>j. b - cur \<le> j \<longrightarrow> j < b \<longrightarrow> \<not> taken bm j) \<and> (cur < b \<longrightarrow> taken bm (b - 1 - cur)) \<and>
     (\<forall>i. i + s \<le> b \<longrightarrow> \<not> free_run bm i s)"

lemma searching_taken:
  assumes "searching bm s b data mx cur" "taken bm b" "i + s \<le> Suc b"
  shows "\<not> free_run bm i s"
proof (cases "i + s \<le> b")
  case True
  then show ?thesis using assms(1) by (simp add: searching_def)
next
  case False
  then have "i \<le> b" "b < i + s" using assms(1,3) by (auto simp: searching_def)
  then show ?thesis using assms(2) by (auto simp: free_run_iff)
qed

lemma searching_free:
  assumes "searching bm s b data mx cur" "\<not> taken bm b" "Suc cur < s" "i + s \<le> Suc b"
  shows "\<not> free_run bm i s"
proof (cases "i + s \<le> b")
  case True
  then show ?thesis using assms(1) by (simp add: searching_def)
next
  case False
  then have i: "i + s = Suc b" using assms(4) by simp
  then have "cur < b" using assms(3) by simp
  then have "taken bm (b - 1 - cur)" using assms(1) by (simp add: searching_def)
  moreover have "i \<le> b - 1 - cur" "b - 1 - cur < i + s" using i assms(3) by auto
  ultimately show ?thesis by (auto simp: free_run_iff)
qed

lemma next_div: "(Suc b) mod 64 \<noteq> 0 \<Longrightarrow> Suc b div 64 = b div 64" for b :: nat
  by (simp add: div_Suc mod_Suc split: if_splits)

lemma find_run_first_fit:
  assumes "searching bm s b data mx cur" "b \<le> 64 * length bm"
  shows "find_run s bm [b..<64 * length bm] data mx cur = Done (first_fit bm s)"
  using assms
proof (induction "64 * length bm - b" arbitrary: b data mx cur)
  case 0
  then have "first_fit bm s = 0" by (intro first_fit_none) (auto simp: searching_def)
  then show ?case using 0 by simp
next
  case (Suc n)
  note inv = Suc.prems(1)
  have b: "b < 64 * length bm" using Suc.hyps(2) by simp
  let ?d = "bm ! (b div 64)"
  have data: "(if b mod 64 = 0 then word_at bm (int (b div 64)) else Done data) = Done ?d"
    using inv b by (auto simp: searching_def word_at_def less_mult_imp_div_less mult.commute simp flip: zdiv_int)
  have bit: "push_bit (b mod 64) 1 AND ?d \<noteq> 0 \<longleftrightarrow> taken bm b"
    using b by (simp add: bit_test taken_def del: push_bit_eq_mult push_bit_of_1)
  have upt: "[b..<64 * length bm] = b # [Suc b..<64 * length bm]" using b by (rule upt_conv_Cons)
  show ?case
  proof (cases "taken bm b")
    case True
    have "searching bm s (Suc b) ?d mx 0"
      using inv True searching_taken [OF inv True] by (auto simp: searching_def next_div)
    from Suc.hyps(1) [OF _ this] Suc.hyps(2) b show ?thesis
      unfolding upt find_run.simps Let_def data and_then.simps using bit True by simp
  next
    case False
    show ?thesis
    proof (cases "Suc cur = s")
      case True
      have "first_fit bm s = Suc (b + 1 - s)"
      proof (rule first_fit_some)
        show "b + 1 - s + s \<le> 64 * length bm" "free_run bm (b + 1 - s) s"
          using inv b False True by (auto simp: searching_def free_run_iff less_Suc_eq)
        show "\<not> free_run bm j s" if "j < b + 1 - s" for j
          using inv that by (auto simp: searching_def)
      qed
      moreover have "max (cur + 1) mx = s" using inv True by (auto simp: searching_def)
      ultimately show ?thesis
        unfolding upt find_run.simps Let_def data and_then.simps using bit False by simp
    next
      case ne: False
      have mx: "max (cur + 1) mx \<noteq> s" "max (cur + 1) mx < s" "Suc cur < s"
        using inv ne by (auto simp: searching_def)
      have "searching bm s (Suc b) ?d (max (cur + 1) mx) (cur + 1)"
        using inv False mx searching_free [OF inv False mx(3)]
        by (auto simp: searching_def next_div less_Suc_eq)
      from Suc.hyps(1) [OF _ this] Suc.hyps(2) b show ?thesis
        unfolding upt find_run.simps Let_def data and_then.simps using bit False mx(1) by simp
    qed
  qed
qed

lemma Find_slices_first_fit:
  assumes "0 < s" "bm \<noteq> []"
  shows "Find_slices (64 * length bm) s bm = Done (first_fit bm s)"
proof (cases "tzcnt (bm ! 0) < s")
  case True
  have "searching bm s 0 0 0 0" using assms(1) by (auto simp: searching_def free_run_iff)
  from find_run_first_fit [OF this] show ?thesis
    using True assms(2) by (simp add: Find_slices_def word_at_def)
next
  case False
  have l: "s \<le> 64" using False tzcnt_bits(1) [of "bm ! 0"] by simp
  have "first_fit bm s = Suc 0"
  proof (rule first_fit_some)
    show "0 + s \<le> 64 * length bm" using l assms(2) by (cases bm) auto
    show "free_run bm 0 s"
      using False l tzcnt_bits(2) [of _ "bm ! 0"] by (auto simp: free_run_iff taken_def)
  qed simp
  then show ?thesis using False assms(2) by (simp add: Find_slices_def word_at_def)
qed

section \<open>Blocks\<close>

text \<open>The slices of a block: its offset is that of the slice after the first one it takes.\<close>

definition block_run :: "nat \<Rightarrow> nat \<Rightarrow> int \<Rightarrow> nat set" where
  "block_run S n p = {nat (p div int S) - 1..<nat (p div int S) - 1 + Round2SliceSIZE S n}"

definition slice_inv :: "nat \<Rightarrow> nat \<Rightarrow> bitmap \<Rightarrow> (nat \<times> int) set \<Rightarrow> bool" where
  "slice_inv S w bm live \<longleftrightarrow> length bm = w \<and>
     (\<forall>b\<in>live. 0 < fst b \<and> (\<exists>slot>0. snd b = int S * int slot) \<and> block_run S (fst b) (snd b) \<subseteq> {..<64 * w}) \<and>
     (\<forall>b\<in>live. \<forall>c\<in>live. b \<noteq> c \<longrightarrow> block_run S (fst b) (snd b) \<inter> block_run S (fst c) (snd c) = {}) \<and>
     (\<forall>i<64 * w. taken bm i \<longleftrightarrow> (\<exists>b\<in>live. i \<in> block_run S (fst b) (snd b)))"

lemma slice_invD:
  assumes "slice_inv S w bm live" "(n, p) \<in> live"
  obtains slot where "0 < n" "0 < slot" "p = int S * int slot" "block_run S n p \<subseteq> {..<64 * w}"
proof -
  have "\<forall>b\<in>live. 0 < fst b \<and> (\<exists>slot>0. snd b = int S * int slot) \<and> block_run S (fst b) (snd b) \<subseteq> {..<64 * w}"
    using assms(1) by (simp add: slice_inv_def)
  from bspec [OF this assms(2)] show ?thesis using that by auto
qed

lemma slice_inv_runs:
  assumes "slice_inv S w bm live" "(n, p) \<in> live" "(n', p') \<in> live" "(n, p) \<noteq> (n', p')"
  shows "block_run S n p \<inter> block_run S n' p' = {}"
proof -
  have "\<forall>b\<in>live. \<forall>c\<in>live. b \<noteq> c \<longrightarrow> block_run S (fst b) (snd b) \<inter> block_run S (fst c) (snd c) = {}"
    using assms(1) by (simp add: slice_inv_def)
  from bspec [OF bspec [OF this assms(2)] assms(3)] assms(4) show ?thesis by simp
qed

lemma slice_inv_taken:
  "slice_inv S w bm live \<Longrightarrow> i < 64 * w \<Longrightarrow> taken bm i \<longleftrightarrow> (\<exists>b\<in>live. i \<in> block_run S (fst b) (snd b))"
  by (simp add: slice_inv_def)

lemma round_pos: "0 < S \<Longrightarrow> 0 < n \<Longrightarrow> 0 < Round2SliceSIZE S n"
  by (simp add: Round2SliceSIZE_def div_greater_zero_iff)

lemma round_covers: "0 < S \<Longrightarrow> n \<le> S * Round2SliceSIZE S n"
proof -
  assume S: "0 < S"
  have "n + S - 1 = S * ((n + S - 1) div S) + (n + S - 1) mod S" by simp
  moreover have "(n + S - 1) mod S < S" using S by simp
  ultimately show ?thesis unfolding Round2SliceSIZE_def by linarith
qed

lemma block_run_slot [simp]:
  "0 < S \<Longrightarrow> block_run S n (int S * int slot) = {slot - 1..<slot - 1 + Round2SliceSIZE S n}"
  by (simp add: block_run_def)

text \<open>The template arguments: the memory and the bitmap are addressed with \<open>size_t\<close> and \<open>int\<close>.\<close>

definition slice_config :: "nat \<Rightarrow> nat \<Rightarrow> bool" where
  "slice_config S w \<longleftrightarrow> 0 < S \<and> 0 < w \<and> 64 * w < 2147483648 \<and> S \<le> 2147483648"

lemma slice_acquire_cases:
  assumes "slice_config S (length bm)" "0 < n"
  obtains (full) "first_fit bm (Round2SliceSIZE S n) = 0" "slice_acquire (64 * length bm) S n bm = Done (None, bm)"
    | (fit) i bm' where "first_fit bm (Round2SliceSIZE S n) = Suc i"
        "slice_acquire (64 * length bm) S n bm = Done (Some (int S * int (Suc i)), bm')"
        "changed SET {i..<i + Round2SliceSIZE S n} bm bm'" "i + Round2SliceSIZE S n \<le> 64 * length bm"
        "\<And>j. i \<le> j \<Longrightarrow> j < i + Round2SliceSIZE S n \<Longrightarrow> \<not> taken bm j"
proof -
  let ?s = "Round2SliceSIZE S n"
  have s: "0 < ?s" using assms by (simp add: slice_config_def round_pos)
  have bm: "bm \<noteq> []" using assms(1) by (auto simp: slice_config_def)
  have find: "(if ?s = 1 then Done (Find bm) else Find_slices (64 * length bm) ?s bm) = Done (first_fit bm ?s)"
    using Find_first_fit Find_slices_first_fit [OF s bm] by simp
  show ?thesis
  proof (cases bm ?s rule: first_fit_cases)
    case full
    then show ?thesis using find by (intro that(1)) (simp_all add: slice_acquire_def Let_def)
  next
    case (fit i)
    obtain bm' where b: "BitmapOP SET (int i) (int ?s) bm = Done bm'" "changed SET {i..<i + ?s} bm bm'"
      using BitmapOP_changed [of i ?s bm SET] fit(2) assms(1) by (auto simp: slice_config_def)
    have "slice_acquire (64 * length bm) S n bm = Done (Some (int S * int (Suc i)), bm')"
      unfolding slice_acquire_def Let_def find using fit(1) b(1) by simp
    then show ?thesis using that(2) [OF fit(1) _ b(2) fit(2)] fit(3) by (auto simp: free_run_iff)
  qed
qed

lemma slice_release_result:
  assumes "slice_config S (length bm)" "0 < slot" "slot - 1 + Round2SliceSIZE S n \<le> 64 * length bm"
    "slot \<le> 64 * length bm"
  obtains bm' where "slice_release S n (int S * int slot) bm = Done bm'"
    "changed CLEAR {slot - 1..<slot - 1 + Round2SliceSIZE S n} bm bm'"
proof -
  have S: "0 < S" "S \<le> 2147483648" using assms(1) by (simp_all add: slice_config_def)
  have "slot \<le> 2147483648" using assms(1,4) by (simp add: slice_config_def)
  then have "S * slot \<le> 2147483648 * 2147483648" using S(2) by (intro mult_le_mono)
  then have "int (S * slot) < 18446744073709551616" by linarith
  then have "u64 (int S * int slot) = int S * int slot" by (intro u64_id) auto
  then have "u64 (int S * int slot) div int S = int slot" using S(1) by simp
  moreover have "u64 (int slot - 1) = int (slot - 1)"
    using assms(2) \<open>slot \<le> 2147483648\<close> by (subst u64_id) auto
  ultimately have "slice_release S n (int S * int slot) bm = BitmapOP CLEAR (int (slot - 1)) (int (Round2SliceSIZE S n)) bm"
    by (simp add: slice_release_def Let_def)
  moreover obtain bm' where "BitmapOP CLEAR (int (slot - 1)) (int (Round2SliceSIZE S n)) bm = Done bm'"
      "changed CLEAR {slot - 1..<slot - 1 + Round2SliceSIZE S n} bm bm'"
    using BitmapOP_changed [of "slot - 1" "Round2SliceSIZE S n" bm CLEAR] assms(1,3) by (auto simp: slice_config_def)
  ultimately show ?thesis using that by simp
qed

lemma slice_inv_get:
  assumes "slice_config S w" "slice_inv S w bm live" "0 < n"
  shows "(\<exists>p bm'. slice_acquire (64 * w) S n bm = Done (Some p, bm') \<and> (n, p) \<notin> live \<and>
      slice_inv S w bm' (insert (n, p) live)) \<or> slice_acquire (64 * w) S n bm = Done (None, bm)"
proof -
  have w: "length bm = w" and S: "0 < S" using assms(1,2) by (simp_all add: slice_inv_def slice_config_def)
  have c: "slice_config S (length bm)" using assms(1) w by simp
  show ?thesis
    using c assms(3)
  proof (cases rule: slice_acquire_cases)
    case full
    then show ?thesis using w by simp
  next
    case (fit i bm')
    let ?p = "int S * int (Suc i)" and ?r = "{i..<i + Round2SliceSIZE S n}"
    have r: "block_run S n ?p = ?r" using S by (subst block_run_slot) auto
    have s: "i \<in> ?r" using round_pos [OF S assms(3)] by simp
    have free: "block_run S m q \<inter> ?r = {}" if "(m, q) \<in> live" for m q
    proof -
      have "\<not> j \<in> block_run S m q" if "j \<in> ?r" for j
        using that fit(4,5) slice_inv_taken [OF assms(2), of j] w \<open>(m, q) \<in> live\<close> by auto
      then show ?thesis by blast
    qed
    have new: "(n, ?p) \<notin> live" using free [of n ?p] r s by auto
    have runs: "block_run S (fst b) (snd b) \<inter> block_run S (fst c) (snd c) = {}"
      if "b \<in> insert (n, ?p) live" "c \<in> insert (n, ?p) live" "b \<noteq> c" for b c
      using that r free [of "fst b" "snd b"] free [of "fst c" "snd c"]
        slice_inv_runs [OF assms(2), of "fst b" "snd b" "fst c" "snd c"] by (cases b; cases c) auto
    have "slice_inv S w bm' (insert (n, ?p) live)"
      unfolding slice_inv_def
    proof (intro conjI)
      show "length bm' = w" using fit(3) w by (simp add: changed_def)
      show "\<forall>b\<in>insert (n, ?p) live. 0 < fst b \<and> (\<exists>slot>0. snd b = int S * int slot) \<and>
          block_run S (fst b) (snd b) \<subseteq> {..<64 * w}"
        using assms(2,3) r fit(4) w by (auto simp: slice_inv_def intro!: exI [of _ "Suc i"])
      show "\<forall>b\<in>insert (n, ?p) live. \<forall>c\<in>insert (n, ?p) live. b \<noteq> c \<longrightarrow>
          block_run S (fst b) (snd b) \<inter> block_run S (fst c) (snd c) = {}"
        using runs by blast
      show "\<forall>j<64 * w. taken bm' j \<longleftrightarrow> (\<exists>b\<in>insert (n, ?p) live. j \<in> block_run S (fst b) (snd b))"
        using assms(2) fit(3) r w by (auto simp: slice_inv_def changed_def)
    qed
    then show ?thesis using fit(2) new w by auto
  qed
qed

lemma slice_inv_put:
  assumes "slice_config S w" "slice_inv S w bm live" "(n, p) \<in> live"
  shows "\<exists>bm'. slice_release S n p bm = Done bm' \<and> slice_inv S w bm' (live - {(n, p)})"
proof -
  have w: "length bm = w" and S: "0 < S" using assms(1,2) by (simp_all add: slice_inv_def slice_config_def)
  obtain slot where n: "0 < n" "0 < slot" "p = int S * int slot" "block_run S n p \<subseteq> {..<64 * w}"
    by (rule slice_invD [OF assms(2,3)])
  have r: "block_run S n p = {slot - 1..<slot - 1 + Round2SliceSIZE S n}" using S n(3) by simp
  have s: "0 < Round2SliceSIZE S n" by (rule round_pos [OF S n(1)])
  have "slot - 1 + Round2SliceSIZE S n - 1 \<in> block_run S n p" using r s n(2) by auto
  then have "slot - 1 + Round2SliceSIZE S n - 1 < 64 * w" using n(4) by auto
  then have b: "slot - 1 + Round2SliceSIZE S n \<le> 64 * length bm" "slot \<le> 64 * length bm" using s n(2) w by auto
  have "slice_config S (length bm)" using assms(1) w by simp
  from slice_release_result [OF this n(2) b] obtain bm' where
    c: "slice_release S n p bm = Done bm'" "changed CLEAR (block_run S n p) bm bm'" using n(3) r by metis
  have "slice_inv S w bm' (live - {(n, p)})"
    unfolding slice_inv_def
  proof (intro conjI)
    show "length bm' = w" using c(2) w by (simp add: changed_def)
    show "\<forall>j<64 * w. taken bm' j \<longleftrightarrow> (\<exists>b\<in>live - {(n, p)}. j \<in> block_run S (fst b) (snd b))"
    proof (intro allI impI)
      fix j
      assume j: "j < 64 * w"
      have t: "taken bm' j \<longleftrightarrow> j \<notin> block_run S n p \<and> taken bm j" using c(2) j w by (auto simp: changed_def)
      have "taken bm j \<longleftrightarrow> (\<exists>b\<in>live. j \<in> block_run S (fst b) (snd b))" by (rule slice_inv_taken [OF assms(2) j])
      moreover have "j \<notin> block_run S n p" if "b \<in> live" "b \<noteq> (n, p)" "j \<in> block_run S (fst b) (snd b)" for b
        using slice_inv_runs [OF assms(2) _ assms(3), of "fst b" "snd b"] that by auto
      ultimately show "taken bm' j \<longleftrightarrow> (\<exists>b\<in>live - {(n, p)}. j \<in> block_run S (fst b) (snd b))"
        using t by auto
    qed
  qed (use assms(2) in \<open>auto simp: slice_inv_def\<close>)
  then show ?thesis using c(1) by blast
qed

lemma slice_inv_apart:
  assumes "slice_config S w" "slice_inv S w bm live" "(n, p) \<in> live" "(n', p') \<in> live" "(n, p) \<noteq> (n', p')"
  shows "byte_range n p \<inter> byte_range n' p' = {}"
proof -
  have S: "0 < S" using assms(1) by (simp add: slice_config_def)
  have run: "\<exists>i\<in>block_run S m q. int S * int (Suc i) \<le> x \<and> x < int S * int (Suc (Suc i))"
    if "(m, q) \<in> live" "x \<in> byte_range m q" for m q x
  proof -
    note m = that
    obtain slot where q: "0 < slot" "q = int S * int slot" by (rule slice_invD [OF assms(2) m(1)])
    have x: "int S * int slot \<le> x" "x < int S * int slot + int m" using m(2) q(2) by (auto simp: byte_range_def)
    have "0 \<le> x" using x(1) by (meson of_nat_0_le_iff mult_nonneg_nonneg order_trans)
    then obtain y where y: "x = int y" by (rule nonneg_int_cases)
    define d where "d = y div S"
    have nx: "S * slot \<le> y" using x(1) unfolding y of_nat_mult [symmetric] of_nat_le_iff .
    have nx2: "y < S * slot + m"
      using x(2) unfolding y of_nat_mult [symmetric] of_nat_add [symmetric] of_nat_less_iff .
    have dx: "S * d \<le> y" "y < S * Suc d" using S by (simp_all add: d_def dividend_less_times_div)
    have "slot \<le> d" using nx S by (simp add: d_def less_eq_div_iff_mult_less_eq mult.commute)
    moreover have "S * d < S * (slot + Round2SliceSIZE S m)"
      using dx(1) nx2 round_covers [OF S, of m] by (simp add: distrib_left)
    then have "d < slot + Round2SliceSIZE S m" using S by simp
    ultimately have "d - 1 \<in> block_run S m q" using q S by auto
    moreover have "Suc (d - 1) = d" using \<open>slot \<le> d\<close> q(1) by simp
    moreover have "int S * int d \<le> x" "x < int S * int (Suc d)"
      using dx unfolding y of_nat_mult [symmetric] of_nat_le_iff of_nat_less_iff by simp_all
    ultimately show ?thesis by (intro bexI [of _ "d - 1"]) simp_all
  qed
  have apart: "block_run S n p \<inter> block_run S n' p' = {}" by (rule slice_inv_runs [OF assms(2-5)])
  show ?thesis
  proof (intro equals0I, elim IntE)
    fix x
    assume "x \<in> byte_range n p" "x \<in> byte_range n' p'"
    with run [OF assms(3)] run [OF assms(4)] obtain i j where
      i: "i \<in> block_run S n p" "int S * int (Suc i) \<le> x" "x < int S * int (Suc (Suc i))" and
      j: "j \<in> block_run S n' p'" "int S * int (Suc j) \<le> x" "x < int S * int (Suc (Suc j))" by meson
    have "int S * int (Suc i) < int S * int (Suc (Suc j))" "int S * int (Suc j) < int S * int (Suc (Suc i))"
      using i(2,3) j(2,3) by linarith+
    then have "i = j" using S by simp
    then show False using i(1) j(1) apart by blast
  qed
qed

lemma slice_allocator:
  assumes "slice_config S w"
  shows "block_allocator (slice_acquire (64 * w) S) (slice_release S) (new_bitmap (64 * w)) (\<lambda>n. 0 < n)
    byte_range (slice_inv S w)"
proof (rule block_allocator.intro)
  show "slice_inv S w (new_bitmap (64 * w)) {}" by (simp add: slice_inv_def new_bitmap_def taken_def)
qed (rule slice_inv_get [OF assms], assumption+, rule slice_inv_put [OF assms], assumption+,
    rule slice_inv_apart [OF assms], assumption+)

interpretation slice_buffer: block_allocator "slice_acquire 16384 64" "slice_release 64" "new_bitmap 16384"
  "\<lambda>n. 0 < n" byte_range "slice_inv 64 256"
  using slice_allocator [of 64 256] by (simp add: slice_config_def)

section \<open>Properties\<close>

text \<open>C22: the three loops of \<open>BitmapOP\<close>, over the bits of the first word, the whole words and the bits of the
  last word, set or clear exactly the bits from \<open>NR\<close> up to \<open>NR + bits\<close>, and touch no word outside
  of the bitmap.\<close>

theorem BitmapOP_range:
  assumes "nr + bits \<le> 64 * length bm" "64 * length bm < 2147483648"
  shows "\<exists>bm'. BitmapOP op (int nr) (int bits) bm = Done bm' \<and> length bm' = length bm \<and>
    (\<forall>i < 64 * length bm. taken bm' i \<longleftrightarrow> (if nr \<le> i \<and> i < nr + bits then op = SET else taken bm i))"
  using BitmapOP_changed [OF assms, of op] by (auto simp: changed_def)

text \<open>C23: both searches are first fit: the search for one free slice by words, and the search for a run of
  free slices with its shortcut for the first word, return the first position where enough slices
  are free, counted from 1, or 0 when there is none.\<close>

theorem Find_is_first_fit:
  assumes "0 < s" "bm \<noteq> []"
  shows "Find bm = first_fit bm 1 \<and> Find_slices (64 * length bm) s bm = Done (first_fit bm s)"
  using Find_first_fit Find_slices_first_fit [OF assms] by blast

text \<open>C20: however the allocator is used, the blocks that have been handed out and not released share no
  byte, no request or release of a live block crashes, and a slice is marked as taken exactly when
  some live block owns it.\<close>

theorem slice_blocks_apart:
  assumes "slice_config S w"
    and "alloc_run (\<lambda>n. 0 < n) (slice_acquire (64 * w) S) (slice_release S) (new_bitmap (64 * w)) bm live"
  shows "((n, p) \<in> live \<longrightarrow> (n', p') \<in> live \<longrightarrow> (n, p) \<noteq> (n', p') \<longrightarrow> byte_range n p \<inter> byte_range n' p' = {}) \<and>
    (0 < n \<longrightarrow> (\<exists>a bm'. slice_acquire (64 * w) S n bm = Done (a, bm'))) \<and>
    ((n, p) \<in> live \<longrightarrow> (\<exists>bm'. slice_release S n p bm = Done bm')) \<and>
    (i < 64 * w \<longrightarrow> taken bm i = (\<exists>b\<in>live. i \<in> block_run S (fst b) (snd b)))"
  using block_allocator.run_apart [OF slice_allocator [OF assms(1)] assms(2)]
    block_allocator.run_no_crash [OF slice_allocator [OF assms(1)] assms(2)]
    slice_inv_taken [OF block_allocator.run_inv [OF slice_allocator [OF assms(1)] assms(2)], of i]
  by blast

lemma taken_snoc:
  "taken (bm @ [w]) i \<longleftrightarrow> (if i < 64 * length bm then taken bm i else i < 64 * length bm + 64 \<and> bit w (i - 64 * length bm))"
proof (cases "i < 64 * length bm")
  case True
  then have "i div 64 < length bm" by (simp add: less_mult_imp_div_less mult.commute)
  then show ?thesis using True by (simp add: taken_def nth_append)
next
  case False
  show ?thesis
  proof (cases "i < 64 * length bm + 64")
    case True
    then have "i div 64 = length bm" using False by (intro div_nat_eqI) auto
    then show ?thesis using False True by (simp add: taken_def nth_append minus_div_mult_eq_mod [symmetric] mult.commute)
  qed (use False in \<open>simp add: taken_def\<close>)
qed

lemma bit_count: "BitSetCount (NOT w) = card {i. i < 64 \<and> \<not> bit w i}"
proof -
  have "BitSetCount (NOT w) = card (set (filter (bit (NOT w)) [0..<64]))"
    unfolding BitSetCount_def by (rule distinct_card [symmetric]) simp
  also have "set (filter (bit (NOT w)) [0..<64]) = {i. i < 64 \<and> \<not> bit w i}"
    by (auto simp: bit_not_iff possible_bit_word)
  finally show ?thesis .
qed

lemma slice_size_card: "slice_size_of bm = card {i. i < 64 * length bm \<and> \<not> taken bm i}"
proof (induction bm rule: rev_induct)
  case Nil
  then show ?case by (simp add: slice_size_of_def)
next
  case (snoc w bm)
  let ?n = "64 * length bm"
  let ?A = "{i. i < ?n \<and> \<not> taken bm i}" and ?B = "{i. i < 64 \<and> \<not> bit w i}"
  have "{i. i < 64 * length (bm @ [w]) \<and> \<not> taken (bm @ [w]) i} = ?A \<union> (\<lambda>i. ?n + i) ` ?B"
  proof (intro set_eqI iffI)
    fix i
    assume i: "i \<in> {i. i < 64 * length (bm @ [w]) \<and> \<not> taken (bm @ [w]) i}"
    show "i \<in> ?A \<union> (\<lambda>i. ?n + i) ` ?B"
    proof (cases "i < ?n")
      case False
      then have "i = ?n + (i - ?n)" "i - ?n \<in> ?B" using i by (auto simp: taken_snoc)
      then show ?thesis by blast
    qed (use i in \<open>simp add: taken_snoc\<close>)
  qed (auto simp: taken_snoc)
  moreover have "?A \<inter> (\<lambda>i. ?n + i) ` ?B = {}" by auto
  ultimately have "card {i. i < 64 * length (bm @ [w]) \<and> \<not> taken (bm @ [w]) i} = card ?A + card ?B"
    by (simp add: card_Un_disjoint card_image)
  then show ?case using snoc.IH bit_count by (simp add: slice_size_of_def)
qed

lemma taken_iff_words: "slice_empty bm \<longleftrightarrow> (\<forall>i<64 * length bm. taken bm i)"
proof
  assume e: "slice_empty bm"
  show "\<forall>i<64 * length bm. taken bm i"
  proof (intro allI impI)
    fix i
    assume i: "i < 64 * length bm"
    then have "i div 64 < length bm" by (simp add: less_mult_imp_div_less mult.commute)
    then have "ffzll (bm ! (i div 64)) = 0" using e by (simp add: slice_empty_def list_all_length)
    then show "taken bm i" using i by (simp add: taken_def ffzll_0)
  qed
next
  assume t: "\<forall>i<64 * length bm. taken bm i"
  have "bit (bm ! k) i" if "k < length bm" "i < 64" for k i
    using t [rule_format, of "64 * k + i"] that by (simp add: taken_def)
  then show "slice_empty bm" by (auto simp: slice_empty_def list_all_length ffzll_0)
qed

text \<open>\<open>size\<close> is the number of slices that are not taken, however the bits are spread over the words,
  and \<open>empty\<close> says whether there are none.\<close>

theorem slice_size_counts:
  "slice_size_of bm = card {i. i < 64 * length bm \<and> \<not> taken bm i} \<and> (slice_empty bm = (slice_size_of bm = 0))"
  using slice_size_card [of bm] taken_iff_words [of bm] by auto

lemma bitmap_eqI:
  assumes "length bm = length bm'" "\<And>i. i < 64 * length bm \<Longrightarrow> taken bm i = taken bm' i"
  shows "bm = bm'"
proof (rule nth_equalityI [OF assms(1)])
  fix k
  assume k: "k < length bm"
  show "bm ! k = bm' ! k"
  proof (rule bit_word_eqI)
    fix n :: nat
    assume "n < LENGTH(64)"
    then show "bit (bm ! k) n = bit (bm' ! k) n"
      using assms(2) [of "64 * k + n"] k assms(1) by (simp add: taken_def)
  qed
qed

text \<open>Releasing the block that was just acquired restores the bitmap to the word.\<close>

theorem slice_acquire_release:
  assumes "slice_config S (length bm)" "0 < n" "slice_acquire (64 * length bm) S n bm = Done (Some p, bm')"
  shows "slice_release S n p bm' = Done bm"
  using assms(1,2)
proof (cases rule: slice_acquire_cases)
  case full
  then show ?thesis using assms(3) by simp
next
  case (fit i bm1)
  let ?s = "Round2SliceSIZE S n"
  have p: "p = int S * int (Suc i)" "bm1 = bm'" using fit(2) assms(3) by simp_all
  have len: "length bm' = length bm" using fit(3) p(2) by (simp add: changed_def)
  have c: "slice_config S (length bm')" using assms(1) len by simp
  have s: "0 < ?s" using assms(1,2) by (simp add: slice_config_def round_pos)
  obtain bm2 where r: "slice_release S n p bm' = Done bm2" "changed CLEAR {i..<i + ?s} bm' bm2"
    using slice_release_result [OF c, of "Suc i" n] fit(4) len s p(1) by auto
  have "bm2 = bm"
  proof (rule bitmap_eqI)
    show "length bm2 = length bm" using r(2) len by (simp add: changed_def)
    show "taken bm2 j = taken bm j" if "j < 64 * length bm2" for j
      using that r(2) fit(3,5) p(2) by (auto simp: changed_def)
  qed
  then show ?thesis using r(1) by simp
qed

text \<open>The offset of a block is counted from the first slice but the slot it is computed from is counted
  from 1: a block that owns the last slice ends behind the storage, and when only the last slice is
  free \<open>acquire\<close> returns the end of the storage.\<close>

theorem slice_acquire_past_end:
  assumes "slice_config S (length bm)" "0 < n" "n \<le> S"
    and "\<And>i. i < 64 * length bm - 1 \<Longrightarrow> taken bm i" "\<not> taken bm (64 * length bm - 1)"
  shows "\<exists>bm'. slice_acquire (64 * length bm) S n bm = Done (Some (int S * int (64 * length bm)), bm')"
proof -
  have l: "0 < length bm" "0 < S" using assms(1) by (simp_all add: slice_config_def)
  have "n + S - 1 < 2 * S" "S \<le> n + S - 1" using assms(2,3) by auto
  then have one: "Round2SliceSIZE S n = 1" unfolding Round2SliceSIZE_def by (intro div_nat_eqI) auto
  have "first_fit bm 1 = Suc (64 * length bm - 1)"
    by (rule first_fit_some) (use l assms(4,5) in \<open>auto simp: free_run_iff less_Suc_eq_le dest: antisym\<close>)
  then have ff: "first_fit bm (Round2SliceSIZE S n) = Suc (64 * length bm - 1)" using one by simp
  from assms(1,2) show ?thesis
  proof (cases rule: slice_acquire_cases)
    case (fit i bm')
    then have "Suc i = 64 * length bm" using ff l(1) by linarith
    then show ?thesis using fit(2) by metis
  qed (use ff in simp)
qed

section \<open>Witnesses\<close>

theorem BitmapOP_range_witness:
  "\<exists>bm'. BitmapOP SET 62 68 [0, 0, 0] = Done bm' \<and> length bm' = 3 \<and> taken bm' 129 \<and> \<not> taken bm' 130"
proof -
  have "\<exists>bm'. BitmapOP SET (int 62) (int 68) [0, 0, 0] = Done bm' \<and> length bm' = length [0, 0, 0 :: 64 word] \<and>
      (\<forall>i < 64 * length [0, 0, 0 :: 64 word]. taken bm' i \<longleftrightarrow>
        (if 62 \<le> i \<and> i < 62 + 68 then SET = SET else taken [0, 0, 0] i))"
    by (rule BitmapOP_range) simp_all
  then obtain bm' where b: "BitmapOP SET 62 68 [0, 0, 0] = Done bm'" "length bm' = 3"
      "\<forall>i < 192. taken bm' i \<longleftrightarrow> (if 62 \<le> i \<and> i < 130 then True else taken [0, 0, 0] i)" by auto
  have "\<not> taken [0, 0, 0] 130" by code_simp
  then show ?thesis using b(1,2) b(3) [rule_format, of 129] b(3) [rule_format, of 130] by auto
qed

theorem Find_is_first_fit_witness:
  "Find [1, 0] = first_fit [1, 0] 1 \<and> Find_slices (64 * length [1, 0 :: 64 word]) 64 [1, 0] = Done (first_fit [1, 0] 64)"
  by (rule Find_is_first_fit) simp_all

theorem slice_blocks_apart_witness:
  "(\<exists>bm p q. alloc_run (\<lambda>n. 0 < n) (slice_acquire 64 64) (slice_release 64) (new_bitmap 64) bm {(10, q), (100, p)} \<and>
    byte_range 100 p \<inter> byte_range 10 q = {})"
proof -
  have c: "slice_config 64 1" by (simp add: slice_config_def)
  have 0: "alloc_run (\<lambda>n. 0 < n) (slice_acquire 64 64) (slice_release 64) (new_bitmap 64) (new_bitmap 64) {}"
    by (rule Run_start)
  have g: "slice_acquire 64 64 100 (new_bitmap 64) = Done (Some 64, [3])"
    "slice_acquire 64 64 10 [3] = Done (Some 192, [7])" by code_simp+
  have r: "alloc_run (\<lambda>n. 0 < n) (slice_acquire 64 64) (slice_release 64) (new_bitmap 64) [7] {(10, 192), (100, 64)}"
    by (rule Run_get [OF Run_get [OF 0 _ g(1)] _ g(2)]) simp_all
  then show ?thesis using slice_blocks_apart [OF c, of "[7]" "{(10, 192), (100, 64)}" 100 64 10 192 0] by auto
qed

theorem slice_acquire_release_witness: "slice_release 64 100 64 [3] = Done [0]"
proof (rule slice_acquire_release)
  show "slice_acquire (64 * length [0 :: 64 word]) 64 100 [0] = Done (Some 64, [3])" by code_simp
qed (simp_all add: slice_config_def)

theorem slice_acquire_past_end_witness:
  "\<exists>bm'. slice_acquire 64 64 4 [9223372036854775807] = Done (Some 4096, bm')"
proof -
  have "slice_config 64 (length [9223372036854775807 :: 64 word])" by (simp add: slice_config_def)
  moreover have "list_all (taken [9223372036854775807]) [0..<63]" by code_simp
  then have "taken [9223372036854775807] i" if "i < 64 * length [9223372036854775807 :: 64 word] - 1" for i
    using that by (simp add: list_all_iff)
  moreover have "\<not> taken [9223372036854775807] (64 * length [9223372036854775807 :: 64 word] - 1)" by code_simp
  ultimately show ?thesis using slice_acquire_past_end [of 64 "[9223372036854775807]" 4] by simp
qed

end
