(* ===== verification/Slab_Buffer.thy ===== *)
theory Slab_Buffer
  imports Block_Allocator
begin

text \<open>
  The slab allocator of Other/MemoryAllocator/MemoryRingBuffer.cpp: two arrays of 5120 blocks, of 64
  and of 256 bytes, each with a stack of the slots that are free. It meets the contract of the theory
  \<open>Block_Allocator\<close>.
\<close>

section \<open>The allocator\<close>

definition MAX_ELEMENTS_CNT :: nat where "MAX_ELEMENTS_CNT = 5120"
definition HUGEPAGE_SIZE :: int where "HUGEPAGE_SIZE = 2097152"

text \<open>\<open>mOrderArray\<close>: the addresses of the arrays; \<open>mFreeSlots\<close>: the stacks, the top first.\<close>

record slab_buffer =
  mOrderArray :: "int list"
  mFreeSlots :: "nat list list"

text \<open>\<open>fill_slots i\<close> is the loop of the constructor that pushes \<open>i - 1\<close> down to 0.\<close>

fun fill_slots :: "nat \<Rightarrow> nat list \<Rightarrow> nat list" where
  "fill_slots 0 stack = stack"
| "fill_slots (Suc i) stack = fill_slots i (i # stack)"

definition new_slab :: "int \<Rightarrow> int \<Rightarrow> slab_buffer" where
  "new_slab a b =
     \<lparr>mOrderArray = [a, b], mFreeSlots = map (fill_slots MAX_ELEMENTS_CNT) [[], []]\<rparr>"

text \<open>The size of the type asked for; larger types do not compile.\<close>

definition orderIndex :: "nat \<Rightarrow> nat" where
  "orderIndex n = (if n \<le> 64 then 0 else 1)"

definition orderLevel :: "nat \<Rightarrow> nat" where
  "orderLevel order = [6, 8] ! order"

definition CVT2ADDR :: "slab_buffer \<Rightarrow> nat \<Rightarrow> nat \<Rightarrow> int" where
  "CVT2ADDR s order slot = mOrderArray s ! order + push_bit (orderLevel order) (int slot)"

definition slab_acquire :: "nat \<Rightarrow> slab_buffer \<Rightarrow> (int option \<times> slab_buffer) outcome" where
  "slab_acquire n s =
     (let order = orderIndex n in
      case mFreeSlots s ! order of
        [] \<Rightarrow> Done (None, s)
      | freeSlot # rest \<Rightarrow>
          Done (Some (CVT2ADDR s order freeSlot), s\<lparr>mFreeSlots := (mFreeSlots s)[order := rest]\<rparr>))"

text \<open>The slot is an \<open>unsigned short\<close>; an assertion that fails ends the program (a build with \<open>NDEBUG\<close>
  leaves it out; for live blocks it holds).\<close>

definition slab_release :: "nat \<Rightarrow> int \<Rightarrow> slab_buffer \<Rightarrow> slab_buffer outcome" where
  "slab_release n ptr s =
     (let order = orderIndex n;
          slot = nat (drop_bit (orderLevel order) (ptr - mOrderArray s ! order) mod 65536)
      in if slot < MAX_ELEMENTS_CNT
         then Done (s\<lparr>mFreeSlots := (mFreeSlots s)[order := slot # mFreeSlots s ! order]\<rparr>)
         else Crash Bad_free)"

section \<open>The invariant\<close>

definition slab_askable :: "nat \<Rightarrow> bool" where
  "slab_askable n \<longleftrightarrow> 0 < n \<and> n \<le> 256"

text \<open>The two arrays do not overlap.\<close>

definition slab_config :: "int \<Rightarrow> int \<Rightarrow> bool" where
  "slab_config a b \<longleftrightarrow> a + HUGEPAGE_SIZE \<le> b \<or> b + HUGEPAGE_SIZE \<le> a"

text \<open>The slots of the live blocks of an order.\<close>

definition live_slots :: "slab_buffer \<Rightarrow> nat \<Rightarrow> (nat \<times> int) set \<Rightarrow> nat set" where
  "live_slots s order live = {slot. \<exists>n. (n, CVT2ADDR s order slot) \<in> live \<and> orderIndex n = order}"

definition slab_inv :: "int \<Rightarrow> int \<Rightarrow> slab_buffer \<Rightarrow> (nat \<times> int) set \<Rightarrow> bool" where
  "slab_inv a b s live \<longleftrightarrow> mOrderArray s = [a, b] \<and> length (mFreeSlots s) = 2 \<and>
     (\<forall>c\<in>live. slab_askable (fst c) \<and> (\<exists>slot<MAX_ELEMENTS_CNT. snd c = CVT2ADDR s (orderIndex (fst c)) slot)) \<and>
     (\<forall>c\<in>live. \<forall>d\<in>live. orderIndex (fst c) = orderIndex (fst d) \<longrightarrow> snd c = snd d \<longrightarrow> c = d) \<and>
     (\<forall>order<2. distinct (mFreeSlots s ! order) \<and>
       set (mFreeSlots s ! order) = {..<MAX_ELEMENTS_CNT} - live_slots s order live)"

lemma orderIndex_2 [simp]: "orderIndex n < 2"
  by (simp add: orderIndex_def)

lemma addr_free [simp]: "CVT2ADDR (s\<lparr>mFreeSlots := f\<rparr>) = CVT2ADDR s"
  by (simp add: CVT2ADDR_def fun_eq_iff)

lemma addr_inj [simp]: "CVT2ADDR s order slot = CVT2ADDR s order slot' \<longleftrightarrow> slot = slot'"
  by (simp add: CVT2ADDR_def push_bit_eq_mult)

lemma fill_slots_eq: "fill_slots n stack = [0..<n] @ stack"
  by (induction n arbitrary: stack) auto

lemma order_cases: "order < 2 \<Longrightarrow> order = 0 \<or> order = (1 :: nat)"
  by auto

lemma slab_inv_start: "slab_inv a b (new_slab a b) {}"
  by (auto simp: slab_inv_def new_slab_def fill_slots_eq live_slots_def dest!: order_cases)

lemma slab_inv_get:
  assumes "slab_inv a b s live" "slab_askable n"
  shows "(\<exists>p s'. slab_acquire n s = Done (Some p, s') \<and> (n, p) \<notin> live \<and> slab_inv a b s' (insert (n, p) live)) \<or>
    slab_acquire n s = Done (None, s)"
proof (cases "mFreeSlots s ! orderIndex n")
  case Nil
  then show ?thesis by (simp add: slab_acquire_def)
next
  case (Cons slot rest)
  let ?o = "orderIndex n" and ?p = "CVT2ADDR s (orderIndex n) slot"
  let ?s = "s\<lparr>mFreeSlots := (mFreeSlots s)[?o := rest]\<rparr>"
  have inv: "mOrderArray s = [a, b]" "length (mFreeSlots s) = 2"
    "\<forall>c\<in>live. slab_askable (fst c) \<and> (\<exists>slot<MAX_ELEMENTS_CNT. snd c = CVT2ADDR s (orderIndex (fst c)) slot)"
    "\<forall>c\<in>live. \<forall>d\<in>live. orderIndex (fst c) = orderIndex (fst d) \<longrightarrow> snd c = snd d \<longrightarrow> c = d"
    "\<And>order. order < 2 \<Longrightarrow> distinct (mFreeSlots s ! order) \<and>
       set (mFreeSlots s ! order) = {..<MAX_ELEMENTS_CNT} - live_slots s order live"
    using assms(1) by (auto simp: slab_inv_def)
  have slot: "slot < MAX_ELEMENTS_CNT" "slot \<notin> live_slots s ?o live" "distinct (slot # rest)"
    "set (slot # rest) = {..<MAX_ELEMENTS_CNT} - live_slots s ?o live"
    using inv(5) [of ?o] Cons by auto
  have new: "(m, ?p) \<notin> live" if "orderIndex m = ?o" for m
    using slot(2) that by (auto simp: live_slots_def)
  have ls: "live_slots ?s order (insert (n, ?p) live) = (if order = ?o then insert slot (live_slots s ?o live)
      else live_slots s order live)" for order
    by (auto simp: live_slots_def)
  have "slab_inv a b ?s (insert (n, ?p) live)"
    unfolding slab_inv_def
  proof (intro conjI)
    show "\<forall>c\<in>insert (n, ?p) live. slab_askable (fst c) \<and>
        (\<exists>slot<MAX_ELEMENTS_CNT. snd c = CVT2ADDR ?s (orderIndex (fst c)) slot)"
      using inv(3) assms(2) slot(1) by auto
    show "\<forall>c\<in>insert (n, ?p) live. \<forall>d\<in>insert (n, ?p) live.
        orderIndex (fst c) = orderIndex (fst d) \<longrightarrow> snd c = snd d \<longrightarrow> c = d"
      using inv(4) new by (metis insert_iff prod.collapse fst_conv snd_conv)
    show "\<forall>order<2. distinct (mFreeSlots ?s ! order) \<and>
        set (mFreeSlots ?s ! order) = {..<MAX_ELEMENTS_CNT} - live_slots ?s order (insert (n, ?p) live)"
      using inv(2,5) slot(3,4) unfolding ls by (auto simp: nth_list_update)
  qed (use inv in simp_all)
  then show ?thesis using Cons new by (auto simp: slab_acquire_def Let_def)
qed

lemma slot_of_addr:
  "slot < MAX_ELEMENTS_CNT \<Longrightarrow> drop_bit (orderLevel order) (CVT2ADDR s order slot - mOrderArray s ! order) mod 65536 = int slot"
  by (simp add: CVT2ADDR_def MAX_ELEMENTS_CNT_def drop_bit_eq_div push_bit_eq_mult)

lemma slab_inv_put:
  assumes "slab_inv a b s live" "(n, p) \<in> live"
  shows "\<exists>s'. slab_release n p s = Done s' \<and> slab_inv a b s' (live - {(n, p)})"
proof -
  let ?o = "orderIndex n"
  have inv: "mOrderArray s = [a, b]" "length (mFreeSlots s) = 2"
    "\<forall>c\<in>live. slab_askable (fst c) \<and> (\<exists>slot<MAX_ELEMENTS_CNT. snd c = CVT2ADDR s (orderIndex (fst c)) slot)"
    "\<forall>c\<in>live. \<forall>d\<in>live. orderIndex (fst c) = orderIndex (fst d) \<longrightarrow> snd c = snd d \<longrightarrow> c = d"
    "\<And>order. order < 2 \<Longrightarrow> distinct (mFreeSlots s ! order) \<and>
       set (mFreeSlots s ! order) = {..<MAX_ELEMENTS_CNT} - live_slots s order live"
    using assms(1) by (auto simp: slab_inv_def)
  obtain slot where slot: "slot < MAX_ELEMENTS_CNT" "p = CVT2ADDR s ?o slot" using inv(3) assms(2) by fastforce
  let ?s = "s\<lparr>mFreeSlots := (mFreeSlots s)[?o := slot # mFreeSlots s ! ?o]\<rparr>"
  have r: "slab_release n p s = Done ?s"
    using slot slot_of_addr [OF slot(1), of ?o s] by (simp add: slab_release_def Let_def)
  have live: "slot \<in> live_slots s ?o live" using assms(2) slot(2) by (auto simp: live_slots_def)
  have only: "m = n" if "(m, p) \<in> live" "orderIndex m = ?o" for m
    using inv(4) assms(2) that by fastforce
  have ls: "live_slots ?s order (live - {(n, p)}) = (if order = ?o then live_slots s ?o live - {slot}
      else live_slots s order live)" for order
    using only slot(2) by (auto simp: live_slots_def)
  have "slab_inv a b ?s (live - {(n, p)})"
    unfolding slab_inv_def
  proof (intro conjI)
    show "\<forall>order<2. distinct (mFreeSlots ?s ! order) \<and>
        set (mFreeSlots ?s ! order) = {..<MAX_ELEMENTS_CNT} - live_slots ?s order (live - {(n, p)})"
      using inv(2,5) live slot(1) unfolding ls by (auto simp: nth_list_update)
  qed (use inv in auto)
  then show ?thesis using r by blast
qed

lemma slab_inv_apart:
  assumes "slab_config a b" "slab_inv a b s live" "(n, p) \<in> live" "(n', p') \<in> live" "(n, p) \<noteq> (n', p')"
  shows "byte_range n p \<inter> byte_range n' p' = {}"
proof -
  have arr: "mOrderArray s = [a, b]" using assms(2) by (simp add: slab_inv_def)
  have blk: "\<exists>slot<MAX_ELEMENTS_CNT. p = (if orderIndex n = 0 then a + 64 * int slot else b + 256 * int slot) \<and>
      int n \<le> (if orderIndex n = 0 then 64 else 256)" if "(n, p) \<in> live" for n p
  proof -
    have "slab_askable n" "\<exists>slot<MAX_ELEMENTS_CNT. p = CVT2ADDR s (orderIndex n) slot"
      using assms(2) that by (fastforce simp: slab_inv_def)+
    then show ?thesis
      using arr by (auto simp: CVT2ADDR_def orderIndex_def orderLevel_def push_bit_eq_mult slab_askable_def)
  qed
  obtain i where i: "i < MAX_ELEMENTS_CNT" "p = (if orderIndex n = 0 then a + 64 * int i else b + 256 * int i)"
    "int n \<le> (if orderIndex n = 0 then 64 else 256)" using blk [OF assms(3)] by blast
  obtain j where j: "j < MAX_ELEMENTS_CNT" "p' = (if orderIndex n' = 0 then a + 64 * int j else b + 256 * int j)"
    "int n' \<le> (if orderIndex n' = 0 then 64 else 256)" using blk [OF assms(4)] by blast
  have "i \<noteq> j" if "orderIndex n = orderIndex n'"
  proof
    assume "i = j"
    then have "p = p'" using that i(2) j(2) by simp
    then show False using assms(2-5) that unfolding slab_inv_def by fastforce
  qed
  then consider "orderIndex n \<noteq> orderIndex n'" | "orderIndex n = orderIndex n'" "i < j"
    | "orderIndex n = orderIndex n'" "j < i" by linarith
  then show ?thesis
  proof cases
    case 1
    then show ?thesis
      using i j assms(1) order_cases [OF orderIndex_2, of n] order_cases [OF orderIndex_2, of n']
      by (auto simp: byte_range_def slab_config_def HUGEPAGE_SIZE_def MAX_ELEMENTS_CNT_def split: if_splits)
  next
    case 2
    then show ?thesis using i(2,3) j(2) by (auto simp: byte_range_def split: if_splits)
  next
    case 3
    then show ?thesis using i(2) j(2,3) by (auto simp: byte_range_def split: if_splits)
  qed
qed

lemma slab_allocator:
  assumes "slab_config a b"
  shows "block_allocator slab_acquire slab_release (new_slab a b) slab_askable byte_range (slab_inv a b)"
proof (rule block_allocator.intro)
qed (rule slab_inv_start, rule slab_inv_get, assumption+, rule slab_inv_put, assumption+,
    rule slab_inv_apart [OF assms], assumption+)

interpretation slab_buffer: block_allocator slab_acquire slab_release "new_slab 0 2097152" slab_askable byte_range
  "slab_inv 0 2097152"
  by (rule slab_allocator) (simp add: slab_config_def HUGEPAGE_SIZE_def)

section \<open>Properties\<close>

text \<open>The slab allocator keeps live blocks apart, whatever sizes up to 256 bytes are asked for in whatever
  order: no two of them share a byte, also not one of each array; no request and no release of a live
  block crashes.\<close>

theorem slab_blocks_apart:
  assumes "slab_config a b" "alloc_run slab_askable slab_acquire slab_release (new_slab a b) s live"
  shows "((n, p) \<in> live \<longrightarrow> (n', p') \<in> live \<longrightarrow> (n, p) \<noteq> (n', p') \<longrightarrow> byte_range n p \<inter> byte_range n' p' = {}) \<and>
    (slab_askable n \<longrightarrow> (\<exists>a s'. slab_acquire n s = Done (a, s'))) \<and>
    ((n, p) \<in> live \<longrightarrow> (\<exists>s'. slab_release n p s = Done s'))"
  using block_allocator.run_apart [OF slab_allocator [OF assms(1)] assms(2)]
    block_allocator.run_no_crash [OF slab_allocator [OF assms(1)] assms(2)]
  by blast

theorem slab_blocks_apart_witness:
  "\<exists>s p q. alloc_run slab_askable slab_acquire slab_release (new_slab 0 2097152) s {(200, q), (8, p)} \<and>
    byte_range 8 p \<inter> byte_range 200 q = {}"
proof -
  have c: "slab_config 0 2097152" by (simp add: slab_config_def HUGEPAGE_SIZE_def)
  define rest where "rest = [1..<MAX_ELEMENTS_CNT]"
  have "0 < MAX_ELEMENTS_CNT" by (simp add: MAX_ELEMENTS_CNT_def)
  then have "[0..<MAX_ELEMENTS_CNT] = 0 # [Suc 0..<MAX_ELEMENTS_CNT]" by (rule upt_conv_Cons)
  then have "fill_slots MAX_ELEMENTS_CNT [] = 0 # rest"
    by (simp only: fill_slots_eq rest_def append_Nil2 One_nat_def)
  then have st: "new_slab 0 2097152 = \<lparr>mOrderArray = [0, 2097152], mFreeSlots = [0 # rest, 0 # rest]\<rparr>"
    by (simp add: new_slab_def)
  have g: "slab_acquire 8 (new_slab 0 2097152) =
      Done (Some 0, \<lparr>mOrderArray = [0, 2097152], mFreeSlots = [rest, 0 # rest]\<rparr>)"
    "slab_acquire 200 \<lparr>mOrderArray = [0, 2097152], mFreeSlots = [rest, 0 # rest]\<rparr> =
      Done (Some 2097152, \<lparr>mOrderArray = [0, 2097152], mFreeSlots = [rest, rest]\<rparr>)"
    by (simp_all add: slab_acquire_def st orderIndex_def CVT2ADDR_def)
  have 0: "alloc_run slab_askable slab_acquire slab_release (new_slab 0 2097152) (new_slab 0 2097152) {}"
    by (rule Run_start)
  have r: "alloc_run slab_askable slab_acquire slab_release (new_slab 0 2097152)
      \<lparr>mOrderArray = [0, 2097152], mFreeSlots = [rest, rest]\<rparr> {(200, 2097152), (8, 0)}"
    by (rule Run_get [OF Run_get [OF 0 _ g(1)] _ g(2)]) (simp_all add: slab_askable_def)
  then show ?thesis using slab_blocks_apart [OF c r, of 8 0 200 2097152] by auto
qed

end
