(* ===== verification/Ring_Queue.thy ===== *)
theory Ring_Queue
  imports Main
begin

text \<open>
  The queue of Other/MemoryAllocator/ConcurrentMemoryRingBuffer.cpp: a producer thread takes variable
  sized blocks from a ring of memory and a consumer thread gives them back in order. The threads
  share \<open>mWriteIndex\<close>, \<open>mReadIndex\<close> and \<open>mDataEnd\<close>; a step of the relation is one access of a thread
  to what the other one writes, with the computation up to the next one. The stores of the indices
  release and the loads of the other thread's index acquire, so that every interleaving of the steps
  is a run of the program and no other behaviour is.
\<close>

section \<open>State\<close>

text \<open>Addresses are offsets in the storage, of \<open>capacity\<close> bytes. \<open>P_loaded\<close> holds the read index that
  \<open>maximizeWriteCapacity\<close> has loaded, \<open>C_loaded\<close> the write index \<open>beginRead\<close> has loaded, which is
  \<open>mSnapReadEnd\<close>, and \<open>C_reading\<close> also the two chunks that are read, as start and length.\<close>

datatype producer_at = P_idle | P_reserve nat | P_loaded nat nat | P_ready nat

type_synonym chunk = "nat \<times> nat"

datatype consumer_at = C_idle | C_loaded nat | C_reading nat chunk chunk

record ring =
  mWriteIndex :: nat
  mReadIndex :: nat
  mDataEnd :: nat
  mSnapWritePos :: nat
  mSnapWriteEnd :: nat
  producer :: producer_at
  consumer :: consumer_at

definition new_ring :: ring where
  "new_ring = \<lparr>mWriteIndex = 0, mReadIndex = 0, mDataEnd = 0, mSnapWritePos = 0, mSnapWriteEnd = 0,
     producer = P_idle, consumer = C_idle\<rparr>"

section \<open>Operations\<close>

definition writeCapacity :: "ring \<Rightarrow> nat" where
  "writeCapacity q = mSnapWriteEnd q - mSnapWritePos q"

text \<open>\<open>r\<close> is the read index that was loaded. \<open>rightSize\<close> and \<open>leftSize\<close> are signed.\<close>

definition maximizeWriteCapacity :: "nat \<Rightarrow> nat \<Rightarrow> ring \<Rightarrow> ring" where
  "maximizeWriteCapacity capacity r q =
     (let w = mWriteIndex q in
      if w < r then q\<lparr>mSnapWritePos := w, mSnapWriteEnd := r - 1\<rparr>
      else
        let rightSize = int capacity - int w; leftSize = int r - 1 in
        if rightSize \<ge> leftSize then q\<lparr>mSnapWritePos := w, mSnapWriteEnd := w + nat rightSize\<rparr>
        else q\<lparr>mDataEnd := w, mSnapWritePos := 0, mSnapWriteEnd := nat leftSize\<rparr>)"

definition CommitAllocate :: "ring \<Rightarrow> ring" where
  "CommitAllocate q = q\<lparr>mWriteIndex := mSnapWritePos q\<rparr>"

text \<open>\<open>write\<close> of \<open>sz\<close> bytes at the snapshot position, and the commit.\<close>

definition write_commit :: "nat \<Rightarrow> ring \<Rightarrow> ring" where
  "write_commit sz q = CommitAllocate (q\<lparr>mSnapWritePos := mSnapWritePos q + sz\<rparr>)"

definition beginRead :: "nat \<Rightarrow> ring \<Rightarrow> chunk \<times> chunk" where
  "beginRead w q =
     (let r = mReadIndex q in
      if r \<le> w then ((r, w - r), (0, 0))
      else if r < mDataEnd q then ((r, mDataEnd q - r), (0, w))
      else ((0, w), (0, 0)))"

definition endRead :: "nat \<Rightarrow> ring \<Rightarrow> ring" where
  "endRead w q = q\<lparr>mReadIndex := w\<rparr>"

inductive ring_step :: "nat \<Rightarrow> ring \<Rightarrow> ring \<Rightarrow> bool" for capacity where
  Acquire: "producer q = P_idle \<Longrightarrow> ring_step capacity q (q\<lparr>producer := P_reserve sz\<rparr>)"
| Reserve_fits: "producer q = P_reserve sz \<Longrightarrow> sz \<le> writeCapacity q \<Longrightarrow>
    ring_step capacity q (q\<lparr>producer := P_ready sz\<rparr>)"
| Reserve_load: "producer q = P_reserve sz \<Longrightarrow> \<not> sz \<le> writeCapacity q \<Longrightarrow>
    ring_step capacity q (q\<lparr>producer := P_loaded sz (mReadIndex q)\<rparr>)"
| Reserve_done: "producer q = P_loaded sz r \<Longrightarrow> q' = maximizeWriteCapacity capacity r q \<Longrightarrow>
    ring_step capacity q (q'\<lparr>producer := if sz \<le> writeCapacity q' then P_ready sz else P_reserve sz\<rparr>)"
| Commit: "producer q = P_ready sz \<Longrightarrow>
    ring_step capacity q ((write_commit sz q)\<lparr>producer := P_idle\<rparr>)"
| Consume: "consumer q = C_idle \<Longrightarrow> ring_step capacity q (q\<lparr>consumer := C_loaded (mWriteIndex q)\<rparr>)"
| Begin: "consumer q = C_loaded w \<Longrightarrow> beginRead w q = (c1, c2) \<Longrightarrow>
    ring_step capacity q (q\<lparr>consumer := C_reading w c1 c2\<rparr>)"
| End: "consumer q = C_reading w c1 c2 \<Longrightarrow> ring_step capacity q ((endRead w q)\<lparr>consumer := C_idle\<rparr>)"

inductive_cases ring_stepE: "ring_step capacity q q'"

inductive ring_run :: "nat \<Rightarrow> ring \<Rightarrow> bool" for capacity where
  "ring_run capacity new_ring"
| "ring_run capacity q \<Longrightarrow> ring_step capacity q q' \<Longrightarrow> ring_run capacity q'"

section \<open>The invariant\<close>

text \<open>The bytes that have been committed and not given back yet.\<close>

definition unread :: "ring \<Rightarrow> nat set" where
  "unread q =
     (if mReadIndex q \<le> mWriteIndex q then {mReadIndex q..<mWriteIndex q}
      else {mReadIndex q..<mDataEnd q} \<union> {..<mWriteIndex q})"

lemma unread_pc [simp]: "unread (q\<lparr>producer := p\<rparr>) = unread q" "unread (q\<lparr>consumer := c\<rparr>) = unread q"
  by (simp_all add: unread_def)

definition chunk_bytes :: "chunk \<Rightarrow> nat set" where
  "chunk_bytes c = {fst c..<fst c + snd c}"

text \<open>The window of the producer starts at the write index and ends before the read index, or starts at
  the beginning of the storage when the data will end at the write index.\<close>

definition window_ok :: "ring \<Rightarrow> bool" where
  "window_ok q \<longleftrightarrow> mSnapWritePos q \<le> mSnapWriteEnd q \<and>
     (mSnapWritePos q = mWriteIndex q \<and> (mWriteIndex q < mReadIndex q \<longrightarrow> mSnapWriteEnd q < mReadIndex q) \<or>
      mSnapWritePos q = 0 \<and> mReadIndex q \<le> mWriteIndex q \<and> mDataEnd q = mWriteIndex q \<and>
        mSnapWriteEnd q < mReadIndex q)"

text \<open>What the producer knows of the read index it has loaded: if the data was in one piece then, it still is.\<close>

definition loaded_ok :: "nat \<Rightarrow> ring \<Rightarrow> bool" where
  "loaded_ok r q \<longleftrightarrow>
     (if mWriteIndex q < r then mWriteIndex q < mReadIndex q \<longrightarrow> r \<le> mReadIndex q
      else r \<le> mReadIndex q \<and> mReadIndex q \<le> mWriteIndex q)"

text \<open>What the consumer knows of the write index it has loaded: the data up to it is still there.\<close>

definition snap_ok :: "nat \<Rightarrow> ring \<Rightarrow> bool" where
  "snap_ok w q \<longleftrightarrow>
     (if mReadIndex q \<le> w
      then (if mReadIndex q \<le> mWriteIndex q then w \<le> mWriteIndex q else w \<le> mDataEnd q)
      else w \<le> mWriteIndex q \<and> mWriteIndex q < mReadIndex q)"

definition reads :: "nat \<Rightarrow> nat \<Rightarrow> nat \<Rightarrow> chunk \<Rightarrow> chunk \<Rightarrow> bool" where
  "reads r e w c1 c2 \<longleftrightarrow> chunk_bytes c1 \<union> chunk_bytes c2 = (if r \<le> w then {r..<w} else {r..<e} \<union> {..<w})"

lemma reads_end: "r \<le> w \<Longrightarrow> reads r e w c1 c2 \<Longrightarrow> reads r e' w c1 c2"
  by (simp add: reads_def)

definition ring_ok :: "nat \<Rightarrow> ring \<Rightarrow> bool" where
  "ring_ok capacity q \<longleftrightarrow>
     mWriteIndex q \<le> capacity \<and> mReadIndex q \<le> capacity \<and> mSnapWriteEnd q \<le> capacity \<and>
     (mWriteIndex q < mReadIndex q \<longrightarrow> mReadIndex q \<le> mDataEnd q \<and> mDataEnd q \<le> capacity) \<and>
     window_ok q \<and>
     (case producer q of
        P_loaded sz r \<Rightarrow> r \<le> capacity \<and> loaded_ok r q
      | P_ready sz \<Rightarrow> sz \<le> writeCapacity q
      | _ \<Rightarrow> True) \<and>
     (case consumer q of
        C_idle \<Rightarrow> True
      | C_loaded w \<Rightarrow> snap_ok w q
      | C_reading w c1 c2 \<Rightarrow> snap_ok w q \<and> reads (mReadIndex q) (mDataEnd q) w c1 c2)"

lemma ring_ok_start: "ring_ok capacity new_ring"
  by (simp add: ring_ok_def new_ring_def window_ok_def)

lemma maximize_ok:
  assumes "ring_ok capacity q" "producer q = P_loaded sz r"
  shows "ring_ok capacity ((maximizeWriteCapacity capacity r q)\<lparr>producer := P_reserve sz\<rparr>)"
    "mReadIndex (maximizeWriteCapacity capacity r q) = mReadIndex q"
    "mWriteIndex (maximizeWriteCapacity capacity r q) = mWriteIndex q"
    "unread (maximizeWriteCapacity capacity r q) = unread q"
proof -
  have ok: "mWriteIndex q \<le> capacity" "mReadIndex q \<le> capacity" "r \<le> capacity" "loaded_ok r q"
    "mWriteIndex q < mReadIndex q \<longrightarrow> mReadIndex q \<le> mDataEnd q \<and> mDataEnd q \<le> capacity"
    using assms by (simp_all add: ring_ok_def)
  show "mReadIndex (maximizeWriteCapacity capacity r q) = mReadIndex q"
    "mWriteIndex (maximizeWriteCapacity capacity r q) = mWriteIndex q"
    by (simp_all add: maximizeWriteCapacity_def Let_def)
  show "unread (maximizeWriteCapacity capacity r q) = unread q"
    using ok(4) by (auto simp: maximizeWriteCapacity_def Let_def unread_def loaded_ok_def split: if_splits)
  show "ring_ok capacity ((maximizeWriteCapacity capacity r q)\<lparr>producer := P_reserve sz\<rparr>)"
    using assms(1) ok
    by (auto simp: ring_ok_def maximizeWriteCapacity_def Let_def window_ok_def loaded_ok_def snap_ok_def
        split: consumer_at.splits if_splits intro: reads_end)
qed

lemma ring_step_ok:
  assumes "ring_step capacity q q'" "ring_ok capacity q"
  shows "ring_ok capacity q'"
  using assms
proof (cases rule: ring_step.cases)
  case (Reserve_load sz)
  then show ?thesis
    using assms(2) by (auto simp: ring_ok_def window_ok_def loaded_ok_def snap_ok_def split: consumer_at.split)
next
  case (Reserve_done sz r q1)
  have "ring_ok capacity (q1\<lparr>producer := P_reserve sz\<rparr>)"
    using maximize_ok(1) [OF assms(2) Reserve_done(2)] Reserve_done(3) by simp
  then show ?thesis
    unfolding Reserve_done(1)
    by (auto simp: ring_ok_def window_ok_def snap_ok_def writeCapacity_def split: consumer_at.split)
next
  case (Commit sz)
  have "mSnapWritePos q + sz \<le> mSnapWriteEnd q"
    using assms(2) Commit(2) by (auto simp: ring_ok_def writeCapacity_def window_ok_def)
  then show ?thesis
    using assms(2) unfolding Commit(1)
    by (auto simp: ring_ok_def window_ok_def snap_ok_def write_commit_def CommitAllocate_def
        split: consumer_at.splits if_splits)
next
  case Consume
  then show ?thesis
    using assms(2) by (auto simp: ring_ok_def window_ok_def loaded_ok_def snap_ok_def writeCapacity_def split: producer_at.split)
next
  case (Begin w c1 c2)
  then show ?thesis
    using assms(2)
    by (auto simp: ring_ok_def window_ok_def loaded_ok_def snap_ok_def writeCapacity_def beginRead_def chunk_bytes_def
        reads_def Let_def split: producer_at.split if_splits)
next
  case (End w c1 c2)
  then show ?thesis
    using assms(2)
    by (auto simp: ring_ok_def window_ok_def loaded_ok_def snap_ok_def writeCapacity_def endRead_def
        split: producer_at.splits if_splits)
qed (auto simp: ring_ok_def window_ok_def snap_ok_def writeCapacity_def split: consumer_at.split)

lemma ring_run_ok: "ring_run capacity q \<Longrightarrow> ring_ok capacity q"
  by (induction rule: ring_run.induct) (auto intro: ring_ok_start ring_step_ok)

section \<open>Properties\<close>

text \<open>C12: in every interleaving of the two threads the block the producer is about to take lies inside of the
  storage and shares no byte with what has been committed and not given back; the chunks the
  consumer reads are exactly such bytes.\<close>

theorem ring_block_free:
  assumes "ring_run capacity q"
  shows "(producer q = P_ready n \<longrightarrow> {mSnapWritePos q..<mSnapWritePos q + n} \<subseteq> {..<capacity} - unread q) \<and>
    (consumer q = C_reading w c1 c2 \<longrightarrow> chunk_bytes c1 \<union> chunk_bytes c2 \<subseteq> unread q) \<and> unread q \<subseteq> {..<capacity}"
proof -
  have ok: "ring_ok capacity q" by (rule ring_run_ok [OF assms])
  have "{mSnapWritePos q..<mSnapWritePos q + n} \<subseteq> {..<capacity} - unread q" if "producer q = P_ready n"
    using ok that by (auto simp: ring_ok_def window_ok_def writeCapacity_def unread_def)
  moreover have "chunk_bytes c1 \<union> chunk_bytes c2 \<subseteq> unread q" if "consumer q = C_reading w c1 c2"
  proof -
    have snap: "snap_ok w q" and ch: "chunk_bytes c1 \<union> chunk_bytes c2 =
        (if mReadIndex q \<le> w then {mReadIndex q..<w} else {mReadIndex q..<mDataEnd q} \<union> {..<w})"
      using ok that by (simp_all add: ring_ok_def reads_def)
    show ?thesis unfolding ch using snap by (auto simp: snap_ok_def unread_def split: if_splits)
  qed
  moreover have "unread q \<subseteq> {..<capacity}" using ok by (auto simp: ring_ok_def unread_def split: if_splits)
  ultimately show ?thesis by blast
qed

text \<open>C13: a commit adds the producer's block to the unread bytes, the end of a read removes exactly the chunks
  that were read, and no other step of either thread changes them.\<close>

theorem ring_unread_changes:
  assumes "ring_run capacity q" "ring_step capacity q q'"
  shows "(case (producer q, producer q') of
        (P_ready n, P_idle) \<Rightarrow> unread q' = unread q \<union> {mSnapWritePos q..<mSnapWritePos q + n}
      | _ \<Rightarrow> (case (consumer q, consumer q') of
          (C_reading w c1 c2, C_idle) \<Rightarrow> unread q' = unread q - (chunk_bytes c1 \<union> chunk_bytes c2)
        | _ \<Rightarrow> unread q' = unread q))"
proof -
  have ok: "ring_ok capacity q" by (rule ring_run_ok [OF assms(1)])
  from assms(2) show ?thesis
  proof (cases rule: ring_step.cases)
    case (Reserve_done n r q1)
    have "unread (q1\<lparr>producer := x\<rparr>) = unread q" for x
      using maximize_ok(4) [OF ok Reserve_done(2)] Reserve_done(3) by simp
    moreover have "consumer q1 = consumer q" using Reserve_done(3) by (simp add: maximizeWriteCapacity_def Let_def)
    ultimately show ?thesis using Reserve_done by (simp split: consumer_at.split)
  next
    case (Commit n)
    have "unread ((write_commit n q)\<lparr>producer := P_idle\<rparr>) = unread q \<union> {mSnapWritePos q..<mSnapWritePos q + n}"
      using ok Commit(2)
      by (auto simp: ring_ok_def window_ok_def writeCapacity_def unread_def write_commit_def CommitAllocate_def)
    then show ?thesis using Commit by simp
  next
    case (End w c1 c2)
    have snap: "snap_ok w q" and ch: "chunk_bytes c1 \<union> chunk_bytes c2 =
        (if mReadIndex q \<le> w then {mReadIndex q..<w} else {mReadIndex q..<mDataEnd q} \<union> {..<w})"
      using ok End(2) by (simp_all add: ring_ok_def reads_def)
    have un: "unread (endRead w q) = unread q - (chunk_bytes c1 \<union> chunk_bytes c2)"
      unfolding ch using snap ok by (auto simp: ring_ok_def snap_ok_def unread_def endRead_def split: if_splits)
    have "producer (endRead w q) = producer q" by (simp add: endRead_def)
    then show ?thesis unfolding End(1) using End(2) un by (cases "producer q") simp_all
  qed (auto split: producer_at.split consumer_at.split)
qed

lemma consumer_drains:
  assumes "ring_run capacity q"
  shows "\<exists>q'. (ring_step capacity)\<^sup>*\<^sup>* q q' \<and> producer q' = producer q \<and> mWriteIndex q' = mWriteIndex q \<and>
    mReadIndex q' = mWriteIndex q"
proof -
  have drain: "\<exists>q'. (ring_step capacity)\<^sup>*\<^sup>* q q' \<and> producer q' = producer q \<and> mWriteIndex q' = mWriteIndex q \<and>
      mReadIndex q' = mWriteIndex q \<and> consumer q' = C_idle" if "consumer q = C_idle" for q
  proof -
    let ?w = "mWriteIndex q"
    let ?q1 = "q\<lparr>consumer := C_loaded ?w\<rparr>"
    obtain c1 c2 where c: "beginRead ?w ?q1 = (c1, c2)" by (metis surj_pair)
    let ?q2 = "?q1\<lparr>consumer := C_reading ?w c1 c2\<rparr>"
    let ?q3 = "(endRead ?w ?q2)\<lparr>consumer := C_idle\<rparr>"
    have "ring_step capacity q ?q1" using that by (rule Consume)
    moreover have "ring_step capacity ?q1 ?q2" using c by (intro Begin) simp_all
    moreover have "ring_step capacity ?q2 ?q3" by (rule End) simp
    ultimately have "(ring_step capacity)\<^sup>*\<^sup>* q ?q3" by (meson converse_rtranclp_into_rtranclp rtranclp.rtrancl_refl)
    moreover have "producer ?q3 = producer q \<and> mWriteIndex ?q3 = mWriteIndex q \<and> mReadIndex ?q3 = mWriteIndex q \<and>
        consumer ?q3 = C_idle" by (simp add: endRead_def)
    ultimately show ?thesis by blast
  qed
  have "\<exists>q1. (ring_step capacity)\<^sup>*\<^sup>* q q1 \<and> consumer q1 = C_idle \<and> producer q1 = producer q \<and>
      mWriteIndex q1 = mWriteIndex q"
  proof (cases "consumer q")
    case C_idle
    then show ?thesis by blast
  next
    case (C_loaded w)
    obtain c1 c2 where c: "beginRead w q = (c1, c2)" by (metis surj_pair)
    let ?q1 = "q\<lparr>consumer := C_reading w c1 c2\<rparr>"
    have "ring_step capacity q ?q1" using C_loaded c by (rule Begin)
    moreover have "ring_step capacity ?q1 ((endRead w ?q1)\<lparr>consumer := C_idle\<rparr>)" by (rule End) simp
    ultimately have "(ring_step capacity)\<^sup>*\<^sup>* q ((endRead w ?q1)\<lparr>consumer := C_idle\<rparr>)"
      by (meson converse_rtranclp_into_rtranclp rtranclp.rtrancl_refl)
    then show ?thesis by (intro exI conjI) (assumption, simp_all add: endRead_def)
  next
    case (C_reading w c1 c2)
    have "ring_step capacity q ((endRead w q)\<lparr>consumer := C_idle\<rparr>)" using C_reading by (rule End)
    then show ?thesis by (intro exI [of _ "(endRead w q)\<lparr>consumer := C_idle\<rparr>"]) (auto simp: endRead_def)
  qed
  then show ?thesis using drain by (metis rtranclp_trans)
qed

lemma drained_fits:
  assumes "ring_ok capacity q" "mReadIndex q = mWriteIndex q" "2 * n < capacity"
  shows "n \<le> writeCapacity (maximizeWriteCapacity capacity (mReadIndex q) q)"
  using assms by (auto simp: ring_ok_def maximizeWriteCapacity_def Let_def writeCapacity_def)

text \<open>C37: the producer is never stuck for a block of less than half the capacity: from every state of every
  run in which it is reserving such a block, the consumer can take what is there and the producer
  then gets the block.\<close>

theorem ring_reserve_possible:
  assumes "ring_run capacity q" "producer q = P_reserve n \<or> (\<exists>r. producer q = P_loaded n r)" "2 * n < capacity"
  shows "\<exists>q'. (ring_step capacity)\<^sup>*\<^sup>* q q' \<and> producer q' = P_ready n"
proof -
  have reserve: "\<exists>q'. (ring_step capacity)\<^sup>*\<^sup>* q q' \<and> producer q' = P_ready n"
    if run: "ring_run capacity q" and at: "producer q = P_reserve n" for q
  proof -
    obtain q1 where q1: "(ring_step capacity)\<^sup>*\<^sup>* q q1" "producer q1 = P_reserve n" "mReadIndex q1 = mWriteIndex q1"
      using consumer_drains [OF run] at by auto
    have ok: "ring_ok capacity q1"
      using q1(1) ring_run_ok [OF run] by (induction rule: rtranclp_induct) (auto intro: ring_step_ok)
    show ?thesis
    proof (cases "n \<le> writeCapacity q1")
      case True
      have "ring_step capacity q1 (q1\<lparr>producer := P_ready n\<rparr>)" using q1(2) True by (rule Reserve_fits)
      then show ?thesis using q1(1) by (intro exI [of _ "q1\<lparr>producer := P_ready n\<rparr>"]) auto
    next
      case False
      let ?q2 = "q1\<lparr>producer := P_loaded n (mReadIndex q1)\<rparr>"
      let ?q3 = "maximizeWriteCapacity capacity (mReadIndex q1) ?q2"
      have s2: "ring_step capacity q1 ?q2" using q1(2) False by (rule Reserve_load)
      have "n \<le> writeCapacity ?q3"
        using drained_fits [OF ring_step_ok [OF s2 ok] _ assms(3)] q1(3) by simp
      then have "ring_step capacity ?q2 (?q3\<lparr>producer := P_ready n\<rparr>)"
        using Reserve_done [of ?q2 n "mReadIndex q1" ?q3 capacity] by simp
      then have "(ring_step capacity)\<^sup>*\<^sup>* q (?q3\<lparr>producer := P_ready n\<rparr>)"
        using q1(1) s2 by (meson rtranclp.rtrancl_into_rtrancl)
      then show ?thesis by (intro exI conjI) (assumption, simp)
    qed
  qed
  show ?thesis
    using assms(2)
  proof
    assume "producer q = P_reserve n"
    then show ?thesis by (rule reserve [OF assms(1)])
  next
    assume "\<exists>r. producer q = P_loaded n r"
    then obtain r where r: "producer q = P_loaded n r" by blast
    let ?q1 = "maximizeWriteCapacity capacity r q"
    let ?p = "if n \<le> writeCapacity ?q1 then P_ready n else P_reserve n"
    have s: "ring_step capacity q (?q1\<lparr>producer := ?p\<rparr>)" using r by (rule Reserve_done) simp
    show ?thesis
    proof (cases "n \<le> writeCapacity ?q1")
      case True
      then show ?thesis using s by (intro exI [of _ "?q1\<lparr>producer := ?p\<rparr>"]) auto
    next
      case False
      then have "producer (?q1\<lparr>producer := ?p\<rparr>) = P_reserve n" by simp
      from reserve [OF ring_run.intros(2) [OF assms(1) s] this] s show ?thesis
        by (meson converse_rtranclp_into_rtranclp)
    qed
  qed
qed

lemma spinning_step:
  assumes "ring_step capacity q q'"
    and "producer q = P_reserve n \<or> producer q = P_loaded n w" "mReadIndex q = w" "mWriteIndex q = w"
    and "writeCapacity q < n" "capacity < w + n" "w \<le> n" "w \<le> capacity"
    and "case consumer q of C_idle \<Rightarrow> True | C_loaded x \<Rightarrow> x = w | C_reading x _ _ \<Rightarrow> x = w"
  shows "(producer q' = P_reserve n \<or> producer q' = P_loaded n w) \<and> mReadIndex q' = w \<and> mWriteIndex q' = w \<and>
    writeCapacity q' < n \<and> (case consumer q' of C_idle \<Rightarrow> True | C_loaded x \<Rightarrow> x = w | C_reading x _ _ \<Rightarrow> x = w)"
  using assms
  by (cases rule: ring_step.cases)
    (auto simp: writeCapacity_def maximizeWriteCapacity_def endRead_def Let_def split: consumer_at.splits)

text \<open>A larger block may never be had: when the queue is empty at an index from which the block fits
  neither to the end of the storage nor from its start, the producer spins forever whatever the
  consumer does, although the whole storage is free.\<close>

theorem ring_acquire_spins:
  assumes "producer q = P_reserve n" "mReadIndex q = mWriteIndex q" "consumer q = C_idle"
    and "writeCapacity q < n" "capacity < mWriteIndex q + n" "mWriteIndex q \<le> n" "mWriteIndex q \<le> capacity"
    and "(ring_step capacity)\<^sup>*\<^sup>* q q'"
  shows "producer q' = P_reserve n \<or> producer q' = P_loaded n (mWriteIndex q)"
proof -
  let ?w = "mWriteIndex q"
  have "(producer q' = P_reserve n \<or> producer q' = P_loaded n ?w) \<and> mReadIndex q' = ?w \<and> mWriteIndex q' = ?w \<and>
    writeCapacity q' < n \<and> (case consumer q' of C_idle \<Rightarrow> True | C_loaded x \<Rightarrow> x = ?w | C_reading x _ _ \<Rightarrow> x = ?w)"
    using assms(8)
  proof (induction rule: rtranclp_induct)
    case base
    then show ?case using assms(1-4) by simp
  next
    case (step q1 q2)
    then show ?case using spinning_step [OF step(2)] assms(5-7) by blast
  qed
  then show ?thesis by blast
qed

section \<open>Witnesses\<close>

text \<open>A producer that has reserved three of ten bytes, and the ring after the block was committed and read.\<close>

lemma ring_example:
  "ring_run 10 (new_ring\<lparr>mSnapWriteEnd := 10, producer := P_ready 3\<rparr>)"
  "ring_run 10 (new_ring\<lparr>producer := P_reserve 3\<rparr>)"
proof -
  have 1: "ring_run 10 (new_ring\<lparr>producer := P_reserve 3\<rparr>)"
    by (rule ring_run.intros(2) [OF ring_run.intros(1)], rule Acquire) (simp add: new_ring_def)
  then show "ring_run 10 (new_ring\<lparr>producer := P_reserve 3\<rparr>)" .
  have 2: "ring_run 10 (new_ring\<lparr>producer := P_loaded 3 0\<rparr>)"
    using ring_run.intros(2) [OF 1 Reserve_load [of _ 3]] by (simp add: new_ring_def writeCapacity_def)
  show "ring_run 10 (new_ring\<lparr>mSnapWriteEnd := 10, producer := P_ready 3\<rparr>)"
    using ring_run.intros(2) [OF 2 Reserve_done [of _ 3 0 _ 10, OF _ refl]]
    by (simp add: new_ring_def writeCapacity_def maximizeWriteCapacity_def)
qed

theorem ring_block_free_witness:
  "{0..<3} \<subseteq> {..<10} - unread (new_ring\<lparr>mSnapWriteEnd := 10, producer := P_ready 3\<rparr>)"
  using ring_block_free [OF ring_example(1), of 3 0 "(0, 0)" "(0, 0)"] by (simp add: new_ring_def)

theorem ring_unread_changes_witness:
  "unread ((write_commit 3 (new_ring\<lparr>mSnapWriteEnd := 10, producer := P_ready 3\<rparr>))\<lparr>producer := P_idle\<rparr>) =
    unread (new_ring\<lparr>mSnapWriteEnd := 10, producer := P_ready 3\<rparr>) \<union> {0..<3}"
  using ring_unread_changes [OF ring_example(1) Commit, of 3] by (simp add: new_ring_def)

theorem ring_reserve_possible_witness:
  "\<exists>q'. (ring_step 10)\<^sup>*\<^sup>* (new_ring\<lparr>producer := P_reserve 3\<rparr>) q' \<and> producer q' = P_ready 3"
  by (rule ring_reserve_possible [OF ring_example(2)]) simp_all

theorem ring_acquire_spins_witness:
  "producer ((new_ring\<lparr>mWriteIndex := 5, mReadIndex := 5, mSnapWritePos := 5, mSnapWriteEnd := 10,
      producer := P_loaded 6 5\<rparr>)) = P_reserve 6 \<or>
    producer ((new_ring\<lparr>mWriteIndex := 5, mReadIndex := 5, mSnapWritePos := 5, mSnapWriteEnd := 10,
      producer := P_loaded 6 5\<rparr>)) = P_loaded 6 5"
proof -
  let ?q = "new_ring\<lparr>mWriteIndex := 5, mReadIndex := 5, mSnapWritePos := 5, mSnapWriteEnd := 10, producer := P_reserve 6\<rparr>"
  have "ring_step 10 ?q (?q\<lparr>producer := P_loaded 6 (mReadIndex ?q)\<rparr>)"
    by (rule Reserve_load) (simp_all add: writeCapacity_def)
  then have "(ring_step 10)\<^sup>*\<^sup>* ?q (new_ring\<lparr>mWriteIndex := 5, mReadIndex := 5, mSnapWritePos := 5,
      mSnapWriteEnd := 10, producer := P_loaded 6 5\<rparr>)" by simp
  from ring_acquire_spins [OF _ _ _ _ _ _ _ this, of 6] show ?thesis
    by (simp add: writeCapacity_def new_ring_def)
qed

end
