(* ===== verification/Order_Book.thy ===== *)
theory Order_Book
  imports Kernel_Prelude
begin

text \<open>
  The matching engine of PrestoLabs/src: orders, groups of orders of one price, the books of the two
  sides and the rule of continuous trading (Order.hpp, Account.hpp, Report.hpp, Book.hpp and
  \<open>ProcessNormalOrders\<close> of Rules.hpp). The functional specification is a fill of the orders in
  price and time priority.
\<close>

section \<open>Orders, accounts and reports\<close>

datatype side = BUY | SELL

text \<open>\<open>price_t\<close>, \<open>quantity_t\<close> and \<open>sequence_t\<close> are \<open>unsigned int\<close>. The remaining quantity and the inverted
  sequence number share a \<open>union\<close> with the 64 bit key orders are sorted by; on the little-endian
  machine the sequence number is the upper half. A build without \<open>NORMAL_RULE_APPLY\<close> sorts by the
  remaining quantity.\<close>

record order =
  o_ID :: string
  o_Party :: string
  o_Price :: int
  o_Qty :: int
  o_Sequence :: int
  o_Side :: side
  o_LeavesQty :: int
  o_NormSequence :: int

text \<open>The constructor, from the fields of a line as they have been converted from text.\<close>

definition OrderEntry :: "string \<Rightarrow> string \<Rightarrow> int \<Rightarrow> int \<Rightarrow> int \<Rightarrow> string \<Rightarrow> order" where
  "OrderEntry ident party price qty sequence side =
     \<lparr>o_ID = ident, o_Party = party, o_Price = u32 price, o_Qty = u32 qty, o_Sequence = u32 sequence,
      o_Side = (if side = ''BUY'' then BUY else SELL), o_LeavesQty = u32 qty,
      o_NormSequence = u32 (- 1 - u32 sequence)\<rparr>"

definition order_empty :: "order \<Rightarrow> bool" where
  "order_empty order \<longleftrightarrow> o_LeavesQty order = 0"

definition crossQty :: "int \<Rightarrow> order \<Rightarrow> order" where
  "crossQty qty order = order\<lparr>o_LeavesQty := u32 (o_LeavesQty order - qty)\<rparr>"

definition order_key :: "bool \<Rightarrow> order \<Rightarrow> int" where
  "order_key normal order =
     (if normal then o_NormSequence order * 4294967296 + o_LeavesQty order else o_LeavesQty order)"

text \<open>The volumes are sums of \<open>qty*price/1000.0\<close>, whose product is a 32 bit one; they are kept in
  thousandths here, without the rounding of \<open>double\<close>.\<close>

record account =
  longQty :: int
  longVolume :: int
  shortQty :: int
  shortVolume :: int

definition new_account :: account where
  "new_account = \<lparr>longQty = 0, longVolume = 0, shortQty = 0, shortVolume = 0\<rparr>"

fun account_update :: "side \<Rightarrow> int \<Rightarrow> int \<Rightarrow> account \<Rightarrow> account" where
  "account_update BUY qty price a =
     a\<lparr>longQty := u64 (longQty a + qty), longVolume := longVolume a + u32 (qty * price)\<rparr>"
| "account_update SELL qty price a =
     a\<lparr>shortQty := u64 (shortQty a + qty), shortVolume := shortVolume a + u32 (qty * price)\<rparr>"

type_synonym accounts = "string \<Rightarrow> account option"

text \<open>\<open>Accounts[party].update\<close>: the map makes an account that is not there.\<close>

definition update_party :: "string \<Rightarrow> side \<Rightarrow> int \<Rightarrow> int \<Rightarrow> accounts \<Rightarrow> accounts" where
  "update_party party side qty price as =
     as(party \<mapsto> account_update side qty price (case as party of None \<Rightarrow> new_account | Some a \<Rightarrow> a))"

text \<open>\<open>Account::disp\<close> prints the net position.\<close>

definition account_disp :: "account \<Rightarrow> side \<times> int" where
  "account_disp a =
     (if longQty a > shortQty a then (BUY, u64 (longQty a - shortQty a)) else (SELL, u64 (shortQty a - longQty a)))"

record report =
  ID1 :: string
  ID2 :: string
  mCrossQty :: int
  mCrossPrice :: int

record ledger =
  reports :: "report list"
  accounts :: accounts

definition addReport :: "order \<Rightarrow> order \<Rightarrow> int \<Rightarrow> int \<Rightarrow> ledger \<Rightarrow> ledger" where
  "addReport order1 order2 qty price l =
     l\<lparr>reports := reports l @ [\<lparr>ID1 = o_ID order1, ID2 = o_ID order2, mCrossQty = qty, mCrossPrice = price\<rparr>]\<rparr>"

fun other_side :: "side \<Rightarrow> side" where
  "other_side BUY = SELL"
| "other_side SELL = BUY"

text \<open>\<open>OrderEntry::match<side>\<close> of a resting order with an incoming one: both lose the smaller quantity, at
  the resting order's price.\<close>

definition order_match :: "side \<Rightarrow> order \<Rightarrow> order \<Rightarrow> ledger \<Rightarrow> int \<times> order \<times> order \<times> ledger" where
  "order_match side resting incoming l =
     (let qty = min (o_LeavesQty incoming) (o_LeavesQty resting);
          incoming = crossQty qty incoming;
          resting = crossQty qty resting;
          l = addReport incoming resting qty (o_Price resting) l;
          l = l\<lparr>accounts := update_party (o_Party resting) side qty (o_Price resting) (accounts l)\<rparr>;
          l = l\<lparr>accounts := update_party (o_Party incoming) (other_side side) qty (o_Price resting) (accounts l)\<rparr>
      in (qty, resting, incoming, l))"

section \<open>Groups\<close>

record group =
  mOrders :: "order list"
  mTotalQty :: int
  mLeavesQty :: int

definition new_group :: group where
  "new_group = \<lparr>mOrders = [], mTotalQty = 0, mLeavesQty = 0\<rparr>"

definition group_addOrder :: "order \<Rightarrow> group \<Rightarrow> group" where
  "group_addOrder order g =
     g\<lparr>mOrders := mOrders g @ [order], mTotalQty := u64 (mTotalQty g + o_Qty order),
       mLeavesQty := u64 (mLeavesQty g + o_LeavesQty order)\<rparr>"

text \<open>By descending key. Keys are distinct when sequence numbers are; \<open>std::sort\<close> leaves the order of equal
  keys open, here they stay in the order of arrival.\<close>

definition sort_orders :: "bool \<Rightarrow> order list \<Rightarrow> order list" where
  "sort_orders normal os = sort_key (\<lambda>order. - order_key normal order) os"

text \<open>The loop of \<open>OrderGroup::match\<close>. The result says whether the incoming order is filled.\<close>

fun match_orders ::
    "side \<Rightarrow> order list \<Rightarrow> order \<Rightarrow> int \<Rightarrow> ledger \<Rightarrow> bool \<times> order list \<times> order \<times> int \<times> ledger" where
  "match_orders side [] incoming leaves l = (False, [], incoming, leaves, l)"
| "match_orders side (r # rs) incoming leaves l =
     (case order_match side r incoming l of
        (qty, r, incoming, l) \<Rightarrow>
          let leaves = u64 (leaves - qty); kept = (if order_empty r then [] else [r]) in
          if order_empty incoming then (True, kept @ rs, incoming, leaves, l)
          else (case match_orders side rs incoming leaves l of
                  (full, rs, incoming, leaves, l) \<Rightarrow> (full, kept @ rs, incoming, leaves, l)))"

definition group_match :: "bool \<Rightarrow> side \<Rightarrow> order \<Rightarrow> group \<Rightarrow> ledger \<Rightarrow> bool \<times> group \<times> order \<times> ledger" where
  "group_match normal side incoming g l =
     (case match_orders side (sort_orders normal (mOrders g)) incoming (mLeavesQty g) l of
        (full, os, incoming, leaves, l) \<Rightarrow> (full, g\<lparr>mOrders := os, mLeavesQty := leaves\<rparr>, incoming, l))"

definition group_empty :: "group \<Rightarrow> bool" where
  "group_empty g \<longleftrightarrow> mLeavesQty g = 0"

section \<open>Books\<close>

text \<open>The map from prices to groups, in the order of its keys: the best price first. \<open>better\<close> is the
  comparison of the map.\<close>

type_synonym book = "(int \<times> group) list"

fun better :: "side \<Rightarrow> int \<Rightarrow> int \<Rightarrow> bool" where
  "better BUY p q \<longleftrightarrow> p > q"
| "better SELL p q \<longleftrightarrow> p < q"

fun book_addOrder :: "side \<Rightarrow> int \<Rightarrow> order \<Rightarrow> book \<Rightarrow> book" where
  "book_addOrder side price order [] = [(price, group_addOrder order new_group)]"
| "book_addOrder side price order ((p, g) # b) =
     (if better side price p then (price, group_addOrder order new_group) # (p, g) # b
      else if better side p price then (p, g) # book_addOrder side price order b
      else (p, group_addOrder order g) # b)"

text \<open>The loop of \<open>Book::match\<close>. After a group the iterator stands at the next one or at the end; unless the
  order is filled the price at the iterator is read, which behind the last group is undefined
  behaviour. The loop condition is never reached at the end.\<close>

fun sweep :: "bool \<Rightarrow> side \<Rightarrow> order \<Rightarrow> book \<Rightarrow> ledger \<Rightarrow> (bool \<times> book \<times> order \<times> ledger) outcome" where
  "sweep normal side incoming [] l = Done (True, [], incoming, l)"
| "sweep normal side incoming ((p, g) # b) l =
     (case group_match normal side incoming g l of
        (full, g, incoming, l) \<Rightarrow>
          let kept = (if group_empty g then [] else [(p, g)]) in
          if full then Done (True, kept @ b, incoming, l)
          else (case b of
              [] \<Rightarrow> Crash Out_of_bounds
            | (p', _) # _ \<Rightarrow>
                if better side (o_Price incoming) p' then Done (False, kept @ b, incoming, l)
                else and_then (sweep normal side incoming b l) (\<lambda>(full, b, incoming, l).
                  Done (full, kept @ b, incoming, l))))"

definition book_match ::
    "bool \<Rightarrow> side \<Rightarrow> order \<Rightarrow> book \<Rightarrow> ledger \<Rightarrow> (bool \<times> book \<times> order \<times> ledger) outcome" where
  "book_match normal side incoming b l =
     (case b of
        [] \<Rightarrow> Done (False, b, incoming, l)
      | (p, _) # _ \<Rightarrow>
          if better side (o_Price incoming) p then Done (False, b, incoming, l)
          else sweep normal side incoming b l)"

section \<open>Continuous trading\<close>

record market =
  BookBuy :: book
  BookSell :: book
  ledger :: ledger

text \<open>The body of the loop of \<open>ProcessNormalOrders\<close>, for a parsed line.\<close>

definition process_order :: "order \<Rightarrow> market \<Rightarrow> market outcome" where
  "process_order incoming m =
     (if order_empty incoming then Done m
      else if o_Side incoming = BUY
      then and_then (book_match True SELL incoming (BookSell m) (ledger m)) (\<lambda>(full, b, incoming, l).
        let m = m\<lparr>BookSell := b, ledger := l\<rparr> in
        if full then Done m
        else Done (m\<lparr>BookBuy := book_addOrder BUY (o_Price incoming) incoming (BookBuy m)\<rparr>))
      else and_then (book_match True BUY incoming (BookBuy m) (ledger m)) (\<lambda>(full, b, incoming, l).
        let m = m\<lparr>BookBuy := b, ledger := l\<rparr> in
        if full then Done m
        else Done (m\<lparr>BookSell := book_addOrder SELL (o_Price incoming) incoming (BookSell m)\<rparr>)))"

fun process_orders :: "order list \<Rightarrow> market \<Rightarrow> market outcome" where
  "process_orders [] m = Done m"
| "process_orders (x # xs) m = and_then (process_order x m) (process_orders xs)"

definition new_market :: market where
  "new_market = \<lparr>BookBuy = [], BookSell = [], ledger = \<lparr>reports = [], accounts = Map.empty\<rparr>\<rparr>"

section \<open>The reference\<close>

text \<open>A fill of the quantity \<open>q\<close> from a list of orders: what is left of it and of the orders, and the trades.\<close>

fun fill :: "int \<Rightarrow> order list \<Rightarrow> int \<times> order list" where
  "fill q [] = (q, [])"
| "fill q (x # xs) =
     (if q = 0 then (0, x # xs)
      else if o_LeavesQty x \<le> q then fill (q - o_LeavesQty x) xs
      else (0, x\<lparr>o_LeavesQty := o_LeavesQty x - q\<rparr> # xs))"

fun trades :: "int \<Rightarrow> order list \<Rightarrow> (order \<times> int) list" where
  "trades q [] = []"
| "trades q (x # xs) =
     (if q = 0 then [] else (x, min q (o_LeavesQty x)) # trades (q - min q (o_LeavesQty x)) xs)"

text \<open>What a trade of an incoming order with a resting one on \<open>side\<close> leaves in the ledger.\<close>

definition settle :: "side \<Rightarrow> order \<Rightarrow> order \<times> int \<Rightarrow> ledger \<Rightarrow> ledger" where
  "settle side incoming t l =
     (let qty = snd t; price = o_Price (fst t) in
      \<lparr>reports = reports l @ [\<lparr>ID1 = o_ID incoming, ID2 = o_ID (fst t), mCrossQty = qty, mCrossPrice = price\<rparr>],
       accounts = update_party (o_Party incoming) (other_side side) qty price
         (update_party (o_Party (fst t)) side qty price (accounts l))\<rparr>)"

definition leaves_sum :: "order list \<Rightarrow> int" where
  "leaves_sum xs = sum_list (map o_LeavesQty xs)"

text \<open>Time priority: earlier sequence numbers first.\<close>

definition by_time :: "order list \<Rightarrow> bool" where
  "by_time xs \<longleftrightarrow> sorted_wrt (\<lambda>x y. o_NormSequence x > o_NormSequence y) xs"

definition order_ok :: "order \<Rightarrow> bool" where
  "order_ok x \<longleftrightarrow> 0 < o_LeavesQty x \<and> o_LeavesQty x < 4294967296"

definition group_ok :: "int \<Rightarrow> group \<Rightarrow> bool" where
  "group_ok p g \<longleftrightarrow> mOrders g \<noteq> [] \<and> list_all order_ok (mOrders g) \<and> distinct (map o_NormSequence (mOrders g)) \<and>
     mLeavesQty g = leaves_sum (mOrders g) \<and> leaves_sum (mOrders g) < 18446744073709551616 \<and>
     list_all (\<lambda>x. o_Price x = p) (mOrders g)"

definition book_ok :: "side \<Rightarrow> book \<Rightarrow> bool" where
  "book_ok side b \<longleftrightarrow> sorted_wrt (\<lambda>x y. better side (fst x) (fst y)) b \<and> list_all (\<lambda>(p, g). group_ok p g) b"

text \<open>The orders of a book in priority order.\<close>

definition priority :: "book \<Rightarrow> order list" where
  "priority b = concat (map (\<lambda>x. sort_orders True (mOrders (snd x))) b)"

lemma leaves_sum_simps [simp]:
  "leaves_sum [] = 0" "leaves_sum (x # xs) = o_LeavesQty x + leaves_sum xs"
  "leaves_sum (xs @ ys) = leaves_sum xs + leaves_sum ys"
  by (simp_all add: leaves_sum_def)

lemma leaves_sum_nonneg: "list_all order_ok xs \<Longrightarrow> 0 \<le> leaves_sum xs"
  by (induction xs) (auto simp: order_ok_def)

lemma leaves_sum_pos: "list_all order_ok xs \<Longrightarrow> xs \<noteq> [] \<Longrightarrow> 0 < leaves_sum xs"
  by (cases xs) (auto simp: order_ok_def dest: leaves_sum_nonneg)

lemma leaves_sum_sort [simp]: "leaves_sum (sort_orders b xs) = leaves_sum xs"
proof -
  have "mset (map o_LeavesQty (sort_orders b xs)) = mset (map o_LeavesQty xs)" by (simp add: sort_orders_def)
  then show ?thesis unfolding leaves_sum_def by (metis sum_mset_sum_list)
qed

lemma fill_0 [simp]: "fill 0 xs = (0, xs)"
  by (cases xs) auto

lemma trades_0 [simp]: "trades 0 xs = []"
  by (cases xs) auto

lemma fill_append:
  assumes "fill q xs = (q1, xs1)"
  shows "fill q (xs @ ys) = (if q1 = 0 then (0, xs1 @ ys) else fill q1 ys)"
    and "q1 \<noteq> 0 \<Longrightarrow> xs1 = []"
    and "trades q (xs @ ys) = trades q xs @ trades q1 ys"
  using assms by (induction q xs rule: fill.induct) (auto split: if_splits simp: min_def)

lemma fill_ok:
  assumes "list_all order_ok xs" "0 \<le> q" "fill q xs = (q1, xs1)"
  shows "0 \<le> q1" "q1 \<le> q" "list_all order_ok xs1" "leaves_sum xs = leaves_sum xs1 + (q - q1)"
    "\<exists>n. map o_NormSequence xs1 = drop n (map o_NormSequence xs) \<and> map o_Price xs1 = drop n (map o_Price xs)"
proof -
  have "0 \<le> q1 \<and> q1 \<le> q \<and> list_all order_ok xs1 \<and> leaves_sum xs = leaves_sum xs1 + (q - q1) \<and>
    (\<exists>n. map o_NormSequence xs1 = drop n (map o_NormSequence xs) \<and> map o_Price xs1 = drop n (map o_Price xs))"
    using assms
  proof (induction q xs rule: fill.induct)
    case (1 q)
    then show ?case by auto
  next
    case (2 q x xs)
    consider "q = 0" | "q \<noteq> 0" "o_LeavesQty x \<le> q" | "q \<noteq> 0" "q < o_LeavesQty x" by linarith
    then show ?case
    proof cases
      case 1
      then show ?thesis using 2 by (auto intro: exI [of _ 0])
    next
      case c: 2
      then have "0 \<le> q1 \<and> q1 \<le> q - o_LeavesQty x \<and> list_all order_ok xs1 \<and>
          leaves_sum xs = leaves_sum xs1 + (q - o_LeavesQty x - q1) \<and>
          (\<exists>n. map o_NormSequence xs1 = drop n (map o_NormSequence xs) \<and> map o_Price xs1 = drop n (map o_Price xs))"
        using "2.IH" "2.prems" by auto
      then obtain n where n: "map o_NormSequence xs1 = drop n (map o_NormSequence xs)"
          "map o_Price xs1 = drop n (map o_Price xs)"
        and r: "0 \<le> q1" "q1 \<le> q - o_LeavesQty x" "list_all order_ok xs1"
          "leaves_sum xs = leaves_sum xs1 + (q - o_LeavesQty x - q1)" by blast
      have "0 < o_LeavesQty x" using "2.prems"(1) by (simp add: order_ok_def)
      then show ?thesis using n r by (auto intro: exI [of _ "Suc n"])
    next
      case 3
      then show ?thesis using 2 by (auto simp: order_ok_def intro!: exI [of _ 0])
    qed
  qed
  then show "0 \<le> q1" "q1 \<le> q" "list_all order_ok xs1" "leaves_sum xs = leaves_sum xs1 + (q - q1)"
    "\<exists>n. map o_NormSequence xs1 = drop n (map o_NormSequence xs) \<and> map o_Price xs1 = drop n (map o_Price xs)"
    by blast+
qed

lemma by_time_map: "by_time xs \<longleftrightarrow> sorted_wrt (>) (map o_NormSequence xs)"
  by (simp add: by_time_def sorted_wrt_map)

lemma key_time:
  assumes "order_ok x" "order_ok y"
  shows "o_NormSequence x > o_NormSequence y \<Longrightarrow> order_key True x > order_key True y"
    "order_key True x \<ge> order_key True y \<Longrightarrow> o_NormSequence x \<ge> o_NormSequence y"
  using assms by (auto simp: order_key_def order_ok_def)

lemma sorted_by_time:
  "sorted (map (\<lambda>x. - order_key True x) ys) \<Longrightarrow> list_all order_ok ys \<Longrightarrow> distinct (map o_NormSequence ys) \<Longrightarrow> by_time ys"
proof (induction ys)
  case Nil
  then show ?case by (simp add: by_time_def)
next
  case (Cons y ys)
  have "o_NormSequence y > o_NormSequence z" if "z \<in> set ys" for z
  proof -
    have "order_key True y \<ge> order_key True z" "order_ok y" "order_ok z" using Cons.prems that by (auto simp: list_all_iff)
    then have "o_NormSequence y \<ge> o_NormSequence z" using key_time(2) by blast
    moreover have "o_NormSequence y \<noteq> o_NormSequence z" using Cons.prems(3) that by (auto simp: image_iff)
    ultimately show ?thesis by simp
  qed
  then show ?case using Cons by (simp add: by_time_def)
qed

lemma sort_set [simp]: "set (sort_orders b xs) = set xs" "length (sort_orders b xs) = length xs"
  by (simp_all add: sort_orders_def)

lemma sort_by_time:
  assumes "list_all order_ok xs" "distinct (map o_NormSequence xs)"
  shows "by_time (sort_orders True xs)" "list_all order_ok (sort_orders True xs)"
proof -
  show ok: "list_all order_ok (sort_orders True xs)" using assms(1) by (simp add: list_all_iff)
  have "mset (map o_NormSequence (sort_orders True xs)) = mset (map o_NormSequence xs)" by (simp add: sort_orders_def)
  then have "distinct (map o_NormSequence (sort_orders True xs))" using assms(2) mset_eq_imp_distinct_iff by blast
  then show "by_time (sort_orders True xs)"
    using ok by (intro sorted_by_time) (simp_all add: sort_orders_def)
qed

lemma sort_time_id: "by_time xs \<Longrightarrow> list_all order_ok xs \<Longrightarrow> sort_orders True xs = xs"
proof -
  assume "by_time xs" "list_all order_ok xs"
  then have "sorted (map (\<lambda>x. - order_key True x) xs)"
  proof (induction xs)
    case (Cons x xs)
    then show ?case using key_time(1) by (fastforce simp: by_time_def list_all_iff)
  qed simp
  then show ?thesis by (simp add: sort_orders_def sort_key_id_if_sorted)
qed

lemma by_time_distinct: "by_time xs \<Longrightarrow> distinct (map o_NormSequence xs)"
  unfolding by_time_map by (metis distinct_rev sorted_wrt_rev strict_sorted_iff sorted_wrt_mono_rel)

text \<open>The trades do not change what the ledger is told about the incoming order.\<close>

lemma settle_incoming [simp]: "settle side (incoming\<lparr>o_LeavesQty := q\<rparr>) t l = settle side incoming t l"
  by (simp add: settle_def)

lemma order_match_settle:
  assumes "order_ok r" "order_ok incoming"
  shows "order_match side r incoming l =
    (let q = min (o_LeavesQty incoming) (o_LeavesQty r) in
     (q, r\<lparr>o_LeavesQty := o_LeavesQty r - q\<rparr>, incoming\<lparr>o_LeavesQty := o_LeavesQty incoming - q\<rparr>,
      settle side incoming (r, q) l))"
  using assms by (auto simp: order_match_def Let_def crossQty_def settle_def addReport_def u32_id order_ok_def min_def)

lemma match_orders_fill:
  assumes "list_all order_ok xs" "order_ok incoming" "leaves_sum xs < 18446744073709551616"
    and "fill (o_LeavesQty incoming) xs = (q1, xs1)"
  shows "match_orders side xs incoming (leaves_sum xs) l =
    (q1 = 0, xs1, incoming\<lparr>o_LeavesQty := q1\<rparr>, leaves_sum xs1, fold (settle side incoming) (trades (o_LeavesQty incoming) xs) l)"
  using assms
proof (induction xs arbitrary: incoming l)
  case Nil
  then show ?case by (auto simp: order_ok_def)
next
  case (Cons x xs)
  let ?q = "o_LeavesQty incoming" and ?x = "o_LeavesQty x"
  have "order_ok x" "list_all order_ok xs" using Cons.prems(1) by simp_all
  then have ok: "order_ok x" "list_all order_ok xs" "0 < ?q" "?q < 4294967296" "0 < ?x"
    using Cons.prems(2) by (simp_all add: order_ok_def [of incoming] order_ok_def [of x])
  then have "0 \<le> leaves_sum xs" by (intro leaves_sum_nonneg)
  have m: "order_match side x incoming l =
    (min ?q ?x, x\<lparr>o_LeavesQty := ?x - min ?q ?x\<rparr>, incoming\<lparr>o_LeavesQty := ?q - min ?q ?x\<rparr>, settle side incoming (x, min ?q ?x) l)"
    using order_match_settle [OF ok(1) Cons.prems(2)] by (simp add: Let_def)
  have u: "u64 (?x + leaves_sum xs - min ?q ?x) = ?x + leaves_sum xs - min ?q ?x"
    using ok Cons.prems(3) \<open>0 \<le> leaves_sum xs\<close> by (intro u64_id) (auto simp: min_def)
  consider "?q < ?x" | "?q = ?x" | "?x < ?q" by linarith
  then show ?case
  proof cases
    case 1
    then show ?thesis
      using Cons.prems(4) m u ok by (auto simp: order_empty_def min_def Let_def)
  next
    case 2
    then show ?thesis
      using Cons.prems(4) m u ok by (auto simp: order_empty_def min_def Let_def)
  next
    case 3
    let ?i = "incoming\<lparr>o_LeavesQty := ?q - ?x\<rparr>"
    have f: "fill (?q - ?x) xs = (q1, xs1)" using Cons.prems(4) 3 ok by simp
    have "match_orders side xs ?i (leaves_sum xs) (settle side incoming (x, ?x) l) =
      (q1 = 0, xs1, ?i\<lparr>o_LeavesQty := q1\<rparr>, leaves_sum xs1, fold (settle side ?i) (trades (o_LeavesQty ?i) xs) (settle side incoming (x, ?x) l))"
    proof (rule Cons.IH [OF ok(2)])
      show "order_ok ?i" using ok 3 by (simp add: order_ok_def [of ?i])
    qed (use ok 3 f Cons.prems(3) in simp_all)
    moreover have "settle side ?i = settle side incoming" by (simp add: fun_eq_iff)
    ultimately show ?thesis using m u 3 ok by (simp add: order_empty_def min_def Let_def)
  qed
qed

lemma priority_simps [simp]:
  "priority [] = []" "priority ((p, g) # b) = sort_orders True (mOrders g) @ priority b"
  "priority (b @ c) = priority b @ priority c"
  by (simp_all add: priority_def)

lemma group_match_fill:
  assumes "group_ok p g" "order_ok incoming"
    and "fill (o_LeavesQty incoming) (sort_orders True (mOrders g)) = (q1, xs1)"
  obtains g' where "group_match True side incoming g l = (q1 = 0, g', incoming\<lparr>o_LeavesQty := q1\<rparr>,
      fold (settle side incoming) (trades (o_LeavesQty incoming) (sort_orders True (mOrders g))) l)"
    "mOrders g' = xs1" "group_empty g' \<longleftrightarrow> xs1 = []" "xs1 \<noteq> [] \<Longrightarrow> group_ok p g'" "sort_orders True xs1 = xs1"
proof -
  let ?xs = "sort_orders True (mOrders g)" and ?q = "o_LeavesQty incoming"
  let ?g = "g\<lparr>mOrders := xs1, mLeavesQty := leaves_sum xs1\<rparr>"
  have g: "list_all order_ok (mOrders g)" "distinct (map o_NormSequence (mOrders g))"
    "mLeavesQty g = leaves_sum (mOrders g)" "leaves_sum (mOrders g) < 18446744073709551616"
    "list_all (\<lambda>x. o_Price x = p) (mOrders g)" using assms(1) by (simp_all add: group_ok_def)
  note st = sort_by_time [OF g(1,2)]
  have q: "0 \<le> ?q" using assms(2) by (simp add: order_ok_def)
  note f = fill_ok [OF st(2) q assms(3)]
  obtain n where n: "map o_NormSequence xs1 = drop n (map o_NormSequence ?xs)" "map o_Price xs1 = drop n (map o_Price ?xs)"
    using f(5) by blast
  have time: "by_time xs1" using st(1) n(1) unfolding by_time_map by (simp add: sorted_wrt_drop)
  have "set (map o_Price xs1) \<subseteq> set (map o_Price ?xs)" unfolding n(2) by (rule set_drop_subset)
  then have price: "list_all (\<lambda>x. o_Price x = p) xs1" using g(5) by (auto simp: list_all_iff)
  have le: "leaves_sum xs1 \<le> leaves_sum (mOrders g)" using f(2,4) by simp
  have m: "group_match True side incoming g l = (q1 = 0, ?g, incoming\<lparr>o_LeavesQty := q1\<rparr>,
      fold (settle side incoming) (trades ?q ?xs) l)"
    using match_orders_fill [OF st(2) assms(2) _ assms(3), of side l] g(3,4) by (simp add: group_match_def)
  have empty: "group_empty ?g \<longleftrightarrow> xs1 = []"
  proof (cases "xs1 = []")
    case False
    then have "0 < leaves_sum xs1" by (rule leaves_sum_pos [OF f(3)])
    then show ?thesis using False by (simp add: group_empty_def)
  qed (simp add: group_empty_def)
  show ?thesis
  proof (rule that [OF m])
    show "xs1 \<noteq> [] \<Longrightarrow> group_ok p ?g" using f(3) time price le g(4) by (simp add: group_ok_def by_time_distinct)
    show "sort_orders True xs1 = xs1" by (rule sort_time_id [OF time f(3)])
  qed (use empty in simp_all)
qed

text \<open>The levels an incoming order of a price crosses.\<close>

definition levels :: "side \<Rightarrow> int \<Rightarrow> book \<Rightarrow> book" where
  "levels side price b = takeWhile (\<lambda>x. \<not> better side price (fst x)) b"

lemma sweep_fill:
  assumes "book_ok side b" "order_ok incoming" "b \<noteq> []" "\<not> better side (o_Price incoming) (fst (hd b))"
    and "fill (o_LeavesQty incoming) (priority (levels side (o_Price incoming) b)) = (q1, ys)"
  shows "if q1 \<noteq> 0 \<and> levels side (o_Price incoming) b = b then sweep True side incoming b l = Crash Out_of_bounds
    else \<exists>b'. sweep True side incoming b l = Done (q1 = 0, b', incoming\<lparr>o_LeavesQty := q1\<rparr>,
        fold (settle side incoming) (trades (o_LeavesQty incoming) (priority (levels side (o_Price incoming) b))) l) \<and>
      book_ok side b' \<and> fst ` set b' \<subseteq> fst ` set b \<and>
      priority b' = ys @ priority (drop (length (levels side (o_Price incoming) b)) b) \<and>
      (q1 \<noteq> 0 \<longrightarrow> b' = drop (length (levels side (o_Price incoming) b)) b)"
  using assms
proof (induction b arbitrary: incoming l)
  case Nil
  then show ?case by simp
next
  case (Cons x b)
  obtain p g where x: "x = (p, g)" by fastforce
  let ?q = "o_LeavesQty incoming" and ?P = "o_Price incoming" and ?xs = "sort_orders True (mOrders g)"
  have g: "group_ok p g" and b: "book_ok side b" using Cons.prems(1) x by (auto simp: book_ok_def)
  have lv: "levels side ?P (x # b) = x # levels side ?P b" using Cons.prems(4) x by (simp add: levels_def)
  obtain q2 xs2 where f: "fill ?q ?xs = (q2, xs2)" by fastforce
  obtain g' where g': "group_match True side incoming g l = (q2 = 0, g', incoming\<lparr>o_LeavesQty := q2\<rparr>,
      fold (settle side incoming) (trades ?q ?xs) l)" "mOrders g' = xs2" "group_empty g' \<longleftrightarrow> xs2 = []"
      "xs2 \<noteq> [] \<Longrightarrow> group_ok p g'" "sort_orders True xs2 = xs2"
    by (rule group_match_fill [OF g Cons.prems(2) f]) (rule that)
  note fa = fill_append [OF f]
  have all: "fill ?q (?xs @ priority (levels side ?P b)) = (q1, ys)" using Cons.prems(5) lv x by simp
  show ?case
  proof (cases "q2 = 0")
    case True
    then have q1: "q1 = 0" "ys = xs2 @ priority (levels side ?P b)" using all fa(1) [of "priority (levels side ?P b)"] by auto
    let ?kept = "if xs2 = [] then [] else [(p, g')]"
    have sw: "sweep True side incoming (x # b) l = Done (True, ?kept @ b, incoming\<lparr>o_LeavesQty := 0\<rparr>,
        fold (settle side incoming) (trades ?q ?xs) l)"
      using g'(1,3) True x by (simp add: Let_def)
    have tr: "trades ?q (priority (levels side ?P (x # b))) = trades ?q ?xs" using fa(3) True lv x by simp
    have ok: "book_ok side (?kept @ b)" using Cons.prems(1) g'(4) x by (auto simp: book_ok_def)
    have "levels side ?P b @ drop (length (levels side ?P b)) b = b"
      unfolding levels_def by (metis append_take_drop_id takeWhile_eq_take)
    then have "priority b = priority (levels side ?P b) @ priority (drop (length (levels side ?P b)) b)"
      by (metis priority_simps(3))
    then have pr: "priority (?kept @ b) = ys @ priority (drop (length (levels side ?P (x # b))) (x # b))"
      using q1 g'(2,5) lv by simp
    show ?thesis
      using sw tr ok pr q1 x by (auto intro!: exI [of _ "?kept @ b"])
  next
    case False
    then have xs2: "xs2 = []" by (rule fa(2))
    have rest: "fill q2 (priority (levels side ?P b)) = (q1, ys)" using all fa(1) False by simp
    have tr: "trades ?q (priority (levels side ?P (x # b))) = trades ?q ?xs @ trades q2 (priority (levels side ?P b))"
      using fa(3) lv x by simp
    let ?l = "fold (settle side incoming) (trades ?q ?xs) l"
    show ?thesis
    proof (cases b)
      case Nil
      then have "q1 \<noteq> 0" using rest False by (simp add: levels_def)
      moreover have "sweep True side incoming (x # b) l = Crash Out_of_bounds" using g'(1) False x Nil by simp
      ultimately show ?thesis using lv Nil by (simp add: levels_def)
    next
      case (Cons y c)
      show ?thesis
      proof (cases "better side ?P (fst y)")
        case True
        then have l0: "levels side ?P b = []" using Cons by (simp add: levels_def)
        then have q1: "q1 = q2" "ys = []" using rest by simp_all
        have "sweep True side incoming (x # b) l = Done (False, b, incoming\<lparr>o_LeavesQty := q2\<rparr>, ?l)"
          using g'(1,3) False x xs2 Cons True by (cases y) simp
        then show ?thesis using tr l0 lv q1 False b Cons by auto
      next
        case nb: False
        let ?i = "incoming\<lparr>o_LeavesQty := q2\<rparr>"
        have "list_all order_ok ?xs" using sort_by_time(2) g by (simp add: group_ok_def)
        from fill_ok(1,2) [OF this _ f] have "0 \<le> q2" "q2 \<le> ?q" using Cons.prems(2) by (auto simp: order_ok_def)
        then have i: "order_ok ?i" using False Cons.prems(2) by (simp add: order_ok_def)
        have set_i: "settle side ?i = settle side incoming" by (simp add: fun_eq_iff)
        have hd: "b \<noteq> []" "\<not> better side (o_Price ?i) (fst (hd b))" using Cons nb by simp_all
        have "fill (o_LeavesQty ?i) (priority (levels side (o_Price ?i) b)) = (q1, ys)" using rest by simp
        note IH = Cons.IH [OF b i hd this, of ?l]
        have P: "o_Price ?i = ?P" "o_LeavesQty ?i = q2" "?i\<lparr>o_LeavesQty := q1\<rparr> = incoming\<lparr>o_LeavesQty := q1\<rparr>"
          by simp_all
        note IH' = IH [unfolded P set_i]
        have sw: "sweep True side incoming (x # b) l = and_then (sweep True side ?i b ?l) (\<lambda>(full, b, incoming, l).
            Done (full, b, incoming, l))"
          using g'(1,3) False x xs2 Cons nb by (cases y) simp
        show ?thesis
        proof (cases "q1 \<noteq> 0 \<and> levels side ?P b = b")
          case True
          then show ?thesis using IH' sw lv by simp
        next
          case nc: False
          from IH' [unfolded if_not_P [OF nc]] obtain b' where
            b': "sweep True side ?i b ?l = Done (q1 = 0, b', incoming\<lparr>o_LeavesQty := q1\<rparr>,
              fold (settle side incoming) (trades q2 (priority (levels side ?P b))) ?l)"
              "book_ok side b'" "fst ` set b' \<subseteq> fst ` set b"
              "priority b' = ys @ priority (drop (length (levels side ?P b)) b)"
              "q1 \<noteq> 0 \<longrightarrow> b' = drop (length (levels side ?P b)) b" by blast
          have "sweep True side incoming (x # b) l = Done (q1 = 0, b', incoming\<lparr>o_LeavesQty := q1\<rparr>,
              fold (settle side incoming) (trades ?q (priority (levels side ?P (x # b)))) l)"
            using sw b'(1) tr by simp
          moreover have "\<not> (q1 \<noteq> 0 \<and> levels side ?P (x # b) = x # b)" using nc lv by simp
          ultimately show ?thesis using b'(2-5) lv by auto
        qed
      qed
    qed
  qed
qed


section \<open>Matching an order with a book\<close>

definition crossed :: "side \<Rightarrow> order \<Rightarrow> book \<Rightarrow> order list" where
  "crossed side incoming b = priority (levels side (o_Price incoming) b)"

lemma book_match_fill:
  assumes "book_ok side b" "order_ok incoming" "fill (o_LeavesQty incoming) (crossed side incoming b) = (q1, ys)"
    and "b = [] \<or> q1 = 0 \<or> levels side (o_Price incoming) b \<noteq> b"
  obtains b' where "book_match True side incoming b l = Done (q1 = 0, b', incoming\<lparr>o_LeavesQty := q1\<rparr>,
        fold (settle side incoming) (trades (o_LeavesQty incoming) (crossed side incoming b)) l)"
    "book_ok side b'" "fst ` set b' \<subseteq> fst ` set b"
    "priority b' = ys @ priority (drop (length (levels side (o_Price incoming) b)) b)"
    "q1 \<noteq> 0 \<Longrightarrow> b' = drop (length (levels side (o_Price incoming) b)) b"
proof (cases "b = [] \<or> better side (o_Price incoming) (fst (hd b))")
  case True
  then have l0: "levels side (o_Price incoming) b = []" by (cases b) (auto simp: levels_def)
  then have f: "q1 = o_LeavesQty incoming" "ys = []" using assms(3) by (simp_all add: crossed_def)
  have "q1 \<noteq> 0" using f assms(2) by (simp add: order_ok_def)
  moreover have "book_match True side incoming b l = Done (False, b, incoming, l)"
    using True by (auto simp: book_match_def split: list.split)
  ultimately show ?thesis using l0 f assms(1) by (intro that [of b]) (simp_all add: crossed_def)
next
  case False
  then have b: "b \<noteq> []" "\<not> better side (o_Price incoming) (fst (hd b))" by auto
  have sw: "book_match True side incoming b l = sweep True side incoming b l"
    using b by (cases b) (auto simp: book_match_def)
  have nc: "\<not> (q1 \<noteq> 0 \<and> levels side (o_Price incoming) b = b)" using assms(4) b by auto
  from sweep_fill [OF assms(1,2) b assms(3) [unfolded crossed_def], of l, unfolded if_not_P [OF nc]]
  show ?thesis using that sw unfolding crossed_def by auto
qed

lemma book_match_end:
  assumes "book_ok side b" "order_ok incoming" "fill (o_LeavesQty incoming) (crossed side incoming b) = (q1, ys)"
    and "b \<noteq> []" "q1 \<noteq> 0" "levels side (o_Price incoming) b = b"
  shows "book_match True side incoming b l = Crash Out_of_bounds"
proof -
  have b: "\<not> better side (o_Price incoming) (fst (hd b))"
    using assms(4,6) by (cases b) (auto simp: levels_def split: if_splits)
  have "book_match True side incoming b l = sweep True side incoming b l"
    using b assms(4) by (cases b) (auto simp: book_match_def)
  then show ?thesis
    using sweep_fill [OF assms(1,2,4) b assms(3) [unfolded crossed_def], of l] assms(5,6) by simp
qed

lemma mset_priority: "mset (priority b) = (\<Sum>x\<leftarrow>b. mset (mOrders (snd x)))"
  by (induction b) (auto simp: sort_orders_def)

lemma book_ok_orders: "book_ok side b \<Longrightarrow> list_all order_ok (priority b)"
  by (induction b) (auto simp: book_ok_def group_ok_def list_all_iff)

lemma leaves_sum_mset: "mset xs = mset ys \<Longrightarrow> leaves_sum xs = leaves_sum ys"
  unfolding leaves_sum_def by (metis mset_map sum_mset_sum_list)

text \<open>An order added to a book.\<close>

lemma group_ok_new:
  assumes "order_ok x" "p = o_Price x"
  shows "group_ok p (group_addOrder x new_group)"
proof -
  have "u64 (o_LeavesQty x) = o_LeavesQty x" "o_LeavesQty x < 4294967296"
    using assms(1) by (auto simp: order_ok_def intro!: u64_id)
  then show ?thesis using assms by (simp add: group_ok_def group_addOrder_def new_group_def)
qed

lemma group_ok_add:
  assumes "group_ok p g" "order_ok x" "p = o_Price x" "o_NormSequence x \<notin> o_NormSequence ` set (mOrders g)"
    and "leaves_sum (mOrders g) + o_LeavesQty x < 18446744073709551616"
  shows "group_ok p (group_addOrder x g)"
proof -
  have "0 \<le> leaves_sum (mOrders g)" using assms(1) by (intro leaves_sum_nonneg) (simp add: group_ok_def)
  then have "u64 (leaves_sum (mOrders g) + o_LeavesQty x) = leaves_sum (mOrders g) + o_LeavesQty x"
    using assms(2,5) by (intro u64_id) (auto simp: order_ok_def)
  then show ?thesis using assms by (auto simp: group_ok_def group_addOrder_def)
qed

lemma better_trans: "better side p q \<Longrightarrow> better side q r \<Longrightarrow> better side p r"
  by (cases side) auto

lemma better_total: "\<not> better side p q \<Longrightarrow> \<not> better side q p \<Longrightarrow> p = q"
  by (cases side) auto

lemma addOrder_prices: "fst ` set (book_addOrder side p x b) = insert p (fst ` set b)"
  by (induction side p x b rule: book_addOrder.induct) (auto dest: better_total)

lemma addOrder_priority: "mset (priority (book_addOrder side p x b)) = add_mset x (mset (priority b))"
  unfolding mset_priority
  by (induction side p x b rule: book_addOrder.induct) (auto simp: group_addOrder_def new_group_def)

lemma addOrder_ok:
  assumes "book_ok side b" "order_ok x" "p = o_Price x" "o_NormSequence x \<notin> o_NormSequence ` set (priority b)"
    and "leaves_sum (priority b) + o_LeavesQty x < 18446744073709551616"
  shows "book_ok side (book_addOrder side p x b)"
  using assms
proof (induction side p x b rule: book_addOrder.induct)
  case (1 side p x)
  then show ?case using group_ok_new by (simp add: book_ok_def)
next
  case (2 side p x p' g b)
  have g: "group_ok p' g" and b: "book_ok side b" and s: "\<forall>y\<in>set b. better side p' (fst y)"
    using "2.prems"(1) by (auto simp: book_ok_def)
  have n: "0 \<le> leaves_sum (priority b)" using book_ok_orders [OF b] by (rule leaves_sum_nonneg)
  have ng: "0 \<le> leaves_sum (mOrders g)" using g by (intro leaves_sum_nonneg) (simp add: group_ok_def)
  consider "better side p p'" | "\<not> better side p p'" "better side p' p" | "p = p'"
    using better_total by blast
  then show ?case
  proof cases
    case 1
    then have "\<forall>y\<in>set b. better side p (fst y)" using s better_trans by blast
    then show ?thesis using 1 "2.prems" group_ok_new [OF "2.prems"(2,3)] by (simp add: book_ok_def)
  next
    case c: 2
    have "book_ok side (book_addOrder side p x b)"
      using "2.IH" [OF c b "2.prems"(2,3)] "2.prems"(4,5) ng by auto
    moreover have "\<forall>y\<in>set (book_addOrder side p x b). better side p' (fst y)"
    proof
      fix y assume "y \<in> set (book_addOrder side p x b)"
      then have "fst y \<in> fst ` set (book_addOrder side p x b)" by (rule imageI)
      then have "fst y \<in> insert p (fst ` set b)" by (simp only: addOrder_prices)
      then show "better side p' (fst y)" using c s by auto
    qed
    ultimately show ?thesis using c g by (simp add: book_ok_def)
  next
    case 3
    have "\<not> better side p p" by (cases side) auto
    moreover have "group_ok p (group_addOrder x g)"
      using g 3 "2.prems"(2-5) n by (intro group_ok_add) auto
    ultimately show ?thesis using 3 b s by (simp add: book_ok_def)
  qed
qed


section \<open>The market\<close>

lemma levels_drop:
  assumes "book_ok side b" "y \<in> set (drop (length (levels side P b)) b)"
  shows "better side P (fst y)"
  using assms
proof (induction b)
  case (Cons x b)
  show ?case
  proof (cases "better side P (fst x)")
    case True
    have "better side P (fst z)" if "z \<in> set b" for z
      using Cons.prems(1) that better_trans [OF True] by (simp add: book_ok_def)
    then show ?thesis using Cons.prems(2) True by (cases y) (auto simp: levels_def)
  next
    case False
    then show ?thesis using Cons by (auto simp: levels_def book_ok_def)
  qed
qed simp

lemma trades_length:
  "fill q xs = (q1, ys) \<Longrightarrow> length (trades q xs) + length ys \<le> length xs + (if q1 = 0 then 1 else 0)"
proof (induction q xs arbitrary: q1 ys rule: fill.induct)
  case (2 q x xs)
  then show ?case by (auto split: if_splits simp: min_def)
qed simp

lemma fold_settle_reports [simp]:
  "length (reports (fold (settle side incoming) ts l)) = length (reports l) + length ts"
  by (induction ts arbitrary: l) (simp_all add: settle_def Let_def)

lemma levels_append: "levels side P b @ drop (length (levels side P b)) b = b"
  unfolding levels_def by (metis append_take_drop_id takeWhile_eq_take)

lemma book_match_result:
  assumes "book_ok s b" "order_ok x"
  obtains "book_match True s x b l = Crash Out_of_bounds"
  | full b' x' l' where "book_match True s x b l = Done (full, b', x', l')" "book_ok s b'"
      "fst ` set b' \<subseteq> fst ` set b" "o_NormSequence ` set (priority b') \<subseteq> o_NormSequence ` set (priority b)"
      "length (reports l') + length (priority b') \<le> length (reports l) + length (priority b) + (if full then 1 else 0)"
      "full \<Longrightarrow> leaves_sum (priority b') \<le> leaves_sum (priority b)"
      "\<not> full \<Longrightarrow> order_ok x' \<and> o_NormSequence x' = o_NormSequence x \<and> o_Price x' = o_Price x \<and>
        leaves_sum (priority b') + o_LeavesQty x' \<le> leaves_sum (priority b) + o_LeavesQty x \<and>
        (\<forall>y\<in>set b'. better s (o_Price x) (fst y))"
proof -
  let ?L = "levels s (o_Price x) b" and ?c = "crossed s x b"
  let ?rest = "drop (length ?L) b"
  obtain q1 ys where f: "fill (o_LeavesQty x) ?c = (q1, ys)" by fastforce
  have pr: "priority b = ?c @ priority ?rest" unfolding crossed_def by (metis levels_append priority_simps(3))
  have "list_all order_ok ?c" using book_ok_orders [OF assms(1)] pr by simp
  note fo = fill_ok [OF this _ f]
  have q: "0 \<le> o_LeavesQty x" using assms(2) by (simp add: order_ok_def)
  obtain n where n: "map o_NormSequence ys = drop n (map o_NormSequence ?c)" using fo(5) q by blast
  have "set (map o_NormSequence ys) \<subseteq> set (map o_NormSequence ?c)" unfolding n by (rule set_drop_subset)
  then have sq: "o_NormSequence ` set ys \<subseteq> o_NormSequence ` set ?c" by simp
  show ?thesis
  proof (cases "b = [] \<or> q1 = 0 \<or> ?L \<noteq> b")
    case False
    then show ?thesis using that(1) book_match_end [OF assms f] by blast
  next
    case True
    obtain b' where m: "book_match True s x b l = Done (q1 = 0, b', x\<lparr>o_LeavesQty := q1\<rparr>,
          fold (settle s x) (trades (o_LeavesQty x) ?c) l)"
      "book_ok s b'" "fst ` set b' \<subseteq> fst ` set b" "priority b' = ys @ priority ?rest"
      "q1 \<noteq> 0 \<Longrightarrow> b' = ?rest"
      by (rule book_match_fill [OF assms f True]) (rule that)
    show ?thesis
    proof (rule that(2) [OF m(1-3)])
      show "o_NormSequence ` set (priority b') \<subseteq> o_NormSequence ` set (priority b)" using m(4) pr sq by auto
      show "length (reports (fold (settle s x) (trades (o_LeavesQty x) ?c) l)) + length (priority b')
          \<le> length (reports l) + length (priority b) + (if q1 = 0 then 1 else 0)"
        using trades_length [OF f] m(4) pr by auto
      show "leaves_sum (priority b') \<le> leaves_sum (priority b)" using m(4) pr fo(2,4) q by simp
      show "order_ok (x\<lparr>o_LeavesQty := q1\<rparr>) \<and> o_NormSequence (x\<lparr>o_LeavesQty := q1\<rparr>) = o_NormSequence x \<and>
          o_Price (x\<lparr>o_LeavesQty := q1\<rparr>) = o_Price x \<and>
          leaves_sum (priority b') + o_LeavesQty (x\<lparr>o_LeavesQty := q1\<rparr>) \<le> leaves_sum (priority b) + o_LeavesQty x \<and>
          (\<forall>y\<in>set b'. better s (o_Price x) (fst y))" if "q1 \<noteq> 0"
        using that assms(2) fo(1,2,4) q m(4,5) pr levels_drop [OF assms(1)]
        by (simp add: order_ok_def)
    qed
  qed
qed

definition resting :: "market \<Rightarrow> order list" where
  "resting m = priority (BookBuy m) @ priority (BookSell m)"

text \<open>Both books are well formed and no buyer would pay what a seller asks.\<close>

definition uncrossed :: "market \<Rightarrow> bool" where
  "uncrossed m \<longleftrightarrow> (\<forall>p\<in>fst ` set (BookBuy m). \<forall>q\<in>fst ` set (BookSell m). p < q)"

definition market_ok :: "market \<Rightarrow> bool" where
  "market_ok m \<longleftrightarrow> book_ok BUY (BookBuy m) \<and> book_ok SELL (BookSell m) \<and> uncrossed m"

text \<open>With the sequence numbers, the total quantity and the number of the orders seen.\<close>

definition market_inv :: "int set \<Rightarrow> int \<Rightarrow> nat \<Rightarrow> market \<Rightarrow> bool" where
  "market_inv S Q n m \<longleftrightarrow> market_ok m \<and> o_NormSequence ` set (resting m) \<subseteq> S \<and> leaves_sum (resting m) \<le> Q \<and>
     length (reports (ledger m)) + length (resting m) \<le> n"

lemma market_inv_parts:
  assumes "market_inv S Q n m"
  shows "book_ok BUY (BookBuy m)" "book_ok SELL (BookSell m)"
    "0 \<le> leaves_sum (priority (BookBuy m))" "0 \<le> leaves_sum (priority (BookSell m))"
    "leaves_sum (priority (BookBuy m)) + leaves_sum (priority (BookSell m)) \<le> Q"
    "o_NormSequence ` set (priority (BookBuy m)) \<subseteq> S" "o_NormSequence ` set (priority (BookSell m)) \<subseteq> S"
    "length (reports (ledger m)) + length (priority (BookBuy m)) + length (priority (BookSell m)) \<le> n"
    "\<And>p q. p \<in> fst ` set (BookBuy m) \<Longrightarrow> q \<in> fst ` set (BookSell m) \<Longrightarrow> p < q"
proof -
  show b: "book_ok BUY (BookBuy m)" "book_ok SELL (BookSell m)" using assms by (simp_all add: market_inv_def market_ok_def)
  show "0 \<le> leaves_sum (priority (BookBuy m))" by (rule leaves_sum_nonneg [OF book_ok_orders [OF b(1)]])
  show "0 \<le> leaves_sum (priority (BookSell m))" by (rule leaves_sum_nonneg [OF book_ok_orders [OF b(2)]])
qed (use assms in \<open>auto simp: market_inv_def market_ok_def uncrossed_def resting_def\<close>)

lemma addOrder_length: "length (priority (book_addOrder side p x b)) = Suc (length (priority b))"
  using addOrder_priority [of side p x b] by (metis size_add_mset size_mset)

lemma addOrder_leaves: "leaves_sum (priority (book_addOrder side p x b)) = o_LeavesQty x + leaves_sum (priority b)"
  using addOrder_priority [of side p x b] leaves_sum_mset [of _ "x # priority b"] by simp

lemma addOrder_seqs:
  "o_NormSequence ` set (priority (book_addOrder side p x b)) = insert (o_NormSequence x) (o_NormSequence ` set (priority b))"
  using arg_cong [OF addOrder_priority, of set_mset side p x b] by simp

lemmas addOrder_facts = addOrder_prices addOrder_length addOrder_leaves addOrder_seqs

lemma process_order_inv:
  assumes inv: "market_inv S Q n m" and x: "0 \<le> o_LeavesQty x" "o_LeavesQty x < 4294967296"
    and fresh: "o_NormSequence x \<notin> S" and Q: "Q + o_LeavesQty x < 18446744073709551616"
  shows "process_order x m = Crash Out_of_bounds \<or>
    (\<exists>m'. process_order x m = Done m' \<and> market_inv (insert (o_NormSequence x) S) (Q + o_LeavesQty x) (Suc n) m')"
proof (cases "order_empty x")
  case True
  then show ?thesis using inv by (auto simp: process_order_def market_inv_def order_empty_def)
next
  case False
  then have ok: "order_ok x" using x by (simp add: order_empty_def order_ok_def)
  note i = market_inv_parts [OF inv]
  show ?thesis
  proof (cases "o_Side x")
    case BUY
    show ?thesis
    proof (rule book_match_result [OF i(2) ok, of "ledger m"])
      assume "book_match True SELL x (BookSell m) (ledger m) = Crash Out_of_bounds"
      then show ?thesis using BUY False by (simp add: process_order_def)
    next
      fix full b' x' l'
      assume r: "book_match True SELL x (BookSell m) (ledger m) = Done (full, b', x', l')" "book_ok SELL b'"
        "fst ` set b' \<subseteq> fst ` set (BookSell m)"
        "o_NormSequence ` set (priority b') \<subseteq> o_NormSequence ` set (priority (BookSell m))"
        "length (reports l') + length (priority b')
          \<le> length (reports (ledger m)) + length (priority (BookSell m)) + (if full then 1 else 0)"
        "full \<Longrightarrow> leaves_sum (priority b') \<le> leaves_sum (priority (BookSell m))"
        "\<not> full \<Longrightarrow> order_ok x' \<and> o_NormSequence x' = o_NormSequence x \<and> o_Price x' = o_Price x \<and>
          leaves_sum (priority b') + o_LeavesQty x' \<le> leaves_sum (priority (BookSell m)) + o_LeavesQty x \<and>
          (\<forall>y\<in>set b'. better SELL (o_Price x) (fst y))"
      show ?thesis
      proof (cases full)
        case True
        let ?m = "m\<lparr>BookSell := b', ledger := l'\<rparr>"
        have "market_inv (insert (o_NormSequence x) S) (Q + o_LeavesQty x) (Suc n) ?m"
          using True r(2-6) i x by (force simp: market_inv_def market_ok_def uncrossed_def resting_def)
        then show ?thesis using True r(1) BUY False by (simp add: process_order_def Let_def)
      next
        case nf: False
        let ?B = "book_addOrder BUY (o_Price x') x' (BookBuy m)"
        let ?m = "m\<lparr>BookSell := b', ledger := l', BookBuy := ?B\<rparr>"
        have x': "order_ok x'" "o_NormSequence x' = o_NormSequence x" "o_Price x' = o_Price x"
          "leaves_sum (priority b') + o_LeavesQty x' \<le> leaves_sum (priority (BookSell m)) + o_LeavesQty x"
          "\<forall>y\<in>set b'. o_Price x < fst y" using r(7) nf by simp_all
        have "0 \<le> leaves_sum (priority b')" by (rule leaves_sum_nonneg [OF book_ok_orders [OF r(2)]])
        then have B: "book_ok BUY ?B"
          using i(1,5,6) x'(1-4) fresh Q by (intro addOrder_ok) auto
        have "uncrossed ?m" using x'(3,5) r(3) i(9) by (fastforce simp: uncrossed_def addOrder_prices)
        moreover have "o_NormSequence ` set (resting ?m) \<subseteq> insert (o_NormSequence x) S"
          using i(6) x'(2) subset_trans [OF r(4) i(7)]
          by (simp add: resting_def image_Un addOrder_seqs subset_insertI2 insert_mono)
        moreover have "leaves_sum (resting ?m) \<le> Q + o_LeavesQty x"
          using i(5) x'(4) by (simp add: resting_def addOrder_leaves)
        moreover have "length (reports l') + length (resting ?m) \<le> Suc n"
          using i(8) r(5) nf by (simp add: resting_def addOrder_length)
        ultimately have "market_inv (insert (o_NormSequence x) S) (Q + o_LeavesQty x) (Suc n) ?m"
          using B r(2) by (simp add: market_inv_def market_ok_def)
        then show ?thesis using nf r(1) BUY False by (simp add: process_order_def Let_def)
      qed
    qed
  next
    case SELL
    show ?thesis
    proof (rule book_match_result [OF i(1) ok, of "ledger m"])
      assume "book_match True BUY x (BookBuy m) (ledger m) = Crash Out_of_bounds"
      then show ?thesis using SELL False by (simp add: process_order_def)
    next
      fix full b' x' l'
      assume r: "book_match True BUY x (BookBuy m) (ledger m) = Done (full, b', x', l')" "book_ok BUY b'"
        "fst ` set b' \<subseteq> fst ` set (BookBuy m)"
        "o_NormSequence ` set (priority b') \<subseteq> o_NormSequence ` set (priority (BookBuy m))"
        "length (reports l') + length (priority b')
          \<le> length (reports (ledger m)) + length (priority (BookBuy m)) + (if full then 1 else 0)"
        "full \<Longrightarrow> leaves_sum (priority b') \<le> leaves_sum (priority (BookBuy m))"
        "\<not> full \<Longrightarrow> order_ok x' \<and> o_NormSequence x' = o_NormSequence x \<and> o_Price x' = o_Price x \<and>
          leaves_sum (priority b') + o_LeavesQty x' \<le> leaves_sum (priority (BookBuy m)) + o_LeavesQty x \<and>
          (\<forall>y\<in>set b'. better BUY (o_Price x) (fst y))"
      show ?thesis
      proof (cases full)
        case True
        let ?m = "m\<lparr>BookBuy := b', ledger := l'\<rparr>"
        have "market_inv (insert (o_NormSequence x) S) (Q + o_LeavesQty x) (Suc n) ?m"
          using True r(2-6) i x by (force simp: market_inv_def market_ok_def uncrossed_def resting_def)
        then show ?thesis using True r(1) SELL False by (simp add: process_order_def Let_def)
      next
        case nf: False
        let ?B = "book_addOrder SELL (o_Price x') x' (BookSell m)"
        let ?m = "m\<lparr>BookBuy := b', ledger := l', BookSell := ?B\<rparr>"
        have x': "order_ok x'" "o_NormSequence x' = o_NormSequence x" "o_Price x' = o_Price x"
          "leaves_sum (priority b') + o_LeavesQty x' \<le> leaves_sum (priority (BookBuy m)) + o_LeavesQty x"
          "\<forall>y\<in>set b'. o_Price x > fst y" using r(7) nf by simp_all
        have "0 \<le> leaves_sum (priority b')" by (rule leaves_sum_nonneg [OF book_ok_orders [OF r(2)]])
        then have B: "book_ok SELL ?B"
          using i(2,5,7) x'(1-4) fresh Q by (intro addOrder_ok) auto
        have "uncrossed ?m" using x'(3,5) r(3) i(9) by (fastforce simp: uncrossed_def addOrder_prices)
        moreover have "o_NormSequence ` set (resting ?m) \<subseteq> insert (o_NormSequence x) S"
          using i(7) x'(2) subset_trans [OF r(4) i(6)]
          by (simp add: resting_def image_Un addOrder_seqs subset_insertI2 insert_mono)
        moreover have "leaves_sum (resting ?m) \<le> Q + o_LeavesQty x"
          using i(5) x'(4) by (simp add: resting_def addOrder_leaves)
        moreover have "length (reports l') + length (resting ?m) \<le> Suc n"
          using i(8) r(5) nf by (simp add: resting_def addOrder_length)
        ultimately have "market_inv (insert (o_NormSequence x) S) (Q + o_LeavesQty x) (Suc n) ?m"
          using B r(2) by (simp add: market_inv_def market_ok_def)
        then show ?thesis using nf r(1) SELL False by (simp add: process_order_def Let_def)
      qed
    qed
  qed
qed


lemma process_orders_inv:
  assumes "market_inv S Q n m" "list_all (\<lambda>x. 0 \<le> o_LeavesQty x \<and> o_LeavesQty x < 4294967296) xs"
    and "distinct (map o_NormSequence xs)" "o_NormSequence ` set xs \<inter> S = {}"
    and "Q + leaves_sum xs < 18446744073709551616"
  shows "process_orders xs m = Crash Out_of_bounds \<or>
    (\<exists>m' S' Q'. process_orders xs m = Done m' \<and> market_inv S' Q' (n + length xs) m')"
  using assms
proof (induction xs arbitrary: S Q n m)
  case Nil
  then show ?case by auto
next
  case (Cons x xs)
  have "0 \<le> leaves_sum xs" using Cons.prems(2) by (induction xs) auto
  then have "Q + o_LeavesQty x < 18446744073709551616" using Cons.prems(5) by simp
  from process_order_inv [OF Cons.prems(1) _ _ _ this] Cons.prems(2,4)
  consider "process_order x m = Crash Out_of_bounds"
    | m' where "process_order x m = Done m'" "market_inv (insert (o_NormSequence x) S) (Q + o_LeavesQty x) (Suc n) m'"
    by auto
  then show ?case
  proof cases
    case 1
    then show ?thesis by simp
  next
    case 2
    show ?thesis using Cons.IH [OF 2(2)] Cons.prems(2-5) 2(1) by (auto simp: image_iff)
  qed
qed

section \<open>Accounts\<close>

definition total :: "(account \<Rightarrow> int) \<Rightarrow> accounts \<Rightarrow> int" where
  "total f as = (\<Sum>p\<in>dom as. f (the (as p)))"

definition traded :: "ledger \<Rightarrow> int" where
  "traded l = sum_list (map mCrossQty (reports l))"

text \<open>Every unit sold was bought, and by the reports too; the counters wrap around at $2^{64}$.\<close>

definition balanced :: "ledger \<Rightarrow> bool" where
  "balanced l \<longleftrightarrow> finite (dom (accounts l)) \<and> u64 (total longQty (accounts l)) = u64 (traded l) \<and>
     u64 (total shortQty (accounts l)) = u64 (traded l)"

lemma total_update:
  assumes "finite (dom as)"
  shows "total f (as(p \<mapsto> a)) = total f as - (case as p of None \<Rightarrow> 0 | Some b \<Rightarrow> f b) + f a"
proof (cases "as p")
  case None
  have "(\<Sum>q\<in>dom as. f (the ((as(p \<mapsto> a)) q))) = total f as"
    unfolding total_def using None by (intro sum.cong) auto
  then show ?thesis using None assms by (simp add: total_def domIff)
next
  case (Some b)
  then have p: "p \<in> dom as" by auto
  have "(\<Sum>q\<in>dom as - {p}. f (the ((as(p \<mapsto> a)) q))) = (\<Sum>q\<in>dom as - {p}. f (the (as q)))"
    by (intro sum.cong) auto
  then show ?thesis using Some sum.remove [OF assms p, of "\<lambda>q. f (the (as q))"]
      sum.remove [OF assms p, of "\<lambda>q. f (the ((as(p \<mapsto> a)) q))"]
    by (simp add: total_def insert_absorb [OF p])
qed

lemma u64_add: "u64 (a + u64 b) = u64 (a + b)" "u64 (u64 a + b) = u64 (a + b)" "u64 (a - u64 b) = u64 (a - b)"
  by (simp_all add: u64_def mod_simps)

lemma u64_shift: "u64 (t - a + u64 (a + q)) = u64 (t + q)"
  by (simp add: u64_add)

lemma update_party_total:
  assumes "finite (dom as)"
  shows "finite (dom (update_party p side q pr as))"
    "u64 (total longQty (update_party p side q pr as)) = u64 (total longQty as + (if side = BUY then q else 0))"
    "u64 (total shortQty (update_party p side q pr as)) = u64 (total shortQty as + (if side = SELL then q else 0))"
  using assms
  by (cases side; auto simp: update_party_def total_update new_account_def u64_shift u64_add split: option.split)+

lemma order_match_balanced:
  assumes "balanced l" "order_match side r x l = (q, r', x', l')"
  shows "balanced l'"
proof -
  let ?as = "update_party (o_Party r) side q (o_Price r) (accounts l)"
  have l: "finite (dom (accounts l))" "u64 (total longQty (accounts l)) = u64 (traded l)"
    "u64 (total shortQty (accounts l)) = u64 (traded l)" using assms(1) by (simp_all add: balanced_def)
  have p: "o_Party (crossQty q y) = o_Party y" "o_Price (crossQty q y) = o_Price y" for q y by (simp_all add: crossQty_def)
  have l': "accounts l' = update_party (o_Party x) (other_side side) q (o_Price r) ?as" "traded l' = traded l + q"
    using assms(2) by (auto simp: order_match_def Let_def addReport_def traded_def p)
  note u = update_party_total [OF l(1), of "o_Party r" side q "o_Price r"]
  note v = update_party_total [OF u(1), of "o_Party x" "other_side side" q "o_Price r"]
  have s: "u64 (a + b) = u64 (c + b)" if "u64 a = u64 c" for a b c by (metis that u64_add(2))
  have "u64 (total longQty (accounts l')) =
      u64 (traded l + (if side = BUY then q else 0) + (if other_side side = BUY then q else 0))"
    unfolding l'(1) v(2) by (rule s, unfold u(2), rule s, rule l(2))
  moreover have "u64 (total shortQty (accounts l')) =
      u64 (traded l + (if side = SELL then q else 0) + (if other_side side = SELL then q else 0))"
    unfolding l'(1) v(3) by (rule s, unfold u(3), rule s, rule l(3))
  moreover have "finite (dom (accounts l'))" unfolding l'(1) by (rule v(1))
  ultimately show ?thesis unfolding balanced_def l'(2) by (cases side) simp_all
qed

lemma match_orders_balanced:
  "balanced l \<Longrightarrow> match_orders side rs x q l = (full, rs', x', q', l') \<Longrightarrow> balanced l'"
proof (induction rs arbitrary: x q l full rs' x' q' l')
  case (Cons r rs)
  obtain c r1 x1 l1 where m: "order_match side r x l = (c, r1, x1, l1)" by (metis prod_cases4)
  have "balanced l1" by (rule order_match_balanced [OF Cons.prems(1) m])
  then show ?case using Cons m by (auto simp: Let_def split: if_splits prod.splits)
qed simp

lemma group_match_balanced:
  "balanced l \<Longrightarrow> group_match normal side x g l = (full, g', x', l') \<Longrightarrow> balanced l'"
  by (auto simp: group_match_def split: prod.splits dest: match_orders_balanced)

lemma sweep_balanced:
  "balanced l \<Longrightarrow> sweep normal side x b l = Done (full, b', x', l') \<Longrightarrow> balanced l'"
proof (induction b arbitrary: x l full b' x' l')
  case (Cons e b)
  obtain p g where e: "e = (p, g)" by fastforce
  obtain f1 g1 x1 l1 where m: "group_match normal side x g l = (f1, g1, x1, l1)" by (metis prod_cases4)
  have l1: "balanced l1" by (rule group_match_balanced [OF Cons.prems(1) m])
  show ?case
  proof (cases "f1 \<or> b = [] \<or> better side (o_Price x1) (fst (hd b))")
    case True
    then have "l' = l1" using Cons.prems(2) m e by (cases b) (auto simp: Let_def split: if_splits prod.splits)
    then show ?thesis using l1 by simp
  next
    case False
    then obtain y c where b: "b = y # c" "\<not> f1" "\<not> better side (o_Price x1) (fst y)" by (cases b) auto
    then obtain f2 b2 x2 where "sweep normal side x1 b l1 = Done (f2, b2, x2, l')"
      using Cons.prems(2) m e
      by (cases y) (auto simp: Let_def and_then_Done_iff simp del: sweep.simps(2) simp: sweep.simps(2) [of normal side x p g])
    then show ?thesis by (rule Cons.IH [OF l1])
  qed
qed simp

lemma book_match_balanced:
  "balanced l \<Longrightarrow> book_match normal side x b l = Done (full, b', x', l') \<Longrightarrow> balanced l'"
  by (cases b) (auto simp: book_match_def simp del: sweep.simps dest: sweep_balanced split: if_splits)

lemma process_order_balanced:
  assumes "balanced (ledger m)" "process_order x m = Done m'"
  shows "balanced (ledger m')"
proof (cases "order_empty x")
  case False
  let ?side = "other_side (o_Side x)"
  let ?b = "if o_Side x = BUY then BookSell m else BookBuy m"
  obtain full b' x' l' where "book_match True ?side x ?b (ledger m) = Done (full, b', x', l')" "ledger m' = l'"
    using assms(2) False by (cases "o_Side x") (auto simp: process_order_def Let_def and_then_Done_iff split: if_splits)
  then show ?thesis using book_match_balanced [OF assms(1)] by blast
qed (use assms in \<open>simp add: process_order_def\<close>)

lemma process_orders_balanced:
  "balanced (ledger m) \<Longrightarrow> process_orders xs m = Done m' \<Longrightarrow> balanced (ledger m')"
  by (induction xs arbitrary: m) (auto simp: and_then_Done_iff dest: process_order_balanced)

section \<open>Properties\<close>


text \<open>C6: after any sequence of orders with distinct sequence numbers the books are well formed, no buyer would
  pay what a seller asks, and there are no more reports than orders. The only way to fail is the read
  behind the last level.\<close>

theorem market_invariant:
  assumes "list_all (\<lambda>x. 0 \<le> o_LeavesQty x \<and> o_LeavesQty x < 4294967296) xs" "distinct (map o_NormSequence xs)"
    and "leaves_sum xs < 18446744073709551616"
  shows "case process_orders xs new_market of
      Crash c \<Rightarrow> c = Out_of_bounds
    | Done m \<Rightarrow> market_ok m \<and> length (reports (ledger m)) + length (resting m) \<le> length xs"
proof -
  have "market_inv {} 0 0 new_market"
    by (simp add: market_inv_def market_ok_def uncrossed_def new_market_def book_ok_def resting_def)
  from process_orders_inv [OF this assms(1,2)] assms(3) show ?thesis by (auto simp: market_inv_def)
qed

text \<open>The quantities on the long and on the short side of all accounts add up to the same, the sum of the
  reports, modulo the width of the counters.\<close>

theorem accounts_balance:
  assumes "process_orders xs new_market = Done m"
  shows "balanced (ledger m)"
  by (rule process_orders_balanced [OF _ assms]) (simp add: balanced_def new_market_def total_def traded_def)


section \<open>Witnesses\<close>

definition sell_100 :: order where
  "sell_100 = OrderEntry ''1'' ''Mal'' 5000 100 1 ''SELL''"

definition sell_50 :: order where
  "sell_50 = OrderEntry ''2'' ''Wash'' 6000 50 2 ''SELL''"

definition buy_120 :: order where
  "buy_120 = OrderEntry ''3'' ''Simon'' 6000 120 3 ''BUY''"

definition example_book :: book where
  "example_book = book_addOrder SELL 6000 sell_50 (book_addOrder SELL 5000 sell_100 [])"

lemmas example_orders = sell_100_def sell_50_def buy_120_def OrderEntry_def

lemma example_book_ok: "book_ok SELL example_book"
  by (simp add: example_book_def book_ok_def group_ok_def order_ok_def example_orders group_addOrder_def
      new_group_def u32_def u64_def)


theorem market_invariant_witness:
  "case process_orders [sell_100, sell_50, buy_120] new_market of
      Crash c \<Rightarrow> False
    | Done m \<Rightarrow> market_ok m \<and> length (reports (ledger m)) = 2 \<and> length (resting m) \<le> 1"
proof -
  have run: "\<exists>m. process_orders [sell_100, sell_50, buy_120] new_market = Done m \<and> length (reports (ledger m)) = 2"
    by (simp add: process_order_def example_orders order_empty_def book_match_def new_market_def group_addOrder_def
        new_group_def u32_def u64_def sort_orders_def group_match_def order_match_def crossQty_def addReport_def
        update_party_def group_empty_def order_key_def Let_def)
  have "case process_orders [sell_100, sell_50, buy_120] new_market of
      Crash c \<Rightarrow> c = Out_of_bounds
    | Done m \<Rightarrow> market_ok m \<and> length (reports (ledger m)) + length (resting m) \<le> length [sell_100, sell_50, buy_120]"
    by (rule market_invariant) (simp_all add: example_orders u32_def)
  then show ?thesis using run by auto
qed

theorem accounts_balance_witness:
  "\<exists>m. process_orders [sell_100, sell_50, buy_120] new_market = Done m \<and> balanced (ledger m) \<and> traded (ledger m) = 120"
proof -
  obtain m where m: "process_orders [sell_100, sell_50, buy_120] new_market = Done m" "traded (ledger m) = 120"
    by (simp add: process_order_def example_orders order_empty_def book_match_def new_market_def group_addOrder_def
        new_group_def u32_def u64_def sort_orders_def group_match_def order_match_def crossQty_def addReport_def
        update_party_def group_empty_def order_key_def Let_def traded_def)
  then show ?thesis using accounts_balance [OF m(1)] by blast
qed

text \<open>An order that crosses the whole book and is not filled: the first two lines of a file can do it.\<close>

lemma unfilled_sweep_crashes:
  "process_orders [sell_100, OrderEntry ''4'' ''Simon'' 5000 101 4 ''BUY''] new_market = Crash Out_of_bounds"
  by (simp add: process_order_def example_orders order_empty_def book_match_def new_market_def group_addOrder_def
      new_group_def u32_def u64_def sort_orders_def group_match_def order_match_def crossQty_def addReport_def
      update_party_def group_empty_def order_key_def Let_def)

text \<open>The product of quantity and price is a 32 bit one: 100000 at 73.21 count as much as 1.13.\<close>

lemma account_volume_wraps:
  "longVolume (account_update BUY 100000 73210 new_account) = 3026032704"
  by (simp add: new_account_def u32_def)

end
