(* ===== verification/Order_Auction.thy ===== *)
theory Order_Auction
  imports Order_Book
begin

text \<open>
  The auction of PrestoLabs/src: the search for the price with the largest volume and the crossing at it
  (\<open>ProcessAuctionOrders\<close> of Rules.hpp with its functions in Book.hpp and Order.hpp). The orders are all
  in the books before anything is matched, and the build sorts by remaining quantity.
\<close>

section \<open>Cumulative quantities\<close>

definition consolidateGroupQty :: "int \<Rightarrow> group \<Rightarrow> group \<times> int" where
  "consolidateGroupQty sumSofar g =
     (let g = g\<lparr>mTotalQty := u64 (mTotalQty g + sumSofar)\<rparr> in (g, mTotalQty g))"

definition restoreGroupQty :: "group \<Rightarrow> group" where
  "restoreGroupQty g = g\<lparr>mLeavesQty := mTotalQty g\<rparr>"

fun consolidate_from :: "int \<Rightarrow> book \<Rightarrow> book" where
  "consolidate_from sumQty [] = []"
| "consolidate_from sumQty ((p, g) # b) =
     (case consolidateGroupQty sumQty g of (g, sumQty) \<Rightarrow> (p, g) # consolidate_from sumQty b)"

definition consolidateQty :: "book \<Rightarrow> book" where
  "consolidateQty b = consolidate_from 0 b"

definition restoreQty :: "book \<Rightarrow> book" where
  "restoreQty b = map (\<lambda>(p, g). (p, restoreGroupQty g)) b"

text \<open>\<open>Book::match\<close> of a quantity at a price: the group in front of \<open>upper_bound\<close>. The result says whether
  the quantity is met, and what is left of it.\<close>

definition book_match_qty :: "side \<Rightarrow> int \<Rightarrow> int \<Rightarrow> book \<Rightarrow> bool \<times> int" where
  "book_match_qty side qty crossPrice b =
     (case b of
        [] \<Rightarrow> (False, qty)
      | (p, _) # _ \<Rightarrow>
          if better side crossPrice p then (False, qty)
          else
            let g = snd (last (takeWhile (\<lambda>x. \<not> better side crossPrice (fst x)) b));
                qty = u64 (qty - min qty (mTotalQty g))
            in (qty = 0, qty))"

section \<open>The auction\<close>

text \<open>The volumes are products in \<open>double\<close>; they are exact thousandths here.\<close>

fun target_search :: "book \<Rightarrow> book \<Rightarrow> int \<Rightarrow> int \<Rightarrow> int" where
  "target_search sells [] maxVolume targetPrice = targetPrice"
| "target_search sells ((buyPrice, g) # buys) maxVolume targetPrice =
     (let qty = snd (book_match_qty SELL (mTotalQty g) buyPrice sells);
          totalCrossQty = u64 (mTotalQty g - qty)
      in if buyPrice * totalCrossQty > maxVolume
         then target_search sells buys (max maxVolume (totalCrossQty * buyPrice)) buyPrice
         else target_search sells buys maxVolume targetPrice)"

definition auction_target :: "book \<Rightarrow> book \<Rightarrow> int" where
  "auction_target buys sells = target_search sells buys 0 0"

text \<open>The orders of a group of buyers, one after the other, against the sellers.\<close>

fun cross_orders :: "order list \<Rightarrow> book \<Rightarrow> ledger \<Rightarrow> (order list \<times> book \<times> ledger) outcome" where
  "cross_orders [] sells l = Done ([], sells, l)"
| "cross_orders (x # xs) sells l =
     and_then (book_match False SELL x sells l) (\<lambda>(_, sells, x, l).
     and_then (cross_orders xs sells l) (\<lambda>(xs, sells, l). Done (x # xs, sells, l)))"

fun cross_groups :: "int \<Rightarrow> book \<Rightarrow> book \<Rightarrow> ledger \<Rightarrow> (book \<times> book \<times> ledger) outcome" where
  "cross_groups targetPrice [] sells l = Done ([], sells, l)"
| "cross_groups targetPrice ((p, g) # buys) sells l =
     (if targetPrice > p then Done ((p, g) # buys, sells, l)
      else
        and_then (cross_orders (sort_orders False (mOrders g)) sells l) (\<lambda>(os, sells, l).
        and_then (cross_groups targetPrice buys sells l) (\<lambda>(buys, sells, l).
          Done ((p, g\<lparr>mOrders := os\<rparr>) # buys, sells, l))))"

fun enter_orders :: "order list \<Rightarrow> market \<Rightarrow> market" where
  "enter_orders [] m = m"
| "enter_orders (x # xs) m =
     enter_orders xs
       (if o_Side x = BUY then m\<lparr>BookBuy := book_addOrder BUY (o_Price x) x (BookBuy m)\<rparr>
        else m\<lparr>BookSell := book_addOrder SELL (o_Price x) x (BookSell m)\<rparr>)"

definition process_auction :: "order list \<Rightarrow> (int \<times> market) outcome" where
  "process_auction xs =
     (let m = enter_orders xs new_market;
          buys = consolidateQty (BookBuy m);
          sells = consolidateQty (BookSell m);
          targetPrice = auction_target buys sells
      in and_then (cross_groups targetPrice buys (restoreQty sells) (ledger m)) (\<lambda>(buys, sells, l).
           Done (targetPrice, \<lparr>BookBuy = buys, BookSell = sells, ledger = l\<rparr>)))"

section \<open>The reference\<close>

text \<open>What is offered at a price or better, and what can be traded at it.\<close>

definition depth :: "side \<Rightarrow> book \<Rightarrow> int \<Rightarrow> int" where
  "depth side b price = sum_list (map (\<lambda>x. mTotalQty (snd x)) (levels side price b))"

definition volume :: "book \<Rightarrow> book \<Rightarrow> int \<Rightarrow> int" where
  "volume buys sells price = price * min (depth BUY buys price) (depth SELL sells price)"

definition in_order :: "side \<Rightarrow> book \<Rightarrow> bool" where
  "in_order side b \<longleftrightarrow> sorted_wrt (\<lambda>x y. better side (fst x) (fst y)) b \<and>
     list_all (\<lambda>x. 0 \<le> fst x \<and> 0 \<le> mTotalQty (snd x)) b \<and>
     sum_list (map (\<lambda>x. mTotalQty (snd x)) b) < 18446744073709551616"

abbreviation total_qty :: "book \<Rightarrow> int" where
  "total_qty b \<equiv> sum_list (map (\<lambda>x. mTotalQty (snd x)) b)"

lemma total_qty_nonneg: "list_all (\<lambda>x. 0 \<le> fst x \<and> 0 \<le> mTotalQty (snd x)) b \<Longrightarrow> 0 \<le> total_qty b"
  by (induction b) auto

lemma levels_prices:
  assumes "in_order side b" "x \<in> set b"
  shows "x \<in> set (levels side price b) \<longleftrightarrow> \<not> better side price (fst x)"
  using assms
proof (induction b)
  case (Cons y b)
  then show ?case
    using total_qty_nonneg [of b] by (auto simp: levels_def in_order_def dest: better_trans)
qed simp

text \<open>The group of the last level of a consolidated book carries the depth at a price.\<close>

lemma consolidate_prices: "map fst (consolidate_from s b) = map fst b"
  by (induction s b rule: consolidate_from.induct) (auto simp: consolidateGroupQty_def Let_def)

lemma consolidate_depth:
  assumes "list_all (\<lambda>x. 0 \<le> fst x \<and> 0 \<le> mTotalQty (snd x)) b" "0 \<le> s" "s + total_qty b < 18446744073709551616"
    and "levels side price b \<noteq> []"
  shows "mTotalQty (snd (last (takeWhile (\<lambda>x. \<not> better side price (fst x)) (consolidate_from s b)))) = s + depth side b price"
  using assms
proof (induction s b rule: consolidate_from.induct)
  case (1 s)
  then show ?case by (simp add: levels_def)
next
  case (2 s p g b)
  have nb: "\<not> better side price p" using "2.prems"(4) by (simp add: levels_def split: if_splits)
  have n: "0 \<le> total_qty b" using "2.prems"(1) by (intro total_qty_nonneg) simp
  then have u: "u64 (mTotalQty g + s) = mTotalQty g + s" using "2.prems" by (intro u64_id) auto
  let ?g = "g\<lparr>mTotalQty := mTotalQty g + s\<rparr>"
  have c: "consolidateGroupQty s g = (?g, mTotalQty g + s)" by (simp add: consolidateGroupQty_def u)
  show ?case
  proof (cases "levels side price b = []")
    case True
    then have "takeWhile (\<lambda>x. \<not> better side price (fst x)) (consolidate_from (mTotalQty g + s) b) = []"
      using consolidate_prices [of "mTotalQty g + s" b]
      by (cases b; cases "consolidate_from (mTotalQty g + s) b") (auto simp: levels_def split: if_splits)
    then show ?thesis using True nb c by (simp add: depth_def levels_def)
  next
    case False
    have "takeWhile (\<lambda>x. \<not> better side price (fst x)) (consolidate_from (mTotalQty g + s) b) \<noteq> []"
      using False consolidate_prices [of "mTotalQty g + s" b]
      by (cases b; cases "consolidate_from (mTotalQty g + s) b") (auto simp: levels_def split: if_splits)
    moreover have "mTotalQty (snd (last (takeWhile (\<lambda>x. \<not> better side price (fst x)) (consolidate_from (mTotalQty g + s) b))))
        = mTotalQty g + s + depth side b price"
      using "2.IH" [OF c [symmetric] _ _ _ False] "2.prems"(1-3) by simp
    ultimately show ?thesis using nb c by (simp add: depth_def levels_def)
  qed
qed


lemma consolidate_totals:
  assumes "in_order side b" "0 \<le> s" "s + total_qty b < 18446744073709551616"
  shows "list_all (\<lambda>x. mTotalQty (snd x) = s + depth side b (fst x)) (consolidate_from s b)"
  using assms
proof (induction s b rule: consolidate_from.induct)
  case (2 s p g b)
  have b: "in_order side b" using "2.prems"(1) total_qty_nonneg [of b] by (auto simp: in_order_def)
  then have n: "0 \<le> total_qty b" by (intro total_qty_nonneg) (simp add: in_order_def)
  then have u: "u64 (mTotalQty g + s) = mTotalQty g + s" using "2.prems" by (intro u64_id) (auto simp: in_order_def)
  have c: "consolidateGroupQty s g = (g\<lparr>mTotalQty := mTotalQty g + s\<rparr>, mTotalQty g + s)"
    by (simp add: consolidateGroupQty_def u)
  have "\<not> better side p p" by (cases side) auto
  moreover have "levels side p b = []"
    using "2.prems"(1) by (cases b) (auto simp: levels_def in_order_def)
  moreover have "depth side ((p, g) # b) (fst y) = mTotalQty g + depth side b (fst y)"
    if "y \<in> set (consolidate_from (mTotalQty g + s) b)" for y
  proof -
    have "fst y \<in> set (map fst b)" using that consolidate_prices [of "mTotalQty g + s" b] by (metis list.set_map imageI)
    then have "better side p (fst y)" using "2.prems"(1) by (auto simp: in_order_def)
    then have "\<not> better side (fst y) p" by (cases side) auto
    then show ?thesis by (simp add: depth_def levels_def)
  qed
  moreover have "list_all (\<lambda>x. mTotalQty (snd x) = mTotalQty g + s + depth side b (fst x)) (consolidate_from (mTotalQty g + s) b)"
    using "2.IH" [OF c [symmetric] b] "2.prems" by (simp add: in_order_def)
  ultimately show ?case using c by (auto simp: list_all_iff depth_def levels_def)
qed simp

lemma levels_nonneg: "in_order side b \<Longrightarrow> 0 \<le> depth side b price \<and> depth side b price \<le> total_qty b"
proof (induction b)
  case (Cons x b)
  then have "in_order side b" using total_qty_nonneg [of b] by (auto simp: in_order_def)
  then show ?case using Cons.IH Cons.prems total_qty_nonneg [of b] by (auto simp: depth_def levels_def in_order_def)
qed (simp add: depth_def levels_def)

lemma consolidated_match:
  assumes "in_order SELL sells" "0 \<le> qty" "qty < 18446744073709551616"
  shows "snd (book_match_qty SELL qty price (consolidateQty sells)) = qty - min qty (depth SELL sells price)"
proof (cases "levels SELL price sells = []")
  case True
  then have "book_match_qty SELL qty price (consolidateQty sells) = (False, qty)"
    using consolidate_prices [of 0 sells]
    by (cases sells; cases "consolidateQty sells") (auto simp: book_match_qty_def consolidateQty_def levels_def split: if_splits)
  then show ?thesis using True assms(2) by (simp add: depth_def)
next
  case False
  have l: "mTotalQty (snd (last (takeWhile (\<lambda>x. \<not> better SELL price (fst x)) (consolidateQty sells)))) = depth SELL sells price"
    using consolidate_depth [of sells 0 SELL price] False assms(1) by (simp add: in_order_def consolidateQty_def)
  obtain p g rest where c: "consolidateQty sells = (p, g) # rest" "\<not> better SELL price p"
    using False consolidate_prices [of 0 sells]
    by (cases sells; cases "consolidateQty sells") (auto simp: consolidateQty_def levels_def split: if_splits)
  have "u64 (qty - min qty (depth SELL sells price)) = qty - min qty (depth SELL sells price)"
    using assms(2,3) levels_nonneg [OF assms(1), of price] by (intro u64_id) auto
  then show ?thesis using c(2) l unfolding book_match_qty_def c(1) by (simp add: Let_def)
qed

lemma target_search_best:
  assumes "in_order SELL sells"
    and "list_all (\<lambda>x. mTotalQty (snd x) = D (fst x) \<and> 0 \<le> D (fst x) \<and> D (fst x) < 18446744073709551616) bs"
    and "sorted_wrt (\<lambda>x y. fst x > fst y) bs"
    and "r = target_search (consolidateQty sells) bs mv t" "f = (\<lambda>p. p * min (D p) (depth SELL sells p))"
  shows "r = t \<and> (\<forall>p\<in>fst ` set bs. f p \<le> mv) \<or>
    r \<in> fst ` set bs \<and> mv < f r \<and> (\<forall>p\<in>fst ` set bs. f p < f r \<or> f p = f r \<and> p \<le> r)"
  using assms(2-4)
proof (induction bs arbitrary: mv t)
  case (Cons x bs)
  obtain p g where x: "x = (p, g)" by fastforce
  have D: "mTotalQty g = D p" "0 \<le> D p" "D p < 18446744073709551616" using Cons.prems(1) x by simp_all
  have "0 \<le> depth SELL sells p" using levels_nonneg [OF assms(1)] by simp
  then have u: "u64 (D p - (D p - min (D p) (depth SELL sells p))) = min (D p) (depth SELL sells p)"
    using D by (subst u64_id) (auto simp: min_def)
  note m = consolidated_match [OF assms(1) D(2,3), of p]
  have st: "r = (if mv < f p then target_search (consolidateQty sells) bs (max mv (f p)) p
      else target_search (consolidateQty sells) bs mv t)"
    unfolding Cons.prems(3) x target_search.simps D(1) m u Let_def assms(5)
      mult.commute [of "min (D p) (depth SELL sells p)" p] ..
  have S: "fst ` set (x # bs) = insert p (fst ` set bs)" using x by simp
  have lt: "\<forall>q\<in>fst ` set bs. q < p" using Cons.prems(2) x by auto
  show ?case
  proof (cases "mv < f p")
    case True
    then have "r = target_search (consolidateQty sells) bs (f p) p" using st by (simp add: max_def)
    from Cons.IH [OF _ _ this] Cons.prems(1,2) consider "r = p" "\<forall>q\<in>fst ` set bs. f q \<le> f p"
      | "r \<in> fst ` set bs" "f p < f r" "\<forall>q\<in>fst ` set bs. f q < f r \<or> f q = f r \<and> q \<le> r" by auto
    then show ?thesis
    proof cases
      case 1
      then have "\<forall>q\<in>fst ` set bs. f q < f r \<or> f q = f r \<and> q \<le> r" using lt by (auto simp: le_less)
      then show ?thesis unfolding S using True 1(1) by simp
    next
      case 2
      then show ?thesis unfolding S using True by simp
    qed
  next
    case False
    from Cons.IH [of mv t] Cons.prems(1,2) st False consider "r = t" "\<forall>q\<in>fst ` set bs. f q \<le> mv"
      | "r \<in> fst ` set bs" "mv < f r" "\<forall>q\<in>fst ` set bs. f q < f r \<or> f q = f r \<and> q \<le> r" by auto
    then show ?thesis
    proof cases
      case 1
      then show ?thesis unfolding S using False by simp
    next
      case 2
      then show ?thesis unfolding S using False by simp
    qed
  qed
qed simp

section \<open>Properties\<close>


definition auction_buys :: book where
  "auction_buys = book_addOrder BUY 6000 (OrderEntry ''1'' ''Mal'' 6000 100 1 ''BUY'')
     (book_addOrder BUY 5000 (OrderEntry ''2'' ''Wash'' 5000 50 2 ''BUY'') [])"

definition auction_sells :: book where
  "auction_sells = book_addOrder SELL 4000 (OrderEntry ''3'' ''Simon'' 4000 130 3 ''SELL'') []"


text \<open>\<open>restoreQty\<close> gives a group the cumulative quantity of all better groups, which its orders never use up,
  so that the group stays in the book when its last order has gone.\<close>

lemma restore_cumulative:
  "map (\<lambda>x. mLeavesQty (snd x)) (restoreQty (consolidateQty
     [(4000, new_group\<lparr>mTotalQty := 10\<rparr>), (5000, new_group\<lparr>mTotalQty := 10\<rparr>)])) = [10, 20]"
  by (simp add: restoreQty_def restoreGroupQty_def consolidateQty_def consolidateGroupQty_def new_group_def u64_def Let_def)

end
