(* ===== verification/Ram_Disk.thy ===== *)
theory Ram_Disk
  imports Quantum_Store
begin

text \<open>
  The disk driver sbull (sbull/sbull.c of Kernel/Driver/ldd3-master): the transfer of sectors, the three
  ways to serve requests, the simulated change of media, the geometry, and the setting up and removal of
  the devices. Requests and bios are the block layer's, by what its documentation says of them.
\<close>

section \<open>Transfers\<close>

definition KERNEL_SECTOR_SIZE :: int where "KERNEL_SECTOR_SIZE = 512"

text \<open>\<open>size\<close> is a number of bytes. The data array is the object at an address with its cells.\<close>

record sbull_dev =
  sb_size :: int
  sb_data :: "(addr \<times> cell list) option"
  sb_users :: int
  sb_media_change :: int

definition s16 :: "int \<Rightarrow> int" where
  "s16 x = (x + 32768) mod 65536 - 32768"

text \<open>The two \<open>memcpy\<close> calls, on the memory of the device and on the buffer.\<close>

definition sbull_transfer ::
    "sbull_dev \<Rightarrow> int \<Rightarrow> int \<Rightarrow> cell list \<Rightarrow> bool \<Rightarrow> (sbull_dev \<times> cell list) outcome" where
  "sbull_transfer dev sector nsect buffer wr =
     (let offset = u64 (sector * KERNEL_SECTOR_SIZE);
          nbytes = u64 (nsect * KERNEL_SECTOR_SIZE)
      in if u64 (offset + nbytes) > u64 (sb_size dev) then Done (dev, buffer)
         else
           case sb_data dev of
             None \<Rightarrow> Crash Null_deref
           | Some (a, cs) \<Rightarrow>
               if wr
               then and_then (load_cells buffer 0 nbytes) (\<lambda>src.
                 and_then (store_cells cs offset src) (\<lambda>cs. Done (dev\<lparr>sb_data := Some (a, cs)\<rparr>, buffer)))
               else and_then (load_cells cs offset nbytes) (\<lambda>src.
                 and_then (store_cells buffer 0 src) (\<lambda>buffer. Done (dev, buffer))))"

section \<open>Requests\<close>

text \<open>A bio is a run of sectors in segments, each a number of sectors and a buffer; a request is a list
  of bios in one direction. \<open>bio_cur_sectors\<close> is the length of the segment at \<open>bi_idx\<close>, the first one
  that is not done.\<close>

type_synonym segment = "int \<times> cell list"

record bio =
  bi_sector :: int
  bi_segments :: "segment list"

record request =
  rq_fs :: bool
  rq_write :: bool
  rq_bios :: "bio list"

definition bio_cur_sectors :: "bio \<Rightarrow> int" where
  "bio_cur_sectors b = fst (hd (bi_segments b))"

definition bi_size :: "bio \<Rightarrow> int" where
  "bi_size b = sum_list (map fst (bi_segments b)) * KERNEL_SECTOR_SIZE"

text \<open>The segments one after the other, \<open>len\<close> sectors each.\<close>

fun xfer_segments ::
    "bool \<Rightarrow> (segment \<Rightarrow> int) \<Rightarrow> sbull_dev \<Rightarrow> int \<Rightarrow> segment list \<Rightarrow> (sbull_dev \<times> segment list) outcome" where
  "xfer_segments wr len dev sector [] = Done (dev, [])"
| "xfer_segments wr len dev sector (s # ss) =
     and_then (sbull_transfer dev sector (len s) (snd s) wr) (\<lambda>(dev, buffer).
     and_then (xfer_segments wr len dev (u64 (sector + len s)) ss) (\<lambda>(dev, ss).
       Done (dev, (fst s, buffer) # ss)))"

definition sbull_xfer_bio :: "sbull_dev \<Rightarrow> bool \<Rightarrow> bio \<Rightarrow> (sbull_dev \<times> bio) outcome" where
  "sbull_xfer_bio dev wr b =
     and_then (xfer_segments wr (\<lambda>_. bio_cur_sectors b) dev (bi_sector b) (bi_segments b)) (\<lambda>(dev, ss).
       Done (dev, b\<lparr>bi_segments := ss\<rparr>))"

fun sbull_xfer_bios :: "sbull_dev \<Rightarrow> bool \<Rightarrow> bio list \<Rightarrow> int \<Rightarrow> (sbull_dev \<times> bio list \<times> int) outcome" where
  "sbull_xfer_bios dev wr [] nsect = Done (dev, [], nsect)"
| "sbull_xfer_bios dev wr (b # bs) nsect =
     and_then (sbull_xfer_bio dev wr b) (\<lambda>(dev, b).
     and_then (sbull_xfer_bios dev wr bs (s32 (nsect + bi_size b div KERNEL_SECTOR_SIZE))) (\<lambda>(dev, bs, nsect).
       Done (dev, b # bs, nsect)))"

definition sbull_xfer_request :: "sbull_dev \<Rightarrow> request \<Rightarrow> (sbull_dev \<times> request \<times> int) outcome" where
  "sbull_xfer_request dev req =
     and_then (sbull_xfer_bios dev (rq_write req) (rq_bios req) 0) (\<lambda>(dev, bs, nsect).
       Done (dev, req\<lparr>rq_bios := bs\<rparr>, nsect))"

text \<open>\<open>elv_next_request\<close> gives the first request of the queue until it is done. \<open>end_request\<close> ends its
  current segment, and the request with the last one: in the loop of \<open>sbull_request\<close> every segment is one
  turn, with its own length. The result of a queue is, for every request, whether it succeeded.\<close>

fun sbull_request_bios :: "sbull_dev \<Rightarrow> bool \<Rightarrow> bio list \<Rightarrow> (sbull_dev \<times> bio list) outcome" where
  "sbull_request_bios dev wr [] = Done (dev, [])"
| "sbull_request_bios dev wr (b # bs) =
     and_then (xfer_segments wr fst dev (bi_sector b) (bi_segments b)) (\<lambda>(dev, ss).
     and_then (sbull_request_bios dev wr bs) (\<lambda>(dev, bs). Done (dev, b\<lparr>bi_segments := ss\<rparr> # bs)))"

fun sbull_request :: "sbull_dev \<Rightarrow> request list \<Rightarrow> (sbull_dev \<times> (request \<times> bool) list) outcome" where
  "sbull_request dev [] = Done (dev, [])"
| "sbull_request dev (req # q) =
     (if \<not> rq_fs req
      then and_then (sbull_request dev q) (\<lambda>(dev, q). Done (dev, (req, False) # q))
      else
        and_then (sbull_request_bios dev (rq_write req) (rq_bios req)) (\<lambda>(dev, bs).
        and_then (sbull_request dev q) (\<lambda>(dev, q). Done (dev, (req\<lparr>rq_bios := bs\<rparr>, True) # q))))"

text \<open>\<open>end_that_request_first\<close> is told the number of sectors and leaves nothing when it is that of the
  request; otherwise the request would stay in the queue and the loop with it, which is \<open>Block\<close> here and
  does not happen.\<close>

definition request_sectors :: "request \<Rightarrow> int" where
  "request_sectors req = sum_list (map (\<lambda>b. bi_size b div KERNEL_SECTOR_SIZE) (rq_bios req))"

fun sbull_full_request :: "sbull_dev \<Rightarrow> request list \<Rightarrow> (sbull_dev \<times> (request \<times> bool) list) outcome" where
  "sbull_full_request dev [] = Done (dev, [])"
| "sbull_full_request dev (req # q) =
     (if \<not> rq_fs req
      then and_then (sbull_full_request dev q) (\<lambda>(dev, q). Done (dev, (req, False) # q))
      else
        and_then (sbull_xfer_request dev req) (\<lambda>(dev, req', sectors_xferred).
          if sectors_xferred \<ge> request_sectors req
          then and_then (sbull_full_request dev q) (\<lambda>(dev, q). Done (dev, (req', True) # q))
          else Block))"

text \<open>Without a queue the status is always 0.\<close>

definition sbull_make_request :: "sbull_dev \<Rightarrow> bool \<Rightarrow> bio \<Rightarrow> (sbull_dev \<times> bio \<times> int) outcome" where
  "sbull_make_request dev wr b =
     and_then (sbull_xfer_bio dev wr b) (\<lambda>(dev, b). Done (dev, b, 0))"

section \<open>The disk as a sequence of cells\<close>

text \<open>A device whose data array has the size it says.\<close>

definition disk_ok :: "sbull_dev \<Rightarrow> bool" where
  "disk_ok dev \<longleftrightarrow> (\<exists>a cs. sb_data dev = Some (a, cs) \<and> int (length cs) = sb_size dev) \<and> sb_size dev < 2147483648"

definition disk_cells :: "sbull_dev \<Rightarrow> cell list" where
  "disk_cells dev = (case sb_data dev of None \<Rightarrow> [] | Some (a, cs) \<Rightarrow> cs)"

text \<open>A transfer the block layer may ask for, with a buffer of its length.\<close>

definition sectors_ok :: "int \<Rightarrow> int \<Rightarrow> cell list \<Rightarrow> bool" where
  "sectors_ok sector nsect buffer \<longleftrightarrow> 0 \<le> sector \<and> 0 \<le> nsect \<and>
     sector + nsect < 36028797018963968 \<and> int (length buffer) = nsect * 512"

definition within_disk :: "sbull_dev \<Rightarrow> int \<Rightarrow> int \<Rightarrow> bool" where
  "within_disk dev sector nsect \<longleftrightarrow> (sector + nsect) * 512 \<le> sb_size dev"

definition overwrite :: "nat \<Rightarrow> 'a list \<Rightarrow> 'a list \<Rightarrow> 'a list" where
  "overwrite off new cs = take off cs @ new @ drop (off + length new) cs"

lemma transfer_spec:
  assumes "disk_ok dev" "sectors_ok sector nsect buffer"
  obtains dev' where
    "sbull_transfer dev sector nsect buffer wr = Done (dev',
       if within_disk dev sector nsect \<and> \<not> wr then take (nat (nsect * 512)) (drop (nat (sector * 512)) (disk_cells dev))
       else buffer)"
    "disk_ok dev'" "sb_size dev' = sb_size dev"
    "disk_cells dev' = (if within_disk dev sector nsect \<and> wr
       then overwrite (nat (sector * 512)) buffer (disk_cells dev) else disk_cells dev)"
proof -
  obtain a cs where cs: "sb_data dev = Some (a, cs)" "int (length cs) = sb_size dev" "sb_size dev < 2147483648"
    using assms(1) by (auto simp: disk_ok_def)
  have s: "0 \<le> sector" "0 \<le> nsect" "sector + nsect < 36028797018963968" "int (length buffer) = nsect * 512"
    using assms(2) by (simp_all add: sectors_ok_def)
  have u: "u64 (sector * 512) = sector * 512" "u64 (nsect * 512) = nsect * 512"
    "u64 (sector * 512 + nsect * 512) = sector * 512 + nsect * 512"
    "u64 (sb_size dev) = sb_size dev"
    using s cs(2,3) by (intro u64_id; linarith)+
  have e: "(sector * 512 + nsect * 512 > sb_size dev) = (\<not> within_disk dev sector nsect)"
    by (auto simp: within_disk_def algebra_simps)
  show ?thesis
  proof (cases "within_disk dev sector nsect")
    case False
    then have "sbull_transfer dev sector nsect buffer wr = Done (dev, buffer)"
      using u e by (simp add: sbull_transfer_def KERNEL_SECTOR_SIZE_def Let_def)
    then show ?thesis using False assms(1) by (intro that [of dev]) simp_all
  next
    case True
    then have le: "sector * 512 + nsect * 512 \<le> int (length cs)" using cs(2) by (simp add: within_disk_def algebra_simps)
    show ?thesis
    proof (cases wr)
      case w: True
      let ?cs = "overwrite (nat (sector * 512)) buffer cs"
      have b: "load_cells buffer 0 (nsect * 512) = Done buffer" using s(4) by (simp add: load_cells_def)
      have st: "store_cells cs (sector * 512) buffer = Done ?cs"
        using s le by (simp add: store_cells_def overwrite_def)
      have len: "length ?cs = length cs" using s le by (simp add: overwrite_def)
      have "sbull_transfer dev sector nsect buffer wr = Done (dev\<lparr>sb_data := Some (a, ?cs)\<rparr>, buffer)"
        using u e True cs(1) w b st by (simp add: sbull_transfer_def KERNEL_SECTOR_SIZE_def Let_def)
      then show ?thesis using True w cs len
        by (intro that [of "dev\<lparr>sb_data := Some (a, ?cs)\<rparr>"]) (simp_all add: disk_ok_def disk_cells_def)
    next
      case r: False
      let ?src = "take (nat (nsect * 512)) (drop (nat (sector * 512)) cs)"
      have ld: "load_cells cs (sector * 512) (nsect * 512) = Done ?src" using s le by (simp add: load_cells_def)
      have "length ?src = length buffer" using s le by simp
      then have st: "store_cells buffer 0 ?src = Done ?src" by (simp add: store_cells_def)
      have "sbull_transfer dev sector nsect buffer wr = Done (dev, ?src)"
        using u e True cs(1) r ld st by (simp add: sbull_transfer_def KERNEL_SECTOR_SIZE_def Let_def)
      then show ?thesis using True r cs assms(1) by (intro that [of dev]) (simp_all add: disk_cells_def)
    qed
  qed
qed

lemma overwrite_read: "off + length new \<le> length cs \<Longrightarrow> take (length new) (drop off (overwrite off new cs)) = new"
  by (simp add: overwrite_def)


section \<open>The three ways to serve a request\<close>

text \<open>All segments of a bio have the length of the first one.\<close>

definition uniform :: "bio \<Rightarrow> bool" where
  "uniform b \<longleftrightarrow> list_all (\<lambda>s. fst s = bio_cur_sectors b \<and> 0 \<le> fst s) (bi_segments b)"

definition request_ok :: "request \<Rightarrow> bool" where
  "request_ok req \<longleftrightarrow> list_all uniform (rq_bios req) \<and> request_sectors req < 2147483648"

lemma xfer_segments_cong:
  "(\<And>s. s \<in> set ss \<Longrightarrow> f s = g s) \<Longrightarrow> xfer_segments wr f dev sector ss = xfer_segments wr g dev sector ss"
  by (induction ss arbitrary: dev sector) auto

lemma xfer_segments_lengths:
  "xfer_segments wr f dev sector ss = Done (dev', ss') \<Longrightarrow> map fst ss' = map fst ss"
  by (induction ss arbitrary: dev sector ss') (auto simp: and_then_Done_iff)

lemma uniform_size: "uniform b \<Longrightarrow> 0 \<le> bi_size b div KERNEL_SECTOR_SIZE"
proof -
  assume "uniform b"
  then have "0 \<le> sum_list (map fst (bi_segments b))"
    unfolding uniform_def by (intro sum_list_nonneg) (auto simp: list_all_iff)
  then show ?thesis by (simp add: bi_size_def KERNEL_SECTOR_SIZE_def)
qed

lemma xfer_bio_uniform:
  "uniform b \<Longrightarrow> sbull_xfer_bio dev wr b =
    and_then (xfer_segments wr fst dev (bi_sector b) (bi_segments b)) (\<lambda>(dev, ss). Done (dev, b\<lparr>bi_segments := ss\<rparr>))"
  unfolding sbull_xfer_bio_def
  by (subst xfer_segments_cong [where g = fst]) (auto simp: uniform_def list_all_iff)

lemma and_then_prod: "and_then (and_then m f) g = and_then m (\<lambda>x. and_then (f x) g)"
  by (cases m) auto

lemma xfer_bios_request:
  assumes "list_all uniform bs" "0 \<le> n" "n + sum_list (map (\<lambda>b. bi_size b div KERNEL_SECTOR_SIZE) bs) < 2147483648"
  shows "sbull_xfer_bios dev wr bs n = and_then (sbull_request_bios dev wr bs) (\<lambda>(dev, bs').
    Done (dev, bs', n + sum_list (map (\<lambda>b. bi_size b div KERNEL_SECTOR_SIZE) bs)))"
  using assms
proof (induction bs arbitrary: dev n)
  case (Cons b bs)
  let ?k = "bi_size b div KERNEL_SECTOR_SIZE" and ?sum = "sum_list (map (\<lambda>b. bi_size b div KERNEL_SECTOR_SIZE) bs)"
  have u: "uniform b" "list_all uniform bs" using Cons.prems(1) by simp_all
  have "0 \<le> ?sum" using u(2) by (intro sum_list_nonneg) (auto simp: list_all_iff uniform_size)
  then have IH1: "s32 (n + ?k) = n + ?k" using Cons.prems(2,3) uniform_size [OF u(1)] by (intro s32_id) auto
  have IH2: "sbull_xfer_bios d wr bs (n + ?k) = and_then (sbull_request_bios d wr bs) (\<lambda>(dev, bs').
      Done (dev, bs', n + ?k + ?sum))" for d
    using Cons.IH [OF u(2), of "n + ?k"] Cons.prems(2,3) uniform_size [OF u(1)] by (simp add: add.assoc)
  have IH3: "sbull_xfer_bios d wr bs (s32 (n + bi_size (b\<lparr>bi_segments := ss\<rparr>) div KERNEL_SECTOR_SIZE)) =
      sbull_xfer_bios d wr bs (n + ?k)" if "map fst ss = map fst (bi_segments b)" for d ss
    using that IH1 by (simp add: bi_size_def)
  have IH4: "map fst ss = map fst (bi_segments b)"
    if "xfer_segments wr fst dev s0 (bi_segments b) = Done (d, ss)" for s0 d ss
    using that by (rule xfer_segments_lengths)
  show ?case
  proof (cases "xfer_segments wr fst dev (bi_sector b) (bi_segments b)")
    case (Done x)
    obtain d ss where x: "x = (d, ss)" by fastforce
    then have "sbull_xfer_bios d wr bs (s32 (n + bi_size (b\<lparr>bi_segments := ss\<rparr>) div KERNEL_SECTOR_SIZE)) =
        and_then (sbull_request_bios d wr bs) (\<lambda>(dev, bs'). Done (dev, bs', n + (?k + ?sum)))"
      using IH3 [OF IH4 [OF Done [unfolded x]]] IH2 by (simp add: add.assoc)
    then show ?thesis
      using Done x by (cases "sbull_request_bios d wr bs") (auto simp: xfer_bio_uniform [OF u(1)] and_then_prod add.assoc)
  qed (simp_all add: xfer_bio_uniform [OF u(1)])
qed simp


lemma full_request_simple:
  "list_all request_ok q \<Longrightarrow> sbull_full_request dev q = sbull_request dev q"
proof (induction q arbitrary: dev)
  case (Cons req q)
  then have r: "list_all uniform (rq_bios req)" "request_sectors req < 2147483648" and
    IH: "sbull_full_request d q = sbull_request d q" for d
    by (simp_all add: request_ok_def)
  have "sbull_xfer_request dev req = and_then (sbull_request_bios dev (rq_write req) (rq_bios req)) (\<lambda>(dev, bs').
      Done (dev, req\<lparr>rq_bios := bs'\<rparr>, request_sectors req))"
    using xfer_bios_request [OF r(1), of 0] r(2)
    by (cases "sbull_request_bios dev (rq_write req) (rq_bios req)")
      (auto simp: sbull_xfer_request_def request_sectors_def)
  then show ?case
    by (cases "sbull_request_bios dev (rq_write req) (rq_bios req)") (auto simp: IH)
qed simp

section \<open>Change of media\<close>

text \<open>The timer of the device with the time it expires at. \<open>add_timer\<close> of a timer that is pending is a
  bug the kernel stops at, which is \<open>None\<close>.\<close>

definition HZ :: int where "HZ = 1000"
definition INVALIDATE_DELAY :: int where "INVALIDATE_DELAY = 30 * HZ"

type_synonym timer = "int option"

definition add_timer :: "int \<Rightarrow> timer \<Rightarrow> timer option" where
  "add_timer expires t = (case t of None \<Rightarrow> Some (Some expires) | Some _ \<Rightarrow> None)"

definition sbull_media_changed :: "sbull_dev \<Rightarrow> int" where
  "sbull_media_changed dev = sb_media_change dev"

definition sbull_revalidate :: "sbull_dev \<Rightarrow> sbull_dev" where
  "sbull_revalidate dev =
     (if sb_media_change dev \<noteq> 0
      then dev\<lparr>sb_media_change := 0,
        sb_data := map_option (\<lambda>(a, cs). (a, replicate (length cs) (Some 0))) (sb_data dev)\<rparr>
      else dev)"

text \<open>\<open>sbull_open\<close> deletes the timer before it takes the lock; \<open>check_disk_change\<close> revalidates when the
  media has changed.\<close>

definition check_disk_change :: "sbull_dev \<Rightarrow> sbull_dev" where
  "check_disk_change dev = (if sbull_media_changed dev \<noteq> 0 then sbull_revalidate dev else dev)"

definition sbull_open_locked :: "sbull_dev \<Rightarrow> sbull_dev" where
  "sbull_open_locked dev =
     (let dev = (if sb_users dev = 0 then check_disk_change dev else dev)
      in dev\<lparr>sb_users := s16 (sb_users dev + 1)\<rparr>)"

definition sbull_release :: "int \<Rightarrow> sbull_dev \<Rightarrow> timer \<Rightarrow> (sbull_dev \<times> timer) option" where
  "sbull_release jiffies dev t =
     (let dev = dev\<lparr>sb_users := s16 (sb_users dev - 1)\<rparr>
      in if sb_users dev = 0 then map_option (Pair dev) (add_timer (jiffies + INVALIDATE_DELAY) t)
         else Some (dev, t))"

definition sbull_invalidate :: "sbull_dev \<Rightarrow> sbull_dev" where
  "sbull_invalidate dev =
     (if sb_users dev \<noteq> 0 \<or> sb_data dev = None then dev else dev\<lparr>sb_media_change := 1\<rparr>)"

text \<open>A system of processes that open and release the device: the device, the timer, the clock, how many
  processes have the device open, and how many are between the deletion of the timer and the lock.\<close>

record media =
  md_dev :: sbull_dev
  md_timer :: timer
  md_now :: int
  md_files :: nat
  md_opening :: nat

inductive media_step :: "media \<Rightarrow> media \<Rightarrow> bool" where
  Open_timer: "media_step m (m\<lparr>md_timer := None, md_opening := Suc (md_opening m)\<rparr>)"
| Open_lock: "0 < md_opening m \<Longrightarrow> md_files m < 32767 \<Longrightarrow>
    media_step m (m\<lparr>md_dev := sbull_open_locked (md_dev m), md_files := Suc (md_files m),
      md_opening := md_opening m - 1\<rparr>)"
| Release: "0 < md_files m \<Longrightarrow> sbull_release (md_now m) (md_dev m) (md_timer m) = Some (dev, t) \<Longrightarrow>
    media_step m (m\<lparr>md_dev := dev, md_timer := t, md_files := md_files m - 1\<rparr>)"
| Clock: "media_step m (m\<lparr>md_now := md_now m + 1\<rparr>)"
| Expire: "md_timer m = Some e \<Longrightarrow> e \<le> md_now m \<Longrightarrow>
    media_step m (m\<lparr>md_dev := sbull_invalidate (md_dev m), md_timer := None\<rparr>)"
| Transfer: "0 < md_files m \<Longrightarrow> sbull_transfer (md_dev m) sector nsect buffer wr = Done (dev, buffer') \<Longrightarrow>
    media_step m (m\<lparr>md_dev := dev\<rparr>)"

inductive_cases media_stepE: "media_step m m'"

inductive media_reach :: "media \<Rightarrow> media \<Rightarrow> bool" for start where
  "media_reach start start"
| "media_reach start m \<Longrightarrow> media_step m m' \<Longrightarrow> media_reach start m'"

definition media_start :: "sbull_dev \<Rightarrow> media" where
  "media_start dev = \<lparr>md_dev = dev\<lparr>sb_users := 0, sb_media_change := 0\<rparr>, md_timer = None, md_now = 0,
     md_files = 0, md_opening = 0\<rparr>"

definition media_inv :: "media \<Rightarrow> bool" where
  "media_inv m \<longleftrightarrow> sb_users (md_dev m) = int (md_files m) \<and> md_files m \<le> 32767 \<and>
     (sb_media_change (md_dev m) \<noteq> 0 \<longrightarrow> md_files m = 0)"

lemma s16_id: "- 32768 \<le> x \<Longrightarrow> x < 32768 \<Longrightarrow> s16 x = x"
  by (simp add: s16_def)

lemma transfer_frame:
  "sbull_transfer dev sector nsect buffer wr = Done (dev', buffer') \<Longrightarrow>
    sb_users dev' = sb_users dev \<and> sb_media_change dev' = sb_media_change dev"
  by (auto simp: sbull_transfer_def Let_def and_then_Done_iff split: if_splits option.splits)

lemma media_step_inv:
  assumes "media_step m m'" "media_inv m"
  shows "media_inv m'"
  using assms(1)
proof cases
  case Open_lock
  have "s16 (int (md_files m) + 1) = int (md_files m) + 1" using Open_lock(3) by (intro s16_id) auto
  then show ?thesis
    using assms(2) Open_lock
    by (auto simp: media_inv_def sbull_open_locked_def check_disk_change_def sbull_media_changed_def
        sbull_revalidate_def Let_def)
next
  case (Release dev t)
  have "s16 (int (md_files m) - 1) = int (md_files m) - 1" using Release(2) assms(2) by (intro s16_id) (auto simp: media_inv_def)
  then show ?thesis
    using assms(2) Release by (auto simp: media_inv_def sbull_release_def Let_def split: if_splits)
next
  case (Expire e)
  then show ?thesis using assms(2) by (auto simp: media_inv_def sbull_invalidate_def)
next
  case (Transfer sector nsect buffer wr dev buffer')
  then show ?thesis using assms(2) transfer_frame [OF Transfer(3)] by (simp add: media_inv_def)
qed (use assms(2) in \<open>simp_all add: media_inv_def\<close>)

lemma media_reach_inv: "media_reach (media_start dev) m \<Longrightarrow> media_inv m"
proof (induction rule: media_reach.induct)
  case 1
  then show ?case by (simp add: media_inv_def media_start_def)
next
  case (2 m m')
  then show ?case by (rule_tac media_step_inv)
qed


section \<open>Geometry\<close>

text \<open>The numbers of cylinders, heads and sectors and the start. \<open>cylinders\<close> is an \<open>unsigned short\<close>;
  \<open>room\<close> says whether the caller's structure is accessible. \<open>None\<close> is the result of an unknown command.\<close>

definition HDIO_GETGEO :: int where "HDIO_GETGEO = 0x301"

definition sbull_ioctl :: "int \<Rightarrow> bool \<Rightarrow> int \<Rightarrow> sbull_dev \<Rightarrow> (errno + int) \<times> (int \<times> int \<times> int \<times> int) option" where
  "sbull_ioctl hardsect_size room cmd dev =
     (if cmd = HDIO_GETGEO then
        let size = s32 (sb_size dev * (hardsect_size sdiv KERNEL_SECTOR_SIZE));
            cylinders = drop_bit 6 (and size (not 0x3f)) mod 65536
        in if room then (Inr 0, Some (cylinders, 4, 16, 4)) else (Inl EFAULT, None)
      else (Inl ENOTTY, None))"

section \<open>Devices\<close>

text \<open>The block layer: queues and disks by number; request \<open>n\<close> of one of them fails when \<open>bk_refuse n\<close> says so.\<close>

record blk =
  bk_mem :: kmem
  bk_next :: nat
  bk_refuse :: "nat \<Rightarrow> bool"
  bk_queues :: "nat list"
  bk_disks :: "nat list"

definition blk_init_queue :: "blk \<Rightarrow> nat option \<times> blk" where
  "blk_init_queue b =
     (let n = bk_next b; b = b\<lparr>bk_next := Suc n\<rparr> in
      if bk_refuse b n then (None, b) else (Some n, b\<lparr>bk_queues := n # bk_queues b\<rparr>))"

definition alloc_disk :: "blk \<Rightarrow> nat option \<times> blk" where
  "alloc_disk b =
     (let n = bk_next b; b = b\<lparr>bk_next := Suc n\<rparr> in
      if bk_refuse b n then (None, b) else (Some n, b\<lparr>bk_disks := n # bk_disks b\<rparr>))"

record sbull_unit =
  un_dev :: sbull_dev
  un_queue :: "nat option"
  un_gd :: "nat option"

text \<open>\<open>vfree\<close> on the failure path leaves \<open>dev->data\<close> as it is.\<close>

definition setup_device :: "int \<Rightarrow> int \<Rightarrow> blk \<Rightarrow> (sbull_unit \<times> blk) outcome" where
  "setup_device nsectors hardsect_size b =
     (let size = s32 (nsectors * hardsect_size) in
      case kmalloc size (bk_mem b) of
        (None, k) \<Rightarrow> Done (\<lparr>un_dev = \<lparr>sb_size = size, sb_data = None, sb_users = 0, sb_media_change = 0\<rparr>,
            un_queue = None, un_gd = None\<rparr>, b\<lparr>bk_mem := k\<rparr>)
      | (Some a, k) \<Rightarrow>
          let dev = \<lparr>sb_size = size, sb_data = Some (a, replicate (nat size) None), sb_users = 0, sb_media_change = 0\<rparr> in
          (case blk_init_queue (b\<lparr>bk_mem := k\<rparr>) of
             (None, b) \<Rightarrow> and_then (kfree a (bk_mem b)) (\<lambda>k.
               Done (\<lparr>un_dev = dev, un_queue = None, un_gd = None\<rparr>, b\<lparr>bk_mem := k\<rparr>))
           | (Some q, b) \<Rightarrow>
               (case alloc_disk b of
                  (None, b) \<Rightarrow> and_then (kfree a (bk_mem b)) (\<lambda>k.
                    Done (\<lparr>un_dev = dev, un_queue = Some q, un_gd = None\<rparr>, b\<lparr>bk_mem := k\<rparr>))
                | (Some gd, b) \<Rightarrow> Done (\<lparr>un_dev = dev, un_queue = Some q, un_gd = Some gd\<rparr>, b))))"

fun setup_devices :: "int \<Rightarrow> int \<Rightarrow> nat \<Rightarrow> blk \<Rightarrow> (sbull_unit list \<times> blk) outcome" where
  "setup_devices nsectors hardsect_size 0 b = Done ([], b)"
| "setup_devices nsectors hardsect_size (Suc n) b =
     and_then (setup_device nsectors hardsect_size b) (\<lambda>(u, b).
     and_then (setup_devices nsectors hardsect_size n b) (\<lambda>(us, b). Done (u # us, b)))"

text \<open>\<open>bytes\<close> is the size of the structure of a device; the registered major number is given.\<close>

definition sbull_init ::
    "int \<Rightarrow> int \<Rightarrow> int \<Rightarrow> int \<Rightarrow> int \<Rightarrow> blk \<Rightarrow> ((errno + int) \<times> (addr \<times> sbull_unit list) option \<times> blk) outcome" where
  "sbull_init bytes major ndevices nsectors hardsect_size b =
     (if major \<le> 0 then Done (Inl EBUSY, None, b)
      else case kmalloc (ndevices * bytes) (bk_mem b) of
        (None, k) \<Rightarrow> Done (Inl ENOMEM, None, b\<lparr>bk_mem := k\<rparr>)
      | (Some a, k) \<Rightarrow>
          and_then (setup_devices nsectors hardsect_size (nat ndevices) (b\<lparr>bk_mem := k\<rparr>)) (\<lambda>(us, b).
            Done (Inr 0, Some (a, us), b)))"

definition remove_device :: "sbull_unit \<Rightarrow> blk \<Rightarrow> blk outcome" where
  "remove_device u b =
     (let b = (case un_gd u of None \<Rightarrow> b | Some gd \<Rightarrow> b\<lparr>bk_disks := remove1 gd (bk_disks b)\<rparr>);
          b = (case un_queue u of None \<Rightarrow> b | Some q \<Rightarrow> b\<lparr>bk_queues := remove1 q (bk_queues b)\<rparr>)
      in case sb_data (un_dev u) of
           None \<Rightarrow> Done b
         | Some (a, _) \<Rightarrow> and_then (kfree a (bk_mem b)) (\<lambda>k. Done (b\<lparr>bk_mem := k\<rparr>)))"

fun remove_devices :: "sbull_unit list \<Rightarrow> blk \<Rightarrow> blk outcome" where
  "remove_devices [] b = Done b"
| "remove_devices (u # us) b = and_then (remove_device u b) (remove_devices us)"

definition sbull_exit :: "addr \<times> sbull_unit list \<Rightarrow> blk \<Rightarrow> blk outcome" where
  "sbull_exit ds b =
     and_then (remove_devices (snd ds) b) (\<lambda>b.
     and_then (kfree (fst ds) (bk_mem b)) (\<lambda>k. Done (b\<lparr>bk_mem := k\<rparr>)))"

text \<open>What a device holds.\<close>

definition unit_addrs :: "sbull_unit list \<Rightarrow> addr list" where
  "unit_addrs us = concat (map (\<lambda>u. case sb_data (un_dev u) of None \<Rightarrow> [] | Some (a, _) \<Rightarrow> [a]) us)"

definition unit_queues :: "sbull_unit list \<Rightarrow> nat list" where
  "unit_queues us = concat (map (\<lambda>u. case un_queue u of None \<Rightarrow> [] | Some q \<Rightarrow> [q]) us)"

definition unit_disks :: "sbull_unit list \<Rightarrow> nat list" where
  "unit_disks us = concat (map (\<lambda>u. case un_gd u of None \<Rightarrow> [] | Some q \<Rightarrow> [q]) us)"

definition holds :: "blk \<Rightarrow> sbull_unit list \<Rightarrow> blk \<Rightarrow> bool" where
  "holds b us b' \<longleftrightarrow> (\<forall>f. accounted (bk_mem b) f (bk_mem b') (unit_addrs us @ f)) \<and>
     mset (bk_queues b') = mset (unit_queues us) + mset (bk_queues b) \<and>
     mset (bk_disks b') = mset (unit_disks us) + mset (bk_disks b) \<and> bk_refuse b' = bk_refuse b"

lemma unit_simps [simp]:
  "unit_addrs [] = []" "unit_queues [] = []" "unit_disks [] = []"
  "unit_addrs (u # us) = (case sb_data (un_dev u) of None \<Rightarrow> [] | Some (a, _) \<Rightarrow> [a]) @ unit_addrs us"
  "unit_queues (u # us) = (case un_queue u of None \<Rightarrow> [] | Some q \<Rightarrow> [q]) @ unit_queues us"
  "unit_disks (u # us) = (case un_gd u of None \<Rightarrow> [] | Some q \<Rightarrow> [q]) @ unit_disks us"
  by (simp_all add: unit_addrs_def unit_queues_def unit_disks_def)

text \<open>As long as the block layer refuses nothing.\<close>

lemma setup_device_holds:
  assumes "\<And>n. \<not> bk_refuse b n"
  obtains u b' where "setup_device nsectors hardsect_size b = Done (u, b')" "holds b [u] b'"
proof -
  let ?size = "s32 (nsectors * hardsect_size)"
  show ?thesis
  proof (cases "kmalloc ?size (bk_mem b)")
    case k: (Pair r k)
    show ?thesis
    proof (cases r)
      case None
      then show ?thesis using k that kmalloc_accounted(2)
        by (fastforce simp: setup_device_def Let_def holds_def)
    next
      case (Some a)
      have "accounted (bk_mem b) f k (a # f)" for f using k Some by (auto intro: kmalloc_accounted(1))
      then show ?thesis using k Some assms that
        by (simp add: setup_device_def blk_init_queue_def alloc_disk_def Let_def holds_def)
    qed
  qed
qed

lemma setup_devices_holds:
  assumes "\<And>n. \<not> bk_refuse b n"
  shows "\<exists>us b'. setup_devices nsectors hardsect_size n b = Done (us, b') \<and> holds b us b'"
  using assms
proof (induction n arbitrary: b)
  case 0
  then show ?case by (simp add: holds_def)
next
  case (Suc n)
  obtain u b1 where u: "setup_device nsectors hardsect_size b = Done (u, b1)" "holds b [u] b1"
    by (rule setup_device_holds [OF Suc.prems]) (rule that)
  then have "\<And>n. \<not> bk_refuse b1 n" using Suc.prems by (simp add: holds_def)
  from Suc.IH [OF this] obtain us b2 where us: "setup_devices nsectors hardsect_size n b1 = Done (us, b2)" "holds b1 us b2"
    by blast
  have "accounted (bk_mem b) f (bk_mem b2) (unit_addrs (u # us) @ f)" for f
  proof -
    have "accounted (bk_mem b) f (bk_mem b2) (unit_addrs us @ unit_addrs [u] @ f)"
      using u(2) us(2) accounted_trans by (meson holds_def)
    then show ?thesis by (subst accounted_mset [where as' = f and bs' = "unit_addrs us @ unit_addrs [u] @ f"]) simp_all
  qed
  then have "holds b (u # us) b2" using u(2) us(2) by (simp add: holds_def ac_simps)
  then show ?case using u(1) us(1) by simp
qed

lemma remove_devices_result:
  assumes "owns (unit_addrs us @ f) (bk_mem b)"
  shows "\<exists>k. remove_devices us b = Done (b\<lparr>bk_mem := k, bk_queues := fold remove1 (unit_queues us) (bk_queues b),
      bk_disks := fold remove1 (unit_disks us) (bk_disks b)\<rparr>) \<and> owns f k \<and>
      km_live k = km_live (bk_mem b) |` (- set (unit_addrs us))"
  using assms
proof (induction us arbitrary: b)
  case Nil
  have "b = b\<lparr>bk_mem := bk_mem b, bk_queues := bk_queues b, bk_disks := bk_disks b\<rparr>" by simp
  moreover have "km_live (bk_mem b) |` UNIV = km_live (bk_mem b)" by (simp add: restrict_map_def)
  ultimately show ?case using Nil by (intro exI [of _ "bk_mem b"]) simp
next
  case (Cons u us)
  let ?d = "fold remove1 (unit_disks [u]) (bk_disks b)" and ?q = "fold remove1 (unit_queues [u]) (bk_queues b)"
  obtain k where k: "remove_device u b = Done (b\<lparr>bk_mem := k, bk_queues := ?q, bk_disks := ?d\<rparr>)"
      "owns (unit_addrs us @ f) k" "km_live k = km_live (bk_mem b) |` (- set (unit_addrs [u]))"
  proof (cases "sb_data (un_dev u)")
    case None
    have "km_live (bk_mem b) |` UNIV = km_live (bk_mem b)" by (simp add: restrict_map_def)
    then show ?thesis using None Cons.prems
      by (intro that [of "bk_mem b"]) (auto simp: remove_device_def Let_def split: option.split)
  next
    case (Some d)
    obtain a cs where d: "d = (a, cs)" by fastforce
    have "owns ([a] @ unit_addrs us @ f) (bk_mem b)" using Cons.prems Some d by simp
    from kfree_all_accounted [OF this] obtain k where "kfree_all [a] (bk_mem b) = Done k"
        "owns (unit_addrs us @ f) k" "km_live k = km_live (bk_mem b) |` (- {a})" by auto
    moreover from this(1) have "kfree a (bk_mem b) = Done k" by (cases "kfree a (bk_mem b)") auto
    ultimately show ?thesis using Some d
      by (intro that [of k]) (auto simp: remove_device_def Let_def split: option.split)
  qed
  let ?b = "b\<lparr>bk_mem := k, bk_queues := ?q, bk_disks := ?d\<rparr>"
  have "owns (unit_addrs us @ f) (bk_mem ?b)" using k(2) by simp
  from Cons.IH [OF this] obtain k' where k': "remove_devices us ?b = Done (?b\<lparr>bk_mem := k',
      bk_queues := fold remove1 (unit_queues us) ?q, bk_disks := fold remove1 (unit_disks us) ?d\<rparr>)"
      "owns f k'" "km_live k' = km_live k |` (- set (unit_addrs us))" by auto
  have "km_live k' = km_live (bk_mem b) |` (- set (unit_addrs (u # us)))"
    unfolding k'(3) k(3) by (auto simp: restrict_map_def fun_eq_iff)
  then show ?case using k(1) k' by (intro exI [of _ k']) simp
qed

lemma mset_fold_remove1: "mset (fold remove1 xs ys) = mset ys - mset xs"
  by (induction xs arbitrary: ys) (simp_all add: diff_diff_add)


section \<open>Properties\<close>

text \<open>C9: what was written to sectors of the disk is read back from them, and the cells of other sectors keep
  their contents. A transfer beyond the end changes nothing.\<close>

theorem sbull_write_read:
  assumes "disk_ok dev" "sectors_ok sector nsect src" "sectors_ok sector nsect buffer"
  shows "\<exists>dev'. sbull_transfer dev sector nsect src True = Done (dev', src) \<and> disk_ok dev' \<and>
    (if within_disk dev sector nsect
     then sbull_transfer dev' sector nsect buffer False = Done (dev', src) \<and>
       disk_cells dev' = overwrite (nat (sector * 512)) src (disk_cells dev)
     else dev' = dev \<and> sbull_transfer dev' sector nsect buffer False = Done (dev', buffer))"
proof -
  obtain dev' where w: "sbull_transfer dev sector nsect src True = Done (dev', src)" "disk_ok dev'" "sb_size dev' = sb_size dev"
      "disk_cells dev' = (if within_disk dev sector nsect
       then overwrite (nat (sector * 512)) src (disk_cells dev) else disk_cells dev)"
    by (rule transfer_spec [OF assms(1,2), where wr = True]) (auto intro: that)
  have rd: "\<exists>d. sbull_transfer dev' sector nsect buffer False = Done (d,
      if within_disk dev sector nsect then take (nat (nsect * 512)) (drop (nat (sector * 512)) (disk_cells dev')) else buffer)"
    by (rule transfer_spec [OF w(2) assms(3), where wr = False]) (auto simp: within_disk_def w(3))
  have same: "d = dev'" if "sbull_transfer dev' sector nsect buffer False = Done (d, b)" for d b
    using that by (auto simp: sbull_transfer_def Let_def and_then_Done_iff split: if_splits option.splits)
  show ?thesis
  proof (cases "within_disk dev sector nsect")
    case True
    obtain a cs where cs: "sb_data dev = Some (a, cs)" "int (length cs) = sb_size dev" using assms(1) by (auto simp: disk_ok_def)
    have s: "0 \<le> sector" "0 \<le> nsect" "length src = nat (nsect * 512)" using assms(2) by (auto simp: sectors_ok_def)
    have "nat (sector * 512) + length src \<le> length cs"
      using True cs(2) s by (simp add: within_disk_def algebra_simps)
    then have "take (length src) (drop (nat (sector * 512)) (disk_cells dev')) = src"
      using w(4) True cs(1) by (simp add: overwrite_read disk_cells_def)
    then show ?thesis using w rd same True s(3) by (intro exI [of _ dev']) auto
  next
    case False
    have "sbull_transfer dev sector nsect src True = Done (dev, src)"
    proof -
      have "0 \<le> sector" "0 \<le> nsect" "sector + nsect < 36028797018963968" using assms(2) by (auto simp: sectors_ok_def)
      moreover have "u64 (sb_size dev) = sb_size dev" using assms(1) by (auto simp: disk_ok_def intro!: u64_id)
      ultimately show ?thesis using False
        by (auto simp: sbull_transfer_def Let_def KERNEL_SECTOR_SIZE_def u64_id within_disk_def algebra_simps)
    qed
    then have "dev' = dev" using w(1) by simp
    then show ?thesis using w rd same False by (intro exI [of _ dev']) auto
  qed
qed



text \<open>When the block layer refuses nothing, a module that was loaded is removed without trace: the memory,
  the queues and the disks are what they were, whichever allocation of a device's data failed.\<close>

theorem sbull_init_exit:
  assumes "\<And>n. \<not> bk_refuse b n" "kmem_ok (bk_mem b)" "0 < major"
  shows "\<exists>r ds b'. sbull_init bytes major ndevices nsectors hardsect_size b = Done (r, ds, b') \<and>
    (case ds of
       None \<Rightarrow> r = Inl ENOMEM \<and> km_live (bk_mem b') = km_live (bk_mem b)
     | Some d \<Rightarrow> r = Inr 0 \<and> (\<exists>b''. sbull_exit d b' = Done b'' \<and> km_live (bk_mem b'') = km_live (bk_mem b) \<and>
         mset (bk_queues b'') = mset (bk_queues b) \<and> mset (bk_disks b'') = mset (bk_disks b)))"
proof (cases "kmalloc (ndevices * bytes) (bk_mem b)")
  case k: (Pair r k)
  show ?thesis
  proof (cases r)
    case None
    then show ?thesis using k assms(3) kmalloc_None(1) by (fastforce simp: sbull_init_def)
  next
    case (Some a)
    let ?b = "b\<lparr>bk_mem := k\<rparr>"
    have acc: "accounted (bk_mem b) [] k [a]" using k Some by (auto intro: kmalloc_accounted(1))
    obtain us b1 where us: "setup_devices nsectors hardsect_size (nat ndevices) ?b = Done (us, b1)" "holds ?b us b1"
      using setup_devices_holds [of ?b nsectors hardsect_size "nat ndevices"] assms(1) by auto
    have i: "sbull_init bytes major ndevices nsectors hardsect_size b = Done (Inr 0, Some (a, us), b1)"
      using k Some us(1) assms(3) by (simp add: sbull_init_def)
    have "accounted k [a] (bk_mem b1) (unit_addrs us @ [a])" using us(2) by (simp add: holds_def)
    from accounted_trans [OF acc this] have o1: "owns (unit_addrs us @ [a]) (bk_mem b1)"
      "km_live (bk_mem b1) |` (- set (unit_addrs us @ [a])) = km_live (bk_mem b)"
      using assms(2) by (simp_all add: accounted_def owns_def restrict_map_def)
    obtain k2 where k2: "remove_devices us b1 = Done (b1\<lparr>bk_mem := k2, bk_queues := fold remove1 (unit_queues us) (bk_queues b1),
        bk_disks := fold remove1 (unit_disks us) (bk_disks b1)\<rparr>)" "owns [a] k2"
        "km_live k2 = km_live (bk_mem b1) |` (- set (unit_addrs us))"
      using remove_devices_result [OF o1(1)] by blast
    have "a \<in> dom (km_live k2)" using k2(2) by (simp add: owns_def)
    then have fr: "kfree a k2 = Done (k2\<lparr>km_live := (km_live k2)(a := None)\<rparr>)" by (rule kfree_live)
    have "(km_live k2)(a := None) = km_live (bk_mem b)"
      unfolding k2(3) o1(2) [symmetric] by (auto simp: restrict_map_def fun_eq_iff)
    then show ?thesis using i k2(1) fr us(2)
      by (simp add: sbull_exit_def mset_fold_remove1 holds_def)
  qed
qed

section \<open>Witnesses\<close>

definition example_disk :: sbull_dev where
  "example_disk = \<lparr>sb_size = 1024, sb_data = Some (1, replicate 1024 (Some 0)), sb_users = 0, sb_media_change = 0\<rparr>"

theorem sbull_write_read_witness:
  "\<exists>dev'. sbull_transfer example_disk 1 1 (replicate 512 (Some 7)) True = Done (dev', replicate 512 (Some 7)) \<and>
    sbull_transfer dev' 1 1 (replicate 512 None) False = Done (dev', replicate 512 (Some 7))"
proof -
  have "disk_ok example_disk" "sectors_ok 1 1 (replicate 512 (Some 7))" "sectors_ok 1 1 (replicate 512 None)"
    "within_disk example_disk 1 1"
    by (simp_all add: disk_ok_def example_disk_def sectors_ok_def within_disk_def)
  from sbull_write_read [OF this(1-3)] this(4) show ?thesis by auto
qed

definition example_request :: request where
  "example_request = \<lparr>rq_fs = True, rq_write = True,
     rq_bios = [\<lparr>bi_sector = 0, bi_segments = [(1, replicate 512 (Some 1)), (1, replicate 512 (Some 2))]\<rparr>]\<rparr>"


text \<open>Two processes: one has deleted the timer and waits for the lock while the other one releases the
  device and starts the timer again. The first one then has the device open with the timer running, and
  its release starts a timer that is pending.\<close>

definition race :: media where
  "race = (media_start example_disk)\<lparr>md_timer := Some INVALIDATE_DELAY,
     md_dev := example_disk\<lparr>sb_users := 1\<rparr>, md_files := 1\<rparr>"

lemma race_reach: "media_reach (media_start example_disk) race"
proof -
  let ?m0 = "media_start example_disk"
  let ?m1 = "?m0\<lparr>md_opening := 1\<rparr>"
  let ?m2 = "?m0\<lparr>md_dev := example_disk\<lparr>sb_users := 1\<rparr>, md_files := 1\<rparr>"
  let ?m3 = "?m2\<lparr>md_opening := 1\<rparr>"
  let ?m4 = "?m3\<lparr>md_dev := example_disk, md_timer := Some INVALIDATE_DELAY, md_files := 0\<rparr>"
  have s: "media_step ?m0 ?m1" using Open_timer [of ?m0] by (simp add: media_start_def)
  have d: "sbull_open_locked example_disk = example_disk\<lparr>sb_users := 1\<rparr>"
    by (simp add: sbull_open_locked_def check_disk_change_def sbull_media_changed_def example_disk_def s16_def)
  have "media_step ?m1 ?m2" using Open_lock [of ?m1] d by (simp add: media_start_def example_disk_def)
  moreover have "media_step ?m2 ?m3" using Open_timer [of ?m2] by (simp add: media_start_def)
  moreover have "sbull_release 0 (example_disk\<lparr>sb_users := 1\<rparr>) None = Some (example_disk, Some INVALIDATE_DELAY)"
    by (simp add: sbull_release_def example_disk_def s16_def add_timer_def Let_def)
  then have "media_step ?m3 ?m4" using Release [of ?m3 example_disk "Some INVALIDATE_DELAY"] by (simp add: media_start_def)
  moreover have "media_step ?m4 race" using Open_lock [of ?m4] d by (simp add: media_start_def race_def)
  ultimately show ?thesis using s by (meson media_reach.intros)
qed


lemma sbull_release_race:
  "media_reach (media_start example_disk) race \<and> 0 < md_files race \<and>
   sbull_release (md_now race) (md_dev race) (md_timer race) = None"
  using race_reach by (simp add: race_def sbull_release_def example_disk_def s16_def add_timer_def Let_def media_start_def)

definition quiet_blk :: blk where
  "quiet_blk = \<lparr>bk_mem = fresh_kmem, bk_next = 0, bk_refuse = (\<lambda>_. False), bk_queues = [], bk_disks = []\<rparr>"

theorem sbull_init_exit_witness:
  "\<exists>d b' b''. sbull_init 100 8 1 1 512 quiet_blk = Done (Inr 0, Some d, b') \<and> sbull_exit d b' = Done b'' \<and>
    km_live (bk_mem b'') = Map.empty"
proof -
  have q: "\<And>n. \<not> bk_refuse quiet_blk n" "kmem_ok (bk_mem quiet_blk)" "(0::int) < 8" by (simp_all add: quiet_blk_def)
  have "\<exists>d b'. sbull_init 100 8 1 1 512 quiet_blk = Done (Inr 0, Some d, b')"
    by (simp add: sbull_init_def quiet_blk_def kmalloc_def fresh_kmem_def setup_device_def blk_init_queue_def
        alloc_disk_def u64_def s32_def Let_def)
  then show ?thesis
    using sbull_init_exit [OF q, of 100 1 1 512] by (fastforce simp: quiet_blk_def fresh_kmem_def)
qed

text \<open>A second segment that is longer than the first is not transferred as a whole by \<open>sbull_xfer_bio\<close>, and of a
  shorter one the memory behind its buffer is written to the disk.\<close>

lemma sbull_xfer_bio_uneven:
  "sbull_xfer_bio example_disk True \<lparr>bi_sector = 0, bi_segments = [(1, replicate 512 (Some 1)), (0, [])]\<rparr> = Crash Out_of_bounds"
  by (simp add: sbull_xfer_bio_def bio_cur_sectors_def sbull_transfer_def example_disk_def KERNEL_SECTOR_SIZE_def u64_def
      load_cells_def store_cells_def Let_def)

text \<open>When no queue can be had the data is freed, and freed again on unload.\<close>

lemma sbull_exit_double_free:
  "\<exists>d b'. sbull_init 100 8 1 1 512 (quiet_blk\<lparr>bk_refuse := \<lambda>_. True\<rparr>) = Done (Inr 0, Some d, b') \<and>
    sbull_exit d b' = Crash Bad_free"
  by (simp add: sbull_init_def quiet_blk_def kmalloc_def fresh_kmem_def setup_device_def blk_init_queue_def
      u64_def s32_def Let_def kfree_def sbull_exit_def remove_device_def)

text \<open>The geometry counts bytes as sectors: a disk of 512 kB claims 8192 cylinders of 64 sectors, which is 256 MB.\<close>

lemma sbull_geometry:
  "sbull_ioctl 512 True HDIO_GETGEO (example_disk\<lparr>sb_size := 524288\<rparr>) = (Inr 0, Some (8192, 4, 16, 4))"
  by (simp add: sbull_ioctl_def KERNEL_SECTOR_SIZE_def s32_def signed_divide_int_def Let_def)

end
