(* ===== verification/Stamp_Buffer.thy ===== *)
theory Stamp_Buffer
  imports Scull_Pipe
begin

text \<open>
  The page of time stamps that the drivers short and shortprint of Kernel/Driver/ldd3-master share: an
  interrupt writes a record of 16 characters, a read takes what is there. Nothing stops the writer when
  the reader is slow.
\<close>

section \<open>Records\<close>

text \<open>\<open>"%08u.%06u\n"\<close>: the last digits of the two numbers, which have no more. \<open>sprintf\<close> ends the text with a
  zero byte.\<close>

definition digit :: "nat \<Rightarrow> byte" where
  "digit d = word_of_nat (48 + d)"

fun padded :: "nat \<Rightarrow> nat \<Rightarrow> byte list" where
  "padded 0 n = []"
| "padded (Suc w) n = padded w (n div 10) @ [digit (n mod 10)]"

definition stamp_text :: "nat \<Rightarrow> nat \<Rightarrow> byte list" where
  "stamp_text tv_sec tv_usec = padded 8 (tv_sec mod 100000000) @ [46] @ padded 6 tv_usec @ [10]"

lemma length_padded [simp]: "length (padded w n) = w"
  by (induction w arbitrary: n) auto

lemma length_stamp [simp]: "length (stamp_text sec usec) = 16"
  by (simp add: stamp_text_def)

section \<open>The page\<close>

text \<open>Positions are counted from the start of the page. The list of cells has one cell more than the page:
  the first one of the object behind it.\<close>

definition STAMP_PAGE :: nat where "STAMP_PAGE = 4096"

record stamps =
  st_page :: "cell list"
  st_head :: nat
  st_tail :: nat

definition incr_bp :: "nat \<Rightarrow> nat \<Rightarrow> nat" where
  "incr_bp index delta = (let new = index + delta in if new \<ge> STAMP_PAGE then 0 else new)"

definition sprintf_at :: "nat \<Rightarrow> byte list \<Rightarrow> cell list \<Rightarrow> cell list outcome" where
  "sprintf_at pos text page = store_cells page (int pos) (map Some (text @ [0]))"

definition put_stamp :: "byte list \<Rightarrow> stamps \<Rightarrow> stamps outcome" where
  "put_stamp text s =
     and_then (sprintf_at (st_head s) text (st_page s)) (\<lambda>page.
       Done (s\<lparr>st_page := page, st_head := incr_bp (st_head s) (length text)\<rparr>))"

text \<open>A read. It sleeps while there is nothing; a signal ends the sleep.\<close>

definition read_stamps :: "bool \<Rightarrow> nat \<Rightarrow> nat \<Rightarrow> stamps \<Rightarrow> ((errno + int) \<times> cell list \<times> stamps) outcome" where
  "read_stamps sig room cnt s =
     (if st_head s = st_tail s then (if sig then Done (Inl ERESTARTSYS, [], s) else Block)
      else
        let count0 = int (st_head s) - int (st_tail s);
            count0 = (if count0 < 0 then int STAMP_PAGE - int (st_tail s) else count0);
            cnt = (if count0 < int cnt then nat count0 else cnt)
        in and_then (load_cells (st_page s) (int (st_tail s)) (int cnt)) (\<lambda>src.
             case copy_to_user room src of (bytes, missing) \<Rightarrow>
               if missing \<noteq> 0 then Done (Inl EFAULT, bytes, s)
               else Done (Inr (int cnt), bytes, s\<lparr>st_tail := incr_bp (st_tail s) cnt\<rparr>)))"

section \<open>The contents as a queue\<close>

definition stamps_ok :: "stamps \<Rightarrow> bool" where
  "stamps_ok s \<longleftrightarrow> length (st_page s) = 4097 \<and> st_head s < 4096 \<and> st_tail s < 4096 \<and> st_head s mod 16 = 0"

definition content :: "stamps \<Rightarrow> cell list" where
  "content s = ring_cells (take 4096 (st_page s)) (st_tail s) (st_head s)"

definition new_stamps :: "cell list \<Rightarrow> stamps" where
  "new_stamps page = \<lparr>st_page = page, st_head = 0, st_tail = 0\<rparr>"

lemma ring_cells_outside:
  "r < length cs \<Longrightarrow> w < length cs \<Longrightarrow> (if r \<le> w then i < r \<or> w \<le> i else w \<le> i \<and> i < r) \<Longrightarrow>
    ring_cells (cs[i := x]) r w = ring_cells cs r w"
  by (cases "i < length cs") (auto simp: ring_cells_def take_update_swap drop_update_swap intro: nth_equalityI split: if_splits)

lemma length_content: "stamps_ok s \<Longrightarrow> length (content s) = (if st_tail s \<le> st_head s then st_head s - st_tail s
    else 4096 - st_tail s + st_head s)"
  by (simp add: content_def stamps_ok_def length_ring)

text \<open>A record fits as long as fewer than 255 are unread. The zero byte behind it goes to a cell that is not
  in use, and behind the last record of the page to the object behind.\<close>

lemma put_stamp_result:
  assumes "stamps_ok s" "length text = 16" "length (content s) + 16 < 4096"
  obtains s' where "put_stamp text s = Done s'" "stamps_ok s'" "content s' = content s @ map Some text" "st_tail s' = st_tail s"
    "st_page s' ! 4096 = (if st_head s = 4080 then Some 0 else st_page s ! 4096)"
proof -
  let ?h = "st_head s" and ?t = "st_tail s" and ?p = "st_page s"
  let ?cs = "take 4096 ?p" and ?new = "map Some text :: cell list"
  let ?p' = "take ?h ?p @ map Some (text @ [0]) @ drop (?h + 17) ?p"
  let ?cs' = "take ?h ?cs @ ?new @ drop (?h + 16) ?cs"
  have s: "length ?p = 4097" "?h < 4096" "?t < 4096" "?h mod 16 = 0" using assms(1) by (simp_all add: stamps_ok_def)
  then have h: "?h \<le> 4080" by presburger
  have p': "put_stamp text s = Done (s\<lparr>st_page := ?p', st_head := incr_bp ?h 16\<rparr>)"
    using s h assms(2) by (simp add: put_stamp_def sprintf_at_def store_cells_def nat_add_distrib add.commute)
  have n: "incr_bp ?h 16 = ring_next ?cs (?h + 16)"
    using s h by (auto simp: incr_bp_def STAMP_PAGE_def ring_next_def Let_def)
  have free: "?t \<le> ?h \<and> ?h + 16 \<le> length ?cs \<and> (?t = 0 \<longrightarrow> ?h + 16 < length ?cs) \<or> ?h < ?t \<and> ?h + 16 < ?t"
    using assms(3) s h by (auto simp: length_content [OF assms(1)] split: if_splits)
  have put: "ring_cells ?cs' ?t (ring_next ?cs (?h + 16)) = content s @ ?new"
    unfolding content_def using s assms(2) by (intro ring_put(1) [where new = ?new, OF _ _ _ free]) simp_all
  have cells: "take 4096 ?p' = ?cs'[?h + 16 := Some 0]"
    using s h assms(2)
    by (intro nth_equalityI) (auto simp: nth_append nth_list_update min_def nth_Cons split: nat.split intro!: arg_cong [where f = "(!) _"])
  have len: "length ?cs' = 4096" using s h assms(2) by simp
  have "ring_cells (?cs'[?h + 16 := Some 0]) ?t (incr_bp ?h 16) = ring_cells ?cs' ?t (incr_bp ?h 16)"
  proof (cases "?h = 4080")
    case True
    then show ?thesis using len by (simp add: list_update_beyond)
  next
    case False
    then have "incr_bp ?h 16 = ?h + 16" "?h + 16 < 4096" using h s(4) by (auto simp: incr_bp_def STAMP_PAGE_def Let_def)
    then show ?thesis using free s len by (intro ring_cells_outside) auto
  qed
  then have c: "ring_cells (take 4096 ?p') ?t (incr_bp ?h 16) = content s @ ?new"
    unfolding cells using put n by simp
  show ?thesis
  proof (rule that [OF p'])
    show "stamps_ok (s\<lparr>st_page := ?p', st_head := incr_bp ?h 16\<rparr>)"
      using s h assms(2) by (auto simp: stamps_ok_def incr_bp_def STAMP_PAGE_def Let_def)
    show "content (s\<lparr>st_page := ?p', st_head := incr_bp ?h 16\<rparr>) = content s @ ?new"
      using c by (simp add: content_def)
    show "st_page (s\<lparr>st_page := ?p', st_head := incr_bp ?h 16\<rparr>) ! 4096 = (if ?h = 4080 then Some 0 else ?p ! 4096)"
      using s h assms(2) by (auto simp: nth_append nth_Cons' min_def)
  qed simp
qed

text \<open>The write itself never fails, whatever is unread; with 255 records unread the next one makes the page
  look empty.\<close>

lemma put_stamp_total:
  assumes "stamps_ok s" "length text = 16"
  obtains s' where "put_stamp text s = Done s'" "stamps_ok s'" "st_tail s' = st_tail s" "st_head s' = incr_bp (st_head s) 16"
proof -
  have s: "length (st_page s) = 4097" "st_head s < 4096" "st_tail s < 4096" "st_head s mod 16 = 0"
    using assms(1) by (simp_all add: stamps_ok_def)
  then have h: "st_head s \<le> 4080" by presburger
  let ?p' = "take (st_head s) (st_page s) @ map Some (text @ [0]) @ drop (st_head s + 17) (st_page s)"
  show ?thesis
  proof (rule that [of "s\<lparr>st_page := ?p', st_head := incr_bp (st_head s) 16\<rparr>"])
    show "put_stamp text s = Done (s\<lparr>st_page := ?p', st_head := incr_bp (st_head s) 16\<rparr>)"
      using s h assms(2) by (simp add: put_stamp_def sprintf_at_def store_cells_def nat_add_distrib add.commute)
    show "stamps_ok (s\<lparr>st_page := ?p', st_head := incr_bp (st_head s) 16\<rparr>)"
      using s h assms(2) by (auto simp: stamps_ok_def incr_bp_def STAMP_PAGE_def Let_def)
  qed simp_all
qed

lemma put_stamp_overrun:
  assumes "stamps_ok s" "length text = 16" "length (content s) = 4080"
  obtains s' where "put_stamp text s = Done s'" "content s' = []"
proof -
  obtain s' where s': "put_stamp text s = Done s'" "st_tail s' = st_tail s" "st_head s' = incr_bp (st_head s) 16"
    by (rule put_stamp_total [OF assms(1,2)]) (rule that)
  have "st_head s < 4096" "st_tail s < 4096" "st_head s mod 16 = 0" using assms(1) by (simp_all add: stamps_ok_def)
  then have "st_head s' = st_tail s'" using assms(3) s'(2,3)
    by (auto simp: length_content [OF assms(1)] incr_bp_def STAMP_PAGE_def Let_def split: if_splits)
  then show ?thesis using that [OF s'(1)] by (simp add: content_def ring_cells_def)
qed

lemma read_stamps_result:
  assumes "stamps_ok s" "content s \<noteq> []" "0 < cnt" "cnt \<le> room"
  obtains n s' where "read_stamps sig room cnt s = Done (Inr (int n), take n (content s), s')" "0 < n" "n \<le> cnt"
    "stamps_ok s'" "content s' = drop n (content s)"
proof -
  let ?h = "st_head s" and ?t = "st_tail s" and ?p = "st_page s"
  define avail where "avail = (if ?h < ?t then 4096 - ?t else ?h - ?t)"
  define n where "n = min avail cnt"
  have s: "length ?p = 4097" "?h < 4096" "?t < 4096" "?h mod 16 = 0" using assms(1) by (simp_all add: stamps_ok_def)
  have ne: "?h \<noteq> ?t" using assms(2) s by (auto simp: content_def ring_cells_def)
  have ld: "load_cells ?p (int ?t) (int n) = Done (take n (drop ?t ?p))"
    using s by (auto simp: load_cells_def min_def n_def avail_def)
  have len: "length (take n (drop ?t ?p)) = n" using s by (auto simp: min_def n_def avail_def)
  have g: "content s = take n (drop ?t (take 4096 ?p)) @ ring_cells (take 4096 ?p) (ring_next (take 4096 ?p) (?t + n)) ?h"
    unfolding content_def using s ne by (intro ring_get) (auto simp: min_def n_def avail_def)
  have tk: "take n (drop ?t (take 4096 ?p)) = take n (drop ?t ?p)"
    using s by (auto simp: drop_take min_def n_def avail_def)
  have nx: "incr_bp ?t n = ring_next (take 4096 ?p) (?t + n)"
    using s ne by (auto simp: incr_bp_def STAMP_PAGE_def ring_next_def Let_def min_def n_def avail_def)
  have c1: "(if int ?h - int ?t < 0 then int STAMP_PAGE - int ?t else int ?h - int ?t) = int avail"
    using s by (auto simp: STAMP_PAGE_def of_nat_diff avail_def)
  have c2: "(if int avail < int cnt then nat (int avail) else cnt) = n" by (simp add: n_def)
  have n_le: "n \<le> cnt" by (simp add: n_def)
  have r: "read_stamps sig room cnt s = Done (Inr (int n), take n (drop ?t ?p), s\<lparr>st_tail := incr_bp ?t n\<rparr>)"
    unfolding read_stamps_def Let_def if_not_P [OF ne] c1 c2 ld and_then.simps
    using len assms(4) n_le by (simp add: copy_to_user_def)
  have tc: "take n (content s) = take n (drop ?t ?p)" using g tk len by simp
  show ?thesis
  proof (rule that [of n])
    show "read_stamps sig room cnt s = Done (Inr (int n), take n (content s), s\<lparr>st_tail := incr_bp ?t n\<rparr>)"
      using r tc by simp
    show "stamps_ok (s\<lparr>st_tail := incr_bp ?t n\<rparr>)"
      using s by (auto simp: stamps_ok_def incr_bp_def STAMP_PAGE_def Let_def)
    have "drop n (content s) = ring_cells (take 4096 ?p) (ring_next (take 4096 ?p) (?t + n)) ?h"
      using g tk len by (metis append_eq_conv_conj)
    then show "content (s\<lparr>st_tail := incr_bp ?t n\<rparr>) = drop n (content s)" by (simp add: content_def nx)
  qed (use ne assms(3) s in \<open>auto simp: min_def n_def avail_def\<close>)
qed

end
