(* ===== verification/Short_Driver.thy ===== *)
theory Short_Driver
  imports Stamp_Buffer
begin

text \<open>
  The driver short (short/short.c of Kernel/Driver/ldd3-master): reads and writes of a port, the time stamps of
  its interrupts, written by the handler or by a bottom half, the probing for the interrupt line, and
  loading and unloading. What the port delivers and which requests the kernel grants are arguments.
\<close>

section \<open>Ports\<close>

text \<open>Reading a port takes the next value of the stream \<open>inb\<close>; string, single and memory reads differ in the
  instruction. The mode is in the minor number.\<close>

text \<open>\<open>open\<close> gives the minor numbers from 128 on the operations of the interrupt device.\<close>

datatype short_node = Port_node | Interrupt_node

definition short_open :: "int \<Rightarrow> short_node" where
  "short_open minor = (if and minor 0x80 \<noteq> 0 then Interrupt_node else Port_node)"

definition short_mode :: "bool \<Rightarrow> int \<Rightarrow> int" where
  "short_mode use_mem minor = (if use_mem then 2 else drop_bit 4 (and minor 0x70))"

definition do_short_read ::
    "bool \<Rightarrow> int \<Rightarrow> (nat \<Rightarrow> byte) \<Rightarrow> nat \<Rightarrow> nat \<Rightarrow> kmem \<Rightarrow> ((errno + int) \<times> cell list \<times> kmem) outcome" where
  "do_short_read use_mem minor inb room cnt k =
     (case kmalloc (int cnt) k of
        (None, k) \<Rightarrow> Done (Inl ENOMEM, [], k)
      | (Some kbuf, k) \<Rightarrow>
          (case (if short_mode use_mem minor \<in> {0, 1, 2}
               then (if s32 (int cnt) > 0
                     then case copy_to_user room (map (\<lambda>i. Some (inb i)) [0..<nat (s32 (int cnt))]) of
                         (bytes, missing) \<Rightarrow> (if missing \<noteq> 0 then Inl EFAULT else Inr (s32 (int cnt)), bytes)
                     else (Inr (s32 (int cnt)), []))
               else (Inl EINVAL, [])) of
             (r, bytes) \<Rightarrow> and_then (kfree kbuf k) (\<lambda>k. Done (r, bytes, k))))"

text \<open>The result is the return value, the bytes the port got and the memory.\<close>

definition do_short_write ::
    "bool \<Rightarrow> int \<Rightarrow> byte list \<Rightarrow> nat \<Rightarrow> kmem \<Rightarrow> ((errno + int) \<times> cell list \<times> kmem) outcome" where
  "do_short_write use_mem minor ubuf cnt k =
     (case kmalloc (int cnt) k of
        (None, k) \<Rightarrow> Done (Inl ENOMEM, [], k)
      | (Some kbuf, k) \<Rightarrow>
          (case copy_from_user ubuf cnt of
             (bytes, missing) \<Rightarrow>
               if missing \<noteq> 0 then Done (Inl EFAULT, [], k)
               else
                 and_then (kfree kbuf k) (\<lambda>k.
                   if short_mode use_mem minor \<in> {0, 1, 2} then Done (Inr (s32 (int cnt)), bytes, k)
                   else Done (Inl EINVAL, [], k))))"

definition short_poll :: int where
  "short_poll = or (or POLLIN POLLRDNORM) (or POLLOUT POLLWRNORM)"

section \<open>Interrupts\<close>

definition short_i_read :: "bool \<Rightarrow> nat \<Rightarrow> nat \<Rightarrow> stamps \<Rightarrow> ((errno + int) \<times> cell list \<times> stamps) outcome" where
  "short_i_read = read_stamps"

text \<open>A write toggles the data lines: the bytes that go to the port, and the new position.\<close>

fun toggle :: "nat \<Rightarrow> int \<Rightarrow> nat \<Rightarrow> byte list" where
  "toggle written odd0 0 = []"
| "toggle written odd0 (Suc n) =
     (if and (int written + 1 + odd0) 1 = 0 then 0 else 0xff) # toggle (Suc written) odd0 n"

definition short_i_write :: "nat \<Rightarrow> int \<Rightarrow> byte list \<times> int \<times> int" where
  "short_i_write cnt f_pos = (toggle 0 (and f_pos 1) cnt, s64 (f_pos + int cnt), int cnt)"

definition short_interrupt :: "nat \<times> nat \<Rightarrow> stamps \<Rightarrow> stamps outcome" where
  "short_interrupt tv s = put_stamp (stamp_text (fst tv) (snd tv)) s"

text \<open>With a shared line the handler looks at the interrupt bit first and clears it. \<open>None\<close> is \<open>IRQ_NONE\<close>,
  otherwise the byte written to the port is a result.\<close>

definition short_sh_interrupt :: "byte \<Rightarrow> nat \<times> nat \<Rightarrow> stamps \<Rightarrow> (byte \<times> stamps) option outcome" where
  "short_sh_interrupt value tv s =
     (if and value 0x80 = 0 then Done None
      else and_then (put_stamp (stamp_text (fst tv) (snd tv)) s) (\<lambda>s. Done (Some (and value 0x7f, s))))"

subsection \<open>Top and bottom half\<close>

definition NR_TIMEVAL :: nat where "NR_TIMEVAL = 512"

record halves =
  tv_data :: "(nat \<times> nat) list"
  tv_head :: nat
  tv_tail :: nat
  short_wq_count :: int

definition short_incr_tv :: "nat \<Rightarrow> nat" where
  "short_incr_tv tvp = (if tvp = NR_TIMEVAL - 1 then 0 else tvp + 1)"

definition short_wq_interrupt :: "nat \<times> nat \<Rightarrow> halves \<Rightarrow> halves" where
  "short_wq_interrupt tv h =
     h\<lparr>tv_data := (tv_data h)[tv_head h := tv], tv_head := short_incr_tv (tv_head h),
       short_wq_count := s32 (short_wq_count h + 1)\<rparr>"

definition short_tl_interrupt :: "nat \<times> nat \<Rightarrow> halves \<Rightarrow> halves" where
  "short_tl_interrupt tv h =
     h\<lparr>tv_data := (tv_data h)[tv_head h := tv], tv_head := short_incr_tv (tv_head h),
       short_wq_count := s32 (short_wq_count h + 1)\<rparr>"

text \<open>\<open>"bh after %6i\n"\<close>\<close>

fun digits :: "nat \<Rightarrow> byte list" where
  "digits n = (if n < 10 then [digit n] else digits (n div 10) @ [digit (n mod 10)])"

declare digits.simps [simp del]

definition dec_text :: "int \<Rightarrow> byte list" where
  "dec_text i = (if i < 0 then 45 # digits (nat (- i)) else digits (nat i))"

definition bh_text :: "int \<Rightarrow> byte list" where
  "bh_text i = map (\<lambda>c. word_of_nat (of_char c)) ''bh after '' @ replicate (6 - length (dec_text i)) 32 @ dec_text i @ [10]"

text \<open>The loop of the bottom half, at most \<open>NR_TIMEVAL\<close> times.\<close>

fun bh_loop :: "nat \<Rightarrow> halves \<Rightarrow> stamps \<Rightarrow> (halves \<times> stamps) outcome" where
  "bh_loop 0 h s = Block"
| "bh_loop (Suc n) h s =
     and_then (put_stamp (stamp_text (fst (tv_data h ! tv_tail h)) (snd (tv_data h ! tv_tail h))) s) (\<lambda>s.
       let h = h\<lparr>tv_tail := short_incr_tv (tv_tail h)\<rparr> in
       if tv_tail h = tv_head h then Done (h, s) else bh_loop n h s)"

definition short_do_tasklet :: "halves \<Rightarrow> stamps \<Rightarrow> (halves \<times> stamps) outcome" where
  "short_do_tasklet h s =
     (let savecount = short_wq_count h; h = h\<lparr>short_wq_count := 0\<rparr> in
      and_then (put_stamp (bh_text savecount) s) (bh_loop NR_TIMEVAL h))"

section \<open>Probing\<close>

text \<open>\<open>probe_irq_off\<close> of try \<open>i\<close> answers \<open>off i\<close>.\<close>

function kernelprobe_from :: "(nat \<Rightarrow> int) \<Rightarrow> nat \<Rightarrow> int" where
  "kernelprobe_from off cnt =
     (let short_irq = (if off cnt = 0 then - 1 else off cnt) in
      if short_irq < 0 \<and> cnt < 5 then kernelprobe_from off (cnt + 1) else short_irq)"
  by auto
termination by (relation "measure (\<lambda>(off, cnt). 5 - cnt)") auto

definition short_kernelprobe :: "(nat \<Rightarrow> int) \<Rightarrow> int" where
  "short_kernelprobe off = kernelprobe_from off 0"

definition short_probing :: "int \<Rightarrow> int \<Rightarrow> int" where
  "short_probing irq short_irq =
     (let short_irq = (if short_irq = 0 then irq else short_irq) in if short_irq \<noteq> irq then - irq else short_irq)"

text \<open>\<open>seen i\<close> are the interrupts that arrive in try \<open>i\<close>; the handler is called for those of the lines that
  were granted.\<close>

function selfprobe_from :: "(nat \<Rightarrow> int list) \<Rightarrow> int list \<Rightarrow> nat \<Rightarrow> int" where
  "selfprobe_from seen granted cnt =
     (let short_irq = fold short_probing (filter (\<lambda>irq. irq \<in> set granted) (seen cnt)) 0 in
      if short_irq \<le> 0 \<and> cnt < 5 then selfprobe_from seen granted (cnt + 1) else short_irq)"
  by auto
termination by (relation "measure (\<lambda>(seen, granted, cnt). 5 - cnt)") auto

declare kernelprobe_from.simps [simp del] selfprobe_from.simps [simp del]

definition short_trials :: "int list" where "short_trials = [3, 5, 7, 9]"

definition short_selfprobe :: "(int \<Rightarrow> bool) \<Rightarrow> (nat \<Rightarrow> int list) \<Rightarrow> int" where
  "short_selfprobe request_irq seen = selfprobe_from seen (filter request_irq short_trials) 0"

section \<open>Loading and unloading\<close>

text \<open>The parameters, with the variables of the module that init sets.\<close>

record short_module =
  major :: int
  base :: int
  irq :: int
  use_mem :: bool
  probe :: int
  wq :: int
  tasklet :: int
  share :: int
  short_base :: int
  short_irq :: int
  short_buffer :: int

datatype short_handler = Interrupt | Sh_interrupt | Wq_interrupt | Tl_interrupt

text \<open>What the kernel has given away, and what it answers. A shared handler is its own device id, the others
  have none.\<close>

record short_kernel =
  sk_ports :: "int list"
  sk_iomem :: "int list"
  sk_maps :: "int list"
  sk_chrdevs :: "int list"
  sk_pages :: "int list"
  sk_irqs :: "(int \<times> short_handler) list"

record short_env =
  se_region :: "int \<Rightarrow> bool"
  se_ioremap :: "int \<Rightarrow> int"
  se_chrdev :: "int \<Rightarrow> errno + int"
  se_page :: int
  se_probe :: "nat \<Rightarrow> int"
  se_probe_irq :: "int \<Rightarrow> bool"
  se_seen :: "nat \<Rightarrow> int list"
  se_request :: "short_handler \<Rightarrow> int \<Rightarrow> bool"

definition free_irq :: "int \<Rightarrow> bool \<Rightarrow> short_kernel \<Rightarrow> short_kernel" where
  "free_irq i shared k = k\<lparr>sk_irqs := filter (\<lambda>(j, h). \<not> (j = i \<and> (h = Sh_interrupt) = shared)) (sk_irqs k)\<rparr>"

definition short_resources ::
    "short_env \<Rightarrow> short_module \<Rightarrow> short_kernel \<Rightarrow> (short_module \<times> short_kernel) option" where
  "short_resources env md k =
     (if \<not> se_region env (short_base md) then None
      else if use_mem md
      then Some (md\<lparr>short_base := se_ioremap env (short_base md)\<rparr>,
          k\<lparr>sk_iomem := short_base md # sk_iomem k, sk_maps := se_ioremap env (short_base md) # sk_maps k\<rparr>)
      else Some (md, k\<lparr>sk_ports := short_base md # sk_ports k\<rparr>))"

definition short_find_irq :: "short_env \<Rightarrow> short_module \<Rightarrow> int" where
  "short_find_irq env md =
     (let i = short_irq md;
          i = (if i < 0 \<and> probe md = 1 then short_kernelprobe (se_probe env) else i);
          i = (if i < 0 \<and> probe md = 2 then short_selfprobe (se_probe_irq env) (se_seen env) else i)
      in if i < 0
         then (if short_base md = 0x378 then 7 else if short_base md = 0x278 then 2
               else if short_base md = 0x3bc then 5 else i)
         else i)"

definition short_request_irq ::
    "short_env \<Rightarrow> short_handler \<Rightarrow> short_module \<Rightarrow> short_kernel \<Rightarrow> short_module \<times> short_kernel" where
  "short_request_irq env h md k =
     (if short_irq md < 0 then (md, k)
      else if se_request env h (short_irq md) then (md, k\<lparr>sk_irqs := (short_irq md, h) # sk_irqs k\<rparr>)
      else (md\<lparr>short_irq := - 1\<rparr>, k))"

definition short_install :: "short_env \<Rightarrow> short_module \<Rightarrow> short_kernel \<Rightarrow> short_module \<times> short_kernel" where
  "short_install env md k =
     (if short_irq md \<ge> 0 \<and> share md > 0 then short_request_irq env Sh_interrupt md k
      else case short_request_irq env Interrupt md k of
        (md, k) \<Rightarrow>
          if short_irq md \<ge> 0 \<and> wq md + tasklet md > 0
          then short_request_irq env (if tasklet md \<noteq> 0 then Tl_interrupt else Wq_interrupt) md
            (free_irq (short_irq md) False k)
          else (md, k))"

definition short_init ::
    "short_env \<Rightarrow> short_module \<Rightarrow> short_kernel \<Rightarrow> (errno + int) \<times> short_module \<times> short_kernel" where
  "short_init env md k =
     (let md = md\<lparr>short_base := base md, short_irq := irq md\<rparr> in
      case short_resources env md k of
        None \<Rightarrow> (Inl ENODEV, md, k)
      | Some (md, k) \<Rightarrow>
          (case se_chrdev env (major md) of
             Inl e \<Rightarrow> (Inl e, md, k\<lparr>sk_ports := remove1 (short_base md) (sk_ports k)\<rparr>)
           | Inr result \<Rightarrow>
               let md = (if major md = 0 then md\<lparr>major := result\<rparr> else md);
                   md = md\<lparr>short_buffer := se_page env\<rparr>;
                   k = k\<lparr>sk_chrdevs := major md # sk_chrdevs k,
                     sk_pages := (if se_page env = 0 then sk_pages k else se_page env # sk_pages k)\<rparr>;
                   md = md\<lparr>short_irq := short_find_irq env md\<rparr>
               in (Inr 0, short_install env md k)))"

definition short_cleanup :: "short_module \<Rightarrow> short_kernel \<Rightarrow> short_kernel" where
  "short_cleanup md k =
     (let k = (if short_irq md \<ge> 0 then free_irq (short_irq md) (share md \<noteq> 0) k else k);
          k = k\<lparr>sk_chrdevs := remove1 (major md) (sk_chrdevs k)\<rparr>;
          k = (if use_mem md
               then k\<lparr>sk_maps := remove1 (short_base md) (sk_maps k), sk_iomem := remove1 (short_base md) (sk_iomem k)\<rparr>
               else k\<lparr>sk_ports := remove1 (short_base md) (sk_ports k)\<rparr>)
      in if short_buffer md \<noteq> 0 then k\<lparr>sk_pages := remove1 (short_buffer md) (sk_pages k)\<rparr> else k)"

section \<open>Lemmas\<close>

definition halves_ok :: "halves \<Rightarrow> bool" where
  "halves_ok h \<longleftrightarrow> length (tv_data h) = 512 \<and> tv_head h < 512 \<and> tv_tail h < 512"

definition pending :: "halves \<Rightarrow> (nat \<times> nat) list" where
  "pending h = ring_cells (tv_data h) (tv_tail h) (tv_head h)"

lemma incr_tv: "i < 512 \<Longrightarrow> length cs = 512 \<Longrightarrow> short_incr_tv i = ring_next cs (i + 1)" "i < 512 \<Longrightarrow> short_incr_tv i < 512"
  by (auto simp: short_incr_tv_def ring_next_def NR_TIMEVAL_def)

lemma pending_empty: "halves_ok h \<Longrightarrow> pending h = [] \<longleftrightarrow> tv_tail h = tv_head h"
  by (auto simp: halves_ok_def pending_def ring_cells_def)

lemma pending_step:
  assumes "halves_ok h" "pending h \<noteq> []"
  shows "pending h = tv_data h ! tv_tail h # pending (h\<lparr>tv_tail := short_incr_tv (tv_tail h)\<rparr>)"
    "halves_ok (h\<lparr>tv_tail := short_incr_tv (tv_tail h)\<rparr>)"
proof -
  have h: "length (tv_data h) = 512" "tv_head h < 512" "tv_tail h < 512" "tv_tail h \<noteq> tv_head h"
    using assms pending_empty by (auto simp: halves_ok_def)
  show "halves_ok (h\<lparr>tv_tail := short_incr_tv (tv_tail h)\<rparr>)" using h incr_tv(2) by (simp add: halves_ok_def)
  have "pending h = take 1 (drop (tv_tail h) (tv_data h)) @ ring_cells (tv_data h) (ring_next (tv_data h) (tv_tail h + 1)) (tv_head h)"
    unfolding pending_def using h by (intro ring_get) auto
  moreover have "take 1 (drop (tv_tail h) (tv_data h)) = [tv_data h ! tv_tail h]"
    using h by (simp add: take_Suc_conv_app_nth hd_drop_conv_nth take_Suc)
  ultimately show "pending h = tv_data h ! tv_tail h # pending (h\<lparr>tv_tail := short_incr_tv (tv_tail h)\<rparr>)"
    using h incr_tv(1) [OF h(3,1)] by (simp add: pending_def)
qed

text \<open>An interrupt is one more pending time value.\<close>

lemma wq_interrupt_pending:
  assumes "halves_ok h" "length (pending h) < 511"
  shows "pending (short_wq_interrupt tv h) = pending h @ [tv]" "halves_ok (short_wq_interrupt tv h)"
proof -
  let ?w = "tv_head h" and ?r = "tv_tail h" and ?cs = "tv_data h"
  have h: "length ?cs = 512" "?w < 512" "?r < 512" using assms(1) by (simp_all add: halves_ok_def)
  have "?r \<le> ?w \<and> ?w + 1 \<le> length ?cs \<and> (?r = 0 \<longrightarrow> ?w + 1 < length ?cs) \<or> ?w < ?r \<and> ?w + 1 < ?r"
    using assms(2) h by (auto simp: pending_def length_ring split: if_splits)
  moreover have "?cs[?w := tv] = take ?w ?cs @ [tv] @ drop (?w + 1) ?cs" using h by (simp add: upd_conv_take_nth_drop)
  ultimately show "pending (short_wq_interrupt tv h) = pending h @ [tv]"
    using h incr_tv(1) [OF h(2,1)] ring_put(1) [of ?r ?cs ?w 1 "[tv]" "?cs[?w := tv]"]
    by (simp add: pending_def short_wq_interrupt_def)
  show "halves_ok (short_wq_interrupt tv h)" using h incr_tv(2) by (simp add: halves_ok_def short_wq_interrupt_def)
qed

definition stamps_of :: "(nat \<times> nat) list \<Rightarrow> byte list" where
  "stamps_of tvs = concat (map (\<lambda>tv. stamp_text (fst tv) (snd tv)) tvs)"

lemma stamps_of_simps [simp]: "stamps_of [] = []" "stamps_of (tv # tvs) = stamp_text (fst tv) (snd tv) @ stamps_of tvs"
  by (simp_all add: stamps_of_def)

lemma length_stamps_of [simp]: "length (stamps_of tvs) = 16 * length tvs"
  by (induction tvs) auto

lemma bh_loop_result:
  assumes "halves_ok h" "pending h = tvs" "tvs \<noteq> []" "length tvs \<le> n" "stamps_ok s"
    and "length (content s) + 16 * length tvs < 4096"
  shows "\<exists>h' s'. bh_loop n h s = Done (h', s') \<and> halves_ok h' \<and> pending h' = [] \<and> stamps_ok s' \<and>
    content s' = content s @ map Some (stamps_of tvs)"
  using assms
proof (induction tvs arbitrary: h s n)
  case (Cons tv tvs)
  obtain m where n: "n = Suc m" using Cons.prems(4) by (cases n) auto
  have ne: "pending h \<noteq> []" using Cons.prems(2) by simp
  let ?h = "h\<lparr>tv_tail := short_incr_tv (tv_tail h)\<rparr>"
  have p: "tv_data h ! tv_tail h = tv" "pending ?h = tvs" "halves_ok ?h"
    using pending_step [OF Cons.prems(1) ne] Cons.prems(2) by simp_all
  obtain s1 where s1: "put_stamp (stamp_text (fst tv) (snd tv)) s = Done s1" "stamps_ok s1"
      "content s1 = content s @ map Some (stamp_text (fst tv) (snd tv))" "st_tail s1 = st_tail s"
    by (rule put_stamp_result [OF Cons.prems(5) length_stamp [of "fst tv" "snd tv"]]) (use Cons.prems(6) in simp, rule that)
  show ?case
  proof (cases "tvs = []")
    case True
    then have "tv_tail ?h = tv_head ?h" using p pending_empty [OF p(3)] by simp
    then show ?thesis using n p s1 True by (simp add: Let_def)
  next
    case False
    then have "tv_tail ?h \<noteq> tv_head ?h" using p pending_empty [OF p(3)] by simp
    moreover have "\<exists>h' s'. bh_loop m ?h s1 = Done (h', s') \<and> halves_ok h' \<and> pending h' = [] \<and> stamps_ok s' \<and>
        content s' = content s1 @ map Some (stamps_of tvs)"
      using Cons.prems(4,6) n s1 by (intro Cons.IH [OF p(3,2) False _ s1(2)]) simp_all
    ultimately show ?thesis using n p s1 by (simp add: Let_def)
  qed
qed simp

lemma length_digits: "n < 10 ^ w \<Longrightarrow> 0 < w \<Longrightarrow> length (digits n) \<le> w"
proof (induction w arbitrary: n)
  case (Suc w)
  show ?case
  proof (cases "n < 10")
    case False
    then have "0 < w" using Suc.prems by (cases w) auto
    moreover have "n div 10 < 10 ^ w" using Suc.prems(1) by (simp add: less_mult_imp_div_less mult.commute)
    ultimately show ?thesis using Suc.IH False by (subst digits.simps) simp
  qed (simp add: digits.simps)
qed simp

lemma length_bh_text: "0 \<le> i \<Longrightarrow> i < 1000000 \<Longrightarrow> length (bh_text i) = 16"
  using length_digits [of "nat i" 6] by (simp add: bh_text_def dec_text_def nat_less_iff)

text \<open>The number of turns the loop takes, exactly.\<close>

definition turns :: "halves \<Rightarrow> nat" where
  "turns h = (if pending h = [] then 512 else length (pending h))"

lemma turns_eq:
  "halves_ok h \<Longrightarrow> turns h = (if tv_tail h < tv_head h then tv_head h - tv_tail h else 512 - tv_tail h + tv_head h)"
  by (auto simp: turns_def pending_empty) (auto simp: halves_ok_def pending_def length_ring)

lemma turns_step:
  assumes "halves_ok h"
  shows "halves_ok (h\<lparr>tv_tail := short_incr_tv (tv_tail h)\<rparr>)"
    "turns h = (if short_incr_tv (tv_tail h) = tv_head h then 1
      else Suc (turns (h\<lparr>tv_tail := short_incr_tv (tv_tail h)\<rparr>)))"
proof -
  have h: "length (tv_data h) = 512" "tv_head h < 512" "tv_tail h < 512" using assms by (simp_all add: halves_ok_def)
  show ok: "halves_ok (h\<lparr>tv_tail := short_incr_tv (tv_tail h)\<rparr>)" using h incr_tv(2) by (simp add: halves_ok_def)
  show "turns h = (if short_incr_tv (tv_tail h) = tv_head h then 1
      else Suc (turns (h\<lparr>tv_tail := short_incr_tv (tv_tail h)\<rparr>)))"
    unfolding turns_eq [OF assms] turns_eq [OF ok] using h by (auto simp: short_incr_tv_def NR_TIMEVAL_def)
qed

lemma bh_loop_Suc:
  "put_stamp (stamp_text (fst (tv_data h ! tv_tail h)) (snd (tv_data h ! tv_tail h))) s = Done s1 \<Longrightarrow>
    bh_loop (Suc n) h s = (if short_incr_tv (tv_tail h) = tv_head h then Done (h\<lparr>tv_tail := short_incr_tv (tv_tail h)\<rparr>, s1)
      else bh_loop n (h\<lparr>tv_tail := short_incr_tv (tv_tail h)\<rparr>) s1)"
  by (simp add: Let_def)

lemma bh_loop_turns:
  assumes "halves_ok h" "stamps_ok s" "turns h \<le> n"
  shows "\<exists>h' s'. bh_loop n h s = Done (h', s') \<and> halves_ok h' \<and> pending h' = [] \<and> stamps_ok s'"
  using assms
proof (induction n arbitrary: h s)
  case 0
  then show ?case by (simp add: turns_def split: if_splits)
next
  case (Suc n)
  let ?h = "h\<lparr>tv_tail := short_incr_tv (tv_tail h)\<rparr>" and ?t = "tv_data h ! tv_tail h"
  obtain s1 where s1: "put_stamp (stamp_text (fst ?t) (snd ?t)) s = Done s1" "stamps_ok s1"
    by (rule put_stamp_total [OF Suc.prems(2) length_stamp]) (rule that)
  note h = turns_step [OF Suc.prems(1)]
  show ?case
  proof (cases "short_incr_tv (tv_tail h) = tv_head h")
    case True
    then show ?thesis using s1(2) h(1) pending_empty [OF h(1)] by (simp add: bh_loop_Suc [OF s1(1)] del: bh_loop.simps)
  next
    case False
    then show ?thesis using Suc.IH [OF h(1) s1(2)] h(2) Suc.prems(3) by (simp add: bh_loop_Suc [OF s1(1)] del: bh_loop.simps)
  qed
qed

lemma bh_loop_short:
  assumes "halves_ok h" "stamps_ok s" "n < turns h"
  shows "bh_loop n h s = Block"
  using assms
proof (induction n arbitrary: h s)
  case (Suc n)
  let ?t = "tv_data h ! tv_tail h"
  obtain s1 where s1: "put_stamp (stamp_text (fst ?t) (snd ?t)) s = Done s1" "stamps_ok s1"
    by (rule put_stamp_total [OF Suc.prems(2) length_stamp]) (rule that)
  note h = turns_step [OF Suc.prems(1)]
  have "short_incr_tv (tv_tail h) \<noteq> tv_head h" using Suc.prems(3) h(2) by auto
  then show ?case using Suc.IH [OF h(1) s1(2)] h(2) Suc.prems(3) by (simp add: bh_loop_Suc [OF s1(1)] del: bh_loop.simps)
qed simp

lemma turns_bound: "halves_ok h \<Longrightarrow> 0 < turns h \<and> turns h \<le> 512"
  using turns_eq by (auto simp: halves_ok_def)

lemma wq_interrupts_pending:
  assumes "halves_ok h" "length (pending h) + length tvs \<le> 511" "0 \<le> short_wq_count h"
    "short_wq_count h + int (length tvs) < 1000000"
  shows "pending (fold short_wq_interrupt tvs h) = pending h @ tvs" "halves_ok (fold short_wq_interrupt tvs h)"
    "short_wq_count (fold short_wq_interrupt tvs h) = short_wq_count h + int (length tvs)"
  using assms
proof (induction tvs arbitrary: h)
  case (Cons tv tvs)
  {
    case 1
    then show ?case using Cons.IH(1) [of "short_wq_interrupt tv h"] wq_interrupt_pending [of h tv]
      by (simp add: short_wq_interrupt_def s32_def)
  next
    case 2
    then show ?case using Cons.IH(2) [of "short_wq_interrupt tv h"] wq_interrupt_pending [of h tv]
      by (simp add: short_wq_interrupt_def s32_def)
  next
    case 3
    then show ?case using Cons.IH(3) [of "short_wq_interrupt tv h"] wq_interrupt_pending [of h tv]
      by (simp add: short_wq_interrupt_def s32_def)
  }
qed simp_all

text \<open>The direct handler, for each of a list of interrupts.\<close>

fun short_interrupts :: "(nat \<times> nat) list \<Rightarrow> stamps \<Rightarrow> stamps outcome" where
  "short_interrupts [] s = Done s"
| "short_interrupts (tv # tvs) s = and_then (short_interrupt tv s) (short_interrupts tvs)"

lemma short_interrupts_result:
  assumes "stamps_ok s" "length (content s) + 16 * length tvs < 4096"
  shows "\<exists>s'. short_interrupts tvs s = Done s' \<and> stamps_ok s' \<and> content s' = content s @ map Some (stamps_of tvs)"
  using assms
proof (induction tvs arbitrary: s)
  case (Cons tv tvs)
  obtain s1 where s1: "put_stamp (stamp_text (fst tv) (snd tv)) s = Done s1" "stamps_ok s1"
      "content s1 = content s @ map Some (stamp_text (fst tv) (snd tv))"
    by (rule put_stamp_result [OF Cons.prems(1) length_stamp [of "fst tv" "snd tv"]]) (use Cons.prems(2) in simp, rule that)
  then show ?case using Cons.IH [OF s1(2)] Cons.prems(2) by (auto simp: short_interrupt_def)
qed simp

section \<open>Properties\<close>

text \<open>C38: What the bottom half of short writes after a burst of interrupts is the line that counts them,
  followed by exactly the records that the direct handler writes for the same interrupts, in their
  order; nothing stays pending and the counter starts again. A burst is at most 511 interrupts, and the page has
  room for the records.\<close>

theorem bottom_half_equivalent:
  assumes "halves_ok h" "pending h = []" "short_wq_count h = 0" "tvs \<noteq> []" "length tvs \<le> 511"
    and "stamps_ok s" "length (content s) + 16 * (length tvs + 1) < 4096"
  shows "\<exists>h' s' s''. short_do_tasklet (fold short_wq_interrupt tvs h) s = Done (h', s') \<and>
    short_interrupts tvs s = Done s'' \<and> content s'' = content s @ map Some (stamps_of tvs) \<and>
    content s' = content s @ map Some (bh_text (int (length tvs)) @ stamps_of tvs) \<and>
    stamps_ok s' \<and> halves_ok h' \<and> pending h' = []"
proof -
  let ?h = "fold short_wq_interrupt tvs h"
  note p = wq_interrupts_pending [of h tvs]
  have h: "pending ?h = tvs" "halves_ok ?h" "short_wq_count ?h = int (length tvs)" using p assms(1-5) by simp_all
  then have h0: "halves_ok (?h\<lparr>short_wq_count := 0\<rparr>)" "pending (?h\<lparr>short_wq_count := 0\<rparr>) = tvs"
    by (simp_all add: halves_ok_def pending_def)
  have len: "length (bh_text (int (length tvs))) = 16" using assms(5) by (intro length_bh_text) simp_all
  obtain s1 where s1: "put_stamp (bh_text (int (length tvs))) s = Done s1" "stamps_ok s1"
      "content s1 = content s @ map Some (bh_text (int (length tvs)))"
    by (rule put_stamp_result [OF assms(6) len]) (use assms(7) in simp, rule that)
  have "\<exists>h' s'. bh_loop 512 (?h\<lparr>short_wq_count := 0\<rparr>) s1 = Done (h', s') \<and> halves_ok h' \<and> pending h' = [] \<and>
      stamps_ok s' \<and> content s' = content s1 @ map Some (stamps_of tvs)"
    using assms(5,7) s1 len by (intro bh_loop_result [OF h0 assms(4)]) simp_all
  moreover have "\<exists>s''. short_interrupts tvs s = Done s'' \<and> stamps_ok s'' \<and> content s'' = content s @ map Some (stamps_of tvs)"
    using assms(6,7) by (intro short_interrupts_result) simp_all
  ultimately show ?thesis using s1 h by (auto simp: short_do_tasklet_def Let_def NR_TIMEVAL_def)
qed

definition some_stamps :: stamps where "some_stamps = new_stamps (replicate 4097 None)"

definition some_halves :: halves where
  "some_halves = \<lparr>tv_data = replicate 512 (0, 0), tv_head = 0, tv_tail = 0, short_wq_count = 0\<rparr>"

lemma some_stamps: "stamps_ok some_stamps" "content some_stamps = []"
  by (simp_all add: some_stamps_def new_stamps_def stamps_ok_def content_def ring_cells_def)

lemma some_halves: "halves_ok some_halves" "pending some_halves = []" "short_wq_count some_halves = 0"
  by (simp_all add: some_halves_def halves_ok_def pending_def ring_cells_def)

theorem bottom_half_equivalent_witness:
  "\<exists>h' s' s''. short_do_tasklet (fold short_wq_interrupt [(1, 2), (3, 4)] some_halves) some_stamps = Done (h', s') \<and>
    short_interrupts [(1, 2), (3, 4)] some_stamps = Done s'' \<and>
    content s'' = content some_stamps @ map Some (stamps_of [(1, 2), (3, 4)]) \<and>
    content s' = content some_stamps @ map Some (bh_text (int (length [(1 :: nat, 2 :: nat), (3, 4)])) @ stamps_of [(1, 2), (3, 4)]) \<and>
    stamps_ok s' \<and> halves_ok h' \<and> pending h' = []"
  by (rule bottom_half_equivalent [OF some_halves]) (simp_all add: some_stamps)

text \<open>The bottom half of short returns. Its loop takes exactly one turn for each pending interrupt, but
  512 turns when nothing is pending: then it prints every entry of the array, old ones included. With
  fewer turns it is not done.\<close>

theorem tasklet_turns:
  assumes "halves_ok h" "stamps_ok s" "0 \<le> short_wq_count h" "short_wq_count h < 1000000"
  shows "\<exists>s1. put_stamp (bh_text (short_wq_count h)) s = Done s1 \<and>
    (\<forall>n < if pending h = [] then 512 else length (pending h). bh_loop n (h\<lparr>short_wq_count := 0\<rparr>) s1 = Block) \<and>
    (\<exists>h' s'. short_do_tasklet h s = Done (h', s') \<and> halves_ok h' \<and> pending h' = [] \<and> stamps_ok s')"
proof -
  let ?h = "h\<lparr>short_wq_count := 0\<rparr>"
  have h: "halves_ok ?h" "pending ?h = pending h" using assms(1) by (simp_all add: halves_ok_def pending_def)
  obtain s1 where s1: "put_stamp (bh_text (short_wq_count h)) s = Done s1" "stamps_ok s1"
    by (rule put_stamp_total [OF assms(2) length_bh_text [OF assms(3,4)]]) (rule that)
  have "\<forall>n < turns ?h. bh_loop n ?h s1 = Block" using bh_loop_short [OF h(1) s1(2)] by blast
  moreover have "turns ?h \<le> NR_TIMEVAL" using turns_bound [OF h(1)] by (simp add: NR_TIMEVAL_def)
  ultimately show ?thesis using s1(1) bh_loop_turns [OF h(1) s1(2)] h(2)
    by (auto simp: turns_def short_do_tasklet_def)
qed

theorem tasklet_turns_witness:
  "\<exists>s1. put_stamp (bh_text (short_wq_count some_halves)) some_stamps = Done s1 \<and>
    (\<forall>n < if pending some_halves = [] then 512 else length (pending some_halves).
      bh_loop n (some_halves\<lparr>short_wq_count := 0\<rparr>) s1 = Block) \<and>
    (\<exists>h' s'. short_do_tasklet some_halves some_stamps = Done (h', s') \<and> halves_ok h' \<and> pending h' = [] \<and> stamps_ok s')"
  by (rule tasklet_turns [OF some_halves(1) some_stamps(1)]) (simp_all add: some_halves(3))

text \<open>Interrupts and reads in any order, as long as the readers keep up.\<close>

inductive stamp_run :: "stamps \<Rightarrow> (nat \<times> nat) list \<Rightarrow> cell list \<Rightarrow> stamps \<Rightarrow> bool" where
  run_start: "stamp_run s [] [] s"
| run_irq: "stamp_run s tvs out s1 \<Longrightarrow> length (content s1) + 16 < 4096 \<Longrightarrow> short_interrupt tv s1 = Done s2 \<Longrightarrow>
    stamp_run s (tvs @ [tv]) out s2"
| run_read: "stamp_run s tvs out s1 \<Longrightarrow> content s1 \<noteq> [] \<Longrightarrow> 0 < cnt \<Longrightarrow>
    short_i_read sig cnt cnt s1 = Done (Inr n, bytes, s2) \<Longrightarrow> stamp_run s tvs (out @ bytes) s2"

text \<open>However interrupts and reads of short alternate, what the readers have got, followed by what the page
  still holds, is the records of all the interrupts so far, in their order, each once. The readers
  have to keep up: an interrupt may find at most 254 unread records.\<close>

theorem stamps_fifo:
  assumes "stamp_run s tvs out s'" "stamps_ok s" "content s = []"
  shows "stamps_ok s' \<and> out @ content s' = map Some (stamps_of tvs)"
  using assms
proof (induction rule: stamp_run.induct)
  case (run_irq s tvs out s1 tv s2)
  then have ok: "stamps_ok s1" by simp
  obtain s' where "put_stamp (stamp_text (fst tv) (snd tv)) s1 = Done s'" "stamps_ok s'"
      "content s' = content s1 @ map Some (stamp_text (fst tv) (snd tv))"
    by (rule put_stamp_result [OF ok length_stamp run_irq.hyps(2)]) (rule that)
  then show ?case using run_irq by (simp add: short_interrupt_def stamps_of_def)
next
  case (run_read s tvs out s1 cnt sig n bytes s2)
  then have ok: "stamps_ok s1" by simp
  obtain m s' where "read_stamps sig cnt cnt s1 = Done (Inr (int m), take m (content s1), s')" "stamps_ok s'"
      "content s' = drop m (content s1)"
    by (rule read_stamps_result [OF ok run_read.hyps(2,3) le_refl]) (rule that)
  moreover have "stamps_ok s1 \<and> out @ content s1 = map Some (stamps_of tvs)" using run_read by simp
  moreover have "take m (content s1) @ drop m (content s1) = content s1" by (rule append_take_drop_id)
  moreover from calculation(1) run_read.hyps(4) have "bytes = take m (content s1)" "s2 = s'" by (simp_all add: short_i_read_def)
  ultimately show ?case by simp
qed simp

lemma some_interrupt: "\<exists>s. stamp_run some_stamps [(1, 2)] [] s"
proof -
  obtain s where "put_stamp (stamp_text 1 2) some_stamps = Done s"
    by (rule put_stamp_total [OF some_stamps(1) length_stamp]) (rule that)
  then show ?thesis using run_irq [OF run_start, of some_stamps "(1, 2)" s] by (auto simp: short_interrupt_def some_stamps)
qed

theorem stamps_fifo_witness:
  "\<exists>s'. stamp_run some_stamps [(1, 2)] [] s' \<and> stamps_ok s' \<and> [] @ content s' = map Some (stamps_of [(1, 2)])"
  using some_interrupt stamps_fifo [OF _ some_stamps] by blast

text \<open>With 255 records unread the next interrupt makes the page look empty: all of them are lost.\<close>

lemma interrupt_overrun:
  assumes "stamps_ok s" "length (content s) = 4080"
  shows "\<exists>s'. short_interrupt tv s = Done s' \<and> content s' = []"
  unfolding short_interrupt_def by (rule put_stamp_overrun [OF assms(1) length_stamp assms(2)]) blast

text \<open>The zero byte that \<open>sprintf\<close> writes behind the last record of the page goes to the first byte behind the page.\<close>

lemma interrupt_foreign_byte:
  assumes "stamps_ok s" "st_head s = 4080" "length (content s) + 16 < 4096"
  shows "\<exists>s'. short_interrupt tv s = Done s' \<and> st_page s' ! 4096 = Some 0"
proof -
  obtain s' where "put_stamp (stamp_text (fst tv) (snd tv)) s = Done s'" "st_page s' ! 4096 = Some 0"
    by (rule put_stamp_result [OF assms(1) length_stamp assms(3)]) (rule that, use assms(2) in simp_all)
  then show ?thesis by (simp add: short_interrupt_def)
qed

text \<open>When no line reports an interrupt the own probing ends with line 0, which the init takes for a valid one.\<close>

lemma selfprobe_none:
  "short_selfprobe granted (\<lambda>_. []) = 0"
proof -
  have "n \<le> 5 \<Longrightarrow> selfprobe_from (\<lambda>_. []) g (5 - n) = 0" for n g
  proof (induction n)
    case 0
    then show ?case by (subst selfprobe_from.simps) simp
  next
    case (Suc n)
    then have "5 - Suc n + 1 = 5 - n" by simp
    then show ?case using Suc by (subst selfprobe_from.simps) (simp add: Let_def)
  qed
  from this [of 5] show ?thesis by (simp add: short_selfprobe_def)
qed

text \<open>A write whose data cannot be read keeps its buffer.\<close>

lemma short_write_leak:
  assumes "kmalloc (int cnt) k = (Some a, k')" "length ubuf < cnt"
  shows "do_short_write mem minor ubuf cnt k = Done (Inl EFAULT, [], k') \<and> km_live k' a \<noteq> None"
  using assms by (auto simp: do_short_write_def copy_from_user_def kmalloc_def split: if_splits)

lemma short_install_irqs:
  assumes "sk_irqs k = []" "0 \<le> share md" "short_install env md k = (md', k')"
  shows "\<exists>i h. md' = md\<lparr>short_irq := i\<rparr> \<and> k' = k\<lparr>sk_irqs := if i < 0 then [] else [(i, h)]\<rparr> \<and> (h = Sh_interrupt \<longleftrightarrow> share md \<noteq> 0)"
proof -
  consider (none) "short_irq md < 0" | (shared) "0 \<le> short_irq md" "0 < share md" | (own) "0 \<le> short_irq md" "share md = 0"
    using assms(2) by linarith
  then show ?thesis
  proof cases
    case none
    then have "md' = md" "k' = k" using assms(3) by (auto simp: short_install_def short_request_irq_def)
    then show ?thesis using none assms(1) by (intro exI [of _ "short_irq md"] exI [of _ "if share md = 0 then Interrupt else Sh_interrupt"]) simp
  next
    case shared
    then show ?thesis using assms(1,3)
      by (intro exI [of _ "short_irq md'"] exI [of _ Sh_interrupt]) (auto simp: short_install_def short_request_irq_def split: if_splits)
  next
    case own
    then show ?thesis using assms(1,3)
      by (intro exI [of _ "short_irq md'"] exI [of _ "snd (hd (sk_irqs k' @ [(0, Interrupt)]))"])
        (auto simp: short_install_def short_request_irq_def free_irq_def Let_def split: if_splits)
  qed
qed

text \<open>Loading and then unloading short gives everything back, whatever the kernel granted of its
  interrupt requests, except the memory region in memory mode: the unloading releases the address
  that \<open>ioremap\<close> returned and not the one that was requested.\<close>

theorem short_unload:
  assumes "sk_irqs k = []" "0 \<le> share md" "short_init env md k = (Inr 0, md', k')"
    and "use_mem md \<Longrightarrow> se_ioremap env (base md) \<noteq> base md \<and> se_ioremap env (base md) \<notin> set (sk_iomem k)"
  shows "short_cleanup md' k' = (if use_mem md then k\<lparr>sk_iomem := base md # sk_iomem k\<rparr> else k)"
proof -
  define md1 where "md1 = md\<lparr>short_base := base md, short_irq := irq md\<rparr>"
  obtain md2 k2 result where r: "short_resources env md1 k = Some (md2, k2)" "se_chrdev env (major md2) = Inr result"
    using assms(3) by (auto simp: short_init_def md1_def Let_def split: option.splits sum.splits)
  have k2: "use_mem md2 = use_mem md" "share md2 = share md" "short_base md2 = (if use_mem md then se_ioremap env (base md) else base md)"
    "k2 = (if use_mem md then k\<lparr>sk_iomem := base md # sk_iomem k, sk_maps := se_ioremap env (base md) # sk_maps k\<rparr>
      else k\<lparr>sk_ports := base md # sk_ports k\<rparr>)"
    using r(1) by (auto simp: short_resources_def md1_def split: if_splits)
  define md3 where "md3 = (if major md2 = 0 then md2\<lparr>major := result\<rparr> else md2)\<lparr>short_buffer := se_page env\<rparr>"
  define k3 where "k3 = k2\<lparr>sk_chrdevs := major md3 # sk_chrdevs k2, sk_pages := (if se_page env = 0 then sk_pages k2 else se_page env # sk_pages k2)\<rparr>"
  have ins: "short_install env (md3\<lparr>short_irq := short_find_irq env md3\<rparr>) k3 = (md', k')"
    using assms(3) r by (simp add: short_init_def md1_def md3_def k3_def Let_def)
  have "sk_irqs k3 = []" "0 \<le> share (md3\<lparr>short_irq := short_find_irq env md3\<rparr>)"
    using assms(1,2) k2 by (simp_all add: k3_def md3_def)
  from short_install_irqs [OF this ins] obtain i h where m: "md' = md3\<lparr>short_irq := i\<rparr>"
      "k' = k3\<lparr>sk_irqs := if i < 0 then [] else [(i, h)]\<rparr>" "h = Sh_interrupt \<longleftrightarrow> share md3 \<noteq> 0" by auto
  have "use_mem md3 = use_mem md" "short_base md3 = short_base md2" "short_buffer md3 = se_page env" "share md3 = share md"
    using k2 by (simp_all add: md3_def)
  then show ?thesis using m k2 assms(1,4) by (auto simp: short_cleanup_def free_irq_def k3_def Let_def remove1_idem intro!: short_kernel.equality)
qed

definition some_short_env :: short_env where
  "some_short_env = \<lparr>se_region = \<lambda>_. True, se_ioremap = \<lambda>a. a + 4096, se_chrdev = \<lambda>_. Inr 254, se_page = 8192,
     se_probe = \<lambda>_. 0, se_probe_irq = \<lambda>_. True, se_seen = \<lambda>_. [], se_request = \<lambda>_ _. True\<rparr>"

definition some_short :: short_module where
  "some_short = \<lparr>major = 0, base = 0x378, irq = -1, use_mem = True, probe = 0, wq = 1, tasklet = 0, share = 0,
     short_base = 0, short_irq = -1, short_buffer = 0\<rparr>"

definition no_claims :: short_kernel where
  "no_claims = \<lparr>sk_ports = [], sk_iomem = [], sk_maps = [], sk_chrdevs = [], sk_pages = [], sk_irqs = []\<rparr>"

lemma short_init_some: "fst (short_init some_short_env some_short no_claims) = Inr 0"
  by (simp add: short_init_def some_short_env_def some_short_def no_claims_def short_resources_def Let_def)

theorem short_unload_witness:
  "\<exists>md' k'. short_init some_short_env some_short no_claims = (Inr 0, md', k') \<and>
    short_cleanup md' k' = (if use_mem some_short then no_claims\<lparr>sk_iomem := base some_short # sk_iomem no_claims\<rparr> else no_claims)"
proof -
  obtain md' k' where i: "short_init some_short_env some_short no_claims = (Inr 0, md', k')"
    using short_init_some by (metis prod.collapse)
  have "short_cleanup md' k' = (if use_mem some_short then no_claims\<lparr>sk_iomem := base some_short # sk_iomem no_claims\<rparr> else no_claims)"
    by (rule short_unload [OF _ _ i]) (simp_all add: no_claims_def some_short_def some_short_env_def)
  with i show ?thesis by blast
qed

end
