(* ===== verification/Shortprint_Driver.thy ===== *)
theory Shortprint_Driver
  imports Stamp_Buffer
begin

text \<open>
  The printer driver shortprint (shortprint/shortprint.c of Kernel/Driver/ldd3-master): a write moves bytes to a
  page, a work function takes them from there one by one and strobes them into the printer, kept going
  by interrupts and by a timer for interrupts that are missed. Its reads give time stamps.

  The driver is a state machine. A step is a piece of code that the others cannot see in the middle: a
  section under the spin lock, or one access to the variables that are used without the lock.
\<close>

section \<open>State\<close>

definition SP_DATA :: int where "SP_DATA = 0"
definition SP_CONTROL :: int where "SP_CONTROL = 2"
definition SP_SR_BUSY :: byte where "SP_SR_BUSY = 0x80"
definition SP_SR_ACK :: byte where "SP_SR_ACK = 0x40"
definition SP_CR_STROBE :: byte where "SP_CR_STROBE = 1"
definition SP_MIN_SPACE :: int where "SP_MIN_SPACE = int STAMP_PAGE div 2"

text \<open>Where the process is that has the mutex: the rest of its data, the size of the write and how much is
  done. \<open>Copying\<close> has looked for space. \<open>Waiting\<close> is in the wait queue; the flag says that it is to look again.\<close>

record write_job =
  wj_buf :: "byte list"
  wj_count :: int
  wj_written :: int

datatype print_writer =
    No_writer | Writing write_job | Waiting write_job bool | Copying write_job int | Starting write_job

text \<open>The handler of the timer: it looks whether output is active, takes the lock, and may call the
  interrupt handler, which looks again before it queues the work.\<close>

datatype print_timeout = T_none | T_check | T_lock | T_interrupt | T_queue "nat \<times> nat"

text \<open>\<open>pr_port\<close> are the values written to the ports, the first one first. \<open>pr_accepted\<close> is the history
  of the bytes that writes have put into the page.\<close>

record printer =
  out_page :: "cell list"
  out_head :: nat
  out_tail :: nat
  pr_writer :: print_writer
  output_active :: bool
  timer_pending :: bool
  timeout_at :: print_timeout
  irq_at :: "(nat \<times> nat) option"
  work_queued :: bool
  work_running :: bool
  shortp_tv :: "nat \<times> nat"
  shortp_in :: stamps
  pr_port :: "(int \<times> cell) list"
  pr_accepted :: "cell list"
  pr_results :: "(errno + int) list"

definition shortp_new :: "cell list \<Rightarrow> cell list \<Rightarrow> printer" where
  "shortp_new page in_page =
     \<lparr>out_page = page, out_head = 0, out_tail = 0, pr_writer = No_writer, output_active = False,
      timer_pending = False, timeout_at = T_none, irq_at = None, work_queued = False, work_running = False,
      shortp_tv = (0, 0), shortp_in = new_stamps in_page, pr_port = [], pr_accepted = [], pr_results = []\<rparr>"

section \<open>Operations\<close>

definition shortp_out_space :: "printer \<Rightarrow> int" where
  "shortp_out_space p =
     (if out_head p \<ge> out_tail p
      then let space = int STAMP_PAGE - int (out_head p) in if out_tail p = 0 then space - 1 else space
      else int (out_tail p) - int (out_head p) - 1)"

definition shortp_incr_out_bp :: "nat \<Rightarrow> nat \<Rightarrow> nat" where
  "shortp_incr_out_bp bp incr = (let new = bp + incr in if new \<ge> STAMP_PAGE then new - STAMP_PAGE else new)"

definition shortp_read :: "bool \<Rightarrow> nat \<Rightarrow> nat \<Rightarrow> printer \<Rightarrow> ((errno + int) \<times> cell list \<times> printer) outcome" where
  "shortp_read sig room cnt p =
     and_then (read_stamps sig room cnt (shortp_in p)) (\<lambda>(r, bytes, s). Done (r, bytes, p\<lparr>shortp_in := s\<rparr>))"

text \<open>\<open>add_timer\<close> on a timer that is pending is a \<open>BUG()\<close>.\<close>

definition print_add_timer :: "printer \<Rightarrow> printer outcome" where
  "print_add_timer p = (if timer_pending p then Crash Kernel_bug else Done (p\<lparr>timer_pending := True\<rparr>))"

text \<open>\<open>cr\<close> is the value of the control register. A byte is put on the data lines and strobed.\<close>

definition shortp_do_write :: "byte \<Rightarrow> printer \<Rightarrow> printer outcome" where
  "shortp_do_write cr p =
     (let p = p\<lparr>timer_pending := True\<rparr> in
      and_then (load_cells (out_page p) (int (out_tail p)) 1) (\<lambda>src.
        Done (p\<lparr>out_tail := shortp_incr_out_bp (out_tail p) 1,
          pr_port := pr_port p @ map (Pair SP_DATA) src @
            [(SP_CONTROL, Some (or cr SP_CR_STROBE)), (SP_CONTROL, Some (and cr (not SP_CR_STROBE)))]\<rparr>)))"

definition shortp_start_output :: "printer \<Rightarrow> printer outcome" where
  "shortp_start_output p =
     (if output_active p then Done p
      else and_then (print_add_timer (p\<lparr>output_active := True\<rparr>)) (\<lambda>p. Done (p\<lparr>work_queued := True\<rparr>)))"

text \<open>The parts of \<open>shortp_write\<close>. A signal while the mutex is waited for ends the write.\<close>

definition write_lock :: "bool \<Rightarrow> byte list \<Rightarrow> int \<Rightarrow> printer \<Rightarrow> printer outcome" where
  "write_lock sig ubuf cnt p =
     (if pr_writer p = No_writer
      then Done (p\<lparr>pr_writer := Writing \<lparr>wj_buf = ubuf, wj_count = cnt, wj_written = 0\<rparr>\<rparr>)
      else if sig then Done (p\<lparr>pr_results := pr_results p @ [Inl ERESTARTSYS]\<rparr>)
      else Block)"

definition write_out :: "write_job \<Rightarrow> printer \<Rightarrow> printer" where
  "write_out j p = p\<lparr>pr_writer := No_writer, pr_results := pr_results p @ [Inr (wj_written j)]\<rparr>"

definition write_loop :: "write_job \<Rightarrow> printer \<Rightarrow> printer outcome" where
  "write_loop j p =
     (if wj_written j < wj_count j
      then let space = shortp_out_space p in
           Done (p\<lparr>pr_writer := if space \<le> 0 then Waiting j True else Copying j space\<rparr>)
      else Done (write_out j p))"

definition write_wait :: "bool \<Rightarrow> write_job \<Rightarrow> bool \<Rightarrow> printer \<Rightarrow> printer outcome" where
  "write_wait sig j again p =
     (if \<not> again \<and> \<not> sig then Block
      else let space = shortp_out_space p in
           if space > 0 then Done (p\<lparr>pr_writer := Copying j space\<rparr>)
           else if sig then Done (write_out j p)
           else Done (p\<lparr>pr_writer := Waiting j False\<rparr>))"

definition write_copy :: "write_job \<Rightarrow> int \<Rightarrow> printer \<Rightarrow> printer outcome" where
  "write_copy j space p =
     (let space = (if space + wj_written j > wj_count j then wj_count j - wj_written j else space) in
      case copy_from_user (wj_buf j) (nat space) of
        (new, missing) \<Rightarrow>
          and_then (store_cells (out_page p) (int (out_head p)) new) (\<lambda>page.
            let p = p\<lparr>out_page := page\<rparr> in
            if missing \<noteq> 0 then Done (p\<lparr>pr_writer := No_writer, pr_results := pr_results p @ [Inl EFAULT]\<rparr>)
            else
              Done (p\<lparr>out_head := shortp_incr_out_bp (out_head p) (nat space), pr_accepted := pr_accepted p @ new,
                pr_writer := Starting (j\<lparr>wj_buf := drop (nat space) (wj_buf j), wj_written := wj_written j + space\<rparr>)\<rparr>)))"

definition write_start :: "write_job \<Rightarrow> printer \<Rightarrow> printer outcome" where
  "write_start j p =
     and_then (if \<not> output_active p then shortp_start_output p else Done p) (\<lambda>p.
       Done (p\<lparr>pr_writer := Writing j\<rparr>))"

definition shortp_write_step :: "bool \<Rightarrow> printer \<Rightarrow> printer outcome" where
  "shortp_write_step sig p =
     (case pr_writer p of
        No_writer \<Rightarrow> Block
      | Writing j \<Rightarrow> write_loop j p
      | Waiting j again \<Rightarrow> write_wait sig j again p
      | Copying j space \<Rightarrow> write_copy j space p
      | Starting j \<Rightarrow> write_start j p)"

text \<open>The work function after the printer is ready.\<close>

definition wake_print_writer :: "printer \<Rightarrow> printer" where
  "wake_print_writer p = (case pr_writer p of Waiting j _ \<Rightarrow> p\<lparr>pr_writer := Waiting j True\<rparr> | _ \<Rightarrow> p)"

definition shortp_do_work :: "byte \<Rightarrow> printer \<Rightarrow> printer outcome" where
  "shortp_do_work cr p =
     and_then (if out_head p = out_tail p then Done (p\<lparr>output_active := False, timer_pending := False\<rparr>)
               else shortp_do_write cr p) (\<lambda>p.
     let p = (if (int STAMP_PAGE + int (out_tail p) - int (out_head p)) mod int STAMP_PAGE > SP_MIN_SPACE
              then wake_print_writer p else p)
     in and_then (put_stamp (stamp_text (fst (shortp_tv p)) (snd (shortp_tv p))) (shortp_in p)) (\<lambda>s.
          Done (p\<lparr>shortp_in := s, work_running := False\<rparr>)))"

text \<open>The interrupt handler looks at the flag, and then queues the work.\<close>

definition interrupt_check :: "nat \<times> nat \<Rightarrow> printer \<Rightarrow> (nat \<times> nat) option" where
  "interrupt_check tv p = (if \<not> output_active p then None else Some tv)"

definition interrupt_queue :: "nat \<times> nat \<Rightarrow> printer \<Rightarrow> printer" where
  "interrupt_queue tv p = p\<lparr>shortp_tv := tv, work_queued := True\<rparr>"

definition timeout_locked :: "byte \<Rightarrow> printer \<Rightarrow> printer outcome" where
  "timeout_locked st p =
     (if and st SP_SR_BUSY = 0 \<or> and st SP_SR_ACK \<noteq> 0
      then and_then (print_add_timer p) (\<lambda>p. Done (p\<lparr>timeout_at := T_none\<rparr>))
      else Done (p\<lparr>timeout_at := T_interrupt\<rparr>))"

definition shortp_timeout_step :: "byte \<Rightarrow> nat \<times> nat \<Rightarrow> printer \<Rightarrow> printer outcome" where
  "shortp_timeout_step st tv p =
     (case timeout_at p of
        T_none \<Rightarrow> Block
      | T_check \<Rightarrow> Done (p\<lparr>timeout_at := if \<not> output_active p then T_none else T_lock\<rparr>)
      | T_lock \<Rightarrow> timeout_locked st p
      | T_interrupt \<Rightarrow>
          Done (p\<lparr>timeout_at := case interrupt_check tv p of None \<Rightarrow> T_none | Some tv \<Rightarrow> T_queue tv\<rparr>)
      | T_queue tv \<Rightarrow> Done ((interrupt_queue tv p)\<lparr>timeout_at := T_none\<rparr>))"

text \<open>A release waits for the output to end, unless a signal comes.\<close>

definition shortp_release :: "bool \<Rightarrow> printer \<Rightarrow> int outcome" where
  "shortp_release sig p = (if output_active p \<and> \<not> sig then Block else Done 0)"

section \<open>Loading and unloading\<close>

text \<open>The variables that the init sets, what the kernel has given away, and what it answers.\<close>

record print_module =
  pm_base :: int
  pm_irq :: int
  pm_major :: int
  shortp_irq :: int
  shortp_in_buffer :: int
  shortp_out_buffer :: int

record print_kernel =
  pk_ports :: "int list"
  pk_chrdevs :: "int list"
  pk_pages :: "int list"
  pk_workqueues :: nat
  pk_irqs :: "int list"

record print_env =
  pe_region :: "int \<Rightarrow> bool"
  pe_chrdev :: "int \<Rightarrow> errno + int"
  pe_pages :: "int \<times> int"
  pe_irq :: "int \<Rightarrow> errno option"

definition get_page :: "int \<Rightarrow> print_kernel \<Rightarrow> print_kernel" where
  "get_page a k = (if a = 0 then k else k\<lparr>pk_pages := a # pk_pages k\<rparr>)"

definition free_page :: "int \<Rightarrow> print_kernel \<Rightarrow> print_kernel" where
  "free_page a k = (if a = 0 then k else k\<lparr>pk_pages := remove1 a (pk_pages k)\<rparr>)"

definition shortp_cleanup :: "print_module \<Rightarrow> print_kernel \<Rightarrow> print_kernel" where
  "shortp_cleanup md k =
     (let k = (if shortp_irq md \<ge> 0 then k\<lparr>pk_irqs := remove1 (shortp_irq md) (pk_irqs k)\<rparr> else k);
          k = k\<lparr>pk_chrdevs := remove1 (pm_major md) (pk_chrdevs k), pk_ports := remove1 (pm_base md) (pk_ports k),
            pk_workqueues := pk_workqueues k - 1\<rparr>
      in free_page (shortp_out_buffer md) (free_page (shortp_in_buffer md) k))"

definition shortp_default_irq :: "print_module \<Rightarrow> int" where
  "shortp_default_irq md =
     (if pm_irq md < 0
      then (if pm_base md = 0x378 then 7 else if pm_base md = 0x278 then 2 else if pm_base md = 0x3bc then 5 else pm_irq md)
      else pm_irq md)"

definition shortp_init ::
    "print_env \<Rightarrow> print_module \<Rightarrow> print_kernel \<Rightarrow> (errno + int) \<times> print_module \<times> print_kernel" where
  "shortp_init env md k =
     (if \<not> pe_region env (pm_base md) then (Inl ENODEV, md\<lparr>shortp_irq := pm_irq md\<rparr>, k)
      else
        let k = k\<lparr>pk_ports := pm_base md # pk_ports k\<rparr> in
        case pe_chrdev env (pm_major md) of
          Inl e \<Rightarrow> (Inl e, md\<lparr>shortp_irq := pm_irq md\<rparr>, k\<lparr>pk_ports := remove1 (pm_base md) (pk_ports k)\<rparr>)
        | Inr result \<Rightarrow>
            let md = (if pm_major md = 0 then md\<lparr>pm_major := result\<rparr> else md);
                md = md\<lparr>shortp_in_buffer := fst (pe_pages env), shortp_out_buffer := snd (pe_pages env),
                  shortp_irq := shortp_default_irq md\<rparr>;
                k = k\<lparr>pk_chrdevs := pm_major md # pk_chrdevs k, pk_workqueues := pk_workqueues k + 1\<rparr>;
                k = get_page (snd (pe_pages env)) (get_page (fst (pe_pages env)) k)
            in case pe_irq env (shortp_irq md) of
                 Some e \<Rightarrow> (let md = md\<lparr>shortp_irq := - 1\<rparr> in (Inl e, md, shortp_cleanup md k))
               | None \<Rightarrow> (Inr 0, md, k\<lparr>pk_irqs := shortp_irq md # pk_irqs k\<rparr>))"

section \<open>Steps\<close>

datatype print_event =
    Write_call bool "byte list" int
  | Write_step bool
  | Read_call bool nat nat
  | Irq "nat \<times> nat"
  | Irq_queue
  | Work_start
  | Work_body byte
  | Timer_fires
  | Timeout_step byte "nat \<times> nat"

fun print_step :: "print_event \<Rightarrow> printer \<Rightarrow> printer outcome" where
  "print_step (Write_call sig ubuf cnt) p = (if 0 \<le> cnt then write_lock sig ubuf cnt p else Block)"
| "print_step (Write_step sig) p = shortp_write_step sig p"
| "print_step (Read_call sig room cnt) p = and_then (shortp_read sig room cnt p) (\<lambda>(_, _, p). Done p)"
| "print_step (Irq tv) p = (if irq_at p = None then Done (p\<lparr>irq_at := interrupt_check tv p\<rparr>) else Block)"
| "print_step Irq_queue p =
     (case irq_at p of None \<Rightarrow> Block | Some tv \<Rightarrow> Done ((interrupt_queue tv p)\<lparr>irq_at := None\<rparr>))"
| "print_step Work_start p =
     (if work_queued p \<and> \<not> work_running p then Done (p\<lparr>work_queued := False, work_running := True\<rparr>) else Block)"
| "print_step (Work_body cr) p = (if work_running p then shortp_do_work cr p else Block)"
| "print_step Timer_fires p =
     (if timer_pending p \<and> timeout_at p = T_none then Done (p\<lparr>timer_pending := False, timeout_at := T_check\<rparr>) else Block)"
| "print_step (Timeout_step st tv) p = shortp_timeout_step st tv p"

inductive print_reach :: "printer \<Rightarrow> bool" where
  reach_new: "length page = 4096 \<Longrightarrow> length in_page = 4097 \<Longrightarrow> print_reach (shortp_new page in_page)"
| reach_step: "print_reach p \<Longrightarrow> print_step ev p = Done p' \<Longrightarrow> print_reach p'"

section \<open>The invariant\<close>

definition print_queue :: "printer \<Rightarrow> cell list" where
  "print_queue p = ring_cells (out_page p) (out_tail p) (out_head p)"

text \<open>The bytes that the printer has got.\<close>

definition printed :: "printer \<Rightarrow> cell list" where
  "printed p = map snd (filter (\<lambda>(port, _). port = SP_DATA) (pr_port p))"

definition out_ring_ok :: "printer \<Rightarrow> bool" where
  "out_ring_ok p \<longleftrightarrow> length (out_page p) = 4096 \<and> out_head p < 4096 \<and> out_tail p < 4096 \<and> stamps_ok (shortp_in p) \<and>
     printed p @ print_queue p = pr_accepted p"

fun writer_ok :: "printer \<Rightarrow> print_writer \<Rightarrow> bool" where
  "writer_ok p No_writer = True"
| "writer_ok p (Writing j) = (0 \<le> wj_written j \<and> wj_written j \<le> wj_count j)"
| "writer_ok p (Starting j) = (0 \<le> wj_written j \<and> wj_written j \<le> wj_count j)"
| "writer_ok p (Copying j n) = (0 \<le> wj_written j \<and> wj_written j < wj_count j \<and> 0 < n \<and> n \<le> shortp_out_space p)"
| "writer_ok p (Waiting j again) = (0 \<le> wj_written j \<and> wj_written j < wj_count j \<and>
     (\<not> again \<longrightarrow> out_head p \<noteq> out_tail p \<and>
       (int STAMP_PAGE + int (out_tail p) - int (out_head p)) mod int STAMP_PAGE \<le> SP_MIN_SPACE))"

definition output_ok :: "printer \<Rightarrow> bool" where
  "output_ok p \<longleftrightarrow>
     (out_head p \<noteq> out_tail p \<longrightarrow> output_active p \<or> (\<exists>j. pr_writer p = Starting j)) \<and>
     (output_active p \<longrightarrow> timer_pending p \<or> timeout_at p \<noteq> T_none \<or> work_queued p \<or> work_running p)"

definition print_inv :: "printer \<Rightarrow> bool" where
  "print_inv p \<longleftrightarrow> out_ring_ok p \<and> writer_ok p (pr_writer p) \<and> output_ok p"

lemma space_free:
  assumes "0 < n" "int n \<le> shortp_out_space p" "out_ring_ok p"
  shows "out_tail p \<le> out_head p \<and> out_head p + n \<le> length (out_page p) \<and> (out_tail p = 0 \<longrightarrow> out_head p + n < length (out_page p)) \<or>
    out_head p < out_tail p \<and> out_head p + n < out_tail p"
  using assms by (auto simp: shortp_out_space_def out_ring_ok_def STAMP_PAGE_def Let_def split: if_splits)

lemma incr_out: "bp + n \<le> 4096 \<Longrightarrow> length cs = 4096 \<Longrightarrow> shortp_incr_out_bp bp n = ring_next cs (bp + n)"
  "bp + n \<le> 4096 \<Longrightarrow> shortp_incr_out_bp bp n < 4096"
  by (auto simp: shortp_incr_out_bp_def ring_next_def STAMP_PAGE_def Let_def)

text \<open>The space that a writer has seen is still there when it copies: the work function only adds to it.\<close>

lemma space_grows:
  assumes "out_head p < 4096" "out_tail p < 4096" "out_tail p \<noteq> out_head p"
  shows "shortp_out_space p \<le> shortp_out_space (p\<lparr>out_tail := shortp_incr_out_bp (out_tail p) 1\<rparr>)"
  using assms by (auto simp: shortp_out_space_def shortp_incr_out_bp_def STAMP_PAGE_def Let_def)

lemma full_space:
  assumes "out_head p < 4096" "out_tail p < 4096" "shortp_out_space p \<le> 0"
  shows "out_head p \<noteq> out_tail p" "(int STAMP_PAGE + int (out_tail p) - int (out_head p)) mod int STAMP_PAGE \<le> SP_MIN_SPACE"
proof -
  have "int (out_tail p) - int (out_head p) = 1 \<or> out_tail p = 0 \<and> out_head p = 4095"
    using assms by (auto simp: shortp_out_space_def STAMP_PAGE_def Let_def split: if_splits)
  then show "out_head p \<noteq> out_tail p" "(int STAMP_PAGE + int (out_tail p) - int (out_head p)) mod int STAMP_PAGE \<le> SP_MIN_SPACE"
    by (auto simp: STAMP_PAGE_def SP_MIN_SPACE_def algebra_simps)
qed

text \<open>Free space beyond half of the page wakes the writer up before it is all there is.\<close>

lemma half_space:
  assumes "h < 4096" "t < 4096" "h \<noteq> t" "(4096 + int t - int h) mod 4096 \<le> 2048"
    "(4096 + int (shortp_incr_out_bp t 1) - int h) mod 4096 \<le> 2048"
  shows "shortp_incr_out_bp t 1 \<noteq> h"
proof
  assume "shortp_incr_out_bp t 1 = h"
  then have "Suc t = h \<or> t = 4095 \<and> h = 0"
    using assms(2) by (auto simp: shortp_incr_out_bp_def STAMP_PAGE_def Let_def split: if_splits)
  then show False using assms(4) by (auto simp: algebra_simps)
qed

text \<open>Most steps do not touch the page, the port or the reader's records.\<close>

lemma space_cong: "out_head p = out_head q \<Longrightarrow> out_tail p = out_tail q \<Longrightarrow> shortp_out_space p = shortp_out_space q"
  by (simp add: shortp_out_space_def)

lemma writer_ok_cong: "out_head p = out_head q \<Longrightarrow> out_tail p = out_tail q \<Longrightarrow> writer_ok p w = writer_ok q w"
  using space_cong [of p q] by (cases w) simp_all

lemma print_inv_frame:
  assumes "print_inv p" "out_page q = out_page p" "out_head q = out_head p" "out_tail q = out_tail p" "pr_port q = pr_port p"
    "pr_accepted q = pr_accepted p" "stamps_ok (shortp_in q)" "writer_ok p (pr_writer q)" "output_ok q"
  shows "print_inv q"
  using assms writer_ok_cong [of q p "pr_writer q"] by (simp add: print_inv_def out_ring_ok_def printed_def print_queue_def)

lemma print_inv_parts:
  assumes "print_inv p"
  shows "out_ring_ok p" "writer_ok p (pr_writer p)" "output_ok p" "stamps_ok (shortp_in p)" "length (out_page p) = 4096"
    "out_head p < 4096" "out_tail p < 4096"
  using assms by (simp_all add: print_inv_def out_ring_ok_def)

lemmas printer_defs = out_ring_ok_def output_ok_def printed_def print_queue_def shortp_out_space_def

lemma print_inv_writer:
  assumes "print_inv p" "writer_ok p w" "\<forall>j. pr_writer p \<noteq> Starting j"
  shows "print_inv (p\<lparr>pr_writer := w\<rparr>)" "print_inv (p\<lparr>pr_writer := w, pr_results := rs\<rparr>)"
  using print_inv_parts [OF assms(1)] assms(2,3) by (auto intro!: print_inv_frame [OF assms(1)] simp: output_ok_def)

lemma write_loop_inv:
  assumes "print_inv p" "pr_writer p = Writing j" "write_loop j p = Done p'"
  shows "print_inv p'"
  using assms print_inv_parts(2) [OF assms(1)]
  by (auto simp: write_loop_def write_out_def Let_def intro!: print_inv_writer [OF assms(1)] split: if_splits)

lemma write_wait_inv:
  assumes "print_inv p" "pr_writer p = Waiting j again" "write_wait sig j again p = Done p'"
  shows "print_inv p'"
proof -
  note i = print_inv_parts [OF assms(1)]
  show ?thesis using assms i(2) full_space [OF i(6,7)]
    by (auto simp: write_wait_def write_out_def Let_def not_less intro!: print_inv_writer [OF assms(1)] split: if_splits)
qed

text \<open>The copy: also when the data cannot be read as a whole, nothing outside of the free space changes.\<close>

lemma write_copy_result:
  assumes "print_inv p" "pr_writer p = Copying j space"
  obtains p' where "write_copy j space p = Done p'" "print_inv p'"
proof -
  define n where "n = nat (if space + wj_written j > wj_count j then wj_count j - wj_written j else space)"
  define new where "new = fst (copy_from_user (wj_buf j) n)"
  have p: "out_ring_ok p" "0 \<le> wj_written j" "wj_written j < wj_count j" "0 < space" "space \<le> shortp_out_space p" "output_ok p"
    using assms by (simp_all add: print_inv_def)
  have n: "0 < n" "int n \<le> space" "wj_written j + int n \<le> wj_count j"
    "int n = (if space + wj_written j > wj_count j then wj_count j - wj_written j else space)"
    using p by (auto simp: n_def)
  have r: "length (out_page p) = 4096" "out_head p < 4096" "out_tail p < 4096" using p(1) by (simp_all add: out_ring_ok_def)
  have new: "length new = n" by (simp add: new_def copy_from_user_def)
  have free: "out_tail p \<le> out_head p \<and> out_head p + n \<le> length (out_page p) \<and> (out_tail p = 0 \<longrightarrow> out_head p + n < length (out_page p)) \<or>
      out_head p < out_tail p \<and> out_head p + n < out_tail p"
    using space_free [OF n(1) _ p(1)] n(2) p(5) by linarith
  then have h: "out_head p + n \<le> 4096" using r by auto
  let ?page = "take (out_head p) (out_page p) @ new @ drop (out_head p + n) (out_page p)"
  have st: "store_cells (out_page p) (int (out_head p)) new = Done ?page"
    using h r new by (simp add: store_cells_def nat_add_distrib)
  have q: "ring_cells ?page (out_tail p) (ring_next (out_page p) (out_head p + n)) = print_queue p @ new"
      "ring_cells ?page (out_tail p) (out_head p) = print_queue p"
    unfolding print_queue_def using r new by (intro ring_put [OF _ _ _ free]; simp)+
  have len: "length ?page = 4096" using h r new by simp
  have c: "copy_from_user (wj_buf j) n = (new, n - length (wj_buf j))" by (simp add: new_def copy_from_user_def)
  have w: "write_copy j space p = (if n - length (wj_buf j) \<noteq> 0
      then Done (p\<lparr>out_page := ?page, pr_writer := No_writer, pr_results := pr_results p @ [Inl EFAULT]\<rparr>)
      else Done (p\<lparr>out_page := ?page, out_head := shortp_incr_out_bp (out_head p) n, pr_accepted := pr_accepted p @ new,
        pr_writer := Starting (j\<lparr>wj_buf := drop n (wj_buf j), wj_written := wj_written j + int n\<rparr>)\<rparr>))"
    unfolding write_copy_def Let_def n(4) [symmetric] nat_int c prod.case st and_then.simps by simp
  show ?thesis
  proof (cases "n - length (wj_buf j) \<noteq> 0")
    case True
    have "print_inv (p\<lparr>out_page := ?page, pr_writer := No_writer, pr_results := pr_results p @ [Inl EFAULT]\<rparr>)"
      using p r len q(2) assms(2) by (auto simp: print_inv_def out_ring_ok_def output_ok_def print_queue_def printed_def)
    then show ?thesis using that w True by simp
  next
    case False
    have "print_inv (p\<lparr>out_page := ?page, out_head := shortp_incr_out_bp (out_head p) n, pr_accepted := pr_accepted p @ new,
        pr_writer := Starting (j\<lparr>wj_buf := drop n (wj_buf j), wj_written := wj_written j + int n\<rparr>)\<rparr>)"
      using p r len q(1) n incr_out(1) [OF h r(1)] incr_out(2) [OF h]
      by (auto simp: print_inv_def out_ring_ok_def output_ok_def print_queue_def printed_def)
    then show ?thesis using that w False by simp
  qed
qed

lemma write_start_inv:
  assumes "print_inv p" "pr_writer p = Starting j" "write_start j p = Done p'"
  shows "print_inv p'"
  using assms
  by (auto simp: print_inv_def write_start_def shortp_start_output_def print_add_timer_def printer_defs split: if_splits)

lemma wake_print_writer_simps [simp]:
  "out_page (wake_print_writer p) = out_page p" "out_head (wake_print_writer p) = out_head p" "out_tail (wake_print_writer p) = out_tail p"
  "output_active (wake_print_writer p) = output_active p" "timer_pending (wake_print_writer p) = timer_pending p"
  "timeout_at (wake_print_writer p) = timeout_at p" "work_queued (wake_print_writer p) = work_queued p" "shortp_tv (wake_print_writer p) = shortp_tv p"
  "shortp_in (wake_print_writer p) = shortp_in p" "pr_port (wake_print_writer p) = pr_port p" "pr_accepted (wake_print_writer p) = pr_accepted p"
  by (simp_all add: wake_print_writer_def split: print_writer.split)

lemma do_write_result:
  assumes "print_inv p" "out_head p \<noteq> out_tail p"
  obtains c where "shortp_do_write cr p = Done (p\<lparr>timer_pending := True, out_tail := shortp_incr_out_bp (out_tail p) 1,
      pr_port := pr_port p @ [(SP_DATA, c), (SP_CONTROL, Some (or cr SP_CR_STROBE)), (SP_CONTROL, Some (and cr (not SP_CR_STROBE)))]\<rparr>)"
    "print_queue p = c # ring_cells (out_page p) (shortp_incr_out_bp (out_tail p) 1) (out_head p)"
proof -
  have r: "length (out_page p) = 4096" "out_head p < 4096" "out_tail p < 4096" "out_head p \<noteq> out_tail p"
    using assms by (simp_all add: print_inv_def out_ring_ok_def)
  have ld: "load_cells (out_page p) (int (out_tail p)) 1 = Done [out_page p ! out_tail p]"
    using r by (simp add: load_cells_def take_Suc hd_drop_conv_nth)
  have "print_queue p = take 1 (drop (out_tail p) (out_page p)) @
      ring_cells (out_page p) (ring_next (out_page p) (out_tail p + 1)) (out_head p)"
    unfolding print_queue_def using r by (intro ring_get) auto
  moreover have "take 1 (drop (out_tail p) (out_page p)) = [out_page p ! out_tail p]"
    using r by (simp add: take_Suc hd_drop_conv_nth)
  moreover have "ring_next (out_page p) (out_tail p + 1) = shortp_incr_out_bp (out_tail p) 1"
    using incr_out(1) [of "out_tail p" 1 "out_page p"] r by simp
  ultimately show ?thesis using ld that [of "out_page p ! out_tail p"] by (simp add: shortp_do_write_def Let_def)
qed

text \<open>The invariant at the end of the section under the lock, from the one at its start.\<close>

definition maybe_wake :: "printer \<Rightarrow> printer" where
  "maybe_wake p = (if (int STAMP_PAGE + int (out_tail p) - int (out_head p)) mod int STAMP_PAGE > SP_MIN_SPACE
     then wake_print_writer p else p)"

lemma maybe_wake_simps [simp]:
  "out_page (maybe_wake p) = out_page p" "out_head (maybe_wake p) = out_head p" "out_tail (maybe_wake p) = out_tail p"
  "output_active (maybe_wake p) = output_active p" "timer_pending (maybe_wake p) = timer_pending p"
  "timeout_at (maybe_wake p) = timeout_at p" "work_queued (maybe_wake p) = work_queued p" "shortp_tv (maybe_wake p) = shortp_tv p"
  "shortp_in (maybe_wake p) = shortp_in p" "pr_port (maybe_wake p) = pr_port p" "pr_accepted (maybe_wake p) = pr_accepted p"
  by (simp_all add: maybe_wake_def)

lemma maybe_wake_writer: "pr_writer (maybe_wake p) = Starting j \<longleftrightarrow> pr_writer p = Starting j"
  by (simp add: maybe_wake_def wake_print_writer_def split: print_writer.split)


lemma do_work_unfold:
  "shortp_do_work cr p =
     and_then (if out_head p = out_tail p then Done (p\<lparr>output_active := False, timer_pending := False\<rparr>)
               else shortp_do_write cr p) (\<lambda>p.
       and_then (put_stamp (stamp_text (fst (shortp_tv p)) (snd (shortp_tv p))) (shortp_in p)) (\<lambda>s.
          Done ((maybe_wake p)\<lparr>shortp_in := s, work_running := False\<rparr>)))"
  unfolding shortp_do_work_def Let_def maybe_wake_def [symmetric] by simp

lemma writer_after_work:
  assumes "print_inv p" "out_head p \<noteq> out_tail p"
    and "p1 = p\<lparr>timer_pending := True, out_tail := shortp_incr_out_bp (out_tail p) 1, pr_port := log\<rparr>"
  shows "writer_ok (maybe_wake p1) (pr_writer (maybe_wake p1))"
proof -
  have r: "out_head p < 4096" "out_tail p < 4096" "writer_ok p (pr_writer p)" using assms(1) by (simp_all add: print_inv_def out_ring_ok_def)
  have g: "shortp_out_space p \<le> shortp_out_space p1"
    using space_grows [OF r(1,2)] assms(2) space_cong [of p1 "p\<lparr>out_tail := shortp_incr_out_bp (out_tail p) 1\<rparr>"]
    by (simp add: assms(3))
  have sp: "shortp_out_space (maybe_wake q) = shortp_out_space q" for q by (rule space_cong) simp_all
  show ?thesis
  proof (cases "pr_writer p")
    case (Waiting j again)
    then have w: "0 \<le> wj_written j" "wj_written j < wj_count j" "\<not> again \<longrightarrow> (int STAMP_PAGE + int (out_tail p) - int (out_head p)) mod int STAMP_PAGE \<le> SP_MIN_SPACE"
      using r(3) by simp_all
    show ?thesis
    proof (cases "(int STAMP_PAGE + int (out_tail p1) - int (out_head p1)) mod int STAMP_PAGE > SP_MIN_SPACE")
      case True
      then show ?thesis using w Waiting by (simp add: maybe_wake_def wake_print_writer_def assms(3))
    next
      case False
      then have "\<not> again \<longrightarrow> out_tail p1 \<noteq> out_head p1"
        using half_space [of "out_head p" "out_tail p"] r(1,2) w(3) assms(2)
        by (auto simp: assms(3) STAMP_PAGE_def SP_MIN_SPACE_def)
      then show ?thesis using False w Waiting by (auto simp: maybe_wake_def assms(3))
    qed
  qed (use r(3) g sp [of p1] in \<open>auto simp: assms(3) maybe_wake_def wake_print_writer_def\<close>)
qed

lemma do_work_result:
  assumes "print_inv p"
  obtains p' where "shortp_do_work cr p = Done p'" "print_inv p'"
proof -
  have r: "out_ring_ok p" "writer_ok p (pr_writer p)" "output_ok p" "stamps_ok (shortp_in p)"
    using assms by (simp_all add: print_inv_def out_ring_ok_def)
  obtain s where s: "put_stamp (stamp_text (fst (shortp_tv p)) (snd (shortp_tv p))) (shortp_in p) = Done s" "stamps_ok s"
    by (rule put_stamp_total [OF r(4) length_stamp]) (rule that)
  show ?thesis
  proof (cases "out_head p = out_tail p")
    case True
    define p1 where "p1 = p\<lparr>output_active := False, timer_pending := False\<rparr>"
    have "maybe_wake p1 = p1" using True by (simp add: maybe_wake_def p1_def STAMP_PAGE_def SP_MIN_SPACE_def)
    then have "shortp_do_work cr p = Done (p1\<lparr>shortp_in := s, work_running := False\<rparr>)"
      using True s by (simp add: do_work_unfold p1_def)
    moreover have "print_inv (p1\<lparr>shortp_in := s, work_running := False\<rparr>)"
      using r s True by (cases "pr_writer p") (auto simp: print_inv_def printer_defs p1_def)
    ultimately show ?thesis by (rule that)
  next
    case False
    obtain c where c: "shortp_do_write cr p = Done (p\<lparr>timer_pending := True, out_tail := shortp_incr_out_bp (out_tail p) 1,
        pr_port := pr_port p @ [(SP_DATA, c), (SP_CONTROL, Some (or cr SP_CR_STROBE)), (SP_CONTROL, Some (and cr (not SP_CR_STROBE)))]\<rparr>)"
      "print_queue p = c # ring_cells (out_page p) (shortp_incr_out_bp (out_tail p) 1) (out_head p)"
      by (rule do_write_result [OF assms False]) (rule that)
    define p1 where "p1 = p\<lparr>timer_pending := True, out_tail := shortp_incr_out_bp (out_tail p) 1,
        pr_port := pr_port p @ [(SP_DATA, c), (SP_CONTROL, Some (or cr SP_CR_STROBE)), (SP_CONTROL, Some (and cr (not SP_CR_STROBE)))]\<rparr>"
    have "shortp_do_work cr p = Done ((maybe_wake p1)\<lparr>shortp_in := s, work_running := False\<rparr>)"
      using False c(1) s by (simp add: do_work_unfold p1_def)
    moreover have "print_inv ((maybe_wake p1)\<lparr>shortp_in := s, work_running := False\<rparr>)"
    proof -
      have "writer_ok (maybe_wake p1) (pr_writer (maybe_wake p1))" by (rule writer_after_work [OF assms False p1_def])
      then have "writer_ok ((maybe_wake p1)\<lparr>shortp_in := s, work_running := False\<rparr>) (pr_writer (maybe_wake p1))"
        by (cases "pr_writer (maybe_wake p1)") (auto simp: shortp_out_space_def)
      moreover have "out_ring_ok ((maybe_wake p1)\<lparr>shortp_in := s, work_running := False\<rparr>)"
        using r(1) s c(2) incr_out(2) [of "out_tail p" 1]
        by (auto simp: p1_def out_ring_ok_def printed_def print_queue_def SP_DATA_def SP_CONTROL_def)
      moreover have "output_ok ((maybe_wake p1)\<lparr>shortp_in := s, work_running := False\<rparr>)"
        using r(3) False by (auto simp: p1_def output_ok_def maybe_wake_writer)
      ultimately show ?thesis by (simp add: print_inv_def)
    qed
    ultimately show ?thesis by (rule that)
  qed
qed

lemma print_inv_new: "length page = 4096 \<Longrightarrow> length in_page = 4097 \<Longrightarrow> print_inv (shortp_new page in_page)"
  by (simp add: print_inv_def printer_defs shortp_new_def new_stamps_def stamps_ok_def ring_cells_def)

lemma write_call_inv:
  assumes "print_inv p" "write_lock sig ubuf cnt p = Done p'" "0 \<le> cnt"
  shows "print_inv p'"
  using assms print_inv_parts [OF assms(1)]
  by (intro print_inv_frame [OF assms(1), of p']) (auto simp: write_lock_def output_ok_def split: if_splits)

lemma write_step_inv:
  assumes "print_inv p" "shortp_write_step sig p = Done p'"
  shows "print_inv p'"
proof (cases "pr_writer p")
  case (Copying j space)
  then obtain q where "write_copy j space p = Done q" "print_inv q" by (rule write_copy_result [OF assms(1)]) (rule that)
  then show ?thesis using assms(2) Copying by (simp add: shortp_write_step_def)
next
  case (Writing j)
  then show ?thesis using write_loop_inv [OF assms(1) Writing] assms(2) by (simp add: shortp_write_step_def)
next
  case (Waiting j again)
  then show ?thesis using write_wait_inv [OF assms(1) Waiting] assms(2) by (simp add: shortp_write_step_def)
next
  case (Starting j)
  then show ?thesis using write_start_inv [OF assms(1) Starting] assms(2) by (simp add: shortp_write_step_def)
qed (use assms(2) in \<open>simp add: shortp_write_step_def\<close>)

lemma read_stamps_ok:
  assumes "stamps_ok s" "read_stamps sig room cnt s = Done (r, bytes, s')"
  shows "stamps_ok s'"
proof -
  define n where "n = (let count0 = int (st_head s) - int (st_tail s);
      count0 = (if count0 < 0 then int STAMP_PAGE - int (st_tail s) else count0) in if count0 < int cnt then nat count0 else cnt)"
  have "s' = s \<or> s' = s\<lparr>st_tail := incr_bp (st_tail s) n\<rparr>"
    using assms(2) by (cases "load_cells (st_page s) (int (st_tail s)) (int n)")
      (auto simp: read_stamps_def n_def Let_def split: if_splits prod.splits)
  then show ?thesis using assms(1) by (auto simp: stamps_ok_def incr_bp_def STAMP_PAGE_def Let_def)
qed

lemma read_call_inv:
  assumes "print_inv p" "print_step (Read_call sig room cnt) p = Done p'"
  shows "print_inv p'"
proof -
  obtain r bytes s where r: "read_stamps sig room cnt (shortp_in p) = Done (r, bytes, s)" "p' = p\<lparr>shortp_in := s\<rparr>"
    using assms(2) by (cases "read_stamps sig room cnt (shortp_in p)") (auto simp: shortp_read_def)
  note i = print_inv_parts [OF assms(1)]
  show ?thesis using i read_stamps_ok [OF i(4) r(1)] r(2)
    by (intro print_inv_frame [OF assms(1), of p']) (auto simp: output_ok_def)
qed

lemma timeout_step_inv:
  assumes "print_inv p" "shortp_timeout_step st tv p = Done p'"
  shows "print_inv p'"
proof -
  note i = print_inv_parts [OF assms(1)]
  have "\<exists>b t v w. p' = p\<lparr>timer_pending := b, timeout_at := t, shortp_tv := v, work_queued := w\<rparr> \<and>
      (output_active p \<longrightarrow> b \<or> t \<noteq> T_none \<or> w)"
    using assms(2) by (intro exI [of _ "timer_pending p'"] exI [of _ "timeout_at p'"] exI [of _ "shortp_tv p'"] exI [of _ "work_queued p'"])
      (cases "timeout_at p"; auto simp: shortp_timeout_step_def timeout_locked_def print_add_timer_def interrupt_check_def
      interrupt_queue_def split: if_splits)
  then show ?thesis using i by (auto intro!: print_inv_frame [OF assms(1)] simp: output_ok_def)
qed

lemma print_step_inv:
  assumes "print_inv p" "print_step ev p = Done p'"
  shows "print_inv p'"
proof (cases ev)
  case (Work_body cr)
  obtain q where "shortp_do_work cr p = Done q" "print_inv q" by (rule do_work_result [OF assms(1)]) (rule that)
  then show ?thesis using assms(2) Work_body by (simp split: if_splits)
next
  case (Read_call sig room cnt)
  then show ?thesis using read_call_inv [OF assms(1)] assms(2) by simp
next
  case (Irq tv)
  then show ?thesis using assms print_inv_parts [OF assms(1)]
    by (intro print_inv_frame [OF assms(1), of p']) (auto simp: output_ok_def split: if_splits)
next
  case Irq_queue
  then show ?thesis using assms print_inv_parts [OF assms(1)]
    by (intro print_inv_frame [OF assms(1), of p']) (auto simp: output_ok_def interrupt_queue_def split: option.splits)
next
  case Work_start
  then show ?thesis using assms print_inv_parts [OF assms(1)]
    by (intro print_inv_frame [OF assms(1), of p']) (auto simp: output_ok_def split: if_splits)
next
  case Timer_fires
  then show ?thesis using assms print_inv_parts [OF assms(1)]
    by (intro print_inv_frame [OF assms(1), of p']) (auto simp: output_ok_def split: if_splits)
next
  case (Write_call sig ubuf cnt)
  then show ?thesis using assms write_call_inv [OF assms(1)] by (auto split: if_splits)
next
  case (Write_step sig)
  then show ?thesis using assms write_step_inv [OF assms(1)] by simp
next
  case (Timeout_step st tv)
  then show ?thesis using assms timeout_step_inv [OF assms(1)] by simp
qed

lemma print_reach_inv: "print_reach p \<Longrightarrow> print_inv p"
  by (induction rule: print_reach.induct) (auto intro: print_inv_new print_step_inv)

section \<open>Properties\<close>

text \<open>C8: In every interleaving of writes, the work function, interrupts, the timer and reads, what the printer
  got followed by what waits in the page is what the writes put there: no byte is lost, doubled or out
  of order, although the writer looks for space without the lock.\<close>

theorem print_fifo:
  assumes "print_reach p"
  shows "printed p @ print_queue p = pr_accepted p"
  using print_reach_inv [OF assms] by (simp add: print_inv_def out_ring_ok_def)

text \<open>The output of shortprint does not stall. Whenever bytes wait in the page, output is active or a write is about to
  start it; while it is active, the timer is set or its handler runs or the work is queued or running; a writer that
  sleeps without having been woken up finds at least half of the page waiting.\<close>

theorem print_progress:
  assumes "print_reach p"
  shows "(print_queue p \<noteq> [] \<longrightarrow> output_active p \<or> (\<exists>j. pr_writer p = Starting j)) \<and>
    (output_active p \<longrightarrow> timer_pending p \<or> timeout_at p \<noteq> T_none \<or> work_queued p \<or> work_running p) \<and>
    (\<forall>j. pr_writer p = Waiting j False \<longrightarrow> output_active p \<and> 2048 \<le> length (print_queue p))"
proof -
  have i: "out_ring_ok p" "writer_ok p (pr_writer p)" "output_ok p" using print_reach_inv [OF assms] by (simp_all add: print_inv_def)
  have r: "length (out_page p) = 4096" "out_head p < 4096" "out_tail p < 4096" using i(1) by (simp_all add: out_ring_ok_def)
  have l: "length (print_queue p) = (if out_tail p \<le> out_head p then out_head p - out_tail p else 4096 - out_tail p + out_head p)"
    using r by (simp add: print_queue_def length_ring)
  have e: "print_queue p \<noteq> [] \<longrightarrow> out_head p \<noteq> out_tail p" using r by (auto simp: print_queue_def ring_cells_def)
  have w: "pr_writer p = Waiting j False \<Longrightarrow> output_active p \<and> 2048 \<le> length (print_queue p)" for j
  proof -
    assume wait: "pr_writer p = Waiting j False"
    then have h: "out_head p \<noteq> out_tail p" "(4096 + int (out_tail p) - int (out_head p)) mod 4096 \<le> 2048"
      using i(2) by (simp_all add: STAMP_PAGE_def SP_MIN_SPACE_def)
    have "(4096 + int (out_tail p) - int (out_head p)) mod 4096 =
        (if out_head p \<le> out_tail p then int (out_tail p) - int (out_head p) else 4096 + int (out_tail p) - int (out_head p))"
    proof (cases "out_head p \<le> out_tail p")
      case True
      then have "(4096 + (int (out_tail p) - int (out_head p))) mod 4096 = int (out_tail p) - int (out_head p)"
        using r by (simp only: mod_add_self1) (rule mod_pos_pos_trivial, simp_all)
      then show ?thesis using True by (simp add: algebra_simps)
    next
      case False
      then show ?thesis using r by (simp add: mod_pos_pos_trivial)
    qed
    then have "2048 \<le> length (print_queue p)" using h r l by (auto split: if_splits)
    then show ?thesis using wait h(1) i(3) by (simp add: output_ok_def)
  qed
  then show ?thesis using i(3) e by (auto simp: output_ok_def)
qed

text \<open>When a release of shortprint returns without a signal and no write is under way, the printer has got all the
  bytes that were accepted.\<close>

theorem print_release_flushed:
  assumes "print_reach p" "shortp_release False p = Done r" "pr_writer p = No_writer"
  shows "printed p = pr_accepted p"
proof -
  have i: "out_ring_ok p" "output_ok p" using print_reach_inv [OF assms(1)] by (simp_all add: print_inv_def)
  have "out_head p = out_tail p" using i(2) assms(2,3) by (auto simp: output_ok_def shortp_release_def split: if_splits)
  then show ?thesis using i(1) by (simp add: out_ring_ok_def print_queue_def ring_cells_def)
qed

lemma read_stamps_safe: "stamps_ok s \<Longrightarrow> read_stamps sig room cnt s \<noteq> Crash c"
  by (auto simp: read_stamps_def stamps_ok_def load_cells_def STAMP_PAGE_def Let_def split: if_splits prod.splits)

text \<open>No step of shortprint accesses memory out of bounds. The one way it takes the kernel down is \<open>add_timer\<close> with
  the timer pending: from the timer's handler, which has let go of the timer before it gets the lock, or
  from a write that starts the output.\<close>

theorem print_crash_cause:
  assumes "print_reach p" "print_step ev p = Crash c"
  shows "c = Kernel_bug \<and> timer_pending p \<and> (timeout_at p = T_lock \<or> \<not> output_active p \<and> (\<exists>j. pr_writer p = Starting j))"
proof -
  have inv: "print_inv p" by (rule print_reach_inv [OF assms(1)])
  show ?thesis
  proof (cases ev)
    case (Write_step sig)
    then show ?thesis
    proof (cases "pr_writer p")
      case (Copying j space)
      then obtain q where "write_copy j space p = Done q" by (rule write_copy_result [OF inv]) (rule that)
      then show ?thesis using assms(2) Write_step Copying by (simp add: shortp_write_step_def)
    next
      case (Starting j)
      then show ?thesis using assms(2) Write_step
        by (auto simp: shortp_write_step_def write_start_def shortp_start_output_def print_add_timer_def split: if_splits)
    qed (use assms(2) Write_step in \<open>auto simp: shortp_write_step_def write_loop_def write_wait_def Let_def split: if_splits\<close>)
  next
    case (Read_call sig room cnt)
    have "read_stamps sig room cnt (shortp_in p) \<noteq> Crash c" by (rule read_stamps_safe [OF print_inv_parts(4) [OF inv]])
    then show ?thesis using assms(2) Read_call
      by (cases "read_stamps sig room cnt (shortp_in p)") (auto simp: shortp_read_def)
  next
    case (Work_body cr)
    obtain q where "shortp_do_work cr p = Done q" by (rule do_work_result [OF inv]) (rule that)
    then show ?thesis using assms(2) Work_body by (simp split: if_splits)
  next
    case (Timeout_step st tv)
    then show ?thesis using assms(2)
      by (cases "timeout_at p") (auto simp: shortp_timeout_step_def timeout_locked_def print_add_timer_def split: if_splits)
  qed (use assms(2) in \<open>auto simp: write_lock_def split: if_splits option.splits\<close>)
qed

fun print_run :: "print_event list \<Rightarrow> printer \<Rightarrow> printer outcome" where
  "print_run [] p = Done p"
| "print_run (ev # evs) p = and_then (print_step ev p) (print_run evs)"

lemma print_run_reach: "print_reach p \<Longrightarrow> print_run evs p = Done p' \<Longrightarrow> print_reach p'"
  by (induction evs arbitrary: p) (auto simp: and_then_Done_iff intro: reach_step)

definition some_printer :: printer where
  "some_printer = shortp_new (replicate 4096 None) (replicate 4097 None)"

lemma some_printer_reach: "print_reach some_printer"
  unfolding some_printer_def by (rule reach_new) simp_all

text \<open>A write of one byte; the timer fires, and its handler is about to take the lock when the work
  function prints the byte and sets the timer again.\<close>

definition timer_race :: "print_event list" where
  "timer_race = [Write_call False [7] 1, Write_step False, Write_step False, Write_step False, Timer_fires,
     Timeout_step 0 (0, 0), Work_start, Work_body 0]"

lemma timer_race_run: "\<exists>p. print_run timer_race some_printer = Done p \<and> timer_pending p \<and> timeout_at p = T_lock"
proof -
  have "stamps_ok (new_stamps (replicate 4097 None))" by (simp add: new_stamps_def stamps_ok_def)
  then obtain s where "put_stamp (stamp_text 0 0) (new_stamps (replicate 4097 None)) = Done s"
    by (rule put_stamp_total [OF _ length_stamp]) (rule that)
  then show ?thesis
    by (simp add: timer_race_def some_printer_def shortp_new_def write_lock_def shortp_write_step_def write_loop_def
      shortp_out_space_def write_copy_def copy_from_user_def store_cells_def write_start_def shortp_start_output_def
      print_add_timer_def shortp_timeout_step_def shortp_do_write_def load_cells_def do_work_unfold STAMP_PAGE_def Let_def
      shortp_incr_out_bp_def)
qed

text \<open>The handler of shortprint's timer can take the kernel down: while it waits for the lock the work function sets the
  timer again, and if the printer is still busy then the handler adds a timer that is pending.\<close>

theorem print_timer_race:
  "\<exists>p. print_reach p \<and> (\<forall>st tv. and st SP_SR_BUSY = 0 \<longrightarrow> print_step (Timeout_step st tv) p = Crash Kernel_bug)"
proof -
  obtain p where p: "print_run timer_race some_printer = Done p" "timer_pending p" "timeout_at p = T_lock"
    using timer_race_run by blast
  then show ?thesis using print_run_reach [OF some_printer_reach p(1)]
    by (auto simp: shortp_timeout_step_def timeout_locked_def print_add_timer_def)
qed

theorem print_timer_race_witness:
  "and 0 SP_SR_BUSY = 0 \<and> (\<exists>p. print_reach p \<and> print_step (Timeout_step 0 (0, 0)) p = Crash Kernel_bug)"
  using print_timer_race by auto

theorem print_crash_cause_witness:
  "\<exists>p. print_reach p \<and> print_step (Timeout_step 0 (0, 0)) p = Crash Kernel_bug \<and> Kernel_bug = Kernel_bug \<and> timer_pending p \<and>
    (timeout_at p = T_lock \<or> \<not> output_active p \<and> (\<exists>j. pr_writer p = Starting j))"
proof -
  obtain p where p: "print_run timer_race some_printer = Done p" "timer_pending p" "timeout_at p = T_lock"
    using timer_race_run by blast
  then have r: "print_reach p" and c: "print_step (Timeout_step 0 (0, 0)) p = Crash Kernel_bug"
    using print_run_reach [OF some_printer_reach p(1)]
    by (auto simp: shortp_timeout_step_def timeout_locked_def print_add_timer_def)
  show ?thesis using r c print_crash_cause [OF r c] by blast
qed

theorem print_fifo_witness:
  "\<exists>p. print_run timer_race some_printer = Done p \<and> print_reach p \<and> printed p @ print_queue p = pr_accepted p"
proof -
  obtain p where p: "print_run timer_race some_printer = Done p" using timer_race_run by blast
  have "print_reach p" by (rule print_run_reach [OF some_printer_reach p])
  with p print_fifo [OF this] show ?thesis by blast
qed

lemma started_run:
  "\<exists>p. print_run (take 4 timer_race) some_printer = Done p \<and> output_active p \<and> print_queue p = [Some 7]"
  by (simp add: timer_race_def some_printer_def shortp_new_def write_lock_def shortp_write_step_def write_loop_def
    shortp_out_space_def write_copy_def copy_from_user_def store_cells_def write_start_def shortp_start_output_def
    print_add_timer_def STAMP_PAGE_def Let_def shortp_incr_out_bp_def print_queue_def ring_cells_def)

theorem print_progress_witness:
  "\<exists>p. print_reach p \<and> print_queue p = [Some 7] \<and> (output_active p \<or> (\<exists>j. pr_writer p = Starting j)) \<and>
    (timer_pending p \<or> timeout_at p \<noteq> T_none \<or> work_queued p \<or> work_running p)"
proof -
  obtain p where p: "print_run (take 4 timer_race) some_printer = Done p" "output_active p" "print_queue p = [Some 7]"
    using started_run by blast
  have r: "print_reach p" by (rule print_run_reach [OF some_printer_reach p(1)])
  show ?thesis using r p(2,3) print_progress [OF r] by blast
qed

theorem print_release_flushed_witness:
  "shortp_release False some_printer = Done 0 \<and> printed some_printer = pr_accepted some_printer"
proof -
  have r: "shortp_release False some_printer = Done 0" "pr_writer some_printer = No_writer"
    by (simp_all add: shortp_release_def some_printer_def shortp_new_def)
  then show ?thesis using print_release_flushed [OF some_printer_reach r] by simp
qed

text \<open>When the init of shortprint fails, at whatever request, the kernel is as before; when it succeeds, the
  cleanup gives everything back.\<close>

theorem shortp_init_restores:
  assumes "\<And>i. pe_irq env i = None \<Longrightarrow> 0 \<le> i"
  shows "case shortp_init env md k of
      (Inl e, md', k') \<Rightarrow> k' = k
    | (Inr r, md', k') \<Rightarrow> r = 0 \<and> shortp_cleanup md' k' = k"
  by (cases k) (auto simp: shortp_init_def shortp_cleanup_def get_page_def free_page_def Let_def assms split: sum.split option.split)

definition some_print_env :: print_env where
  "some_print_env = \<lparr>pe_region = \<lambda>_. True, pe_chrdev = \<lambda>_. Inr 254, pe_pages = (4096, 8192),
     pe_irq = \<lambda>i. if i = 7 then None else Some EBUSY\<rparr>"

definition some_print_module :: print_module where
  "some_print_module = \<lparr>pm_base = 0x378, pm_irq = - 1, pm_major = 0, shortp_irq = - 1, shortp_in_buffer = 0, shortp_out_buffer = 0\<rparr>"

definition no_print_claims :: print_kernel where
  "no_print_claims = \<lparr>pk_ports = [], pk_chrdevs = [], pk_pages = [], pk_workqueues = 0, pk_irqs = []\<rparr>"

theorem shortp_init_restores_witness:
  "fst (shortp_init some_print_env some_print_module no_print_claims) = Inr 0 \<and>
   (case shortp_init some_print_env some_print_module no_print_claims of
      (Inl e, md', k') \<Rightarrow> k' = no_print_claims
    | (Inr r, md', k') \<Rightarrow> r = 0 \<and> shortp_cleanup md' k' = no_print_claims)"
proof
  show "fst (shortp_init some_print_env some_print_module no_print_claims) = Inr 0"
    by (simp add: shortp_init_def some_print_env_def some_print_module_def shortp_default_irq_def Let_def)
  show "case shortp_init some_print_env some_print_module no_print_claims of
      (Inl e, md', k') \<Rightarrow> k' = no_print_claims
    | (Inr r, md', k') \<Rightarrow> r = 0 \<and> shortp_cleanup md' k' = no_print_claims"
    by (rule shortp_init_restores) (auto simp: some_print_env_def split: if_splits)
qed

end
