(* ===== verification/Order_Messages.thy ===== *)
theory Order_Messages
  imports Kernel_Prelude
begin

text \<open>
  The order log of ProcessOrder: a file of packed messages is mapped into memory (FileOps), walked through from
  header to header, and the messages are linked by client id to find the most active trader, the one with
  the most liquidity, and the traded quantity of each instrument.
\<close>

section \<open>The mapped file\<close>

text \<open>The mapping ends with the page; behind the end of the file it is zero, behind the page there is nothing.
  A file is its bytes, an address an offset.\<close>

definition mapping :: "byte list \<Rightarrow> byte list" where
  "mapping m = m @ replicate ((4096 - length m mod 4096) mod 4096) 0"

definition fetch :: "byte list \<Rightarrow> nat \<Rightarrow> nat \<Rightarrow> byte list outcome" where
  "fetch m off n =
     (if off + n \<le> length (mapping m) then Done (take n (drop off (mapping m))) else Crash Out_of_bounds)"

fun le_nat :: "byte list \<Rightarrow> nat" where
  "le_nat [] = 0"
| "le_nat (b # bs) = unat b + 256 * le_nat bs"

definition fetch_nat :: "byte list \<Rightarrow> nat \<Rightarrow> nat \<Rightarrow> nat outcome" where
  "fetch_nat m off n = and_then (fetch m off n) (\<lambda>bs. Done (le_nat bs))"

section \<open>Messages\<close>

text \<open>The offsets of the packed structures.\<close>

definition OrderEntryType :: nat where "OrderEntryType = 1"
definition OrderAckType :: nat where "OrderAckType = 2"
definition OrderFillType :: nat where "OrderFillType = 3"
definition GOOD :: nat where "GOOD = 1"
definition GFD :: nat where "GFD = 2"

definition Header_msg_type :: "byte list \<Rightarrow> nat \<Rightarrow> nat outcome" where
  "Header_msg_type m p = fetch_nat m (p + 2) 1"

text \<open>\<open>CalcAddr\<close>: the next header.\<close>

definition CalcAddr :: "byte list \<Rightarrow> nat \<Rightarrow> nat outcome" where
  "CalcAddr m p = and_then (fetch_nat m (p + 20) 2) (\<lambda>MsgLen. Done (p + 22 + MsgLen))"

text \<open>The object of an order entry has copies of three fields, the last one as long as the message says;
  the array for it has 257 bytes. The other fields are read where they are needed.\<close>

record entry_msg =
  pEntryMsg :: nat
  TraderTag :: "byte list"
  Instrument :: "byte list"
  Firm :: "byte list"

definition OrderEntryMsgClass :: "byte list \<Rightarrow> nat \<Rightarrow> entry_msg outcome" where
  "OrderEntryMsgClass m p =
     and_then (CalcAddr m p) (\<lambda>MsgEnd.
     and_then (fetch m (p + 54) 3) (\<lambda>tag.
     and_then (fetch m (p + 34) 10) (\<lambda>ins.
       let n = u64 (int MsgEnd - 8 - int (p + 58)) in
       if n > 257 then Crash Out_of_bounds
       else and_then (fetch m (p + 58) (nat n)) (\<lambda>firm.
         Done \<lparr>pEntryMsg = p, TraderTag = tag, Instrument = ins, Firm = firm\<rparr>))))"

definition GetQty :: "byte list \<Rightarrow> entry_msg \<Rightarrow> nat outcome" where
  "GetQty m e = fetch_nat m (pEntryMsg e + 30) 4"

definition isGFD :: "byte list \<Rightarrow> entry_msg \<Rightarrow> bool outcome" where
  "isGFD m e = and_then (fetch_nat m (pEntryMsg e + 53) 1) (\<lambda>tif. Done (tif = GFD))"

definition GetClientID :: "byte list \<Rightarrow> entry_msg \<Rightarrow> nat outcome" where
  "GetClientID m e = fetch_nat m (pEntryMsg e + 45) 8"

text \<open>An acknowledgement is where it is.\<close>

definition ack_GetClientID :: "byte list \<Rightarrow> nat \<Rightarrow> nat outcome" where
  "ack_GetClientID m p = fetch_nat m (p + 26) 8"

definition Accept :: "byte list \<Rightarrow> nat \<Rightarrow> bool outcome" where
  "Accept m p = and_then (fetch_nat m (p + 34) 1) (\<lambda>st. Done (st = GOOD))"

text \<open>A fill has a copy of its groups: firm, tag and quantity of each contra.\<close>

record fill_msg =
  pFillMsg :: nat
  ContrasRptGrp :: "(nat \<times> byte list \<times> nat) list"

fun fill_groups :: "byte list \<Rightarrow> nat \<Rightarrow> nat \<Rightarrow> (nat \<times> byte list \<times> nat) list outcome" where
  "fill_groups m p 0 = Done []"
| "fill_groups m p (Suc n) =
     and_then (fetch_nat m p 1) (\<lambda>firm. and_then (fetch m (p + 1) 3) (\<lambda>tag. and_then (fetch_nat m (p + 4) 4) (\<lambda>qty.
     and_then (fill_groups m (p + 8) n) (\<lambda>gs. Done ((firm, tag, qty) # gs)))))"

definition OrderFillMsgClass :: "byte list \<Rightarrow> nat \<Rightarrow> fill_msg outcome" where
  "OrderFillMsgClass m p =
     and_then (fetch_nat m (p + 38) 1) (\<lambda>no_of_contras.
     and_then (fill_groups m (p + 39) no_of_contras) (\<lambda>gs. Done \<lparr>pFillMsg = p, ContrasRptGrp = gs\<rparr>))"

definition GetOrderID :: "byte list \<Rightarrow> fill_msg \<Rightarrow> nat outcome" where
  "GetOrderID m f = fetch_nat m (pFillMsg f + 22) 4"

definition GetFillQty :: "byte list \<Rightarrow> fill_msg \<Rightarrow> nat outcome" where
  "GetFillQty m f = fetch_nat m (pFillMsg f + 34) 4"

section \<open>Loading\<close>

record loaded =
  vEntryMsg :: "entry_msg list"
  vAckMsg :: "nat list"
  vFillMsg :: "fill_msg list"
  TotalCnt :: nat

definition nothing_loaded :: loaded where
  "nothing_loaded = \<lparr>vEntryMsg = [], vAckMsg = [], vFillMsg = [], TotalCnt = 0\<rparr>"

definition load_message :: "byte list \<Rightarrow> nat \<Rightarrow> loaded \<Rightarrow> loaded option outcome" where
  "load_message m p l =
     and_then (Header_msg_type m p) (\<lambda>t.
       if t = OrderEntryType
       then and_then (OrderEntryMsgClass m p) (\<lambda>e. Done (Some (l\<lparr>vEntryMsg := vEntryMsg l @ [e]\<rparr>)))
       else if t = OrderAckType then Done (Some (l\<lparr>vAckMsg := vAckMsg l @ [p]\<rparr>))
       else if t = OrderFillType
       then and_then (OrderFillMsgClass m p) (\<lambda>f. Done (Some (l\<lparr>vFillMsg := vFillMsg l @ [f]\<rparr>)))
       else Done None)"

text \<open>The loop; the flag tells whether it came to the end or met a type it does not know. A step goes over at least the
  22 bytes of the header.\<close>

function LoadFile_from :: "byte list \<Rightarrow> nat \<Rightarrow> loaded \<Rightarrow> (bool \<times> loaded) outcome" where
  "LoadFile_from m p l =
     (if p < length m
      then and_then (load_message m p l) (\<lambda>r.
        case r of
          None \<Rightarrow> Done (False, l)
        | Some l \<Rightarrow> and_then (CalcAddr m p) (\<lambda>q. LoadFile_from m q (l\<lparr>TotalCnt := (TotalCnt l + 1) mod 2 ^ 32\<rparr>)))
      else Done (True, l))"
  by pat_completeness auto
termination by (relation "measure (\<lambda>(m, p, l). length m - p)") (auto simp: CalcAddr_def and_then_Done_iff)

declare LoadFile_from.simps [simp del]

definition LoadFile :: "byte list \<Rightarrow> (bool \<times> loaded) outcome" where
  "LoadFile m = LoadFile_from m 0 nothing_loaded"

section \<open>Linking\<close>

text \<open>Tags are compared by \<open>strncmp\<close> on three characters, which stops at a zero.\<close>

definition c_string :: "byte list \<Rightarrow> byte list" where
  "c_string bs = takeWhile (\<lambda>b. b \<noteq> 0) bs"

definition same_tag :: "byte list \<Rightarrow> byte list \<Rightarrow> bool" where
  "same_tag a b \<longleftrightarrow> c_string (take 3 a) = c_string (take 3 b)"

text \<open>\<open>ActiveTrader\<close> and \<open>Liquidity\<close> are a tag and a quantity of 32 bits. A quantity is added to the first
  entry with the tag.\<close>

type_synonym trader_qty = "byte list \<times> nat"

fun add_qty :: "trader_qty \<Rightarrow> trader_qty list \<Rightarrow> trader_qty list" where
  "add_qty (tag, q) [] = [(tag, q)]"
| "add_qty (tag, q) ((t, x) # ts) =
     (if same_tag t tag then (t, (x + q) mod 2 ^ 32) # ts else (t, x) # add_qty (tag, q) ts)"

fun find_ack :: "byte list \<Rightarrow> nat \<Rightarrow> nat list \<Rightarrow> nat option outcome" where
  "find_ack m client [] = Done None"
| "find_ack m client (a # as) =
     and_then (ack_GetClientID m a) (\<lambda>c. if c = client then Done (Some a) else find_ack m client as)"

record linked =
  ClientID2OrderEntry :: "nat \<rightharpoonup> entry_msg"
  ActiveVector :: "trader_qty list"
  LiquidityVector :: "trader_qty list"

definition link_entry :: "byte list \<Rightarrow> nat list \<Rightarrow> entry_msg \<Rightarrow> linked \<Rightarrow> linked outcome" where
  "link_entry m acks e k =
     and_then (GetClientID m e) (\<lambda>client.
     and_then (find_ack m client acks) (\<lambda>a.
     and_then (case a of None \<Rightarrow> Done False | Some a \<Rightarrow> Accept m a) (\<lambda>accepted.
     and_then (if accepted then and_then (GetQty m e) (\<lambda>q. Done (k\<lparr>ActiveVector := add_qty (TraderTag e, q) (ActiveVector k)\<rparr>))
               else Done k) (\<lambda>k.
     and_then (isGFD m e) (\<lambda>gfd.
     and_then (if gfd then and_then (GetQty m e) (\<lambda>q. Done (k\<lparr>LiquidityVector := add_qty (TraderTag e, q) (LiquidityVector k)\<rparr>))
               else Done k) (\<lambda>k.
       Done (k\<lparr>ClientID2OrderEntry := (ClientID2OrderEntry k)(client \<mapsto> e)\<rparr>)))))))"

fun link_entries :: "byte list \<Rightarrow> nat list \<Rightarrow> entry_msg list \<Rightarrow> linked \<Rightarrow> linked outcome" where
  "link_entries m acks [] k = Done k"
| "link_entries m acks (e # es) k = and_then (link_entry m acks e k) (link_entries m acks es)"

definition nothing_linked :: linked where
  "nothing_linked = \<lparr>ClientID2OrderEntry = Map.empty, ActiveVector = [], LiquidityVector = []\<rparr>"

definition by_quantity :: "trader_qty list \<Rightarrow> trader_qty list" where
  "by_quantity ts = sort_key (\<lambda>t. - int (snd t)) ts"

definition LinkFile :: "byte list \<Rightarrow> loaded \<Rightarrow> linked outcome" where
  "LinkFile m l =
     and_then (link_entries m (vAckMsg l) (vEntryMsg l) nothing_linked) (\<lambda>k.
       Done (k\<lparr>ActiveVector := by_quantity (ActiveVector k), LiquidityVector := by_quantity (LiquidityVector k)\<rparr>))"

section \<open>Trades\<close>

definition OrderID2ClientID :: "nat \<Rightarrow> nat" where
  "OrderID2ClientID order_id = order_id"

text \<open>The lookup of an id that is not there gives a null pointer, whose instrument is then read.\<close>

definition parse_fill :: "byte list \<Rightarrow> linked \<Rightarrow> fill_msg \<Rightarrow> (byte list \<rightharpoonup> nat) \<Rightarrow> (byte list \<rightharpoonup> nat) outcome" where
  "parse_fill m k f trades =
     and_then (GetOrderID m f) (\<lambda>order_id.
       case ClientID2OrderEntry k (OrderID2ClientID order_id) of
         None \<Rightarrow> Crash Null_deref
       | Some e \<Rightarrow>
           and_then (GetFillQty m f) (\<lambda>qty.
             let ins = c_string (Instrument e) in
             Done (trades(ins \<mapsto> case trades ins of Some old \<Rightarrow> (old + qty) mod 2 ^ 64 | None \<Rightarrow> qty))))"

fun parse_fills :: "byte list \<Rightarrow> linked \<Rightarrow> fill_msg list \<Rightarrow> (byte list \<rightharpoonup> nat) \<Rightarrow> (byte list \<rightharpoonup> nat) outcome" where
  "parse_fills m k [] trades = Done trades"
| "parse_fills m k (f # fs) trades = and_then (parse_fill m k f trades) (parse_fills m k fs)"

definition ParseFile :: "byte list \<Rightarrow> loaded \<Rightarrow> linked \<Rightarrow> (byte list \<rightharpoonup> nat) outcome" where
  "ParseFile m l k = parse_fills m k (vFillMsg l) Map.empty"

text \<open>What is printed. The front of an empty vector is read through a null pointer.\<close>

record order_report =
  rp_counts :: "nat \<times> nat \<times> nat \<times> nat"
  rp_active :: "byte list"
  rp_liquid :: "byte list"
  rp_trades :: "byte list \<rightharpoonup> nat"

definition ShowResult :: "loaded \<Rightarrow> linked \<Rightarrow> (byte list \<rightharpoonup> nat) \<Rightarrow> order_report outcome" where
  "ShowResult l k trades =
     (case (ActiveVector k, LiquidityVector k) of
        ((a, _) # _, (b, _) # _) \<Rightarrow>
          Done \<lparr>rp_counts = (TotalCnt l, length (vEntryMsg l), length (vAckMsg l), length (vFillMsg l)),
            rp_active = c_string a, rp_liquid = c_string b, rp_trades = trades\<rparr>
      | _ \<Rightarrow> Crash Null_deref)"

text \<open>\<open>main\<close> does not look at the results.\<close>

definition main_orders :: "byte list \<Rightarrow> order_report outcome" where
  "main_orders m =
     and_then (LoadFile m) (\<lambda>(_, l).
     and_then (LinkFile m l) (\<lambda>k.
     and_then (ParseFile m l k) (ShowResult l k)))"

section \<open>Encoding\<close>

text \<open>The messages as their senders see them, and their bytes.\<close>

fun le :: "nat \<Rightarrow> nat \<Rightarrow> byte list" where
  "le 0 v = []"
| "le (Suc n) v = word_of_nat v # le n (v div 256)"

record header =
  hd_sequence :: nat
  hd_timestamp :: nat
  hd_direction :: nat

datatype message =
    Entry header nat nat "byte list" nat nat nat "byte list" nat "byte list"
  | Ack header nat nat nat nat
  | Fill header nat nat nat "(nat \<times> byte list \<times> nat) list"

definition encode_header :: "header \<Rightarrow> nat \<Rightarrow> nat \<Rightarrow> byte list" where
  "encode_header h t len =
     le 2 0x5453 @ le 1 t @ le 8 (hd_sequence h) @ le 8 (hd_timestamp h) @ le 1 (hd_direction h) @ le 2 len"

definition termination_string :: "byte list" where
  "termination_string = [0x44, 0x42, 0x44, 0x42, 0x44, 0x42, 0x44, 0x42]"

definition encode_group :: "nat \<times> byte list \<times> nat \<Rightarrow> byte list" where
  "encode_group g = (case g of (firm, tag, qty) \<Rightarrow> le 1 firm @ tag @ le 4 qty)"

fun encode_body :: "message \<Rightarrow> byte list" where
  "encode_body (Entry h price qty ins side client tif tag firm_id firm) =
     le 8 price @ le 4 qty @ ins @ le 1 side @ le 8 client @ le 1 tif @ tag @ le 1 firm_id @ firm @ termination_string"
| "encode_body (Ack h order_id client st code) = le 4 order_id @ le 8 client @ le 1 st @ le 1 code @ termination_string"
| "encode_body (Fill h order_id price qty groups) =
     le 4 order_id @ le 8 price @ le 4 qty @ le 1 (length groups) @ concat (map encode_group groups) @ termination_string"

fun message_header :: "message \<Rightarrow> header" where
  "message_header (Entry h _ _ _ _ _ _ _ _ _) = h"
| "message_header (Ack h _ _ _ _) = h"
| "message_header (Fill h _ _ _ _) = h"

fun message_type :: "message \<Rightarrow> nat" where
  "message_type (Entry _ _ _ _ _ _ _ _ _ _) = OrderEntryType"
| "message_type (Ack _ _ _ _ _) = OrderAckType"
| "message_type (Fill _ _ _ _ _) = OrderFillType"

definition encode :: "message \<Rightarrow> byte list" where
  "encode msg = encode_header (message_header msg) (message_type msg) (length (encode_body msg)) @ encode_body msg"

fun message_ok :: "message \<Rightarrow> bool" where
  "message_ok (Entry h price qty ins side client tif tag firm_id firm) =
     (qty < 2 ^ 32 \<and> client < 2 ^ 64 \<and> tif < 256 \<and> length ins = 10 \<and> length tag = 3 \<and> length firm \<le> 256)"
| "message_ok (Ack h order_id client st code) = (client < 2 ^ 64 \<and> st < 256)"
| "message_ok (Fill h order_id price qty groups) =
     (order_id < 2 ^ 32 \<and> qty < 2 ^ 32 \<and> length groups < 256 \<and>
      (\<forall>(firm, tag, q) \<in> set groups. firm < 256 \<and> length tag = 3 \<and> q < 2 ^ 32))"

lemma encode_group_simp: "encode_group (firm, tag, qty) = le 1 firm @ tag @ le 4 qty"
  by (simp add: encode_group_def)

subsection \<open>Fields\<close>

lemma length_le [simp]: "length (le n v) = n"
  by (induction n arbitrary: v) auto

declare le.simps [simp del]

lemma le_nat_le: "v < 256 ^ n \<Longrightarrow> le_nat (le n v) = v"
proof (induction n arbitrary: v)
  case (Suc n)
  then have "v div 256 < 256 ^ n" by (simp add: less_mult_imp_div_less mult.commute)
  then show ?case using Suc.IH [of "v div 256"] by (simp add: unat_of_nat le.simps)
qed (simp add: le.simps)

definition bytes_at :: "byte list \<Rightarrow> nat \<Rightarrow> byte list \<Rightarrow> bool" where
  "bytes_at m p bs \<longleftrightarrow> p + length bs \<le> length m \<and> take (length bs) (drop p m) = bs"

lemma bytes_at_append: "bytes_at m p (a @ b) \<longleftrightarrow> bytes_at m p a \<and> bytes_at m (p + length a) b"
proof (cases "p + length (a @ b) \<le> length m")
  case True
  then have "length (take (length a) (drop p m)) = length a" by simp
  then show ?thesis using True by (simp add: bytes_at_def take_add append_eq_append_conv add.commute)
qed (auto simp: bytes_at_def)

lemma bytes_at_mid: "bytes_at (a @ bs @ b) (length a) bs"
  by (simp add: bytes_at_def)

lemma fetch_at: "bytes_at m p bs \<Longrightarrow> fetch m p (length bs) = Done bs"
  by (auto simp: bytes_at_def fetch_def mapping_def)

lemma fetch_nat_at: "bytes_at m p (le n v) \<Longrightarrow> v < 256 ^ n \<Longrightarrow> fetch_nat m p n = Done v"
  using fetch_at [of m p "le n v"] by (simp add: fetch_nat_def le_nat_le)

text \<open>What is read of a message that is in the file.\<close>

lemmas encode_parts = encode_def encode_header_def bytes_at_append

lemma header_fields:
  assumes "bytes_at m p (encode msg)" "message_ok msg"
  shows "Header_msg_type m p = Done (message_type msg)" "CalcAddr m p = Done (p + length (encode msg))"
proof -
  have "message_type msg < 256 ^ 1" by (cases msg) (simp_all add: OrderEntryType_def OrderAckType_def OrderFillType_def)
  then show "Header_msg_type m p = Done (message_type msg)"
    using assms(1) fetch_nat_at [of m "p + 2" 1 "message_type msg"] by (simp add: Header_msg_type_def encode_parts)
  have "length (concat (map encode_group gs)) = 8 * length gs" if "\<forall>(firm, tag, q) \<in> set gs. firm < 256 \<and> length tag = 3 \<and> q < 2 ^ 32" for gs
    using that by (induction gs) (auto simp: encode_group_def)
  then have "length (encode_body msg) < 256 ^ 2" using assms(2) by (cases msg) (auto simp: termination_string_def)
  then have "fetch_nat m (p + 20) 2 = Done (length (encode_body msg))"
    using assms(1) by (intro fetch_nat_at) (simp_all add: encode_parts add.commute)
  then show "CalcAddr m p = Done (p + length (encode msg))" by (simp add: CalcAddr_def encode_def encode_header_def)
qed

lemma entry_fields:
  assumes "bytes_at m p (encode (Entry h price qty ins side client tif tag firm_id firm))"
    and "message_ok (Entry h price qty ins side client tif tag firm_id firm)"
  shows "OrderEntryMsgClass m p = Done \<lparr>pEntryMsg = p, TraderTag = tag, Instrument = ins, Firm = firm\<rparr>"
    "GetQty m \<lparr>pEntryMsg = p, TraderTag = t, Instrument = i, Firm = f\<rparr> = Done qty"
    "GetClientID m \<lparr>pEntryMsg = p, TraderTag = t, Instrument = i, Firm = f\<rparr> = Done client"
    "isGFD m \<lparr>pEntryMsg = p, TraderTag = t, Instrument = i, Firm = f\<rparr> = Done (tif = GFD)"
proof -
  let ?msg = "Entry h price qty ins side client tif tag firm_id firm"
  have ok: "qty < 256 ^ 4" "client < 256 ^ 8" "tif < 256 ^ 1" "length ins = 10" "length tag = 3" "length firm \<le> 256"
    using assms(2) by simp_all
  have at: "bytes_at m (p + 30) (le 4 qty)" "bytes_at m (p + 34) ins" "bytes_at m (p + 45) (le 8 client)"
    "bytes_at m (p + 53) (le 1 tif)" "bytes_at m (p + 54) tag" "bytes_at m (p + 58) firm"
    using assms(1) ok by (simp_all add: encode_parts add.commute)
  show "GetQty m \<lparr>pEntryMsg = p, TraderTag = t, Instrument = i, Firm = f\<rparr> = Done qty"
    "GetClientID m \<lparr>pEntryMsg = p, TraderTag = t, Instrument = i, Firm = f\<rparr> = Done client"
    "isGFD m \<lparr>pEntryMsg = p, TraderTag = t, Instrument = i, Firm = f\<rparr> = Done (tif = GFD)"
    using fetch_nat_at [OF at(1) ok(1)] fetch_nat_at [OF at(3) ok(2)] fetch_nat_at [OF at(4) ok(3)]
    by (simp_all add: GetQty_def GetClientID_def isGFD_def)
  have "CalcAddr m p = Done (p + length (encode ?msg))" by (rule header_fields [OF assms])
  moreover have "length (encode ?msg) = 66 + length firm"
    using ok by (simp add: encode_def encode_header_def termination_string_def)
  moreover have "u64 (int (p + (66 + length firm)) - 8 - int (p + 58)) = int (length firm)"
    using ok(6) by (simp add: u64_def)
  ultimately show "OrderEntryMsgClass m p = Done \<lparr>pEntryMsg = p, TraderTag = tag, Instrument = ins, Firm = firm\<rparr>"
    using fetch_at [OF at(5)] fetch_at [OF at(2)] fetch_at [OF at(6)] ok
    by (simp add: OrderEntryMsgClass_def Let_def)
qed

lemma ack_fields:
  assumes "bytes_at m p (encode (Ack h order_id client st code))" "message_ok (Ack h order_id client st code)"
  shows "ack_GetClientID m p = Done client" "Accept m p = Done (st = GOOD)"
proof -
  have ok: "client < 256 ^ 8" "st < 256 ^ 1" using assms(2) by simp_all
  have at: "bytes_at m (p + 26) (le 8 client)" "bytes_at m (p + 34) (le 1 st)"
    using assms(1) by (simp_all add: encode_parts add.commute)
  show "ack_GetClientID m p = Done client" "Accept m p = Done (st = GOOD)"
    using fetch_nat_at [OF at(1) ok(1)] fetch_nat_at [OF at(2) ok(2)] by (simp_all add: ack_GetClientID_def Accept_def)
qed

lemma fill_groups_at:
  assumes "bytes_at m p (concat (map encode_group gs))" "\<forall>(firm, tag, q) \<in> set gs. firm < 256 \<and> length tag = 3 \<and> q < 2 ^ 32"
  shows "fill_groups m p (length gs) = Done gs"
  using assms
proof (induction gs arbitrary: p)
  case (Cons g gs)
  obtain firm tag q where g: "g = (firm, tag, q)" by (cases g)
  have ok: "firm < 256 ^ 1" "q < 256 ^ 4" "length tag = 3" using Cons.prems(2) g by simp_all
  have at: "bytes_at m p (le 1 firm)" "bytes_at m (p + 1) tag" "bytes_at m (p + 4) (le 4 q)" "bytes_at m (p + 8) (concat (map encode_group gs))"
    using Cons.prems(1) ok by (simp_all add: bytes_at_append g encode_group_simp add.commute)
  show ?case
    using fetch_nat_at [OF at(1) ok(1)] fetch_at [OF at(2)] fetch_nat_at [OF at(3) ok(2)] Cons.IH [OF at(4)] Cons.prems(2) ok g by simp
qed simp

lemma fill_fields:
  assumes "bytes_at m p (encode (Fill h order_id price qty groups))" "message_ok (Fill h order_id price qty groups)"
  shows "OrderFillMsgClass m p = Done \<lparr>pFillMsg = p, ContrasRptGrp = groups\<rparr>"
    "GetOrderID m \<lparr>pFillMsg = p, ContrasRptGrp = gs\<rparr> = Done order_id"
    "GetFillQty m \<lparr>pFillMsg = p, ContrasRptGrp = gs\<rparr> = Done qty"
proof -
  have ok: "order_id < 256 ^ 4" "qty < 256 ^ 4" "length groups < 256 ^ 1"
    "\<forall>(firm, tag, q) \<in> set groups. firm < 256 \<and> length tag = 3 \<and> q < 2 ^ 32" using assms(2) by simp_all
  have at: "bytes_at m (p + 22) (le 4 order_id)" "bytes_at m (p + 34) (le 4 qty)" "bytes_at m (p + 38) (le 1 (length groups))"
    "bytes_at m (p + 39) (concat (map encode_group groups))"
    using assms(1) by (simp_all add: encode_parts add.commute)
  show "GetOrderID m \<lparr>pFillMsg = p, ContrasRptGrp = gs\<rparr> = Done order_id" "GetFillQty m \<lparr>pFillMsg = p, ContrasRptGrp = gs\<rparr> = Done qty"
    using fetch_nat_at [OF at(1) ok(1)] fetch_nat_at [OF at(2) ok(2)] by (simp_all add: GetOrderID_def GetFillQty_def)
  show "OrderFillMsgClass m p = Done \<lparr>pFillMsg = p, ContrasRptGrp = groups\<rparr>"
    using fetch_nat_at [OF at(3) ok(3)] fill_groups_at [OF at(4) ok(4)] by (simp add: OrderFillMsgClass_def)
qed

subsection \<open>The file\<close>

text \<open>The messages with the places they have, and the objects that stand for them.\<close>

fun placed :: "nat \<Rightarrow> message list \<Rightarrow> (nat \<times> message) list" where
  "placed p [] = []"
| "placed p (msg # msgs) = (p, msg) # placed (p + length (encode msg)) msgs"

fun load_object :: "nat \<times> message \<Rightarrow> loaded \<Rightarrow> loaded" where
  "load_object (p, Entry h price qty ins side client tif tag firm_id firm) l =
     l\<lparr>vEntryMsg := vEntryMsg l @ [\<lparr>pEntryMsg = p, TraderTag = tag, Instrument = ins, Firm = firm\<rparr>]\<rparr>"
| "load_object (p, Ack h order_id client st code) l = l\<lparr>vAckMsg := vAckMsg l @ [p]\<rparr>"
| "load_object (p, Fill h order_id price qty groups) l =
     l\<lparr>vFillMsg := vFillMsg l @ [\<lparr>pFillMsg = p, ContrasRptGrp = groups\<rparr>]\<rparr>"

definition load_one :: "nat \<times> message \<Rightarrow> loaded \<Rightarrow> loaded" where
  "load_one pm l = (let l = load_object pm l in l\<lparr>TotalCnt := (TotalCnt l + 1) mod 2 ^ 32\<rparr>)"

lemma load_message_at:
  assumes "bytes_at m p (encode msg)" "message_ok msg"
  shows "load_message m p l = Done (Some (load_object (p, msg) l))"
proof -
  note t = header_fields(1) [OF assms]
  show ?thesis
  proof (cases msg)
    case (Entry h price qty ins side client tif tag firm_id firm)
    then show ?thesis using t entry_fields(1) [OF assms [unfolded Entry]] by (simp add: load_message_def)
  next
    case (Ack h order_id client st code)
    then show ?thesis using t by (simp add: load_message_def OrderEntryType_def OrderAckType_def)
  next
    case (Fill h order_id price qty groups)
    then show ?thesis using t fill_fields(1) [OF assms [unfolded Fill]]
      by (simp add: load_message_def OrderEntryType_def OrderAckType_def OrderFillType_def)
  qed
qed

lemma encode_pos: "0 < length (encode msg)"
  by (simp add: encode_def encode_header_def)

lemma load_from_messages:
  assumes "bytes_at m p (concat (map encode msgs))" "length m = p + length (concat (map encode msgs))" "\<forall>msg \<in> set msgs. message_ok msg"
  shows "LoadFile_from m p l = Done (True, fold load_one (placed p msgs) l)"
  using assms
proof (induction msgs arbitrary: p l)
  case Nil
  then show ?case by (subst LoadFile_from.simps) simp
next
  case (Cons msg msgs)
  have at: "bytes_at m p (encode msg)" "bytes_at m (p + length (encode msg)) (concat (map encode msgs))" and ok: "message_ok msg"
    using Cons.prems(1,3) by (simp_all add: bytes_at_append)
  have "p < length m" using Cons.prems(2) encode_pos [of msg] by simp
  then have "LoadFile_from m p l = LoadFile_from m (p + length (encode msg)) (load_one (p, msg) l)"
    using load_message_at [OF at(1) ok] header_fields(2) [OF at(1) ok]
    by (subst LoadFile_from.simps) (simp add: load_one_def Let_def)
  also have "\<dots> = Done (True, fold load_one (placed (p + length (encode msg)) msgs) (load_one (p, msg) l))"
    using Cons.prems(2,3) by (intro Cons.IH [OF at(2)]) simp_all
  finally show ?case by simp
qed

definition loaded_of :: "(nat \<times> message) list \<Rightarrow> loaded" where
  "loaded_of pms = fold load_one pms nothing_loaded"

lemma load_file: "\<forall>msg \<in> set msgs. message_ok msg \<Longrightarrow> LoadFile (concat (map encode msgs)) = Done (True, loaded_of (placed 0 msgs))"
  unfolding LoadFile_def loaded_of_def by (intro load_from_messages) (simp_all add: bytes_at_def)

text \<open>The vectors hold the objects of the messages of each kind, in the order of the file.\<close>

definition entry_object :: "nat \<times> message \<Rightarrow> entry_msg" where
  "entry_object pm = (case pm of (p, Entry h price qty ins side client tif tag firm_id firm) \<Rightarrow>
     \<lparr>pEntryMsg = p, TraderTag = tag, Instrument = ins, Firm = firm\<rparr>)"

definition fill_object :: "nat \<times> message \<Rightarrow> fill_msg" where
  "fill_object pm = (case pm of (p, Fill h order_id price qty groups) \<Rightarrow> \<lparr>pFillMsg = p, ContrasRptGrp = groups\<rparr>)"

fun is_entry :: "nat \<times> message \<Rightarrow> bool" where
  "is_entry (p, Entry _ _ _ _ _ _ _ _ _ _) = True" | "is_entry _ = False"

fun is_ack :: "nat \<times> message \<Rightarrow> bool" where
  "is_ack (p, Ack _ _ _ _ _) = True" | "is_ack _ = False"

fun is_fill :: "nat \<times> message \<Rightarrow> bool" where
  "is_fill (p, Fill _ _ _ _ _) = True" | "is_fill _ = False"

lemma fold_load_one:
  "vEntryMsg (fold load_one pms l) = vEntryMsg l @ map entry_object (filter is_entry pms)"
  "vAckMsg (fold load_one pms l) = vAckMsg l @ map fst (filter is_ack pms)"
  "vFillMsg (fold load_one pms l) = vFillMsg l @ map fill_object (filter is_fill pms)"
  "TotalCnt l < 2 ^ 32 \<Longrightarrow> TotalCnt (fold load_one pms l) = (TotalCnt l + length pms) mod 2 ^ 32"
proof (induction pms arbitrary: l)
  case (Cons pm pms)
  obtain p msg where pm: "pm = (p, msg)" by (cases pm)
  {
    case 1
    then show ?case using Cons(1) pm by (cases msg) (simp_all add: load_one_def Let_def entry_object_def)
  next
    case 2
    then show ?case using Cons(2) pm by (cases msg) (simp_all add: load_one_def Let_def)
  next
    case 3
    then show ?case using Cons(3) pm by (cases msg) (simp_all add: load_one_def Let_def fill_object_def)
  next
    case 4
    have "TotalCnt (load_one pm l) = (TotalCnt l + 1) mod 2 ^ 32" using pm by (cases msg) (simp_all add: load_one_def Let_def)
    then show ?case using Cons(4) [of "load_one pm l"] by (simp add: mod_simps)
  }
qed simp_all

lemma length_placed [simp]: "length (placed p msgs) = length msgs"
  by (induction msgs arbitrary: p) simp_all

lemma placed_at:
  assumes "(q, msg) \<in> set (placed p msgs)" "bytes_at m p (concat (map encode msgs))"
  shows "bytes_at m q (encode msg)" "msg \<in> set msgs"
  using assms by (induction msgs arbitrary: p) (auto simp: bytes_at_append)

section \<open>The result, on the messages\<close>

text \<open>The orders, as client, tag, instrument, quantity and whether good for the day; the answers to clients, and the fills.\<close>

definition orders_of :: "message list \<Rightarrow> (nat \<times> byte list \<times> byte list \<times> nat \<times> bool) list" where
  "orders_of msgs = concat (map (\<lambda>msg. case msg of
     Entry h price qty ins side client tif tag firm_id firm \<Rightarrow> [(client, tag, ins, qty, tif = GFD)] | _ \<Rightarrow> []) msgs)"

definition answers_of :: "message list \<Rightarrow> (nat \<times> bool) list" where
  "answers_of msgs = concat (map (\<lambda>msg. case msg of Ack h order_id client st code \<Rightarrow> [(client, st = GOOD)] | _ \<Rightarrow> []) msgs)"

definition fills_of :: "message list \<Rightarrow> (nat \<times> nat) list" where
  "fills_of msgs = concat (map (\<lambda>msg. case msg of Fill h order_id price qty groups \<Rightarrow> [(order_id, qty)] | _ \<Rightarrow> []) msgs)"

text \<open>The first answer to a client counts, and the last order of a client.\<close>

definition accepted_by :: "(nat \<times> bool) list \<Rightarrow> nat \<Rightarrow> bool" where
  "accepted_by answers client \<longleftrightarrow> map_of answers client = Some True"

definition active_qtys :: "message list \<Rightarrow> trader_qty list" where
  "active_qtys msgs = map (\<lambda>(client, tag, ins, qty, gfd). (tag, qty))
     (filter (\<lambda>(client, tag, ins, qty, gfd). accepted_by (answers_of msgs) client) (orders_of msgs))"

definition liquid_qtys :: "message list \<Rightarrow> trader_qty list" where
  "liquid_qtys msgs = map (\<lambda>(client, tag, ins, qty, gfd). (tag, qty)) (filter (\<lambda>(client, tag, ins, qty, gfd). gfd) (orders_of msgs))"

definition instruments_of :: "(nat \<times> byte list \<times> byte list \<times> nat \<times> bool) list \<Rightarrow> nat \<rightharpoonup> byte list" where
  "instruments_of os = map_of (rev (map (\<lambda>(client, tag, ins, qty, gfd). (client, ins)) os))"

fun trades_spec :: "(nat \<rightharpoonup> byte list) \<Rightarrow> (nat \<times> nat) list \<Rightarrow> (byte list \<rightharpoonup> nat) \<Rightarrow> (byte list \<rightharpoonup> nat) outcome" where
  "trades_spec inss [] trades = Done trades"
| "trades_spec inss ((order_id, qty) # fs) trades =
     (case inss order_id of
        None \<Rightarrow> Crash Null_deref
      | Some ins \<Rightarrow> trades_spec inss fs (trades(c_string ins \<mapsto>
          case trades (c_string ins) of Some old \<Rightarrow> (old + qty) mod 2 ^ 64 | None \<Rightarrow> qty)))"

definition report_spec :: "message list \<Rightarrow> order_report outcome" where
  "report_spec msgs =
     and_then (trades_spec (instruments_of (orders_of msgs)) (fills_of msgs) Map.empty) (\<lambda>trades.
       case (by_quantity (fold add_qty (active_qtys msgs) []), by_quantity (fold add_qty (liquid_qtys msgs) [])) of
         ((a, _) # _, (b, _) # _) \<Rightarrow>
           Done \<lparr>rp_counts = (length msgs mod 2 ^ 32, length (orders_of msgs), length (answers_of msgs), length (fills_of msgs)),
             rp_active = c_string a, rp_liquid = c_string b, rp_trades = trades\<rparr>
       | _ \<Rightarrow> Crash Null_deref)"

lemma of_filter:
  "orders_of (map snd (filter is_entry pms)) = orders_of (map snd pms)"
  "answers_of (map snd (filter is_ack pms)) = answers_of (map snd pms)"
  "fills_of (map snd (filter is_fill pms)) = fills_of (map snd pms)"
proof (induction pms)
  case (Cons pm pms)
  obtain p msg where pm: "pm = (p, msg)" by (cases pm)
  { case 1 then show ?case using Cons(1) pm by (cases msg) (simp_all add: orders_of_def) }
  { case 2 then show ?case using Cons(2) pm by (cases msg) (simp_all add: answers_of_def) }
  { case 3 then show ?case using Cons(3) pm by (cases msg) (simp_all add: fills_of_def) }
qed (simp_all add: orders_of_def answers_of_def fills_of_def)

lemma length_of:
  "length (filter is_entry pms) = length (orders_of (map snd pms))"
  "length (filter is_ack pms) = length (answers_of (map snd pms))"
  "length (filter is_fill pms) = length (fills_of (map snd pms))"
proof (induction pms)
  case (Cons pm pms)
  obtain p msg where pm: "pm = (p, msg)" by (cases pm)
  { case 1 then show ?case using Cons(1) pm by (cases msg) (simp_all add: orders_of_def) }
  { case 2 then show ?case using Cons(2) pm by (cases msg) (simp_all add: answers_of_def) }
  { case 3 then show ?case using Cons(3) pm by (cases msg) (simp_all add: fills_of_def) }
qed (simp_all add: orders_of_def answers_of_def fills_of_def)

lemma map_snd_placed [simp]: "map snd (placed p msgs) = msgs"
  by (induction msgs arbitrary: p) simp_all

text \<open>The messages of a list are in the file where the list says.\<close>

definition in_file :: "byte list \<Rightarrow> (nat \<times> message) list \<Rightarrow> bool" where
  "in_file m pms \<longleftrightarrow> (\<forall>(p, msg) \<in> set pms. bytes_at m p (encode msg) \<and> message_ok msg)"

lemma in_file_Cons: "in_file m ((p, msg) # pms) \<longleftrightarrow> bytes_at m p (encode msg) \<and> message_ok msg \<and> in_file m pms"
  by (simp add: in_file_def)

lemma accept_at:
  assumes "in_file m pms" "\<forall>pm \<in> set pms. is_ack pm"
  shows "and_then (find_ack m client (map fst pms)) (\<lambda>a. case a of None \<Rightarrow> Done False | Some a \<Rightarrow> Accept m a) =
    Done (accepted_by (answers_of (map snd pms)) client)"
  using assms
proof (induction pms)
  case (Cons pm pms)
  obtain p h order_id c st code where pm: "pm = (p, Ack h order_id c st code)" using Cons.prems(2) by (cases pm rule: is_ack.cases) auto
  have at: "bytes_at m p (encode (Ack h order_id c st code))" "message_ok (Ack h order_id c st code)" "in_file m pms"
    using Cons.prems(1) by (simp_all add: pm in_file_Cons del: message_ok.simps)
  show ?case using ack_fields [OF at(1,2)] Cons.IH [OF at(3)] Cons.prems(2)
    by (simp add: pm answers_of_def accepted_by_def)
qed (simp add: accepted_by_def answers_of_def)

text \<open>One entry, and all of them.\<close>

definition link_with :: "(nat \<times> bool) list \<Rightarrow> nat \<times> message \<Rightarrow> linked \<Rightarrow> linked" where
  "link_with answers pm k =
     fold (\<lambda>(client, tag, ins, qty, gfd) k.
       k\<lparr>ClientID2OrderEntry := (ClientID2OrderEntry k)(client \<mapsto> entry_object pm),
         ActiveVector := if accepted_by answers client then add_qty (tag, qty) (ActiveVector k) else ActiveVector k,
         LiquidityVector := if gfd then add_qty (tag, qty) (LiquidityVector k) else LiquidityVector k\<rparr>)
     (orders_of [snd pm]) k"

lemma link_entry_at:
  assumes "in_file m [pm]" "is_entry pm" "in_file m acks" "\<forall>a \<in> set acks. is_ack a"
  shows "link_entry m (map fst acks) (entry_object pm) k = Done (link_with (answers_of (map snd acks)) pm k)"
proof -
  obtain p h price qty ins side client tif tag firm_id firm
    where pm: "pm = (p, Entry h price qty ins side client tif tag firm_id firm)"
    using assms(2) by (cases pm rule: is_entry.cases) auto
  let ?msg = "Entry h price qty ins side client tif tag firm_id firm"
  have at: "bytes_at m p (encode ?msg)" "message_ok ?msg"
    using assms(1) by (simp_all add: pm in_file_Cons del: message_ok.simps)
  have e: "entry_object pm = \<lparr>pEntryMsg = p, TraderTag = tag, Instrument = ins, Firm = firm\<rparr>" by (simp add: pm entry_object_def)
  have a: "and_then (find_ack m client (map fst acks)) (\<lambda>a. and_then (case a of None \<Rightarrow> Done False | Some a \<Rightarrow> Accept m a) f) =
      f (accepted_by (answers_of (map snd acks)) client)" for f :: "bool \<Rightarrow> linked outcome"
    using accept_at [OF assms(3,4), of client] by (simp add: and_then_assoc [symmetric])
  show ?thesis
    unfolding e link_entry_def entry_fields(3) [OF at] and_then.simps a entry_fields(2) [OF at] entry_fields(4) [OF at]
    by (simp add: pm link_with_def orders_of_def e [unfolded pm])
qed

lemma link_entries_at:
  assumes "in_file m es" "\<forall>e \<in> set es. is_entry e" "in_file m acks" "\<forall>a \<in> set acks. is_ack a"
  shows "link_entries m (map fst acks) (map entry_object es) k = Done (fold (link_with (answers_of (map snd acks))) es k)"
  using assms(1,2)
proof (induction es arbitrary: k)
  case (Cons e es)
  then have "in_file m [e]" "in_file m es" by (simp_all add: in_file_def)
  then show ?case using Cons link_entry_at [OF _ _ assms(3,4)] by simp
qed simp

text \<open>What the linking leaves, field by field.\<close>

definition objects_of :: "(nat \<times> message) list \<Rightarrow> (nat \<times> entry_msg) list" where
  "objects_of pms = concat (map (\<lambda>pm. map (\<lambda>(client, _). (client, entry_object pm)) (orders_of [snd pm])) pms)"

lemma orders_of_Cons: "orders_of (msg # msgs) = orders_of [msg] @ orders_of msgs"
  by (simp add: orders_of_def)

lemma orders_of_one: "is_entry (p, msg) \<Longrightarrow> \<exists>client tag ins qty gfd. orders_of [msg] = [(client, tag, ins, qty, gfd)]"
  by (cases msg) (simp_all add: orders_of_def)

definition qtys_of :: "(nat \<Rightarrow> bool \<Rightarrow> bool) \<Rightarrow> (nat \<times> byte list \<times> byte list \<times> nat \<times> bool) list \<Rightarrow> trader_qty list" where
  "qtys_of P os = map (\<lambda>(client, tag, ins, qty, gfd). (tag, qty)) (filter (\<lambda>(client, tag, ins, qty, gfd). P client gfd) os)"

lemma link_with_fields:
  assumes "is_entry e"
  shows "ActiveVector (link_with answers e k) =
      fold add_qty (qtys_of (\<lambda>client gfd. accepted_by answers client) (orders_of [snd e])) (ActiveVector k)"
    "LiquidityVector (link_with answers e k) = fold add_qty (qtys_of (\<lambda>client gfd. gfd) (orders_of [snd e])) (LiquidityVector k)"
    "ClientID2OrderEntry (link_with answers e k) = ClientID2OrderEntry k ++ map_of (rev (objects_of [e]))"
proof -
  obtain p msg where e: "e = (p, msg)" by (cases e)
  obtain client tag ins qty gfd where o: "orders_of [msg] = [(client, tag, ins, qty, gfd)]"
    using orders_of_one [of p msg] assms e by auto
  show "ActiveVector (link_with answers e k) =
      fold add_qty (qtys_of (\<lambda>client gfd. accepted_by answers client) (orders_of [snd e])) (ActiveVector k)"
    "LiquidityVector (link_with answers e k) = fold add_qty (qtys_of (\<lambda>client gfd. gfd) (orders_of [snd e])) (LiquidityVector k)"
    "ClientID2OrderEntry (link_with answers e k) = ClientID2OrderEntry k ++ map_of (rev (objects_of [e]))"
    by (simp_all add: e o link_with_def qtys_of_def objects_of_def)
qed

lemma qtys_of_append: "qtys_of P (os @ os') = qtys_of P os @ qtys_of P os'"
  by (simp add: qtys_of_def)

lemma objects_of_Cons: "objects_of (e # es) = objects_of [e] @ objects_of es"
  by (simp add: objects_of_def)

lemma fold_link_with:
  assumes "\<forall>e \<in> set es. is_entry e"
  shows "ActiveVector (fold (link_with answers) es k) =
      fold add_qty (qtys_of (\<lambda>client gfd. accepted_by answers client) (orders_of (map snd es))) (ActiveVector k)"
    "LiquidityVector (fold (link_with answers) es k) = fold add_qty (qtys_of (\<lambda>client gfd. gfd) (orders_of (map snd es))) (LiquidityVector k)"
    "ClientID2OrderEntry (fold (link_with answers) es k) = ClientID2OrderEntry k ++ map_of (rev (objects_of es))"
  using assms
proof (induction es arbitrary: k)
  case (Cons e es)
  note cons = orders_of_Cons [of "snd e" "map snd es"] objects_of_Cons [of e es] qtys_of_append
  { case 1 then show ?case using Cons(1) link_with_fields(1) [of e] by (simp add: cons) }
  { case 2 then show ?case using Cons(2) link_with_fields(2) [of e] by (simp add: cons) }
  { case 3 then show ?case using Cons(3) link_with_fields(3) [of e] by (simp add: cons map_of_append) }
qed (simp_all add: orders_of_def qtys_of_def objects_of_def)

lemma objects_instruments:
  assumes "\<forall>e \<in> set es. is_entry e"
  shows "map_option Instrument (map_of (rev (objects_of es)) client) = instruments_of (orders_of (map snd es)) client"
  using assms
proof (induction es rule: rev_induct)
  case (snoc e es)
  obtain p msg where e: "e = (p, msg)" by (cases e)
  obtain c tag ins qty gfd where o: "orders_of [msg] = [(c, tag, ins, qty, gfd)]"
    using orders_of_one [of p msg] snoc.prems e by auto
  have a: "orders_of (msgs @ [msg]) = orders_of msgs @ orders_of [msg]" for msgs by (simp add: orders_of_def)
  have "Instrument (entry_object e) = ins" using o e by (cases msg) (simp_all add: orders_of_def entry_object_def)
  then show ?case using snoc e a o by (simp add: objects_of_def instruments_of_def)
qed (simp add: objects_of_def instruments_of_def orders_of_def)

lemma parse_fills_at:
  assumes "in_file m fs" "\<forall>f \<in> set fs. is_fill f" "\<forall>c. map_option Instrument (ClientID2OrderEntry k c) = inss c"
  shows "parse_fills m k (map fill_object fs) trades = trades_spec inss (fills_of (map snd fs)) trades"
  using assms(1,2)
proof (induction fs arbitrary: trades)
  case (Cons f fs)
  obtain p h order_id price qty groups where f: "f = (p, Fill h order_id price qty groups)"
    using Cons.prems(2) by (cases f rule: is_fill.cases) auto
  let ?msg = "Fill h order_id price qty groups"
  have at: "bytes_at m p (encode ?msg)" "message_ok ?msg" "in_file m fs"
    using Cons.prems(1) by (simp_all add: f in_file_Cons del: message_ok.simps)
  have i: "inss order_id = map_option Instrument (ClientID2OrderEntry k order_id)" using assms(3) by simp
  show ?case
    using fill_fields(2,3) [OF at(1,2), of groups] Cons.IH [OF at(3)] Cons.prems(2)
    by (cases "ClientID2OrderEntry k order_id")
      (simp_all add: f fill_object_def parse_fill_def OrderID2ClientID_def i fills_of_def Let_def)
qed (simp add: fills_of_def)

lemma active_liquid_qtys:
  "active_qtys msgs = qtys_of (\<lambda>client gfd. accepted_by (answers_of msgs) client) (orders_of msgs)"
  "liquid_qtys msgs = qtys_of (\<lambda>client gfd. gfd) (orders_of msgs)"
  by (simp_all add: active_qtys_def liquid_qtys_def qtys_of_def)

lemma placed_in_file: "\<forall>msg \<in> set msgs. message_ok msg \<Longrightarrow> in_file (concat (map encode msgs)) (placed 0 msgs)"
  using placed_at [of _ _ 0 msgs "concat (map encode msgs)"] by (auto simp: in_file_def bytes_at_def)

lemma in_file_filter: "in_file m pms \<Longrightarrow> in_file m (filter P pms)"
  by (auto simp: in_file_def)

section \<open>Quantities\<close>

definition name_of :: "byte list \<Rightarrow> byte list" where
  "name_of tag = c_string (take 3 tag)"

definition quantity :: "trader_qty list \<Rightarrow> byte list \<Rightarrow> nat" where
  "quantity qs name = sum_list (map snd (filter (\<lambda>(tag, q). name_of tag = name) qs))"

lemma add_qty_names:
  "map (\<lambda>t. name_of (fst t)) (add_qty (tag, q) ts) =
     map (\<lambda>t. name_of (fst t)) ts @ (if name_of tag \<in> set (map (\<lambda>t. name_of (fst t)) ts) then [] else [name_of tag])"
  by (induction ts) (force simp: same_tag_def name_of_def)+

lemma quantity_Cons [simp]: "quantity ((tag, q) # qs) name = (if name_of tag = name then q else 0) + quantity qs name"
  by (simp add: quantity_def)

lemma add_qty_quantity:
  "quantity (add_qty (tag, q) ts) name mod 2 ^ 32 = (quantity ts name + (if name_of tag = name then q else 0)) mod 2 ^ 32"
proof (induction ts)
  case (Cons t ts)
  obtain n x where t: "t = (n, x)" by (cases t)
  show ?case
  proof (cases "same_tag n tag")
    case True
    then have "name_of n = name_of tag" by (simp add: same_tag_def name_of_def)
    moreover have "((x + q) mod 2 ^ 32 + r) mod 2 ^ 32 = (x + r + q) mod (2 ^ 32 :: nat)" for r by (simp add: mod_simps ac_simps)
    ultimately show ?thesis using True t by simp
  next
    case False
    have "quantity (add_qty (tag, q) (t # ts)) name = (if name_of n = name then x else 0) + quantity (add_qty (tag, q) ts) name"
      using False t by simp
    also have "\<dots> mod 2 ^ 32 = ((if name_of n = name then x else 0) + (quantity ts name + (if name_of tag = name then q else 0))) mod 2 ^ 32"
      by (rule mod_add_cong [OF refl Cons.IH])
    finally show ?thesis using t by (simp add: add.assoc)
  qed
qed (simp add: quantity_def)

lemma add_qty_small: "list_all (\<lambda>t. snd t < 2 ^ 32) ts \<Longrightarrow> q < 2 ^ 32 \<Longrightarrow> list_all (\<lambda>t. snd t < 2 ^ 32) (add_qty (tag, q) ts)"
  by (induction ts) auto

lemma fold_add_qty:
  assumes "list_all (\<lambda>t. snd t < 2 ^ 32) qs" "distinct (map (\<lambda>t. name_of (fst t)) ts)" "list_all (\<lambda>t. snd t < 2 ^ 32) ts"
  shows "distinct (map (\<lambda>t. name_of (fst t)) (fold add_qty qs ts))" "list_all (\<lambda>t. snd t < 2 ^ 32) (fold add_qty qs ts)"
    "set (map (\<lambda>t. name_of (fst t)) (fold add_qty qs ts)) = set (map (\<lambda>t. name_of (fst t)) ts) \<union> set (map (\<lambda>t. name_of (fst t)) qs)"
    "quantity (fold add_qty qs ts) name mod 2 ^ 32 = (quantity ts name + quantity qs name) mod 2 ^ 32"
  using assms
proof (induction qs arbitrary: ts)
  case (Cons t qs)
  obtain tag q where t: "t = (tag, q)" by (cases t)
  note n = add_qty_names [of tag q]
  have d: "distinct (map (\<lambda>t. name_of (fst t)) us) \<Longrightarrow> distinct (map (\<lambda>t. name_of (fst t)) (add_qty (tag, q) us))" for us
    unfolding n by auto
  have u: "set (map (\<lambda>t. name_of (fst t)) (add_qty (tag, q) us)) = insert (name_of tag) (set (map (\<lambda>t. name_of (fst t)) us))" for us
    unfolding n by auto
  { case 1 then show ?case using Cons.IH(1) [OF _ d add_qty_small] t by simp }
  { case 2 then show ?case using Cons.IH(2) [OF _ d add_qty_small] t by simp }
  { case 3 then show ?case using Cons.IH(3) [OF _ d add_qty_small, of ts] u [of ts] t by (simp del: set_map) }
  {
    case 4
    have "quantity (fold add_qty qs (add_qty (tag, q) ts)) name mod 2 ^ 32 = (quantity (add_qty (tag, q) ts) name + quantity qs name) mod 2 ^ 32"
      using Cons.IH(4) [OF _ d add_qty_small] 4 t by simp
    also have "\<dots> = ((quantity ts name + (if name_of tag = name then q else 0)) + quantity qs name) mod 2 ^ 32"
      by (rule mod_add_cong [OF add_qty_quantity refl])
    finally show ?case by (simp add: t add.assoc)
  }
qed (simp_all add: quantity_def)

lemma quantity_entry:
  assumes "distinct (map (\<lambda>t. name_of (fst t)) ts)" "(tag, q) \<in> set ts"
  shows "quantity ts (name_of tag) = q"
  using assms
proof (induction ts)
  case (Cons t ts)
  obtain n x where t: "t = (n, x)" by (cases t)
  show ?case
  proof (cases "name_of n = name_of tag")
    case True
    then have "name_of tag \<notin> (\<lambda>t. name_of (fst t)) ` set ts" using Cons.prems(1) t by auto
    then have "filter (\<lambda>(t, q). name_of t = name_of tag) ts = []" "(tag, q) \<notin> set ts"
      by (force simp: filter_empty_conv)+
    then show ?thesis using Cons.prems(2) t True by (simp add: quantity_def)
  next
    case False
    then show ?thesis using Cons t by auto
  qed
qed simp

lemma quantity_absent: "name \<notin> set (map (\<lambda>t. name_of (fst t)) ts) \<Longrightarrow> quantity ts name = 0"
  by (induction ts) (auto simp: quantity_def)

text \<open>The first of the sorted traders has the largest quantity, counted modulo the 32 bits it is kept in.\<close>

lemma largest_first:
  assumes "list_all (\<lambda>t. snd t < 2 ^ 32) qs" "by_quantity (fold add_qty qs []) = (tag, q) # rest"
  shows "name_of tag \<in> set (map (\<lambda>t. name_of (fst t)) qs)" "quantity qs (name_of tag) mod 2 ^ 32 = q"
    "quantity qs name mod 2 ^ 32 \<le> q"
proof -
  let ?ts = "fold add_qty qs []"
  note f = fold_add_qty [OF assms(1), of "[]"]
  have d: "distinct (map (\<lambda>t. name_of (fst t)) ?ts)" "list_all (\<lambda>t. snd t < 2 ^ 32) ?ts"
    "set (map (\<lambda>t. name_of (fst t)) ?ts) = set (map (\<lambda>t. name_of (fst t)) qs)" "\<And>n. quantity ?ts n mod 2 ^ 32 = quantity qs n mod 2 ^ 32"
    using f by (simp_all add: quantity_def)
  have set: "set ((tag, q) # rest) = set ?ts" using assms(2) by (metis by_quantity_def set_sort)
  then have mem: "(tag, q) \<in> set ?ts" by (metis list.set_intros(1))
  then have "name_of tag \<in> set (map (\<lambda>t. name_of (fst t)) ?ts)" by force
  then show "name_of tag \<in> set (map (\<lambda>t. name_of (fst t)) qs)" using d(3) by simp
  have q: "quantity ?ts (name_of tag) = q" "q < 2 ^ 32" using quantity_entry [OF d(1) mem] d(2) mem by (auto simp: list_all_iff)
  then show "quantity qs (name_of tag) mod 2 ^ 32 = q" using d(4) [of "name_of tag"] by simp
  have "sorted (map (\<lambda>t. - int (snd t)) ((tag, q) # rest))" using assms(2) by (metis by_quantity_def sorted_sort_key)
  then have le: "x \<le> q" if "(n, x) \<in> set ?ts" for n x
  proof -
    have "(n, x) = (tag, q) \<or> (n, x) \<in> set rest" using that set by auto
    then show ?thesis using \<open>sorted _\<close> by force
  qed
  show "quantity qs name mod 2 ^ 32 \<le> q"
  proof (cases "name \<in> set (map (\<lambda>t. name_of (fst t)) ?ts)")
    case True
    then obtain n x where "(n, x) \<in> set ?ts" "name = name_of n" by auto
    then have "quantity ?ts name \<le> q" using quantity_entry [OF d(1), of n x] le [of n x] by simp
    then have "quantity ?ts name mod 2 ^ 32 \<le> q" using mod_less_eq_dividend [of "quantity ?ts name" "2 ^ 32"] by linarith
    then show ?thesis using d(4) [of name] by simp
  next
    case False
    then show ?thesis using quantity_absent [OF False] d(4) [of name] by simp
  qed
qed

section \<open>Properties\<close>

lemma orders_report:
  assumes "\<forall>msg \<in> set msgs. message_ok msg"
  shows "main_orders (concat (map encode msgs)) = report_spec msgs"
proof -
  let ?m = "concat (map encode msgs)" and ?pms = "placed 0 msgs"
  let ?l = "loaded_of ?pms" and ?es = "filter is_entry ?pms" and ?as = "filter is_ack ?pms" and ?fs = "filter is_fill ?pms"
  have inf: "in_file ?m ?pms" by (rule placed_in_file [OF assms])
  have l: "vEntryMsg ?l = map entry_object ?es" "vAckMsg ?l = map fst ?as" "vFillMsg ?l = map fill_object ?fs"
    "TotalCnt ?l = length msgs mod 2 ^ 32"
    using fold_load_one [where l = nothing_loaded and pms = ?pms] by (simp_all add: loaded_of_def nothing_loaded_def)
  have ofs: "orders_of (map snd ?es) = orders_of msgs" "answers_of (map snd ?as) = answers_of msgs" "fills_of (map snd ?fs) = fills_of msgs"
    using of_filter [of ?pms] by simp_all
  define k where "k = fold (link_with (answers_of msgs)) ?es nothing_linked"
  have k: "link_entries ?m (vAckMsg ?l) (vEntryMsg ?l) nothing_linked = Done k"
    unfolding l k_def ofs(2) [symmetric] by (intro link_entries_at in_file_filter inf) auto
  have f: "ActiveVector k = fold add_qty (active_qtys msgs) []" "LiquidityVector k = fold add_qty (liquid_qtys msgs) []"
    "ClientID2OrderEntry k = map_of (rev (objects_of ?es))"
    using fold_link_with [of ?es "answers_of msgs" nothing_linked] ofs(1)
    by (simp_all add: k_def nothing_linked_def active_liquid_qtys)
  let ?k = "k\<lparr>ActiveVector := by_quantity (ActiveVector k), LiquidityVector := by_quantity (LiquidityVector k)\<rparr>"
  have "\<forall>c. map_option Instrument (ClientID2OrderEntry ?k c) = instruments_of (orders_of msgs) c"
    using objects_instruments [of ?es] f(3) ofs(1) by simp
  then have p: "ParseFile ?m ?l ?k = trades_spec (instruments_of (orders_of msgs)) (fills_of msgs) Map.empty"
    unfolding ParseFile_def l(3) ofs(3) [symmetric] by (intro parse_fills_at in_file_filter inf) auto
  have s: "ShowResult ?l ?k = (\<lambda>trades. case (by_quantity (fold add_qty (active_qtys msgs) []), by_quantity (fold add_qty (liquid_qtys msgs) [])) of
      ((a, _) # _, (b, _) # _) \<Rightarrow>
        Done \<lparr>rp_counts = (length msgs mod 2 ^ 32, length (orders_of msgs), length (answers_of msgs), length (fills_of msgs)),
          rp_active = c_string a, rp_liquid = c_string b, rp_trades = trades\<rparr>
    | _ \<Rightarrow> Crash Null_deref)"
    using l length_of [of ?pms] by (intro ext) (simp add: ShowResult_def f split: list.split prod.split)
  show ?thesis
    by (simp only: main_orders_def report_spec_def load_file [OF assms] and_then.simps prod.case LinkFile_def k p s)
qed


lemma report_spec_Done:
  assumes "report_spec msgs = Done r"
  obtains a x as b y bs where "by_quantity (fold add_qty (active_qtys msgs) []) = (a, x) # as"
    "by_quantity (fold add_qty (liquid_qtys msgs) []) = (b, y) # bs" "rp_active r = c_string a" "rp_liquid r = c_string b"
    "trades_spec (instruments_of (orders_of msgs)) (fills_of msgs) Map.empty = Done (rp_trades r)"
    "rp_counts r = (length msgs mod 2 ^ 32, length (orders_of msgs), length (answers_of msgs), length (fills_of msgs))"
proof -
  obtain trades where t: "trades_spec (instruments_of (orders_of msgs)) (fills_of msgs) Map.empty = Done trades"
    using assms by (cases "trades_spec (instruments_of (orders_of msgs)) (fills_of msgs) Map.empty") (auto simp: report_spec_def)
  obtain a x as where a: "by_quantity (fold add_qty (active_qtys msgs) []) = (a, x) # as"
    using assms t by (cases "by_quantity (fold add_qty (active_qtys msgs) [])") (auto simp: report_spec_def)
  obtain b y bs where b: "by_quantity (fold add_qty (liquid_qtys msgs) []) = (b, y) # bs"
    using assms t a by (cases "by_quantity (fold add_qty (liquid_qtys msgs) [])") (auto simp: report_spec_def)
  show ?thesis using assms t that [OF a b] by (auto simp: report_spec_def a b)
qed

lemma orders_ok:
  assumes "\<forall>msg \<in> set msgs. message_ok msg"
  shows "\<forall>(client, tag, ins, qty, gfd) \<in> set (orders_of msgs). length tag = 3 \<and> qty < 2 ^ 32"
  using assms by (induction msgs) (auto simp: orders_of_def split: message.splits)

lemma qtys_ok:
  assumes "\<forall>msg \<in> set msgs. message_ok msg"
  shows "list_all (\<lambda>t. snd t < 2 ^ 32) (qtys_of P (orders_of msgs))" "\<forall>t \<in> set (qtys_of P (orders_of msgs)). name_of (fst t) = c_string (fst t)"
  using orders_ok [OF assms] by (auto simp: qtys_of_def list_all_iff name_of_def)

lemma add_qty_tags: "fst ` set (add_qty t ts) \<subseteq> insert (fst t) (fst ` set ts)"
  by (induction t ts rule: add_qty.induct) (auto split: if_splits)

lemma fold_add_qty_tags: "fst ` set (fold add_qty qs ts) \<subseteq> fst ` set qs \<union> fst ` set ts"
proof (induction qs arbitrary: ts)
  case (Cons t qs)
  have "fst ` set (fold add_qty (t # qs) ts) \<subseteq> fst ` set qs \<union> fst ` set (add_qty t ts)" using Cons.IH by simp
  then show ?case using add_qty_tags [of t ts] by (auto simp del: fold_simps)
qed simp

lemma leading_trader:
  assumes "\<forall>msg \<in> set msgs. message_ok msg" "by_quantity (fold add_qty (qtys_of P (orders_of msgs)) []) = (a, x) # as"
  shows "quantity (qtys_of P (orders_of msgs)) name mod 2 ^ 32 \<le> quantity (qtys_of P (orders_of msgs)) (c_string a) mod 2 ^ 32"
proof -
  let ?qs = "qtys_of P (orders_of msgs)"
  have "(a, x) \<in> set (fold add_qty ?qs [])" using assms(2) by (metis by_quantity_def list.set_intros(1) set_sort)
  then have "a \<in> fst ` set ?qs" using fold_add_qty_tags [of ?qs "[]"] by force
  then have "name_of a = c_string a" using qtys_ok(2) [OF assms(1), of P] by auto
  then show ?thesis using largest_first(2,3) [OF qtys_ok(1) [OF assms(1)] assms(2)] by simp
qed

text \<open>The trader printed as the most active one has the largest sum of accepted quantities, and the one printed for the
  liquidity the largest sum of good-for-day quantities, where sums are modulo 2^32. Tags are compared up to a zero byte.\<close>

theorem printed_traders_lead:
  assumes "\<forall>msg \<in> set msgs. message_ok msg" "main_orders (concat (map encode msgs)) = Done r"
  shows "quantity (active_qtys msgs) name mod 2 ^ 32 \<le> quantity (active_qtys msgs) (rp_active r) mod 2 ^ 32 \<and>
    quantity (liquid_qtys msgs) name mod 2 ^ 32 \<le> quantity (liquid_qtys msgs) (rp_liquid r) mod 2 ^ 32"
proof -
  have "report_spec msgs = Done r" using assms(2) orders_report [OF assms(1)] by simp
  then obtain a x as b y bs where r: "by_quantity (fold add_qty (active_qtys msgs) []) = (a, x) # as"
    "by_quantity (fold add_qty (liquid_qtys msgs) []) = (b, y) # bs" "rp_active r = c_string a" "rp_liquid r = c_string b"
    by (rule report_spec_Done) (rule that)
  show ?thesis
    using leading_trader [OF assms(1) r(1) [unfolded active_liquid_qtys]] leading_trader [OF assms(1) r(2) [unfolded active_liquid_qtys]]
    by (simp add: r(3,4) active_liquid_qtys)
qed

definition fills_for :: "(nat \<rightharpoonup> byte list) \<Rightarrow> byte list \<Rightarrow> (nat \<times> nat) list \<Rightarrow> (nat \<times> nat) list" where
  "fills_for inss name fs = filter (\<lambda>(i, q). map_option c_string (inss i) = Some name) fs"

lemma trades_spec_total:
  assumes "trades_spec inss fs trades = Done t" "\<forall>(i, q) \<in> set fs. q < 2 ^ 32" "\<forall>v. trades name = Some v \<longrightarrow> v < 2 ^ 64"
  shows "t name = (if fills_for inss name fs = [] then trades name
    else Some (((case trades name of None \<Rightarrow> 0 | Some v \<Rightarrow> v) + sum_list (map snd (fills_for inss name fs))) mod 2 ^ 64))"
  using assms
proof (induction fs arbitrary: trades)
  case (Cons f fs)
  obtain i q where f: "f = (i, q)" by (cases f)
  obtain ins where ins: "inss i = Some ins" using Cons.prems(1) f by (cases "inss i") auto
  let ?new = "case trades (c_string ins) of Some old \<Rightarrow> (old + q) mod 2 ^ 64 | None \<Rightarrow> q"
  have t: "trades_spec inss fs (trades(c_string ins \<mapsto> ?new)) = Done t" using Cons.prems(1) f ins by simp
  have q: "q < 2 ^ 32" using Cons.prems(2) f by simp
  have fs: "\<forall>(i, q) \<in> set fs. q < 2 ^ 32" using Cons.prems(2) by simp
  show ?case
  proof (cases "c_string ins = name")
    case True
    have "\<forall>v. (trades(c_string ins \<mapsto> ?new)) name = Some v \<longrightarrow> v < 2 ^ 64" using q True by (auto split: option.split)
    note ih = Cons.IH [OF t fs this]
    show ?thesis
    proof (cases "trades name")
      case None
      then show ?thesis using ih True f ins q by (auto simp: fills_for_def)
    next
      case (Some v)
      then show ?thesis using ih True f ins by (auto simp: fills_for_def mod_simps add.assoc)
    qed
  next
    case False
    then show ?thesis using Cons.IH [OF t fs] Cons.prems(3) f ins by (simp add: fills_for_def)
  qed
qed (simp add: fills_for_def)

text \<open>For each instrument the program prints the sum, modulo 2^64, of the quantities of the fills whose order id is the
  client id of an order for it (of the last one with that id), and nothing for other instruments.\<close>

theorem printed_trades_total:
  assumes "\<forall>msg \<in> set msgs. message_ok msg" "main_orders (concat (map encode msgs)) = Done r"
  shows "rp_trades r name =
    (let fs = fills_for (instruments_of (orders_of msgs)) name (fills_of msgs)
     in if fs = [] then None else Some (sum_list (map snd fs) mod 2 ^ 64))"
proof -
  have "report_spec msgs = Done r" using assms(2) orders_report [OF assms(1)] by simp
  then have t: "trades_spec (instruments_of (orders_of msgs)) (fills_of msgs) Map.empty = Done (rp_trades r)"
    by (rule report_spec_Done)
  have q: "\<forall>(i, q) \<in> set (fills_of msgs). q < 2 ^ 32"
    using assms(1) by (induction msgs) (auto simp: fills_of_def split: message.splits)
  show ?thesis using trades_spec_total [OF t q, of name] by (simp add: Let_def)
qed

lemma trades_spec_crash:
  "trades_spec inss fs trades = Crash c \<longleftrightarrow> c = Null_deref \<and> (\<exists>f \<in> set fs. inss (fst f) = None)"
  "trades_spec inss fs trades \<noteq> Block"
proof (induction fs arbitrary: trades)
  case (Cons f fs)
  obtain i q where f: "f = (i, q)" by (cases f)
  { case 1 then show ?case using Cons(1) f by (cases "inss i") (auto simp del: fun_upd_apply) }
  { case 2 then show ?case using Cons(2) f by (cases "inss i") (auto simp del: fun_upd_apply) }
qed simp_all

lemma fold_add_qty_Nil: "fold add_qty qs ts = [] \<longleftrightarrow> qs = [] \<and> ts = []"
proof (induction qs arbitrary: ts)
  case (Cons t qs)
  have "add_qty t ts \<noteq> []" by (cases "(t, ts)" rule: add_qty.cases) auto
  then show ?case using Cons by simp
qed simp

lemma by_quantity_Nil: "by_quantity ts = [] \<longleftrightarrow> ts = []"
  by (metis by_quantity_def length_0_conv length_sort)

text \<open>C40: The program crashes on a well-formed file in exactly these cases, each time through a null pointer: a fill names an
  order id that is no order's client id, no order is accepted, or none is good for the day.\<close>

theorem main_orders_crash:
  assumes "\<forall>msg \<in> set msgs. message_ok msg"
  shows "main_orders (concat (map encode msgs)) = Crash c \<longleftrightarrow> c = Null_deref \<and>
    ((\<exists>f \<in> set (fills_of msgs). fst f \<notin> fst ` set (orders_of msgs)) \<or> active_qtys msgs = [] \<or> liquid_qtys msgs = [])"
proof -
  let ?inss = "instruments_of (orders_of msgs)"
  have i: "?inss id = None \<longleftrightarrow> id \<notin> fst ` set (orders_of msgs)" for id
    by (force simp: instruments_of_def map_of_eq_None_iff)
  note t = trades_spec_crash [of ?inss "fills_of msgs" Map.empty]
  have n: "by_quantity (fold add_qty qs []) = [] \<longleftrightarrow> qs = []" for qs by (simp add: by_quantity_Nil fold_add_qty_Nil)
  show ?thesis
  proof (cases "trades_spec ?inss (fills_of msgs) Map.empty")
    case (Done trades)
    then have "\<not> (\<exists>f \<in> set (fills_of msgs). fst f \<notin> fst ` set (orders_of msgs))"
      using t(1) [of Null_deref] i by auto
    moreover have "report_spec msgs = Crash c \<longleftrightarrow> c = Null_deref \<and> (active_qtys msgs = [] \<or> liquid_qtys msgs = [])"
      using Done n [of "active_qtys msgs"] n [of "liquid_qtys msgs"]
      by (auto simp: report_spec_def split: list.splits)
    ultimately show ?thesis unfolding orders_report [OF assms] by blast
  next
    case Block
    then show ?thesis using t(2) by simp
  next
    case (Crash d)
    then have "d = Null_deref" "\<exists>f \<in> set (fills_of msgs). fst f \<notin> fst ` set (orders_of msgs)" using t(1) [of d] i by auto
    then show ?thesis using Crash unfolding orders_report [OF assms] by (auto simp: report_spec_def)
  qed
qed

lemma le_nat_bound: "le_nat bs < 256 ^ length bs"
proof (induction bs)
  case (Cons b bs)
  have "unat b < 256" using unsigned_less [of b, where ?'a = nat] by simp
  then have "unat b + 256 * le_nat bs < 256 * Suc (le_nat bs)" by simp
  also have "\<dots> \<le> 256 * 256 ^ length bs" using Cons by (intro mult_le_mono) simp_all
  finally show ?case by simp
qed simp

subsection \<open>Any file\<close>

definition loaded_ok_for :: "byte list \<Rightarrow> loaded \<Rightarrow> bool" where
  "loaded_ok_for m l \<longleftrightarrow>
     (\<forall>e \<in> set (vEntryMsg l). pEntryMsg e < length m \<and> length (TraderTag e) = 3 \<and> length (Instrument e) = 10 \<and> length (Firm e) \<le> 257) \<and>
     (\<forall>p \<in> set (vAckMsg l). p < length m) \<and>
     (\<forall>f \<in> set (vFillMsg l). pFillMsg f < length m \<and> length (ContrasRptGrp f) < 256 \<and>
        (\<forall>(firm, tag, qty) \<in> set (ContrasRptGrp f). firm < 2 ^ 8 \<and> length tag = 3 \<and> qty < 2 ^ 32))"

lemma loaded_ok_TotalCnt [simp]: "loaded_ok_for m (l\<lparr>TotalCnt := n\<rparr>) = loaded_ok_for m l"
  by (simp add: loaded_ok_for_def)

lemma fetch_length: "fetch m p n = Done bs \<Longrightarrow> length bs = n"
  by (auto simp: fetch_def split: if_splits)

lemma fetch_nat_bound: "fetch_nat m p n = Done v \<Longrightarrow> v < 256 ^ n"
  using le_nat_bound fetch_length by (fastforce simp: fetch_nat_def and_then_Done_iff)

lemma fetch_not_Block [simp]: "fetch m p n \<noteq> Block" "fetch_nat m p n \<noteq> Block"
  by (auto simp: fetch_def fetch_nat_def)

lemma and_then_Block: "and_then a f = Block \<longleftrightarrow> a = Block \<or> (\<exists>x. a = Done x \<and> f x = Block)"
  by (cases a) auto

lemma fill_groups_typed:
  "fill_groups m p n = Done gs \<Longrightarrow>
    length gs = n \<and> (\<forall>(firm, tag, qty) \<in> set gs. firm < 2 ^ 8 \<and> length tag = 3 \<and> qty < 2 ^ 32)"
proof (induction n arbitrary: p gs)
  case (Suc n)
  then obtain firm tag qty gs' where "fetch_nat m p 1 = Done firm" "fetch m (p + 1) 3 = Done tag" "fetch_nat m (p + 4) 4 = Done qty"
      "fill_groups m (p + 8) n = Done gs'" "gs = (firm, tag, qty) # gs'"
    by (auto simp: and_then_Done_iff)
  then show ?case
    using Suc.IH [of "p + 8" gs'] fetch_nat_bound [of m p 1 firm] fetch_nat_bound [of m "p + 4" 4 qty] fetch_length [of m "p + 1" 3 tag]
    by simp
qed simp

lemma load_message_typed:
  assumes "load_message m p l = Done (Some l')" "loaded_ok_for m l" "p < length m"
  shows "loaded_ok_for m l'"
proof -
  obtain t where t: "Header_msg_type m p = Done t" using assms(1) by (auto simp: load_message_def and_then_Done_iff)
  consider (entry) e where "OrderEntryMsgClass m p = Done e" "l' = l\<lparr>vEntryMsg := vEntryMsg l @ [e]\<rparr>"
    | (ack) "l' = l\<lparr>vAckMsg := vAckMsg l @ [p]\<rparr>"
    | (fill) f where "OrderFillMsgClass m p = Done f" "l' = l\<lparr>vFillMsg := vFillMsg l @ [f]\<rparr>"
    using assms(1) t by (auto simp: load_message_def and_then_Done_iff split: if_splits)
  then show ?thesis
  proof cases
    case entry
    then have "pEntryMsg e = p \<and> length (TraderTag e) = 3 \<and> length (Instrument e) = 10 \<and> length (Firm e) \<le> 257"
      by (auto simp: OrderEntryMsgClass_def and_then_Done_iff Let_def dest!: fetch_length split: if_splits)
    then show ?thesis using entry(2) assms(2,3) by (auto simp: loaded_ok_for_def)
  next
    case ack
    then show ?thesis using assms(2,3) by (auto simp: loaded_ok_for_def)
  next
    case fill
    obtain n gs where "fetch_nat m (p + 38) 1 = Done n" "fill_groups m (p + 39) n = Done gs" "f = \<lparr>pFillMsg = p, ContrasRptGrp = gs\<rparr>"
      using fill(1) by (auto simp: OrderFillMsgClass_def and_then_Done_iff)
    then have "pFillMsg f = p" "length (ContrasRptGrp f) < 256"
        "\<forall>(firm, tag, qty) \<in> set (ContrasRptGrp f). firm < 2 ^ 8 \<and> length tag = 3 \<and> qty < 2 ^ 32"
      using fill_groups_typed [of m "p + 39" n gs] fetch_nat_bound [of m "p + 38" 1 n] by auto
    then show ?thesis using fill(2) assms(2,3) by (auto simp: loaded_ok_for_def)
  qed
qed

lemma if_not_Block: "(if b then x else y) = Block \<longleftrightarrow> b \<and> x = Block \<or> \<not> b \<and> y = Block"
  by simp

lemma CalcAddr_not_Block [simp]: "CalcAddr m p \<noteq> Block"
  by (simp add: CalcAddr_def and_then_Block)

lemma fill_groups_not_Block [simp]: "fill_groups m p n \<noteq> Block"
  by (induction n arbitrary: p) (simp_all add: and_then_Block)

lemma entry_not_Block [simp]: "OrderEntryMsgClass m p \<noteq> Block"
  by (simp add: OrderEntryMsgClass_def and_then_Block Let_def if_not_Block)

lemma fill_not_Block [simp]: "OrderFillMsgClass m p \<noteq> Block"
  by (simp add: OrderFillMsgClass_def and_then_Block)

lemma load_message_not_Block: "load_message m p l \<noteq> Block"
  by (simp add: load_message_def and_then_Block Header_msg_type_def if_not_Block)

lemma load_from_typed:
  "loaded_ok_for m l \<Longrightarrow> LoadFile_from m p l \<noteq> Block \<and> (\<forall>b l'. LoadFile_from m p l = Done (b, l') \<longrightarrow> loaded_ok_for m l')"
proof (induction m p l rule: LoadFile_from.induct)
  case (1 m p l)
  show ?case
  proof (cases "p < length m")
    case False
    then show ?thesis using 1(2) by (simp add: LoadFile_from.simps [of m p l])
  next
    case True
    show ?thesis
    proof (cases "load_message m p l")
      case (Done r)
      show ?thesis
      proof (cases r)
        case None
        then show ?thesis using True Done 1(2) by (simp add: LoadFile_from.simps [of m p l])
      next
        case (Some l1)
        have ok: "loaded_ok_for m (l1\<lparr>TotalCnt := n\<rparr>)" for n
          using load_message_typed [OF _ 1(2) True, of l1] Done Some by simp
        show ?thesis
        proof (cases "CalcAddr m p")
          case c: (Done q)
          show ?thesis using 1(1) [OF True Done Some c ok] True Done Some c by (simp add: LoadFile_from.simps [of m p l])
        next
          case Block
          then show ?thesis by simp
        next
          case (Crash c)
          then show ?thesis using True Done Some by (simp add: LoadFile_from.simps [of m p l])
        qed
      qed
    next
      case Block
      then show ?thesis using load_message_not_Block by simp
    next
      case (Crash c)
      then show ?thesis using True by (simp add: LoadFile_from.simps [of m p l])
    qed
  qed
qed


text \<open>A message whose length leaves a firm of more than 257 bytes, or none at all, makes the copy run over the
  end of its array.\<close>

lemma entry_firm_overflow:
  assumes "CalcAddr m p = Done q" "q < p + 66 \<or> p + 66 + 257 < q" "fetch m (p + 54) 3 = Done tag"
  shows "OrderEntryMsgClass m p = Crash Out_of_bounds"
proof -
  obtain bs where bs: "q = p + 22 + le_nat bs" "length bs = 2"
    using assms(1) by (auto simp: CalcAddr_def fetch_nat_def fetch_def and_then_Done_iff split: if_splits)
  then have q: "q < p + 22 + 65536" using le_nat_bound [of bs] by simp
  have ins: "\<exists>ins. fetch m (p + 34) 10 = Done ins" using assms(3) by (simp add: fetch_def split: if_splits)
  define n where "n = u64 (int q - 8 - int (p + 58))"
  have "257 < n"
  proof (cases "q < p + 66")
    case True
    then have "(int q - 8 - int (p + 58)) mod 18446744073709551616 = int q - 8 - int (p + 58) + 18446744073709551616"
      using bs(1) by (intro mod_pos_pos_trivial [THEN trans [OF mod_add_self2 [symmetric]]]) linarith+
    then show ?thesis using bs(1) by (simp add: n_def u64_def)
  next
    case False
    then have "int q - 8 - int (p + 58) = int (q - p - 66)" by simp
    then show ?thesis using False assms(2) q by (simp add: n_def u64_def)
  qed
  then show ?thesis using assms(1,3) ins unfolding OrderEntryMsgClass_def Let_def n_def by auto
qed

text \<open>Quantities are added in 32 bits: two orders of 2^31 leave their trader with nothing.\<close>

lemma quantities_wrap: "fold add_qty [(tag, 2 ^ 31), (tag, 2 ^ 31)] [] = [(tag, 0)]"
  by (simp add: same_tag_def)

definition some_header :: header where
  "some_header = \<lparr>hd_sequence = 1, hd_timestamp = 2, hd_direction = 0\<rparr>"

text \<open>Two orders, both good for the day, an acceptance for one of them and a fill of it.\<close>

definition some_messages :: "message list" where
  "some_messages =
    [Entry some_header 10000 5 (replicate 10 65) 1 7 2 [65, 66, 67] 1 [70],
     Entry some_header 10000 9 (replicate 10 66) 2 8 2 [68, 69, 70] 1 [],
     Ack some_header 1 7 1 0,
     Fill some_header 7 10000 3 [(1, [65, 66, 67], 3)]]"

lemma some_messages_ok: "\<forall>msg \<in> set some_messages. message_ok msg"
  by (simp add: some_messages_def)


lemma some_report: "\<exists>r. main_orders (concat (map encode some_messages)) = Done r"
  unfolding orders_report [OF some_messages_ok]
  by (simp add: report_spec_def some_messages_def orders_of_def answers_of_def fills_of_def active_qtys_def liquid_qtys_def
    accepted_by_def instruments_of_def by_quantity_def same_tag_def c_string_def GOOD_def GFD_def)

theorem printed_traders_lead_witness:
  "\<exists>r. main_orders (concat (map encode some_messages)) = Done r \<and>
    quantity (active_qtys some_messages) [68, 69, 70] mod 2 ^ 32 \<le> quantity (active_qtys some_messages) (rp_active r) mod 2 ^ 32 \<and>
    quantity (liquid_qtys some_messages) [65, 66, 67] mod 2 ^ 32 \<le> quantity (liquid_qtys some_messages) (rp_liquid r) mod 2 ^ 32"
  using some_report printed_traders_lead [OF some_messages_ok] by blast

theorem printed_trades_total_witness:
  "\<exists>r. main_orders (concat (map encode some_messages)) = Done r \<and> rp_trades r (replicate 10 65) = Some 3"
proof -
  obtain r where r: "main_orders (concat (map encode some_messages)) = Done r" using some_report by blast
  have "fills_for (instruments_of (orders_of some_messages)) (replicate 10 65) (fills_of some_messages) = [(7, 3)]"
    by (simp add: fills_for_def instruments_of_def some_messages_def orders_of_def fills_of_def c_string_def)
  with r show ?thesis using printed_trades_total [OF some_messages_ok r, of "replicate 10 65"] by (auto simp: Let_def)
qed

theorem main_orders_crash_witness:
  "main_orders (concat (map encode [Fill some_header 7 10000 3 []])) = Crash Null_deref"
  using main_orders_crash [of "[Fill some_header 7 10000 3 []]" Null_deref] by (simp add: fills_of_def orders_of_def)


end
