(* ===== verification/Net_Device.thy ===== *)
theory Net_Device
  imports Quantum_Store
begin

text \<open>
  The network driver snull (snull/snull.c of Kernel/Driver/ldd3-master): two interfaces, each the other end of
  the wire of the other. A packet comes from the pool of the sender, waits in the receive queue of
  the twin and goes back to the pool of the sender. An operation runs as a whole; the interrupts that a transmission
  raises are part of it.
\<close>

section \<open>State\<close>

definition ETH_DATA_LEN :: nat where "ETH_DATA_LEN = 1500"
definition ETH_ZLEN :: nat where "ETH_ZLEN = 60"
definition SNULL_RX_INTR :: int where "SNULL_RX_INTR = 1"
definition SNULL_TX_INTR :: int where "SNULL_TX_INTR = 2"

record snull_packet =
  pkt_dev :: nat
  pkt_datalen :: nat
  pkt_data :: "cell list"

record net_stats =
  rx_packets :: int
  tx_packets :: int
  rx_bytes :: int
  tx_bytes :: int
  tx_errors :: int
  rx_dropped :: int

text \<open>The private part of a device with the fields of the device that the driver uses: whether the queue is
  stopped, the interface up, a poll scheduled. \<open>received\<close> are the frames handed to the upper levels, the last one
  last.\<close>

record snull_priv =
  stats :: net_stats
  sn_status :: int
  ppool :: "addr list"
  rx_queue :: "addr list"
  rx_int_enabled :: bool
  tx_packetlen :: int
  tx_packetdata :: "byte list"
  priv_skb :: "nat option"
  queue_stopped :: bool
  if_up :: bool
  rx_scheduled :: bool
  dev_addr :: "byte list"
  dev_irq :: int
  base_addr :: int
  mtu :: int
  received :: "cell list list"

record snull =
  snull_devs :: "nat \<Rightarrow> snull_priv"
  packets :: "addr \<Rightarrow> snull_packet"
  live_skbs :: "nat list"
  next_skb :: nat

text \<open>The parameters, and the kernel's checksum of an IP header of so many words.\<close>

record snull_conf =
  use_napi :: bool
  lockup :: int
  ip_fast_csum :: "byte list \<Rightarrow> nat \<Rightarrow> byte \<times> byte"

definition on_dev :: "nat \<Rightarrow> (snull_priv \<Rightarrow> snull_priv) \<Rightarrow> snull \<Rightarrow> snull" where
  "on_dev d f s = s\<lparr>snull_devs := (snull_devs s)(d := f (snull_devs s d))\<rparr>"

section \<open>Buffers\<close>

definition snull_get_tx_buffer :: "nat \<Rightarrow> snull \<Rightarrow> (addr \<times> snull) outcome" where
  "snull_get_tx_buffer d s =
     (case ppool (snull_devs s d) of
        [] \<Rightarrow> Crash Null_deref
      | pkt # pool \<Rightarrow>
          Done (pkt, on_dev d (\<lambda>priv. priv\<lparr>ppool := pool, queue_stopped := queue_stopped priv \<or> pool = []\<rparr>) s))"

definition snull_release_buffer :: "addr \<Rightarrow> snull \<Rightarrow> snull" where
  "snull_release_buffer pkt s =
     on_dev (pkt_dev (packets s pkt)) (\<lambda>priv. priv\<lparr>ppool := pkt # ppool priv,
       queue_stopped := queue_stopped priv \<and> ppool priv \<noteq> []\<rparr>) s"

definition snull_enqueue_buf :: "nat \<Rightarrow> addr \<Rightarrow> snull \<Rightarrow> snull" where
  "snull_enqueue_buf d pkt = on_dev d (\<lambda>priv. priv\<lparr>rx_queue := pkt # rx_queue priv\<rparr>)"

definition snull_dequeue_buf :: "nat \<Rightarrow> snull \<Rightarrow> addr option \<times> snull" where
  "snull_dequeue_buf d s =
     (case rx_queue (snull_devs s d) of
        [] \<Rightarrow> (None, s)
      | pkt # rest \<Rightarrow> (Some pkt, on_dev d (\<lambda>priv. priv\<lparr>rx_queue := rest\<rparr>) s))"

definition snull_rx_ints :: "nat \<Rightarrow> bool \<Rightarrow> snull \<Rightarrow> snull" where
  "snull_rx_ints d enable = on_dev d (\<lambda>priv. priv\<lparr>rx_int_enabled := enable\<rparr>)"

section \<open>Reception\<close>

definition frame_of :: "snull_packet \<Rightarrow> cell list" where
  "frame_of p = take (pkt_datalen p) (pkt_data p)"

text \<open>The copy into a new buffer of the kernel; \<open>ok\<close> says whether it was to be had.\<close>

definition count_rx :: "snull_packet \<Rightarrow> snull_priv \<Rightarrow> snull_priv" where
  "count_rx p priv = priv\<lparr>stats := (stats priv)\<lparr>rx_packets := u64 (rx_packets (stats priv) + 1),
     rx_bytes := u64 (rx_bytes (stats priv) + int (pkt_datalen p))\<rparr>, received := received priv @ [frame_of p]\<rparr>"

definition count_dropped :: "snull_priv \<Rightarrow> snull_priv" where
  "count_dropped priv = priv\<lparr>stats := (stats priv)\<lparr>rx_dropped := u64 (rx_dropped (stats priv) + 1)\<rparr>\<rparr>"

definition snull_rx :: "bool \<Rightarrow> nat \<Rightarrow> addr \<Rightarrow> snull \<Rightarrow> snull" where
  "snull_rx ok d pkt s = on_dev d (if ok then count_rx (packets s pkt) else count_dropped) s"

text \<open>The loop of the poll: \<open>ok i\<close> answers the \<open>i\<close>-th request for a buffer.\<close>

function poll_loop :: "(nat \<Rightarrow> bool) \<Rightarrow> nat \<Rightarrow> nat \<Rightarrow> int \<Rightarrow> int \<Rightarrow> snull \<Rightarrow> int \<times> snull" where
  "poll_loop ok i d npackets quota s =
     (if npackets < quota
      then case rx_queue (snull_devs s d) of
             [] \<Rightarrow> (npackets, s)
           | pkt # rest \<Rightarrow>
               let s = snd (snull_dequeue_buf d s) in
               if ok i
               then poll_loop ok (Suc i) d (npackets + 1) quota (snull_release_buffer pkt (snull_rx True d pkt s))
               else poll_loop ok (Suc i) d npackets quota (snull_release_buffer pkt (snull_rx False d pkt s))
      else (npackets, s))"
  by pat_completeness auto
termination
  by (relation "measure (\<lambda>(ok, i, d, npackets, quota, s). length (rx_queue (snull_devs s d)))")
    (auto simp: snull_dequeue_buf_def snull_release_buffer_def snull_rx_def on_dev_def count_rx_def count_dropped_def)

declare poll_loop.simps [simp del]

text \<open>The result: whether packets are left, and how many were taken from the budget and the quota.\<close>

definition snull_poll :: "(nat \<Rightarrow> bool) \<Rightarrow> nat \<Rightarrow> int \<Rightarrow> int \<Rightarrow> snull \<Rightarrow> bool \<times> int \<times> snull" where
  "snull_poll ok d dev_quota budget s =
     (case poll_loop ok 0 d 0 (min dev_quota budget) s of
        (npackets, s) \<Rightarrow>
          if rx_queue (snull_devs s d) = []
          then (False, npackets, snull_rx_ints d True (on_dev d (\<lambda>priv. priv\<lparr>rx_scheduled := False\<rparr>) s))
          else (True, npackets, s))"

section \<open>Interrupts\<close>

definition dev_kfree_skb :: "nat option \<Rightarrow> snull \<Rightarrow> snull outcome" where
  "dev_kfree_skb skb s =
     (case skb of
        None \<Rightarrow> Done s
      | Some a \<Rightarrow> if a \<in> set (live_skbs s) then Done (s\<lparr>live_skbs := remove1 a (live_skbs s)\<rparr>) else Crash Bad_free)"

definition tx_done :: "nat \<Rightarrow> snull \<Rightarrow> snull outcome" where
  "tx_done d s =
     dev_kfree_skb (priv_skb (snull_devs s d))
       (on_dev d (\<lambda>priv. priv\<lparr>stats := (stats priv)\<lparr>tx_packets := u64 (tx_packets (stats priv) + 1),
          tx_bytes := u64 (tx_bytes (stats priv) + tx_packetlen priv)\<rparr>\<rparr>) s)"

definition snull_regular_interrupt :: "bool \<Rightarrow> nat \<Rightarrow> snull \<Rightarrow> snull outcome" where
  "snull_regular_interrupt ok d s =
     (let statusword = sn_status (snull_devs s d);
          s = on_dev d (\<lambda>priv. priv\<lparr>sn_status := 0\<rparr>) s;
          pkt = (if and statusword SNULL_RX_INTR \<noteq> 0 then fst (snull_dequeue_buf d s) else None);
          s = (case pkt of None \<Rightarrow> s | Some pkt \<Rightarrow> snull_rx ok d pkt (snd (snull_dequeue_buf d s)))
      in and_then (if and statusword SNULL_TX_INTR \<noteq> 0 then tx_done d s else Done s) (\<lambda>s.
           Done (case pkt of None \<Rightarrow> s | Some pkt \<Rightarrow> snull_release_buffer pkt s)))"

definition snull_napi_interrupt :: "nat \<Rightarrow> snull \<Rightarrow> snull outcome" where
  "snull_napi_interrupt d s =
     (let statusword = sn_status (snull_devs s d);
          s = on_dev d (\<lambda>priv. priv\<lparr>sn_status := 0\<rparr>) s;
          s = (if and statusword SNULL_RX_INTR \<noteq> 0
               then on_dev d (\<lambda>priv. priv\<lparr>rx_scheduled := True\<rparr>) (snull_rx_ints d False s) else s)
      in if and statusword SNULL_TX_INTR \<noteq> 0 then tx_done d s else Done s)"

definition snull_interrupt :: "snull_conf \<Rightarrow> bool \<Rightarrow> nat \<Rightarrow> snull \<Rightarrow> snull outcome" where
  "snull_interrupt conf ok d s = (if use_napi conf then snull_napi_interrupt d s else snull_regular_interrupt ok d s)"

section \<open>Transmission\<close>

text \<open>The frame as the twin gets it: the third bytes of both addresses toggled, the checksum made again.\<close>

definition rewrite_addresses :: "snull_conf \<Rightarrow> byte list \<Rightarrow> byte list" where
  "rewrite_addresses conf buf =
     (let buf = buf[28 := xor (buf ! 28) 1];
          buf = buf[32 := xor (buf ! 32) 1];
          buf = buf[24 := 0, 25 := 0]
      in case ip_fast_csum conf (drop 14 buf) (unat (and (buf ! 14) 15)) of (c0, c1) \<Rightarrow> buf[24 := c0, 25 := c1])"

definition snull_hw_tx :: "snull_conf \<Rightarrow> bool \<Rightarrow> byte list \<Rightarrow> nat \<Rightarrow> snull \<Rightarrow> snull outcome" where
  "snull_hw_tx conf ok buf d s =
     (if length buf < 14 + 20 then Done s
      else
        let buf = rewrite_addresses conf buf;
            dest = (if d = 0 then 1 else 0)
        in and_then (snull_get_tx_buffer d s) (\<lambda>(tx_buffer, s).
           and_then (store_cells (pkt_data (packets s tx_buffer)) 0 (map Some buf)) (\<lambda>data.
             let s = s\<lparr>packets := (packets s)(tx_buffer := (packets s tx_buffer)\<lparr>pkt_datalen := length buf, pkt_data := data\<rparr>)\<rparr>;
                 s = snull_enqueue_buf dest tx_buffer s
             in and_then (if rx_int_enabled (snull_devs s dest)
                          then snull_interrupt conf ok dest
                            (on_dev dest (\<lambda>priv. priv\<lparr>sn_status := or (sn_status priv) SNULL_RX_INTR\<rparr>) s)
                          else Done s) (\<lambda>s.
                  let s = on_dev d (\<lambda>priv. priv\<lparr>tx_packetlen := int (length buf), tx_packetdata := buf,
                        sn_status := or (sn_status priv) SNULL_TX_INTR\<rparr>) s
                  in if lockup conf \<noteq> 0 \<and> u64 (tx_packets (stats (snull_devs s d)) + 1) mod u64 (lockup conf) = 0
                     then Done (on_dev d (\<lambda>priv. priv\<lparr>queue_stopped := True\<rparr>) s)
                     else snull_interrupt conf ok d s))))"

definition snull_tx :: "snull_conf \<Rightarrow> bool \<Rightarrow> nat \<Rightarrow> byte list \<Rightarrow> nat \<Rightarrow> snull \<Rightarrow> snull outcome" where
  "snull_tx conf ok skb frame d s =
     snull_hw_tx conf ok (if length frame < ETH_ZLEN then frame @ replicate (ETH_ZLEN - length frame) 0 else frame) d
       (on_dev d (\<lambda>priv. priv\<lparr>priv_skb := Some skb\<rparr>) s)"

definition snull_tx_timeout :: "snull_conf \<Rightarrow> bool \<Rightarrow> nat \<Rightarrow> snull \<Rightarrow> snull outcome" where
  "snull_tx_timeout conf ok d s =
     and_then (snull_interrupt conf ok d (on_dev d (\<lambda>priv. priv\<lparr>sn_status := SNULL_TX_INTR\<rparr>) s)) (\<lambda>s.
       Done (on_dev d (\<lambda>priv. priv\<lparr>stats := (stats priv)\<lparr>tx_errors := u64 (tx_errors (stats priv) + 1)\<rparr>, queue_stopped := False\<rparr>) s))"

section \<open>Configuration\<close>

definition snull_hw_address :: "byte list" where
  "snull_hw_address = [0, 83, 78, 85, 76, 48]"

definition snull_open :: "nat \<Rightarrow> snull \<Rightarrow> snull" where
  "snull_open d = on_dev d (\<lambda>priv. priv\<lparr>dev_addr := if d = 1 then snull_hw_address[5 := snull_hw_address ! 5 + 1] else snull_hw_address,
     queue_stopped := False\<rparr>)"

definition snull_release :: "nat \<Rightarrow> snull \<Rightarrow> snull" where
  "snull_release d = on_dev d (\<lambda>priv. priv\<lparr>queue_stopped := True\<rparr>)"

definition snull_config :: "nat \<Rightarrow> int \<Rightarrow> int \<Rightarrow> snull \<Rightarrow> (errno + int) \<times> snull" where
  "snull_config d map_base map_irq s =
     (if if_up (snull_devs s d) then (Inl EBUSY, s)
      else if map_base \<noteq> base_addr (snull_devs s d) then (Inl EOPNOTSUPP, s)
      else (Inr 0, if map_irq \<noteq> dev_irq (snull_devs s d) then on_dev d (\<lambda>priv. priv\<lparr>dev_irq := map_irq\<rparr>) s else s))"

definition snull_change_mtu :: "nat \<Rightarrow> int \<Rightarrow> snull \<Rightarrow> (errno + int) \<times> snull" where
  "snull_change_mtu d new_mtu s =
     (if new_mtu < 68 \<or> new_mtu > 1500 then (Inl EINVAL, s)
      else (Inr 0, on_dev d (\<lambda>priv. priv\<lparr>mtu := new_mtu\<rparr>) s))"

text \<open>The link header: destination, source and type. The destination is the twin of the address that is given or
  of the own one.\<close>

definition toggle_last :: "byte list \<Rightarrow> byte list" where
  "toggle_last a = a[5 := xor (a ! 5) 1]"

definition snull_header :: "nat \<Rightarrow> nat \<Rightarrow> byte list option \<Rightarrow> byte list option \<Rightarrow> byte list \<Rightarrow> snull \<Rightarrow> byte list" where
  "snull_header d type daddr saddr body s =
     (let own = dev_addr (snull_devs s d);
          source = (case saddr of Some a \<Rightarrow> take 6 a | None \<Rightarrow> own);
          dest = (case daddr of Some a \<Rightarrow> take 6 a | None \<Rightarrow> own)
      in toggle_last dest @ source @ [word_of_nat (type div 256), word_of_nat type] @ body)"

definition snull_rebuild_header :: "nat \<Rightarrow> byte list \<Rightarrow> snull \<Rightarrow> byte list" where
  "snull_rebuild_header d frame s =
     (let own = dev_addr (snull_devs s d) in toggle_last own @ own @ drop 12 frame)"

text \<open>The driver has no commands of its own; the statistics are those it counts.\<close>

definition snull_ioctl :: "nat \<Rightarrow> int \<Rightarrow> int" where
  "snull_ioctl d cmd = 0"

definition snull_stats :: "nat \<Rightarrow> snull \<Rightarrow> net_stats" where
  "snull_stats d s = stats (snull_devs s d)"

section \<open>Loading and unloading\<close>

text \<open>A packet takes 1520 bytes. An allocation that fails ends the loop, with the packets that there are.\<close>

primrec setup_loop :: "nat \<Rightarrow> nat \<Rightarrow> snull \<Rightarrow> kmem \<Rightarrow> snull \<times> kmem" where
  "setup_loop d 0 s k = (s, k)"
| "setup_loop d (Suc n) s k =
     (case kmalloc 1520 k of
        (None, k) \<Rightarrow> (s, k)
      | (Some pkt, k) \<Rightarrow>
          setup_loop d n
            (on_dev d (\<lambda>priv. priv\<lparr>ppool := pkt # ppool priv\<rparr>)
              (s\<lparr>packets := (packets s)(pkt := (packets s pkt)\<lparr>pkt_dev := d, pkt_data := replicate ETH_DATA_LEN None\<rparr>)\<rparr>)) k)"

definition snull_setup_pool :: "int \<Rightarrow> nat \<Rightarrow> snull \<Rightarrow> kmem \<Rightarrow> snull \<times> kmem" where
  "snull_setup_pool pool_size d s k = setup_loop d (nat pool_size) (on_dev d (\<lambda>priv. priv\<lparr>ppool := []\<rparr>) s) k"

definition snull_teardown_pool :: "nat \<Rightarrow> snull \<Rightarrow> kmem \<Rightarrow> (snull \<times> kmem) outcome" where
  "snull_teardown_pool d s k =
     and_then (kfree_all (ppool (snull_devs s d)) k) (\<lambda>k. Done (on_dev d (\<lambda>priv. priv\<lparr>ppool := []\<rparr>) s, k))"

definition no_stats :: net_stats where
  "no_stats = \<lparr>rx_packets = 0, tx_packets = 0, rx_bytes = 0, tx_bytes = 0, tx_errors = 0, rx_dropped = 0\<rparr>"

definition snull_init :: "int \<Rightarrow> nat \<Rightarrow> snull \<Rightarrow> kmem \<Rightarrow> snull \<times> kmem" where
  "snull_init pool_size d s k =
     snull_setup_pool pool_size d
       (snull_rx_ints d True
         (on_dev d (\<lambda>priv. priv\<lparr>mtu := 1500, stats := no_stats, sn_status := 0, ppool := [], rx_queue := [],
            rx_int_enabled := False, tx_packetlen := 0, tx_packetdata := [], priv_skb := None\<rparr>) s)) k"

text \<open>The module: the two devices as the kernel allocates them, and which are registered. The kernel allocates
  a device with its private part, \<open>netdev_bytes\<close>, and calls the driver's initialisation then; \<open>register_ok\<close> answers the
  registrations. Unregistering a device that is not registered only gives a message.\<close>

record snull_module =
  sm_net :: snull
  sm_alloc :: "nat \<Rightarrow> addr option"
  sm_registered :: "nat set"

record snull_env =
  netdev_bytes :: int
  register_ok :: "nat \<Rightarrow> bool"
  env_pool_size :: int

definition alloc_snull :: "snull_env \<Rightarrow> nat \<Rightarrow> snull_module \<Rightarrow> kmem \<Rightarrow> snull_module \<times> kmem" where
  "alloc_snull env i md k =
     (case kmalloc (netdev_bytes env) k of
        (None, k) \<Rightarrow> (md\<lparr>sm_alloc := (sm_alloc md)(i := None)\<rparr>, k)
      | (Some a, k) \<Rightarrow>
          (case snull_init (env_pool_size env) i (sm_net md) k of
             (s, k) \<Rightarrow> (md\<lparr>sm_net := s, sm_alloc := (sm_alloc md)(i := Some a)\<rparr>, k)))"

definition cleanup_one :: "nat \<Rightarrow> snull_module \<Rightarrow> kmem \<Rightarrow> (snull_module \<times> kmem) outcome" where
  "cleanup_one i md k =
     (case sm_alloc md i of
        None \<Rightarrow> Done (md, k)
      | Some a \<Rightarrow>
          and_then (snull_teardown_pool i (sm_net md) k) (\<lambda>(s, k).
            and_then (kfree a k) (\<lambda>k. Done (md\<lparr>sm_net := s, sm_registered := sm_registered md - {i}\<rparr>, k))))"

definition snull_cleanup :: "snull_module \<Rightarrow> kmem \<Rightarrow> (snull_module \<times> kmem) outcome" where
  "snull_cleanup md k = and_then (cleanup_one 0 md k) (\<lambda>(md, k). cleanup_one 1 md k)"

definition snull_init_module ::
    "snull_env \<Rightarrow> snull_module \<Rightarrow> kmem \<Rightarrow> ((errno + int) \<times> snull_module \<times> kmem) outcome" where
  "snull_init_module env md k =
     (case alloc_snull env 0 md k of
        (md, k) \<Rightarrow> (case alloc_snull env 1 md k of
          (md, k) \<Rightarrow>
            let registered = set (filter (register_ok env) [0, 1]);
                fail = (\<lambda>e. and_then (snull_cleanup md k) (\<lambda>(md, k). Done (Inl e, md, k)))
            in if sm_alloc md 0 = None \<or> sm_alloc md 1 = None then fail ENOMEM
               else if registered = {} then fail ENODEV
               else Done (Inr 0, md\<lparr>sm_registered := registered\<rparr>, k)))"

section \<open>Events\<close>

text \<open>What happens to the driver: the kernel sends a frame, polls, finds a transmission late, opens or closes an interface.
  A new buffer of the kernel carries the frame. The kernel transmits only on an interface that is up and not
  stopped, polls only when a poll is scheduled and watches only interfaces that are up and stopped.\<close>

datatype snull_event =
    Ev_tx nat "byte list" bool
  | Ev_poll nat "nat \<Rightarrow> bool" int int
  | Ev_timeout nat bool
  | Ev_open nat
  | Ev_release nat

fun event_enabled :: "snull_event \<Rightarrow> snull \<Rightarrow> bool" where
  "event_enabled (Ev_tx d frame ok) s \<longleftrightarrow> d < 2 \<and> if_up (snull_devs s d) \<and> \<not> queue_stopped (snull_devs s d)"
| "event_enabled (Ev_poll d ok quota budget) s \<longleftrightarrow> d < 2 \<and> rx_scheduled (snull_devs s d)"
| "event_enabled (Ev_timeout d ok) s \<longleftrightarrow> d < 2 \<and> if_up (snull_devs s d) \<and> queue_stopped (snull_devs s d)"
| "event_enabled (Ev_open d) s \<longleftrightarrow> d < 2 \<and> \<not> if_up (snull_devs s d)"
| "event_enabled (Ev_release d) s \<longleftrightarrow> d < 2 \<and> if_up (snull_devs s d)"

fun do_event :: "snull_conf \<Rightarrow> snull_event \<Rightarrow> snull \<Rightarrow> snull outcome" where
  "do_event conf (Ev_tx d frame ok) s =
     snull_tx conf ok (next_skb s) frame d (s\<lparr>live_skbs := next_skb s # live_skbs s, next_skb := Suc (next_skb s)\<rparr>)"
| "do_event conf (Ev_poll d ok quota budget) s = Done (snd (snd (snull_poll ok d quota budget s)))"
| "do_event conf (Ev_timeout d ok) s = snull_tx_timeout conf ok d s"
| "do_event conf (Ev_open d) s = Done (on_dev d (\<lambda>priv. priv\<lparr>if_up := True\<rparr>) (snull_open d s))"
| "do_event conf (Ev_release d) s = Done (on_dev d (\<lambda>priv. priv\<lparr>if_up := False\<rparr>) (snull_release d s))"

fun do_events :: "snull_conf \<Rightarrow> snull_event list \<Rightarrow> snull \<Rightarrow> snull outcome" where
  "do_events conf [] s = Done s"
| "do_events conf (e # es) s = and_then (do_event conf e s) (do_events conf es)"

section \<open>The effect of the operations\<close>

definition twin :: "nat \<Rightarrow> nat" where "twin d = (if d = 0 then 1 else 0)"

lemma twin_less [simp]: "twin d < 2"
  by (simp add: twin_def)

lemma twin_neq [simp]: "d < 2 \<Longrightarrow> twin d \<noteq> d" "d < 2 \<Longrightarrow> d \<noteq> twin d"
  by (auto simp: twin_def)

lemma twin_twin [simp]: "d < 2 \<Longrightarrow> twin (twin d) = d"
  by (auto simp: twin_def)

lemma snull_devs_on_dev [simp]:
  "snull_devs (on_dev d f s) e = (if e = d then f (snull_devs s d) else snull_devs s e)"
  by (simp add: on_dev_def)

lemma on_dev_simps [simp]:
  "packets (on_dev d f s) = packets s" "live_skbs (on_dev d f s) = live_skbs s" "next_skb (on_dev d f s) = next_skb s"
  by (simp_all add: on_dev_def)

lemma intr_bits [simp]: "and SNULL_TX_INTR SNULL_RX_INTR = 0" "and SNULL_RX_INTR SNULL_TX_INTR = 0"
    "SNULL_TX_INTR \<noteq> 0" "SNULL_RX_INTR \<noteq> 0"
  by (simp_all add: SNULL_RX_INTR_def SNULL_TX_INTR_def)

lemma store_prefix:
  "store_cells cs 0 new = (if length new \<le> length cs then Done (new @ drop (length new) cs) else Crash Out_of_bounds)"
  by (simp add: store_cells_def)

definition padded_frame :: "byte list \<Rightarrow> byte list" where
  "padded_frame frame = frame @ replicate (ETH_ZLEN - length frame) 0"

lemma length_padded_frame: "length (padded_frame frame) = max ETH_ZLEN (length frame)"
  by (auto simp: padded_frame_def)

lemma length_rewrite [simp]: "length (rewrite_addresses conf buf) = length buf"
  by (simp add: rewrite_addresses_def Let_def split: prod.split)

lemma snull_tx_padded:
  "snull_tx conf ok skb frame d s = snull_hw_tx conf ok (padded_frame frame) d (on_dev d (\<lambda>priv. priv\<lparr>priv_skb := Some skb\<rparr>) s)"
  by (auto simp: snull_tx_def padded_frame_def)

text \<open>A frame that comes to \<open>snull_hw_tx\<close> from \<open>snull_tx\<close> is never too short.\<close>

lemma padded_long [simp]: "length (padded_frame frame) < 34 \<longleftrightarrow> False"
  by (auto simp: ETH_ZLEN_def length_padded_frame)

definition wire :: "snull_conf \<Rightarrow> byte list \<Rightarrow> cell list" where
  "wire conf frame = map Some (rewrite_addresses conf (padded_frame frame))"

lemma length_wire [simp]: "length (wire conf frame) = length (padded_frame frame)"
  by (simp add: wire_def)

text \<open>The packet as \<open>snull_hw_tx\<close> fills it.\<close>

definition filled_packet :: "snull_conf \<Rightarrow> byte list \<Rightarrow> snull_packet \<Rightarrow> snull_packet" where
  "filled_packet conf frame p = p\<lparr>pkt_datalen := length (padded_frame frame),
     pkt_data := wire conf frame @ drop (length (padded_frame frame)) (pkt_data p)\<rparr>"

lemma filled_simps [simp]:
  "pkt_dev (filled_packet conf frame p) = pkt_dev p" "frame_of (filled_packet conf frame p) = wire conf frame"
  "pkt_datalen (filled_packet conf frame p) = length (padded_frame frame)"
  "length (padded_frame frame) \<le> length (pkt_data p) \<Longrightarrow> length (pkt_data (filled_packet conf frame p)) = length (pkt_data p)"
  by (auto simp: filled_packet_def frame_of_def)

text \<open>A transmission in three parts: the packet into the queue of the twin, the interrupt there, the interrupt here.\<close>

definition send_packet :: "snull_conf \<Rightarrow> nat \<Rightarrow> byte list \<Rightarrow> nat \<Rightarrow> addr \<Rightarrow> addr list \<Rightarrow> snull \<Rightarrow> snull" where
  "send_packet conf skb frame d p ps s =
     snull_enqueue_buf (twin d) p
       (on_dev d (\<lambda>priv. priv\<lparr>priv_skb := Some skb, ppool := ps, queue_stopped := queue_stopped priv \<or> ps = []\<rparr>)
          (s\<lparr>packets := (packets s)(p := filled_packet conf frame (packets s p))\<rparr>))"

definition signal_rx :: "snull_conf \<Rightarrow> bool \<Rightarrow> nat \<Rightarrow> snull \<Rightarrow> snull outcome" where
  "signal_rx conf ok e s =
     (if rx_int_enabled (snull_devs s e)
      then snull_interrupt conf ok e (on_dev e (\<lambda>priv. priv\<lparr>sn_status := or (sn_status priv) SNULL_RX_INTR\<rparr>) s)
      else Done s)"

definition signal_tx :: "snull_conf \<Rightarrow> bool \<Rightarrow> byte list \<Rightarrow> nat \<Rightarrow> snull \<Rightarrow> snull outcome" where
  "signal_tx conf ok frame d s =
     (let buf = rewrite_addresses conf (padded_frame frame);
          s = on_dev d (\<lambda>priv. priv\<lparr>tx_packetlen := int (length buf), tx_packetdata := buf,
                sn_status := or (sn_status priv) SNULL_TX_INTR\<rparr>) s
      in if lockup conf \<noteq> 0 \<and> u64 (tx_packets (stats (snull_devs s d)) + 1) mod u64 (lockup conf) = 0
         then Done (on_dev d (\<lambda>priv. priv\<lparr>queue_stopped := True\<rparr>) s)
         else snull_interrupt conf ok d s)"

lemma on_dev_twice: "on_dev d f (on_dev d g s) = on_dev d (\<lambda>x. f (g x)) s"
  by (simp add: on_dev_def)

lemma on_dev_packets: "(on_dev d f s)\<lparr>packets := ps\<rparr> = on_dev d f (s\<lparr>packets := ps\<rparr>)"
  by (simp add: on_dev_def)

lemma tx_fits:
  assumes "ppool (snull_devs s d) = p # ps" "length (padded_frame frame) \<le> length (pkt_data (packets s p))"
  shows "snull_tx conf ok skb frame d s =
    and_then (signal_rx conf ok (twin d) (send_packet conf skb frame d p ps s)) (signal_tx conf ok frame d)"
proof -
  have "snull_enqueue_buf (if d = 0 then 1 else 0) p
      ((on_dev d (\<lambda>priv. priv\<lparr>ppool := ps, queue_stopped := queue_stopped priv \<or> ps = []\<rparr>)
         (on_dev d (\<lambda>priv. priv\<lparr>priv_skb := Some skb\<rparr>) s))
       \<lparr>packets := (packets s)(p := (packets s p)\<lparr>pkt_datalen := length (padded_frame frame),
          pkt_data := map Some (rewrite_addresses conf (padded_frame frame)) @ drop (length (padded_frame frame)) (pkt_data (packets s p))\<rparr>)\<rparr>)
    = send_packet conf skb frame d p ps s"
    unfolding on_dev_twice on_dev_packets by (simp add: send_packet_def twin_def filled_packet_def wire_def)
  with assms show ?thesis
    unfolding snull_tx_padded snull_hw_tx_def signal_rx_def signal_tx_def [abs_def] Let_def
    by (simp add: snull_get_tx_buffer_def store_prefix twin_def del: on_dev_def)
qed

lemma tx_overrun:
  assumes "ppool (snull_devs s d) = p # ps" "length (pkt_data (packets s p)) < length (padded_frame frame)"
  shows "snull_tx conf ok skb frame d s = Crash Out_of_bounds"
  using assms
  by (simp add: snull_tx_padded snull_hw_tx_def Let_def snull_get_tx_buffer_def store_prefix)

lemma tx_empty:
  assumes "ppool (snull_devs s d) = []"
  shows "snull_tx conf ok skb frame d s = Crash Null_deref"
  using assms by (simp add: snull_tx_padded snull_hw_tx_def Let_def snull_get_tx_buffer_def)

lemma on_dev_cong: "f (snull_devs s d) = g (snull_devs s d) \<Longrightarrow> on_dev d f s = on_dev d g s"
  by (simp add: on_dev_def)

lemma on_dev_id: "f (snull_devs s d) = snull_devs s d \<Longrightarrow> on_dev d f s = s"
  by (simp add: on_dev_def)

lemma no_status [simp]: "sn_status priv = 0 \<Longrightarrow> priv\<lparr>sn_status := 0\<rparr> = priv"
  by simp

lemma signal_rx_napi:
  assumes "use_napi conf" "sn_status (snull_devs s e) = 0" "rx_int_enabled (snull_devs s e) \<longleftrightarrow> \<not> rx_scheduled (snull_devs s e)"
  shows "signal_rx conf ok e s = Done (on_dev e (\<lambda>priv. priv\<lparr>rx_int_enabled := False, rx_scheduled := True\<rparr>) s)"
proof (cases "rx_scheduled (snull_devs s e)")
  case True
  then have "on_dev e (\<lambda>priv. priv\<lparr>rx_int_enabled := False, rx_scheduled := True\<rparr>) s = s"
    using assms by (intro on_dev_id snull_priv.equality) simp_all
  with True assms show ?thesis
    by (simp add: signal_rx_def)
next
  case False
  with assms show ?thesis
    by (simp add: signal_rx_def snull_interrupt_def snull_napi_interrupt_def snull_rx_ints_def Let_def on_dev_twice)
      (intro on_dev_cong snull_priv.equality, simp_all)
qed

lemma signal_rx_regular:
  assumes "\<not> use_napi conf" "sn_status (snull_devs s e) = 0" "rx_int_enabled (snull_devs s e)" "rx_queue (snull_devs s e) = p # q"
  shows "signal_rx conf ok e s = Done (snull_release_buffer p
    (on_dev e (\<lambda>priv. (if ok then count_rx (packets s p) else count_dropped) (priv\<lparr>rx_queue := q\<rparr>)) s))"
proof -
  have "(snull_devs s e)\<lparr>sn_status := 0, rx_queue := q\<rparr> = (snull_devs s e)\<lparr>rx_queue := q\<rparr>"
    using assms(2) by (intro snull_priv.equality) simp_all
  with assms show ?thesis
    by (simp add: signal_rx_def snull_interrupt_def snull_regular_interrupt_def Let_def on_dev_twice snull_dequeue_buf_def snull_rx_def)
      (auto intro!: arg_cong [of _ _ "snull_release_buffer p"] on_dev_cong)
qed

definition count_tx :: "int \<Rightarrow> net_stats \<Rightarrow> net_stats" where
  "count_tx n st = st\<lparr>tx_packets := u64 (tx_packets st + 1), tx_bytes := u64 (tx_bytes st + n)\<rparr>"

lemma tx_done_sent:
  assumes "priv_skb (snull_devs s d) = Some a" "a \<in> set (live_skbs s)"
  shows "tx_done d s = Done ((on_dev d (\<lambda>priv. priv\<lparr>stats := count_tx (tx_packetlen priv) (stats priv)\<rparr>) s)
       \<lparr>live_skbs := remove1 a (live_skbs s)\<rparr>)"
  using assms by (simp add: tx_done_def dev_kfree_skb_def count_tx_def)

lemma and_then_Done [simp]: "and_then m Done = m"
  by (cases m) auto

lemma tx_interrupt:
  assumes "sn_status (snull_devs s d) = SNULL_TX_INTR"
  shows "snull_interrupt conf ok d s = tx_done d (on_dev d (\<lambda>priv. priv\<lparr>sn_status := 0\<rparr>) s)"
  using assms by (simp add: snull_interrupt_def snull_napi_interrupt_def snull_regular_interrupt_def)

lemma signal_tx_sent:
  assumes "lockup conf = 0" "sn_status (snull_devs s d) = 0" "priv_skb (snull_devs s d) = Some a" "a \<in> set (live_skbs s)"
  shows "signal_tx conf ok frame d s = Done ((on_dev d (\<lambda>priv. priv\<lparr>tx_packetlen := int (length (padded_frame frame)),
     tx_packetdata := rewrite_addresses conf (padded_frame frame), stats := count_tx (int (length (padded_frame frame))) (stats priv)\<rparr>) s)
       \<lparr>live_skbs := remove1 a (live_skbs s)\<rparr>)"
  using assms
  by (simp add: signal_tx_def tx_interrupt tx_done_sent on_dev_twice)
    (intro arg_cong [of _ _ "\<lambda>s. live_skbs_update _ s"] on_dev_cong snull_priv.equality, simp_all)

section \<open>Packet conservation\<close>

text \<open>Every packet of a device is in its pool or in the receive queue of its twin, and no buffer
  of the kernel is left with the driver between two events.\<close>

definition port_inv :: "snull_conf \<Rightarrow> addr list \<Rightarrow> nat \<Rightarrow> snull \<Rightarrow> bool" where
  "port_inv conf pk d s \<longleftrightarrow> (let priv = snull_devs s d in
     distinct pk \<and> mset (ppool priv) + mset (rx_queue (snull_devs s (twin d))) = mset pk \<and>
     list_all (\<lambda>p. pkt_dev (packets s p) = d \<and> length (pkt_data (packets s p)) = ETH_DATA_LEN) pk \<and>
     sn_status priv = 0 \<and> (rx_int_enabled priv \<longleftrightarrow> \<not> rx_scheduled priv) \<and>
     (rx_queue priv \<noteq> [] \<longrightarrow> rx_scheduled priv) \<and> (rx_scheduled priv \<longrightarrow> use_napi conf) \<and>
     (if_up priv \<longrightarrow> (queue_stopped priv \<longleftrightarrow> ppool priv = [])) \<and>
     (rx_queue (snull_devs s (twin d)) \<noteq> [] \<longrightarrow> priv_skb priv \<noteq> None) \<and> (if_up priv \<longrightarrow> pk \<noteq> []))"

definition snull_inv :: "snull_conf \<Rightarrow> (nat \<Rightarrow> addr list) \<Rightarrow> snull \<Rightarrow> bool" where
  "snull_inv conf pks s \<longleftrightarrow> port_inv conf (pks 0) 0 s \<and> port_inv conf (pks 1) 1 s \<and> live_skbs s = []"

lemma snull_inv_port: "snull_inv conf pks s \<Longrightarrow> d < 2 \<Longrightarrow> port_inv conf (pks d) d s"
  by (auto simp: snull_inv_def less_2_cases_iff)

lemma snull_invI:
  assumes "d < 2" "port_inv conf (pks d) d s" "port_inv conf (pks (twin d)) (twin d) s" "live_skbs s = []"
  shows "snull_inv conf pks s"
  using assms by (auto simp: snull_inv_def less_2_cases_iff twin_def)

text \<open>The events that the driver is made for: no frame above 1500 bytes, no timeout, and no opening with an empty pool.\<close>

fun event_safe :: "snull_event \<Rightarrow> snull \<Rightarrow> bool" where
  "event_safe (Ev_tx d frame ok) s \<longleftrightarrow> length frame \<le> ETH_DATA_LEN"
| "event_safe (Ev_poll d ok quota budget) s \<longleftrightarrow> True"
| "event_safe (Ev_timeout d ok) s \<longleftrightarrow> False"
| "event_safe (Ev_open d) s \<longleftrightarrow> ppool (snull_devs s d) \<noteq> []"
| "event_safe (Ev_release d) s \<longleftrightarrow> True"

lemma port_inv_pool:
  assumes "port_inv conf pk d s" "ppool (snull_devs s d) = p # ps"
  shows "p \<in> set pk" "pkt_dev (packets s p) = d" "length (pkt_data (packets s p)) = ETH_DATA_LEN"
proof -
  have "mset (ppool (snull_devs s d)) + mset (rx_queue (snull_devs s (twin d))) = mset pk"
    using assms(1) by (simp add: port_inv_def Let_def)
  from arg_cong [OF this, of set_mset] show "p \<in> set pk"
    using assms(2) by auto
  then show "pkt_dev (packets s p) = d" "length (pkt_data (packets s p)) = ETH_DATA_LEN"
    using assms(1) by (auto simp: port_inv_def Let_def list_all_iff)
qed

lemma padded_fits: "length frame \<le> ETH_DATA_LEN \<Longrightarrow> length (padded_frame frame) \<le> ETH_DATA_LEN"
  by (auto simp: length_padded_frame ETH_ZLEN_def ETH_DATA_LEN_def)

text \<open>What is left of a transmission at the sender.\<close>

definition sent :: "snull_conf \<Rightarrow> nat \<Rightarrow> byte list \<Rightarrow> snull_priv \<Rightarrow> snull_priv" where
  "sent conf skb frame priv = priv\<lparr>priv_skb := Some skb, tx_packetlen := int (length (padded_frame frame)),
     tx_packetdata := rewrite_addresses conf (padded_frame frame), stats := count_tx (int (length (padded_frame frame))) (stats priv)\<rparr>"

lemma sent_simps [simp]:
  "ppool (sent conf skb frame priv) = ppool priv" "rx_queue (sent conf skb frame priv) = rx_queue priv"
  "sn_status (sent conf skb frame priv) = sn_status priv" "rx_int_enabled (sent conf skb frame priv) = rx_int_enabled priv"
  "rx_scheduled (sent conf skb frame priv) = rx_scheduled priv" "if_up (sent conf skb frame priv) = if_up priv"
  "queue_stopped (sent conf skb frame priv) = queue_stopped priv" "priv_skb (sent conf skb frame priv) = Some skb"
  "received (sent conf skb frame priv) = received priv"
  by (simp_all add: sent_def)

lemma priv_skb_after:
  "priv\<lparr>priv_skb := a, ppool := b\<rparr> = priv\<lparr>ppool := b, priv_skb := a\<rparr>"
  "priv\<lparr>priv_skb := a, queue_stopped := c\<rparr> = priv\<lparr>queue_stopped := c, priv_skb := a\<rparr>"
  by (intro snull_priv.equality, simp_all)+

lemma tx_event_napi:
  assumes inv: "snull_inv conf pks s" and d: "d < 2" and "lockup conf = 0" "use_napi conf" "length frame \<le> ETH_DATA_LEN"
    and pool: "ppool (snull_devs s d) = p # ps"
  obtains s' where "do_event conf (Ev_tx d frame ok) s = Done s'"
    "snull_devs s' d = sent conf (next_skb s) frame ((snull_devs s d)\<lparr>ppool := ps, queue_stopped := queue_stopped (snull_devs s d) \<or> ps = []\<rparr>)"
    "snull_devs s' (twin d) = (snull_devs s (twin d))\<lparr>rx_queue := p # rx_queue (snull_devs s (twin d)), rx_int_enabled := False, rx_scheduled := True\<rparr>"
    "packets s' = (packets s)(p := filled_packet conf frame (packets s p))" "live_skbs s' = []"
proof -
  note dev = port_inv_pool [OF snull_inv_port [OF inv d] pool]
  have st: "sn_status (snull_devs s d) = 0" "sn_status (snull_devs s (twin d)) = 0"
      "rx_int_enabled (snull_devs s (twin d)) \<longleftrightarrow> \<not> rx_scheduled (snull_devs s (twin d))" "live_skbs s = []"
    using snull_inv_port [OF inv d] snull_inv_port [OF inv, of "twin d"] inv by (simp_all add: port_inv_def Let_def snull_inv_def)
  have fits: "length (padded_frame frame) \<le> length (pkt_data (packets s p))"
    using assms(5) dev(3) by (simp add: padded_fits)
  show thesis
    by (rule that [of "(on_dev d (\<lambda>priv. sent conf (next_skb s) frame priv)
        (on_dev (twin d) (\<lambda>priv. priv\<lparr>rx_int_enabled := False, rx_scheduled := True\<rparr>)
          (send_packet conf (next_skb s) frame d p ps (s\<lparr>next_skb := Suc (next_skb s)\<rparr>))))\<lparr>live_skbs := []\<rparr>"])
     (use assms st fits in \<open>simp_all add: tx_fits signal_rx_napi signal_tx_sent send_packet_def snull_enqueue_buf_def sent_def
       on_dev_def fun_upd_twist priv_skb_after\<close>)
qed

lemma tx_event_regular:
  assumes inv: "snull_inv conf pks s" and d: "d < 2" and "lockup conf = 0" "\<not> use_napi conf" "length frame \<le> ETH_DATA_LEN"
    and pool: "ppool (snull_devs s d) = p # ps" and run: "\<not> queue_stopped (snull_devs s d)"
  obtains s' where "do_event conf (Ev_tx d frame ok) s = Done s'"
    "snull_devs s' d = sent conf (next_skb s) frame (snull_devs s d)"
    "snull_devs s' (twin d) = (if ok then count_rx (filled_packet conf frame (packets s p)) else count_dropped) (snull_devs s (twin d))"
    "packets s' = (packets s)(p := filled_packet conf frame (packets s p))" "live_skbs s' = []"
proof -
  note dev = port_inv_pool [OF snull_inv_port [OF inv d] pool]
  have st: "sn_status (snull_devs s d) = 0" "sn_status (snull_devs s (twin d)) = 0"
      "rx_int_enabled (snull_devs s (twin d))" "live_skbs s = []" "rx_queue (snull_devs s (twin d)) = []"
    using snull_inv_port [OF inv d] snull_inv_port [OF inv, of "twin d"] inv assms(4)
    by (auto simp add: port_inv_def Let_def snull_inv_def)
  have fits: "length (padded_frame frame) \<le> length (pkt_data (packets s p))"
    using assms(5) dev(3) by (simp add: padded_fits)
  let ?rx = "if ok then count_rx (filled_packet conf frame (packets s p)) else count_dropped"
  have keep: "?rx ((snull_devs s (twin d))\<lparr>rx_queue := []\<rparr>) = ?rx (snull_devs s (twin d))"
    using st by (intro arg_cong [of _ _ "?rx"] snull_priv.equality) simp_all
  have same: "sent conf skb frame ((snull_devs s d)\<lparr>ppool := p # ps, queue_stopped := False\<rparr>) = sent conf skb frame (snull_devs s d)" for skb
    using pool run by (intro snull_priv.equality) (simp_all add: sent_def)
  have end_state: "do_event conf (Ev_tx d frame ok) s = Done ((on_dev d (\<lambda>priv. sent conf (next_skb s) frame (priv\<lparr>ppool := p # ps, queue_stopped := False\<rparr>))
        (on_dev (twin d) (\<lambda>priv. ?rx (priv\<lparr>rx_queue := []\<rparr>))
          (s\<lparr>next_skb := Suc (next_skb s), packets := (packets s)(p := filled_packet conf frame (packets s p))\<rparr>)))\<lparr>live_skbs := []\<rparr>)"
    using assms st fits dev(2)
    by (simp add: tx_fits signal_rx_regular signal_tx_sent send_packet_def snull_enqueue_buf_def snull_release_buffer_def)
       (simp add: on_dev_def fun_upd_twist sent_def priv_skb_after)
  show thesis
    by (rule that [OF end_state]) (use d keep same st in simp_all)
qed

lemma port_inv_queue:
  assumes "port_inv conf pk (twin d) s" "p \<in> set (rx_queue (snull_devs s d))" "d < 2"
  shows "p \<in> set pk" "pkt_dev (packets s p) = twin d"
proof -
  have "mset (ppool (snull_devs s (twin d))) + mset (rx_queue (snull_devs s d)) = mset pk"
    using assms(1,3) by (simp add: port_inv_def Let_def)
  from arg_cong [OF this, of set_mset] show "p \<in> set pk"
    using assms(2) by auto
  then show "pkt_dev (packets s p) = twin d"
    using assms(1) by (auto simp: port_inv_def Let_def list_all_iff)
qed

definition poll_one :: "bool \<Rightarrow> nat \<Rightarrow> addr \<Rightarrow> snull \<Rightarrow> snull" where
  "poll_one ok d p s = snull_release_buffer p (snull_rx ok d p (snd (snull_dequeue_buf d s)))"

lemma poll_loop_step:
  "poll_loop ok i d npackets quota s =
     (if npackets < quota
      then case rx_queue (snull_devs s d) of
             [] \<Rightarrow> (npackets, s)
           | p # rest \<Rightarrow> poll_loop ok (Suc i) d (if ok i then npackets + 1 else npackets) quota (poll_one (ok i) d p s)
      else (npackets, s))"
  by (subst poll_loop.simps) (simp add: poll_one_def Let_def split: list.split)

lemma poll_one_devs:
  assumes "rx_queue (snull_devs s d) = p # rest" "pkt_dev (packets s p) = twin d" "d < 2"
  shows "snull_devs (poll_one ok d p s) d = (if ok then count_rx (packets s p) else count_dropped) ((snull_devs s d)\<lparr>rx_queue := rest\<rparr>)"
    "snull_devs (poll_one ok d p s) (twin d) = (snull_devs s (twin d))\<lparr>ppool := p # ppool (snull_devs s (twin d)),
       queue_stopped := queue_stopped (snull_devs s (twin d)) \<and> ppool (snull_devs s (twin d)) \<noteq> []\<rparr>"
    "packets (poll_one ok d p s) = packets s" "live_skbs (poll_one ok d p s) = live_skbs s"
    "next_skb (poll_one ok d p s) = next_skb s"
  using assms by (simp_all add: poll_one_def snull_release_buffer_def snull_rx_def snull_dequeue_buf_def)

lemma count_simps [simp]:
  "ppool (count_rx p priv) = ppool priv" "rx_queue (count_rx p priv) = rx_queue priv"
  "sn_status (count_rx p priv) = sn_status priv" "rx_int_enabled (count_rx p priv) = rx_int_enabled priv"
  "rx_scheduled (count_rx p priv) = rx_scheduled priv" "if_up (count_rx p priv) = if_up priv"
  "queue_stopped (count_rx p priv) = queue_stopped priv" "priv_skb (count_rx p priv) = priv_skb priv"
  "received (count_rx p priv) = received priv @ [frame_of p]"
  "ppool (count_dropped priv) = ppool priv" "rx_queue (count_dropped priv) = rx_queue priv"
  "sn_status (count_dropped priv) = sn_status priv" "rx_int_enabled (count_dropped priv) = rx_int_enabled priv"
  "rx_scheduled (count_dropped priv) = rx_scheduled priv" "if_up (count_dropped priv) = if_up priv"
  "queue_stopped (count_dropped priv) = queue_stopped priv" "priv_skb (count_dropped priv) = priv_skb priv"
  "received (count_dropped priv) = received priv"
  by (simp_all add: count_rx_def count_dropped_def)

lemma poll_one_inv:
  assumes "snull_inv conf pks s" "d < 2" "rx_queue (snull_devs s d) = p # rest"
  shows "snull_inv conf pks (poll_one ok d p s)" "rx_scheduled (snull_devs (poll_one ok d p s) d)"
proof -
  note ports = snull_inv_port [OF assms(1,2)] snull_inv_port [OF assms(1) twin_less [of d]]
  have dev: "pkt_dev (packets s p) = twin d"
    by (rule port_inv_queue(2) [OF ports(2)]) (use assms(2,3) in simp_all)
  note eff = poll_one_devs [OF assms(3) dev assms(2)]
  show "rx_scheduled (snull_devs (poll_one ok d p s) d)"
    using ports(1) assms(3) by (simp add: eff port_inv_def Let_def)
  show "snull_inv conf pks (poll_one ok d p s)"
  proof (rule snull_invI [OF assms(2)])
    show "port_inv conf (pks d) d (poll_one ok d p s)"
      using ports(1) assms(2,3) by (simp add: eff port_inv_def Let_def)
    show "port_inv conf (pks (twin d)) (twin d) (poll_one ok d p s)"
      using ports(2) assms(2,3) by (simp add: eff port_inv_def Let_def)
    show "live_skbs (poll_one ok d p s) = []"
      using assms(1) by (simp add: eff snull_inv_def)
  qed
qed

lemma poll_loop_inv:
  assumes "snull_inv conf pks s" "d < 2" "rx_scheduled (snull_devs s d)"
  shows "snull_inv conf pks (snd (poll_loop ok i d npackets quota s)) \<and>
    rx_scheduled (snull_devs (snd (poll_loop ok i d npackets quota s)) d)"
  using assms
proof (induction "length (rx_queue (snull_devs s d))" arbitrary: i npackets s)
  case 0
  then show ?case
    by (simp add: poll_loop_step)
next
  case (Suc n)
  then obtain p rest where q: "rx_queue (snull_devs s d) = p # rest" "n = length rest"
    by (metis Suc_length_conv)
  note one = poll_one_inv [OF Suc.prems(1,2) q(1)]
  have "pkt_dev (packets s p) = twin d"
    by (rule port_inv_queue(2) [OF snull_inv_port [OF Suc.prems(1) twin_less]]) (use Suc.prems(2) q in simp_all)
  then have n: "n = length (rx_queue (snull_devs (poll_one (ok i) d p s) d))"
    using q Suc.prems(2) by (simp add: poll_one_devs)
  show ?case
    using Suc.hyps(1) [OF n one(1) Suc.prems(2) one(2)] Suc.prems by (simp add: poll_loop_step [of ok i] q)
qed

lemma poll_inv:
  assumes "snull_inv conf pks s" "d < 2" "rx_scheduled (snull_devs s d)"
  shows "snull_inv conf pks (snd (snd (snull_poll ok d dev_quota budget s)))"
proof -
  obtain n s' where loop: "poll_loop ok 0 d 0 (min dev_quota budget) s = (n, s')"
    by fastforce
  then have s': "snull_inv conf pks s'" "rx_scheduled (snull_devs s' d)"
    using poll_loop_inv [OF assms, of ok 0 0 "min dev_quota budget"] by simp_all
  note ports = snull_inv_port [OF s'(1) assms(2)] snull_inv_port [OF s'(1) twin_less [of d]]
  have "snull_inv conf pks (snull_rx_ints d True (on_dev d (\<lambda>priv. priv\<lparr>rx_scheduled := False\<rparr>) s'))"
    if "rx_queue (snull_devs s' d) = []"
  proof (rule snull_invI [OF assms(2)])
    let ?t = "snull_rx_ints d True (on_dev d (\<lambda>priv. priv\<lparr>rx_scheduled := False\<rparr>) s')"
    show "port_inv conf (pks d) d ?t"
      using ports(1) assms(2) that by (simp add: snull_rx_ints_def port_inv_def Let_def)
    show "port_inv conf (pks (twin d)) (twin d) ?t"
      using ports(2) assms(2) that by (simp add: snull_rx_ints_def port_inv_def Let_def)
    show "live_skbs ?t = []"
      using s'(1) by (simp add: snull_rx_ints_def snull_inv_def)
  qed
  then show ?thesis
    using s' by (simp add: snull_poll_def loop)
qed

lemma tx_inv:
  assumes inv: "snull_inv conf pks s" and d: "d < 2" and up: "if_up (snull_devs s d)" "\<not> queue_stopped (snull_devs s d)"
    and lk: "lockup conf = 0" and len: "length frame \<le> ETH_DATA_LEN"
  shows "\<exists>s'. do_event conf (Ev_tx d frame ok) s = Done s' \<and> snull_inv conf pks s'"
proof -
  note ports = snull_inv_port [OF inv d] snull_inv_port [OF inv twin_less [of d]]
  obtain p ps where pool: "ppool (snull_devs s d) = p # ps"
    using ports(1) up by (cases "ppool (snull_devs s d)") (auto simp: port_inv_def Let_def)
  have fits: "length (padded_frame frame) \<le> length (pkt_data (packets s p))"
    using port_inv_pool(3) [OF ports(1) pool] padded_fits [OF len] by simp
  have fill: "list_all (\<lambda>q. pkt_dev (((packets s)(p := filled_packet conf frame (packets s p))) q) = e \<and>
      length (pkt_data (((packets s)(p := filled_packet conf frame (packets s p))) q)) = ETH_DATA_LEN) xs"
    if "list_all (\<lambda>q. pkt_dev (packets s q) = e \<and> length (pkt_data (packets s q)) = ETH_DATA_LEN) xs" for e xs
    using that fits by (simp add: list_all_iff)
  show ?thesis
  proof (cases "use_napi conf")
    case True
    obtain s' where s': "do_event conf (Ev_tx d frame ok) s = Done s'"
      "snull_devs s' d = sent conf (next_skb s) frame ((snull_devs s d)\<lparr>ppool := ps, queue_stopped := queue_stopped (snull_devs s d) \<or> ps = []\<rparr>)"
      "snull_devs s' (twin d) = (snull_devs s (twin d))\<lparr>rx_queue := p # rx_queue (snull_devs s (twin d)), rx_int_enabled := False, rx_scheduled := True\<rparr>"
      "packets s' = (packets s)(p := filled_packet conf frame (packets s p))" "live_skbs s' = []"
      by (rule tx_event_napi [OF inv d lk True len pool])
    have "port_inv conf (pks d) d s'"
      using ports(1) up d pool True fill [of d "pks d"] unfolding port_inv_def Let_def s' by simp
    moreover have "port_inv conf (pks (twin d)) (twin d) s'"
      using ports(2) d True fill [of "twin d" "pks (twin d)"] unfolding port_inv_def Let_def s' twin_twin [OF d] by simp
    ultimately show ?thesis
      using snull_invI [OF d _ _ s'(5)] s'(1) by blast
  next
    case False
    obtain s' where s': "do_event conf (Ev_tx d frame ok) s = Done s'"
      "snull_devs s' d = sent conf (next_skb s) frame (snull_devs s d)"
      "snull_devs s' (twin d) = (if ok then count_rx (filled_packet conf frame (packets s p)) else count_dropped) (snull_devs s (twin d))"
      "packets s' = (packets s)(p := filled_packet conf frame (packets s p))" "live_skbs s' = []"
      by (rule tx_event_regular [OF inv d lk False len pool up(2)])
    have idle: "rx_queue (snull_devs s d) = []" "rx_queue (snull_devs s (twin d)) = []"
      using ports False by (auto simp: port_inv_def Let_def)
    have "port_inv conf (pks d) d s'"
      using idle ports(1) up d pool False fill [of d "pks d"] unfolding port_inv_def Let_def s' by simp
    moreover have "port_inv conf (pks (twin d)) (twin d) s'"
      using idle ports(2) d False fill [of "twin d" "pks (twin d)"] unfolding port_inv_def Let_def s' twin_twin [OF d] by simp
    ultimately show ?thesis
      using snull_invI [OF d _ _ s'(5)] s'(1) by blast
  qed
qed

lemma snull_open_inv:
  assumes inv: "snull_inv conf pks s" and d: "d < 2" and "ppool (snull_devs s d) \<noteq> []"
  shows "snull_inv conf pks (on_dev d (\<lambda>priv. priv\<lparr>if_up := True\<rparr>) (snull_open d s))" (is "snull_inv conf pks ?t")
proof (rule snull_invI [OF d])
  have "pks d \<noteq> []"
    using port_inv_pool(1) [OF snull_inv_port [OF inv d]] assms(3) by (cases "ppool (snull_devs s d)") force+
  then show "port_inv conf (pks d) d ?t"
    using snull_inv_port [OF inv d] assms(2,3) by (simp add: snull_open_def port_inv_def Let_def)
  show "port_inv conf (pks (twin d)) (twin d) ?t"
    using snull_inv_port [OF inv twin_less [of d]] assms(2,3) by (simp add: snull_open_def port_inv_def Let_def)
  show "live_skbs ?t = []"
    using inv by (simp add: snull_open_def snull_inv_def)
qed

lemma snull_release_inv:
  assumes inv: "snull_inv conf pks s" and d: "d < 2"
  shows "snull_inv conf pks (on_dev d (\<lambda>priv. priv\<lparr>if_up := False\<rparr>) (snull_release d s))" (is "snull_inv conf pks ?t")
proof (rule snull_invI [OF d])
  show "port_inv conf (pks d) d ?t"
    using snull_inv_port [OF inv d] d by (simp add: snull_release_def port_inv_def Let_def)
  show "port_inv conf (pks (twin d)) (twin d) ?t"
    using snull_inv_port [OF inv twin_less [of d]] d by (simp add: snull_release_def port_inv_def Let_def)
  show "live_skbs ?t = []"
    using inv by (simp add: snull_release_def snull_inv_def)
qed

lemma safe_event_inv:
  assumes "snull_inv conf pks s" "lockup conf = 0" "event_enabled e s" "event_safe e s"
  shows "\<exists>s'. do_event conf e s = Done s' \<and> snull_inv conf pks s'"
  using assms by (cases e) (auto intro!: tx_inv simp: poll_inv snull_open_inv snull_release_inv simp del: do_event.simps(1))

inductive safe_run :: "snull_conf \<Rightarrow> snull \<Rightarrow> snull \<Rightarrow> bool" for conf s0 where
  start: "safe_run conf s0 s0"
| step: "safe_run conf s0 s \<Longrightarrow> event_enabled e s \<Longrightarrow> event_safe e s \<Longrightarrow> do_event conf e s = Done s' \<Longrightarrow> safe_run conf s0 s'"

lemma safe_run_inv:
  assumes "safe_run conf s0 s" "snull_inv conf pks s0" "lockup conf = 0"
  shows "snull_inv conf pks s"
  using assms
proof induction
  case (step s e s')
  then show ?case
    using safe_event_inv [of conf pks s e] by auto
qed

section \<open>Loading\<close>

lemma setup_loop_eff:
  assumes "setup_loop d n s k = (s', k')"
  obtains new where "ppool (snull_devs s' d) = new @ ppool (snull_devs s d)" "length new \<le> n"
    "accounted k as k' (new @ as)"
    "snull_devs s' = (snull_devs s)(d := (snull_devs s d)\<lparr>ppool := new @ ppool (snull_devs s d)\<rparr>)"
    "list_all (\<lambda>p. pkt_dev (packets s' p) = d \<and> length (pkt_data (packets s' p)) = ETH_DATA_LEN) new"
    "\<And>p. p \<notin> set new \<Longrightarrow> packets s' p = packets s p" "live_skbs s' = live_skbs s" "next_skb s' = next_skb s"
  using assms
proof (induction n arbitrary: s k as thesis)
  case 0
  show ?case
    by (rule "0.prems"(1) [of "[]"]) (use "0.prems"(2) in simp_all)
next
  case (Suc n)
  show ?case
  proof (cases "kmalloc 1520 k")
    case (Pair r k1)
    show ?thesis
    proof (cases r)
      case None
      show ?thesis
        by (rule Suc.prems(1) [of "[]"]) (use Suc.prems(2) Pair None kmalloc_accounted(2) in simp_all)
    next
      case (Some p)
      let ?s = "on_dev d (\<lambda>priv. priv\<lparr>ppool := p # ppool priv\<rparr>)
              (s\<lparr>packets := (packets s)(p := (packets s p)\<lparr>pkt_dev := d, pkt_data := replicate ETH_DATA_LEN None\<rparr>)\<rparr>)"
      have loop: "setup_loop d n ?s k1 = (s', k')"
        using Suc.prems(2) Pair Some by simp
      obtain new where new: "ppool (snull_devs s' d) = new @ ppool (snull_devs ?s d)" "length new \<le> n"
        "accounted k1 (p # as) k' (new @ p # as)"
        "snull_devs s' = (snull_devs ?s)(d := (snull_devs ?s d)\<lparr>ppool := new @ ppool (snull_devs ?s d)\<rparr>)"
        "list_all (\<lambda>p. pkt_dev (packets s' p) = d \<and> length (pkt_data (packets s' p)) = ETH_DATA_LEN) new"
        "\<And>q. q \<notin> set new \<Longrightarrow> packets s' q = packets ?s q" "live_skbs s' = live_skbs ?s" "next_skb s' = next_skb ?s"
        by (rule Suc.IH [OF _ loop, of "p # as"]) (rule that)
      have acc: "accounted k as k' ((new @ [p]) @ as)"
        using accounted_trans [OF kmalloc_accounted(1) new(3), of 1520 k] Pair Some by simp
      have p: "pkt_dev (packets s' p) = d \<and> length (pkt_data (packets s' p)) = ETH_DATA_LEN"
        using new(5,6) by (cases "p \<in> set new") (auto simp: list_all_iff)
      show ?thesis
        by (rule Suc.prems(1) [of "new @ [p]", OF _ _ acc])
           (use new p in \<open>auto simp: fun_upd_def\<close>)
    qed
  qed
qed

definition cleared :: "snull_priv \<Rightarrow> snull_priv" where
  "cleared priv = priv\<lparr>mtu := 1500, stats := no_stats, sn_status := 0, ppool := [], rx_queue := [], rx_int_enabled := True,
     tx_packetlen := 0, tx_packetdata := [], priv_skb := None\<rparr>"

definition own_packets :: "nat \<Rightarrow> addr list \<Rightarrow> snull \<Rightarrow> bool" where
  "own_packets d ps s \<longleftrightarrow> list_all (\<lambda>p. pkt_dev (packets s p) = d \<and> length (pkt_data (packets s p)) = ETH_DATA_LEN) ps"

lemma own_packets_other: "own_packets d ps s \<Longrightarrow> (\<And>p. p \<in> set ps \<Longrightarrow> packets s' p = packets s p) \<Longrightarrow> own_packets d ps s'"
  by (simp add: own_packets_def list_all_iff)

lemma snull_init_eff:
  assumes "snull_init n d s k = (s', k')"
  obtains new where "accounted k as k' (new @ as)" "snull_devs s' = (snull_devs s)(d := (cleared (snull_devs s d))\<lparr>ppool := new\<rparr>)"
    "own_packets d new s'" "\<And>p. p \<notin> set new \<Longrightarrow> packets s' p = packets s p" "live_skbs s' = live_skbs s"
proof -
  let ?s = "on_dev d (\<lambda>priv. priv\<lparr>ppool := []\<rparr>) (snull_rx_ints d True
         (on_dev d (\<lambda>priv. priv\<lparr>mtu := 1500, stats := no_stats, sn_status := 0, ppool := [], rx_queue := [],
            rx_int_enabled := False, tx_packetlen := 0, tx_packetdata := [], priv_skb := None\<rparr>) s))"
  have loop: "setup_loop d (nat n) ?s k = (s', k')"
    using assms by (simp add: snull_init_def snull_setup_pool_def)
  have "snull_devs ?s = (snull_devs s)(d := cleared (snull_devs s d))" "packets ?s = packets s" "live_skbs ?s = live_skbs s"
    by (simp_all add: snull_rx_ints_def cleared_def fun_eq_iff)
  moreover obtain new where "ppool (snull_devs s' d) = new @ ppool (snull_devs ?s d)" "length new \<le> nat n"
    "accounted k as k' (new @ as)"
    "snull_devs s' = (snull_devs ?s)(d := (snull_devs ?s d)\<lparr>ppool := new @ ppool (snull_devs ?s d)\<rparr>)"
    "list_all (\<lambda>p. pkt_dev (packets s' p) = d \<and> length (pkt_data (packets s' p)) = ETH_DATA_LEN) new"
    "\<And>p. p \<notin> set new \<Longrightarrow> packets s' p = packets ?s p" "live_skbs s' = live_skbs ?s" "next_skb s' = next_skb ?s"
    by (rule setup_loop_eff [OF loop, of as]) (rule that)
  ultimately show thesis
    by (intro that [of new]) (simp_all add: own_packets_def cleared_def)
qed

lemma alloc_snull_eff:
  assumes "alloc_snull env i md k = (md', k')"
  obtains (none) "sm_alloc md' = (sm_alloc md)(i := None)" "sm_net md' = sm_net md" "sm_registered md' = sm_registered md"
      "accounted k as k' as"
  | (some) a new where "sm_alloc md' = (sm_alloc md)(i := Some a)" "sm_registered md' = sm_registered md"
      "accounted k as k' (new @ a # as)"
      "snull_devs (sm_net md') = (snull_devs (sm_net md))(i := (cleared (snull_devs (sm_net md) i))\<lparr>ppool := new\<rparr>)"
      "own_packets i new (sm_net md')" "\<And>p. p \<notin> set new \<Longrightarrow> packets (sm_net md') p = packets (sm_net md) p"
      "live_skbs (sm_net md') = live_skbs (sm_net md)"
proof (cases "kmalloc (netdev_bytes env) k")
  case (Pair r k1)
  show thesis
  proof (cases r)
    case None
    then show thesis
      using assms Pair kmalloc_accounted(2) [of "netdev_bytes env" k k1] by (intro none) (auto simp: alloc_snull_def)
  next
    case (Some a)
    obtain s' k2 where init: "snull_init (env_pool_size env) i (sm_net md) k1 = (s', k2)"
      by fastforce
    then have md': "md' = md\<lparr>sm_net := s', sm_alloc := (sm_alloc md)(i := Some a)\<rparr>" "k' = k2"
      using assms Pair Some by (auto simp: alloc_snull_def)
    show thesis
    proof (rule snull_init_eff [OF init, of "a # as"])
      fix new
      assume new: "accounted k1 (a # as) k2 (new @ a # as)"
        "snull_devs s' = (snull_devs (sm_net md))(i := (cleared (snull_devs (sm_net md) i))\<lparr>ppool := new\<rparr>)"
        "own_packets i new s'" "\<And>p. p \<notin> set new \<Longrightarrow> packets s' p = packets (sm_net md) p"
        "live_skbs s' = live_skbs (sm_net md)"
      have "accounted k as k2 (new @ a # as)"
        using accounted_trans [OF kmalloc_accounted(1) new(1), of "netdev_bytes env" k] Pair Some by simp
      with new show thesis
        by (intro some [of a new]) (simp_all add: md')
    qed
  qed
qed

lemma cleanup_one_eff:
  assumes "sm_alloc md i = Some a" "owns (ppool (snull_devs (sm_net md) i) @ a # as) k"
  obtains md' k' where "cleanup_one i md k = Done (md', k')"
    "accounted k (ppool (snull_devs (sm_net md) i) @ a # as) k' as" "sm_alloc md' = sm_alloc md"
    "snull_devs (sm_net md') = (snull_devs (sm_net md))(i := (snull_devs (sm_net md) i)\<lparr>ppool := []\<rparr>)"
    "sm_registered md' = sm_registered md - {i}"
proof -
  let ?pool = "ppool (snull_devs (sm_net md) i)"
  obtain k1 where k1: "kfree_all ?pool k = Done k1" "accounted k (?pool @ a # as) k1 (a # as)"
    using kfree_list_accounted [OF assms(2)] by blast
  have "owns ([a] @ as) k1"
    using k1(2) assms(2) by (simp add: accounted_def)
  then obtain k2 where k2: "kfree_all [a] k1 = Done k2" "accounted k1 (a # as) k2 as"
    using kfree_list_accounted [of "[a]" as k1] by auto
  moreover have "kfree_all [] = Done"
    by (rule ext) simp
  ultimately have "kfree a k1 = Done k2"
    by simp
  then show thesis
    using k1(1) assms(1) accounted_trans [OF k1(2) k2(2)]
    by (intro that [of "md\<lparr>sm_net := on_dev i (\<lambda>priv. priv\<lparr>ppool := []\<rparr>) (sm_net md), sm_registered := sm_registered md - {i}\<rparr>" k2])
      (simp_all add: cleanup_one_def snull_teardown_pool_def fun_eq_iff)
qed

text \<open>The memory of a loaded module: the packets of both pools and the two devices.\<close>

definition idle_net :: "snull \<Rightarrow> bool" where
  "idle_net s \<longleftrightarrow> live_skbs s = [] \<and>
     \<not> if_up (snull_devs s 0) \<and> \<not> rx_scheduled (snull_devs s 0) \<and> \<not> if_up (snull_devs s 1) \<and> \<not> rx_scheduled (snull_devs s 1)"

lemma cleared_simps [simp]:
  "if_up (cleared priv) = if_up priv" "rx_scheduled (cleared priv) = rx_scheduled priv" "rx_queue (cleared priv) = []"
  "sn_status (cleared priv) = 0" "rx_int_enabled (cleared priv)" "received (cleared priv) = received priv"
  by (simp_all add: cleared_def)

lemma alloc_snull_keeps:
  assumes "alloc_snull env i md k = (md', k')" "j \<noteq> i"
  shows "sm_alloc md' j = sm_alloc md j"
  by (rule alloc_snull_eff [OF assms(1), of "[]"]) (use assms(2) in simp_all)

lemma alloc_snull_Some:
  assumes "alloc_snull env i md k = (md', k')" "sm_alloc md' i = Some a"
  obtains new where "accounted k as k' (new @ a # as)"
      "snull_devs (sm_net md') = (snull_devs (sm_net md))(i := (cleared (snull_devs (sm_net md) i))\<lparr>ppool := new\<rparr>)"
      "own_packets i new (sm_net md')" "\<And>p. p \<notin> set new \<Longrightarrow> packets (sm_net md') p = packets (sm_net md) p"
      "live_skbs (sm_net md') = live_skbs (sm_net md)"
proof (rule alloc_snull_eff [OF assms(1), of as])
  fix b new
  assume "sm_alloc md' = (sm_alloc md)(i := Some b)" "accounted k as k' (new @ b # as)"
    "snull_devs (sm_net md') = (snull_devs (sm_net md))(i := (cleared (snull_devs (sm_net md) i))\<lparr>ppool := new\<rparr>)"
    "own_packets i new (sm_net md')" "\<And>p. p \<notin> set new \<Longrightarrow> packets (sm_net md') p = packets (sm_net md) p"
    "live_skbs (sm_net md') = live_skbs (sm_net md)"
  then show thesis
    using assms(2) by (intro that [of new]) simp_all
qed (use assms(2) in simp_all)

lemma two_devices:
  assumes m1: "alloc_snull env 0 md k = (md1, k1)" and m2: "alloc_snull env 1 md1 k1 = (md2, k2)"
    and a: "sm_alloc md2 0 = Some a" and b: "sm_alloc md2 1 = Some b" and ok: "kmem_ok k" and idle: "idle_net (sm_net md)"
  shows "accounted k [] k2 (ppool (snull_devs (sm_net md2) 0) @ a # ppool (snull_devs (sm_net md2) 1) @ [b])"
    "snull_inv conf (\<lambda>d. ppool (snull_devs (sm_net md2) d)) (sm_net md2)"
proof -
  have a1: "sm_alloc md1 0 = Some a"
    using alloc_snull_keeps [OF m2, of 0] a by simp
  obtain new where new: "accounted k [] k1 (new @ [a])"
      "snull_devs (sm_net md1) = (snull_devs (sm_net md))(0 := (cleared (snull_devs (sm_net md) 0))\<lparr>ppool := new\<rparr>)"
      "own_packets 0 new (sm_net md1)" "\<And>p. p \<notin> set new \<Longrightarrow> packets (sm_net md1) p = packets (sm_net md) p"
      "live_skbs (sm_net md1) = live_skbs (sm_net md)"
    by (rule alloc_snull_Some [OF m1 a1, of "[]"]) (rule that)
  obtain new' where new': "accounted k1 (new @ [a]) k2 (new' @ b # new @ [a])"
      "snull_devs (sm_net md2) = (snull_devs (sm_net md1))(1 := (cleared (snull_devs (sm_net md1) 1))\<lparr>ppool := new'\<rparr>)"
      "own_packets 1 new' (sm_net md2)" "\<And>p. p \<notin> set new' \<Longrightarrow> packets (sm_net md2) p = packets (sm_net md1) p"
      "live_skbs (sm_net md2) = live_skbs (sm_net md1)"
    by (rule alloc_snull_Some [OF m2 b, of "new @ [a]"]) (rule that)
  have pools: "ppool (snull_devs (sm_net md2) 0) = new" "ppool (snull_devs (sm_net md2) 1) = new'"
    by (simp_all add: new(2) new'(2))
  have acc: "accounted k [] k2 (new' @ b # new @ [a])"
    by (rule accounted_trans [OF new(1) new'(1)])
  moreover have "mset (new' @ b # new @ [a]) = mset (new @ a # new' @ [b])"
    by simp
  ultimately show "accounted k [] k2 (ppool (snull_devs (sm_net md2) 0) @ a # ppool (snull_devs (sm_net md2) 1) @ [b])"
    unfolding pools using accounted_mset [of "[]" "[]"] by blast
  have "distinct (new' @ b # new @ [a])"
    using acc ok by (simp add: accounted_def owns_def)
  then have d: "distinct new" "distinct new'" "set new \<inter> set new' = {}"
    by auto
  have own: "own_packets 0 new (sm_net md2)"
    by (rule own_packets_other [OF new(3) new'(4)]) (use d in auto)
  show "snull_inv conf (\<lambda>d. ppool (snull_devs (sm_net md2) d)) (sm_net md2)"
    using idle d own new'(3) unfolding snull_inv_def pools port_inv_def Let_def
    by (simp add: new(2,5) new'(2,5) idle_net_def own_packets_def twin_def)
qed

lemma load_eff:
  assumes load: "snull_init_module env md k = Done (Inr 0, md', k')" and ok: "kmem_ok k" and idle: "idle_net (sm_net md)"
  obtains a b where "sm_alloc md' 0 = Some a" "sm_alloc md' 1 = Some b"
    "accounted k [] k' (ppool (snull_devs (sm_net md') 0) @ a # ppool (snull_devs (sm_net md') 1) @ [b])"
    "snull_inv conf (\<lambda>d. ppool (snull_devs (sm_net md') d)) (sm_net md')"
    "sm_registered md' = set (filter (register_ok env) [0, 1])"
proof -
  obtain md1 k1 where m1: "alloc_snull env 0 md k = (md1, k1)" by fastforce
  obtain md2 k2 where m2: "alloc_snull env 1 md1 k1 = (md2, k2)" by fastforce
  have both: "sm_alloc md2 0 \<noteq> None" "sm_alloc md2 1 \<noteq> None"
    and md': "md' = md2\<lparr>sm_registered := set (filter (register_ok env) [0, 1])\<rparr>" "k' = k2"
    using load unfolding snull_init_module_def m1 prod.case m2
    by (auto simp: Let_def and_then_Done_iff simp del: One_nat_def split: if_splits)
  then obtain a b where ab: "sm_alloc md2 0 = Some a" "sm_alloc md2 1 = Some b"
    by auto
  show thesis
    using ab two_devices(1) [OF m1 m2 ab ok idle] two_devices(2) [OF m1 m2 ab ok idle, of conf]
    by (intro that [of a b]) (simp_all add: md')
qed

lemma cleanup_eff:
  assumes "sm_alloc md 0 = Some a" "sm_alloc md 1 = Some b" "accounted k as k1 bs" "owns as k"
    "mset bs = mset (ppool (snull_devs (sm_net md) 0) @ a # ppool (snull_devs (sm_net md) 1) @ b # cs)"
  obtains md' k' where "snull_cleanup md k1 = Done (md', k')" "accounted k as k' cs" "sm_registered md' = sm_registered md - {0, 1}"
proof -
  let ?p0 = "ppool (snull_devs (sm_net md) 0)" and ?p1 = "ppool (snull_devs (sm_net md) 1)"
  have acc: "accounted k as k1 (?p0 @ a # ?p1 @ b # cs)"
    using assms(3,5) accounted_mset [of as as] by blast
  then have own: "owns (?p0 @ a # (?p1 @ b # cs)) k1"
    using assms(4) by (simp add: accounted_def)
  obtain md1 k2 where c0: "cleanup_one 0 md k1 = Done (md1, k2)" "accounted k1 (?p0 @ a # ?p1 @ b # cs) k2 (?p1 @ b # cs)"
    "sm_alloc md1 = sm_alloc md" "snull_devs (sm_net md1) = (snull_devs (sm_net md))(0 := (snull_devs (sm_net md) 0)\<lparr>ppool := []\<rparr>)"
    "sm_registered md1 = sm_registered md - {0}"
    by (rule cleanup_one_eff [OF assms(1) own]) (rule that)
  have p1: "ppool (snull_devs (sm_net md1) 1) = ?p1"
    by (simp add: c0(4))
  have "owns (ppool (snull_devs (sm_net md1) 1) @ b # cs) k2"
    unfolding p1 using c0(2) own by (simp add: accounted_def)
  moreover have "sm_alloc md1 1 = Some b"
    using c0(3) assms(2) by simp
  ultimately obtain md2 k3 where c1: "cleanup_one 1 md1 k2 = Done (md2, k3)"
    "accounted k2 (ppool (snull_devs (sm_net md1) 1) @ b # cs) k3 cs" "sm_registered md2 = sm_registered md1 - {1}"
    using cleanup_one_eff [of md1 1 b cs k2] by metis
  have "accounted k as k3 cs"
    using accounted_trans [OF accounted_trans [OF acc c0(2)] c1(2) [unfolded p1]] .
  then show thesis
    using c0 c1 by (intro that [of md2 k3]) (auto simp: snull_cleanup_def)
qed

section \<open>Properties\<close>

definition snull_reachable :: "snull_conf \<Rightarrow> (nat \<Rightarrow> addr list) \<Rightarrow> snull \<Rightarrow> bool" where
  "snull_reachable conf pools s \<longleftrightarrow> (\<exists>env md k md' k'.
     snull_init_module env md k = Done (Inr 0, md', k') \<and> kmem_ok k \<and> idle_net (sm_net md) \<and>
     pools = (\<lambda>d. ppool (snull_devs (sm_net md') d)) \<and> safe_run conf (sm_net md') s)"

lemma reachable_inv:
  assumes "snull_reachable conf pools s" "lockup conf = 0"
  shows "snull_inv conf pools s"
proof -
  obtain env md k md' k' where r: "snull_init_module env md k = Done (Inr 0, md', k')" "kmem_ok k" "idle_net (sm_net md)"
     and pools: "pools = (\<lambda>d. ppool (snull_devs (sm_net md') d))" and run: "safe_run conf (sm_net md') s"
    using assms(1) by (auto simp: snull_reachable_def)
  have "snull_inv conf pools (sm_net md')"
    unfolding pools by (rule load_eff [OF r])
  then show ?thesis
    by (rule safe_run_inv [OF run _ assms(2)])
qed

lemma inv_conserved:
  assumes "snull_inv conf pools s" "d < 2"
  shows "mset (ppool (snull_devs s d)) + mset (rx_queue (snull_devs s (twin d))) = mset (pools d)"
    "if_up (snull_devs s d) \<Longrightarrow> queue_stopped (snull_devs s d) \<longleftrightarrow> ppool (snull_devs s d) = []"
    "rx_queue (snull_devs s d) \<noteq> [] \<Longrightarrow> rx_scheduled (snull_devs s d)" "live_skbs s = []"
  using snull_inv_port [OF assms] assms(1) by (simp_all add: port_inv_def Let_def snull_inv_def)


text \<open>Unloading in any such state frees everything that loading has allocated but the packets that wait in the receive queues,
  which are leaked.\<close>
theorem snull_unload_leaks:
  assumes "snull_init_module env md k = Done (Inr 0, md', k')" "kmem_ok k" "idle_net (sm_net md)" "lockup conf = 0"
    "safe_run conf (sm_net md') s"
  shows "\<exists>md'' k''. snull_cleanup (md'\<lparr>sm_net := s\<rparr>) k' = Done (md'', k'') \<and> sm_registered md'' = {} \<and>
    accounted k [] k'' (rx_queue (snull_devs s 0) @ rx_queue (snull_devs s 1))"
proof -
  obtain a b where load: "sm_alloc md' 0 = Some a" "sm_alloc md' 1 = Some b"
    "accounted k [] k' (ppool (snull_devs (sm_net md') 0) @ a # ppool (snull_devs (sm_net md') 1) @ [b])"
    "snull_inv conf (\<lambda>d. ppool (snull_devs (sm_net md') d)) (sm_net md')"
    "sm_registered md' = set (filter (register_ok env) [0, 1])"
    by (rule load_eff [OF assms(1-3)]) (rule that)
  let ?md = "md'\<lparr>sm_net := s\<rparr>" and ?left = "rx_queue (snull_devs s 0) @ rx_queue (snull_devs s 1)"
  have inv: "snull_inv conf (\<lambda>d. ppool (snull_devs (sm_net md') d)) s"
    by (rule safe_run_inv [OF assms(5) load(4) assms(4)])
  have "mset (ppool (snull_devs s 0)) + mset (rx_queue (snull_devs s 1)) = mset (ppool (snull_devs (sm_net md') 0))"
    "mset (ppool (snull_devs s 1)) + mset (rx_queue (snull_devs s 0)) = mset (ppool (snull_devs (sm_net md') 1))"
    using inv by (simp_all add: snull_inv_def port_inv_def Let_def twin_def)
  then have m: "mset (ppool (snull_devs (sm_net md') 0) @ a # ppool (snull_devs (sm_net md') 1) @ [b]) =
      mset (ppool (snull_devs (sm_net ?md) 0) @ a # ppool (snull_devs (sm_net ?md) 1) @ b # ?left)"
    by (simp add: ac_simps flip: union_assoc)
  have ab: "sm_alloc ?md 0 = Some a" "sm_alloc ?md 1 = Some b" and own: "owns [] k"
    using load(1,2) assms(2) by (simp_all add: owns_def)
  obtain md'' k'' where "snull_cleanup ?md k' = Done (md'', k'')" "accounted k [] k'' ?left"
    "sm_registered md'' = sm_registered ?md - {0, 1}"
    by (rule cleanup_eff [OF ab load(3) own m]) (rule that)
  then show ?thesis
    using load(5) by auto
qed



lemma poll_loop_all:
  assumes "snull_inv conf pks s" "d < 2" "npackets + int (length (rx_queue (snull_devs s d))) \<le> quota"
  shows "rx_queue (snull_devs (snd (poll_loop (\<lambda>_. True) i d npackets quota s)) d) = [] \<and>
    received (snull_devs (snd (poll_loop (\<lambda>_. True) i d npackets quota s)) d) =
      received (snull_devs s d) @ map (\<lambda>p. frame_of (packets s p)) (rx_queue (snull_devs s d))"
  using assms
proof (induction "rx_queue (snull_devs s d)" arbitrary: i npackets s)
  case Nil
  then show ?case
    by (subst poll_loop_step, subst (2) poll_loop_step) simp
next
  case (Cons p rest)
  have q: "rx_queue (snull_devs s d) = p # rest"
    using Cons.hyps(2) by simp
  have "pkt_dev (packets s p) = twin d"
    by (rule port_inv_queue(2) [OF snull_inv_port [OF Cons.prems(1) twin_less]]) (use Cons.prems(2) q in simp_all)
  note eff = poll_one_devs [OF q this Cons.prems(2), of True]
  note one = poll_one_inv(1) [OF Cons.prems(1,2) q]
  have rest: "rest = rx_queue (snull_devs (poll_one True d p s) d)"
    by (simp add: eff)
  have quota: "npackets < quota" "npackets + 1 + int (length rest) \<le> quota"
    using Cons.prems(3) q by simp_all
  show ?case
    using Cons.hyps(1) [OF rest one Cons.prems(2), of "npackets + 1" "Suc i"] quota
    by (simp add: poll_loop_step [of _ i] q eff)
qed

lemma do_events_append: "do_events conf (es @ fs) s = and_then (do_events conf es s) (do_events conf fs)"
proof (induction es arbitrary: s)
  case (Cons e es)
  then have "do_events conf (es @ fs) = (\<lambda>s. and_then (do_events conf es s) (do_events conf fs))"
    by (intro ext)
  then show ?case
    by (simp add: and_then_assoc)
qed simp

definition waiting :: "nat \<Rightarrow> snull \<Rightarrow> cell list list" where
  "waiting d s = map (\<lambda>p. frame_of (packets s p)) (rx_queue (snull_devs s d))"

lemma pool_not_queued:
  assumes "port_inv conf pk d s" "ppool (snull_devs s d) = p # ps"
  shows "p \<notin> set (rx_queue (snull_devs s (twin d)))"
proof -
  have "mset (ppool (snull_devs s d) @ rx_queue (snull_devs s (twin d))) = mset pk" "distinct pk"
    using assms(1) by (simp_all add: port_inv_def Let_def)
  then have "distinct (ppool (snull_devs s d) @ rx_queue (snull_devs s (twin d)))"
    by (metis mset_eq_imp_distinct_iff)
  then show ?thesis
    using assms(2) by auto
qed

lemma tx_list:
  assumes "snull_inv conf pks s" "d < 2" "lockup conf = 0" "use_napi conf" "if_up (snull_devs s d)"
    "length fs \<le> length (ppool (snull_devs s d))" "list_all (\<lambda>f. length f \<le> ETH_DATA_LEN) fs"
  shows "\<exists>s'. do_events conf (map (\<lambda>f. Ev_tx d f True) fs) s = Done s' \<and> snull_inv conf pks s' \<and>
    waiting (twin d) s' = rev (map (wire conf) fs) @ waiting (twin d) s \<and>
    received (snull_devs s' (twin d)) = received (snull_devs s (twin d))"
  using assms
proof (induction fs arbitrary: s)
  case Nil
  then show ?case by simp
next
  case (Cons f fs)
  note inv = Cons.prems(1) and d = Cons.prems(2)
  obtain p ps where pool: "ppool (snull_devs s d) = p # ps" "length fs \<le> length ps"
    using Cons.prems(6) by (cases "ppool (snull_devs s d)") auto
  have len: "length f \<le> ETH_DATA_LEN" "list_all (\<lambda>f. length f \<le> ETH_DATA_LEN) fs"
    using Cons.prems(7) by simp_all
  have run: "\<not> queue_stopped (snull_devs s d)"
    using inv_conserved(2) [OF inv d Cons.prems(5)] pool by simp
  obtain s1 where s1: "do_event conf (Ev_tx d f True) s = Done s1"
      "snull_devs s1 d = sent conf (next_skb s) f ((snull_devs s d)\<lparr>ppool := ps, queue_stopped := queue_stopped (snull_devs s d) \<or> ps = []\<rparr>)"
      "snull_devs s1 (twin d) = (snull_devs s (twin d))\<lparr>rx_queue := p # rx_queue (snull_devs s (twin d)), rx_int_enabled := False, rx_scheduled := True\<rparr>"
      "packets s1 = (packets s)(p := filled_packet conf f (packets s p))" "live_skbs s1 = []"
    by (rule tx_event_napi [OF inv d Cons.prems(3,4) len(1) pool(1)])
  have inv1: "snull_inv conf pks s1"
    using tx_inv [OF inv d Cons.prems(5) run Cons.prems(3) len(1), of True] s1(1) by simp
  have w1: "waiting (twin d) s1 = wire conf f # waiting (twin d) s"
    using pool_not_queued [OF snull_inv_port [OF inv d] pool(1)] by (auto simp: waiting_def s1(3,4))
  have "if_up (snull_devs s1 d)" "length fs \<le> length (ppool (snull_devs s1 d))"
    using Cons.prems(5) pool(2) by (simp_all add: s1(2))
  then obtain s' where "do_events conf (map (\<lambda>f. Ev_tx d f True) fs) s1 = Done s'" "snull_inv conf pks s'"
    "waiting (twin d) s' = rev (map (wire conf) fs) @ waiting (twin d) s1"
    "received (snull_devs s' (twin d)) = received (snull_devs s1 (twin d))"
    using Cons.IH [OF inv1 d Cons.prems(3,4) _ _ len(2)] by blast
  then show ?case
    by (intro exI [of _ s']) (simp add: s1(1,3) w1 del: do_event.simps)
qed

text \<open>With NAPI, the frames that are sent while their packets last and received by one poll come out at the twin in the
  opposite order, before those that waited already.\<close>
theorem snull_poll_newest_first:
  assumes "snull_reachable conf pools s" "lockup conf = 0" "use_napi conf" "d < 2" "if_up (snull_devs s d)"
    "fs \<noteq> []" "length fs \<le> length (ppool (snull_devs s d))" "list_all (\<lambda>f. length f \<le> 1500) fs"
    "int (length fs + length (rx_queue (snull_devs s (twin d)))) \<le> min quota budget"
  shows "\<exists>s'. do_events conf (map (\<lambda>f. Ev_tx d f True) fs @ [Ev_poll (twin d) (\<lambda>_. True) quota budget]) s = Done s' \<and>
    received (snull_devs s' (twin d)) = received (snull_devs s (twin d)) @ rev (map (wire conf) fs) @ waiting (twin d) s \<and>
    rx_queue (snull_devs s' (twin d)) = [] \<and> mset (ppool (snull_devs s' d)) = mset (pools d)"
proof -
  note inv = reachable_inv [OF assms(1,2)]
  have fs: "list_all (\<lambda>f. length f \<le> ETH_DATA_LEN) fs"
    using assms(8) by (simp add: ETH_DATA_LEN_def)
  obtain s1 where s1: "do_events conf (map (\<lambda>f. Ev_tx d f True) fs) s = Done s1" "snull_inv conf pools s1"
    "waiting (twin d) s1 = rev (map (wire conf) fs) @ waiting (twin d) s"
    "received (snull_devs s1 (twin d)) = received (snull_devs s (twin d))"
    using tx_list [OF inv assms(4,2,3,5,7) fs] by blast
  have len: "length (rx_queue (snull_devs s1 (twin d))) = length fs + length (rx_queue (snull_devs s (twin d)))"
    using arg_cong [OF s1(3), of length] by (simp add: waiting_def)
  define s2 where "s2 = snd (poll_loop (\<lambda>_. True) 0 (twin d) 0 (min quota budget) s1)"
  define s3 where "s3 = snd (snd (snull_poll (\<lambda>_. True) (twin d) quota budget s1))"
  have s2: "rx_queue (snull_devs s2 (twin d)) = []"
    "received (snull_devs s2 (twin d)) = received (snull_devs s1 (twin d)) @ waiting (twin d) s1"
    using poll_loop_all [OF s1(2) twin_less, of 0 d "min quota budget" 0] assms(9) len
    by (simp_all add: s2_def waiting_def)
  have s3: "rx_queue (snull_devs s3 (twin d)) = []" "received (snull_devs s3 (twin d)) = received (snull_devs s2 (twin d))"
    using s2(1) by (auto simp: s3_def s2_def snull_poll_def snull_rx_ints_def split: prod.splits)
  have "rx_queue (snull_devs s1 (twin d)) \<noteq> []"
    using len assms(6) by (metis add_is_0 length_0_conv)
  then have "rx_scheduled (snull_devs s1 (twin d))"
    by (rule inv_conserved(3) [OF s1(2) twin_less])
  then have "snull_inv conf pools s3"
    unfolding s3_def by (intro poll_inv [OF s1(2)]) simp_all
  then have "mset (ppool (snull_devs s3 d)) = mset (pools d)"
    using inv_conserved(1) [of conf pools s3 d] assms(4) s3(1) by simp
  moreover have "do_events conf (map (\<lambda>f. Ev_tx d f True) fs @ [Ev_poll (twin d) (\<lambda>_. True) quota budget]) s = Done s3"
    by (simp add: do_events_append s1(1) s3_def)
  ultimately show ?thesis
    using s1(3,4) s2(2) s3 by auto
qed

section \<open>Witnesses\<close>

definition some_conf :: snull_conf where
  "some_conf = \<lparr>use_napi = True, lockup = 0, ip_fast_csum = (\<lambda>_ _. (0, 0))\<rparr>"

definition some_priv :: snull_priv where
  "some_priv = \<lparr>stats = no_stats, sn_status = 0, ppool = [], rx_queue = [], rx_int_enabled = False, tx_packetlen = 0,
     tx_packetdata = [], priv_skb = None, queue_stopped = False, if_up = False, rx_scheduled = False, dev_addr = [], dev_irq = 0,
     base_addr = 0, mtu = 0, received = []\<rparr>"

definition some_module :: snull_module where
  "some_module = \<lparr>sm_net = \<lparr>snull_devs = (\<lambda>_. some_priv), packets = (\<lambda>_. \<lparr>pkt_dev = 0, pkt_datalen = 0, pkt_data = []\<rparr>),
     live_skbs = [], next_skb = 0\<rparr>, sm_alloc = (\<lambda>_. None), sm_registered = {}\<rparr>"

definition some_env :: snull_env where
  "some_env = \<lparr>netdev_bytes = 1000, register_ok = (\<lambda>_. True), env_pool_size = 1\<rparr>"

lemma some_load_eff:
  obtains md k where "snull_init_module some_env some_module fresh_kmem = Done (Inr 0, md, k)"
    "length (ppool (snull_devs (sm_net md) 0)) = 1" "\<not> if_up (snull_devs (sm_net md) 0)" "rx_queue (snull_devs (sm_net md) 1) = []"
    "received (snull_devs (sm_net md) 1) = []"
proof -
  have "\<exists>md k. snull_init_module some_env some_module fresh_kmem = Done (Inr 0, md, k) \<and>
    length (ppool (snull_devs (sm_net md) 0)) = 1 \<and> \<not> if_up (snull_devs (sm_net md) 0) \<and> rx_queue (snull_devs (sm_net md) 1) = [] \<and>
    received (snull_devs (sm_net md) 1) = []"
    by (simp add: snull_init_module_def alloc_snull_def some_env_def some_module_def fresh_kmem_def kmalloc_def u64_def
        snull_init_def snull_setup_pool_def snull_rx_ints_def some_priv_def Let_def)
  then show thesis
    using that by blast
qed

lemma some_ready:
  obtains md k s where "snull_init_module some_env some_module fresh_kmem = Done (Inr 0, md, k)"
    "do_events some_conf [Ev_open 0] (sm_net md) = Done s" "safe_run some_conf (sm_net md) s"
    "snull_reachable some_conf (\<lambda>d. ppool (snull_devs (sm_net md) d)) s"
    "length (ppool (snull_devs s 0)) = 1" "event_enabled (Ev_tx 0 frame True) s" "rx_queue (snull_devs s 1) = []"
    "received (snull_devs s 1) = []"
proof -
  obtain md k where load: "snull_init_module some_env some_module fresh_kmem = Done (Inr 0, md, k)"
    "length (ppool (snull_devs (sm_net md) 0)) = 1" "\<not> if_up (snull_devs (sm_net md) 0)" "rx_queue (snull_devs (sm_net md) 1) = []"
    "received (snull_devs (sm_net md) 1) = []"
    by (rule some_load_eff) (rule that)
  obtain s where s: "do_event some_conf (Ev_open 0) (sm_net md) = Done s"
    "ppool (snull_devs s 0) = ppool (snull_devs (sm_net md) 0)" "event_enabled (Ev_tx 0 frame True) s"
    "snull_devs s 1 = snull_devs (sm_net md) 1"
    by (simp add: snull_open_def)
  have "event_enabled (Ev_open 0) (sm_net md)" "event_safe (Ev_open 0) (sm_net md)"
    using load by auto
  then have run: "safe_run some_conf (sm_net md) s"
    by (rule safe_run.step [OF safe_run.start _ _ s(1)])
  have "idle_net (sm_net some_module)"
    by (simp add: idle_net_def some_module_def some_priv_def)
  then have "snull_reachable some_conf (\<lambda>d. ppool (snull_devs (sm_net md) d)) s"
    unfolding snull_reachable_def using load(1) run kmem_ok_fresh by blast
  then show thesis
    using load s run by (intro that [of md k s]) (simp_all del: do_event.simps)
qed

lemma some_stalled:
  assumes "length frame \<le> 1500"
  obtains md k s where "snull_init_module some_env some_module fresh_kmem = Done (Inr 0, md, k)"
    "do_events some_conf [Ev_open 0, Ev_tx 0 frame True] (sm_net md) = Done s" "safe_run some_conf (sm_net md) s"
    "snull_reachable some_conf (\<lambda>d. ppool (snull_devs (sm_net md) d)) s"
    "ppool (snull_devs s 0) = []" "event_enabled (Ev_timeout 0 True) s" "length (rx_queue (snull_devs s 1)) = 1"
proof -
  obtain md k s where s: "snull_init_module some_env some_module fresh_kmem = Done (Inr 0, md, k)"
    "do_events some_conf [Ev_open 0] (sm_net md) = Done s" "safe_run some_conf (sm_net md) s"
    "snull_reachable some_conf (\<lambda>d. ppool (snull_devs (sm_net md) d)) s"
    "length (ppool (snull_devs s 0)) = 1" "event_enabled (Ev_tx 0 frame True) s" "rx_queue (snull_devs s 1) = []"
    "received (snull_devs s 1) = []"
    by (rule some_ready) (rule that)
  have lk: "lockup some_conf = 0" "use_napi some_conf"
    by (simp_all add: some_conf_def)
  have len: "length frame \<le> ETH_DATA_LEN"
    using assms by (simp add: ETH_DATA_LEN_def)
  have pos2': "(0::nat) < 2"
    by simp
  obtain p where pool: "ppool (snull_devs s 0) = [p]"
    using s(5) by (auto simp: length_Suc_conv)
  obtain t where t: "do_event some_conf (Ev_tx 0 frame True) s = Done t"
      "snull_devs t 0 = sent some_conf (next_skb s) frame ((snull_devs s 0)\<lparr>ppool := [], queue_stopped := queue_stopped (snull_devs s 0) \<or> ([]::addr list) = []\<rparr>)"
      "snull_devs t (twin 0) = (snull_devs s (twin 0))\<lparr>rx_queue := p # rx_queue (snull_devs s (twin 0)), rx_int_enabled := False, rx_scheduled := True\<rparr>"
    by (rule tx_event_napi [OF reachable_inv [OF s(4) lk(1)] pos2' lk len pool, of True]) (rule that)
  have run: "safe_run some_conf (sm_net md) t"
    by (rule safe_run.step [OF s(3,6) _ t(1)]) (simp add: len)
  have "snull_reachable some_conf (\<lambda>d. ppool (snull_devs (sm_net md) d)) t"
    using s(1) kmem_ok_fresh run unfolding snull_reachable_def
    by (intro exI [of _ some_env] exI [of _ some_module] exI [of _ fresh_kmem] exI [of _ md] exI [of _ k])
      (simp add: idle_net_def some_module_def some_priv_def)
  moreover have "do_events some_conf ([Ev_open 0] @ [Ev_tx 0 frame True]) (sm_net md) = Done t"
    unfolding do_events_append s(2) by (simp add: t(1) del: do_event.simps)
  ultimately show thesis
    using s(1,6,7) run t(2,3) by (intro that [of md k t]) (simp_all add: twin_def del: do_events.simps)
qed


theorem snull_unload_leaks_witness:
  "\<exists>md k s md' k'. snull_init_module some_env some_module fresh_kmem = Done (Inr 0, md, k) \<and>
     do_events some_conf [Ev_open 0, Ev_tx 0 [1, 2] True] (sm_net md) = Done s \<and>
     snull_cleanup (md\<lparr>sm_net := s\<rparr>) k = Done (md', k') \<and> length (rx_queue (snull_devs s 1)) = 1 \<and>
     accounted fresh_kmem [] k' (rx_queue (snull_devs s 0) @ rx_queue (snull_devs s 1))"
proof -
  obtain md k s where s: "snull_init_module some_env some_module fresh_kmem = Done (Inr 0, md, k)"
    "do_events some_conf [Ev_open 0, Ev_tx 0 [1, 2] True] (sm_net md) = Done s" "safe_run some_conf (sm_net md) s"
    "snull_reachable some_conf (\<lambda>d. ppool (snull_devs (sm_net md) d)) s"
    "ppool (snull_devs s 0) = []" "event_enabled (Ev_timeout 0 True) s" "length (rx_queue (snull_devs s 1)) = 1"
    by (rule some_stalled [of "[1, 2]"]) (simp, rule that)
  have "idle_net (sm_net some_module)" "lockup some_conf = 0"
    by (simp_all add: idle_net_def some_module_def some_priv_def some_conf_def)
  then show ?thesis
    using snull_unload_leaks [OF s(1) kmem_ok_fresh _ _ s(3)] s(1,2,7) by blast
qed



theorem snull_poll_newest_first_witness:
  "\<exists>md k s s'. snull_init_module some_env some_module fresh_kmem = Done (Inr 0, md, k) \<and>
     do_events some_conf [Ev_open 0] (sm_net md) = Done s \<and>
     do_events some_conf [Ev_tx 0 [1, 2] True, Ev_poll 1 (\<lambda>_. True) 64 300] s = Done s' \<and>
     received (snull_devs s' 1) = [wire some_conf [1, 2]]"
proof -
  obtain md k s where s: "snull_init_module some_env some_module fresh_kmem = Done (Inr 0, md, k)"
    "do_events some_conf [Ev_open 0] (sm_net md) = Done s" "safe_run some_conf (sm_net md) s"
    "snull_reachable some_conf (\<lambda>d. ppool (snull_devs (sm_net md) d)) s"
    "length (ppool (snull_devs s 0)) = 1" "event_enabled (Ev_tx 0 [1, 2] True) s" "rx_queue (snull_devs s 1) = []"
    "received (snull_devs s 1) = []"
    by (rule some_ready) (rule that)
  have conf: "lockup some_conf = 0" "use_napi some_conf" and up: "if_up (snull_devs s 0)"
    using s(6) by (simp_all add: some_conf_def)
  have "\<exists>s'. do_events some_conf (map (\<lambda>f. Ev_tx 0 f True) [[1, 2]] @ [Ev_poll (twin 0) (\<lambda>_. True) 64 300]) s = Done s' \<and>
    received (snull_devs s' (twin 0)) = received (snull_devs s (twin 0)) @ rev (map (wire some_conf) [[1, 2]]) @ waiting (twin 0) s \<and>
    rx_queue (snull_devs s' (twin 0)) = [] \<and> mset (ppool (snull_devs s' 0)) = mset (ppool (snull_devs (sm_net md) 0))"
    by (rule snull_poll_newest_first [OF s(4) conf _ up]) (simp_all add: s(5) s(7) [unfolded One_nat_def] twin_def)
  then show ?thesis
    using s(1,2,7,8) by (auto simp: twin_def waiting_def simp del: do_events.simps One_nat_def)
qed

end
