(* ===== verification/Tiny_Tty.thy ===== *)
theory Tiny_Tty
  imports Kernel_Prelude
begin

unbundle bit_operations_syntax

text \<open>
  The terminal driver tiny_tty (tty/tiny_tty.c of Kernel/Driver/ldd3-master): four ports without hardware. A timer
  puts a character into the terminal every two seconds while the port is open. The model has the driver, the
  part of the terminal layer of the kernel that calls it, and the timers of the kernel, whose handlers may run while a port is
  closed.
\<close>

section \<open>State\<close>

definition TINY_TTY_MINORS :: nat where "TINY_TTY_MINORS = 4"
definition TTY_FLIPBUF_SIZE :: nat where "TTY_FLIPBUF_SIZE = 512"
definition TINY_DATA_CHARACTER :: byte where "TINY_DATA_CHARACTER = 116"

record async_icount =
  ic_cts :: int
  ic_dsr :: int
  ic_rng :: int
  ic_dcd :: int
  ic_rx :: int
  ic_tx :: int
  ic_frame :: int
  ic_overrun :: int
  ic_parity :: int
  ic_brk :: int
  ic_buf_overrun :: int

record serial_struct =
  ser_type :: int
  ser_line :: int
  ser_port :: int
  ser_irq :: int
  ser_flags :: int
  ser_xmit_fifo_size :: int
  ser_baud_base :: int
  ser_close_delay :: int
  ser_closing_wait :: int
  ser_custom_divisor :: int
  ser_hub6 :: int
  ser_io_type :: int

text \<open>A timer object, with what the kernel keeps in it.\<close>

record tty_timer =
  tm_addr :: addr
  tm_pending :: bool

record tiny_serial =
  ts_addr :: addr
  ts_tty :: nat
  open_count :: int
  ts_sem :: int
  ts_timer :: "tty_timer option"
  ts_msr :: "32 word"
  ts_mcr :: "32 word"
  ts_serial :: serial_struct
  ts_icount :: async_icount

text \<open>A terminal of the kernel: its port, the driver's data (the number of the entry of \<open>tiny_table\<close>), how many openings of it are not closed, the buffer the driver fills and what went on to the readers.\<close>

record tty =
  tty_index :: nat
  driver_data :: "nat option"
  tty_count :: nat
  low_latency :: bool
  flip :: "byte list"
  tty_input :: "byte list"

text \<open>The driver with its terminals. \<open>port_tty\<close> is the terminal of a port, while it has one. \<open>handlers\<close> are
  the entries whose timer handler is running, before it submits the timer again.\<close>

record tiny_sys =
  tiny_table :: "nat \<Rightarrow> tiny_serial option"
  ttys :: "nat \<Rightarrow> tty option"
  port_tty :: "nat \<Rightarrow> nat option"
  next_tty :: nat
  handlers :: "nat list"
  tiny_tty_driver :: "addr option"
  tty_registered :: bool
  tty_devices :: "nat list"
  ty_mem :: kmem

text \<open>The sizes of the structures, and what the memory that \<open>kmalloc\<close> returns holds: it is not cleared. A timer looks
  pending when the memory at its list pointer is not zero.\<close>

record tiny_env =
  tiny_bytes :: int
  timer_bytes :: int
  driver_bytes :: int
  tiny_junk :: "addr \<Rightarrow> tiny_serial"
  timer_junk :: "addr \<Rightarrow> bool"
  tty_latency :: bool
  register_result :: "errno option"

definition on_tiny :: "nat \<Rightarrow> (tiny_serial \<Rightarrow> tiny_serial) \<Rightarrow> tiny_sys \<Rightarrow> tiny_sys" where
  "on_tiny i f s = s\<lparr>tiny_table := (tiny_table s)(i := map_option f (tiny_table s i))\<rparr>"

definition on_tty :: "nat \<Rightarrow> (tty \<Rightarrow> tty) \<Rightarrow> tiny_sys \<Rightarrow> tiny_sys" where
  "on_tty t f s = s\<lparr>ttys := (ttys s)(t := map_option f (ttys s t))\<rparr>"

text \<open>An access to an object that was freed is an access outside of all objects.\<close>

definition the_tiny :: "nat \<Rightarrow> tiny_sys \<Rightarrow> tiny_serial outcome" where
  "the_tiny i s = (case tiny_table s i of None \<Rightarrow> Crash Out_of_bounds | Some tiny \<Rightarrow> Done tiny)"

definition the_tty :: "nat \<Rightarrow> tiny_sys \<Rightarrow> tty outcome" where
  "the_tty t s = (case ttys s t of None \<Rightarrow> Crash Out_of_bounds | Some tty \<Rightarrow> Done tty)"

section \<open>Timers\<close>

definition add_tty_timer :: "nat \<Rightarrow> tiny_sys \<Rightarrow> tiny_sys outcome" where
  "add_tty_timer i s =
     and_then (the_tiny i s) (\<lambda>tiny.
       case ts_timer tiny of
         None \<Rightarrow> Crash Null_deref
       | Some tm \<Rightarrow> if tm_pending tm then Crash Kernel_bug
           else Done (on_tiny i (\<lambda>tiny. tiny\<lparr>ts_timer := Some (tm\<lparr>tm_pending := True\<rparr>)\<rparr>) s))"

definition del_tty_timer :: "nat \<Rightarrow> tiny_sys \<Rightarrow> tiny_sys outcome" where
  "del_tty_timer i s =
     and_then (the_tiny i s) (\<lambda>tiny.
       case ts_timer tiny of
         None \<Rightarrow> Crash Null_deref
       | Some tm \<Rightarrow> Done (on_tiny i (\<lambda>tiny. tiny\<lparr>ts_timer := Some (tm\<lparr>tm_pending := False\<rparr>)\<rparr>) s))"

text \<open>With \<open>low_latency\<close> the buffer goes to the readers at once, otherwise when the kernel comes to it, by the same function.\<close>

definition flush_flip :: "tty \<Rightarrow> tty" where
  "flush_flip tty = tty\<lparr>flip := [], tty_input := tty_input tty @ flip tty\<rparr>"

definition tty_flip_buffer_push :: "tty \<Rightarrow> tty" where
  "tty_flip_buffer_push tty = (if low_latency tty then flush_flip tty else tty)"

definition tty_insert_flip_char :: "byte \<Rightarrow> tty \<Rightarrow> tty" where
  "tty_insert_flip_char c tty = (if length (flip tty) < TTY_FLIPBUF_SIZE then tty\<lparr>flip := flip tty @ [c]\<rparr> else tty)"

text \<open>The handler up to the point where it submits the timer again, and the rest of it.\<close>

definition timer_send :: "tty \<Rightarrow> tty" where
  "timer_send tty =
     (let tty = (if length (flip tty) \<ge> TTY_FLIPBUF_SIZE then tty_flip_buffer_push tty else tty)
      in tty_flip_buffer_push (tty_insert_flip_char TINY_DATA_CHARACTER tty))"

definition tiny_timer_send :: "nat \<Rightarrow> tiny_sys \<Rightarrow> tiny_sys outcome" where
  "tiny_timer_send i s =
     and_then (the_tiny i s) (\<lambda>tiny.
     and_then (the_tty (ts_tty tiny) s) (\<lambda>_.
       Done (on_tty (ts_tty tiny) timer_send s)))"

definition tiny_timer :: "nat \<Rightarrow> tiny_sys \<Rightarrow> tiny_sys outcome" where
  "tiny_timer i s = and_then (tiny_timer_send i s) (add_tty_timer i)"

section \<open>Opening and closing\<close>

definition create_tiny :: "tiny_env \<Rightarrow> nat \<Rightarrow> tiny_sys \<Rightarrow> (errno + unit) \<times> tiny_sys" where
  "create_tiny env i s =
     (case tiny_table s i of
        Some _ \<Rightarrow> (Inr (), s)
      | None \<Rightarrow>
          (case kmalloc (tiny_bytes env) (ty_mem s) of
             (None, k) \<Rightarrow> (Inl ENOMEM, s\<lparr>ty_mem := k\<rparr>)
           | (Some a, k) \<Rightarrow>
               (Inr (), s\<lparr>ty_mem := k, tiny_table := (tiny_table s)(i := Some ((tiny_junk env a)
                  \<lparr>ts_addr := a, ts_sem := 1, open_count := 0, ts_timer := None\<rparr>))\<rparr>)))"

text \<open>The timer of a port: allocated when it has none, and submitted. It is never initialised.\<close>

definition create_timer :: "tiny_env \<Rightarrow> nat \<Rightarrow> tiny_sys \<Rightarrow> ((errno + unit) \<times> tiny_sys) outcome" where
  "create_timer env i s =
     and_then (the_tiny i s) (\<lambda>tiny.
       case ts_timer tiny of
         Some _ \<Rightarrow> Done (Inr (), s)
       | None \<Rightarrow>
           (case kmalloc (timer_bytes env) (ty_mem s) of
              (None, k) \<Rightarrow> Done (Inl ENOMEM, s\<lparr>ty_mem := k\<rparr>)
            | (Some a, k) \<Rightarrow>
                Done (Inr (), on_tiny i (\<lambda>tiny. tiny\<lparr>ts_timer := Some \<lparr>tm_addr = a, tm_pending = timer_junk env a\<rparr>\<rparr>) (s\<lparr>ty_mem := k\<rparr>))))"

definition tiny_up :: "nat \<Rightarrow> tiny_sys \<Rightarrow> tiny_sys" where
  "tiny_up i = on_tiny i (\<lambda>tiny. tiny\<lparr>ts_sem := up (ts_sem tiny)\<rparr>)"

definition tiny_open :: "tiny_env \<Rightarrow> nat \<Rightarrow> tiny_sys \<Rightarrow> ((errno + int) \<times> tiny_sys) outcome" where
  "tiny_open env t s =
     and_then (the_tty t s) (\<lambda>tty.
       let s = on_tty t (\<lambda>tty. tty\<lparr>driver_data := None\<rparr>) s;
           i = tty_index tty
       in case create_tiny env i s of
            (Inl e, s) \<Rightarrow> Done (Inl e, s)
          | (Inr _, s) \<Rightarrow>
              and_then (the_tiny i s) (\<lambda>tiny.
              and_then (down (ts_sem tiny)) (\<lambda>sem.
                let s = on_tty t (\<lambda>tty. tty\<lparr>driver_data := Some i\<rparr>) s;
                    s = on_tiny i (\<lambda>tiny. tiny\<lparr>ts_sem := sem, ts_tty := t, open_count := open_count tiny + 1\<rparr>) s
                in if open_count tiny + 1 = 1
                   then and_then (create_timer env i s) (\<lambda>(r, s).
                          case r of
                            Inl e \<Rightarrow> Done (Inl e, tiny_up i s)
                          | Inr _ \<Rightarrow> and_then (add_tty_timer i s) (\<lambda>s. Done (Inr 0, tiny_up i s)))
                   else Done (Inr 0, tiny_up i s))))"

definition do_close :: "nat \<Rightarrow> tiny_sys \<Rightarrow> tiny_sys outcome" where
  "do_close i s =
     and_then (the_tiny i s) (\<lambda>tiny.
     and_then (down (ts_sem tiny)) (\<lambda>sem.
       let s = on_tiny i (\<lambda>tiny. tiny\<lparr>ts_sem := sem\<rparr>) s in
       if open_count tiny = 0 then Done (tiny_up i s)
       else
         let s = on_tiny i (\<lambda>tiny. tiny\<lparr>open_count := open_count tiny - 1\<rparr>) s in
         and_then (if open_count tiny - 1 \<le> 0 then del_tty_timer i s else Done s) (\<lambda>s. Done (tiny_up i s))))"

definition tiny_close :: "nat \<Rightarrow> tiny_sys \<Rightarrow> tiny_sys outcome" where
  "tiny_close t s =
     and_then (the_tty t s) (\<lambda>tty. case driver_data tty of None \<Rightarrow> Done s | Some i \<Rightarrow> do_close i s)"

section \<open>Writing\<close>

text \<open>The bytes written go to the log. The result is the error that \<open>retval\<close> starts with, on every path.\<close>

definition tiny_write :: "nat \<Rightarrow> byte list \<Rightarrow> tiny_sys \<Rightarrow> ((errno + int) \<times> byte list \<times> tiny_sys) outcome" where
  "tiny_write t buffer s =
     and_then (the_tty t s) (\<lambda>tty.
       case driver_data tty of
         None \<Rightarrow> Done (Inl ENODEV, [], s)
       | Some i \<Rightarrow>
           and_then (the_tiny i s) (\<lambda>tiny.
           and_then (down (ts_sem tiny)) (\<lambda>sem.
             let s = on_tiny i (\<lambda>tiny. tiny\<lparr>ts_sem := sem\<rparr>) s in
             if open_count tiny = 0 then Done (Inl EINVAL, [], tiny_up i s)
             else Done (Inl EINVAL, buffer, tiny_up i s))))"

definition tiny_write_room :: "nat \<Rightarrow> tiny_sys \<Rightarrow> ((errno + int) \<times> tiny_sys) outcome" where
  "tiny_write_room t s =
     and_then (the_tty t s) (\<lambda>tty.
       case driver_data tty of
         None \<Rightarrow> Done (Inl ENODEV, s)
       | Some i \<Rightarrow>
           and_then (the_tiny i s) (\<lambda>tiny.
           and_then (down (ts_sem tiny)) (\<lambda>sem.
             let s = on_tiny i (\<lambda>tiny. tiny\<lparr>ts_sem := sem\<rparr>) s in
             Done (if open_count tiny = 0 then Inl EINVAL else Inr 255, tiny_up i s))))"

section \<open>Settings\<close>

record termios =
  c_cflag :: "32 word"
  c_iflag :: "32 word"

text \<open>What \<open>tiny_set_termios\<close> reads from the settings and logs.\<close>

record line_settings =
  ls_bits :: nat
  ls_parity :: "bool option"
  ls_stop_bits :: nat
  ls_rtscts :: bool
  ls_xon_inbound :: "bool option"
  ls_xon_outbound :: "bool option"
  ls_baud :: int

definition RELEVANT_IFLAG :: "32 word \<Rightarrow> 32 word" where
  "RELEVANT_IFLAG iflag = iflag AND (0x1 OR 0x2 OR 0x4 OR 0x8 OR 0x10)"

definition data_bits :: "32 word \<Rightarrow> nat" where
  "data_bits cflag = (if cflag AND 0x30 = 0 then 5 else if cflag AND 0x30 = 0x10 then 6 else if cflag AND 0x30 = 0x20 then 7 else 8)"

definition I_IXON :: "termios \<Rightarrow> bool" where "I_IXON tm \<longleftrightarrow> c_iflag tm AND 0x400 \<noteq> 0"
definition I_IXOFF :: "termios \<Rightarrow> bool" where "I_IXOFF tm \<longleftrightarrow> c_iflag tm AND 0x1000 \<noteq> 0"

text \<open>Flow control by characters is only logged when one of its directions is on. \<open>baud\<close> is the rate the kernel reads from the settings.\<close>

definition tiny_set_termios :: "(termios \<Rightarrow> int) \<Rightarrow> termios option \<Rightarrow> termios \<Rightarrow> line_settings option" where
  "tiny_set_termios baud old_termios tm =
     (let cflag = c_cflag tm in
      if (case old_termios of
            None \<Rightarrow> False
          | Some old \<Rightarrow> cflag = c_cflag old \<and> RELEVANT_IFLAG (c_iflag tm) = RELEVANT_IFLAG (c_iflag old))
      then None
      else Some \<lparr>ls_bits = data_bits cflag,
        ls_parity = (if cflag AND 0x100 \<noteq> 0 then Some (cflag AND 0x200 \<noteq> 0) else None),
        ls_stop_bits = (if cflag AND 0x40 \<noteq> 0 then 2 else 1),
        ls_rtscts = (cflag AND 0x80000000 \<noteq> 0),
        ls_xon_inbound = (if I_IXOFF tm \<or> I_IXON tm then Some (I_IXOFF tm) else None),
        ls_xon_outbound = (if I_IXOFF tm \<or> I_IXON tm then Some (I_IXON tm) else None),
        ls_baud = baud tm\<rparr>)"

section \<open>Modem lines\<close>

definition MCR_DTR :: "32 word" where "MCR_DTR = 0x01"
definition MCR_RTS :: "32 word" where "MCR_RTS = 0x02"
definition MCR_LOOP :: "32 word" where "MCR_LOOP = 0x04"
definition MSR_CTS :: "32 word" where "MSR_CTS = 0x08"
definition MSR_CD :: "32 word" where "MSR_CD = 0x10"
definition MSR_RI :: "32 word" where "MSR_RI = 0x20"
definition MSR_DSR :: "32 word" where "MSR_DSR = 0x40"

definition TIOCM_DTR :: "32 word" where "TIOCM_DTR = 0x002"
definition TIOCM_RTS :: "32 word" where "TIOCM_RTS = 0x004"
definition TIOCM_CTS :: "32 word" where "TIOCM_CTS = 0x020"
definition TIOCM_CAR :: "32 word" where "TIOCM_CAR = 0x040"
definition TIOCM_RI :: "32 word" where "TIOCM_RI = 0x080"
definition TIOCM_DSR :: "32 word" where "TIOCM_DSR = 0x100"
definition TIOCM_LOOP :: "32 word" where "TIOCM_LOOP = 0x8000"

definition modem_bits :: "32 word \<Rightarrow> 32 word \<Rightarrow> 32 word" where
  "modem_bits mcr msr =
     (if mcr AND MCR_DTR \<noteq> 0 then TIOCM_DTR else 0) OR (if mcr AND MCR_RTS \<noteq> 0 then TIOCM_RTS else 0) OR
     (if mcr AND MCR_LOOP \<noteq> 0 then TIOCM_LOOP else 0) OR (if msr AND MSR_CTS \<noteq> 0 then TIOCM_CTS else 0) OR
     (if msr AND MSR_CD \<noteq> 0 then TIOCM_CAR else 0) OR (if msr AND MSR_RI \<noteq> 0 then TIOCM_RI else 0) OR
     (if msr AND MSR_DSR \<noteq> 0 then TIOCM_DSR else 0)"

definition tiny_tiocmget :: "nat \<Rightarrow> tiny_sys \<Rightarrow> (32 word) outcome" where
  "tiny_tiocmget t s =
     and_then (the_tty t s) (\<lambda>tty.
       case driver_data tty of
         None \<Rightarrow> Crash Null_deref
       | Some i \<Rightarrow> and_then (the_tiny i s) (\<lambda>tiny. Done (modem_bits (ts_mcr tiny) (ts_msr tiny))))"

definition new_mcr :: "32 word \<Rightarrow> 32 word \<Rightarrow> 32 word \<Rightarrow> 32 word" where
  "new_mcr set_bits clear mcr =
     (let mcr = (if set_bits AND TIOCM_RTS \<noteq> 0 then mcr OR MCR_RTS else mcr);
          mcr = (if set_bits AND TIOCM_DTR \<noteq> 0 then mcr OR MCR_RTS else mcr);
          mcr = (if clear AND TIOCM_RTS \<noteq> 0 then mcr AND NOT MCR_RTS else mcr)
      in if clear AND TIOCM_DTR \<noteq> 0 then mcr AND NOT MCR_RTS else mcr)"

definition tiny_tiocmset :: "nat \<Rightarrow> 32 word \<Rightarrow> 32 word \<Rightarrow> tiny_sys \<Rightarrow> (int \<times> tiny_sys) outcome" where
  "tiny_tiocmset t set_bits clear s =
     and_then (the_tty t s) (\<lambda>tty.
       case driver_data tty of
         None \<Rightarrow> Crash Null_deref
       | Some i \<Rightarrow> and_then (the_tiny i s) (\<lambda>_. Done (0, on_tiny i (\<lambda>tiny. tiny\<lparr>ts_mcr := new_mcr set_bits clear (ts_mcr tiny)\<rparr>) s)))"

section \<open>The proc file\<close>

definition proc_header :: string where
  "proc_header = ''tinyserinfo:1.0 driver:v2.0'' @ [CHR 0x0A]"

definition port_line :: "nat \<Rightarrow> string" where
  "port_line i = [char_of (48 + i), CHR 0x0A]"

text \<open>The loop over the ports: the page as far as it is filled, what was written before and dropped, and
  whether the loop ran to its end.\<close>

fun port_lines :: "(nat \<Rightarrow> bool) \<Rightarrow> nat list \<Rightarrow> nat \<Rightarrow> nat \<Rightarrow> string \<Rightarrow> nat \<Rightarrow> bool \<times> string \<times> nat" where
  "port_lines present [] off cnt page pos = (True, page, pos)"
| "port_lines present (i # is) off cnt page pos =
     (if \<not> length page < 4096 then (True, page, pos)
      else if \<not> present i then port_lines present is off cnt page pos
      else let page = page @ port_line i in
        if length page + pos > off + cnt then (False, page, pos)
        else if length page + pos < off then port_lines present is off cnt [] (pos + length page)
        else port_lines present is off cnt page pos)"

text \<open>The result: whether the end of the file was seen, and the bytes the reader gets.\<close>

definition tiny_read_proc :: "nat \<Rightarrow> nat \<Rightarrow> tiny_sys \<Rightarrow> bool \<times> string" where
  "tiny_read_proc off cnt s =
     (case port_lines (\<lambda>i. tiny_table s i \<noteq> None) [0..<TINY_TTY_MINORS] off cnt proc_header 0 of
        (eof, page, pos) \<Rightarrow>
          if off \<ge> length page + pos then (eof, [])
          else (eof, take (if cnt < pos + length page - off then cnt else pos + length page - off) (drop (off - pos) page)))"

section \<open>Commands\<close>

definition TIOCGSERIAL :: int where "TIOCGSERIAL = 0x541E"
definition TIOCMIWAIT :: int where "TIOCMIWAIT = 0x545C"
definition TIOCGICOUNT :: int where "TIOCGICOUNT = 0x545D"

datatype tty_answer = No_answer | Serial_answer serial_struct | Icount_answer async_icount

text \<open>\<open>copied\<close> says whether the answer could be written to the user. A second is \<open>hz\<close> ticks.\<close>

definition serial_of :: "int \<Rightarrow> serial_struct \<Rightarrow> serial_struct" where
  "serial_of hz ser = ser\<lparr>ser_flags := 0x40 + 0x80, ser_close_delay := 5 * hz, ser_closing_wait := 30 * hz\<rparr>"

definition tiny_ioctl_tiocgserial :: "int \<Rightarrow> bool \<Rightarrow> nat \<Rightarrow> int \<Rightarrow> int \<Rightarrow> tiny_sys \<Rightarrow> ((errno + int) \<times> tty_answer) outcome" where
  "tiny_ioctl_tiocgserial hz copied t cmd arg s =
     and_then (the_tty t s) (\<lambda>tty.
       if cmd \<noteq> TIOCGSERIAL then Done (Inl ENOIOCTLCMD, No_answer)
       else if arg = 0 then Done (Inl EFAULT, No_answer)
       else case driver_data tty of
         None \<Rightarrow> Crash Null_deref
       | Some i \<Rightarrow> and_then (the_tiny i s) (\<lambda>tiny.
           Done (if copied then (Inr 0, Serial_answer (serial_of hz (ts_serial tiny))) else (Inl EFAULT, No_answer))))"

text \<open>The counters with each wake-up, and whether a signal is pending then. No wake-up is left: the process sleeps.\<close>

definition modem_same :: "async_icount \<Rightarrow> async_icount \<Rightarrow> bool" where
  "modem_same a b \<longleftrightarrow> ic_rng a = ic_rng b \<and> ic_dsr a = ic_dsr b \<and> ic_dcd a = ic_dcd b \<and> ic_cts a = ic_cts b"

fun wait_change :: "32 word \<Rightarrow> async_icount \<Rightarrow> (bool \<times> async_icount) list \<Rightarrow> (errno + int) outcome" where
  "wait_change arg cprev [] = Block"
| "wait_change arg cprev ((sig, cnow) # ws) =
     (if sig then Done (Inl ERESTARTSYS)
      else if modem_same cnow cprev then Done (Inl EIO)
      else if arg AND TIOCM_RI \<noteq> 0 \<and> ic_rng cnow \<noteq> ic_rng cprev \<or> arg AND TIOCM_DSR \<noteq> 0 \<and> ic_dsr cnow \<noteq> ic_dsr cprev \<or>
        arg AND TIOCM_CAR \<noteq> 0 \<and> ic_dcd cnow \<noteq> ic_dcd cprev \<or> arg AND TIOCM_CTS \<noteq> 0 \<and> ic_cts cnow \<noteq> ic_cts cprev
      then Done (Inr 0)
      else wait_change arg cnow ws)"

definition tiny_ioctl_tiocmiwait ::
    "(bool \<times> async_icount) list \<Rightarrow> nat \<Rightarrow> int \<Rightarrow> int \<Rightarrow> tiny_sys \<Rightarrow> ((errno + int) \<times> tty_answer) outcome" where
  "tiny_ioctl_tiocmiwait ws t cmd arg s =
     and_then (the_tty t s) (\<lambda>tty.
       if cmd \<noteq> TIOCMIWAIT then Done (Inl ENOIOCTLCMD, No_answer)
       else case driver_data tty of
         None \<Rightarrow> Crash Null_deref
       | Some i \<Rightarrow> and_then (the_tiny i s) (\<lambda>tiny.
           and_then (wait_change (word_of_int arg) (ts_icount tiny) ws) (\<lambda>r. Done (r, No_answer))))"

definition tiny_ioctl_tiocgicount :: "bool \<Rightarrow> nat \<Rightarrow> int \<Rightarrow> int \<Rightarrow> tiny_sys \<Rightarrow> ((errno + int) \<times> tty_answer) outcome" where
  "tiny_ioctl_tiocgicount copied t cmd arg s =
     and_then (the_tty t s) (\<lambda>tty.
       if cmd \<noteq> TIOCGICOUNT then Done (Inl ENOIOCTLCMD, No_answer)
       else case driver_data tty of
         None \<Rightarrow> Crash Null_deref
       | Some i \<Rightarrow> and_then (the_tiny i s) (\<lambda>tiny.
           Done (if copied then (Inr 0, Icount_answer (ts_icount tiny)) else (Inl EFAULT, No_answer))))"

definition tiny_ioctl ::
    "int \<Rightarrow> bool \<Rightarrow> (bool \<times> async_icount) list \<Rightarrow> nat \<Rightarrow> int \<Rightarrow> int \<Rightarrow> tiny_sys \<Rightarrow> ((errno + int) \<times> tty_answer) outcome" where
  "tiny_ioctl hz copied ws t cmd arg s =
     (if cmd = TIOCGSERIAL then tiny_ioctl_tiocgserial hz copied t cmd arg s
      else if cmd = TIOCMIWAIT then tiny_ioctl_tiocmiwait ws t cmd arg s
      else if cmd = TIOCGICOUNT then tiny_ioctl_tiocgicount copied t cmd arg s
      else Done (Inl ENOIOCTLCMD, No_answer))"

section \<open>Loading and unloading\<close>

definition tiny_init :: "tiny_env \<Rightarrow> tiny_sys \<Rightarrow> ((errno + int) \<times> tiny_sys) outcome" where
  "tiny_init env s =
     (case kmalloc (driver_bytes env) (ty_mem s) of
        (None, k) \<Rightarrow> Done (Inl ENOMEM, s\<lparr>ty_mem := k, tiny_tty_driver := None\<rparr>)
      | (Some a, k) \<Rightarrow>
          (case register_result env of
             Some e \<Rightarrow> and_then (kfree a k) (\<lambda>k. Done (Inl e, s\<lparr>ty_mem := k, tiny_tty_driver := Some a\<rparr>))
           | None \<Rightarrow> Done (Inr 0, s\<lparr>ty_mem := k, tiny_tty_driver := Some a, tty_registered := True,
               tty_devices := [0..<TINY_TTY_MINORS]\<rparr>)))"

text \<open>The loop that closes a port that is open; \<open>n\<close> bounds its turns.\<close>

primrec close_loop :: "nat \<Rightarrow> nat \<Rightarrow> tiny_sys \<Rightarrow> tiny_sys outcome" where
  "close_loop i 0 s = Done s"
| "close_loop i (Suc n) s =
     and_then (the_tiny i s) (\<lambda>tiny. if open_count tiny = 0 then Done s else and_then (do_close i s) (close_loop i n))"

definition exit_port :: "nat \<Rightarrow> tiny_sys \<Rightarrow> tiny_sys outcome" where
  "exit_port i s =
     (case tiny_table s i of
        None \<Rightarrow> Done s
      | Some tiny \<Rightarrow>
          and_then (close_loop i (nat (open_count tiny)) s) (\<lambda>s.
          and_then (del_tty_timer i s) (\<lambda>s.
          and_then (the_tiny i s) (\<lambda>tiny.
          and_then (case ts_timer tiny of None \<Rightarrow> Done (ty_mem s) | Some tm \<Rightarrow> kfree (tm_addr tm) (ty_mem s)) (\<lambda>k.
          and_then (kfree (ts_addr tiny) k) (\<lambda>k.
            Done (s\<lparr>ty_mem := k, tiny_table := (tiny_table s)(i := None)\<rparr>)))))))"

definition tiny_exit :: "tiny_sys \<Rightarrow> tiny_sys outcome" where
  "tiny_exit s =
     and_then (exit_port 0 (s\<lparr>tty_devices := [], tty_registered := False\<rparr>)) (\<lambda>s.
     and_then (exit_port 1 s) (\<lambda>s.
     and_then (exit_port 2 s) (exit_port 3)))"

section \<open>The terminal layer\<close>

text \<open>The kernel gives a port one terminal from its first opening to its last closing. It closes what it has failed to
  open. When a terminal is freed no opening of it is left.\<close>

definition tty_release :: "nat \<Rightarrow> nat \<Rightarrow> tiny_sys \<Rightarrow> tiny_sys outcome" where
  "tty_release i t s =
     and_then (tiny_close t s) (\<lambda>s.
     and_then (the_tty t s) (\<lambda>tty.
       Done (if tty_count tty \<le> 1 then s\<lparr>ttys := (ttys s)(t := None), port_tty := (port_tty s)(i := None)\<rparr>
         else on_tty t (\<lambda>tty. tty\<lparr>tty_count := tty_count tty - 1\<rparr>) s)))"

definition find_tty :: "tiny_env \<Rightarrow> nat \<Rightarrow> tiny_sys \<Rightarrow> nat \<times> tiny_sys" where
  "find_tty env i s =
     (case port_tty s i of
        Some t \<Rightarrow> (t, on_tty t (\<lambda>tty. tty\<lparr>tty_count := tty_count tty + 1\<rparr>) s)
      | None \<Rightarrow> (next_tty s, s\<lparr>next_tty := Suc (next_tty s), port_tty := (port_tty s)(i := Some (next_tty s)),
          ttys := (ttys s)(next_tty s := Some \<lparr>tty_index = i, driver_data = None, tty_count = 1, low_latency = tty_latency env,
            flip = [], tty_input = []\<rparr>)\<rparr>))"

definition tty_open :: "tiny_env \<Rightarrow> nat \<Rightarrow> tiny_sys \<Rightarrow> ((errno + int) \<times> tiny_sys) outcome" where
  "tty_open env i s =
     (case find_tty env i s of
        (t, s) \<Rightarrow>
          and_then (tiny_open env t s) (\<lambda>(r, s).
            case r of Inr n \<Rightarrow> Done (Inr n, s) | Inl e \<Rightarrow> and_then (tty_release i t s) (\<lambda>s. Done (Inl e, s))))"

text \<open>What happens: a port is opened or closed, a timer runs out and its handler starts, the handler goes on to submit the timer, the kernel
  passes on the buffer of a terminal.\<close>

datatype tty_event = Open_port nat | Close_port nat | Timer_fires nat | Timer_resubmits nat | Flush_port nat

fun tty_enabled :: "tty_event \<Rightarrow> tiny_sys \<Rightarrow> bool" where
  "tty_enabled (Open_port i) s \<longleftrightarrow> i < TINY_TTY_MINORS"
| "tty_enabled (Close_port i) s \<longleftrightarrow> port_tty s i \<noteq> None"
| "tty_enabled (Timer_fires i) s \<longleftrightarrow>
     (case tiny_table s i of None \<Rightarrow> False | Some tiny \<Rightarrow> (case ts_timer tiny of None \<Rightarrow> False | Some tm \<Rightarrow> tm_pending tm)) \<and> i \<notin> set (handlers s)"
| "tty_enabled (Timer_resubmits i) s \<longleftrightarrow> i \<in> set (handlers s)"
| "tty_enabled (Flush_port i) s \<longleftrightarrow> port_tty s i \<noteq> None"

fun do_tty_event :: "tiny_env \<Rightarrow> tty_event \<Rightarrow> tiny_sys \<Rightarrow> tiny_sys outcome" where
  "do_tty_event env (Open_port i) s = and_then (tty_open env i s) (\<lambda>(r, s). Done s)"
| "do_tty_event env (Close_port i) s = (case port_tty s i of None \<Rightarrow> Done s | Some t \<Rightarrow> tty_release i t s)"
| "do_tty_event env (Timer_fires i) s =
     and_then (del_tty_timer i s) (\<lambda>s. and_then (tiny_timer_send i s) (\<lambda>s. Done (s\<lparr>handlers := i # handlers s\<rparr>)))"
| "do_tty_event env (Timer_resubmits i) s = add_tty_timer i (s\<lparr>handlers := remove1 i (handlers s)\<rparr>)"
| "do_tty_event env (Flush_port i) s = (case port_tty s i of None \<Rightarrow> Done s | Some t \<Rightarrow> Done (on_tty t flush_flip s))"

section \<open>The invariant\<close>

lemma on_tiny_simps [simp]:
  "tiny_table (on_tiny i f s) = (tiny_table s)(i := map_option f (tiny_table s i))"
  "ttys (on_tiny i f s) = ttys s" "port_tty (on_tiny i f s) = port_tty s" "next_tty (on_tiny i f s) = next_tty s"
  "handlers (on_tiny i f s) = handlers s" "ty_mem (on_tiny i f s) = ty_mem s" "tiny_tty_driver (on_tiny i f s) = tiny_tty_driver s"
  "tty_registered (on_tiny i f s) = tty_registered s" "tty_devices (on_tiny i f s) = tty_devices s"
  by (simp_all add: on_tiny_def)

lemma on_tty_simps [simp]:
  "ttys (on_tty t g s) = (ttys s)(t := map_option g (ttys s t))"
  "tiny_table (on_tty t g s) = tiny_table s" "port_tty (on_tty t g s) = port_tty s" "next_tty (on_tty t g s) = next_tty s"
  "handlers (on_tty t g s) = handlers s" "ty_mem (on_tty t g s) = ty_mem s" "tiny_tty_driver (on_tty t g s) = tiny_tty_driver s"
  "tty_registered (on_tty t g s) = tty_registered s" "tty_devices (on_tty t g s) = tty_devices s"
  by (simp_all add: on_tty_def)

text \<open>A port that was opened once has a timer. It is pending exactly while the port has a terminal, and the driver
  counts the openings like the kernel.\<close>

definition tty_ok :: "nat \<Rightarrow> tiny_serial \<Rightarrow> tty \<Rightarrow> bool" where
  "tty_ok i tiny tty \<longleftrightarrow> tty_index tty = i \<and> driver_data tty = Some i \<and> open_count tiny = int (tty_count tty) \<and>
     0 < tty_count tty \<and> length (flip tty) \<le> TTY_FLIPBUF_SIZE"

definition port_ok :: "nat \<Rightarrow> tiny_sys \<Rightarrow> bool" where
  "port_ok i s \<longleftrightarrow>
     (case tiny_table s i of
        None \<Rightarrow> port_tty s i = None
      | Some tiny \<Rightarrow> i < TINY_TTY_MINORS \<and> ts_sem tiny = 1 \<and>
          (\<exists>tm. ts_timer tiny = Some tm \<and> tm_pending tm = (port_tty s i \<noteq> None)) \<and>
          (case port_tty s i of
             None \<Rightarrow> open_count tiny = 0
           | Some t \<Rightarrow> ts_tty tiny = t \<and> (\<exists>tty. ttys s t = Some tty \<and> tty_ok i tiny tty)))"

definition port_addrs :: "tiny_serial option \<Rightarrow> addr list" where
  "port_addrs p = (case p of None \<Rightarrow> []
     | Some tiny \<Rightarrow> ts_addr tiny # (case ts_timer tiny of None \<Rightarrow> [] | Some tm \<Rightarrow> [tm_addr tm]))"

definition tiny_addrs :: "tiny_sys \<Rightarrow> addr list" where
  "tiny_addrs s = port_addrs (tiny_table s 0) @ port_addrs (tiny_table s 1) @ port_addrs (tiny_table s 2) @ port_addrs (tiny_table s 3)"

text \<open>The memory for timers is there, and never looks as if the timer were pending.\<close>

definition timers_ready :: "tiny_env \<Rightarrow> kmem \<Rightarrow> bool" where
  "timers_ready env k \<longleftrightarrow> (\<forall>a. \<not> timer_junk env a) \<and> km_fail k = (\<lambda>_. False) \<and> u64 (timer_bytes env) \<le> km_max k"

definition tty_inv :: "tiny_env \<Rightarrow> kmem \<Rightarrow> addr list \<Rightarrow> tiny_sys \<Rightarrow> bool" where
  "tty_inv env k0 own s \<longleftrightarrow> (\<forall>i. port_ok i s) \<and> (\<forall>t \<ge> next_tty s. ttys s t = None) \<and> handlers s = [] \<and>
     timers_ready env (ty_mem s) \<and> accounted k0 [] (ty_mem s) (own @ tiny_addrs s)"

lemma port_ok_frame:
  assumes "port_ok j s" "tiny_table s' j = tiny_table s j" "port_tty s' j = port_tty s j"
    "\<And>t. port_tty s j = Some t \<Longrightarrow> ttys s' t = ttys s t"
  shows "port_ok j s'"
  using assms by (auto simp: port_ok_def split: option.splits)

lemma port_ok_tty:
  assumes "port_ok i s" "port_tty s i = Some t"
  obtains tiny tm tty where "tiny_table s i = Some tiny" "ts_sem tiny = 1" "ts_timer tiny = Some tm" "tm_pending tm"
    "ts_tty tiny = t" "ttys s t = Some tty" "tty_ok i tiny tty" "i < TINY_TTY_MINORS"
  using assms by (auto simp: port_ok_def split: option.splits)

lemma other_tty:
  assumes "\<forall>i. port_ok i s" "port_tty s i = Some t" "port_tty s j = Some t"
  shows "i = j"
proof -
  obtain tiny tm tty where "tty_ok i tiny tty" "ttys s t = Some tty"
    using port_ok_tty [OF spec [OF assms(1)] assms(2)] by metis
  moreover obtain tiny' tm' tty' where "tty_ok j tiny' tty'" "ttys s t = Some tty'"
    using port_ok_tty [OF spec [OF assms(1)] assms(3)] by metis
  ultimately show ?thesis
    by (simp add: tty_ok_def)
qed

lemma open_again:
  assumes "port_ok i s" "port_tty s i = Some t"
  obtains s' tiny tty where "tty_open env i s = Done (Inr 0, s')" "tiny_table s i = Some tiny" "ttys s t = Some tty" "tty_ok i tiny tty"
    "tiny_table s' = (tiny_table s)(i \<mapsto> tiny\<lparr>open_count := open_count tiny + 1\<rparr>)"
    "ttys s' = (ttys s)(t \<mapsto> tty\<lparr>tty_count := tty_count tty + 1\<rparr>)" "port_tty s' = port_tty s" "next_tty s' = next_tty s"
    "handlers s' = handlers s" "ty_mem s' = ty_mem s"
proof -
  obtain tiny tm tty where p: "tiny_table s i = Some tiny" "ts_sem tiny = 1" "ts_timer tiny = Some tm" "tm_pending tm"
    "ts_tty tiny = t" "ttys s t = Some tty" "tty_ok i tiny tty" "i < TINY_TTY_MINORS"
    by (rule port_ok_tty [OF assms])
  have c: "open_count tiny \<noteq> 0" "driver_data tty = Some i" "tty_index tty = i"
    using p(7) by (auto simp: tty_ok_def)
  have e1: "tiny\<lparr>ts_tty := t, open_count := open_count tiny + 1, ts_sem := 1\<rparr> = tiny\<lparr>open_count := open_count tiny + 1\<rparr>"
    using p(2,5) by (intro tiny_serial.equality) simp_all
  have e2: "tty\<lparr>tty_count := Suc (tty_count tty), driver_data := Some i\<rparr> = tty\<lparr>tty_count := tty_count tty + 1\<rparr>"
    using c(2) by (intro tty.equality) simp_all
  show thesis
    by (rule that [of "on_tiny i (\<lambda>tiny. tiny\<lparr>open_count := open_count tiny + 1\<rparr>) (on_tty t (\<lambda>tty. tty\<lparr>tty_count := tty_count tty + 1\<rparr>) s)" tiny tty])
      (use p c assms(2) in \<open>simp_all add: e1 e2 tty_open_def find_tty_def tiny_open_def the_tty_def the_tiny_def create_tiny_def Let_def tiny_up_def up_def
          on_tiny_def on_tty_def\<close>)
qed

lemma open_first:
  assumes "port_ok i s" "port_tty s i = None" "tiny_table s i = Some tiny"
  obtains s' tm where "tty_open env i s = Done (Inr 0, s')" "ts_timer tiny = Some tm"
    "tiny_table s' = (tiny_table s)(i \<mapsto> tiny\<lparr>ts_tty := next_tty s, open_count := 1, ts_timer := Some (tm\<lparr>tm_pending := True\<rparr>)\<rparr>)"
    "ttys s' = (ttys s)(next_tty s \<mapsto> \<lparr>tty_index = i, driver_data = Some i, tty_count = 1, low_latency = tty_latency env,
            flip = [], tty_input = []\<rparr>)" "port_tty s' = (port_tty s)(i \<mapsto> next_tty s)" "next_tty s' = Suc (next_tty s)"
    "handlers s' = handlers s" "ty_mem s' = ty_mem s"
proof -
  obtain tm where p: "ts_sem tiny = 1" "ts_timer tiny = Some tm" "\<not> tm_pending tm" "open_count tiny = 0"
    using assms by (auto simp: port_ok_def)
  have e: "tiny\<lparr>ts_tty := next_tty s, open_count := 1, ts_timer := Some (tm\<lparr>tm_pending := True\<rparr>), ts_sem := 1\<rparr> =
    tiny\<lparr>ts_tty := next_tty s, open_count := 1, ts_timer := Some (tm\<lparr>tm_pending := True\<rparr>)\<rparr>"
    using p(1) by (intro tiny_serial.equality) simp_all
  show thesis
    by (rule that [of "s\<lparr>next_tty := Suc (next_tty s), port_tty := (port_tty s)(i \<mapsto> next_tty s),
        ttys := (ttys s)(next_tty s \<mapsto> \<lparr>tty_index = i, driver_data = Some i, tty_count = 1, low_latency = tty_latency env,
            flip = [], tty_input = []\<rparr>),
        tiny_table := (tiny_table s)(i \<mapsto> tiny\<lparr>ts_tty := next_tty s, open_count := 1, ts_timer := Some (tm\<lparr>tm_pending := True\<rparr>)\<rparr>)\<rparr>" tm])
      (use p assms in \<open>simp_all add: e tty_open_def find_tty_def tiny_open_def the_tty_def the_tiny_def create_tiny_def Let_def tiny_up_def up_def
          create_timer_def add_tty_timer_def on_tiny_def on_tty_def\<close>)
qed

text \<open>The first opening of all: the entry and its timer are allocated.\<close>

lemma open_new:
  assumes "port_ok i s" "tiny_table s i = None" "timers_ready env (ty_mem s)" "i < TINY_TTY_MINORS"
  obtains (no_memory) s' k where "tty_open env i s = Done (Inl ENOMEM, s')" "kmalloc (tiny_bytes env) (ty_mem s) = (None, k)"
      "tiny_table s' = tiny_table s" "ttys s' = (ttys s)(next_tty s := None)" "port_tty s' = port_tty s" "next_tty s' = Suc (next_tty s)"
      "handlers s' = handlers s" "ty_mem s' = k"
  | (new) s' a k b k' where "tty_open env i s = Done (Inr 0, s')" "kmalloc (tiny_bytes env) (ty_mem s) = (Some a, k)"
      "kmalloc (timer_bytes env) k = (Some b, k')"
      "tiny_table s' = (tiny_table s)(i \<mapsto> (tiny_junk env a)\<lparr>ts_addr := a, ts_tty := next_tty s, open_count := 1,
         ts_timer := Some \<lparr>tm_addr = b, tm_pending = True\<rparr>, ts_sem := 1\<rparr>)"
      "ttys s' = (ttys s)(next_tty s \<mapsto> \<lparr>tty_index = i, driver_data = Some i, tty_count = 1, low_latency = tty_latency env,
            flip = [], tty_input = []\<rparr>)" "port_tty s' = (port_tty s)(i \<mapsto> next_tty s)" "next_tty s' = Suc (next_tty s)"
      "handlers s' = handlers s" "ty_mem s' = k'"
proof -
  have none: "port_tty s i = None"
    using assms(1,2) by (simp add: port_ok_def)
  obtain r k where m: "kmalloc (tiny_bytes env) (ty_mem s) = (r, k)"
    by fastforce
  show thesis
  proof (cases r)
    case None
    with m none assms(2) have "tty_open env i s = Done (Inl ENOMEM, s\<lparr>next_tty := Suc (next_tty s), ty_mem := k, ttys := (ttys s)(next_tty s := None), port_tty := (port_tty s)(i := None)\<rparr>)"
      by (simp add: tty_open_def find_tty_def tiny_open_def the_tty_def create_tiny_def Let_def tty_release_def tiny_close_def on_tty_def)
    then show thesis
      using m None fun_upd_idem [of "port_tty s" i None, OF none] by (intro no_memory [of "s\<lparr>next_tty := Suc (next_tty s), ty_mem := k, ttys := (ttys s)(next_tty s := None), port_tty := (port_tty s)(i := None)\<rparr>" k]) simp_all
  next
    case (Some a)
    have "\<exists>b k'. kmalloc (timer_bytes env) k = (Some b, k')"
      using m assms(3) by (auto simp: kmalloc_def timers_ready_def split: if_splits)
    then obtain b k' where m': "kmalloc (timer_bytes env) k = (Some b, k')"
      by blast
    have "\<not> timer_junk env b"
      using assms(3) by (simp add: timers_ready_def)
    with m m' none assms(2) Some show thesis
      by (intro new [of "s\<lparr>next_tty := Suc (next_tty s), port_tty := (port_tty s)(i \<mapsto> next_tty s),
        ttys := (ttys s)(next_tty s \<mapsto> \<lparr>tty_index = i, driver_data = Some i, tty_count = 1, low_latency = tty_latency env,
            flip = [], tty_input = []\<rparr>), ty_mem := k',
        tiny_table := (tiny_table s)(i \<mapsto> (tiny_junk env a)\<lparr>ts_addr := a, ts_tty := next_tty s, open_count := 1,
         ts_timer := Some \<lparr>tm_addr = b, tm_pending = True\<rparr>, ts_sem := 1\<rparr>)\<rparr>" a k b k'])
        (simp_all add: tty_open_def find_tty_def tiny_open_def the_tty_def the_tiny_def create_tiny_def Let_def tiny_up_def up_def
          create_timer_def add_tty_timer_def on_tiny_def on_tty_def)
  qed
qed

lemma release_eff:
  assumes "port_ok i s" "port_tty s i = Some t"
  obtains (last) s' tiny tm tty where "tty_release i t s = Done s'" "tiny_table s i = Some tiny" "ts_timer tiny = Some tm" "ttys s t = Some tty"
      "tty_ok i tiny tty" "tty_count tty = 1"
      "tiny_table s' = (tiny_table s)(i \<mapsto> tiny\<lparr>open_count := 0, ts_timer := Some (tm\<lparr>tm_pending := False\<rparr>)\<rparr>)"
      "ttys s' = (ttys s)(t := None)" "port_tty s' = (port_tty s)(i := None)" "next_tty s' = next_tty s" "handlers s' = handlers s"
      "ty_mem s' = ty_mem s"
  | (more) s' tiny tty where "tty_release i t s = Done s'" "tiny_table s i = Some tiny" "ttys s t = Some tty" "tty_ok i tiny tty"
      "tty_count tty > 1" "tiny_table s' = (tiny_table s)(i \<mapsto> tiny\<lparr>open_count := open_count tiny - 1\<rparr>)"
      "ttys s' = (ttys s)(t \<mapsto> tty\<lparr>tty_count := tty_count tty - 1\<rparr>)" "port_tty s' = port_tty s" "next_tty s' = next_tty s"
      "handlers s' = handlers s" "ty_mem s' = ty_mem s"
proof -
  obtain tiny tm tty where p: "tiny_table s i = Some tiny" "ts_sem tiny = 1" "ts_timer tiny = Some tm" "tm_pending tm"
    "ts_tty tiny = t" "ttys s t = Some tty" "tty_ok i tiny tty" "i < TINY_TTY_MINORS"
    by (rule port_ok_tty [OF assms])
  have c: "driver_data tty = Some i" "open_count tiny = int (tty_count tty)" "0 < tty_count tty"
    using p(7) by (auto simp: tty_ok_def)
  note defs = tty_release_def tiny_close_def do_close_def the_tty_def the_tiny_def Let_def tiny_up_def up_def del_tty_timer_def on_tiny_def on_tty_def
  show thesis
  proof (cases "tty_count tty = 1")
    case True
    have e: "tiny\<lparr>open_count := 0, ts_timer := Some (tm\<lparr>tm_pending := False\<rparr>), ts_sem := 1\<rparr> =
      tiny\<lparr>open_count := 0, ts_timer := Some (tm\<lparr>tm_pending := False\<rparr>)\<rparr>"
      using p(2) by (intro tiny_serial.equality) simp_all
    show thesis
      by (rule last [of "s\<lparr>tiny_table := (tiny_table s)(i \<mapsto> tiny\<lparr>open_count := 0, ts_timer := Some (tm\<lparr>tm_pending := False\<rparr>)\<rparr>),
          ttys := (ttys s)(t := None), port_tty := (port_tty s)(i := None)\<rparr>" tiny tm tty])
        (use p c True in \<open>simp_all add: e defs\<close>)
  next
    case False
    have e: "tiny\<lparr>open_count := int (tty_count tty) - 1, ts_sem := 1\<rparr> = tiny\<lparr>open_count := int (tty_count tty) - 1\<rparr>"
      using p(2) by (intro tiny_serial.equality) simp_all
    show thesis
      by (rule more [of "s\<lparr>tiny_table := (tiny_table s)(i \<mapsto> tiny\<lparr>open_count := open_count tiny - 1\<rparr>),
          ttys := (ttys s)(t \<mapsto> tty\<lparr>tty_count := tty_count tty - 1\<rparr>)\<rparr>" tiny tty])
        (use p c False in \<open>simp_all add: e defs\<close>)
  qed
qed

lemma timer_send_simps [simp]:
  "tty_index (timer_send tty) = tty_index tty" "driver_data (timer_send tty) = driver_data tty" "tty_count (timer_send tty) = tty_count tty"
  "length (flip tty) \<le> TTY_FLIPBUF_SIZE \<Longrightarrow> length (flip (timer_send tty)) \<le> TTY_FLIPBUF_SIZE"
  by (auto simp: timer_send_def tty_flip_buffer_push_def tty_insert_flip_char_def flush_flip_def Let_def TTY_FLIPBUF_SIZE_def)

lemma fires_eff:
  assumes "port_ok i s" "port_tty s i = Some t"
  obtains s' tiny tm tty where "do_tty_event env (Timer_fires i) s = Done s'" "tiny_table s i = Some tiny" "ts_timer tiny = Some tm"
    "ttys s t = Some tty" "tty_ok i tiny tty" "ts_tty tiny = t"
    "tiny_table s' = (tiny_table s)(i \<mapsto> tiny\<lparr>ts_timer := Some (tm\<lparr>tm_pending := False\<rparr>)\<rparr>)"
    "ttys s' = (ttys s)(t \<mapsto> timer_send tty)" "port_tty s' = port_tty s" "next_tty s' = next_tty s" "handlers s' = i # handlers s"
    "ty_mem s' = ty_mem s"
proof -
  obtain tiny tm tty where p: "tiny_table s i = Some tiny" "ts_sem tiny = 1" "ts_timer tiny = Some tm" "tm_pending tm"
    "ts_tty tiny = t" "ttys s t = Some tty" "tty_ok i tiny tty" "i < TINY_TTY_MINORS"
    by (rule port_ok_tty [OF assms])
  show thesis
    by (rule that [of "s\<lparr>tiny_table := (tiny_table s)(i \<mapsto> tiny\<lparr>ts_timer := Some (tm\<lparr>tm_pending := False\<rparr>)\<rparr>), ttys := (ttys s)(t \<mapsto> timer_send tty),
        handlers := i # handlers s\<rparr>" tiny tm tty])
      (use p in \<open>simp_all add: the_tiny_def the_tty_def del_tty_timer_def tiny_timer_send_def on_tiny_def on_tty_def\<close>)
qed

lemma resubmits_eff:
  assumes "tiny_table s i = Some tiny" "ts_timer tiny = Some tm" "\<not> tm_pending tm"
  obtains s' where "do_tty_event env (Timer_resubmits i) s = Done s'"
    "tiny_table s' = (tiny_table s)(i \<mapsto> tiny\<lparr>ts_timer := Some (tm\<lparr>tm_pending := True\<rparr>)\<rparr>)"
    "ttys s' = ttys s" "port_tty s' = port_tty s" "next_tty s' = next_tty s" "handlers s' = remove1 i (handlers s)" "ty_mem s' = ty_mem s"
  using assms by (intro that [of "s\<lparr>handlers := remove1 i (handlers s), tiny_table := (tiny_table s)(i \<mapsto> tiny\<lparr>ts_timer := Some (tm\<lparr>tm_pending := True\<rparr>)\<rparr>)\<rparr>"])
    (simp_all add: add_tty_timer_def the_tiny_def on_tiny_def)

lemma port_okI:
  assumes "tiny_table s i = Some tiny" "ts_sem tiny = 1" "ts_timer tiny = Some tm" "tm_pending tm" "port_tty s i = Some t" "ts_tty tiny = t"
    "ttys s t = Some tty" "tty_ok i tiny tty" "i < TINY_TTY_MINORS"
  shows "port_ok i s"
  using assms by (simp add: port_ok_def)

text \<open>A step at one port keeps the invariant of the others when the terminals of the others are kept.\<close>

lemma others_ok:
  assumes "\<forall>j. port_ok j s" "port_ok i s'" "\<And>j. j \<noteq> i \<Longrightarrow> tiny_table s' j = tiny_table s j" "\<And>j. j \<noteq> i \<Longrightarrow> port_tty s' j = port_tty s j"
    "\<And>j t. j \<noteq> i \<Longrightarrow> port_tty s j = Some t \<Longrightarrow> ttys s' t = ttys s t"
  shows "\<forall>j. port_ok j s'"
proof
  fix j
  show "port_ok j s'"
    by (cases "j = i") (use assms in \<open>auto intro: port_ok_frame [of j s s']\<close>)
qed

lemma less_4_cases: "(i::nat) < 4 \<Longrightarrow> i = 0 \<or> i = 1 \<or> i = 2 \<or> i = 3"
  by linarith

lemma tiny_addrs_update:
  assumes "i < 4" "tiny_table s' = (tiny_table s)(i := p)"
  shows "mset (tiny_addrs s') + mset (port_addrs (tiny_table s i)) = mset (tiny_addrs s) + mset (port_addrs p)"
  using less_4_cases [OF assms(1)] by (elim disjE) (simp_all add: tiny_addrs_def assms(2))

lemma tiny_addrs_same:
  assumes "i < 4" "tiny_table s' = (tiny_table s)(i := p)" "port_addrs p = port_addrs (tiny_table s i)"
  shows "tiny_addrs s' = tiny_addrs s"
  using less_4_cases [OF assms(1)] by (elim disjE) (simp_all add: tiny_addrs_def assms(2,3))

lemma port_addrs_Some [simp]:
  "port_addrs (Some tiny) = ts_addr tiny # (case ts_timer tiny of None \<Rightarrow> [] | Some tm \<Rightarrow> [tm_addr tm])"
  "port_addrs None = []"
  by (simp_all add: port_addrs_def)

lemma old_tty:
  assumes "tty_inv env k0 own s" "port_tty s j = Some t"
  shows "t < next_tty s"
proof -
  have "port_ok j s"
    using assms(1) by (simp add: tty_inv_def)
  then obtain tiny tm tty where "ttys s t = Some tty"
    using port_ok_tty [OF _ assms(2)] by metis
  then show ?thesis
    using assms(1) by (auto simp: tty_inv_def not_le [symmetric])
qed

lemma timers_ready_kmalloc: "timers_ready env k \<Longrightarrow> kmalloc n k = (r, k') \<Longrightarrow> timers_ready env k'"
  by (auto simp: timers_ready_def kmalloc_def split: if_splits)

lemma open_inv_again:
  assumes inv: "tty_inv env k0 own s" and t: "port_tty s i = Some t"
  shows "\<exists>s'. tty_open env i s = Done (Inr 0, s') \<and> tty_inv env k0 own s'"
proof -
  have ok: "\<forall>j. port_ok j s"
    using inv by (simp add: tty_inv_def)
  obtain tiny tm tty where p: "tiny_table s i = Some tiny" "ts_sem tiny = 1" "ts_timer tiny = Some tm" "tm_pending tm"
    "ts_tty tiny = t" "ttys s t = Some tty" "tty_ok i tiny tty" "i < TINY_TTY_MINORS"
    by (rule port_ok_tty [OF spec [OF ok] t])
  obtain s' tiny' tty' where s': "tty_open env i s = Done (Inr 0, s')" "tiny_table s i = Some tiny'" "ttys s t = Some tty'" "tty_ok i tiny' tty'"
    "tiny_table s' = (tiny_table s)(i \<mapsto> tiny'\<lparr>open_count := open_count tiny' + 1\<rparr>)"
    "ttys s' = (ttys s)(t \<mapsto> tty'\<lparr>tty_count := tty_count tty' + 1\<rparr>)" "port_tty s' = port_tty s" "next_tty s' = next_tty s"
    "handlers s' = handlers s" "ty_mem s' = ty_mem s"
    by (rule open_again [OF spec [OF ok] t])
  have same: "tiny' = tiny" "tty' = tty"
    using p s' by simp_all
  have "tty_ok i (tiny\<lparr>open_count := open_count tiny + 1\<rparr>) (tty\<lparr>tty_count := tty_count tty + 1\<rparr>)"
    using p(7) by (auto simp: tty_ok_def)
  then have "port_ok i s'"
    using p t by (intro port_okI [of s' i "tiny\<lparr>open_count := open_count tiny + 1\<rparr>" tm t "tty\<lparr>tty_count := tty_count tty + 1\<rparr>"])
      (simp_all add: s' same)
  moreover have "ttys s' u = ttys s u" if "j \<noteq> i" "port_tty s j = Some u" for j u
    using other_tty [OF ok t] that by (auto simp: s')
  ultimately have "\<forall>j. port_ok j s'"
    by (intro others_ok [OF ok, of i s']) (simp_all add: s')
  moreover have "tiny_addrs s' = tiny_addrs s"
    by (rule tiny_addrs_same [OF _ s'(5)]) (use p in \<open>simp_all add: same TINY_TTY_MINORS_def\<close>)
  ultimately have "tty_inv env k0 own s'"
    using inv old_tty [OF inv t] by (simp add: tty_inv_def s')
  with s'(1) show ?thesis by blast
qed

definition fresh_tty :: "tiny_env \<Rightarrow> nat \<Rightarrow> tty" where
  "fresh_tty env i = \<lparr>tty_index = i, driver_data = Some i, tty_count = 1, low_latency = tty_latency env, flip = [], tty_input = []\<rparr>"

lemma open_inv_fresh:
  assumes inv: "tty_inv env k0 own s" and none: "port_tty s i = None" and i: "i < TINY_TTY_MINORS"
    and s': "tiny_table s' = (tiny_table s)(i \<mapsto> tiny)" "ttys s' = (ttys s)(next_tty s \<mapsto> fresh_tty env i)"
      "port_tty s' = (port_tty s)(i \<mapsto> next_tty s)" "next_tty s' = Suc (next_tty s)" "handlers s' = handlers s"
    and tiny: "ts_sem tiny = 1" "ts_timer tiny = Some tm" "tm_pending tm" "open_count tiny = 1" "ts_tty tiny = next_tty s"
    and mem: "accounted k0 [] (ty_mem s') (own @ tiny_addrs s')" "timers_ready env (ty_mem s')"
  shows "tty_inv env k0 own s'"
proof -
  have ok: "\<forall>j. port_ok j s"
    using inv by (simp add: tty_inv_def)
  have "port_ok i s'"
    using i tiny by (intro port_okI [of s' i tiny tm "next_tty s" "fresh_tty env i"]) (simp_all add: s' tty_ok_def fresh_tty_def)
  moreover have "ttys s' u = ttys s u" if "j \<noteq> i" "port_tty s j = Some u" for j u
    using old_tty [OF inv that(2)] by (simp add: s')
  ultimately have "\<forall>j. port_ok j s'"
    by (intro others_ok [OF ok, of i s']) (simp_all add: s')
  then show ?thesis
    using inv mem by (simp add: tty_inv_def s'(2,4,5))
qed

lemma accounted_perm:
  "accounted k0 [] k xs \<Longrightarrow> mset xs = mset ys \<Longrightarrow> accounted k0 [] k ys"
  using accounted_mset [of "[]" "[]"] by blast

lemma open_inv_first:
  assumes inv: "tty_inv env k0 own s" and none: "port_tty s i = None" and i: "i < TINY_TTY_MINORS"
  shows "\<exists>r s'. tty_open env i s = Done (r, s') \<and> tty_inv env k0 own s'"
proof (cases "tiny_table s i")
  case (Some tiny)
  have ok: "port_ok i s"
    using inv by (simp add: tty_inv_def)
  obtain s' tm where s': "tty_open env i s = Done (Inr 0, s')" "ts_timer tiny = Some tm"
    "tiny_table s' = (tiny_table s)(i \<mapsto> tiny\<lparr>ts_tty := next_tty s, open_count := 1, ts_timer := Some (tm\<lparr>tm_pending := True\<rparr>)\<rparr>)"
    "ttys s' = (ttys s)(next_tty s \<mapsto> \<lparr>tty_index = i, driver_data = Some i, tty_count = 1, low_latency = tty_latency env,
            flip = [], tty_input = []\<rparr>)" "port_tty s' = (port_tty s)(i \<mapsto> next_tty s)" "next_tty s' = Suc (next_tty s)"
    "handlers s' = handlers s" "ty_mem s' = ty_mem s"
    by (rule open_first [OF ok none Some])
  have "tiny_addrs s' = tiny_addrs s"
    by (rule tiny_addrs_same [OF _ s'(3)]) (use i s'(2) Some in \<open>simp_all add: TINY_TTY_MINORS_def\<close>)
  then have "tty_inv env k0 own s'"
    using ok inv Some none s'(2)
    by (intro open_inv_fresh [OF inv none i s'(3) _ s'(5,6,7)])
      (auto simp: s'(4,8) fresh_tty_def tty_inv_def port_ok_def)
  then show ?thesis
    using s'(1) by blast
next
  case None
  have ok: "port_ok i s" and ready: "timers_ready env (ty_mem s)"
    using inv by (simp_all add: tty_inv_def)
  show ?thesis
  proof (rule open_new [OF ok None ready i])
    fix s' k
    assume s': "tty_open env i s = Done (Inl ENOMEM, s')" "kmalloc (tiny_bytes env) (ty_mem s) = (None, k)"
      "tiny_table s' = tiny_table s" "ttys s' = (ttys s)(next_tty s := None)" "port_tty s' = port_tty s" "next_tty s' = Suc (next_tty s)"
      "handlers s' = handlers s" "ty_mem s' = k"
    have "port_ok j s'" for j
      using inv old_tty [OF inv] s' by (intro port_ok_frame [of j s s']) (auto simp: tty_inv_def)
    moreover have "accounted k0 [] k (own @ tiny_addrs s)"
      using inv kmalloc_accounted(2) [OF s'(2)] by (auto simp: tty_inv_def intro: accounted_trans)
    ultimately have "tty_inv env k0 own s'"
      using inv timers_ready_kmalloc [OF ready s'(2)] by (simp add: tty_inv_def s' tiny_addrs_def)
    then show ?thesis
      using s'(1) by blast
  next
    fix s' a k b k'
    assume s': "tty_open env i s = Done (Inr 0, s')" "kmalloc (tiny_bytes env) (ty_mem s) = (Some a, k)"
      "kmalloc (timer_bytes env) k = (Some b, k')"
      "tiny_table s' = (tiny_table s)(i \<mapsto> (tiny_junk env a)\<lparr>ts_addr := a, ts_tty := next_tty s, open_count := 1,
         ts_timer := Some \<lparr>tm_addr = b, tm_pending = True\<rparr>, ts_sem := 1\<rparr>)"
      "ttys s' = (ttys s)(next_tty s \<mapsto> \<lparr>tty_index = i, driver_data = Some i, tty_count = 1, low_latency = tty_latency env,
            flip = [], tty_input = []\<rparr>)" "port_tty s' = (port_tty s)(i \<mapsto> next_tty s)" "next_tty s' = Suc (next_tty s)"
      "handlers s' = handlers s" "ty_mem s' = k'"
    have "accounted k0 [] k' (b # a # (own @ tiny_addrs s))"
      using inv accounted_trans [OF kmalloc_accounted(1) [OF s'(2)] kmalloc_accounted(1) [OF s'(3)]]
      by (auto simp: tty_inv_def intro: accounted_trans)
    moreover have "mset (b # a # (own @ tiny_addrs s)) = mset (own @ tiny_addrs s')"
      using tiny_addrs_update [OF _ s'(4)] i None by (simp add: TINY_TTY_MINORS_def add_mset_commute)
    ultimately have "accounted k0 [] k' (own @ tiny_addrs s')"
      by (rule accounted_perm)
    then have "tty_inv env k0 own s'"
      using timers_ready_kmalloc [OF timers_ready_kmalloc [OF ready s'(2)] s'(3)]
      by (intro open_inv_fresh [OF inv none i s'(4) _ s'(6,7,8), where tm = "\<lparr>tm_addr = b, tm_pending = True\<rparr>"]) (simp_all add: s'(5,9) fresh_tty_def)
    then show ?thesis
      using s'(1) by blast
  qed
qed

lemma release_inv_tty:
  assumes inv: "tty_inv env k0 own s" and t: "port_tty s i = Some t"
  shows "\<exists>s'. tty_release i t s = Done s' \<and> tty_inv env k0 own s'"
proof -
  have ok: "\<forall>j. port_ok j s"
    using inv by (simp add: tty_inv_def)
  obtain tiny tm tty where p: "tiny_table s i = Some tiny" "ts_sem tiny = 1" "ts_timer tiny = Some tm" "tm_pending tm"
    "ts_tty tiny = t" "ttys s t = Some tty" "tty_ok i tiny tty" "i < TINY_TTY_MINORS"
    by (rule port_ok_tty [OF spec [OF ok] t])
  have others: "u \<noteq> t" if "j \<noteq> i" "port_tty s j = Some u" for j u
    using other_tty [OF ok t] that by auto
  show ?thesis
  proof (rule release_eff [OF spec [OF ok] t])
    fix s' tiny' tm' tty'
    assume s': "tty_release i t s = Done s'" "tiny_table s i = Some tiny'" "ts_timer tiny' = Some tm'" "ttys s t = Some tty'"
      "tty_ok i tiny' tty'" "tty_count tty' = 1"
      "tiny_table s' = (tiny_table s)(i \<mapsto> tiny'\<lparr>open_count := 0, ts_timer := Some (tm'\<lparr>tm_pending := False\<rparr>)\<rparr>)"
      "ttys s' = (ttys s)(t := None)" "port_tty s' = (port_tty s)(i := None)" "next_tty s' = next_tty s" "handlers s' = handlers s"
      "ty_mem s' = ty_mem s"
    have same: "tiny' = tiny" "tm' = tm"
      using p s'(2,3) by simp_all
    have "port_ok i s'"
      using p by (simp add: port_ok_def s' same)
    then have "\<forall>j. port_ok j s'"
      by (intro others_ok [OF ok, of i s']) (auto simp: s' dest: others)
    moreover have "tiny_addrs s' = tiny_addrs s"
      by (rule tiny_addrs_same [OF _ s'(7)]) (use p in \<open>simp_all add: same TINY_TTY_MINORS_def\<close>)
    ultimately have "tty_inv env k0 own s'"
      using inv by (simp add: tty_inv_def s')
    with s'(1) show ?thesis by blast
  next
    fix s' tiny' tty'
    assume s': "tty_release i t s = Done s'" "tiny_table s i = Some tiny'" "ttys s t = Some tty'" "tty_ok i tiny' tty'"
      "tty_count tty' > 1" "tiny_table s' = (tiny_table s)(i \<mapsto> tiny'\<lparr>open_count := open_count tiny' - 1\<rparr>)"
      "ttys s' = (ttys s)(t \<mapsto> tty'\<lparr>tty_count := tty_count tty' - 1\<rparr>)" "port_tty s' = port_tty s" "next_tty s' = next_tty s"
      "handlers s' = handlers s" "ty_mem s' = ty_mem s"
    have same: "tiny' = tiny" "tty' = tty"
      using p s'(2,3) by simp_all
    have "tty_ok i (tiny\<lparr>open_count := open_count tiny - 1\<rparr>) (tty\<lparr>tty_count := tty_count tty - 1\<rparr>)"
      using p(7) s'(5) by (auto simp: tty_ok_def same)
    then have "port_ok i s'"
      using p t by (intro port_okI [of s' i "tiny\<lparr>open_count := open_count tiny - 1\<rparr>" tm t "tty\<lparr>tty_count := tty_count tty - 1\<rparr>"])
        (simp_all add: s' same)
    then have "\<forall>j. port_ok j s'"
      by (intro others_ok [OF ok, of i s']) (auto simp: s' dest: others)
    moreover have "tiny_addrs s' = tiny_addrs s"
      by (rule tiny_addrs_same [OF _ s'(6)]) (use p in \<open>simp_all add: same TINY_TTY_MINORS_def\<close>)
    ultimately have "tty_inv env k0 own s'"
      using inv old_tty [OF inv t] by (simp add: tty_inv_def s')
    with s'(1) show ?thesis by blast
  qed
qed

lemma tick_inv:
  assumes inv: "tty_inv env k0 own s" and e: "tty_enabled (Timer_fires i) s"
  shows "\<exists>s1 s'. do_tty_event env (Timer_fires i) s = Done s1 \<and> do_tty_event env (Timer_resubmits i) s1 = Done s' \<and> tty_inv env k0 own s'"
proof -
  have ok: "\<forall>j. port_ok j s" and ok1: "port_ok i s"
    using inv by (simp_all add: tty_inv_def)
  from ok1 e obtain t where t: "port_tty s i = Some t"
    by (auto simp: port_ok_def split: option.splits)
  obtain tiny tm tty where p: "tiny_table s i = Some tiny" "ts_sem tiny = 1" "ts_timer tiny = Some tm" "tm_pending tm"
    "ts_tty tiny = t" "ttys s t = Some tty" "tty_ok i tiny tty" "i < TINY_TTY_MINORS"
    by (rule port_ok_tty [OF spec [OF ok] t])
  obtain s1 tiny' tm' tty' where s1: "do_tty_event env (Timer_fires i) s = Done s1" "tiny_table s i = Some tiny'" "ts_timer tiny' = Some tm'"
    "ttys s t = Some tty'" "tty_ok i tiny' tty'" "ts_tty tiny' = t"
    "tiny_table s1 = (tiny_table s)(i \<mapsto> tiny'\<lparr>ts_timer := Some (tm'\<lparr>tm_pending := False\<rparr>)\<rparr>)"
    "ttys s1 = (ttys s)(t \<mapsto> timer_send tty')" "port_tty s1 = port_tty s" "next_tty s1 = next_tty s" "handlers s1 = i # handlers s"
    "ty_mem s1 = ty_mem s"
    by (rule fires_eff [OF spec [OF ok] t])
  have same: "tiny' = tiny" "tty' = tty" "tm' = tm"
    using p s1(2,3,4) by simp_all
  have m1: "tiny_table s1 i = Some (tiny\<lparr>ts_timer := Some (tm\<lparr>tm_pending := False\<rparr>)\<rparr>)"
    by (simp add: s1(7) same)
  obtain s' where s': "do_tty_event env (Timer_resubmits i) s1 = Done s'"
    "tiny_table s' = (tiny_table s1)(i \<mapsto> tiny\<lparr>ts_timer := Some (tm\<lparr>tm_pending := False\<rparr>)\<rparr>\<lparr>ts_timer := Some (tm\<lparr>tm_pending := False\<rparr>\<lparr>tm_pending := True\<rparr>)\<rparr>)"
    "ttys s' = ttys s1" "port_tty s' = port_tty s1" "next_tty s' = next_tty s1" "handlers s' = remove1 i (handlers s1)" "ty_mem s' = ty_mem s1"
    by (rule resubmits_eff [OF m1, of "tm\<lparr>tm_pending := False\<rparr>"]) simp_all
  have table: "tiny_table s' = (tiny_table s)(i \<mapsto> tiny\<lparr>ts_timer := Some (tm\<lparr>tm_pending := True\<rparr>)\<rparr>)"
    by (simp add: s'(2) s1(7) same)
  have "tty_ok i (tiny\<lparr>ts_timer := Some (tm\<lparr>tm_pending := True\<rparr>)\<rparr>) (timer_send tty)"
    using p(7) by (auto simp: tty_ok_def)
  then have "port_ok i s'"
    using p t by (intro port_okI [of s' i "tiny\<lparr>ts_timer := Some (tm\<lparr>tm_pending := True\<rparr>)\<rparr>" "tm\<lparr>tm_pending := True\<rparr>" t "timer_send tty"])
      (simp_all add: table s'(3-7) s1(8-12) same)
  then have "\<forall>j. port_ok j s'"
    using other_tty [OF ok t] by (intro others_ok [OF ok, of i s']) (auto simp: table s'(3-7) s1(8-12))
  moreover have "tiny_addrs s' = tiny_addrs s"
    by (rule tiny_addrs_same [OF _ table]) (use p in \<open>simp_all add: TINY_TTY_MINORS_def\<close>)
  ultimately have "tty_inv env k0 own s'"
    using inv old_tty [OF inv t] by (simp add: tty_inv_def s'(3-7) s1(8-12))
  with s1(1) s'(1) show ?thesis by blast
qed

lemma flush_inv:
  assumes inv: "tty_inv env k0 own s" and t: "port_tty s i = Some t"
  shows "tty_inv env k0 own (on_tty t flush_flip s)" (is "tty_inv env k0 own ?s")
proof -
  have ok: "\<forall>j. port_ok j s"
    using inv by (simp add: tty_inv_def)
  obtain tiny tm tty where p: "tiny_table s i = Some tiny" "ts_sem tiny = 1" "ts_timer tiny = Some tm" "tm_pending tm"
    "ts_tty tiny = t" "ttys s t = Some tty" "tty_ok i tiny tty" "i < TINY_TTY_MINORS"
    by (rule port_ok_tty [OF spec [OF ok] t])
  have "tty_ok i tiny (flush_flip tty)"
    using p(7) by (simp add: tty_ok_def flush_flip_def)
  then have "port_ok i ?s"
    using p t by (intro port_okI [of ?s i tiny tm t "flush_flip tty"]) simp_all
  then have "\<forall>j. port_ok j ?s"
    using other_tty [OF ok t] by (intro others_ok [OF ok, of i ?s]) auto
  then show ?thesis
    using inv old_tty [OF inv t] by (simp add: tty_inv_def tiny_addrs_def)
qed

text \<open>A calm run: no handler of a timer is interrupted by anything else.\<close>

inductive calm_run :: "tiny_env \<Rightarrow> tiny_sys \<Rightarrow> tiny_sys \<Rightarrow> bool" for env s0 where
  calm_start: "calm_run env s0 s0"
| calm_open: "calm_run env s0 s \<Longrightarrow> i < TINY_TTY_MINORS \<Longrightarrow> do_tty_event env (Open_port i) s = Done s' \<Longrightarrow> calm_run env s0 s'"
| calm_close: "calm_run env s0 s \<Longrightarrow> do_tty_event env (Close_port i) s = Done s' \<Longrightarrow> calm_run env s0 s'"
| calm_flush: "calm_run env s0 s \<Longrightarrow> do_tty_event env (Flush_port i) s = Done s' \<Longrightarrow> calm_run env s0 s'"
| calm_tick: "calm_run env s0 s \<Longrightarrow> tty_enabled (Timer_fires i) s \<Longrightarrow> do_tty_event env (Timer_fires i) s = Done s1 \<Longrightarrow>
    do_tty_event env (Timer_resubmits i) s1 = Done s' \<Longrightarrow> calm_run env s0 s'"

lemma open_event_inv:
  assumes "tty_inv env k0 own s" "i < TINY_TTY_MINORS"
  shows "\<exists>r s'. tty_open env i s = Done (r, s') \<and> tty_inv env k0 own s'"
  using open_inv_again [OF assms(1), of i] open_inv_first [OF assms(1) _ assms(2)] by (cases "port_tty s i") blast+

lemma close_event_inv:
  assumes "tty_inv env k0 own s"
  shows "\<exists>s'. do_tty_event env (Close_port i) s = Done s' \<and> tty_inv env k0 own s'"
  using release_inv_tty [OF assms, of i] assms by (cases "port_tty s i") auto

lemma flush_event_inv:
  assumes "tty_inv env k0 own s"
  shows "\<exists>s'. do_tty_event env (Flush_port i) s = Done s' \<and> tty_inv env k0 own s'"
  using flush_inv [OF assms, of i] assms by (cases "port_tty s i") auto

lemma calm_run_inv:
  assumes "calm_run env s0 s" "tty_inv env k0 own s0"
  shows "tty_inv env k0 own s"
  using assms
proof induction
  case (calm_open s i s')
  then show ?case
    using open_event_inv [of env k0 own s i] by (auto simp: and_then_Done_iff)
next
  case (calm_close s i s')
  then show ?case
    using close_event_inv [of env k0 own s i] by (auto simp del: do_tty_event.simps)
next
  case (calm_flush s i s')
  then show ?case
    using flush_event_inv [of env k0 own s i] by (auto simp del: do_tty_event.simps)
next
  case (calm_tick s i s1 s')
  then show ?case
    using tick_inv [of env k0 own s i] by (auto simp del: do_tty_event.simps)
qed simp

section \<open>Loading and unloading, proved\<close>

definition unloaded_tty :: "tiny_sys \<Rightarrow> bool" where
  "unloaded_tty s \<longleftrightarrow> tiny_table s = Map.empty \<and> ttys s = Map.empty \<and> port_tty s = Map.empty \<and> handlers s = []"

lemma init_inv:
  assumes "tiny_init env s = Done (Inr 0, s')" "unloaded_tty s" "timers_ready env (ty_mem s)" "kmem_ok (ty_mem s)"
  obtains a where "tiny_tty_driver s' = Some a" "tty_inv env (ty_mem s) [a] s'" "unloaded_tty s'"
proof -
  obtain a k where m: "kmalloc (driver_bytes env) (ty_mem s) = (Some a, k)" "register_result env = None"
    "s' = s\<lparr>ty_mem := k, tiny_tty_driver := Some a, tty_registered := True, tty_devices := [0..<TINY_TTY_MINORS]\<rparr>"
    using assms(1) by (auto simp: tiny_init_def and_then_Done_iff split: prod.splits option.splits)
  have "accounted (ty_mem s) [] k [a]"
    by (rule kmalloc_accounted(1) [OF m(1)])
  moreover have "timers_ready env k"
    by (rule timers_ready_kmalloc [OF assms(3) m(1)])
  ultimately have "tty_inv env (ty_mem s) [a] s'"
    using assms(2) by (simp add: m(3) tty_inv_def unloaded_tty_def port_ok_def tiny_addrs_def)
  then show thesis
    using that assms(2) by (simp add: m(3) unloaded_tty_def)
qed

lemma exit_port_eff:
  assumes "port_ok i s" "port_tty s i = None" "accounted k0 [] (ty_mem s) (port_addrs (tiny_table s i) @ xs)" "kmem_ok k0"
  obtains s' where "exit_port i s = Done s'" "tiny_table s' = (tiny_table s)(i := None)" "port_tty s' = port_tty s"
    "accounted k0 [] (ty_mem s') xs" "ttys s' = ttys s" "handlers s' = handlers s" "tiny_tty_driver s' = tiny_tty_driver s"
    "tty_registered s' = tty_registered s" "tty_devices s' = tty_devices s"
proof (cases "tiny_table s i")
  case None
  then show thesis
    using assms(3) fun_upd_idem [of "tiny_table s" i None] by (intro that [of s]) (simp_all add: exit_port_def)
next
  case (Some tiny)
  obtain tm where p: "ts_timer tiny = Some tm" "open_count tiny = 0"
    using assms(1,2) Some by (auto simp: port_ok_def)
  have acc: "accounted k0 [] (ty_mem s) (tm_addr tm # ts_addr tiny # xs)"
    by (rule accounted_perm [OF assms(3)]) (simp add: Some p(1))
  moreover have "owns [] k0"
    using assms(4) by (simp add: owns_def)
  ultimately have "owns ([tm_addr tm, ts_addr tiny] @ xs) (ty_mem s)"
    by (simp add: accounted_def)
  from kfree_list_accounted [OF this] obtain k where k: "kfree_all [tm_addr tm, ts_addr tiny] (ty_mem s) = Done k"
    "accounted (ty_mem s) (tm_addr tm # ts_addr tiny # xs) k xs"
    by auto
  then obtain k1 where k1: "kfree (tm_addr tm) (ty_mem s) = Done k1" "kfree (ts_addr tiny) k1 = Done k"
    by (auto simp: and_then_Done_iff)
  show thesis
    by (rule that [of "s\<lparr>tiny_table := (tiny_table s)(i := None), ty_mem := k\<rparr>"])
      (use Some p k1 accounted_trans [OF acc k(2)] in \<open>simp_all add: exit_port_def del_tty_timer_def the_tiny_def on_tiny_def\<close>)
qed

lemma exit_eff:
  assumes inv: "tty_inv env k0 own s" and closed: "port_tty s 0 = None" "port_tty s 1 = None" "port_tty s 2 = None" "port_tty s 3 = None"
    and ok: "kmem_ok k0"
  shows "\<exists>s'. tiny_exit s = Done s' \<and> accounted k0 [] (ty_mem s') own \<and> \<not> tty_registered s' \<and> tty_devices s' = [] \<and>
    tiny_addrs s' = []"
proof -
  let ?s = "s\<lparr>tty_devices := [], tty_registered := False\<rparr>" and ?p = "\<lambda>i. port_addrs (tiny_table s i)"
  have p: "port_ok i ?s" for i
    by (rule port_ok_frame [of i s]) (use inv in \<open>simp_all add: tty_inv_def\<close>)
  have "accounted k0 [] (ty_mem s) (own @ tiny_addrs s)"
    using inv by (simp add: tty_inv_def)
  then have "accounted k0 [] (ty_mem s) (?p 0 @ ?p 1 @ ?p 2 @ ?p 3 @ own)"
    by (rule accounted_perm) (simp add: tiny_addrs_def)
  then have a0: "accounted k0 [] (ty_mem ?s) (port_addrs (tiny_table ?s 0) @ ?p 1 @ ?p 2 @ ?p 3 @ own)" and c0: "port_tty ?s 0 = None"
    using closed(1) by simp_all
  obtain s0 where s0: "exit_port 0 ?s = Done s0" "tiny_table s0 = (tiny_table ?s)(0 := None)" "port_tty s0 = port_tty ?s"
    "accounted k0 [] (ty_mem s0) (?p 1 @ ?p 2 @ ?p 3 @ own)" "ttys s0 = ttys ?s" "handlers s0 = handlers ?s"
    "tiny_tty_driver s0 = tiny_tty_driver ?s" "tty_registered s0 = tty_registered ?s" "tty_devices s0 = tty_devices ?s"
    by (rule exit_port_eff [OF p c0 a0 ok])
  have p1: "port_ok 1 s0"
    by (rule port_ok_frame [OF p]) (simp_all add: s0(2,3,5))
  have a1: "accounted k0 [] (ty_mem s0) (port_addrs (tiny_table s0 1) @ ?p 2 @ ?p 3 @ own)" and c1: "port_tty s0 1 = None"
    using s0(4) closed(2) by (simp_all add: s0(2,3))
  obtain s1 where s1: "exit_port 1 s0 = Done s1" "tiny_table s1 = (tiny_table s0)(1 := None)" "port_tty s1 = port_tty s0"
    "accounted k0 [] (ty_mem s1) (?p 2 @ ?p 3 @ own)" "ttys s1 = ttys s0" "handlers s1 = handlers s0"
    "tiny_tty_driver s1 = tiny_tty_driver s0" "tty_registered s1 = tty_registered s0" "tty_devices s1 = tty_devices s0"
    by (rule exit_port_eff [OF p1 c1 a1 ok])
  have p2: "port_ok 2 s1"
    by (rule port_ok_frame [OF p]) (simp_all add: s0(2,3,5) s1(2,3,5))
  have a2: "accounted k0 [] (ty_mem s1) (port_addrs (tiny_table s1 2) @ ?p 3 @ own)" and c2: "port_tty s1 2 = None"
    using s1(4) closed(3) by (simp_all add: s0(2,3) s1(2,3))
  obtain s2 where s2: "exit_port 2 s1 = Done s2" "tiny_table s2 = (tiny_table s1)(2 := None)" "port_tty s2 = port_tty s1"
    "accounted k0 [] (ty_mem s2) (?p 3 @ own)" "ttys s2 = ttys s1" "handlers s2 = handlers s1"
    "tiny_tty_driver s2 = tiny_tty_driver s1" "tty_registered s2 = tty_registered s1" "tty_devices s2 = tty_devices s1"
    by (rule exit_port_eff [OF p2 c2 a2 ok])
  have p3: "port_ok 3 s2"
    by (rule port_ok_frame [OF p]) (simp_all add: s0(2,3,5) s1(2,3,5) s2(2,3,5))
  have a3: "accounted k0 [] (ty_mem s2) (port_addrs (tiny_table s2 3) @ own)" and c3: "port_tty s2 3 = None"
    using s2(4) closed(4) by (simp_all add: s0(2,3) s1(2,3) s2(2,3))
  obtain s3 where s3: "exit_port 3 s2 = Done s3" "tiny_table s3 = (tiny_table s2)(3 := None)" "port_tty s3 = port_tty s2"
    "accounted k0 [] (ty_mem s3) (own)" "ttys s3 = ttys s2" "handlers s3 = handlers s2"
    "tiny_tty_driver s3 = tiny_tty_driver s2" "tty_registered s3 = tty_registered s2" "tty_devices s3 = tty_devices s2"
    by (rule exit_port_eff [OF p3 c3 a3 ok])
  have "tiny_exit s = Done s3"
    unfolding tiny_exit_def s0(1) and_then.simps s1(1) s2(1) s3(1) ..
  moreover have "tiny_addrs s3 = []"
    by (simp add: tiny_addrs_def s0(2) s1(2) s2(2) s3(2))
  moreover have "\<not> tty_registered s3" "tty_devices s3 = []"
    by (simp_all add: s0(8,9) s1(8,9) s2(8,9) s3(8,9))
  ultimately show ?thesis
    using s3(4) by blast
qed

section \<open>Properties of the ports\<close>

definition tty_loaded :: "tiny_env \<Rightarrow> tiny_sys \<Rightarrow> tiny_sys \<Rightarrow> bool" where
  "tty_loaded env s0 s1 \<longleftrightarrow> tiny_init env s0 = Done (Inr 0, s1) \<and> unloaded_tty s0 \<and> timers_ready env (ty_mem s0) \<and> kmem_ok (ty_mem s0)"

lemma calm_inv:
  assumes "tty_loaded env s0 s1" "calm_run env s1 s"
  obtains a where "tiny_tty_driver s1 = Some a" "tty_inv env (ty_mem s0) [a] s"
proof -
  obtain a where a: "tiny_tty_driver s1 = Some a" "tty_inv env (ty_mem s0) [a] s1"
    using init_inv [of env s0 s1] assms(1) by (auto simp: tty_loaded_def)
  show thesis
    by (rule that [OF a(1) calm_run_inv [OF assms(2) a(2)]])
qed

fun do_tty_events :: "tiny_env \<Rightarrow> tty_event list \<Rightarrow> tiny_sys \<Rightarrow> tiny_sys outcome" where
  "do_tty_events env [] s = Done s"
| "do_tty_events env (e # es) s = and_then (do_tty_event env e s) (do_tty_events env es)"

text \<open>As long as no handler of a timer is interrupted, and memory for the timers is there: no opening, closing, timer or
  flush brings the kernel down; an open port counts its openings like the kernel and has its timer pending, a closed one
  has not; the buffer of a terminal never holds more than its 512 characters.\<close>
theorem tiny_ports_calm:
  assumes "tty_loaded env s0 s1" "calm_run env s1 s" "i < TINY_TTY_MINORS"
  shows "(\<exists>s'. do_tty_event env (Open_port i) s = Done s') \<and> (\<exists>s'. do_tty_event env (Close_port i) s = Done s') \<and>
    (\<exists>s'. do_tty_event env (Flush_port i) s = Done s') \<and>
    (tty_enabled (Timer_fires i) s \<longrightarrow> (\<exists>s'. do_tty_events env [Timer_fires i, Timer_resubmits i] s = Done s')) \<and>
    (\<forall>t. port_tty s i = Some t \<longrightarrow> (\<exists>tiny tty. tiny_table s i = Some tiny \<and> ttys s t = Some tty \<and>
       open_count tiny = int (tty_count tty) \<and> map_option tm_pending (ts_timer tiny) = Some True \<and> length (flip tty) \<le> 512)) \<and>
    (\<forall>tiny. port_tty s i = None \<and> tiny_table s i = Some tiny \<longrightarrow>
       open_count tiny = 0 \<and> map_option tm_pending (ts_timer tiny) = Some False)"
proof -
  obtain a where inv: "tty_inv env (ty_mem s0) [a] s"
    by (rule calm_inv [OF assms(1,2)])
  then have ok: "port_ok i s"
    by (simp add: tty_inv_def)
  have "\<exists>s'. do_tty_event env (Open_port i) s = Done s'"
    using open_event_inv [OF inv assms(3)] by auto
  moreover have "\<exists>s'. do_tty_event env (Close_port i) s = Done s'" "\<exists>s'. do_tty_event env (Flush_port i) s = Done s'"
    using close_event_inv [OF inv, of i] flush_event_inv [OF inv, of i] by blast+
  moreover have "\<exists>s'. do_tty_events env [Timer_fires i, Timer_resubmits i] s = Done s'" if "tty_enabled (Timer_fires i) s"
    using tick_inv [OF inv that] by (auto simp del: do_tty_event.simps)
  moreover have "\<exists>tiny tty. tiny_table s i = Some tiny \<and> ttys s t = Some tty \<and>
       open_count tiny = int (tty_count tty) \<and> map_option tm_pending (ts_timer tiny) = Some True \<and> length (flip tty) \<le> 512"
    if "port_tty s i = Some t" for t
    by (rule port_ok_tty [OF ok that]) (auto simp: tty_ok_def TTY_FLIPBUF_SIZE_def)
  moreover have "open_count tiny = 0 \<and> map_option tm_pending (ts_timer tiny) = Some False"
    if "port_tty s i = None \<and> tiny_table s i = Some tiny" for tiny
    using ok that by (auto simp: port_ok_def)
  ultimately show ?thesis by blast
qed

lemma last_close:
  assumes "port_tty s i = Some t" "ttys s t = Some tty" "driver_data tty = Some i" "tty_count tty = 1" "tiny_table s i = Some tiny"
    "ts_sem tiny = 1" "open_count tiny = 1" "ts_timer tiny = Some tm"
  obtains s' where "do_tty_event env (Close_port i) s = Done s'"
    "tiny_table s' = (tiny_table s)(i \<mapsto> tiny\<lparr>open_count := 0, ts_timer := Some (tm\<lparr>tm_pending := False\<rparr>), ts_sem := 1\<rparr>)"
    "ttys s' = (ttys s)(t := None)" "port_tty s' = (port_tty s)(i := None)" "handlers s' = handlers s" "next_tty s' = next_tty s"
proof -
  show thesis
    by (rule that [of "s\<lparr>tiny_table := (tiny_table s)(i \<mapsto> tiny\<lparr>open_count := 0, ts_timer := Some (tm\<lparr>tm_pending := False\<rparr>), ts_sem := 1\<rparr>),
          ttys := (ttys s)(t := None), port_tty := (port_tty s)(i := None)\<rparr>"])
      (use assms in \<open>simp_all add: tty_release_def tiny_close_def do_close_def the_tty_def the_tiny_def Let_def tiny_up_def up_def
         del_tty_timer_def on_tiny_def on_tty_def\<close>)
qed

text \<open>C26: Closing a port does not wait for the handler of its timer. When the last closing comes between the two halves of the handler, the timer is submitted
  again: it then runs for a terminal that is freed, and when the port is opened before that, the kernel finds it submitted twice.\<close>
theorem tiny_close_race:
  assumes "tty_loaded env s0 s1" "calm_run env s1 s" "port_tty s i = Some t" "map_option tty_count (ttys s t) = Some 1"
  shows "do_tty_events env [Timer_fires i, Close_port i, Timer_resubmits i, Timer_fires i] s = Crash Out_of_bounds \<and>
    do_tty_events env [Timer_fires i, Close_port i, Timer_resubmits i, Open_port i] s = Crash Kernel_bug"
proof -
  obtain a where inv: "tty_inv env (ty_mem s0) [a] s"
    by (rule calm_inv [OF assms(1,2)])
  then have ok: "port_ok i s"
    by (simp add: tty_inv_def)
  obtain tiny tm tty where p: "tiny_table s i = Some tiny" "ts_sem tiny = 1" "ts_timer tiny = Some tm" "tm_pending tm"
    "ts_tty tiny = t" "ttys s t = Some tty" "tty_ok i tiny tty" "i < TINY_TTY_MINORS"
    by (rule port_ok_tty [OF ok assms(3)])
  have c: "tty_count tty = 1" "driver_data tty = Some i" "open_count tiny = 1" "tty_index tty = i"
    using p(6,7) assms(4) by (auto simp: tty_ok_def)
  obtain s1 tiny' tm' tty' where f: "do_tty_event env (Timer_fires i) s = Done s1" "tiny_table s i = Some tiny'" "ts_timer tiny' = Some tm'"
    "ttys s t = Some tty'" "tty_ok i tiny' tty'" "ts_tty tiny' = t"
    "tiny_table s1 = (tiny_table s)(i \<mapsto> tiny'\<lparr>ts_timer := Some (tm'\<lparr>tm_pending := False\<rparr>)\<rparr>)"
    "ttys s1 = (ttys s)(t \<mapsto> timer_send tty')" "port_tty s1 = port_tty s" "next_tty s1 = next_tty s" "handlers s1 = i # handlers s"
    "ty_mem s1 = ty_mem s"
    by (rule fires_eff [OF ok assms(3)])
  have same: "tiny' = tiny" "tty' = tty" "tm' = tm"
    using p f(2,3,4) by simp_all
  note defs = do_tty_event.simps tty_release_def tiny_close_def do_close_def the_tty_def the_tiny_def Let_def tiny_up_def up_def
    del_tty_timer_def add_tty_timer_def tiny_timer_send_def tty_open_def find_tty_def tiny_open_def create_tiny_def create_timer_def
  let ?off = "tiny\<lparr>ts_timer := Some (tm\<lparr>tm_pending := False\<rparr>)\<rparr>"
  obtain s2 where s2: "do_tty_event env (Close_port i) s1 = Done s2"
    "tiny_table s2 = (tiny_table s1)(i \<mapsto> ?off\<lparr>open_count := 0, ts_timer := Some (tm\<lparr>tm_pending := False\<rparr>\<lparr>tm_pending := False\<rparr>), ts_sem := 1\<rparr>)"
    "ttys s2 = (ttys s1)(t := None)" "port_tty s2 = (port_tty s1)(i := None)" "handlers s2 = handlers s1" "next_tty s2 = next_tty s1"
    by (rule last_close [of s1 i t "timer_send tty" ?off "tm\<lparr>tm_pending := False\<rparr>" env])
      (use c p(2) assms(3) in \<open>simp_all add: f(7-9) same\<close>)
  have m2: "tiny_table s2 i = Some (?off\<lparr>open_count := 0, ts_timer := Some (tm\<lparr>tm_pending := False\<rparr>), ts_sem := 1\<rparr>)"
    by (simp add: s2(2))
  obtain s3 where s3: "do_tty_event env (Timer_resubmits i) s2 = Done s3"
    "tiny_table s3 = (tiny_table s2)(i \<mapsto> ?off\<lparr>open_count := 0, ts_timer := Some (tm\<lparr>tm_pending := False\<rparr>), ts_sem := 1\<rparr>
       \<lparr>ts_timer := Some (tm\<lparr>tm_pending := False\<rparr>\<lparr>tm_pending := True\<rparr>)\<rparr>)"
    "ttys s3 = ttys s2" "port_tty s3 = port_tty s2" "next_tty s3 = next_tty s2" "handlers s3 = remove1 i (handlers s2)" "ty_mem s3 = ty_mem s2"
    by (rule resubmits_eff [OF m2, of "tm\<lparr>tm_pending := False\<rparr>"]) simp_all
  have "do_tty_event env (Timer_fires i) s3 = Crash Out_of_bounds"
    by (simp add: defs s3(2,3) s2(3) p(5))
  moreover have "do_tty_event env (Open_port i) s3 = Crash Kernel_bug"
    by (simp add: defs s3 s2(4))
  ultimately show ?thesis
    by (simp add: f(1) s2(1) s3(1) del: do_tty_event.simps)
qed

text \<open>The first opening of a port for which the memory of the timer is not to be had, or looks like a pending timer because it is not
  cleared, brings the kernel down: the first when the kernel closes what it failed to open.\<close>
theorem tiny_open_timer_memory:
  assumes "unloaded_tty s" "i < TINY_TTY_MINORS" "kmalloc (tiny_bytes env) (ty_mem s) = (Some a, k)"
  shows "(fst (kmalloc (timer_bytes env) k) = None \<longrightarrow> do_tty_event env (Open_port i) s = Crash Null_deref) \<and>
    (\<forall>b. fst (kmalloc (timer_bytes env) k) = Some b \<and> timer_junk env b \<longrightarrow> do_tty_event env (Open_port i) s = Crash Kernel_bug)"
proof -
  obtain r k' where m: "kmalloc (timer_bytes env) k = (r, k')"
    by fastforce
  have s: "tiny_table s i = None" "port_tty s i = None"
    using assms(1) by (simp_all add: unloaded_tty_def)
  show ?thesis
    using assms(3) m s
    by (auto simp: tty_open_def find_tty_def tiny_open_def the_tty_def the_tiny_def create_tiny_def Let_def tiny_up_def up_def
          create_timer_def add_tty_timer_def tty_release_def tiny_close_def do_close_def del_tty_timer_def)
qed

text \<open>Unloading with all ports closed after a calm run frees everything but the driver's structure, which loading has allocated.\<close>
theorem tiny_unload_leaks:
  assumes "tty_loaded env s0 s1" "calm_run env s1 s" "port_tty s 0 = None" "port_tty s 1 = None" "port_tty s 2 = None" "port_tty s 3 = None"
  shows "\<exists>a s'. tiny_tty_driver s1 = Some a \<and> tiny_exit s = Done s' \<and> accounted (ty_mem s0) [] (ty_mem s') [a] \<and> tiny_addrs s' = []"
proof -
  obtain a where a: "tiny_tty_driver s1 = Some a" and inv: "tty_inv env (ty_mem s0) [a] s"
    by (rule calm_inv [OF assms(1,2)])
  have "kmem_ok (ty_mem s0)"
    using assms(1) by (simp add: tty_loaded_def)
  then show ?thesis
    using exit_eff [OF inv assms(3-6)] a by blast
qed

section \<open>Properties of the calls\<close>

text \<open>A write never succeeds: it logs the bytes and returns an error, whatever the state of the port.\<close>
theorem tiny_write_fails:
  assumes "tiny_write t buf s = Done (r, logged, s')"
  shows "r = Inl ENODEV \<and> logged = [] \<or> r = Inl EINVAL \<and> (logged = [] \<or> logged = buf)"
  using assms by (auto simp: tiny_write_def and_then_Done_iff Let_def split: option.splits if_splits)

lemma modem_masks:
  "MCR_DTR = push_bit 0 1" "MCR_RTS = push_bit 1 1" "MCR_LOOP = push_bit 2 1" "MSR_CTS = push_bit 3 1" "MSR_CD = push_bit 4 1"
  "MSR_RI = push_bit 5 1" "MSR_DSR = push_bit 6 1" "TIOCM_DTR = push_bit 1 1" "TIOCM_RTS = push_bit 2 1" "TIOCM_CTS = push_bit 5 1"
  "TIOCM_CAR = push_bit 6 1" "TIOCM_RI = push_bit 7 1" "TIOCM_DSR = push_bit 8 1" "TIOCM_LOOP = push_bit 15 1"
  by (simp_all add: MCR_DTR_def MCR_RTS_def MCR_LOOP_def MSR_CTS_def MSR_CD_def MSR_RI_def MSR_DSR_def TIOCM_DTR_def TIOCM_RTS_def
      TIOCM_CTS_def TIOCM_CAR_def TIOCM_RI_def TIOCM_DSR_def TIOCM_LOOP_def push_bit_eq_mult)

lemma and_bit_0: "n < 32 \<Longrightarrow> x AND push_bit n 1 = 0 \<longleftrightarrow> \<not> bit x n" for x :: "32 word"
  using bit_iff_and_push_bit_not_eq_0 [of x n] by blast

lemma mask_0 [simp]:
  "x AND MCR_DTR = 0 \<longleftrightarrow> \<not> bit x 0"
  "x AND MCR_RTS = 0 \<longleftrightarrow> \<not> bit x 1"
  "x AND MCR_LOOP = 0 \<longleftrightarrow> \<not> bit x 2"
  "x AND MSR_CTS = 0 \<longleftrightarrow> \<not> bit x 3"
  "x AND MSR_CD = 0 \<longleftrightarrow> \<not> bit x 4"
  "x AND MSR_RI = 0 \<longleftrightarrow> \<not> bit x 5"
  "x AND MSR_DSR = 0 \<longleftrightarrow> \<not> bit x 6"
  "x AND TIOCM_DTR = 0 \<longleftrightarrow> \<not> bit x 1"
  "x AND TIOCM_RTS = 0 \<longleftrightarrow> \<not> bit x 2"
  "x AND TIOCM_CTS = 0 \<longleftrightarrow> \<not> bit x 5"
  "x AND TIOCM_CAR = 0 \<longleftrightarrow> \<not> bit x 6"
  "x AND TIOCM_RI = 0 \<longleftrightarrow> \<not> bit x 7"
  "x AND TIOCM_DSR = 0 \<longleftrightarrow> \<not> bit x 8"
  "x AND TIOCM_LOOP = 0 \<longleftrightarrow> \<not> bit x 15"
  unfolding modem_masks by (rule and_bit_0; simp)+

lemma mask_bit [simp]:
  "bit MCR_DTR n \<longleftrightarrow> n = 0"
  "bit MCR_RTS n \<longleftrightarrow> n = 1"
  "bit MCR_LOOP n \<longleftrightarrow> n = 2"
  "bit MSR_CTS n \<longleftrightarrow> n = 3"
  "bit MSR_CD n \<longleftrightarrow> n = 4"
  "bit MSR_RI n \<longleftrightarrow> n = 5"
  "bit MSR_DSR n \<longleftrightarrow> n = 6"
  "bit TIOCM_DTR n \<longleftrightarrow> n = 1"
  "bit TIOCM_RTS n \<longleftrightarrow> n = 2"
  "bit TIOCM_CTS n \<longleftrightarrow> n = 5"
  "bit TIOCM_CAR n \<longleftrightarrow> n = 6"
  "bit TIOCM_RI n \<longleftrightarrow> n = 7"
  "bit TIOCM_DSR n \<longleftrightarrow> n = 8"
  "bit TIOCM_LOOP n \<longleftrightarrow> n = 15"
  unfolding modem_masks bit_push_bit_iff bit_1_iff by auto

lemma modem_bits_bit:
  "bit (modem_bits mcr msr) 1 \<longleftrightarrow> bit mcr 0" "bit (modem_bits mcr msr) 2 \<longleftrightarrow> bit mcr 1"
  by (simp_all add: modem_bits_def bit_or_iff)

lemma new_mcr_bits:
  "bit (new_mcr set_bits clear mcr) 0 \<longleftrightarrow> bit mcr 0"
  "bit (new_mcr set_bits clear mcr) 1 \<longleftrightarrow> \<not> (bit clear 1 \<or> bit clear 2) \<and> (bit set_bits 1 \<or> bit set_bits 2 \<or> bit mcr 1)"
  by (auto simp: new_mcr_def bit_or_iff bit_and_iff bit_not_iff Let_def)

lemma or_0_iff: "x OR y = 0 \<longleftrightarrow> x = 0 \<and> y = 0" for x :: "32 word"
  by (auto simp: bit_eq_iff bit_or_iff)

lemma and_lines: "x AND (TIOCM_RTS OR TIOCM_DTR) = 0 \<longleftrightarrow> \<not> bit x 1 \<and> \<not> bit x 2"
  by (auto simp: bit.conj_disj_distrib or_0_iff)

lemma and_TIOCM_DTR: "bit x 1 = bit y 1 \<Longrightarrow> x AND TIOCM_DTR = y AND TIOCM_DTR"
  by (rule bit_eqI) (auto simp: bit_and_iff)

text \<open>Setting and clearing the modem lines acts on RTS alone: a request for DTR changes RTS, and DTR keeps the value
  that the memory happened to have.\<close>
theorem tiny_modem_lines:
  assumes "tiny_tiocmset t set_bits clear s = Done (r, s')" "tiny_tiocmget t s = Done m"
  shows "\<exists>m'. tiny_tiocmget t s' = Done m' \<and> m' AND TIOCM_DTR = m AND TIOCM_DTR \<and>
    (m' AND TIOCM_RTS \<noteq> 0 \<longleftrightarrow> clear AND (TIOCM_RTS OR TIOCM_DTR) = 0 \<and>
       (set_bits AND (TIOCM_RTS OR TIOCM_DTR) \<noteq> 0 \<or> m AND TIOCM_RTS \<noteq> 0))"
proof -
  obtain tty i tiny where o: "ttys s t = Some tty" "driver_data tty = Some i" "tiny_table s i = Some tiny"
    "m = modem_bits (ts_mcr tiny) (ts_msr tiny)"
    using assms(2) by (auto simp: tiny_tiocmget_def the_tty_def the_tiny_def split: option.splits)
  let ?mcr = "new_mcr set_bits clear (ts_mcr tiny)"
  have s': "s' = on_tiny i (\<lambda>tiny. tiny\<lparr>ts_mcr := new_mcr set_bits clear (ts_mcr tiny)\<rparr>) s"
    using assms(1) o by (auto simp: tiny_tiocmset_def the_tty_def the_tiny_def)
  have "tiny_tiocmget t s' = Done (modem_bits ?mcr (ts_msr tiny))"
    using o by (simp add: s' tiny_tiocmget_def the_tty_def the_tiny_def)
  moreover have "modem_bits ?mcr (ts_msr tiny) AND TIOCM_DTR = m AND TIOCM_DTR"
    by (rule and_TIOCM_DTR) (simp only: modem_bits_bit new_mcr_bits o(4))
  moreover have "modem_bits ?mcr (ts_msr tiny) AND TIOCM_RTS \<noteq> 0 \<longleftrightarrow> clear AND (TIOCM_RTS OR TIOCM_DTR) = 0 \<and>
       (set_bits AND (TIOCM_RTS OR TIOCM_DTR) \<noteq> 0 \<or> m AND TIOCM_RTS \<noteq> 0)"
    unfolding and_lines mask_0 modem_bits_bit new_mcr_bits o(4) by blast
  ultimately show ?thesis by blast
qed

text \<open>A change of the flow control by characters alone is not noticed, although it is one of the settings that are read.\<close>
theorem tiny_termios_ignores_xon:
  "tiny_set_termios baud (Some old) (old\<lparr>c_iflag := c_iflag old XOR (if out then 0x400 else 0x1000)\<rparr>) = None"
proof -
  have "RELEVANT_IFLAG (x XOR y) = RELEVANT_IFLAG x XOR RELEVANT_IFLAG y" for x y
    by (simp add: RELEVANT_IFLAG_def bit.conj_xor_distrib2)
  moreover have "RELEVANT_IFLAG 0x400 = 0" "RELEVANT_IFLAG 0x1000 = 0"
    by (simp_all add: RELEVANT_IFLAG_def)
  ultimately show ?thesis
    by (simp add: tiny_set_termios_def Let_def)
qed

text \<open>The proc file as a whole: a line for every port that was opened.\<close>

definition proc_text :: "tiny_sys \<Rightarrow> string" where
  "proc_text s = proc_header @ concat (map port_line (filter (\<lambda>i. tiny_table s i \<noteq> None) [0..<TINY_TTY_MINORS]))"

definition page_part :: "nat \<Rightarrow> nat \<Rightarrow> string \<Rightarrow> nat \<Rightarrow> string" where
  "page_part off cnt page pos =
     (if off \<ge> length page + pos then []
      else take (if cnt < pos + length page - off then cnt else pos + length page - off) (drop (off - pos) page))"

lemma page_part_take: "pos \<le> off \<Longrightarrow> page_part off cnt page pos = take cnt (drop (off - pos) page)"
  by (auto simp: page_part_def)

lemma port_lines_text:
  assumes "port_lines present is off cnt page pos = (eof, page', pos')" "pos \<le> off" "length page + 2 * length is < 4096"
  shows "page_part off cnt page' pos' = take cnt (drop (off - pos) (page @ concat (map port_line (filter present is)))) \<and>
    (eof \<or> off + cnt < pos' + length page')"
  using assms
proof (induction "is" arbitrary: page pos)
  case Nil
  then show ?case by (simp add: page_part_take)
next
  case (Cons i "is")
  have len: "length (port_line i) = 2"
    by (simp add: port_line_def)
  let ?page = "page @ port_line i" and ?rest = "concat (map port_line (filter present is))"
  consider "\<not> present i" | "present i" "off + cnt < length ?page + pos" | "present i" "length ?page + pos < off"
    | "present i" "\<not> off + cnt < length ?page + pos" "\<not> length ?page + pos < off" by linarith
  then show ?case
  proof cases
    case 1
    then show ?thesis
      using Cons.prems Cons.IH [of page pos] by simp
  next
    case 2
    then have "page' = ?page" "pos' = pos" "\<not> eof"
      using Cons.prems(1,3) by (simp_all add: len)
    with 2 Cons.prems(2) show ?thesis
      by (simp add: page_part_take len)
  next
    case 3
    then have "port_lines present is off cnt [] (pos + length ?page) = (eof, page', pos')"
      using Cons.prems(1,3) by (simp add: len)
    from Cons.IH [OF this] 3 Cons.prems(3) show ?thesis
      by (simp add: len)
  next
    case 4
    then have "port_lines present is off cnt ?page pos = (eof, page', pos')"
      using Cons.prems(1,3) by (simp add: len)
    from Cons.IH [OF this Cons.prems(2)] 4 Cons.prems(3) show ?thesis
      by (simp add: len)
  qed
qed

text \<open>Whatever the offset and the size, a read of the proc file returns the bytes of one text at that offset.\<close>
theorem tiny_read_proc_text:
  "snd (tiny_read_proc off cnt s) = take cnt (drop off (proc_text s))"
proof -
  obtain eof page pos where lines: "port_lines (\<lambda>i. tiny_table s i \<noteq> None) [0..<TINY_TTY_MINORS] off cnt proc_header 0 = (eof, page, pos)"
    by (metis prod_cases3)
  have "length proc_header + 2 * length [0..<TINY_TTY_MINORS] < 4096"
    by (simp add: proc_header_def TINY_TTY_MINORS_def)
  from port_lines_text [OF lines _ this] have "page_part off cnt page pos = take cnt (drop off (proc_text s))"
    by (simp add: proc_text_def)
  then show ?thesis
    unfolding tiny_read_proc_def lines prod.case by (auto simp: page_part_def)
qed

section \<open>Witnesses\<close>

definition no_icount :: async_icount where
  "no_icount = \<lparr>ic_cts = 0, ic_dsr = 0, ic_rng = 0, ic_dcd = 0, ic_rx = 0, ic_tx = 0, ic_frame = 0, ic_overrun = 0, ic_parity = 0,
     ic_brk = 0, ic_buf_overrun = 0\<rparr>"

definition no_serial :: serial_struct where
  "no_serial = \<lparr>ser_type = 0, ser_line = 0, ser_port = 0, ser_irq = 0, ser_flags = 0, ser_xmit_fifo_size = 0, ser_baud_base = 0,
     ser_close_delay = 0, ser_closing_wait = 0, ser_custom_divisor = 0, ser_hub6 = 0, ser_io_type = 0\<rparr>"

definition some_tiny_env :: "bool \<Rightarrow> tiny_env" where
  "some_tiny_env junk = \<lparr>tiny_bytes = 200, timer_bytes = 48, driver_bytes = 160, tiny_junk = (\<lambda>a. \<lparr>ts_addr = 0, ts_tty = 0, open_count = 7, ts_sem = 3,
     ts_timer = None, ts_msr = 0x58, ts_mcr = 1, ts_serial = no_serial, ts_icount = no_icount\<rparr>), timer_junk = (\<lambda>_. junk), tty_latency = False,
     register_result = None\<rparr>"

definition some_tiny_sys :: tiny_sys where
  "some_tiny_sys = \<lparr>tiny_table = Map.empty, ttys = Map.empty, port_tty = Map.empty, next_tty = 0, handlers = [], tiny_tty_driver = None,
     tty_registered = False, tty_devices = [], ty_mem = fresh_kmem\<rparr>"

lemma some_tty_open:
  obtains s1 s where "tty_loaded (some_tiny_env False) some_tiny_sys s1" "do_tty_event (some_tiny_env False) (Open_port 2) s1 = Done s"
    "calm_run (some_tiny_env False) s1 s" "port_tty s = [2 \<mapsto> 0]" "map_option tty_count (ttys s 0) = Some 1"
    "tty_enabled (Timer_fires 2) s" "unloaded_tty s1" "map_option driver_data (ttys s 0) = Some (Some 2)"
    "map_option ts_mcr (tiny_table s 2) = Some 1"
proof -
  have "\<exists>s1 s. tiny_init (some_tiny_env False) some_tiny_sys = Done (Inr 0, s1) \<and>
    do_tty_event (some_tiny_env False) (Open_port 2) s1 = Done s \<and> port_tty s = [2 \<mapsto> 0] \<and> map_option tty_count (ttys s 0) = Some 1 \<and>
    tty_enabled (Timer_fires 2) s \<and> unloaded_tty s1 \<and> map_option driver_data (ttys s 0) = Some (Some 2) \<and>
    map_option ts_mcr (tiny_table s 2) = Some 1"
    by (simp add: tiny_init_def some_tiny_env_def some_tiny_sys_def fresh_kmem_def kmalloc_def u64_def tty_open_def find_tty_def tiny_open_def
      the_tty_def the_tiny_def create_tiny_def Let_def tiny_up_def up_def create_timer_def add_tty_timer_def on_tiny_def on_tty_def unloaded_tty_def)
  then obtain s1 s where s: "tiny_init (some_tiny_env False) some_tiny_sys = Done (Inr 0, s1)"
    "do_tty_event (some_tiny_env False) (Open_port 2) s1 = Done s" "port_tty s = [2 \<mapsto> 0]" "map_option tty_count (ttys s 0) = Some 1"
    "tty_enabled (Timer_fires 2) s" "unloaded_tty s1" "map_option driver_data (ttys s 0) = Some (Some 2)"
    "map_option ts_mcr (tiny_table s 2) = Some 1" by blast
  have "tty_loaded (some_tiny_env False) some_tiny_sys s1"
    using s(1) by (simp add: tty_loaded_def unloaded_tty_def timers_ready_def some_tiny_env_def some_tiny_sys_def fresh_kmem_def kmem_ok_def u64_def)
  moreover have "calm_run (some_tiny_env False) s1 s"
    by (rule calm_run.calm_open [OF calm_run.calm_start _ s(2)]) (simp add: TINY_TTY_MINORS_def)
  ultimately show thesis
    using s by (intro that [of s1 s]) simp_all
qed

theorem tiny_ports_calm_witness:
  "\<exists>s1 s s' s''. tiny_init (some_tiny_env False) some_tiny_sys = Done (Inr 0, s1) \<and> do_tty_event (some_tiny_env False) (Open_port 2) s1 = Done s \<and>
     do_tty_event (some_tiny_env False) (Close_port 2) s = Done s' \<and>
     do_tty_events (some_tiny_env False) [Timer_fires 2, Timer_resubmits 2] s = Done s''"
proof -
  obtain s1 s where s: "tty_loaded (some_tiny_env False) some_tiny_sys s1" "do_tty_event (some_tiny_env False) (Open_port 2) s1 = Done s"
    "calm_run (some_tiny_env False) s1 s" "port_tty s = [2 \<mapsto> 0]" "map_option tty_count (ttys s 0) = Some 1"
    "tty_enabled (Timer_fires 2) s" "unloaded_tty s1" "map_option driver_data (ttys s 0) = Some (Some 2)"
    "map_option ts_mcr (tiny_table s 2) = Some 1"
    by (rule some_tty_open)
  have "2 < TINY_TTY_MINORS"
    by (simp add: TINY_TTY_MINORS_def)
  from tiny_ports_calm [OF s(1,3) this] s(1,2,6) show ?thesis
    unfolding tty_loaded_def by blast
qed

theorem tiny_close_race_witness:
  "\<exists>s1 s. tiny_init (some_tiny_env False) some_tiny_sys = Done (Inr 0, s1) \<and> do_tty_event (some_tiny_env False) (Open_port 2) s1 = Done s \<and>
     do_tty_events (some_tiny_env False) [Timer_fires 2, Close_port 2, Timer_resubmits 2, Timer_fires 2] s = Crash Out_of_bounds"
proof -
  obtain s1 s where s: "tty_loaded (some_tiny_env False) some_tiny_sys s1" "do_tty_event (some_tiny_env False) (Open_port 2) s1 = Done s"
    "calm_run (some_tiny_env False) s1 s" "port_tty s = [2 \<mapsto> 0]" "map_option tty_count (ttys s 0) = Some 1"
    "tty_enabled (Timer_fires 2) s" "unloaded_tty s1" "map_option driver_data (ttys s 0) = Some (Some 2)"
    "map_option ts_mcr (tiny_table s 2) = Some 1"
    by (rule some_tty_open)
  have "port_tty s 2 = Some 0"
    by (simp add: s(4))
  from tiny_close_race [OF s(1,3) this s(5)] s(1,2) show ?thesis
    unfolding tty_loaded_def by blast
qed

theorem tiny_open_timer_memory_witness:
  "do_tty_event (some_tiny_env True) (Open_port 2) some_tiny_sys = Crash Kernel_bug"
proof -
  have k: "kmalloc (tiny_bytes (some_tiny_env True)) (ty_mem some_tiny_sys) =
      (Some 1, fresh_kmem\<lparr>km_next := 2, km_live := [1 \<mapsto> 200]\<rparr>)"
    by (simp add: some_tiny_env_def some_tiny_sys_def fresh_kmem_def kmalloc_def u64_def)
  have "unloaded_tty some_tiny_sys" "2 < TINY_TTY_MINORS"
    by (simp_all add: unloaded_tty_def some_tiny_sys_def TINY_TTY_MINORS_def)
  from tiny_open_timer_memory [OF this k] show ?thesis
    by (simp add: some_tiny_env_def fresh_kmem_def kmalloc_def u64_def)
qed

theorem tiny_unload_leaks_witness:
  "\<exists>s1 a s'. tiny_init (some_tiny_env False) some_tiny_sys = Done (Inr 0, s1) \<and> tiny_exit s1 = Done s' \<and> accounted fresh_kmem [] (ty_mem s') [a]"
proof -
  obtain s1 s where s: "tty_loaded (some_tiny_env False) some_tiny_sys s1" "do_tty_event (some_tiny_env False) (Open_port 2) s1 = Done s"
    "calm_run (some_tiny_env False) s1 s" "port_tty s = [2 \<mapsto> 0]" "map_option tty_count (ttys s 0) = Some 1"
    "tty_enabled (Timer_fires 2) s" "unloaded_tty s1" "map_option driver_data (ttys s 0) = Some (Some 2)"
    "map_option ts_mcr (tiny_table s 2) = Some 1"
    by (rule some_tty_open)
  have p: "port_tty s1 i = None" for i
    using s(7) by (simp add: unloaded_tty_def)
  have "ty_mem some_tiny_sys = fresh_kmem"
    by (simp add: some_tiny_sys_def)
  with tiny_unload_leaks [OF s(1) calm_run.calm_start p p p p] s(1) show ?thesis
    unfolding tty_loaded_def by metis
qed

lemma some_open_port:
  obtains s :: tiny_sys and tiny :: tiny_serial and tty :: tty where "ttys s 0 = Some tty" "driver_data tty = Some 2" "tiny_table s 2 = Some tiny" "ts_sem tiny = 1" "open_count tiny = 1"
proof -
  obtain s1 s where s: "tty_loaded (some_tiny_env False) some_tiny_sys s1" "do_tty_event (some_tiny_env False) (Open_port 2) s1 = Done s"
    "calm_run (some_tiny_env False) s1 s" "port_tty s = [2 \<mapsto> 0]" "map_option tty_count (ttys s 0) = Some 1"
    "tty_enabled (Timer_fires 2) s" "unloaded_tty s1" "map_option driver_data (ttys s 0) = Some (Some 2)"
    "map_option ts_mcr (tiny_table s 2) = Some 1"
    by (rule some_tty_open)
  obtain a where "tty_inv (some_tiny_env False) (ty_mem some_tiny_sys) [a] s"
    by (rule calm_inv [OF s(1,3)])
  then have ok: "port_ok 2 s" and t: "port_tty s 2 = Some 0"
    by (simp_all add: tty_inv_def s(4))
  show thesis
    by (rule port_ok_tty [OF ok t]) (use s(5,8) that in \<open>auto simp: tty_ok_def\<close>)
qed

theorem tiny_write_fails_witness:
  "\<exists>s s' r logged. tiny_write 0 [1, 2] s = Done (r, logged, s') \<and> logged = [1, 2] \<and> r = Inl EINVAL"
proof -
  obtain s :: tiny_sys and tiny :: tiny_serial and tty :: tty where s: "ttys s 0 = Some tty" "driver_data tty = Some 2" "tiny_table s 2 = Some tiny" "ts_sem tiny = 1" "open_count tiny = 1"
    by (rule some_open_port)
  then obtain r s' where w: "tiny_write 0 [1, 2] s = Done (r, [1, 2], s')"
    by (simp add: tiny_write_def the_tty_def the_tiny_def Let_def)
  with tiny_write_fails [OF w] show ?thesis by auto
qed

theorem tiny_modem_lines_witness:
  "\<exists>s m s' m'. tiny_tiocmget 0 s = Done m \<and> tiny_tiocmset 0 TIOCM_DTR 0 s = Done (0, s') \<and> tiny_tiocmget 0 s' = Done m' \<and>
     m' AND TIOCM_RTS \<noteq> 0 \<and> m' AND TIOCM_DTR = m AND TIOCM_DTR"
proof -
  obtain s :: tiny_sys and tiny :: tiny_serial and tty :: tty where s: "ttys s 0 = Some tty" "driver_data tty = Some 2" "tiny_table s 2 = Some tiny" "ts_sem tiny = 1" "open_count tiny = 1"
    by (rule some_open_port)
  then obtain m s' where g: "tiny_tiocmget 0 s = Done m" and t: "tiny_tiocmset 0 TIOCM_DTR 0 s = Done (0, s')"
    by (simp add: tiny_tiocmget_def tiny_tiocmset_def the_tty_def the_tiny_def)
  have "TIOCM_DTR AND (TIOCM_RTS OR TIOCM_DTR) \<noteq> 0" "0 AND (TIOCM_RTS OR TIOCM_DTR) = 0"
    by (simp_all add: TIOCM_DTR_def TIOCM_RTS_def)
  with tiny_modem_lines [OF t g] g t show ?thesis by blast
qed

end
