(* ===== verification/Tiny_Serial.thy ===== *)
theory Tiny_Serial
  imports Kernel_Prelude
begin

text \<open>
  The serial driver tiny_serial (tty/tiny_serial.c of Kernel/Driver/ldd3-master): one port without hardware, whose timer
  receives a character and transmits what the serial core has put into the circular buffer. The model has the driver and the part of
  the core that opens and closes the port and fills the buffer; the handler of the timer can be interrupted before it submits the timer again.
\<close>

section \<open>State\<close>

definition UART_XMIT_SIZE :: nat where "UART_XMIT_SIZE = 4096"
definition WAKEUP_CHARS :: nat where "WAKEUP_CHARS = 256"
definition SERIAL_DATA_CHARACTER :: byte where "SERIAL_DATA_CHARACTER = 116"

text \<open>The port. \<open>up_open\<close> says that it has a terminal, \<open>received\<close> and \<open>sent\<close> are the characters in each direction, \<open>wakeups\<close> counts
  the calls for more data. \<open>serial_timer\<close> is \<open>None\<close> before it is allocated and says then whether it is pending; \<open>in_handler\<close>, that its
  handler runs and has not submitted it.\<close>

record uart_port =
  up_open :: bool
  x_char :: byte
  icount_tx :: int
  xmit_buf :: "byte list"
  xmit_head :: nat
  xmit_tail :: nat
  fifosize :: int
  tx_stopped :: bool
  received :: "byte list"
  sent :: "byte list"
  wakeups :: nat
  serial_timer :: "bool option"
  in_handler :: bool

definition circ_pending :: "uart_port \<Rightarrow> nat" where
  "circ_pending p = (xmit_head p + (UART_XMIT_SIZE - xmit_tail p)) mod UART_XMIT_SIZE"

definition circ_empty :: "uart_port \<Rightarrow> bool" where
  "circ_empty p \<longleftrightarrow> xmit_head p = xmit_tail p"

section \<open>The driver\<close>

definition tx_one :: "uart_port \<Rightarrow> uart_port" where
  "tx_one p = p\<lparr>sent := sent p @ [xmit_buf p ! xmit_tail p], xmit_tail := (xmit_tail p + 1) mod UART_XMIT_SIZE, icount_tx := u32 (icount_tx p + 1)\<rparr>"

text \<open>The loop sends at least one character, whatever the count.\<close>

fun tx_loop :: "nat \<Rightarrow> uart_port \<Rightarrow> uart_port" where
  "tx_loop n p = (let p = tx_one p in if circ_empty p \<or> n \<le> 1 then p else tx_loop (n - 1) p)"

declare tx_loop.simps [simp del]

definition serial_tx_chars :: "uart_port \<Rightarrow> uart_port" where
  "serial_tx_chars p =
     (if x_char p \<noteq> 0 then p\<lparr>sent := sent p @ [x_char p], icount_tx := u32 (icount_tx p + 1), x_char := 0\<rparr>
      else if circ_empty p \<or> tx_stopped p then p
      else
        let p = tx_loop (nat (fifosize p div 2)) p
        in if circ_pending p < WAKEUP_CHARS then p\<lparr>wakeups := Suc (wakeups p)\<rparr> else p)"

definition serial_add_timer :: "uart_port \<Rightarrow> uart_port outcome" where
  "serial_add_timer p =
     (case serial_timer p of
        None \<Rightarrow> Crash Null_deref
      | Some pending \<Rightarrow> if pending then Crash Kernel_bug else Done (p\<lparr>serial_timer := Some True\<rparr>))"

text \<open>The handler up to the submission of the timer, and the rest of it.\<close>

definition serial_timer_receive :: "uart_port \<Rightarrow> uart_port" where
  "serial_timer_receive p =
     (let p = p\<lparr>serial_timer := Some False\<rparr>
      in if up_open p then p\<lparr>received := received p @ [SERIAL_DATA_CHARACTER], in_handler := True\<rparr> else p)"

definition serial_timer_rest :: "uart_port \<Rightarrow> uart_port outcome" where
  "serial_timer_rest p = and_then (serial_add_timer p) (\<lambda>p. Done (serial_tx_chars (p\<lparr>in_handler := False\<rparr>)))"

text \<open>The memory of a new timer is not cleared and the timer not initialised: it looks pending when \<open>junk\<close> says so.\<close>

definition serial_startup :: "bool \<Rightarrow> bool \<Rightarrow> uart_port \<Rightarrow> ((errno + int) \<times> uart_port) outcome" where
  "serial_startup granted junk p =
     (case serial_timer p of
        None \<Rightarrow>
          if granted then and_then (serial_add_timer (p\<lparr>serial_timer := Some junk\<rparr>)) (\<lambda>p. Done (Inr 0, p)) else Done (Inl ENOMEM, p)
      | Some _ \<Rightarrow> and_then (serial_add_timer p) (\<lambda>p. Done (Inr 0, p)))"

definition serial_shutdown :: "uart_port \<Rightarrow> uart_port outcome" where
  "serial_shutdown p = (case serial_timer p of None \<Rightarrow> Crash Null_deref | Some _ \<Rightarrow> Done (p\<lparr>serial_timer := Some False\<rparr>))"

section \<open>The serial core\<close>

datatype serial_event = First_open bool bool | Last_close | Put_char byte | Put_xchar byte | Fire | Handler_ends

fun serial_allowed :: "serial_event \<Rightarrow> uart_port \<Rightarrow> bool" where
  "serial_allowed (First_open granted junk) p = (\<not> up_open p)"
| "serial_allowed Last_close p = up_open p"
| "serial_allowed (Put_char c) p = (up_open p \<and> Suc (circ_pending p) < UART_XMIT_SIZE)"
| "serial_allowed (Put_xchar c) p = up_open p"
| "serial_allowed Fire p = (serial_timer p = Some True \<and> \<not> in_handler p)"
| "serial_allowed Handler_ends p = in_handler p"

fun serial_do :: "serial_event \<Rightarrow> uart_port \<Rightarrow> uart_port outcome" where
  "serial_do (First_open granted junk) p =
     and_then (serial_startup granted junk p) (\<lambda>(r, p). Done (case r of Inl e \<Rightarrow> p | Inr _ \<Rightarrow> p\<lparr>up_open := True\<rparr>))"
| "serial_do Last_close p = and_then (serial_shutdown p) (\<lambda>p. Done (p\<lparr>up_open := False, xmit_head := 0, xmit_tail := 0\<rparr>))"
| "serial_do (Put_char c) p = Done (p\<lparr>xmit_buf := (xmit_buf p)[xmit_head p := c], xmit_head := Suc (xmit_head p) mod UART_XMIT_SIZE\<rparr>)"
| "serial_do (Put_xchar c) p = Done (p\<lparr>x_char := c\<rparr>)"
| "serial_do Fire p = Done (serial_timer_receive p)"
| "serial_do Handler_ends p = serial_timer_rest p"

definition serial_start :: "int \<Rightarrow> uart_port" where
  "serial_start fifo = \<lparr>up_open = False, x_char = 0, icount_tx = 0, xmit_buf = replicate UART_XMIT_SIZE 0, xmit_head = 0, xmit_tail = 0,
     fifosize = fifo, tx_stopped = False, received = [], sent = [], wakeups = 0, serial_timer = None, in_handler = False\<rparr>"

text \<open>Runs in which the port is not closed while the handler runs.\<close>

definition calm :: "serial_event \<Rightarrow> uart_port \<Rightarrow> bool" where
  "calm ev p \<longleftrightarrow> (ev = Last_close \<longrightarrow> \<not> in_handler p)"

inductive serial_reach :: "int \<Rightarrow> uart_port \<Rightarrow> bool" for fifo where
  "serial_reach fifo (serial_start fifo)"
| "serial_reach fifo p \<Longrightarrow> serial_allowed ev p \<Longrightarrow> calm ev p \<Longrightarrow> serial_do ev p = Done p' \<Longrightarrow> serial_reach fifo p'"

section \<open>The buffer\<close>

text \<open>What waits to be sent, the oldest character first.\<close>

definition waiting_chars :: "uart_port \<Rightarrow> byte list" where
  "waiting_chars p = map (\<lambda>k. xmit_buf p ! ((xmit_tail p + k) mod UART_XMIT_SIZE)) [0..<circ_pending p]"

definition uart_ok :: "uart_port \<Rightarrow> bool" where
  "uart_ok p \<longleftrightarrow> length (xmit_buf p) = UART_XMIT_SIZE \<and> xmit_head p < UART_XMIT_SIZE \<and> xmit_tail p < UART_XMIT_SIZE"

lemma length_waiting [simp]: "length (waiting_chars p) = circ_pending p"
  by (simp add: waiting_chars_def)

lemma waiting_nth: "k < circ_pending p \<Longrightarrow> waiting_chars p ! k = xmit_buf p ! ((xmit_tail p + k) mod UART_XMIT_SIZE)"
  by (simp add: waiting_chars_def)

lemma tx_one_simps [simp]: "xmit_buf (tx_one p) = xmit_buf p" "xmit_tail (tx_one p) = (xmit_tail p + 1) mod UART_XMIT_SIZE"
  "sent (tx_one p) = sent p @ [xmit_buf p ! xmit_tail p]"
  by (simp_all add: tx_one_def)

text \<open>\<open>q\<close> is \<open>p\<close> after some characters have been sent.\<close>

definition only_sent :: "uart_port \<Rightarrow> uart_port \<Rightarrow> bool" where
  "only_sent p q \<longleftrightarrow> q = p\<lparr>sent := sent q, xmit_tail := xmit_tail q, icount_tx := icount_tx q\<rparr>"

lemma only_sentD:
  assumes "only_sent p q"
  shows "up_open q = up_open p" "serial_timer q = serial_timer p" "in_handler q = in_handler p" "x_char q = x_char p"
    "xmit_head q = xmit_head p" "xmit_buf q = xmit_buf p" "wakeups q = wakeups p"
  by (subst assms [unfolded only_sent_def], simp)+

lemma only_sent_one: "only_sent p (tx_one p)"
  by (simp add: only_sent_def tx_one_def)

lemma only_sent_trans: "only_sent p q \<Longrightarrow> only_sent q r \<Longrightarrow> only_sent p r"
  by (cases p, cases q, cases r) (auto simp: only_sent_def)

lemma circ_pending_cases:
  assumes "uart_ok p"
  shows "circ_pending p = (if xmit_tail p \<le> xmit_head p then xmit_head p - xmit_tail p else xmit_head p + UART_XMIT_SIZE - xmit_tail p)"
proof (cases "xmit_tail p \<le> xmit_head p")
  case True
  then have "xmit_head p + (UART_XMIT_SIZE - xmit_tail p) = xmit_head p - xmit_tail p + UART_XMIT_SIZE"
    using assms by (simp add: uart_ok_def)
  then have "circ_pending p = (xmit_head p - xmit_tail p + UART_XMIT_SIZE) mod UART_XMIT_SIZE"
    by (simp only: circ_pending_def)
  also have "\<dots> = (xmit_head p - xmit_tail p) mod UART_XMIT_SIZE"
    by (rule mod_add_self2)
  also have "\<dots> = xmit_head p - xmit_tail p"
    by (rule mod_less [OF le_less_trans [OF diff_le_self]]) (use assms in \<open>simp add: uart_ok_def\<close>)
  finally show ?thesis
    using True by simp
next
  case False
  then have "xmit_head p + UART_XMIT_SIZE - xmit_tail p < UART_XMIT_SIZE"
    using assms unfolding uart_ok_def by linarith
  then have "(xmit_head p + UART_XMIT_SIZE - xmit_tail p) mod UART_XMIT_SIZE = xmit_head p + UART_XMIT_SIZE - xmit_tail p"
    by (rule mod_less)
  then show ?thesis
    using False assms by (simp add: circ_pending_def uart_ok_def)
qed

lemma circ_empty_pending: "uart_ok p \<Longrightarrow> circ_empty p \<longleftrightarrow> circ_pending p = 0"
  by (simp add: circ_pending_cases circ_empty_def) (simp add: uart_ok_def)

lemma tx_one_ok: "uart_ok p \<Longrightarrow> uart_ok (tx_one p)"
  by (simp add: uart_ok_def tx_one_def UART_XMIT_SIZE_def)

lemma tx_one_pending:
  assumes "uart_ok p" "\<not> circ_empty p"
  shows "circ_pending p = Suc (circ_pending (tx_one p))"
proof (cases "xmit_tail p + 1 = UART_XMIT_SIZE")
  case True
  then have "xmit_tail (tx_one p) = 0" "xmit_head (tx_one p) = xmit_head p"
    by (simp_all add: tx_one_def)
  then show ?thesis
    using True assms circ_pending_cases [OF assms(1)] circ_pending_cases [OF tx_one_ok [OF assms(1)]]
    by (auto simp: uart_ok_def circ_empty_def)
next
  case False
  then have "xmit_tail (tx_one p) = xmit_tail p + 1" "xmit_head (tx_one p) = xmit_head p"
    using assms(1) by (simp_all add: tx_one_def uart_ok_def)
  then show ?thesis
    using False assms circ_pending_cases [OF assms(1)] circ_pending_cases [OF tx_one_ok [OF assms(1)]]
    by (auto simp: uart_ok_def circ_empty_def)
qed

lemma tx_one_waiting:
  assumes "uart_ok p" "\<not> circ_empty p"
  shows "waiting_chars p = xmit_buf p ! xmit_tail p # waiting_chars (tx_one p)"
proof (rule nth_equalityI)
  show "length (waiting_chars p) = length (xmit_buf p ! xmit_tail p # waiting_chars (tx_one p))"
    using tx_one_pending [OF assms] by simp
  fix k
  assume k: "k < length (waiting_chars p)"
  have tail: "xmit_tail p mod UART_XMIT_SIZE = xmit_tail p"
    using assms(1) by (simp add: uart_ok_def)
  show "waiting_chars p ! k = (xmit_buf p ! xmit_tail p # waiting_chars (tx_one p)) ! k"
  proof (cases k)
    case 0
    then show ?thesis
      using k tail by (simp add: waiting_nth)
  next
    case (Suc j)
    have "((xmit_tail p + 1) mod UART_XMIT_SIZE + j) mod UART_XMIT_SIZE = (xmit_tail p + Suc j) mod UART_XMIT_SIZE"
      by (simp add: mod_add_left_eq)
    then show ?thesis
      using k Suc tx_one_pending [OF assms] by (simp add: waiting_nth)
  qed
qed

lemma tx_loop_effect:
  assumes "uart_ok p" "\<not> circ_empty p"
  shows "uart_ok (tx_loop n p) \<and>
    sent (tx_loop n p) = sent p @ take (max 1 n) (waiting_chars p) \<and> waiting_chars (tx_loop n p) = drop (max 1 n) (waiting_chars p) \<and>
    only_sent p (tx_loop n p)"
  using assms
proof (induction n p rule: tx_loop.induct)
  case (1 n p)
  let ?p = "tx_one p"
  note ok = tx_one_ok [OF 1(2)] and w = tx_one_waiting [OF 1(2,3)]
  show ?case
  proof (cases "circ_empty ?p \<or> n \<le> 1")
    case True
    then have loop: "tx_loop n p = ?p"
      by (simp add: tx_loop.simps [of n p] Let_def)
    have "circ_empty ?p \<Longrightarrow> waiting_chars ?p = []"
      using circ_empty_pending [OF ok] length_waiting [of ?p] by (simp only: length_0_conv)
    then have "max 1 n = 1 \<or> waiting_chars ?p = []"
      using True by auto
    moreover obtain m where "max 1 n = Suc m"
      by (cases "max 1 n") auto
    ultimately have "take (max 1 n) (waiting_chars p) = [xmit_buf p ! xmit_tail p]" "drop (max 1 n) (waiting_chars p) = waiting_chars ?p"
      using w by auto
    then show ?thesis
      using ok only_sent_one by (simp add: loop)
  next
    case False
    then have loop: "tx_loop n p = tx_loop (n - 1) ?p"
      by (simp add: tx_loop.simps [of n p] Let_def)
    have IH: "uart_ok (tx_loop (n - 1) ?p) \<and>
      sent (tx_loop (n - 1) ?p) = sent ?p @ take (max 1 (n - 1)) (waiting_chars ?p) \<and> waiting_chars (tx_loop (n - 1) ?p) = drop (max 1 (n - 1)) (waiting_chars ?p) \<and>
      only_sent ?p (tx_loop (n - 1) ?p)"
      using 1(1) [OF refl False ok] False by blast
    have n: "max 1 n = Suc (max 1 (n - 1))"
      using False by (simp add: max_def) linarith
    show ?thesis
      unfolding loop n w using IH only_sent_trans [OF only_sent_one] by simp
  qed
qed

section \<open>The timer\<close>

text \<open>In calm runs the timer is pending exactly while the port is open and the handler does not run.\<close>

definition serial_inv :: "uart_port \<Rightarrow> bool" where
  "serial_inv p \<longleftrightarrow> uart_ok p \<and> (in_handler p \<longrightarrow> up_open p) \<and>
     (up_open p \<longrightarrow> serial_timer p = Some (\<not> in_handler p)) \<and> (\<not> up_open p \<longrightarrow> serial_timer p \<noteq> Some True)"

lemma serial_tx_chars_same:
  assumes "uart_ok p"
  shows "uart_ok (serial_tx_chars p) \<and> up_open (serial_tx_chars p) = up_open p \<and> serial_timer (serial_tx_chars p) = serial_timer p \<and>
    in_handler (serial_tx_chars p) = in_handler p"
proof (cases "x_char p \<noteq> 0 \<or> circ_empty p \<or> tx_stopped p")
  case True
  then show ?thesis
    using assms by (auto simp: serial_tx_chars_def uart_ok_def)
next
  case False
  let ?q = "tx_loop (nat (fifosize p div 2)) p"
  have ok: "uart_ok ?q"
    using tx_loop_effect [OF assms] False by blast
  have "only_sent p ?q"
    using tx_loop_effect [OF assms] False by blast
  from only_sentD [OF this] show ?thesis
    using ok False by (simp add: serial_tx_chars_def Let_def uart_ok_def)
qed

lemma serial_step_inv:
  assumes "serial_inv p" "serial_allowed ev p" "calm ev p"
  shows "if (\<exists>granted. ev = First_open granted True \<and> granted \<and> serial_timer p = None) then \<exists>c. serial_do ev p = Crash c
    else \<exists>p'. serial_do ev p = Done p' \<and> serial_inv p'"
proof (cases ev)
  case (First_open granted junk)
  then show ?thesis
    using assms
    by (cases "serial_timer p") (auto simp: serial_startup_def serial_add_timer_def serial_inv_def uart_ok_def)
next
  case Last_close
  then show ?thesis
    using assms by (auto simp: serial_shutdown_def serial_inv_def calm_def uart_ok_def UART_XMIT_SIZE_def)
next
  case (Put_char c)
  then show ?thesis
    using assms by (auto simp: serial_inv_def uart_ok_def UART_XMIT_SIZE_def)
next
  case (Put_xchar c)
  then show ?thesis
    using assms by (auto simp: serial_inv_def uart_ok_def)
next
  case Fire
  then show ?thesis
    using assms by (auto simp: serial_timer_receive_def Let_def serial_inv_def uart_ok_def)
next
  case Handler_ends
  let ?p = "p\<lparr>serial_timer := Some True, in_handler := False\<rparr>"
  have t: "serial_timer p = Some False" "up_open p" "uart_ok ?p"
    using assms Handler_ends by (auto simp: serial_inv_def uart_ok_def)
  then have "serial_do ev p = Done (serial_tx_chars ?p)"
    using Handler_ends by (simp add: serial_timer_rest_def serial_add_timer_def)
  moreover have "serial_inv (serial_tx_chars ?p)"
    using serial_tx_chars_same [OF t(3)] t(2) by (simp add: serial_inv_def)
  ultimately show ?thesis
    using Handler_ends by simp
qed

lemma serial_reach_inv: "serial_reach fifo p \<Longrightarrow> serial_inv p"
proof (induction rule: serial_reach.induct)
  case 1
  then show ?case
    by (simp add: serial_inv_def serial_start_def uart_ok_def UART_XMIT_SIZE_def)
next
  case (2 p ev p')
  then show ?case
    using serial_step_inv [OF 2(5,2,3)] by (auto split: if_splits)
qed

section \<open>Properties\<close>

text \<open>A transmission sends the oldest characters of the buffer, half as many as the fifo has and at least one, and leaves the
  others; a high-priority character goes first, alone.\<close>
theorem serial_tx_chars_fifo:
  assumes "serial_reach fifo p"
  shows "if x_char p \<noteq> 0 then sent (serial_tx_chars p) = sent p @ [x_char p] \<and> waiting_chars (serial_tx_chars p) = waiting_chars p \<and> x_char (serial_tx_chars p) = 0
    else if tx_stopped p then serial_tx_chars p = p
    else sent (serial_tx_chars p) = sent p @ take (max 1 (nat (fifosize p div 2))) (waiting_chars p) \<and>
      waiting_chars (serial_tx_chars p) = drop (max 1 (nat (fifosize p div 2))) (waiting_chars p)"
proof -
  have ok: "uart_ok p"
    using serial_reach_inv [OF assms] by (simp add: serial_inv_def)
  have w: "waiting_chars (p\<lparr>wakeups := k\<rparr>) = waiting_chars p" "waiting_chars (p\<lparr>sent := o', icount_tx := i, x_char := x\<rparr>) = waiting_chars p" for p k o' i x
    by (simp_all add: waiting_chars_def circ_pending_def)
  have "waiting_chars p = []" if "circ_empty p"
    using that circ_empty_pending [OF ok] length_waiting [of p] by (simp only: length_0_conv)
  then show ?thesis
    using tx_loop_effect [OF ok, of "nat (fifosize p div 2)"] by (simp add: serial_tx_chars_def Let_def w)
qed

text \<open>As long as the port is not closed while the handler runs, nothing crashes but the first opening, when the memory of its timer is not
  zero, and the timer is pending exactly while the port is open and the handler does not run.\<close>
theorem serial_timer_calm:
  assumes "serial_reach fifo p" "serial_allowed ev p" "calm ev p"
  shows "((\<exists>c. serial_do ev p = Crash c) \<longleftrightarrow> ev = First_open True True \<and> serial_timer p = None) \<and>
    (serial_timer p = Some True \<longleftrightarrow> up_open p \<and> \<not> in_handler p)"
proof -
  note inv = serial_reach_inv [OF assms(1)]
  have "(\<exists>c. serial_do ev p = Crash c) \<longleftrightarrow> ev = First_open True True \<and> serial_timer p = None"
    using serial_step_inv [OF inv assms(2,3)] by (auto split: if_splits)
  then show ?thesis
    using inv by (auto simp: serial_inv_def)
qed

fun serial_run :: "serial_event list \<Rightarrow> uart_port \<Rightarrow> uart_port outcome" where
  "serial_run [] p = Done p"
| "serial_run (ev # evs) p = (if serial_allowed ev p then and_then (serial_do ev p) (serial_run evs) else Block)"

lemmas serial_eval = serial_start_def serial_startup_def serial_add_timer_def serial_shutdown_def serial_timer_receive_def serial_timer_rest_def Let_def

text \<open>When the port is closed in the middle of the handler and opened again, the timer is submitted twice.\<close>
theorem serial_close_race:
  "serial_run [First_open True False, Fire, Last_close, First_open True False, Handler_ends] (serial_start fifo) = Crash Kernel_bug \<and>
   serial_run [First_open True False, Fire, Last_close, Handler_ends, First_open True False] (serial_start fifo) = Crash Kernel_bug"
  by (simp add: serial_eval serial_tx_chars_def circ_empty_def)

section \<open>Examples\<close>

lemma serial_run_reach:
  assumes "serial_run evs p = Done p'" "serial_reach fifo p" "list_all (\<lambda>ev. ev \<noteq> Last_close) evs"
  shows "serial_reach fifo p'"
  using assms
proof (induction evs arbitrary: p)
  case Nil
  then show ?case
    by simp
next
  case (Cons ev evs)
  then obtain q where q: "serial_allowed ev p" "serial_do ev p = Done q" "serial_run evs q = Done p'"
    by (auto simp: and_then_Done_iff split: if_splits)
  have "serial_reach fifo q"
    by (rule serial_reach.intros(2) [OF Cons.prems(2) q(1) _ q(2)]) (use Cons.prems(3) in \<open>simp add: calm_def\<close>)
  then show ?case
    using Cons.IH [OF q(3)] Cons.prems(3) by simp
qed

definition some_chars :: "serial_event list" where
  "some_chars = [First_open True False, Put_char 1, Put_char 2, Put_char 3]"

lemma some_chars_run:
  obtains p where "serial_run some_chars (serial_start 4) = Done p" "x_char p = 0" "\<not> tx_stopped p" "fifosize p = 4" "sent p = []"
    "waiting_chars p = [1, 2, 3]" "serial_timer p = Some True" "up_open p"
  by (simp add: some_chars_def serial_eval circ_pending_def UART_XMIT_SIZE_def waiting_chars_def upt_rec)

theorem serial_tx_chars_fifo_witness:
  "\<exists>p. serial_run some_chars (serial_start 4) = Done p \<and> sent (serial_tx_chars p) = [1, 2] \<and> waiting_chars (serial_tx_chars p) = [3]"
proof -
  obtain p where p: "serial_run some_chars (serial_start 4) = Done p" "x_char p = 0" "\<not> tx_stopped p" "fifosize p = 4" "sent p = []"
    "waiting_chars p = [1, 2, 3]"
    by (rule some_chars_run)
  have "serial_reach 4 p"
    by (rule serial_run_reach [OF p(1) serial_reach.intros(1)]) (simp add: some_chars_def)
  then have "sent (serial_tx_chars p) = [1, 2] \<and> waiting_chars (serial_tx_chars p) = [3]"
    using serial_tx_chars_fifo [of 4 p] p(2-6) by simp
  then show ?thesis
    using p(1) by blast
qed

theorem serial_timer_calm_witness:
  "\<exists>p. serial_run some_chars (serial_start 4) = Done p \<and> up_open p \<and> \<not> in_handler p"
proof -
  obtain p where p: "serial_run some_chars (serial_start 4) = Done p" "serial_timer p = Some True" "up_open p"
    by (rule some_chars_run)
  have "serial_reach 4 p"
    by (rule serial_run_reach [OF p(1) serial_reach.intros(1)]) (simp add: some_chars_def)
  then have "up_open p \<and> \<not> in_handler p"
    using serial_timer_calm [of 4 p "Put_xchar 1"] p(2,3) by (simp add: calm_def)
  then show ?thesis
    using p(1) by blast
qed

end
