(* ===== verification/Usb_Skeleton.thy ===== *)
theory Usb_Skeleton
  imports Kernel_Prelude
begin

unbundle bit_operations_syntax

text \<open>
  The USB driver usb-skeleton (usb/usb-skeleton.c of Kernel/Driver/ldd3-master). Its device structure is counted: the
  interface and every open file hold a reference, so that a file may stay open after the device is unplugged. The model has the
  driver and the part of the USB core that it relies on: reference counts of the devices, the interfaces with their data and minor numbers, and the
  requests in flight.
\<close>

section \<open>State\<close>

definition USB_DIR_IN :: "8 word" where "USB_DIR_IN = 128"
definition USB_ENDPOINT_XFERTYPE_MASK :: "8 word" where "USB_ENDPOINT_XFERTYPE_MASK = 3"
definition USB_ENDPOINT_XFER_BULK :: "8 word" where "USB_ENDPOINT_XFER_BULK = 2"

record endpoint =
  bEndpointAddress :: "8 word"
  bmAttributes :: "8 word"
  wMaxPacketSize :: "16 word"

text \<open>A device of the driver; \<open>sk_data\<close> is what \<open>bulk_in_buffer\<close> holds. Devices, interfaces and files are named by their indices in the
  lists of the state.\<close>

record usb_skel =
  sk_addr :: addr
  sk_udev :: nat
  sk_interface :: nat
  bulk_in_buffer :: "addr option"
  sk_data :: "cell list"
  bulk_in_size :: int
  bulk_in_endpointAddr :: "8 word"
  bulk_out_endpointAddr :: "8 word"
  kref :: int

text \<open>A request the core has accepted and not completed.\<close>

record urb =
  urb_addr :: addr
  urb_dev :: nat
  transfer_buffer :: addr
  transfer_buffer_length :: int

text \<open>The core's view: a device with its references, one of them the core's own while the device is there; and an interface.\<close>

record usb_device =
  ud_refs :: int
  ud_attached :: bool

record usb_interface =
  if_udev :: nat
  if_endpoints :: "endpoint list"
  if_minor :: "nat option"
  if_data :: "nat option"
  if_bound :: bool

text \<open>A device structure is \<open>None\<close> once it is freed; a file is \<open>None\<close> once it is closed.\<close>

record usb =
  interfaces :: "usb_interface list"
  udevs :: "usb_device list"
  skels :: "usb_skel option list"
  skel_files :: "nat option list"
  in_flight :: "urb list"
  skel_registered :: bool
  usb_mem :: kmem

text \<open>Sizes of the structures, and whether the core takes a NULL buffer to be freed, which its documentation leaves open.\<close>

record usb_env =
  skel_bytes :: int
  urb_bytes :: int
  free_null_ok :: bool

section \<open>The USB core\<close>

definition the_skel :: "nat \<Rightarrow> usb \<Rightarrow> usb_skel outcome" where
  "the_skel d s =
     (if d < length (skels s) then case skels s ! d of None \<Rightarrow> Crash Out_of_bounds | Some dev \<Rightarrow> Done dev else Crash Out_of_bounds)"

definition the_udev :: "nat \<Rightarrow> usb \<Rightarrow> usb_device outcome" where
  "the_udev u s = (if u < length (udevs s) \<and> 0 < ud_refs (udevs s ! u) then Done (udevs s ! u) else Crash Out_of_bounds)"

definition set_skel :: "nat \<Rightarrow> usb_skel option \<Rightarrow> usb \<Rightarrow> usb" where
  "set_skel d dev s = s\<lparr>skels := (skels s)[d := dev]\<rparr>"

definition set_udev :: "nat \<Rightarrow> usb_device \<Rightarrow> usb \<Rightarrow> usb" where
  "set_udev u dev s = s\<lparr>udevs := (udevs s)[u := dev]\<rparr>"

definition set_interface :: "nat \<Rightarrow> usb_interface \<Rightarrow> usb \<Rightarrow> usb" where
  "set_interface i intf s = s\<lparr>interfaces := (interfaces s)[i := intf]\<rparr>"

definition usb_get_dev :: "nat \<Rightarrow> usb \<Rightarrow> usb outcome" where
  "usb_get_dev u s = and_then (the_udev u s) (\<lambda>dev. Done (set_udev u (dev\<lparr>ud_refs := ud_refs dev + 1\<rparr>) s))"

definition usb_put_dev :: "nat \<Rightarrow> usb \<Rightarrow> usb outcome" where
  "usb_put_dev u s = and_then (the_udev u s) (\<lambda>dev. Done (set_udev u (dev\<lparr>ud_refs := ud_refs dev - 1\<rparr>) s))"

definition on_mem :: "(kmem \<Rightarrow> kmem outcome) \<Rightarrow> usb \<Rightarrow> usb outcome" where
  "on_mem f s = and_then (f (usb_mem s)) (\<lambda>k. Done (s\<lparr>usb_mem := k\<rparr>))"

text \<open>The buffer must come from \<open>usb_buffer_alloc\<close> with the same size.\<close>

definition usb_buffer_free :: "usb_env \<Rightarrow> nat \<Rightarrow> int \<Rightarrow> addr option \<Rightarrow> usb \<Rightarrow> usb outcome" where
  "usb_buffer_free env u len buf s =
     and_then (the_udev u s) (\<lambda>_.
       case buf of
         None \<Rightarrow> if free_null_ok env then Done s else Crash Bad_free
       | Some a \<Rightarrow> if km_live (usb_mem s) a = Some (u64 len) then on_mem (kfree a) s else Crash Bad_free)"

definition find_index :: "('a \<Rightarrow> bool) \<Rightarrow> 'a list \<Rightarrow> nat option" where
  "find_index P xs = find (\<lambda>i. P (xs ! i)) [0..<length xs]"

definition usb_find_interface :: "nat \<Rightarrow> usb \<Rightarrow> nat option" where
  "usb_find_interface minor s = find_index (\<lambda>intf. if_minor intf = Some minor) (interfaces s)"

section \<open>Operations of the driver\<close>

definition kfree_null :: "addr option \<Rightarrow> kmem \<Rightarrow> kmem outcome" where
  "kfree_null p k = (case p of None \<Rightarrow> Done k | Some a \<Rightarrow> kfree a k)"

definition skel_delete :: "nat \<Rightarrow> usb \<Rightarrow> usb outcome" where
  "skel_delete d s =
     and_then (the_skel d s) (\<lambda>dev.
     and_then (usb_put_dev (sk_udev dev) s) (\<lambda>s.
     and_then (on_mem (kfree_null (bulk_in_buffer dev)) s) (\<lambda>s.
     and_then (on_mem (kfree (sk_addr dev)) s) (\<lambda>s.
       Done (set_skel d None s)))))"

definition kref_get :: "nat \<Rightarrow> usb \<Rightarrow> usb outcome" where
  "kref_get d s = and_then (the_skel d s) (\<lambda>dev. Done (set_skel d (Some (dev\<lparr>kref := kref dev + 1\<rparr>)) s))"

definition kref_put :: "nat \<Rightarrow> usb \<Rightarrow> usb outcome" where
  "kref_put d s =
     and_then (the_skel d s) (\<lambda>dev.
       let s = set_skel d (Some (dev\<lparr>kref := kref dev - 1\<rparr>)) s
       in if kref dev - 1 = 0 then skel_delete d s else Done s)"

text \<open>A file that was opened gets the next index.\<close>

definition skel_open :: "nat \<Rightarrow> usb \<Rightarrow> ((errno + int) \<times> usb) outcome" where
  "skel_open subminor s =
     (case usb_find_interface subminor s of
        None \<Rightarrow> Done (Inl ENODEV, s)
      | Some i \<Rightarrow>
          (case if_data (interfaces s ! i) of
             None \<Rightarrow> Done (Inl ENODEV, s)
           | Some d \<Rightarrow> and_then (kref_get d s) (\<lambda>s. Done (Inr 0, s\<lparr>skel_files := skel_files s @ [Some d]\<rparr>))))"

definition skel_release :: "nat \<Rightarrow> usb \<Rightarrow> ((errno + int) \<times> usb) outcome" where
  "skel_release f s =
     (case skel_files s ! f of
        None \<Rightarrow> Done (Inl ENODEV, s)
      | Some d \<Rightarrow> and_then (kref_put d s) (\<lambda>s. Done (Inr 0, s\<lparr>skel_files := (skel_files s)[f := None]\<rparr>)))"

text \<open>\<open>usb_bulk_msg\<close> stores the number of bytes as an \<open>int\<close>, in the lower half of \<open>count\<close>. \<open>answer\<close> is what the device sends, of which
  at most the length of the request arrives, or the error of the transfer.\<close>

definition store_int :: "int \<Rightarrow> int \<Rightarrow> int" where
  "store_int cnt n = cnt - cnt mod 4294967296 + u32 n"

definition skel_read :: "nat \<Rightarrow> nat \<Rightarrow> int \<Rightarrow> errno + byte list \<Rightarrow> usb \<Rightarrow> ((errno + int) \<times> cell list \<times> usb) outcome" where
  "skel_read d room cnt answer s =
     and_then (the_skel d s) (\<lambda>dev.
     and_then (the_udev (sk_udev dev) s) (\<lambda>_.
       case answer of
         Inl e \<Rightarrow> Done (Inl e, [], s)
       | Inr bytes \<Rightarrow>
           let data = take (nat (min (bulk_in_size dev) cnt)) bytes;
               buffer = map Some data @ drop (length data) (sk_data dev);
               s = set_skel d (Some (dev\<lparr>sk_data := buffer\<rparr>)) s;
               cnt = store_int cnt (int (length data))
           in if cnt > int (length buffer) then Crash Out_of_bounds
              else let (out, missing) = copy_to_user room (take (nat cnt) buffer)
                   in Done (if missing \<noteq> 0 then Inl EFAULT else Inr (s32 cnt), out, s)))"

text \<open>The completion of a request: the callback frees the buffer, and the core frees the request.\<close>

definition skel_write_bulk_callback :: "usb_env \<Rightarrow> urb \<Rightarrow> usb \<Rightarrow> usb outcome" where
  "skel_write_bulk_callback env urb s =
     usb_buffer_free env (urb_dev urb) (transfer_buffer_length urb) (Some (transfer_buffer urb)) s"

definition complete_urb :: "usb_env \<Rightarrow> nat \<Rightarrow> usb \<Rightarrow> usb outcome" where
  "complete_urb env n s =
     (let urb = in_flight s ! n in
      and_then (skel_write_bulk_callback env urb s) (\<lambda>s.
      and_then (on_mem (kfree (urb_addr urb)) s) (\<lambda>s.
        Done (s\<lparr>in_flight := take n (in_flight s) @ drop (Suc n) (in_flight s)\<rparr>))))"

text \<open>\<open>usb_submit_urb\<close> fails for a device that is not there; other failures are an argument.\<close>

definition submit_error :: "errno option \<Rightarrow> usb_device \<Rightarrow> errno option" where
  "submit_error e dev = (if ud_attached dev then e else Some ENODEV)"

definition write_error :: "usb_env \<Rightarrow> nat \<Rightarrow> int \<Rightarrow> addr option \<Rightarrow> addr option \<Rightarrow> errno \<Rightarrow> usb \<Rightarrow> ((errno + int) \<times> usb) outcome" where
  "write_error env u cnt buf urb e s =
     (case urb of
        None \<Rightarrow> Crash Null_deref
      | Some a \<Rightarrow>
          and_then (usb_buffer_free env u cnt buf s) (\<lambda>s.
          and_then (on_mem (kfree a) s) (\<lambda>s.
          and_then (on_mem (kfree_null buf) s) (\<lambda>s.
            Done (Inl e, s)))))"

definition skel_write :: "usb_env \<Rightarrow> nat \<Rightarrow> byte list \<Rightarrow> int \<Rightarrow> errno option \<Rightarrow> usb \<Rightarrow> ((errno + int) \<times> usb) outcome" where
  "skel_write env d user_buffer cnt e s =
     (if cnt = 0 then Done (Inr cnt, s)
      else
        case kmalloc (urb_bytes env) (usb_mem s) of
          (None, k) \<Rightarrow>
            and_then (the_skel d s) (\<lambda>dev. write_error env (sk_udev dev) cnt None None ENOMEM (s\<lparr>usb_mem := k\<rparr>))
        | (Some a, k) \<Rightarrow>
            and_then (the_skel d s) (\<lambda>dev.
            and_then (the_udev (sk_udev dev) s) (\<lambda>udev.
              case kmalloc cnt k of
                (None, k) \<Rightarrow> write_error env (sk_udev dev) cnt None (Some a) ENOMEM (s\<lparr>usb_mem := k\<rparr>)
              | (Some buf, k) \<Rightarrow>
                  let s = s\<lparr>usb_mem := k\<rparr> in
                  if snd (copy_from_user user_buffer (nat cnt)) \<noteq> 0
                  then write_error env (sk_udev dev) cnt (Some buf) (Some a) EFAULT s
                  else
                    case submit_error e udev of
                      Some e \<Rightarrow> write_error env (sk_udev dev) cnt (Some buf) (Some a) e s
                    | None \<Rightarrow>
                        Done (Inr cnt, s\<lparr>in_flight := in_flight s @ [\<lparr>urb_addr = a, urb_dev = sk_udev dev, transfer_buffer = buf,
                          transfer_buffer_length = s32 cnt\<rparr>]\<rparr>))))"

section \<open>Probing and disconnecting\<close>

definition is_bulk :: "endpoint \<Rightarrow> bool" where
  "is_bulk e \<longleftrightarrow> bmAttributes e AND USB_ENDPOINT_XFERTYPE_MASK = USB_ENDPOINT_XFER_BULK"

definition is_in :: "endpoint \<Rightarrow> bool" where
  "is_in e \<longleftrightarrow> bEndpointAddress e AND USB_DIR_IN \<noteq> 0"

definition take_bulk_out :: "endpoint \<Rightarrow> usb_skel \<Rightarrow> usb_skel" where
  "take_bulk_out e dev =
     (if bulk_out_endpointAddr dev = 0 \<and> \<not> is_in e \<and> is_bulk e then dev\<lparr>bulk_out_endpointAddr := bEndpointAddress e\<rparr> else dev)"

text \<open>The loop over the endpoints; the first component says that there was memory for the buffer.\<close>

fun scan_endpoints :: "endpoint list \<Rightarrow> usb_skel \<Rightarrow> kmem \<Rightarrow> bool \<times> usb_skel \<times> kmem" where
  "scan_endpoints [] dev k = (True, dev, k)"
| "scan_endpoints (e # es) dev k =
     (if bulk_in_endpointAddr dev = 0 \<and> is_in e \<and> is_bulk e
      then let buffer_size = uint (wMaxPacketSize e);
               dev = dev\<lparr>bulk_in_size := buffer_size, sk_data := replicate (nat buffer_size) None, bulk_in_endpointAddr := bEndpointAddress e\<rparr>
           in case kmalloc buffer_size k of
                (None, k) \<Rightarrow> (False, dev, k)
              | (Some a, k) \<Rightarrow>
                  scan_endpoints es (take_bulk_out e (dev\<lparr>bulk_in_buffer := Some a\<rparr>)) k
      else scan_endpoints es (take_bulk_out e dev) k)"

text \<open>\<open>registration\<close> is the minor number that \<open>usb_register_dev\<close> gives, or its error.\<close>

definition skel_probe :: "usb_env \<Rightarrow> nat \<Rightarrow> errno + nat \<Rightarrow> usb \<Rightarrow> ((errno + int) \<times> usb) outcome" where
  "skel_probe env i registration s =
     (case kmalloc (skel_bytes env) (usb_mem s) of
        (None, k) \<Rightarrow> Done (Inl ENOMEM, s\<lparr>usb_mem := k\<rparr>)
      | (Some a, k) \<Rightarrow>
          let intf = interfaces s ! i; d = length (skels s) in
          and_then (usb_get_dev (if_udev intf) (s\<lparr>usb_mem := k\<rparr>)) (\<lambda>s.
            let (enough, dev, k) = scan_endpoints (if_endpoints intf)
                  \<lparr>sk_addr = a, sk_udev = if_udev intf, sk_interface = i, bulk_in_buffer = None, sk_data = [], bulk_in_size = 0,
                   bulk_in_endpointAddr = 0, bulk_out_endpointAddr = 0, kref = 1\<rparr> k;
                s = s\<lparr>usb_mem := k, skels := skels s @ [Some dev]\<rparr>
            in if \<not> enough \<or> bulk_in_endpointAddr dev = 0 \<or> bulk_out_endpointAddr dev = 0
               then and_then (kref_put d s) (\<lambda>s. Done (Inl ENOMEM, s))
               else
                 case registration of
                   Inl e \<Rightarrow> and_then (kref_put d (set_interface i (intf\<lparr>if_data := None\<rparr>) s)) (\<lambda>s. Done (Inl e, s))
                 | Inr minor \<Rightarrow> Done (Inr 0, set_interface i (intf\<lparr>if_data := Some d, if_minor := Some minor\<rparr>) s)))"

definition skel_disconnect :: "nat \<Rightarrow> usb \<Rightarrow> usb outcome" where
  "skel_disconnect i s =
     (let intf = interfaces s ! i;
          s = set_interface i (intf\<lparr>if_data := None, if_minor := None\<rparr>) s
      in case if_data intf of None \<Rightarrow> Crash Null_deref | Some d \<Rightarrow> kref_put d s)"

section \<open>What the core and the files do\<close>

text \<open>The core binds an interface when the probe succeeds.\<close>

definition bind_interface :: "nat \<Rightarrow> bool \<Rightarrow> usb \<Rightarrow> usb" where
  "bind_interface i b s = set_interface i ((interfaces s ! i)\<lparr>if_bound := b\<rparr>) s"

definition probe_interface :: "usb_env \<Rightarrow> nat \<Rightarrow> errno + nat \<Rightarrow> usb \<Rightarrow> usb outcome" where
  "probe_interface env i registration s =
     and_then (skel_probe env i registration s) (\<lambda>(r, s).
       Done (case r of Inl e \<Rightarrow> s | Inr _ \<Rightarrow> bind_interface i True s))"

definition disconnect_interface :: "nat \<Rightarrow> usb \<Rightarrow> usb outcome" where
  "disconnect_interface i s =
     (if if_bound (interfaces s ! i) then and_then (skel_disconnect i s) (\<lambda>s. Done (bind_interface i False s)) else Done s)"

fun disconnect_interfaces :: "nat list \<Rightarrow> usb \<Rightarrow> usb outcome" where
  "disconnect_interfaces [] s = Done s"
| "disconnect_interfaces (i # is) s = and_then (disconnect_interface i s) (disconnect_interfaces is)"

text \<open>When a device goes, the requests in flight for it are completed before its structure is released.\<close>

fun complete_all :: "usb_env \<Rightarrow> nat \<Rightarrow> nat \<Rightarrow> usb \<Rightarrow> usb outcome" where
  "complete_all env u 0 s = Done s"
| "complete_all env u (Suc n) s =
     and_then (if urb_dev (in_flight s ! n) = u then complete_urb env n s else Done s) (complete_all env u n)"

definition detach_device :: "usb_env \<Rightarrow> nat \<Rightarrow> usb \<Rightarrow> usb outcome" where
  "detach_device env u s =
     and_then (complete_all env u (length (in_flight s)) s) (\<lambda>s.
       usb_put_dev u (set_udev u ((udevs s ! u)\<lparr>ud_attached := False\<rparr>) s))"

definition usb_skel_init :: "errno option \<Rightarrow> usb \<Rightarrow> (errno + int) \<times> usb" where
  "usb_skel_init e s = (case e of Some e \<Rightarrow> (Inl e, s) | None \<Rightarrow> (Inr 0, s\<lparr>skel_registered := True\<rparr>))"

definition usb_skel_exit :: "usb \<Rightarrow> usb outcome" where
  "usb_skel_exit s =
     and_then (disconnect_interfaces [0..<length (interfaces s)] s) (\<lambda>s. Done (s\<lparr>skel_registered := False\<rparr>))"

datatype usb_event =
    Init "errno option" | Exit
  | Probe nat "errno + nat" | Disconnect nat | Detach nat
  | Open nat | Release nat | Read nat nat int "errno + byte list" | Write nat "byte list" int "errno option"
  | Complete nat

text \<open>What the kernel allows: a minor number is given once, an open file keeps the module, a device goes when its interfaces are
  disconnected.\<close>

definition file_open :: "nat \<Rightarrow> usb \<Rightarrow> bool" where
  "file_open f s \<longleftrightarrow> f < length (skel_files s) \<and> skel_files s ! f \<noteq> None"

fun event_allowed :: "usb_event \<Rightarrow> usb \<Rightarrow> bool" where
  "event_allowed (Init e) s = (\<not> skel_registered s)"
| "event_allowed Exit s = (skel_registered s \<and> list_all (\<lambda>f. f = None) (skel_files s))"
| "event_allowed (Probe i registration) s =
     (skel_registered s \<and> i < length (interfaces s) \<and> \<not> if_bound (interfaces s ! i) \<and> ud_attached (udevs s ! if_udev (interfaces s ! i)) \<and>
      (case registration of Inl e \<Rightarrow> True | Inr minor \<Rightarrow> list_all (\<lambda>intf. if_minor intf \<noteq> Some minor) (interfaces s)))"
| "event_allowed (Disconnect i) s = (i < length (interfaces s) \<and> if_bound (interfaces s ! i))"
| "event_allowed (Detach u) s =
     (u < length (udevs s) \<and> ud_attached (udevs s ! u) \<and> list_all (\<lambda>intf. if_bound intf \<longrightarrow> if_udev intf \<noteq> u) (interfaces s))"
| "event_allowed (Open subminor) s = skel_registered s"
| "event_allowed (Release f) s = file_open f s"
| "event_allowed (Read f room cnt answer) s = (file_open f s \<and> 0 \<le> cnt \<and> cnt < 9223372036854775808)"
| "event_allowed (Write f bytes cnt e) s = (file_open f s \<and> 0 \<le> cnt \<and> cnt < 9223372036854775808)"
| "event_allowed (Complete n) s = (n < length (in_flight s))"

fun do_usb_event :: "usb_env \<Rightarrow> usb_event \<Rightarrow> usb \<Rightarrow> usb outcome" where
  "do_usb_event env (Init e) s = Done (snd (usb_skel_init e s))"
| "do_usb_event env Exit s = usb_skel_exit s"
| "do_usb_event env (Probe i registration) s = probe_interface env i registration s"
| "do_usb_event env (Disconnect i) s = disconnect_interface i s"
| "do_usb_event env (Detach u) s = detach_device env u s"
| "do_usb_event env (Open subminor) s = and_then (skel_open subminor s) (\<lambda>(r, s). Done s)"
| "do_usb_event env (Release f) s = and_then (skel_release f s) (\<lambda>(r, s). Done s)"
| "do_usb_event env (Read f room cnt answer) s =
     and_then (skel_read (the (skel_files s ! f)) room cnt answer s) (\<lambda>(r, out, s). Done s)"
| "do_usb_event env (Write f bytes cnt e) s =
     and_then (skel_write env (the (skel_files s ! f)) bytes cnt e s) (\<lambda>(r, s). Done s)"
| "do_usb_event env (Complete n) s = complete_urb env n s"

inductive usb_reach :: "usb_env \<Rightarrow> usb \<Rightarrow> usb \<Rightarrow> bool" for env s0 where
  "usb_reach env s0 s0"
| "usb_reach env s0 s \<Longrightarrow> event_allowed ev s \<Longrightarrow> do_usb_event env ev s = Done s' \<Longrightarrow> usb_reach env s0 s'"

section \<open>The invariant\<close>

text \<open>How often a device structure is referred to: by open files and by interfaces.\<close>

definition users :: "usb \<Rightarrow> nat \<Rightarrow> int" where
  "users s d = num (\<lambda>f. f = Some d) (skel_files s) + num (\<lambda>intf. if_data intf = Some d) (interfaces s)"

definition of_udev :: "nat \<Rightarrow> usb_skel option \<Rightarrow> bool" where
  "of_udev u dev \<longleftrightarrow> (case dev of None \<Rightarrow> False | Some dev \<Rightarrow> sk_udev dev = u)"

definition skel_addrs :: "usb_skel option \<Rightarrow> addr list" where
  "skel_addrs dev = (case dev of None \<Rightarrow> [] | Some dev \<Rightarrow> sk_addr dev # (case bulk_in_buffer dev of None \<Rightarrow> [] | Some a \<Rightarrow> [a]))"

definition urb_addrs :: "urb \<Rightarrow> addr list" where
  "urb_addrs urb = [urb_addr urb, transfer_buffer urb]"

definition usb_addrs :: "usb \<Rightarrow> addr list" where
  "usb_addrs s = concat (map skel_addrs (skels s)) @ concat (map urb_addrs (in_flight s))"

definition skel_ok :: "usb \<Rightarrow> int \<Rightarrow> usb_skel option \<Rightarrow> bool" where
  "skel_ok s n dev \<longleftrightarrow> (case dev of None \<Rightarrow> n = 0
     | Some dev \<Rightarrow> kref dev = n \<and> 0 < n \<and> sk_udev dev < length (udevs s) \<and> int (length (sk_data dev)) = bulk_in_size dev \<and> bulk_in_size dev < 65536)"

definition udev_ok :: "usb \<Rightarrow> nat \<Rightarrow> bool" where
  "udev_ok s u \<longleftrightarrow> ud_refs (udevs s ! u) = (if ud_attached (udevs s ! u) then 1 else 0) + num (of_udev u) (skels s)"

definition urb_ok :: "usb \<Rightarrow> urb \<Rightarrow> bool" where
  "urb_ok s urb \<longleftrightarrow> urb_dev urb < length (udevs s) \<and> ud_attached (udevs s ! urb_dev urb) \<and>
     km_live (usb_mem s) (transfer_buffer urb) = Some (u64 (transfer_buffer_length urb))"

definition mem_ok :: "kmem \<Rightarrow> usb \<Rightarrow> bool" where
  "mem_ok k0 s \<longleftrightarrow> owns (usb_addrs s) (usb_mem s) \<and> accounted k0 [] (usb_mem s) (usb_addrs s) \<and> km_max (usb_mem s) < 2147483648"

definition core_inv :: "kmem \<Rightarrow> (nat \<Rightarrow> int) \<Rightarrow> usb \<Rightarrow> bool" where
  "core_inv k0 n s \<longleftrightarrow> (\<forall>d < length (skels s). skel_ok s (n d) (skels s ! d)) \<and> (\<forall>d \<ge> length (skels s). n d = 0) \<and>
     (\<forall>u < length (udevs s). udev_ok s u) \<and> list_all (urb_ok s) (in_flight s) \<and> mem_ok k0 s"

definition interface_ok :: "usb \<Rightarrow> usb_interface \<Rightarrow> bool" where
  "interface_ok s intf \<longleftrightarrow> if_udev intf < length (udevs s) \<and> (if_bound intf \<longleftrightarrow> if_data intf \<noteq> None) \<and>
     (if_bound intf \<longrightarrow> ud_attached (udevs s ! if_udev intf))"

definition usb_inv :: "kmem \<Rightarrow> usb \<Rightarrow> bool" where
  "usb_inv k0 s \<longleftrightarrow> core_inv k0 (users s) s \<and> list_all (interface_ok s) (interfaces s)"

lemma skel_ok_cong: "length (udevs s') = length (udevs s) \<Longrightarrow> skel_ok s' n dev = skel_ok s n dev"
  by (simp add: skel_ok_def split: option.split)

lemma udev_ok_cong: "udevs s' = udevs s \<Longrightarrow> num (of_udev u) (skels s') = num (of_udev u) (skels s) \<Longrightarrow> udev_ok s' u = udev_ok s u"
  by (simp add: udev_ok_def)

lemma mset_concat_update:
  assumes "i < length xs"
  shows "mset (concat (map f (xs[i := x]))) + mset (f (xs ! i)) = mset (concat (map f xs)) + mset (f x)"
proof -
  have "xs[i := x] = take i xs @ x # drop (Suc i) xs" "map f xs = map f (take i xs @ xs ! i # drop (Suc i) xs)"
    using assms by (simp_all only: upd_conv_take_nth_drop id_take_nth_drop [symmetric])
  then show ?thesis
    by simp
qed

lemma kfree_all_sizes:
  assumes "owns (xs @ as) k"
  obtains k' where "kfree_all xs k = Done k'" "owns as k'" "accounted k (xs @ as) k' as" "km_max k' = km_max k"
    "\<And>a. a \<in> set as \<Longrightarrow> km_live k' a = km_live k a"
proof -
  have d: "distinct xs" "set xs \<subseteq> dom (km_live k)" "set xs \<inter> set as = {}"
    using assms by (auto simp: owns_def)
  obtain k' where k': "kfree_all xs k = Done k'" "accounted k (xs @ as) k' as"
    using kfree_list_accounted [OF assms] by blast
  have eq: "k' = k\<lparr>km_live := (km_live k) |` (- set xs)\<rparr>"
    using kfree_all_Done [OF d(1,2)] k'(1) by simp
  show thesis
    by (rule that [OF k'(1) _ k'(2)]) (use assms k'(2) d(3) in \<open>auto simp: accounted_def eq restrict_map_def\<close>)
qed

lemma kmalloc_sizes:
  assumes "kmalloc n k = (Some a, k')" "owns as k"
  shows "owns (a # as) k'" "km_max k' = km_max k" "km_live k' a = Some (u64 n)" "u64 n \<le> km_max k" "b \<in> set as \<Longrightarrow> km_live k' b = km_live k b"
proof -
  have "kmem_ok k"
    using assms(2) by (simp add: owns_def)
  note new = kmalloc_Some [OF assms(1) this]
  show "owns (a # as) k'"
    using kmalloc_accounted(1) [OF assms(1)] assms(2) by (simp add: accounted_def)
  show "km_live k' a = Some (u64 n)" "b \<in> set as \<Longrightarrow> km_live k' b = km_live k b"
    using new assms(2) by (auto simp: owns_def)
  show "km_max k' = km_max k" "u64 n \<le> km_max k"
    using assms(1) by (auto simp: kmalloc_def split: if_splits)
qed

lemma kmalloc_None_sizes:
  assumes "kmalloc n k = (None, k')" "owns as k"
  shows "owns as k'" "km_max k' = km_max k" "km_live k' = km_live k"
  using kmalloc_accounted(2) [OF assms(1), of as] assms by (auto simp: accounted_def kmalloc_def split: if_splits)

definition same_outside :: "usb \<Rightarrow> usb \<Rightarrow> bool" where
  "same_outside s s' \<longleftrightarrow> interfaces s' = interfaces s \<and> skel_files s' = skel_files s \<and> skel_registered s' = skel_registered s \<and>
     map ud_attached (udevs s') = map ud_attached (udevs s)"

lemma same_outside_refl [simp]: "same_outside s s"
  by (simp add: same_outside_def)

lemma same_outside_length: "same_outside s s' \<Longrightarrow> length (udevs s') = length (udevs s)"
  unfolding same_outside_def by (metis length_map)

lemma same_outside_attached: "same_outside s s' \<Longrightarrow> u < length (udevs s) \<Longrightarrow> ud_attached (udevs s' ! u) = ud_attached (udevs s ! u)"
  using same_outside_length [of s s'] unfolding same_outside_def by (metis nth_map)

lemma same_outside_users: "same_outside s s' \<Longrightarrow> users s' = users s"
  by (simp add: same_outside_def users_def fun_eq_iff)

lemma same_outside_interface: "same_outside s s' \<Longrightarrow> interface_ok s intf \<Longrightarrow> interface_ok s' intf"
  using same_outside_length [of s s'] same_outside_attached [of s s'] by (auto simp: interface_ok_def)

lemma same_outside_inv:
  assumes "usb_inv k0 s" "same_outside s s'" "core_inv k0 (users s) s'"
  shows "usb_inv k0 s'"
  using assms same_outside_users [OF assms(2)] same_outside_interface [OF assms(2)] unfolding usb_inv_def list_all_iff
  by (simp add: same_outside_def)

lemma map_same: "u < length xs \<Longrightarrow> f x = f (xs ! u) \<Longrightarrow> map f (xs[u := x]) = map f xs"
  by (metis list_update_id map_update)

lemma usb_addrs_set_skel:
  assumes "d < length (skels s)"
  shows "mset (usb_addrs (s\<lparr>skels := (skels s)[d := dev]\<rparr>)) + mset (skel_addrs (skels s ! d)) = mset (usb_addrs s) + mset (skel_addrs dev)"
  using mset_concat_update [OF assms, of skel_addrs dev] by (simp add: usb_addrs_def)

lemma core_skel:
  assumes "core_inv k0 n s" "0 < n d"
  obtains dev where "d < length (skels s)" "skels s ! d = Some dev" "the_skel d s = Done dev" "skel_ok s (n d) (Some dev)"
    "the_udev (sk_udev dev) s = Done (udevs s ! sk_udev dev)" "sk_udev dev < length (udevs s)"
proof -
  have d: "d < length (skels s)"
    using assms by (cases "d < length (skels s)") (auto simp: core_inv_def)
  then have "skel_ok s (n d) (skels s ! d)"
    using assms(1) by (simp add: core_inv_def)
  note d = d this
  then obtain dev where dev: "skels s ! d = Some dev"
    using assms(2) by (cases "skels s ! d") (auto simp: skel_ok_def)
  have u: "sk_udev dev < length (udevs s)" "udev_ok s (sk_udev dev)"
    using d assms(1) by (auto simp: dev skel_ok_def core_inv_def)
  have "0 < num (of_udev (sk_udev dev)) (skels s)"
    using num_pos [of d "skels s" "of_udev (sk_udev dev)"] d(1) by (simp add: dev of_udev_def)
  then have "0 < ud_refs (udevs s ! sk_udev dev)"
    using u(2) by (simp add: udev_ok_def)
  then show thesis
    using d u(1) by (intro that [of dev]) (simp_all add: dev the_skel_def the_udev_def)
qed

lemma urb_oks:
  assumes "list_all (urb_ok s) urbs" "map ud_attached (udevs s') = map ud_attached (udevs s)"
    "\<And>urb. urb \<in> set urbs \<Longrightarrow> km_live (usb_mem s') (transfer_buffer urb) = km_live (usb_mem s) (transfer_buffer urb)"
  shows "list_all (urb_ok s') urbs"
proof -
  have "length (udevs s') = length (udevs s)" "u < length (udevs s) \<Longrightarrow> ud_attached (udevs s' ! u) = ud_attached (udevs s ! u)" for u
    using assms(2) by (metis length_map, metis length_map nth_map)
  then show ?thesis
    using assms(1,3) by (auto simp: list_all_iff urb_ok_def)
qed

lemma transfer_in_addrs: "urb \<in> set (in_flight s) \<Longrightarrow> transfer_buffer urb \<in> set (usb_addrs s)"
  by (auto simp: usb_addrs_def urb_addrs_def)

lemma on_mem_Done: "f (usb_mem s) = Done k \<Longrightarrow> on_mem f s = Done (s\<lparr>usb_mem := k\<rparr>)"
  by (simp add: on_mem_def)

lemma core_update:
  assumes inv: "core_inv k0 n s" and d: "d < length (skels s)" "skels s ! d = Some dev"
    and dev': "skel_addrs (Some dev') = skel_addrs (Some dev)" "sk_udev dev' = sk_udev dev" "skel_ok s m (Some dev')"
  shows "core_inv k0 (n(d := m)) (s\<lparr>skels := (skels s)[d := Some dev']\<rparr>)"
proof -
  let ?s1 = "s\<lparr>skels := (skels s)[d := Some dev']\<rparr>"
  have others: "\<And>e. e < length (skels s) \<Longrightarrow> skel_ok s (n e) (skels s ! e)" "\<And>e. e \<ge> length (skels s) \<Longrightarrow> n e = 0"
      "\<And>u. u < length (udevs s) \<Longrightarrow> udev_ok s u" "list_all (urb_ok s) (in_flight s)" "mem_ok k0 s"
    using inv by (auto simp: core_inv_def)
  have "mset (usb_addrs ?s1) = mset (usb_addrs s)"
    using usb_addrs_set_skel [OF d(1), of "Some dev'"] by (simp add: d(2) dev'(1))
  then have "mem_ok k0 ?s1"
    using others(5) owns_mset [of "usb_addrs ?s1" "usb_addrs s"] accounted_mset [of "[]" "[]" "usb_addrs ?s1" "usb_addrs s"] by (simp add: mem_ok_def)
  moreover have num: "num (of_udev u) (skels ?s1) = num (of_udev u) (skels s)" for u
    using num_update [OF d(1), of "of_udev u" "Some dev'"] by (simp add: d(2) of_udev_def dev'(2))
  moreover have "udev_ok ?s1 u = udev_ok s u" for u
    by (rule udev_ok_cong) (use num in simp_all)
  moreover have "list_all (urb_ok ?s1) (in_flight s)"
    by (rule urb_oks [OF others(4)]) simp_all
  moreover have "skel_ok ?s1 ((n(d := m)) e) (skels ?s1 ! e)" if "e < length (skels s)" for e
    using others(1) [OF that] that dev'(3) by (cases "e = d") (simp_all add: skel_ok_cong [of ?s1 s])
  ultimately show ?thesis
    using others(2,3) d(1) by (simp add: core_inv_def)
qed

lemma kref_put_core:
  assumes inv: "core_inv k0 n s" and pos: "0 < n d"
  obtains s' where "kref_put d s = Done s'" "core_inv k0 (n(d := n d - 1)) s'" "same_outside s s'" "in_flight s' = in_flight s"
    "length (skels s') = length (skels s)"
proof -
  obtain dev where dev: "d < length (skels s)" "skels s ! d = Some dev" "the_skel d s = Done dev" "skel_ok s (n d) (Some dev)"
    "the_udev (sk_udev dev) s = Done (udevs s ! sk_udev dev)" "sk_udev dev < length (udevs s)"
    by (rule core_skel [OF inv pos])
  let ?dev = "dev\<lparr>kref := kref dev - 1\<rparr>" and ?u = "sk_udev dev"
  let ?s1 = "s\<lparr>skels := (skels s)[d := Some ?dev]\<rparr>"
  have step: "kref_put d s = (if n d = 1 then skel_delete d ?s1 else Done ?s1)"
    using dev by (simp add: kref_put_def set_skel_def skel_ok_def)
  have others: "\<And>e. e < length (skels s) \<Longrightarrow> skel_ok s (n e) (skels s ! e)" "\<And>e. e \<ge> length (skels s) \<Longrightarrow> n e = 0"
      "\<And>u. u < length (udevs s) \<Longrightarrow> udev_ok s u" "list_all (urb_ok s) (in_flight s)" "mem_ok k0 s"
    using inv by (auto simp: core_inv_def)
  show thesis
  proof (cases "n d = 1")
    case False
    then have "core_inv k0 (n(d := n d - 1)) ?s1"
      using dev(4) pos by (intro core_update [OF inv dev(1,2)]) (simp_all add: skel_addrs_def skel_ok_def)
    then show thesis
      using step False by (intro that [of ?s1]) (simp_all add: same_outside_def)
  next
    case True
    let ?xs = "skel_addrs (Some dev)"
    let ?rest = "usb_addrs (s\<lparr>skels := (skels s)[d := None]\<rparr>)"
    have rest: "mset (usb_addrs s) = mset (?xs @ ?rest)"
      using usb_addrs_set_skel [OF dev(1), of None] by (simp add: dev(2) skel_addrs_def [of None] ac_simps)
    then have perm: "mset (usb_addrs s) = mset (rev ?xs @ ?rest)"
      by simp
    then have "owns (rev ?xs @ ?rest) (usb_mem s)"
      using others(5) owns_mset by (metis mem_ok_def)
    then obtain k where k: "kfree_all (rev ?xs) (usb_mem s) = Done k" "owns ?rest k" "accounted (usb_mem s) (rev ?xs @ ?rest) k ?rest"
      "km_max k = km_max (usb_mem s)" "\<And>a. a \<in> set ?rest \<Longrightarrow> km_live k a = km_live (usb_mem s) a"
      by (rule kfree_all_sizes) blast
    let ?ud = "(udevs s)[?u := (udevs s ! ?u)\<lparr>ud_refs := ud_refs (udevs s ! ?u) - 1\<rparr>]"
    let ?s2 = "s\<lparr>skels := (skels s)[d := None], udevs := ?ud, usb_mem := k\<rparr>"
    have free: "and_then (kfree_null (bulk_in_buffer dev) (usb_mem s)) (kfree (sk_addr dev)) = Done k"
      using k(1) by (cases "bulk_in_buffer dev") (auto simp: skel_addrs_def kfree_null_def and_then_Done_iff)
    then obtain k1 where k1: "kfree_null (bulk_in_buffer dev) (usb_mem s) = Done k1" "kfree (sk_addr dev) k1 = Done k"
      by (auto simp: and_then_Done_iff)
    have "skel_delete d ?s1 = Done ?s2"
      using dev k1 by (simp add: skel_delete_def the_skel_def usb_put_dev_def the_udev_def set_udev_def set_skel_def on_mem_def split: if_splits)
    then have "kref_put d s = Done ?s2"
      using step True by simp
    moreover have "mem_ok k0 ?s2"
    proof -
      have "accounted k0 [] (usb_mem s) (rev ?xs @ ?rest)"
        using others(5) accounted_mset [OF refl perm] by (simp add: mem_ok_def)
      then have "accounted k0 [] k ?rest"
        using k(3) accounted_trans by blast
      moreover have "usb_addrs ?s2 = ?rest"
        by (simp add: usb_addrs_def)
      ultimately show ?thesis
        using k(2,4) others(5) by (simp add: mem_ok_def)
    qed
    moreover have "num (of_udev u) (skels ?s2) = num (of_udev u) (skels s) - (if u = ?u then 1 else 0)" for u
      using num_update [OF dev(1), of "of_udev u" None] dev(2) by (simp add: of_udev_def)
    then have "udev_ok ?s2 u" if "u < length (udevs s)" for u
      using others(3) [OF that] dev(6) by (auto simp: udev_ok_def nth_list_update)
    moreover have att: "map ud_attached ?ud = map ud_attached (udevs s)"
      by (rule map_same) (use dev(6) in simp_all)
    moreover have "list_all (urb_ok ?s2) (in_flight s)"
    proof (rule urb_oks [OF others(4)])
      show "map ud_attached (udevs ?s2) = map ud_attached (udevs s)"
        using att by simp
      show "km_live (usb_mem ?s2) (transfer_buffer urb) = km_live (usb_mem s) (transfer_buffer urb)" if "urb \<in> set (in_flight s)" for urb
        using k(5) transfer_in_addrs [of urb "s\<lparr>skels := (skels s)[d := None]\<rparr>"] that by simp
    qed
    moreover have "skel_ok ?s2 ((n(d := n d - 1)) e) (skels ?s2 ! e)" if "e < length (skels s)" for e
      using others(1) [OF that] that True by (cases "e = d") (simp_all add: skel_ok_cong [of ?s2 s], simp add: skel_ok_def)
    ultimately show thesis
      using others(2) dev(1) by (intro that [of ?s2]) (simp_all add: same_outside_def core_inv_def)
  qed
qed

lemma kref_get_core:
  assumes inv: "core_inv k0 n s" and pos: "0 < n d"
  obtains s' where "kref_get d s = Done s'" "core_inv k0 (n(d := n d + 1)) s'" "same_outside s s'"
proof -
  obtain dev where dev: "d < length (skels s)" "skels s ! d = Some dev" "the_skel d s = Done dev" "skel_ok s (n d) (Some dev)"
    by (rule core_skel [OF inv pos])
  let ?s = "s\<lparr>skels := (skels s)[d := Some (dev\<lparr>kref := kref dev + 1\<rparr>)]\<rparr>"
  have "core_inv k0 (n(d := n d + 1)) ?s"
    using dev(4) by (intro core_update [OF inv dev(1,2)]) (simp_all add: skel_addrs_def skel_ok_def)
  then show thesis
    using dev(3) by (intro that [of ?s]) (simp_all add: kref_get_def set_skel_def same_outside_def)
qed

lemma attached_udev:
  assumes "core_inv k0 n s" "u < length (udevs s)" "ud_attached (udevs s ! u)"
  shows "the_udev u s = Done (udevs s ! u)"
proof -
  have "udev_ok s u"
    using assms by (simp add: core_inv_def)
  then have "ud_refs (udevs s ! u) = 1 + num (of_udev u) (skels s)"
    using assms(3) by (simp add: udev_ok_def)
  then have "0 < ud_refs (udevs s ! u)"
    using num_nonneg [of "of_udev u" "skels s"] by linarith
  then show ?thesis
    using assms(2) by (simp add: the_udev_def)
qed

lemma complete_urb_core:
  assumes inv: "core_inv k0 N s" and n: "n < length (in_flight s)"
  obtains s' where "complete_urb env n s = Done s'" "core_inv k0 N s'" "same_outside s s'" "skels s' = skels s" "udevs s' = udevs s"
    "in_flight s' = take n (in_flight s) @ drop (Suc n) (in_flight s)"
proof -
  let ?urb = "in_flight s ! n" and ?left = "take n (in_flight s) @ drop (Suc n) (in_flight s)"
  let ?rest = "usb_addrs (s\<lparr>in_flight := ?left\<rparr>)" and ?xs = "[transfer_buffer (in_flight s ! n), urb_addr (in_flight s ! n)]"
  have others: "\<And>e. e < length (skels s) \<Longrightarrow> skel_ok s (N e) (skels s ! e)" "\<And>e. e \<ge> length (skels s) \<Longrightarrow> N e = 0"
      "\<And>u. u < length (udevs s) \<Longrightarrow> udev_ok s u" "list_all (urb_ok s) (in_flight s)" "mem_ok k0 s"
    using inv by (auto simp: core_inv_def)
  have urb: "urb_ok s ?urb"
    using others(4) n by (simp add: list_all_length)
  then have u: "the_udev (urb_dev ?urb) s = Done (udevs s ! urb_dev ?urb)"
    by (intro attached_udev [OF inv]) (simp_all add: urb_ok_def)
  have "concat (map urb_addrs (in_flight s)) = concat (map urb_addrs (take n (in_flight s) @ ?urb # drop (Suc n) (in_flight s)))"
    by (simp only: id_take_nth_drop [OF n, symmetric])
  then have perm: "mset (usb_addrs s) = mset (?xs @ ?rest)"
    by (simp add: usb_addrs_def urb_addrs_def)
  then have "owns (?xs @ ?rest) (usb_mem s)"
    using others(5) owns_mset by (metis mem_ok_def)
  then obtain k where k: "kfree_all ?xs (usb_mem s) = Done k" "owns ?rest k" "accounted (usb_mem s) (?xs @ ?rest) k ?rest"
    "km_max k = km_max (usb_mem s)" "\<And>a. a \<in> set ?rest \<Longrightarrow> km_live k a = km_live (usb_mem s) a"
    by (rule kfree_all_sizes) blast
  obtain k1 where k1: "kfree (transfer_buffer ?urb) (usb_mem s) = Done k1" "kfree (urb_addr ?urb) k1 = Done k"
    using k(1) by (auto simp: and_then_Done_iff)
  let ?s = "s\<lparr>usb_mem := k, in_flight := ?left\<rparr>"
  have "complete_urb env n s = Done ?s"
    using u urb k1 by (simp add: complete_urb_def Let_def skel_write_bulk_callback_def usb_buffer_free_def on_mem_def urb_ok_def)
  moreover have "mem_ok k0 ?s"
  proof -
    have "accounted k0 [] (usb_mem s) (?xs @ ?rest)"
      using others(5) accounted_mset [OF refl perm] by (simp add: mem_ok_def)
    then have "accounted k0 [] k ?rest"
      using k(3) accounted_trans by blast
    moreover have "usb_addrs ?s = ?rest"
      by (simp add: usb_addrs_def)
    ultimately show ?thesis
      using k(2,4) others(5) by (simp add: mem_ok_def)
  qed
  moreover have "list_all (urb_ok ?s) ?left"
  proof (rule urb_oks)
    have "set ?left \<subseteq> set (in_flight s)"
      by (auto dest: in_set_takeD in_set_dropD)
    then show "list_all (urb_ok s) ?left"
      using others(4) unfolding list_all_iff by blast
    show "km_live (usb_mem ?s) (transfer_buffer urb) = km_live (usb_mem s) (transfer_buffer urb)" if "urb \<in> set ?left" for urb
      using k(5) transfer_in_addrs [of urb "s\<lparr>in_flight := ?left\<rparr>"] that by simp
  qed simp
  moreover have "udev_ok ?s u = udev_ok s u" for u
    by (rule udev_ok_cong) simp_all
  ultimately show thesis
    using others(1-3) by (intro that [of ?s]) (simp_all add: same_outside_def core_inv_def skel_ok_cong [of ?s s])
qed

lemma same_outside_trans: "same_outside s s' \<Longrightarrow> same_outside s' s'' \<Longrightarrow> same_outside s s''"
  by (simp add: same_outside_def)

lemma complete_all_core:
  assumes "core_inv k0 N s" "m \<le> length (in_flight s)"
  shows "\<exists>s'. complete_all env u m s = Done s' \<and> core_inv k0 N s' \<and> same_outside s s' \<and> skels s' = skels s \<and> udevs s' = udevs s \<and>
    in_flight s' = filter (\<lambda>urb. urb_dev urb \<noteq> u) (take m (in_flight s)) @ drop m (in_flight s)"
  using assms
proof (induction m arbitrary: s)
  case 0
  then show ?case by simp
next
  case (Suc m)
  then have m: "m < length (in_flight s)"
    by simp
  show ?case
  proof (cases "urb_dev (in_flight s ! m) = u")
    case True
    obtain s1 where s1: "complete_urb env m s = Done s1" "core_inv k0 N s1" "same_outside s s1" "skels s1 = skels s" "udevs s1 = udevs s"
      "in_flight s1 = take m (in_flight s) @ drop (Suc m) (in_flight s)"
      by (rule complete_urb_core [OF Suc.prems(1) m])
    have "m \<le> length (in_flight s1)"
      using s1(6) m by simp
    then obtain s' where "complete_all env u m s1 = Done s'" "core_inv k0 N s'" "same_outside s1 s'" "skels s' = skels s1" "udevs s' = udevs s1"
      "in_flight s' = filter (\<lambda>urb. urb_dev urb \<noteq> u) (take m (in_flight s1)) @ drop m (in_flight s1)"
      using Suc.IH [OF s1(2)] by blast
    then show ?thesis
      using s1 m True same_outside_trans by (auto simp: take_Suc_conv_app_nth)
  next
    case False
    then show ?thesis
      using Suc.IH [OF Suc.prems(1)] m by (auto simp: take_Suc_conv_app_nth Cons_nth_drop_Suc)
  qed
qed

subsection \<open>Events\<close>

text \<open>The events that crash: a write that fails once it has something to do, and a read of 4 gigabytes or more.\<close>

fun event_unsafe :: "usb_env \<Rightarrow> usb \<Rightarrow> usb_event \<Rightarrow> bool" where
  "event_unsafe env s (Write f bytes cnt e) =
     (cnt \<noteq> 0 \<and>
      (case kmalloc (urb_bytes env) (usb_mem s) of
         (None, k) \<Rightarrow> True
       | (Some a, k) \<Rightarrow>
           (case kmalloc cnt k of
              (None, k) \<Rightarrow> \<not> free_null_ok env
            | (Some buf, k) \<Rightarrow> length bytes < nat cnt \<or>
                submit_error e (udevs s ! sk_udev (the (skels s ! the (skel_files s ! f)))) \<noteq> None)))"
| "event_unsafe env s (Read f room cnt answer) = (4294967296 \<le> cnt \<and> (case answer of Inl e \<Rightarrow> False | Inr bytes \<Rightarrow> True))"
| "event_unsafe env s ev = False"

lemma core_frame: "core_inv k0 n (s\<lparr>skel_files := fs\<rparr>) = core_inv k0 n s" "core_inv k0 n (s\<lparr>interfaces := is\<rparr>) = core_inv k0 n s"
  "core_inv k0 n (s\<lparr>skel_registered := b\<rparr>) = core_inv k0 n s"
proof -
  have "skel_ok (s\<lparr>skel_files := fs\<rparr>) = skel_ok s" "skel_ok (s\<lparr>interfaces := is\<rparr>) = skel_ok s" "skel_ok (s\<lparr>skel_registered := b\<rparr>) = skel_ok s"
    "urb_ok (s\<lparr>skel_files := fs\<rparr>) = urb_ok s" "urb_ok (s\<lparr>interfaces := is\<rparr>) = urb_ok s" "urb_ok (s\<lparr>skel_registered := b\<rparr>) = urb_ok s"
    by (simp_all add: fun_eq_iff skel_ok_def urb_ok_def split: option.split)
  then show "core_inv k0 n (s\<lparr>skel_files := fs\<rparr>) = core_inv k0 n s" "core_inv k0 n (s\<lparr>interfaces := is\<rparr>) = core_inv k0 n s"
    "core_inv k0 n (s\<lparr>skel_registered := b\<rparr>) = core_inv k0 n s"
    by (simp_all add: core_inv_def udev_ok_def mem_ok_def usb_addrs_def)
qed

lemma usb_invD: "usb_inv k0 s \<Longrightarrow> core_inv k0 (users s) s" "usb_inv k0 s \<Longrightarrow> list_all (interface_ok s) (interfaces s)"
  by (simp_all add: usb_inv_def)

lemma find_index_Some: "find_index P xs = Some i \<Longrightarrow> i < length xs \<and> P (xs ! i)"
  by (auto simp: find_index_def find_Some_iff)

lemma users_file: "f < length (skel_files s) \<Longrightarrow> skel_files s ! f = Some d \<Longrightarrow> 0 < users s d"
  using num_pos [of f "skel_files s" "\<lambda>f. f = Some d"] num_nonneg [of "\<lambda>intf. if_data intf = Some d" "interfaces s"] unfolding users_def by linarith

lemma users_interface: "i < length (interfaces s) \<Longrightarrow> if_data (interfaces s ! i) = Some d \<Longrightarrow> 0 < users s d"
  using num_pos [of i "interfaces s" "\<lambda>intf. if_data intf = Some d"] num_nonneg [of "\<lambda>f. f = Some d" "skel_files s"] unfolding users_def by linarith

lemma open_event:
  assumes inv: "usb_inv k0 s"
  shows "\<exists>s'. do_usb_event env (Open m) s = Done s' \<and> usb_inv k0 s'"
proof (cases "usb_find_interface m s")
  case None
  then show ?thesis
    using inv by (simp add: skel_open_def)
next
  case (Some i)
  then have i: "i < length (interfaces s)"
    by (auto simp: usb_find_interface_def dest: find_index_Some)
  show ?thesis
  proof (cases "if_data (interfaces s ! i)")
    case None
    then show ?thesis
      using inv Some by (simp add: skel_open_def)
  next
    case data: (Some d)
    obtain s1 where s1: "kref_get d s = Done s1" "core_inv k0 ((users s)(d := users s d + 1)) s1" "same_outside s s1"
      by (rule kref_get_core [OF usb_invD(1) [OF inv] users_interface [OF i data]])
    let ?s = "s1\<lparr>skel_files := skel_files s1 @ [Some d]\<rparr>"
    have "users ?s = (users s)(d := users s d + 1)"
      using s1(3) by (auto simp: users_def same_outside_def num_def)
    moreover have "list_all (interface_ok ?s) (interfaces s)"
      using usb_invD(2) [OF inv] same_outside_interface [OF s1(3)] by (auto simp: list_all_iff interface_ok_def)
    ultimately have "usb_inv k0 ?s"
      using s1 by (simp add: usb_inv_def core_frame same_outside_def)
    then show ?thesis
      using Some data s1(1) by (simp add: skel_open_def)
  qed
qed

lemma release_event:
  assumes inv: "usb_inv k0 s" and f: "file_open f s"
  shows "\<exists>s'. do_usb_event env (Release f) s = Done s' \<and> usb_inv k0 s'"
proof -
  obtain d where d: "f < length (skel_files s)" "skel_files s ! f = Some d"
    using f by (auto simp: file_open_def)
  obtain s1 where s1: "kref_put d s = Done s1" "core_inv k0 ((users s)(d := users s d - 1)) s1" "same_outside s s1"
    by (rule kref_put_core [OF usb_invD(1) [OF inv] users_file [OF d]])
  let ?s = "s1\<lparr>skel_files := (skel_files s)[f := None]\<rparr>"
  have "users ?s = (users s)(d := users s d - 1)"
    using s1(3) d by (auto simp: users_def same_outside_def num_update)
  moreover have "list_all (interface_ok ?s) (interfaces s)"
    using usb_invD(2) [OF inv] same_outside_interface [OF s1(3)] by (auto simp: list_all_iff interface_ok_def)
  ultimately have "usb_inv k0 ?s"
    using s1 by (simp add: usb_inv_def core_frame same_outside_def)
  then show ?thesis
    using d s1(1,3) by (simp add: skel_release_def same_outside_def)
qed

lemma read_event:
  assumes inv: "usb_inv k0 s" and f: "event_allowed (Read f room cnt answer) s"
  shows "if event_unsafe env s (Read f room cnt answer) then do_usb_event env (Read f room cnt answer) s = Crash Out_of_bounds
    else \<exists>s'. do_usb_event env (Read f room cnt answer) s = Done s' \<and> usb_inv k0 s'"
proof -
  obtain d where d: "f < length (skel_files s)" "skel_files s ! f = Some d" and cnt: "0 \<le> cnt"
    using f by (auto simp: file_open_def)
  note core = usb_invD(1) [OF inv]
  obtain dev where dev: "d < length (skels s)" "skels s ! d = Some dev" "the_skel d s = Done dev" "skel_ok s (users s d) (Some dev)"
    "the_udev (sk_udev dev) s = Done (udevs s ! sk_udev dev)"
    by (rule core_skel [OF core users_file [OF d]])
  show ?thesis
  proof (cases answer)
    case (Inl e)
    then show ?thesis
      using d dev inv by (simp add: skel_read_def)
  next
    case (Inr bytes)
    define data where "data = take (nat (min (bulk_in_size dev) cnt)) bytes"
    define buffer where "buffer = map Some data @ drop (length data) (sk_data dev)"
    let ?s = "s\<lparr>skels := (skels s)[d := Some (dev\<lparr>sk_data := buffer\<rparr>)]\<rparr>"
    have len: "int (length (sk_data dev)) = bulk_in_size dev" "bulk_in_size dev < 65536"
      using dev(4) by (simp_all add: skel_ok_def)
    then have short: "length data \<le> length (sk_data dev)"
      by (simp add: data_def)
    then have buffer: "length buffer = length (sk_data dev)"
      by (simp add: buffer_def)
    then have "skel_ok s (users s d) (Some (dev\<lparr>sk_data := buffer\<rparr>))"
      using dev(4) by (simp add: skel_ok_def)
    then have "core_inv k0 ((users s)(d := users s d)) ?s"
      by (intro core_update [OF core dev(1,2)]) (simp_all add: skel_addrs_def)
    then have inv': "usb_inv k0 ?s"
      by (intro same_outside_inv [OF inv]) (simp_all add: same_outside_def)
    have u: "u32 (int (length data)) = int (length data)"
      using len short by (intro u32_id) simp_all
    have "\<exists>r out. skel_read d room cnt answer s =
      (if store_int cnt (int (length data)) > int (length (sk_data dev)) then Crash Out_of_bounds else Done (r, out, ?s))"
      unfolding skel_read_def dev(3) and_then.simps dev(5) Inr sum.case Let_def data_def [symmetric] buffer_def [symmetric]
      by (simp add: buffer set_skel_def split_beta)
    then have step: "do_usb_event env (Read f room cnt answer) s =
      (if store_int cnt (int (length data)) > int (length (sk_data dev)) then Crash Out_of_bounds else Done ?s)"
      using d by (auto split: if_splits)
    show ?thesis
    proof (cases "cnt < 4294967296")
      case True
      then have "store_int cnt (int (length data)) = int (length data)"
        using cnt u by (simp add: store_int_def)
      then show ?thesis
        using step short inv' True by simp
    next
      case False
      then have "1 \<le> cnt div 4294967296"
        by (simp add: pos_imp_zdiv_pos_iff zdiv_mono1 [of 4294967296 cnt 4294967296, simplified])
      moreover have "cnt - cnt mod 4294967296 = 4294967296 * (cnt div 4294967296)"
        by (simp add: minus_mod_eq_mult_div)
      ultimately have "store_int cnt (int (length data)) \<ge> 4294967296"
        using u by (simp add: store_int_def)
      then have "store_int cnt (int (length data)) > int (length (sk_data dev))"
        using len by linarith
      then show ?thesis
        using step Inr False by simp
    qed
  qed
qed

lemma core_mem:
  assumes inv: "core_inv k0 n s" and k: "owns (usb_addrs s) k" "accounted (usb_mem s) (usb_addrs s) k (usb_addrs s)" "km_max k = km_max (usb_mem s)"
    "\<And>a. a \<in> set (usb_addrs s) \<Longrightarrow> km_live k a = km_live (usb_mem s) a"
  shows "core_inv k0 n (s\<lparr>usb_mem := k\<rparr>)"
proof -
  let ?s = "s\<lparr>usb_mem := k\<rparr>"
  have "usb_addrs ?s = usb_addrs s"
    by (simp add: usb_addrs_def)
  moreover have "mem_ok k0 s"
    using inv by (simp add: core_inv_def)
  ultimately have "mem_ok k0 ?s"
    using k(1,3) accounted_trans [OF _ k(2), of k0 "[]"] by (simp add: mem_ok_def)
  moreover have "list_all (urb_ok ?s) (in_flight s)"
    by (rule urb_oks [of s]) (use inv k(4) transfer_in_addrs in \<open>simp_all add: core_inv_def\<close>)
  moreover have "skel_ok ?s = skel_ok s" "udev_ok ?s = udev_ok s"
    by (simp_all add: fun_eq_iff skel_ok_def udev_ok_def split: option.split)
  ultimately show ?thesis
    using inv by (simp add: core_inv_def)
qed

lemma kfree_one:
  assumes "owns (a # as) k"
  obtains k' where "kfree a k = Done k'" "owns as k'" "accounted k (a # as) k' as" "km_max k' = km_max k" "km_live k' a = None"
    "\<And>b. b \<in> set as \<Longrightarrow> km_live k' b = km_live k b"
proof -
  have "owns ([a] @ as) k"
    using assms by simp
  then obtain k' where k': "kfree_all [a] k = Done k'" "owns as k'" "accounted k ([a] @ as) k' as" "km_max k' = km_max k"
    "\<And>b. b \<in> set as \<Longrightarrow> km_live k' b = km_live k b"
    by (rule kfree_all_sizes) blast
  have free: "kfree a k = Done k'"
    using k'(1) by (auto simp: and_then_Done_iff)
  then have "km_live k' a = None"
    by (auto simp: kfree_def split: option.splits)
  then show thesis
    using free k'(2-5) by (intro that [of k']) simp_all
qed

lemma s32_size:
  assumes "0 \<le> cnt" "cnt < 9223372036854775808" "u64 cnt \<le> m" "m < 2147483648"
  shows "s32 cnt = cnt"
  using assms by (intro s32_id) (simp_all add: u64_id)

lemma write_event:
  assumes inv: "usb_inv k0 s" and f: "event_allowed (Write f bytes cnt e) s"
  shows "if event_unsafe env s (Write f bytes cnt e) then \<exists>c. do_usb_event env (Write f bytes cnt e) s = Crash c
    else \<exists>s'. do_usb_event env (Write f bytes cnt e) s = Done s' \<and> usb_inv k0 s'"
proof -
  obtain d where d: "f < length (skel_files s)" "skel_files s ! f = Some d" and cnt: "0 \<le> cnt" "cnt < 9223372036854775808"
    using f by (auto simp: file_open_def)
  note core = usb_invD(1) [OF inv]
  obtain dev where dev: "d < length (skels s)" "skels s ! d = Some dev" "the_skel d s = Done dev"
    "the_udev (sk_udev dev) s = Done (udevs s ! sk_udev dev)" "sk_udev dev < length (udevs s)"
    by (rule core_skel [OF core users_file [OF d]])
  have udev: "the_udev (sk_udev dev) (s\<lparr>usb_mem := k\<rparr>) = Done (udevs s ! sk_udev dev)" for k
    using dev(4) by (simp add: the_udev_def split: if_splits)
  have mem: "mem_ok k0 s" "owns (usb_addrs s) (usb_mem s)"
    using core by (simp_all add: core_inv_def mem_ok_def)
  show ?thesis
  proof (cases "cnt = 0")
    case True
    then show ?thesis
      using inv by (simp add: skel_write_def)
  next
    case nonzero: False
    show ?thesis
    proof (cases "kmalloc (urb_bytes env) (usb_mem s)")
      case (Pair p k)
      show ?thesis
      proof (cases p)
        case None
        then show ?thesis
          using d dev(3) nonzero Pair by (simp add: skel_write_def write_error_def)
      next
        case (Some a)
        note new = kmalloc_sizes [OF Pair [unfolded Some] mem(2)] kmalloc_accounted(1) [OF Pair [unfolded Some], of "usb_addrs s"]
        obtain p2 k2 where k2: "kmalloc cnt k = (p2, k2)"
          by (cases "kmalloc cnt k")
        show ?thesis
        proof (cases p2)
          case None
          note new2 = kmalloc_None_sizes [OF k2 [unfolded None] new(1)] kmalloc_accounted(2) [OF k2 [unfolded None], of "a # usb_addrs s"]
          obtain k3 where k3: "kfree a k2 = Done k3" "owns (usb_addrs s) k3" "accounted k2 (a # usb_addrs s) k3 (usb_addrs s)" "km_max k3 = km_max k2"
            "\<And>b. b \<in> set (usb_addrs s) \<Longrightarrow> km_live k3 b = km_live k2 b"
            by (rule kfree_one [OF new2(1)]) blast
          have "core_inv k0 (users s) (s\<lparr>usb_mem := k3\<rparr>)"
            by (rule core_mem [OF core k3(2)])
              (use new new2 k3 in \<open>simp_all add: accounted_trans [OF new(6) accounted_trans [OF new2(4) k3(3)]]\<close>)
          then have "usb_inv k0 (s\<lparr>usb_mem := k3\<rparr>)"
            by (intro same_outside_inv [OF inv]) (simp_all add: same_outside_def)
          then show ?thesis
            using d dev(3,4) udev nonzero Pair Some k2 None k3(1)
            by (simp add: skel_write_def write_error_def usb_buffer_free_def on_mem_def kfree_null_def)
        next
          case buf: (Some b)
          note new2 = kmalloc_sizes [OF k2 [unfolded buf] new(1)] kmalloc_accounted(1) [OF k2 [unfolded buf], of "a # usb_addrs s"]
          let ?fails = "length bytes < nat cnt \<or> submit_error e (udevs s ! sk_udev dev) \<noteq> None"
          let ?s = "s\<lparr>usb_mem := k2\<rparr>"
          have copy: "snd (copy_from_user bytes (nat cnt)) \<noteq> 0 \<longleftrightarrow> length bytes < nat cnt"
            by (auto simp: copy_from_user_def)
          show ?thesis
          proof (cases ?fails)
            case True
            obtain k3 where k3: "kfree b k2 = Done k3" "owns (a # usb_addrs s) k3" "km_live k3 b = None"
              by (rule kfree_one [OF new2(1)]) blast
            obtain k4 where k4: "kfree a k3 = Done k4"
              by (rule kfree_one [OF k3(2)]) blast
            have "km_live k4 b = None"
              using k3(3) k4 by (auto simp: kfree_def split: option.splits if_splits)
            then have "kfree b k4 = Crash Bad_free"
              by (simp add: kfree_def)
            then have "write_error env (sk_udev dev) cnt (Some b) (Some a) err ?s = Crash Bad_free" for err
              using udev k3(1) k4 new2(3) by (simp add: write_error_def usb_buffer_free_def on_mem_def kfree_null_def)
            then show ?thesis
              using d dev(2,3,4) nonzero Pair Some k2 buf True copy
              by (auto simp: skel_write_def Let_def split: option.split)
          next
            case False
            let ?urb = "\<lparr>urb_addr = a, urb_dev = sk_udev dev, transfer_buffer = b, transfer_buffer_length = s32 cnt\<rparr>"
            let ?s2 = "s\<lparr>usb_mem := k2, in_flight := in_flight s @ [?urb]\<rparr>"
            have addrs: "mset (usb_addrs ?s2) = mset (b # a # usb_addrs s)"
              by (simp add: usb_addrs_def urb_addrs_def)
            have kept: "km_live k2 x = km_live (usb_mem s) x" if "x \<in> set (usb_addrs s)" for x
              using new(5) [OF that] new2(5) [of x] that by simp
            have "accounted k0 [] k2 (b # a # usb_addrs s)"
              using mem(1) accounted_trans [OF _ accounted_trans [OF new(6) new2(6)]] by (simp add: mem_ok_def)
            then have "mem_ok k0 ?s2"
              using new(2) new2(1,2) mem(1) owns_mset [OF addrs] accounted_mset [OF refl addrs] by (simp add: mem_ok_def)
            moreover have "ud_attached (udevs s ! sk_udev dev)"
              using False by (simp add: submit_error_def split: if_splits)
            moreover have "s32 cnt = cnt"
              by (rule s32_size [OF cnt new2(4)]) (use new(2) mem(1) in \<open>simp add: mem_ok_def\<close>)
            moreover have "list_all (urb_ok ?s2) (in_flight s)"
              by (rule urb_oks [of s]) (use core kept transfer_in_addrs in \<open>simp_all add: core_inv_def\<close>)
            moreover have "skel_ok ?s2 = skel_ok s" "udev_ok ?s2 = udev_ok s"
              by (simp_all add: fun_eq_iff skel_ok_def udev_ok_def split: option.split)
            ultimately have "core_inv k0 (users s) ?s2"
              using core dev(5) new2(3) by (simp add: core_inv_def urb_ok_def)
            then have "usb_inv k0 ?s2"
              by (intro same_outside_inv [OF inv]) (simp_all add: same_outside_def)
            then show ?thesis
              using d dev(2,3,4) nonzero Pair Some k2 buf False copy by (simp add: skel_write_def Let_def)
          qed
        qed
      qed
    qed
  qed
qed

definition scan_ready :: "usb_skel \<Rightarrow> bool" where
  "scan_ready dev \<longleftrightarrow> (bulk_in_endpointAddr dev = 0 \<longrightarrow> bulk_in_buffer dev = None) \<and> int (length (sk_data dev)) = bulk_in_size dev \<and>
     bulk_in_size dev < 65536"

lemma take_bulk_out_simps [simp]:
  "sk_addr (take_bulk_out e dev) = sk_addr dev" "sk_udev (take_bulk_out e dev) = sk_udev dev" "kref (take_bulk_out e dev) = kref dev"
  "bulk_in_buffer (take_bulk_out e dev) = bulk_in_buffer dev" "sk_data (take_bulk_out e dev) = sk_data dev"
  "bulk_in_size (take_bulk_out e dev) = bulk_in_size dev" "bulk_in_endpointAddr (take_bulk_out e dev) = bulk_in_endpointAddr dev"
  by (simp_all add: take_bulk_out_def)

lemma skel_addrs_take_bulk_out [simp]: "skel_addrs (Some (take_bulk_out e dev)) = skel_addrs (Some dev)"
  by (simp add: skel_addrs_def)

lemma in_nonzero: "is_in e \<Longrightarrow> bEndpointAddress e \<noteq> 0"
  by (auto simp: is_in_def)

lemma scan_mem:
  assumes "owns (skel_addrs (Some dev) @ as) k" "scan_ready dev" "scan_endpoints es dev k = (b, dev', k')"
  shows "owns (skel_addrs (Some dev') @ as) k' \<and> accounted k (skel_addrs (Some dev) @ as) k' (skel_addrs (Some dev') @ as) \<and>
    km_max k' = km_max k \<and> (\<forall>a \<in> set as. km_live k' a = km_live k a) \<and> sk_udev dev' = sk_udev dev \<and> kref dev' = kref dev \<and>
    int (length (sk_data dev')) = bulk_in_size dev' \<and> bulk_in_size dev' < 65536"
  using assms
proof (induction es arbitrary: dev k)
  case Nil
  then show ?case by (simp add: scan_ready_def)
next
  case (Cons e es)
  show ?case
  proof (cases "bulk_in_endpointAddr dev = 0 \<and> is_in e \<and> is_bulk e")
    case False
    then have "scan_endpoints (e # es) dev k = scan_endpoints es (take_bulk_out e dev) k"
      by (simp only: scan_endpoints.simps if_False)
    then show ?thesis
      using Cons.IH [of "take_bulk_out e dev" k] Cons.prems by (simp add: scan_ready_def del: scan_endpoints.simps)
  next
    case True
    let ?len = "uint (wMaxPacketSize e)"
    let ?dev = "dev\<lparr>bulk_in_size := ?len, sk_data := replicate (nat ?len) None, bulk_in_endpointAddr := bEndpointAddress e\<rparr>"
    have none: "bulk_in_buffer dev = None"
      using Cons.prems(2) True by (simp add: scan_ready_def)
    have len: "?len < 65536" "0 \<le> ?len"
      using uint_bounded [of "wMaxPacketSize e"] by simp_all
    obtain p k1 where k1: "kmalloc ?len k = (p, k1)"
      by (cases "kmalloc ?len k")
    show ?thesis
    proof (cases p)
      case None
      note new = kmalloc_None_sizes [OF k1 [unfolded None] Cons.prems(1)] kmalloc_accounted(2) [OF k1 [unfolded None]]
      have "dev' = ?dev" "k' = k1"
        using Cons.prems(3) True k1 None by simp_all
      then show ?thesis
        using new none len Cons.prems(1) by (simp add: skel_addrs_def)
    next
      case (Some a)
      note new = kmalloc_sizes [OF k1 [unfolded Some] Cons.prems(1)] kmalloc_accounted(1) [OF k1 [unfolded Some], of "skel_addrs (Some dev) @ as"]
      let ?dev1 = "take_bulk_out e (?dev\<lparr>bulk_in_buffer := Some a\<rparr>)"
      have perm: "mset (skel_addrs (Some ?dev1) @ as) = mset (a # skel_addrs (Some dev) @ as)"
        using none by (simp add: skel_addrs_def)
      have "owns (skel_addrs (Some ?dev1) @ as) k1"
        using new(1) owns_mset [OF perm] by simp
      moreover have "scan_ready ?dev1"
        using len in_nonzero True by (simp add: scan_ready_def)
      moreover have "scan_endpoints es ?dev1 k1 = (b, dev', k')"
        using Cons.prems(3) True k1 Some by simp
      ultimately have IH: "owns (skel_addrs (Some dev') @ as) k' \<and> accounted k1 (skel_addrs (Some ?dev1) @ as) k' (skel_addrs (Some dev') @ as) \<and>
        km_max k' = km_max k1 \<and> (\<forall>a \<in> set as. km_live k' a = km_live k1 a) \<and> sk_udev dev' = sk_udev ?dev1 \<and> kref dev' = kref ?dev1 \<and>
        int (length (sk_data dev')) = bulk_in_size dev' \<and> bulk_in_size dev' < 65536"
        by (rule Cons.IH)
      have "accounted k (skel_addrs (Some dev) @ as) k1 (skel_addrs (Some ?dev1) @ as)"
        using new(6) accounted_mset [OF refl perm] by simp
      then have "accounted k (skel_addrs (Some dev) @ as) k' (skel_addrs (Some dev') @ as)"
        using IH accounted_trans by blast
      then show ?thesis
        using IH new(2,5) by simp
    qed
  qed
qed

lemma set_interface_same: "i < length (interfaces s) \<Longrightarrow> set_interface i (interfaces s ! i) s = s"
  by (simp add: set_interface_def)

lemma num_append: "num P (xs @ ys) = num P xs + num P ys"
  by (simp add: num_def)

lemma probe_event:
  assumes inv: "usb_inv k0 s" and ok: "event_allowed (Probe i registration) s"
  shows "\<exists>s'. do_usb_event env (Probe i registration) s = Done s' \<and> usb_inv k0 s'"
proof -
  let ?intf = "interfaces s ! i" and ?d = "length (skels s)"
  let ?u = "if_udev ?intf"
  have i: "i < length (interfaces s)" "\<not> if_bound ?intf" "ud_attached (udevs s ! ?u)"
    using ok by simp_all
  have intf: "?u < length (udevs s)" "if_data ?intf = None" "interface_ok s ?intf"
    using usb_invD(2) [OF inv] i by (simp_all add: list_all_length interface_ok_def)
  note core = usb_invD(1) [OF inv]
  have mem: "mem_ok k0 s" "owns (usb_addrs s) (usb_mem s)"
    using core by (simp_all add: core_inv_def mem_ok_def)
  obtain p k where alloc: "kmalloc (skel_bytes env) (usb_mem s) = (p, k)"
    by (cases "kmalloc (skel_bytes env) (usb_mem s)")
  show ?thesis
  proof (cases p)
    case None
    have "core_inv k0 (users s) (s\<lparr>usb_mem := k\<rparr>)"
      using kmalloc_None_sizes [OF alloc [unfolded None] mem(2)] kmalloc_accounted(2) [OF alloc [unfolded None]] by (intro core_mem [OF core]) simp_all
    then have "usb_inv k0 (s\<lparr>usb_mem := k\<rparr>)"
      by (intro same_outside_inv [OF inv]) (simp_all add: same_outside_def)
    then show ?thesis
      using alloc None by (simp add: probe_interface_def skel_probe_def)
  next
    case (Some a)
    note new = kmalloc_sizes [OF alloc [unfolded Some] mem(2)] kmalloc_accounted(1) [OF alloc [unfolded Some], of "usb_addrs s"]
    let ?dev0 = "\<lparr>sk_addr = a, sk_udev = ?u, sk_interface = i, bulk_in_buffer = None, sk_data = [], bulk_in_size = 0,
                   bulk_in_endpointAddr = 0, bulk_out_endpointAddr = 0, kref = 1\<rparr>"
    obtain enough dev k1 where scan: "scan_endpoints (if_endpoints ?intf) ?dev0 k = (enough, dev, k1)"
      by (metis prod_cases3)
    have dev: "owns (skel_addrs (Some dev) @ usb_addrs s) k1 \<and> accounted k (skel_addrs (Some ?dev0) @ usb_addrs s) k1 (skel_addrs (Some dev) @ usb_addrs s) \<and>
      km_max k1 = km_max k \<and> (\<forall>a \<in> set (usb_addrs s). km_live k1 a = km_live k a) \<and> sk_udev dev = sk_udev ?dev0 \<and> kref dev = kref ?dev0 \<and>
      int (length (sk_data dev)) = bulk_in_size dev \<and> bulk_in_size dev < 65536"
      by (rule scan_mem [OF _ _ scan]) (use new(1) in \<open>simp_all add: skel_addrs_def scan_ready_def\<close>)
    let ?ud = "(udevs s)[?u := (udevs s ! ?u)\<lparr>ud_refs := ud_refs (udevs s ! ?u) + 1\<rparr>]"
    let ?s = "s\<lparr>udevs := ?ud, usb_mem := k1, skels := skels s @ [Some dev]\<rparr>"
    have att: "map ud_attached ?ud = map ud_attached (udevs s)"
      by (rule map_same) (use intf(1) in simp_all)
    then have same: "same_outside s ?s"
      by (simp add: same_outside_def)
    have addrs: "mset (usb_addrs ?s) = mset (skel_addrs (Some dev) @ usb_addrs s)"
      by (simp add: usb_addrs_def)
    have "accounted (usb_mem s) (usb_addrs s) k1 (skel_addrs (Some dev) @ usb_addrs s)"
      using accounted_trans [OF new(6), of k1] dev by (simp add: skel_addrs_def [of "Some ?dev0"])
    then have "accounted k0 [] k1 (usb_addrs ?s)"
      using mem(1) accounted_trans accounted_mset [OF refl addrs] by (metis mem_ok_def)
    then have "mem_ok k0 ?s"
      using dev new(2) mem(1) owns_mset [OF addrs] by (simp add: mem_ok_def)
    moreover have "list_all (urb_ok ?s) (in_flight s)"
      by (rule urb_oks [of s]) (use core att dev new(5) transfer_in_addrs in \<open>simp_all add: core_inv_def\<close>)
    moreover have "num (of_udev u) (skels ?s) = num (of_udev u) (skels s) + (if u = ?u then 1 else 0)" for u
      using dev by (simp add: num_append) (simp add: num_def of_udev_def)
    then have "udev_ok ?s u" if "u < length (udevs s)" for u
      using core that intf(1) by (cases "u = ?u") (simp_all add: core_inv_def udev_ok_def)
    moreover have "skel_ok ?s = skel_ok s"
      by (simp add: fun_eq_iff skel_ok_def split: option.split)
    moreover have "users s ?d = 0"
      using core by (simp add: core_inv_def)
    moreover have "skel_ok s 1 (Some dev)"
      using dev intf(1) by (simp add: skel_ok_def)
    ultimately have core': "core_inv k0 ((users s)(?d := 1)) ?s"
      using core by (auto simp: core_inv_def less_Suc_eq nth_append)
    have back': "((users s)(?d := 1))(?d := ((users s)(?d := 1)) ?d - 1) = users s"
      using \<open>users s ?d = 0\<close> by (simp add: fun_eq_iff)
    obtain s1 where s1: "kref_put ?d ?s = Done s1" "core_inv k0 (((users s)(?d := 1))(?d := ((users s)(?d := 1)) ?d - 1)) s1" "same_outside ?s s1"
      by (rule kref_put_core [OF core', of ?d]) (simp, blast)
    note s1 = s1(1) s1(2) [unfolded back'] s1(3)
    have failed: "usb_inv k0 s1"
      by (rule same_outside_inv [OF inv same_outside_trans [OF same s1(3)] s1(2)])
    have get: "usb_get_dev ?u (s\<lparr>usb_mem := k\<rparr>) = Done (s\<lparr>usb_mem := k, udevs := ?ud\<rparr>)"
      using attached_udev [OF core intf(1) i(3)] by (simp add: usb_get_dev_def the_udev_def set_udev_def split: if_splits)
    show ?thesis
    proof (cases "\<not> enough \<or> bulk_in_endpointAddr dev = 0 \<or> bulk_out_endpointAddr dev = 0")
      case True
      then show ?thesis
        using alloc Some get scan s1(1) failed by (simp add: probe_interface_def skel_probe_def Let_def)
    next
      case found: False
      show ?thesis
      proof (cases registration)
        case (Inl e)
        have "?intf\<lparr>if_data := None\<rparr> = ?intf"
          by (rule usb_interface.equality) (use intf(2) in simp_all)
        then have "set_interface i (?intf\<lparr>if_data := None\<rparr>) ?s = ?s"
          using set_interface_same [of i ?s] i(1) by simp
        then show ?thesis
          using alloc Some get scan s1(1) failed found Inl by (simp add: probe_interface_def skel_probe_def Let_def)
      next
        case (Inr minor)
        let ?new = "?intf\<lparr>if_data := Some ?d, if_minor := Some minor, if_bound := True\<rparr>"
        let ?s2 = "?s\<lparr>interfaces := (interfaces s)[i := ?new]\<rparr>"
        have "users ?s2 = (users s)(?d := 1)"
          using \<open>users s ?d = 0\<close> i(1) intf(2) by (auto simp: users_def num_update fun_eq_iff)
        then have "core_inv k0 (users ?s2) ?s2"
          using core' by (simp add: core_frame)
        moreover have "interface_ok ?s2 ?new"
          using intf(1) i(3) by (simp add: interface_ok_def nth_list_update)
        moreover have "interface_ok ?s2 x" if "interface_ok s x" for x
          using same_outside_interface [OF same that] by (simp add: interface_ok_def)
        then have "list_all (interface_ok ?s2) (interfaces s)"
          using usb_invD(2) [OF inv] by (simp add: list_all_iff)
        ultimately have "usb_inv k0 ?s2"
          unfolding usb_inv_def by (simp add: list_all_update)
        then show ?thesis
          using alloc Some get scan found Inr i(1)
          by (simp add: probe_interface_def skel_probe_def Let_def bind_interface_def set_interface_def)
      qed
    qed
  qed
qed

lemma disconnect_core:
  assumes inv: "usb_inv k0 s" and i: "i < length (interfaces s)"
  obtains s' where "disconnect_interface i s = Done s'" "usb_inv k0 s'" "length (interfaces s') = length (interfaces s)" "skel_files s' = skel_files s"
proof (cases "if_bound (interfaces s ! i)")
  case False
  then show thesis
    using inv by (intro that [of s]) (simp_all add: disconnect_interface_def)
next
  case bound: True
  let ?intf = "interfaces s ! i"
  let ?gone = "?intf\<lparr>if_data := None, if_minor := None\<rparr>"
  let ?s1 = "s\<lparr>interfaces := (interfaces s)[i := ?gone]\<rparr>"
  have intf: "interface_ok s ?intf"
    using usb_invD(2) [OF inv] i by (simp add: list_all_length)
  then obtain d where d: "if_data ?intf = Some d"
    using bound by (auto simp: interface_ok_def)
  have "core_inv k0 (users s) ?s1"
    using usb_invD(1) [OF inv] by (simp add: core_frame)
  then obtain s2 where s2: "kref_put d ?s1 = Done s2" "core_inv k0 ((users s)(d := users s d - 1)) s2" "same_outside ?s1 s2"
    using users_interface [OF i d] by (rule kref_put_core) blast
  let ?s3 = "s2\<lparr>interfaces := (interfaces s)[i := ?gone\<lparr>if_bound := False\<rparr>]\<rparr>"
  have "users ?s3 = (users s)(d := users s d - 1)"
    using s2(3) i d by (auto simp: users_def same_outside_def num_update fun_eq_iff)
  then have "core_inv k0 (users ?s3) ?s3"
    using s2(2) by (simp add: core_frame)
  moreover have "interface_ok ?s3 x" if "interface_ok s x" for x
    using same_outside_length [OF s2(3)] same_outside_attached [OF s2(3)] that by (auto simp: interface_ok_def)
  then have "list_all (interface_ok ?s3) (interfaces s)" "interface_ok ?s3 (?gone\<lparr>if_bound := False\<rparr>)"
    using usb_invD(2) [OF inv] intf same_outside_length [OF s2(3)] by (auto simp: list_all_iff interface_ok_def)
  then have "list_all (interface_ok ?s3) (interfaces ?s3)"
    by (simp add: list_all_update)
  ultimately have "usb_inv k0 ?s3"
    by (simp add: usb_inv_def)
  moreover have "disconnect_interface i s = Done ?s3"
    using bound d s2(1,3) i
    by (simp add: disconnect_interface_def skel_disconnect_def Let_def set_interface_def bind_interface_def same_outside_def)
  ultimately show thesis
    using s2(3) by (intro that [of ?s3]) (simp_all add: same_outside_def)
qed

lemma disconnect_all:
  assumes "usb_inv k0 s" "set is \<subseteq> {..<length (interfaces s)}"
  shows "\<exists>s'. disconnect_interfaces is s = Done s' \<and> usb_inv k0 s'"
  using assms
proof (induction "is" arbitrary: s)
  case (Cons i "is")
  then have "i < length (interfaces s)"
    by simp
  then obtain s1 where s1: "disconnect_interface i s = Done s1" "usb_inv k0 s1" "length (interfaces s1) = length (interfaces s)"
    by (rule disconnect_core [OF Cons.prems(1)]) blast
  then show ?case
    using Cons.IH [OF s1(2)] Cons.prems(2) by auto
qed simp

lemma registered_inv: "usb_inv k0 (s\<lparr>skel_registered := b\<rparr>) = usb_inv k0 s"
proof -
  have "interface_ok (s\<lparr>skel_registered := b\<rparr>) = interface_ok s" "users (s\<lparr>skel_registered := b\<rparr>) = users s"
    by (simp_all add: fun_eq_iff interface_ok_def users_def)
  then show ?thesis
    by (simp add: usb_inv_def core_frame)
qed

lemma exit_event:
  assumes "usb_inv k0 s"
  shows "\<exists>s'. do_usb_event env Exit s = Done s' \<and> usb_inv k0 s'"
proof -
  obtain s' where "disconnect_interfaces [0..<length (interfaces s)] s = Done s'" "usb_inv k0 s'"
    using disconnect_all [OF assms, of "[0..<length (interfaces s)]"] by (auto simp: lessThan_atLeast0)
  then show ?thesis
    by (simp add: usb_skel_exit_def registered_inv)
qed

lemma detach_event:
  assumes inv: "usb_inv k0 s" and ok: "event_allowed (Detach u) s"
  shows "\<exists>s'. do_usb_event env (Detach u) s = Done s' \<and> usb_inv k0 s'"
proof -
  have u: "u < length (udevs s)" "ud_attached (udevs s ! u)" "\<And>intf. intf \<in> set (interfaces s) \<Longrightarrow> if_bound intf \<Longrightarrow> if_udev intf \<noteq> u"
    using ok by (auto simp: list_all_iff)
  note core = usb_invD(1) [OF inv]
  obtain s1 where s1: "complete_all env u (length (in_flight s)) s = Done s1" "core_inv k0 (users s) s1" "same_outside s s1" "skels s1 = skels s"
    "udevs s1 = udevs s" "in_flight s1 = filter (\<lambda>urb. urb_dev urb \<noteq> u) (in_flight s)"
    using complete_all_core [OF core order_refl] by auto
  let ?gone = "(udevs s ! u)\<lparr>ud_attached := False, ud_refs := ud_refs (udevs s ! u) - 1\<rparr>"
  let ?s = "s1\<lparr>udevs := (udevs s)[u := ?gone]\<rparr>"
  have "udev_ok s u"
    using core u(1) by (simp add: core_inv_def)
  then have refs: "ud_refs (udevs s ! u) = 1 + num (of_udev u) (skels s)"
    using u(2) by (simp add: udev_ok_def)
  then have "0 < ud_refs (udevs s ! u)"
    using num_nonneg [of "of_udev u" "skels s"] by linarith
  then have step: "do_usb_event env (Detach u) s = Done ?s"
    using s1(1,5) u(1) by (simp add: detach_device_def usb_put_dev_def the_udev_def set_udev_def)
  have "udev_ok ?s v" if "v < length (udevs s)" for v
    using s1(4,5) core that refs by (cases "v = u") (simp_all add: core_inv_def udev_ok_def)
  moreover have "skel_ok ?s = skel_ok s1"
    using s1(5) by (simp add: fun_eq_iff skel_ok_def split: option.split)
  moreover have "list_all (urb_ok s1) (in_flight s1)" "mem_ok k0 s1"
    using s1(2) by (simp_all add: core_inv_def)
  then have "list_all (urb_ok ?s) (in_flight s1)" "mem_ok k0 ?s"
    using s1(5,6) by (auto simp: list_all_iff urb_ok_def nth_list_update mem_ok_def usb_addrs_def)
  ultimately have "core_inv k0 (users s) ?s"
    using s1(2,5) by (simp add: core_inv_def)
  moreover have "users ?s = users s"
    using s1(3) by (simp add: users_def same_outside_def fun_eq_iff)
  moreover have "list_all (interface_ok ?s) (interfaces s)"
    unfolding list_all_iff
  proof
    fix x
    assume x: "x \<in> set (interfaces s)"
    then have "interface_ok s x" "if_bound x \<Longrightarrow> if_udev x \<noteq> u"
      using usb_invD(2) [OF inv] u(3) by (simp_all add: list_all_iff)
    then show "interface_ok ?s x"
      unfolding interface_ok_def by (cases "if_data x") auto
  qed
  ultimately have "usb_inv k0 ?s"
    using s1(3) by (simp add: usb_inv_def same_outside_def)
  then show ?thesis
    using step by blast
qed

lemma complete_event:
  assumes inv: "usb_inv k0 s" and n: "n < length (in_flight s)"
  shows "\<exists>s'. do_usb_event env (Complete n) s = Done s' \<and> usb_inv k0 s'"
proof -
  obtain s' where s': "complete_urb env n s = Done s'" "core_inv k0 (users s) s'" "same_outside s s'"
    by (rule complete_urb_core [OF usb_invD(1) [OF inv] n])
  then show ?thesis
    using same_outside_inv [OF inv s'(3,2)] by simp
qed

lemma usb_event_cases:
  assumes inv: "usb_inv k0 s" and ok: "event_allowed ev s"
  shows "if event_unsafe env s ev then \<exists>c. do_usb_event env ev s = Crash c
    else \<exists>s'. do_usb_event env ev s = Done s' \<and> usb_inv k0 s'"
proof (cases ev)
  case (Init e)
  then show ?thesis
    using inv by (cases e) (simp_all add: usb_skel_init_def registered_inv)
next
  case (Disconnect i)
  then show ?thesis
    using ok by (auto intro: disconnect_core [OF inv, of i])
next
  case (Read f room cnt answer)
  then show ?thesis
    using read_event [OF inv ok [unfolded Read], of env] by (auto split: if_splits)
next
  case (Write f bytes cnt e)
  then show ?thesis
    using write_event [OF inv ok [unfolded Write], of env] by (simp only: Write)
qed (use assms exit_event probe_event detach_event open_event release_event complete_event in \<open>simp_all del: do_usb_event.simps event_allowed.simps
  add: event_allowed.simps(10) event_allowed.simps(7)\<close>)

section \<open>Properties\<close>

definition usb_start :: "usb \<Rightarrow> bool" where
  "usb_start s \<longleftrightarrow> skels s = [] \<and> skel_files s = [] \<and> in_flight s = [] \<and> \<not> skel_registered s \<and>
     list_all (\<lambda>ud. ud_refs ud = 1 \<and> ud_attached ud) (udevs s) \<and>
     list_all (\<lambda>intf. if_udev intf < length (udevs s) \<and> \<not> if_bound intf \<and> if_data intf = None \<and> if_minor intf = None) (interfaces s) \<and>
     kmem_ok (usb_mem s) \<and> km_max (usb_mem s) < 2147483648"

lemma usb_start_inv:
  assumes "usb_start s"
  shows "usb_inv (usb_mem s) s"
proof -
  have "filter (\<lambda>intf. if_data intf = Some d) (interfaces s) = []" for d
    using assms by (auto simp: usb_start_def list_all_iff filter_empty_conv)
  then have "users s d = 0" for d
    using assms by (simp add: users_def usb_start_def num_def)
  moreover have "mem_ok (usb_mem s) s" "\<And>u. u < length (udevs s) \<Longrightarrow> udev_ok s u"
    using assms by (simp_all add: usb_start_def mem_ok_def usb_addrs_def owns_def udev_ok_def num_def list_all_length)
  moreover have "list_all (interface_ok s) (interfaces s)"
    using assms by (auto simp: usb_start_def list_all_iff interface_ok_def)
  ultimately show ?thesis
    using assms by (simp add: usb_inv_def core_inv_def usb_start_def)
qed

lemma usb_reach_inv:
  assumes "usb_reach env s0 s" "usb_start s0"
  shows "usb_inv (usb_mem s0) s"
  using assms
proof induction
  case 1
  then show ?case by (rule usb_start_inv)
next
  case (2 s ev s')
  then show ?case
    using usb_event_cases [of "usb_mem s0" s ev env] by (auto split: if_splits)
qed

text \<open>C30: Every reference is counted: the count of a device structure is the number of open files and interfaces that refer to it, it is
  freed exactly when that is zero, and the count of a device of the core is the number of structures that refer to it, and one while it is there.\<close>
theorem usb_references:
  assumes "usb_start s0" "usb_reach env s0 s"
  shows "(\<forall>d. d < length (skels s) \<longrightarrow> (case skels s ! d of
      None \<Rightarrow> num (\<lambda>f. f = Some d) (skel_files s) + num (\<lambda>intf. if_data intf = Some d) (interfaces s) = 0
    | Some dev \<Rightarrow> kref dev = num (\<lambda>f. f = Some d) (skel_files s) + num (\<lambda>intf. if_data intf = Some d) (interfaces s) \<and> 0 < kref dev)) \<and>
    (\<forall>u. u < length (udevs s) \<longrightarrow> ud_refs (udevs s ! u) = (if ud_attached (udevs s ! u) then 1 else 0) + num (of_udev u) (skels s))"
proof (intro conjI allI impI)
  note core = usb_invD(1) [OF usb_reach_inv [OF assms(2,1)]]
  fix d
  assume "d < length (skels s)"
  then have "skel_ok s (users s d) (skels s ! d)"
    using core by (simp add: core_inv_def)
  then show "case skels s ! d of
      None \<Rightarrow> num (\<lambda>f. f = Some d) (skel_files s) + num (\<lambda>intf. if_data intf = Some d) (interfaces s) = 0
    | Some dev \<Rightarrow> kref dev = num (\<lambda>f. f = Some d) (skel_files s) + num (\<lambda>intf. if_data intf = Some d) (interfaces s) \<and> 0 < kref dev"
    by (cases "skels s ! d") (simp_all add: skel_ok_def users_def)
next
  fix u
  assume "u < length (udevs s)"
  then show "ud_refs (udevs s ! u) = (if ud_attached (udevs s ! u) then 1 else 0) + num (of_udev u) (skels s)"
    using usb_invD(1) [OF usb_reach_inv [OF assms(2,1)]] by (simp add: core_inv_def udev_ok_def)
qed


text \<open>C31: When the files are closed, the interfaces disconnected and the requests completed, the driver has given back all memory and
  all references.\<close>
theorem usb_quiet_returns:
  assumes "usb_start s0" "usb_reach env s0 s" "list_all (\<lambda>f. f = None) (skel_files s)" "list_all (\<lambda>intf. \<not> if_bound intf) (interfaces s)" "in_flight s = []"
  shows "km_live (usb_mem s) = km_live (usb_mem s0) \<and> list_all (\<lambda>dev. dev = None) (skels s) \<and>
    list_all (\<lambda>ud. ud_refs ud = (if ud_attached ud then 1 else 0)) (udevs s)"
proof -
  note inv = usb_reach_inv [OF assms(2,1)]
  note core = usb_invD(1) [OF inv]
  have none: "list_all (\<lambda>intf. if_data intf = None) (interfaces s)"
    using usb_invD(2) [OF inv] assms(4) by (auto simp: list_all_iff interface_ok_def)
  have "filter (\<lambda>f. f = Some d) (skel_files s) = []" "filter (\<lambda>intf. if_data intf = Some d) (interfaces s) = []" for d
    using assms(3) none by (auto simp: filter_empty_conv list_all_iff)
  then have "users s d = 0" for d
    by (simp add: users_def num_def)
  then have dead: "skels s ! d = None" if "d < length (skels s)" for d
    using core that by (force simp: core_inv_def skel_ok_def split: option.splits)
  then have skels: "list_all (\<lambda>dev. dev = None) (skels s)"
    by (simp add: list_all_length)
  have "num (of_udev u) (skels s) = 0" for u
    using dead by (auto simp: num_def of_udev_def filter_empty_conv in_set_conv_nth)
  then have "list_all (\<lambda>ud. ud_refs ud = (if ud_attached ud then 1 else 0)) (udevs s)"
    using core by (simp add: core_inv_def udev_ok_def list_all_length)
  moreover have "usb_addrs s = []"
    using assms(5) skels by (auto simp: usb_addrs_def skel_addrs_def list_all_iff)
  then have "km_live (usb_mem s) = km_live (usb_mem s0)"
    using core assms(1) by (auto simp: core_inv_def mem_ok_def accounted_def owns_def usb_start_def restrict_map_def fun_eq_iff)
  ultimately show ?thesis
    using skels by blast
qed

definition bulk_in :: "endpoint \<Rightarrow> bool" where "bulk_in e \<longleftrightarrow> is_in e \<and> is_bulk e"

definition bulk_out :: "endpoint \<Rightarrow> bool" where "bulk_out e \<longleftrightarrow> \<not> is_in e \<and> is_bulk e \<and> bEndpointAddress e \<noteq> 0"

lemma scan_out:
  assumes "scan_endpoints es dev k = (True, dev', k')"
  shows "bulk_out_endpointAddr dev' = (if bulk_out_endpointAddr dev \<noteq> 0 then bulk_out_endpointAddr dev
    else case find bulk_out es of None \<Rightarrow> 0 | Some e \<Rightarrow> bEndpointAddress e)"
  using assms
proof (induction es arbitrary: dev k)
  case (Cons e es)
  have step: "bulk_out_endpointAddr (take_bulk_out e dev) =
    (if bulk_out_endpointAddr dev = 0 \<and> \<not> is_in e \<and> is_bulk e then bEndpointAddress e else bulk_out_endpointAddr dev)" for dev
    by (simp add: take_bulk_out_def)
  show ?case
    using Cons.prems by (auto simp: Let_def step bulk_out_def [of e] dest!: Cons.IH split: if_splits prod.splits option.splits)
qed simp

lemma scan_in:
  assumes "scan_endpoints es dev k = (True, dev', k')"
  shows "bulk_in_endpointAddr dev' = (if bulk_in_endpointAddr dev \<noteq> 0 then bulk_in_endpointAddr dev
    else case find bulk_in es of None \<Rightarrow> 0 | Some e \<Rightarrow> bEndpointAddress e) \<and>
    (bulk_in_endpointAddr dev = 0 \<longrightarrow> (\<forall>e. find bulk_in es = Some e \<longrightarrow> bulk_in_size dev' = uint (wMaxPacketSize e))) \<and>
    (bulk_in_endpointAddr dev \<noteq> 0 \<longrightarrow> bulk_in_size dev' = bulk_in_size dev)"
  using assms
proof (induction es arbitrary: dev k)
  case (Cons e es)
  show ?case
    using Cons.prems in_nonzero [of e] by (auto simp: Let_def bulk_in_def [of e] dest!: Cons.IH split: if_splits prod.splits option.splits)
qed simp

text \<open>The probe takes the first bulk-in and the first bulk-out endpoint; when one is missing it fails, with the error for
  a lack of memory.\<close>
theorem skel_probe_endpoints:
  assumes "skel_probe env i registration s = Done (r, s')"
  shows "case (find bulk_in (if_endpoints (interfaces s ! i)), find bulk_out (if_endpoints (interfaces s ! i))) of
      (Some e_in, Some e_out) \<Rightarrow> r = Inr 0 \<longrightarrow> (\<exists>dev. skels s' = skels s @ [Some dev] \<and> bulk_in_endpointAddr dev = bEndpointAddress e_in \<and>
        bulk_in_size dev = uint (wMaxPacketSize e_in) \<and> bulk_out_endpointAddr dev = bEndpointAddress e_out)
    | _ \<Rightarrow> r = Inl ENOMEM"
proof (cases "kmalloc (skel_bytes env) (usb_mem s)")
  case (Pair p k)
  show ?thesis
  proof (cases p)
    case None
    then show ?thesis
      using assms Pair by (auto simp: skel_probe_def split: option.split)
  next
    case (Some a)
    let ?u = "if_udev (interfaces s ! i)" and ?es = "if_endpoints (interfaces s ! i)"
    let ?dev0 = "\<lparr>sk_addr = a, sk_udev = ?u, sk_interface = i, bulk_in_buffer = None, sk_data = [], bulk_in_size = 0,
                   bulk_in_endpointAddr = 0, bulk_out_endpointAddr = 0, kref = 1\<rparr>"
    obtain s1 where s1: "usb_get_dev ?u (s\<lparr>usb_mem := k\<rparr>) = Done s1"
      using assms Pair Some by (auto simp: skel_probe_def Let_def and_then_Done_iff)
    then have skels: "skels s1 = skels s"
      by (auto simp: usb_get_dev_def and_then_Done_iff set_udev_def)
    obtain enough dev k1 where scan: "scan_endpoints ?es ?dev0 k = (enough, dev, k1)"
      by (metis prod_cases3)
    let ?fails = "\<not> enough \<or> bulk_in_endpointAddr dev = 0 \<or> bulk_out_endpointAddr dev = 0"
    have fails: "?fails \<Longrightarrow> r = Inl ENOMEM"
      using assms Pair Some s1 scan by (auto simp: skel_probe_def Let_def and_then_Done_iff)
    have works: "\<not> ?fails \<Longrightarrow> r = Inr 0 \<Longrightarrow> skels s' = skels s @ [Some dev]"
      using assms Pair Some s1 scan skels by (auto simp: skel_probe_def Let_def and_then_Done_iff set_interface_def split: sum.splits)
    have out: "enough \<Longrightarrow> bulk_out_endpointAddr dev = (case find bulk_out ?es of None \<Rightarrow> 0 | Some e \<Rightarrow> bEndpointAddress e)"
      using scan_out [of ?es ?dev0 k dev k1] scan by simp
    have inn: "enough \<Longrightarrow> bulk_in_endpointAddr dev = (case find bulk_in ?es of None \<Rightarrow> 0 | Some e \<Rightarrow> bEndpointAddress e)"
      "enough \<Longrightarrow> find bulk_in ?es = Some e \<Longrightarrow> bulk_in_size dev = uint (wMaxPacketSize e)" for e
      using scan_in [of ?es ?dev0 k dev k1] scan by simp_all
    show ?thesis
      using fails works out inn by (cases ?fails) (auto split: option.splits)
  qed
qed

text \<open>A read of less than 4 gigabytes gives the user what the device sent, up to the size of the endpoint's packets and of the request.\<close>
theorem skel_read_delivers:
  assumes "usb_start s0" "usb_reach env s0 s" "f < length (skel_files s)" "skel_files s ! f = Some d" "0 \<le> cnt" "cnt < 4294967296"
    "skels s ! d = Some dev" "data = take (nat (min (bulk_in_size dev) cnt)) bytes" "length data \<le> room"
  shows "\<exists>s'. skel_read d room cnt (Inr bytes) s = Done (Inr (int (length data)), map Some data, s')"
proof -
  note core = usb_invD(1) [OF usb_reach_inv [OF assms(2,1)]]
  have dev: "the_skel d s = Done dev" "skel_ok s (users s d) (Some dev)" "the_udev (sk_udev dev) s = Done (udevs s ! sk_udev dev)"
    by (rule core_skel [OF core users_file [OF assms(3,4)]], use assms(7) in simp)+
  define buffer where "buffer = map Some data @ drop (length data) (sk_data dev)"
  have len: "int (length (sk_data dev)) = bulk_in_size dev" "bulk_in_size dev < 65536"
    using dev(2) by (simp_all add: skel_ok_def)
  have short: "length data \<le> length (sk_data dev)"
    using len by (simp add: assms(8))
  have u: "u32 (int (length data)) = int (length data)" "s32 (int (length data)) = int (length data)"
    using len short by (simp_all add: u32_id s32_id)
  then have count: "store_int cnt (int (length data)) = int (length data)"
    using assms(5,6) by (simp add: store_int_def)
  have buffer: "length buffer = length (sk_data dev)" "take (length data) buffer = map Some data"
    using short by (simp_all add: buffer_def)
  show ?thesis
    unfolding skel_read_def dev(1) and_then.simps dev(3) sum.case Let_def assms(8) [symmetric] buffer_def [symmetric] count
    using assms(9) short u(2) by (simp add: buffer copy_to_user_def)
qed

section \<open>Examples\<close>

fun usb_run :: "usb_env \<Rightarrow> usb_event list \<Rightarrow> usb \<Rightarrow> usb outcome" where
  "usb_run env [] s = Done s"
| "usb_run env (ev # evs) s = (if event_allowed ev s then and_then (do_usb_event env ev s) (usb_run env evs) else Block)"

lemma usb_run_reach: "usb_reach env s0 s \<Longrightarrow> usb_run env evs s = Done s' \<Longrightarrow> usb_reach env s0 s'"
  by (induction evs arbitrary: s) (auto simp: and_then_Done_iff split: if_splits intro: usb_reach.intros(2))

definition some_usb_env :: usb_env where
  "some_usb_env = \<lparr>skel_bytes = 48, urb_bytes = 136, free_null_ok = False\<rparr>"

definition some_usb :: usb where
  "some_usb = \<lparr>interfaces = [\<lparr>if_udev = 0, if_endpoints = [\<lparr>bEndpointAddress = 129, bmAttributes = 3, wMaxPacketSize = 8\<rparr>,
       \<lparr>bEndpointAddress = 130, bmAttributes = 2, wMaxPacketSize = 4\<rparr>, \<lparr>bEndpointAddress = 3, bmAttributes = 2, wMaxPacketSize = 4\<rparr>],
       if_minor = None, if_data = None, if_bound = False\<rparr>],
     udevs = [\<lparr>ud_refs = 1, ud_attached = True\<rparr>], skels = [], skel_files = [], in_flight = [], skel_registered = False, usb_mem = fresh_kmem\<rparr>"

lemma some_usb_start: "usb_start some_usb"
  by (simp add: usb_start_def some_usb_def) (simp add: fresh_kmem_def)

definition plug_and_open :: "usb_event list" where
  "plug_and_open = [Init None, Probe 0 (Inr 192), Open 192, Write 0 [1, 2] 2 None]"

definition unplug :: "usb_event list" where
  "unplug = [Disconnect 0, Detach 0]"

lemmas usb_eval = some_usb_def some_usb_env_def plug_and_open_def unplug_def usb_skel_init_def probe_interface_def skel_probe_def
  usb_get_dev_def usb_put_dev_def the_udev_def set_udev_def the_skel_def set_skel_def set_interface_def bind_interface_def kmalloc_def fresh_kmem_def
  Let_def is_bulk_def is_in_def take_bulk_out_def USB_DIR_IN_def USB_ENDPOINT_XFERTYPE_MASK_def USB_ENDPOINT_XFER_BULK_def
  skel_open_def usb_find_interface_def find_index_def kref_get_def skel_write_def copy_from_user_def submit_error_def u64_def s32_def
  file_open_def disconnect_interface_def skel_disconnect_def kref_put_def skel_delete_def on_mem_def kfree_def kfree_null_def detach_device_def
  complete_urb_def skel_write_bulk_callback_def usb_buffer_free_def skel_release_def

lemma some_unplug_run:
  obtains s dev where "usb_run some_usb_env (plug_and_open @ unplug) some_usb = Done s" "skels s = [Some dev]" "kref dev = 1" "skel_files s = [Some 0]"
    "udevs s = [\<lparr>ud_refs = 1, ud_attached = False\<rparr>]" "event_allowed (Write 0 [1] 1 None) s" "event_unsafe some_usb_env s (Write 0 [1] 1 None)"
    "bulk_in_size dev = 4"
  by (simp add: usb_eval)

lemma some_close_run:
  obtains s where "usb_run some_usb_env (plug_and_open @ unplug @ [Release 0]) some_usb = Done s" "skel_files s = [None]" "in_flight s = []"
    "list_all (\<lambda>intf. \<not> if_bound intf) (interfaces s)" "udevs s = [\<lparr>ud_refs = 0, ud_attached = False\<rparr>]"
  by (simp add: usb_eval)

theorem usb_references_witness:
  "\<exists>s dev. usb_run some_usb_env (plug_and_open @ unplug) some_usb = Done s \<and> skels s = [Some dev] \<and> skel_files s = [Some 0] \<and> kref dev = 1 + num (\<lambda>intf. if_data intf = Some 0) (interfaces s)"
proof -
  obtain s dev where s: "usb_run some_usb_env (plug_and_open @ unplug) some_usb = Done s" "skels s = [Some dev]" "skel_files s = [Some 0]"
    by (rule some_unplug_run)
  have "usb_reach some_usb_env some_usb s"
    by (rule usb_run_reach [OF usb_reach.intros(1) s(1)])
  then have "kref dev = 1 + num (\<lambda>intf. if_data intf = Some 0) (interfaces s)"
    using usb_references [OF some_usb_start, of some_usb_env s] s(2,3) by (simp add: num_def)
  then show ?thesis
    using s by blast
qed


theorem usb_quiet_returns_witness:
  "\<exists>s. usb_run some_usb_env (plug_and_open @ unplug @ [Release 0]) some_usb = Done s \<and> km_live (usb_mem s) = Map.empty"
proof -
  obtain s where s: "usb_run some_usb_env (plug_and_open @ unplug @ [Release 0]) some_usb = Done s" "skel_files s = [None]" "in_flight s = []"
    "list_all (\<lambda>intf. \<not> if_bound intf) (interfaces s)"
    by (rule some_close_run)
  have "usb_reach some_usb_env some_usb s"
    by (rule usb_run_reach [OF usb_reach.intros(1) s(1)])
  then have "km_live (usb_mem s) = km_live (usb_mem some_usb)"
    using usb_quiet_returns [OF some_usb_start, of some_usb_env s] s(2-4) by simp
  then show ?thesis
    using s(1) by (simp add: some_usb_def fresh_kmem_def)
qed

theorem skel_probe_endpoints_witness:
  "\<exists>s dev. skel_probe some_usb_env 0 (Inr 192) some_usb = Done (Inr 0, s) \<and> skels s = [Some dev] \<and> bulk_in_endpointAddr dev = 130 \<and> bulk_out_endpointAddr dev = 3"
proof -
  obtain s where s: "skel_probe some_usb_env 0 (Inr 192) some_usb = Done (Inr 0, s)"
    by (simp add: usb_eval)
  have "find bulk_in (if_endpoints (interfaces some_usb ! 0)) = Some \<lparr>bEndpointAddress = 130, bmAttributes = 2, wMaxPacketSize = 4\<rparr>"
    "find bulk_out (if_endpoints (interfaces some_usb ! 0)) = Some \<lparr>bEndpointAddress = 3, bmAttributes = 2, wMaxPacketSize = 4\<rparr>"
    by (simp_all add: usb_eval bulk_in_def bulk_out_def)
  then show ?thesis
    using skel_probe_endpoints [OF s] s by (auto simp: some_usb_def)
qed

theorem skel_read_delivers_witness:
  "\<exists>s s'. usb_run some_usb_env (plug_and_open @ unplug) some_usb = Done s \<and>
    skel_read 0 10 3 (Inr [7, 8, 9, 10]) s = Done (Inr 3, [Some 7, Some 8, Some 9], s')"
proof -
  obtain s dev where s: "usb_run some_usb_env (plug_and_open @ unplug) some_usb = Done s" "skels s = [Some dev]" "skel_files s = [Some 0]"
    "bulk_in_size dev = 4"
    by (rule some_unplug_run)
  have "usb_reach some_usb_env some_usb s"
    by (rule usb_run_reach [OF usb_reach.intros(1) s(1)])
  then have "\<exists>s'. skel_read 0 10 3 (Inr [7, 8, 9, 10]) s = Done (Inr (int (length [7, 8, 9 :: byte])), map Some [7, 8, 9], s')"
    by (rule skel_read_delivers [OF some_usb_start, of some_usb_env s 0 0 3 dev]) (use s in \<open>simp_all add: eval_nat_numeral\<close>)
  then show ?thesis
    using s(1) by auto
qed

end
