(* ===== verification/Share_Mem.thy ===== *)
theory Share_Mem
  imports Kernel_Prelude
begin

text \<open>
  The driver sharemem (src/Kernel/sharemem/sharemem.c): one page of memory that every process that maps the device gets, and that writes to the
  device go to. The first mapping makes the page and maps it into the kernel, too. Operations run one after
  the other; a mutex that is never released makes later ones sleep.
\<close>

section \<open>State\<close>

definition SM_PAGE_SIZE :: nat where "SM_PAGE_SIZE = 4096"

text \<open>What belongs to an open file: its memory, the process that opened it, how much of the name is unread, the mutex, and
  whether the process has the page mapped. There is no release method.\<close>

record sharemem_proc =
  pr_addr :: addr
  pr_tsk :: nat
  namelen :: int
  mmap_mutex :: bool
  vma_mapped :: bool

text \<open>\<open>buffer_addr\<close> says that an area of kernel addresses is reserved, \<open>kernel_mapped\<close> that the page is mapped there. The array of pages has one entry,
  \<open>the_page\<close>. \<open>tsk_refs\<close> are the references to the processes the driver has taken.\<close>

record sharemem =
  buffer_addr :: bool
  kernel_mapped :: bool
  pages_ptr_array :: "addr option"
  the_page :: "cell list option"
  sharemem_procs :: "sharemem_proc list"
  tsk_refs :: "nat \<Rightarrow> nat"
  sm_mem :: kmem

text \<open>The size of the structure, and the name of each process (\<open>comm\<close>).\<close>

record sharemem_env =
  proc_bytes :: int
  comm :: "nat \<Rightarrow> byte list"

text \<open>What the kernel grants to a mapping: the reserved area, the page, the mapping into the kernel and into the process.\<close>

record grants =
  area_granted :: bool
  page_granted :: bool
  map_error :: "errno option"
  insert_error :: "errno option"

definition sharemem_init :: "errno option \<Rightarrow> kmem \<Rightarrow> (errno + int) \<times> sharemem" where
  "sharemem_init registration k =
     (case registration of Some e \<Rightarrow> Inl e | None \<Rightarrow> Inr 0,
      \<lparr>buffer_addr = False, kernel_mapped = False, pages_ptr_array = None, the_page = None, sharemem_procs = [],
       tsk_refs = (\<lambda>_. 0), sm_mem = k\<rparr>)"

section \<open>Operations\<close>

text \<open>A file is the index of its structure, in the order of opening.\<close>

definition sharemem_open :: "sharemem_env \<Rightarrow> nat \<Rightarrow> sharemem \<Rightarrow> (errno + int) \<times> sharemem" where
  "sharemem_open env current s =
     (case kmalloc (proc_bytes env) (sm_mem s) of
        (None, k) \<Rightarrow> (Inl ENOMEM, s\<lparr>sm_mem := k\<rparr>)
      | (Some a, k) \<Rightarrow>
          (Inr 0, s\<lparr>sm_mem := k, tsk_refs := (tsk_refs s)(current := Suc (tsk_refs s current)),
             sharemem_procs := sharemem_procs s @ [\<lparr>pr_addr = a, pr_tsk = current, namelen = int (length (comm env current)),
               mmap_mutex = False, vma_mapped = False\<rparr>]\<rparr>))"

definition set_proc :: "nat \<Rightarrow> sharemem_proc \<Rightarrow> sharemem \<Rightarrow> sharemem" where
  "set_proc f p s = s\<lparr>sharemem_procs := (sharemem_procs s)[f := p]\<rparr>"

text \<open>From \<open>MMAP_USER_SPACE\<close> on.\<close>

definition map_user_space :: "grants \<Rightarrow> nat \<Rightarrow> sharemem \<Rightarrow> ((errno + int) \<times> sharemem) outcome" where
  "map_user_space gr f s =
     (case pages_ptr_array s of
        None \<Rightarrow> Crash Null_deref
      | Some _ \<Rightarrow>
          Done (case the_page s of
                  None \<Rightarrow> (Inl ENOMEM, s)
                | Some _ \<Rightarrow>
                    (case insert_error gr of
                       Some e \<Rightarrow> (Inl e, s)
                     | None \<Rightarrow> (Inr 0, set_proc f ((sharemem_procs s ! f)\<lparr>vma_mapped := True\<rparr>) s))))"

text \<open>The mutex is taken before the first look at \<open>buffer_addr\<close>, and released on two of the ways out of it. A page that was not granted
  makes the mapping into the kernel fail.\<close>

definition sharemem_mmap :: "grants \<Rightarrow> nat \<Rightarrow> nat \<Rightarrow> sharemem \<Rightarrow> ((errno + int) \<times> sharemem) outcome" where
  "sharemem_mmap gr f current s =
     (let p = sharemem_procs s ! f in
      if pr_tsk p \<noteq> current then Done (Inl EINVAL, s)
      else if mmap_mutex p then Block
      else if buffer_addr s then (if kernel_mapped s then map_user_space gr f s else Crash Out_of_bounds)
      else
        let locked = set_proc f (p\<lparr>mmap_mutex := True\<rparr>) s in
        if \<not> area_granted gr then Done (Inl ENOMEM, locked)
        else
          case kmalloc 8 (sm_mem s) of
            (None, k) \<Rightarrow> Crash Null_deref
          | (Some a, k) \<Rightarrow>
              let locked = locked\<lparr>buffer_addr := True, sm_mem := k, pages_ptr_array := Some a,
                    the_page := (if page_granted gr then Some (replicate SM_PAGE_SIZE (Some 0)) else None)\<rparr>
              in case (if page_granted gr then map_error gr else Some ENOMEM) of
                   Some e \<Rightarrow> Done (Inl e, locked)
                 | None \<Rightarrow> map_user_space gr f (set_proc f p (locked\<lparr>kernel_mapped := True\<rparr>)))"

definition sharemem_read :: "sharemem_env \<Rightarrow> nat \<Rightarrow> nat \<Rightarrow> int \<Rightarrow> sharemem \<Rightarrow> ((errno + int) \<times> cell list \<times> sharemem) outcome" where
  "sharemem_read env f room cnt s =
     (let p = sharemem_procs s ! f;
          (retval, left) = (if cnt > namelen p then (namelen p, 0) else (cnt, namelen p - cnt));
          (out, missing) = copy_to_user room (map Some (take (nat retval) (comm env (pr_tsk p))));
          s = set_proc f (p\<lparr>namelen := left\<rparr>) s
      in if buffer_addr s \<and> \<not> kernel_mapped s then Crash Out_of_bounds
         else Done (if missing \<noteq> 0 then Inl EFAULT else Inr retval, out, s))"

text \<open>\<open>ret\<close> is an \<open>int\<close>, set before the count is cut down to the page.\<close>

definition sharemem_write :: "nat \<Rightarrow> byte list \<Rightarrow> int \<Rightarrow> sharemem \<Rightarrow> ((errno + int) \<times> sharemem) outcome" where
  "sharemem_write f buf cnt s =
     (if \<not> buffer_addr s then Done (Inl EINVAL, s)
      else
        let ret = s32 cnt; n = nat (min cnt (int SM_PAGE_SIZE)) in
        if mmap_mutex (sharemem_procs s ! f) then Block
        else if \<not> kernel_mapped s \<and> 0 < n then Crash Out_of_bounds
        else
          let (cells, missing) = copy_from_user buf n;
              s = s\<lparr>the_page := map_option (\<lambda>page. cells @ drop n page) (the_page s)\<rparr>
          in Done (if missing \<noteq> 0 then Inl EFAULT else Inr ret, s))"

text \<open>Unloading: the loop frees an entry of the list and then reads where the next one is from it. The list starts with the entry that was
  added last.\<close>

fun free_procs :: "sharemem_proc list \<Rightarrow> kmem \<Rightarrow> kmem outcome" where
  "free_procs [] k = Done k"
| "free_procs (p # ps) k =
     and_then (kfree (pr_addr p) k) (\<lambda>k. if km_live k (pr_addr p) = None then Crash Out_of_bounds else free_procs ps k)"

definition sharemem_exit :: "sharemem \<Rightarrow> sharemem outcome" where
  "sharemem_exit s =
     (case pages_ptr_array s of
        None \<Rightarrow> Crash Null_deref
      | Some a \<Rightarrow>
          (case the_page s of
             None \<Rightarrow> Crash Null_deref
           | Some _ \<Rightarrow>
               and_then (kfree a (sm_mem s)) (\<lambda>k.
               and_then (free_procs (rev (sharemem_procs s)) k) (\<lambda>k.
                 Done (s\<lparr>the_page := None, sm_mem := k\<rparr>)))))"

section \<open>Runs\<close>

datatype sharemem_event =
    Open_by nat | Mmap_by grants nat nat | Read_from nat nat int | Write_to nat "byte list" int

fun sharemem_allowed :: "sharemem_event \<Rightarrow> sharemem \<Rightarrow> bool" where
  "sharemem_allowed (Open_by t) s = True"
| "sharemem_allowed (Mmap_by gr f t) s = (f < length (sharemem_procs s))"
| "sharemem_allowed (Read_from f room cnt) s = (f < length (sharemem_procs s) \<and> 0 \<le> cnt)"
| "sharemem_allowed (Write_to f buf cnt) s = (f < length (sharemem_procs s) \<and> 0 \<le> cnt)"

fun sharemem_do :: "sharemem_env \<Rightarrow> sharemem_event \<Rightarrow> sharemem \<Rightarrow> sharemem outcome" where
  "sharemem_do env (Open_by t) s = Done (snd (sharemem_open env t s))"
| "sharemem_do env (Mmap_by gr f t) s = and_then (sharemem_mmap gr f t s) (\<lambda>(r, s). Done s)"
| "sharemem_do env (Read_from f room cnt) s = and_then (sharemem_read env f room cnt s) (\<lambda>(r, out, s). Done s)"
| "sharemem_do env (Write_to f buf cnt) s = and_then (sharemem_write f buf cnt s) (\<lambda>(r, s). Done s)"

inductive sharemem_run :: "sharemem_env \<Rightarrow> sharemem \<Rightarrow> sharemem \<Rightarrow> bool" for env s0 where
  "sharemem_run env s0 s0"
| "sharemem_run env s0 s \<Longrightarrow> sharemem_allowed ev s \<Longrightarrow> sharemem_do env ev s = Done s' \<Longrightarrow> sharemem_run env s0 s'"

definition sharemem_reach :: "sharemem_env \<Rightarrow> sharemem \<Rightarrow> bool" where
  "sharemem_reach env s \<longleftrightarrow> (\<exists>k. sharemem_run env (snd (sharemem_init None k)) s)"

section \<open>Lemmas\<close>

lemma set_proc_simps [simp]:
  "buffer_addr (set_proc f p s) = buffer_addr s" "kernel_mapped (set_proc f p s) = kernel_mapped s"
  "pages_ptr_array (set_proc f p s) = pages_ptr_array s" "the_page (set_proc f p s) = the_page s"
  "sm_mem (set_proc f p s) = sm_mem s" "sharemem_procs (set_proc f p s) = (sharemem_procs s)[f := p]"
  by (simp_all add: set_proc_def)

text \<open>What every run keeps: a page is there when it is mapped, nothing is mapped without an area, and a mapping needs an open file.\<close>

definition sharemem_ok :: "sharemem \<Rightarrow> bool" where
  "sharemem_ok s \<longleftrightarrow> (kernel_mapped s \<longrightarrow> buffer_addr s \<and> pages_ptr_array s \<noteq> None \<and> (\<exists>page. the_page s = Some page \<and> length page = SM_PAGE_SIZE)) \<and>
     (pages_ptr_array s \<noteq> None \<longrightarrow> sharemem_procs s \<noteq> [])"

lemma map_user_space_keeps:
  assumes "map_user_space gr f s = Done (r, s')"
  shows "buffer_addr s' = buffer_addr s \<and> kernel_mapped s' = kernel_mapped s \<and> pages_ptr_array s' = pages_ptr_array s \<and> the_page s' = the_page s \<and>
    length (sharemem_procs s') = length (sharemem_procs s)"
  using assms by (auto simp: map_user_space_def split: option.splits)

lemma mmap_ok:
  assumes "sharemem_ok s" "f < length (sharemem_procs s)" "sharemem_mmap gr f t s = Done (r, s')"
  shows "sharemem_ok s'"
  using assms
  by (auto simp: sharemem_mmap_def Let_def sharemem_ok_def split: if_splits option.splits prod.splits dest!: map_user_space_keeps)

lemma do_ok:
  assumes "sharemem_ok s" "sharemem_allowed ev s" "sharemem_do env ev s = Done s'"
  shows "sharemem_ok s'"
proof (cases ev)
  case (Open_by t)
  then show ?thesis
    using assms by (auto simp: sharemem_open_def sharemem_ok_def split: option.splits prod.splits)
next
  case (Mmap_by gr f t)
  then show ?thesis
    using assms mmap_ok by (auto simp: and_then_Done_iff)
next
  case (Read_from f room cnt)
  then show ?thesis
    using assms by (auto simp: and_then_Done_iff sharemem_read_def Let_def sharemem_ok_def split: if_splits prod.splits)
next
  case (Write_to f buf cnt)
  then show ?thesis
    using assms by (auto simp: and_then_Done_iff sharemem_write_def Let_def sharemem_ok_def copy_from_user_def split: if_splits)
qed

lemma run_ok: "sharemem_run env s0 s \<Longrightarrow> sharemem_ok s0 \<Longrightarrow> sharemem_ok s"
  by (induction rule: sharemem_run.induct) (auto intro: do_ok)

lemma reach_ok: "sharemem_reach env s \<Longrightarrow> sharemem_ok s"
  using run_ok by (auto simp: sharemem_reach_def sharemem_init_def sharemem_ok_def)

lemma locked_do:
  assumes "f < length (sharemem_procs s)" "mmap_mutex (sharemem_procs s ! f)" "sharemem_do env ev s = Done s'" "sharemem_allowed ev s"
  shows "f < length (sharemem_procs s') \<and> mmap_mutex (sharemem_procs s' ! f) \<and> pr_tsk (sharemem_procs s' ! f) = pr_tsk (sharemem_procs s ! f)"
proof (cases ev)
  case (Open_by t)
  then show ?thesis
    using assms by (auto simp: sharemem_open_def nth_append split: option.splits prod.splits)
next
  case (Mmap_by gr g t)
  then show ?thesis
    using assms
    by (auto simp: and_then_Done_iff sharemem_mmap_def map_user_space_def Let_def nth_list_update split: if_splits option.splits prod.splits)
next
  case (Read_from g room cnt)
  then show ?thesis
    using assms by (auto simp: and_then_Done_iff sharemem_read_def Let_def nth_list_update split: if_splits prod.splits)
next
  case (Write_to g buf cnt)
  then show ?thesis
    using assms by (auto simp: and_then_Done_iff sharemem_write_def Let_def copy_from_user_def split: if_splits)
qed

lemma locked_run:
  assumes "sharemem_run env s s'" "f < length (sharemem_procs s)" "mmap_mutex (sharemem_procs s ! f)"
  shows "f < length (sharemem_procs s') \<and> mmap_mutex (sharemem_procs s' ! f) \<and> pr_tsk (sharemem_procs s' ! f) = pr_tsk (sharemem_procs s ! f)"
  using assms
proof (induction rule: sharemem_run.induct)
  case (2 s1 ev s2)
  then show ?case
    using locked_do [OF _ _ 2(3,2), of f] by auto
qed auto

section \<open>Properties\<close>

text \<open>The events that crash.\<close>

fun sharemem_unsafe :: "sharemem_event \<Rightarrow> sharemem \<Rightarrow> bool" where
  "sharemem_unsafe (Open_by t) s = False"
| "sharemem_unsafe (Mmap_by gr f t) s =
     (pr_tsk (sharemem_procs s ! f) = t \<and> \<not> mmap_mutex (sharemem_procs s ! f) \<and>
      (if buffer_addr s then \<not> kernel_mapped s else area_granted gr \<and> fst (kmalloc 8 (sm_mem s)) = None))"
| "sharemem_unsafe (Read_from f room cnt) s = (buffer_addr s \<and> \<not> kernel_mapped s)"
| "sharemem_unsafe (Write_to f buf cnt) s = (buffer_addr s \<and> \<not> kernel_mapped s \<and> \<not> mmap_mutex (sharemem_procs s ! f) \<and> 0 < cnt)"


text \<open>A first mapping that fails leaves the mutex of its file locked: whatever happens after, another mapping of the file sleeps
  for ever, and so does a write to it once there is a buffer.\<close>
theorem sharemem_failed_mapping_locks:
  assumes "f < length (sharemem_procs s)" "pr_tsk (sharemem_procs s ! f) = t" "\<not> buffer_addr s"
    "sharemem_mmap gr f t s = Done (Inl e, s1)" "\<not> kernel_mapped s1" "sharemem_run env s1 s2"
  shows "sharemem_mmap gr' f t s2 = Block \<and> (buffer_addr s2 \<longrightarrow> sharemem_write f buf cnt s2 = Block)"
proof -
  have "f < length (sharemem_procs s1) \<and> mmap_mutex (sharemem_procs s1 ! f) \<and> pr_tsk (sharemem_procs s1 ! f) = t"
    using assms(1-5) by (auto simp: sharemem_mmap_def map_user_space_def Let_def split: if_splits option.splits prod.splits)
  then show ?thesis
    using locked_run [OF assms(6), of f] by (auto simp: sharemem_mmap_def sharemem_write_def Let_def)
qed

text \<open>Unloading always crashes: when nothing was mapped there is no array to read the page from, and otherwise the first file's structure is
  read after it was freed.\<close>
theorem sharemem_exit_crashes:
  assumes "sharemem_reach env s"
  shows "\<exists>c. sharemem_exit s = Crash c"
proof (cases "pages_ptr_array s")
  case None
  then show ?thesis
    by (simp add: sharemem_exit_def)
next
  case (Some a)
  then have "rev (sharemem_procs s) \<noteq> []"
    using reach_ok [OF assms] by (simp add: sharemem_ok_def)
  then obtain p ps where ps: "rev (sharemem_procs s) = p # ps"
    by (cases "rev (sharemem_procs s)") auto
  have "\<exists>c. free_procs (rev (sharemem_procs s)) k = Crash c" for k
    unfolding ps by (simp add: kfree_def split: option.split)
  then show ?thesis
    using Some by (simp add: sharemem_exit_def kfree_def split: option.split) (metis and_then.simps(3))
qed

text \<open>A write of accessible bytes to a mapped device stores the first page of them at the start of the page and keeps the rest of it;
  the result is the whole count, whether or not it was stored.\<close>
theorem sharemem_write_spec:
  assumes "sharemem_reach env s" "kernel_mapped s" "\<not> mmap_mutex (sharemem_procs s ! f)" "0 \<le> cnt" "cnt < 2147483648" "cnt \<le> int (length buf)"
    "n = min (nat cnt) SM_PAGE_SIZE"
  shows "\<exists>page. the_page s = Some page \<and> length page = SM_PAGE_SIZE \<and>
    sharemem_write f buf cnt s = Done (Inr cnt, s\<lparr>the_page := Some (map Some (take n buf) @ drop n page)\<rparr>)"
proof -
  obtain page where page: "the_page s = Some page" "length page = SM_PAGE_SIZE" "buffer_addr s"
    using reach_ok [OF assms(1)] assms(2) by (auto simp: sharemem_ok_def)
  have "nat (min cnt (int SM_PAGE_SIZE)) = n" "n \<le> length buf"
    using assms(4,6,7) by auto
  then show ?thesis
    using page assms(2-5) by (simp add: sharemem_write_def Let_def copy_from_user_def s32_id)
qed

text \<open>Two reads of parts of the name both start at its beginning.\<close>
theorem sharemem_reads_repeat:
  assumes "f < length (sharemem_procs s)" "\<not> buffer_addr s" "name = comm env (pr_tsk (sharemem_procs s ! f))"
    "namelen (sharemem_procs s ! f) = int (length name)" "a + b \<le> length name" "length name \<le> room"
  shows "\<exists>s1 s2. sharemem_read env f room (int a) s = Done (Inr (int a), map Some (take a name), s1) \<and>
    sharemem_read env f room (int b) s1 = Done (Inr (int b), map Some (take b name), s2)"
  using assms by (simp add: sharemem_read_def Let_def copy_to_user_def)

section \<open>Examples\<close>

definition some_sharemem_env :: sharemem_env where
  "some_sharemem_env = \<lparr>proc_bytes = 112, comm = (\<lambda>_. [82, 101, 97, 100])\<rparr>"

definition all_granted :: grants where
  "all_granted = \<lparr>area_granted = True, page_granted = True, map_error = None, insert_error = None\<rparr>"

definition no_page :: grants where
  "no_page = \<lparr>area_granted = True, page_granted = False, map_error = None, insert_error = None\<rparr>"

definition sm_loaded :: sharemem where
  "sm_loaded = snd (sharemem_init None fresh_kmem)"

definition sm_opened :: sharemem where
  "sm_opened = snd (sharemem_open some_sharemem_env 7 sm_loaded)"

lemmas sm_eval = some_sharemem_env_def all_granted_def no_page_def sm_loaded_def sm_opened_def sharemem_init_def sharemem_open_def
  sharemem_mmap_def map_user_space_def Let_def set_proc_def kmalloc_def fresh_kmem_def u64_def

lemma opened_run: "sharemem_run some_sharemem_env sm_loaded sm_opened"
  using sharemem_run.intros(2) [OF sharemem_run.intros(1), of "Open_by 7"] by (simp add: sm_opened_def)

lemma opened_reach: "sharemem_reach some_sharemem_env sm_opened"
  using opened_run by (auto simp: sharemem_reach_def sm_loaded_def)

lemma mmap_reach:
  assumes "sharemem_mmap gr 0 7 sm_opened = Done (r, s)"
  shows "sharemem_reach some_sharemem_env s"
proof -
  have "sharemem_run some_sharemem_env sm_loaded s"
    by (rule sharemem_run.intros(2) [OF opened_run, of "Mmap_by gr 0 7"]) (use assms in \<open>simp_all add: sm_eval\<close>)
  then show ?thesis
    by (auto simp: sharemem_reach_def sm_loaded_def)
qed

lemma failed_mmap:
  obtains s where "sharemem_mmap no_page 0 7 sm_opened = Done (Inl ENOMEM, s)" "buffer_addr s" "\<not> kernel_mapped s" "length (sharemem_procs s) = 1"
  by (simp add: sm_eval)

lemma good_mmap:
  obtains s where "sharemem_mmap all_granted 0 7 sm_opened = Done (Inr 0, s)" "kernel_mapped s" "\<not> mmap_mutex (sharemem_procs s ! 0)"
  by (simp add: sm_eval)


theorem sharemem_failed_mapping_locks_witness:
  "\<exists>s. sharemem_mmap no_page 0 7 sm_opened = Done (Inl ENOMEM, s) \<and> sharemem_mmap all_granted 0 7 s = Block"
proof -
  obtain s where s: "sharemem_mmap no_page 0 7 sm_opened = Done (Inl ENOMEM, s)" "\<not> kernel_mapped s"
    by (rule failed_mmap)
  have "sharemem_mmap all_granted 0 7 s = Block \<and> (buffer_addr s \<longrightarrow> sharemem_write 0 [] 0 s = Block)"
    by (rule sharemem_failed_mapping_locks [OF _ _ _ s(1) s(2) sharemem_run.intros(1)]) (simp_all add: sm_eval)
  then show ?thesis
    using s(1) by blast
qed

theorem sharemem_exit_crashes_witness: "\<exists>c. sharemem_exit sm_opened = Crash c"
  by (rule sharemem_exit_crashes [OF opened_reach])

theorem sharemem_write_spec_witness:
  "\<exists>s page. sharemem_mmap all_granted 0 7 sm_opened = Done (Inr 0, s) \<and> sharemem_write 0 (replicate 5000 1) 5000 s =
    Done (Inr 5000, s\<lparr>the_page := Some (map Some (take 4096 (replicate 5000 1)) @ drop 4096 page)\<rparr>)"
proof -
  obtain s where s: "sharemem_mmap all_granted 0 7 sm_opened = Done (Inr 0, s)" "kernel_mapped s" "\<not> mmap_mutex (sharemem_procs s ! 0)"
    by (rule good_mmap)
  have "\<exists>page. the_page s = Some page \<and> length page = SM_PAGE_SIZE \<and> sharemem_write 0 (replicate 5000 1) 5000 s =
    Done (Inr 5000, s\<lparr>the_page := Some (map Some (take 4096 (replicate 5000 1)) @ drop 4096 page)\<rparr>)"
    by (rule sharemem_write_spec [OF mmap_reach [OF s(1)] s(2,3)]) (simp_all add: SM_PAGE_SIZE_def)
  then show ?thesis
    using s(1) by blast
qed

theorem sharemem_reads_repeat_witness:
  "\<exists>s1 s2. sharemem_read some_sharemem_env 0 4 (int 2) sm_opened = Done (Inr (int 2), map Some (take 2 [82, 101, 97, 100]), s1) \<and>
    sharemem_read some_sharemem_env 0 4 (int 2) s1 = Done (Inr (int 2), map Some (take 2 [82, 101, 97, 100]), s2)"
  by (rule sharemem_reads_repeat) (simp_all add: sm_eval)

end
