(* ===== verification/Rcu_Reclaim.thy ===== *)
theory Rcu_Reclaim
  imports Kernel_Prelude
begin

text \<open>
  Deferred reclamation (rcu.hpp of Utils) with the program that uses it (test/rcu_test.cpp): readers take the shared pointer
  between \<open>lock\<close> and \<open>unlock\<close>, a writer replaces the object it points to and puts the old one on a list, and a third
  kind of thread waits for the readers and deletes what is on the list. A step is one atomic operation; the threads are interleaved
  freely, and the atomic operations of all threads are taken to happen in one order.
\<close>

section \<open>State\<close>

definition NoRCURead :: int where "NoRCURead = 0"

text \<open>Where a reader is: before its registration; outside of a critical section; in \<open>lock\<close> with the version
  loaded; behind \<open>lock\<close>; with the pointer; and before the end of \<open>unlock\<close>.\<close>

datatype reader_pc = Unregistered | Outside | Locking int | Entered | Using nat | Leaving

record rcu_reader =
  rd_pc :: reader_pc
  CurrentVersionPerThread :: int

text \<open>Where the writer is: it makes an object, copies the shared one, loads the old pointer, stores the new one, and
  takes the mutex to put the old one on the list.\<close>

datatype writer_pc = W_start | W_new nat | W_copied nat | W_loaded nat nat | W_stored nat | W_push nat

text \<open>Where the freeing thread is: it looks at the size of the list, adds to the version, scans the versions of the readers
  from index \<open>i\<close> on with the least one so far, and deletes.\<close>

datatype freer_pc = F_start | F_check | F_wait | F_scan int nat int | F_delete

datatype node_owner = Nobody | By_writer | By_freer

text \<open>Objects are numbered in the order they are made. \<open>rcu_torn\<close>: a reader has changed the vector of the versions while
  it was scanned. \<open>rcu_waits\<close> counts the calls of \<open>wait\<close>.\<close>

record rcu =
  GlobalVersion :: int
  ContainerOfVersion :: "nat list"
  rcu_readers :: "rcu_reader list"
  gObjPtr :: nat
  next_obj :: nat
  deleted :: "nat list"
  FreeObjList :: "nat list"
  lock_for_node :: node_owner
  rcu_writer :: writer_pc
  rcu_freer :: freer_pc
  rcu_torn :: bool
  rcu_waits :: nat

definition rcu_start :: "nat \<Rightarrow> rcu" where
  "rcu_start n = \<lparr>GlobalVersion = 1, ContainerOfVersion = [],
     rcu_readers = replicate n \<lparr>rd_pc = Unregistered, CurrentVersionPerThread = 0\<rparr>, gObjPtr = 0, next_obj = 1, deleted = [],
     FreeObjList = [], lock_for_node = Nobody, rcu_writer = W_start, rcu_freer = F_start, rcu_torn = False, rcu_waits = 0\<rparr>"

definition on_reader :: "nat \<Rightarrow> reader_pc \<Rightarrow> int \<Rightarrow> rcu \<Rightarrow> rcu" where
  "on_reader i pc v s = s\<lparr>rcu_readers := (rcu_readers s)[i := \<lparr>rd_pc = pc, CurrentVersionPerThread = v\<rparr>]\<rparr>"

definition access_obj :: "nat \<Rightarrow> rcu \<Rightarrow> rcu outcome" where
  "access_obj p s = (if p \<in> set (deleted s) then Crash Out_of_bounds else Done s)"

definition delete_obj :: "nat \<Rightarrow> rcu \<Rightarrow> rcu outcome" where
  "delete_obj p s = (if p \<in> set (deleted s) then Crash Bad_free else Done (s\<lparr>deleted := p # deleted s\<rparr>))"

definition scanning :: "rcu \<Rightarrow> bool" where
  "scanning s = (case rcu_freer s of F_scan _ _ _ \<Rightarrow> True | _ \<Rightarrow> False)"

section \<open>Steps\<close>

text \<open>\<open>RegisterVersion\<close>, \<open>lock\<close>, the use of the pointer, \<open>unlock\<close>.\<close>

definition RegisterVersion :: "nat \<Rightarrow> rcu \<Rightarrow> rcu" where
  "RegisterVersion i s =
     on_reader i Outside (CurrentVersionPerThread (rcu_readers s ! i))
       (s\<lparr>ContainerOfVersion := ContainerOfVersion s @ [i], rcu_torn := rcu_torn s \<or> scanning s\<rparr>)"

definition reader_step :: "nat \<Rightarrow> rcu \<Rightarrow> rcu outcome" where
  "reader_step i s =
     (let v = CurrentVersionPerThread (rcu_readers s ! i) in
      case rd_pc (rcu_readers s ! i) of
        Unregistered \<Rightarrow> Done (RegisterVersion i s)
      | Outside \<Rightarrow> Done (on_reader i (Locking (GlobalVersion s)) v s)
      | Locking g \<Rightarrow> Done (on_reader i Entered g s)
      | Entered \<Rightarrow> Done (on_reader i (Using (gObjPtr s)) v s)
      | Using p \<Rightarrow> and_then (access_obj p s) (\<lambda>s. Done (on_reader i Leaving v s))
      | Leaving \<Rightarrow> Done (on_reader i Outside NoRCURead s))"

definition WriteFunc_step :: "rcu \<Rightarrow> rcu outcome" where
  "WriteFunc_step s =
     (case rcu_writer s of
        W_start \<Rightarrow> Done (s\<lparr>next_obj := Suc (next_obj s), rcu_writer := W_new (next_obj s)\<rparr>)
      | W_new tmp \<Rightarrow> and_then (access_obj (gObjPtr s) s) (\<lambda>s. Done (s\<lparr>rcu_writer := W_copied tmp\<rparr>))
      | W_copied tmp \<Rightarrow> Done (s\<lparr>rcu_writer := W_loaded tmp (gObjPtr s)\<rparr>)
      | W_loaded tmp old \<Rightarrow> Done (s\<lparr>gObjPtr := tmp, rcu_writer := W_stored old\<rparr>)
      | W_stored old \<Rightarrow>
          Done (if lock_for_node s = Nobody then s\<lparr>lock_for_node := By_writer, rcu_writer := W_push old\<rparr> else s)
      | W_push old \<Rightarrow> Done (s\<lparr>FreeObjList := FreeObjList s @ [old], lock_for_node := Nobody, rcu_writer := W_start\<rparr>))"

text \<open>\<open>wait\<close>: a turn of the inner loop, and its end.\<close>

definition scan_step :: "int \<Rightarrow> nat \<Rightarrow> int \<Rightarrow> rcu \<Rightarrow> rcu" where
  "scan_step tmp i least s =
     (if i < length (ContainerOfVersion s)
      then let version = CurrentVersionPerThread (rcu_readers s ! (ContainerOfVersion s ! i))
           in s\<lparr>rcu_freer := F_scan tmp (Suc i) (if version \<noteq> NoRCURead then min least version else least)\<rparr>
      else if least > tmp then s\<lparr>rcu_freer := F_delete\<rparr>
      else s\<lparr>rcu_freer := F_scan tmp 0 (u64 (tmp + 1))\<rparr>)"

definition FreeFunc_step :: "rcu \<Rightarrow> rcu outcome" where
  "FreeFunc_step s =
     (case rcu_freer s of
        F_start \<Rightarrow> Done (if lock_for_node s = Nobody then s\<lparr>lock_for_node := By_freer, rcu_freer := F_check\<rparr> else s)
      | F_check \<Rightarrow>
          Done (if length (FreeObjList s) < 15 then s\<lparr>lock_for_node := Nobody, rcu_freer := F_start\<rparr>
            else s\<lparr>rcu_freer := F_wait\<rparr>)
      | F_wait \<Rightarrow>
          Done (s\<lparr>GlobalVersion := u64 (GlobalVersion s + 1), rcu_waits := Suc (rcu_waits s),
            rcu_freer := F_scan (GlobalVersion s) 0 (u64 (GlobalVersion s + 1))\<rparr>)
      | F_scan tmp i least \<Rightarrow> Done (scan_step tmp i least s)
      | F_delete \<Rightarrow>
          (if FreeObjList s = [] then Done (s\<lparr>lock_for_node := Nobody, rcu_freer := F_start\<rparr>)
           else and_then (delete_obj (last (FreeObjList s)) s) (\<lambda>s. Done (s\<lparr>FreeObjList := butlast (FreeObjList s)\<rparr>))))"

datatype rcu_thread = Reader_thread nat | Writer_thread | Freer_thread

fun rcu_step :: "rcu_thread \<Rightarrow> rcu \<Rightarrow> rcu outcome" where
  "rcu_step (Reader_thread i) s = (if i < length (rcu_readers s) then reader_step i s else Done s)"
| "rcu_step Writer_thread s = WriteFunc_step s"
| "rcu_step Freer_thread s = FreeFunc_step s"

inductive rcu_reach :: "nat \<Rightarrow> rcu \<Rightarrow> bool" for n where
  "rcu_reach n (rcu_start n)"
| "rcu_reach n s \<Longrightarrow> rcu_step th s = Done s' \<Longrightarrow> rcu_reach n s'"

section \<open>The invariant\<close>

text \<open>The objects that are out of reach of new readers and not deleted: on the list, or on the way to it.\<close>

definition in_hand :: "rcu \<Rightarrow> nat list" where
  "in_hand s = (case rcu_writer s of W_stored old \<Rightarrow> [old] | W_push old \<Rightarrow> [old] | _ \<Rightarrow> [])"

definition fresh_obj :: "rcu \<Rightarrow> nat list" where
  "fresh_obj s = (case rcu_writer s of W_new t \<Rightarrow> [t] | W_copied t \<Rightarrow> [t] | W_loaded t old \<Rightarrow> [t] | _ \<Rightarrow> [])"

definition objects_ok :: "rcu \<Rightarrow> bool" where
  "objects_ok s \<longleftrightarrow> distinct (gObjPtr s # fresh_obj s @ in_hand s @ FreeObjList s @ deleted s) \<and>
     list_all (\<lambda>p. p < next_obj s) (gObjPtr s # fresh_obj s @ in_hand s @ FreeObjList s @ deleted s) \<and>
     (\<forall>t old. rcu_writer s = W_loaded t old \<longrightarrow> old = gObjPtr s)"

definition locks_ok :: "rcu \<Rightarrow> bool" where
  "locks_ok s \<longleftrightarrow> (lock_for_node s = By_writer \<longleftrightarrow> (\<exists>old. rcu_writer s = W_push old)) \<and>
     (lock_for_node s = By_freer \<longleftrightarrow> rcu_freer s \<noteq> F_start)"

text \<open>A reader's version, and what is known of it while the freeing thread waits for it.\<close>

definition inside :: "reader_pc \<Rightarrow> bool" where
  "inside pc \<longleftrightarrow> (case pc of Entered \<Rightarrow> True | Using p \<Rightarrow> True | Leaving \<Rightarrow> True | _ \<Rightarrow> False)"

definition version_ok :: "rcu \<Rightarrow> rcu_reader \<Rightarrow> bool" where
  "version_ok s r \<longleftrightarrow>
     (if inside (rd_pc r) then 0 < CurrentVersionPerThread r \<and> CurrentVersionPerThread r \<le> GlobalVersion s
      else CurrentVersionPerThread r = NoRCURead) \<and>
     (\<forall>g. rd_pc r = Locking g \<longrightarrow> 0 < g \<and> g \<le> GlobalVersion s)"

definition use_ok :: "rcu \<Rightarrow> nat \<Rightarrow> bool" where
  "use_ok s i \<longleftrightarrow> (\<forall>p. rd_pc (rcu_readers s ! i) = Using p \<longrightarrow> p < next_obj s \<and> p \<notin> set (deleted s) \<and> p \<notin> set (fresh_obj s) \<and>
     (p \<in> set (FreeObjList s) \<longrightarrow>
        (case rcu_freer s of
           F_scan tmp k least \<Rightarrow> CurrentVersionPerThread (rcu_readers s ! i) \<le> tmp \<and>
             (i \<in> set (take k (ContainerOfVersion s)) \<longrightarrow> least \<le> tmp)
         | F_delete \<Rightarrow> False
         | _ \<Rightarrow> True)))"

definition scan_ok :: "rcu \<Rightarrow> bool" where
  "scan_ok s \<longleftrightarrow> (\<forall>tmp k least. rcu_freer s = F_scan tmp k least \<longrightarrow> GlobalVersion s = tmp + 1 \<and> k \<le> length (ContainerOfVersion s))"

definition rcu_inv :: "nat \<Rightarrow> rcu \<Rightarrow> bool" where
  "rcu_inv n s \<longleftrightarrow> length (rcu_readers s) = n \<and> GlobalVersion s = 1 + int (rcu_waits s) \<and> objects_ok s \<and> locks_ok s \<and> scan_ok s \<and>
     (\<forall>i < n. version_ok s (rcu_readers s ! i) \<and> use_ok s i) \<and>
     (\<forall>i < n. rd_pc (rcu_readers s ! i) \<noteq> Unregistered \<longrightarrow> i \<in> set (ContainerOfVersion s)) \<and>
     set (ContainerOfVersion s) \<subseteq> {..<n}"

lemma on_reader_simps [simp]:
  "GlobalVersion (on_reader i pc v s) = GlobalVersion s" "ContainerOfVersion (on_reader i pc v s) = ContainerOfVersion s"
  "gObjPtr (on_reader i pc v s) = gObjPtr s" "next_obj (on_reader i pc v s) = next_obj s" "deleted (on_reader i pc v s) = deleted s"
  "FreeObjList (on_reader i pc v s) = FreeObjList s" "lock_for_node (on_reader i pc v s) = lock_for_node s"
  "rcu_writer (on_reader i pc v s) = rcu_writer s" "rcu_freer (on_reader i pc v s) = rcu_freer s" "rcu_torn (on_reader i pc v s) = rcu_torn s"
  "rcu_waits (on_reader i pc v s) = rcu_waits s" "length (rcu_readers (on_reader i pc v s)) = length (rcu_readers s)"
  "i < length (rcu_readers s) \<Longrightarrow> rcu_readers (on_reader i pc v s) ! i = \<lparr>rd_pc = pc, CurrentVersionPerThread = v\<rparr>"
  "j \<noteq> i \<Longrightarrow> rcu_readers (on_reader i pc v s) ! j = rcu_readers s ! j"
  by (simp_all add: on_reader_def)

lemma on_reader_same [simp]:
  "objects_ok (on_reader i pc v s) = objects_ok s" "locks_ok (on_reader i pc v s) = locks_ok s" "scan_ok (on_reader i pc v s) = scan_ok s"
  "version_ok (on_reader i pc v s) = version_ok s" "j \<noteq> i \<Longrightarrow> use_ok (on_reader i pc v s) j = use_ok s j"
  by (simp_all add: objects_ok_def locks_ok_def scan_ok_def version_ok_def use_ok_def fresh_obj_def in_hand_def fun_eq_iff split: freer_pc.split)

lemma on_reader_inv:
  assumes "rcu_inv n s" "i < n" "version_ok s \<lparr>rd_pc = pc, CurrentVersionPerThread = v\<rparr>" "use_ok (on_reader i pc v s) i"
    "pc \<noteq> Unregistered \<Longrightarrow> i \<in> set (ContainerOfVersion s)"
  shows "rcu_inv n (on_reader i pc v s)"
proof -
  have "version_ok s (rcu_readers (on_reader i pc v s) ! j) \<and> use_ok (on_reader i pc v s) j" if "j < n" for j
    using assms that by (cases "j = i") (simp_all add: rcu_inv_def)
  moreover have "j \<in> set (ContainerOfVersion s)" if "j < n" "rd_pc (rcu_readers (on_reader i pc v s) ! j) \<noteq> Unregistered" for j
    using assms that by (cases "j = i") (simp_all add: rcu_inv_def)
  ultimately show ?thesis
    using assms(1) by (simp add: rcu_inv_def)
qed

lemma use_ok_trivial: "i < length (rcu_readers s) \<Longrightarrow> (\<And>p. pc \<noteq> Using p) \<Longrightarrow> use_ok (on_reader i pc v s) i"
  by (simp add: use_ok_def)

lemma reader_access:
  assumes "rcu_inv n s" "i < n" "rd_pc (rcu_readers s ! i) = Using p"
  shows "p \<notin> set (deleted s)"
  using assms by (auto simp: rcu_inv_def use_ok_def)

lemma reader_step_inv:
  assumes inv: "rcu_inv n s" and i: "i < n" and st: "reader_step i s = Done s'" and torn: "\<not> rcu_torn s'"
  shows "rcu_inv n s'"
proof -
  let ?r = "rcu_readers s ! i"
  have len: "i < length (rcu_readers s)" and ver: "version_ok s ?r" and use: "use_ok s i"
    and reg: "rd_pc ?r \<noteq> Unregistered \<Longrightarrow> i \<in> set (ContainerOfVersion s)" and gv: "GlobalVersion s > 0"
    using inv i by (simp_all add: rcu_inv_def)
  show ?thesis
  proof (cases "rd_pc ?r")
    case Unregistered
    let ?s = "s\<lparr>ContainerOfVersion := ContainerOfVersion s @ [i], rcu_torn := rcu_torn s \<or> scanning s\<rparr>"
    have s': "s' = on_reader i Outside (CurrentVersionPerThread ?r) ?s"
      using st Unregistered by (simp add: reader_step_def RegisterVersion_def)
    then have "\<not> scanning s"
      using torn by simp
    then have "use_ok ?s j" if "j < n" for j
      using inv that by (auto simp: rcu_inv_def use_ok_def scanning_def fresh_obj_def split: freer_pc.splits)
    then have inv': "rcu_inv n ?s"
      using inv i \<open>\<not> scanning s\<close>
      by (auto simp: rcu_inv_def objects_ok_def locks_ok_def scan_ok_def version_ok_def fresh_obj_def in_hand_def scanning_def)
    show ?thesis
      unfolding s' by (rule on_reader_inv [OF inv' i]) (use ver Unregistered len in \<open>simp_all add: version_ok_def inside_def use_ok_def\<close>)
  next
    case Outside
    then show ?thesis
      using st ver len reg gv by (auto simp: reader_step_def Let_def version_ok_def inside_def intro!: on_reader_inv [OF inv i] use_ok_trivial)
  next
    case (Locking g)
    then show ?thesis
      using st ver len reg by (auto simp: reader_step_def Let_def version_ok_def inside_def intro!: on_reader_inv [OF inv i] use_ok_trivial)
  next
    case Entered
    have "use_ok (on_reader i (Using (gObjPtr s)) (CurrentVersionPerThread ?r) s) i"
      using inv len by (auto simp: rcu_inv_def use_ok_def objects_ok_def fresh_obj_def split: writer_pc.splits)
    then show ?thesis
      using st ver len reg Entered by (auto simp: reader_step_def Let_def version_ok_def inside_def intro!: on_reader_inv [OF inv i])
  next
    case (Using p)
    then show ?thesis
      using st ver len reg reader_access [OF inv i Using]
      by (auto simp: reader_step_def Let_def version_ok_def inside_def access_obj_def intro!: on_reader_inv [OF inv i] use_ok_trivial)
  next
    case Leaving
    then show ?thesis
      using st ver len reg by (auto simp: reader_step_def Let_def version_ok_def inside_def intro!: on_reader_inv [OF inv i] use_ok_trivial)
  qed
qed

lemma use_ok_mono:
  assumes "use_ok s i" "rcu_readers s' = rcu_readers s" "next_obj s \<le> next_obj s'" "deleted s' = deleted s" "rcu_freer s' = rcu_freer s"
    "ContainerOfVersion s' = ContainerOfVersion s" "FreeObjList s' = FreeObjList s \<or> rcu_freer s = F_start"
    "set (fresh_obj s') \<subseteq> set (fresh_obj s) \<union> {next_obj s..}"
  shows "use_ok s' i"
proof -
  have "p \<notin> set (fresh_obj s')" if "p \<notin> set (fresh_obj s)" "p < next_obj s" for p
    using assms(8) that by auto
  then show ?thesis
    using assms(1-7) unfolding use_ok_def by (fastforce split: freer_pc.split)
qed

lemma WriteFunc_step_inv:
  assumes inv: "rcu_inv n s" and st: "WriteFunc_step s = Done s'"
  shows "rcu_inv n s'"
proof -
  have o: "objects_ok s" and l: "locks_ok s" and sc: "scan_ok s" and use: "\<And>i. i < n \<Longrightarrow> use_ok s i"
    using inv by (simp_all add: rcu_inv_def)
  have keep: "rcu_inv n s'" if "objects_ok s'" "locks_ok s'" "set (fresh_obj s') \<subseteq> set (fresh_obj s) \<union> {next_obj s..}"
    "GlobalVersion s' = GlobalVersion s" "rcu_readers s' = rcu_readers s" "ContainerOfVersion s' = ContainerOfVersion s" "rcu_waits s' = rcu_waits s"
    "next_obj s \<le> next_obj s'" "deleted s' = deleted s" "rcu_freer s' = rcu_freer s" "FreeObjList s' = FreeObjList s \<or> rcu_freer s = F_start"
  proof -
    have "version_ok s' = version_ok s" "scan_ok s'"
      using that(4,6,10) sc by (simp_all add: version_ok_def scan_ok_def fun_eq_iff)
    moreover have "use_ok s' i" if "i < n" for i
      by (rule use_ok_mono [OF use [OF that]]) (use \<open>rcu_readers s' = rcu_readers s\<close> \<open>next_obj s \<le> next_obj s'\<close> \<open>deleted s' = deleted s\<close>
        \<open>rcu_freer s' = rcu_freer s\<close> \<open>ContainerOfVersion s' = ContainerOfVersion s\<close> \<open>FreeObjList s' = FreeObjList s \<or> rcu_freer s = F_start\<close>
        \<open>set (fresh_obj s') \<subseteq> set (fresh_obj s) \<union> {next_obj s..}\<close> in auto)
    ultimately show ?thesis
      using inv that by (simp add: rcu_inv_def)
  qed
  show ?thesis
  proof (cases "rcu_writer s")
    case W_start
    then have s': "s' = s\<lparr>next_obj := Suc (next_obj s), rcu_writer := W_new (next_obj s)\<rparr>"
      using st by (simp add: WriteFunc_step_def)
    show ?thesis
      using o l W_start by (intro keep) (auto simp: s' objects_ok_def locks_ok_def fresh_obj_def in_hand_def list_all_iff intro!: less_SucI)
  next
    case (W_new tmp)
    then have s': "s' = s\<lparr>rcu_writer := W_copied tmp\<rparr>"
      using st by (auto simp: WriteFunc_step_def access_obj_def split: if_splits)
    show ?thesis
      using o l W_new by (intro keep) (auto simp: s' objects_ok_def locks_ok_def fresh_obj_def in_hand_def)
  next
    case (W_copied tmp)
    then have s': "s' = s\<lparr>rcu_writer := W_loaded tmp (gObjPtr s)\<rparr>"
      using st by (auto simp: WriteFunc_step_def)
    show ?thesis
      using o l W_copied by (intro keep) (auto simp: s' objects_ok_def locks_ok_def fresh_obj_def in_hand_def)
  next
    case (W_loaded tmp old)
    then have s': "s' = s\<lparr>gObjPtr := tmp, rcu_writer := W_stored old\<rparr>"
      using st by (auto simp: WriteFunc_step_def)
    show ?thesis
      using o l W_loaded by (intro keep) (auto simp: s' objects_ok_def locks_ok_def fresh_obj_def in_hand_def)
  next
    case (W_stored old)
    show ?thesis
    proof (cases "lock_for_node s = Nobody")
      case True
      then have s': "s' = s\<lparr>lock_for_node := By_writer, rcu_writer := W_push old\<rparr>"
        using st W_stored by (auto simp: WriteFunc_step_def)
      show ?thesis
        using o l W_stored True by (intro keep) (auto simp: s' objects_ok_def locks_ok_def fresh_obj_def in_hand_def)
    next
      case False
      then show ?thesis
        using st W_stored inv by (simp add: WriteFunc_step_def)
    qed
  next
    case (W_push old)
    then have s': "s' = s\<lparr>FreeObjList := FreeObjList s @ [old], lock_for_node := Nobody, rcu_writer := W_start\<rparr>"
      using st by (auto simp: WriteFunc_step_def)
    have "rcu_freer s = F_start"
      using l W_push by (auto simp: locks_ok_def)
    then show ?thesis
      using o l W_push by (intro keep) (auto simp: s' objects_ok_def locks_ok_def fresh_obj_def in_hand_def)
  qed
qed

lemma writer_access:
  assumes "rcu_inv n s"
  shows "gObjPtr s \<notin> set (deleted s)"
  using assms by (simp add: rcu_inv_def objects_ok_def)

lemma set_take_Suc: "k < length xs \<Longrightarrow> set (take (Suc k) xs) = insert (xs ! k) (set (take k xs))"
  by (simp add: take_Suc_conv_app_nth)

lemma FreeFunc_step_inv:
  assumes inv: "rcu_inv n s" and st: "FreeFunc_step s = Done s'" and w: "rcu_waits s' < 18446744073709551615"
  shows "rcu_inv n s'"
proof -
  have keep: "rcu_inv n s'" if "objects_ok s'" "locks_ok s'" "scan_ok s'" "\<And>i. i < n \<Longrightarrow> use_ok s' i" "\<And>i. i < n \<Longrightarrow> version_ok s' (rcu_readers s ! i)"
    "GlobalVersion s' = 1 + int (rcu_waits s')" "rcu_readers s' = rcu_readers s" "ContainerOfVersion s' = ContainerOfVersion s"
    using inv that by (simp add: rcu_inv_def)
  show ?thesis
  proof (cases "rcu_freer s")
    case F_start
    show ?thesis
    proof (cases "lock_for_node s = Nobody")
      case True
      then have s': "s' = s\<lparr>lock_for_node := By_freer, rcu_freer := F_check\<rparr>"
        using st F_start by (simp add: FreeFunc_step_def)
      show ?thesis
        unfolding s' using inv F_start True
        by (intro keep [unfolded s'])
          (auto simp: rcu_inv_def objects_ok_def locks_ok_def scan_ok_def use_ok_def version_ok_def fresh_obj_def in_hand_def)
    next
      case False
      then have "s' = s"
        using st F_start by (simp add: FreeFunc_step_def)
      with inv show ?thesis by simp
    qed
  next
    case F_check
    show ?thesis
    proof (cases "length (FreeObjList s) < 15")
      case True
      then have s': "s' = s\<lparr>lock_for_node := Nobody, rcu_freer := F_start\<rparr>"
        using st F_check by (simp add: FreeFunc_step_def)
      show ?thesis
        unfolding s' using inv F_check
        by (intro keep [unfolded s'])
          (auto simp: rcu_inv_def objects_ok_def locks_ok_def scan_ok_def use_ok_def version_ok_def fresh_obj_def in_hand_def)
    next
      case False
      then have s': "s' = s\<lparr>rcu_freer := F_wait\<rparr>"
        using st F_check by (simp add: FreeFunc_step_def)
      show ?thesis
        unfolding s' using inv F_check
        by (intro keep [unfolded s'])
          (auto simp: rcu_inv_def objects_ok_def locks_ok_def scan_ok_def use_ok_def version_ok_def fresh_obj_def in_hand_def)
    qed
  next
    case F_wait
    then have s1: "s' = s\<lparr>GlobalVersion := u64 (GlobalVersion s + 1), rcu_waits := Suc (rcu_waits s),
            rcu_freer := F_scan (GlobalVersion s) 0 (u64 (GlobalVersion s + 1))\<rparr>"
      using st by (simp add: FreeFunc_step_def)
    have gv: "GlobalVersion s = 1 + int (rcu_waits s)"
      using inv by (simp add: rcu_inv_def)
    then have "u64 (GlobalVersion s + 1) = GlobalVersion s + 1"
      using w s1 by (intro u64_id) simp_all
    then have s': "s' = s\<lparr>GlobalVersion := GlobalVersion s + 1, rcu_waits := Suc (rcu_waits s),
            rcu_freer := F_scan (GlobalVersion s) 0 (GlobalVersion s + 1)\<rparr>"
      using s1 by simp
    have "version_ok s r \<Longrightarrow> version_ok s' r" for r
      by (auto simp: s' version_ok_def)
    moreover have "use_ok s i \<Longrightarrow> version_ok s (rcu_readers s ! i) \<Longrightarrow> use_ok s' i" for i
      using F_wait by (auto simp: s' use_ok_def version_ok_def fresh_obj_def inside_def)
    moreover have "scan_ok s'"
      by (simp add: s' scan_ok_def)
    ultimately show ?thesis
      using inv F_wait gv by (intro keep) (auto simp: rcu_inv_def objects_ok_def locks_ok_def fresh_obj_def in_hand_def s')
  next
    case (F_scan tmp k least)
    have gv: "GlobalVersion s = tmp + 1" "k \<le> length (ContainerOfVersion s)" "tmp \<ge> 0" "tmp < 18446744073709551615"
      using inv F_scan w st by (auto simp: rcu_inv_def scan_ok_def FreeFunc_step_def scan_step_def Let_def split: if_splits)
    have s': "s' = scan_step tmp k least s"
      using st F_scan by (simp add: FreeFunc_step_def)
    have same: "objects_ok s'" "version_ok s' r = version_ok s r" for r
      using inv by (auto simp: s' scan_step_def Let_def rcu_inv_def objects_ok_def version_ok_def fresh_obj_def in_hand_def)
    have "locks_ok s'"
      using inv F_scan by (auto simp: s' scan_step_def Let_def rcu_inv_def locks_ok_def)
    moreover have "scan_ok s'"
      using gv by (auto simp: s' scan_step_def Let_def scan_ok_def)
    moreover have "use_ok s' i" if i: "i < n" for i
    proof -
      have use: "use_ok s i" and ver: "version_ok s (rcu_readers s ! i)"
        and reg: "rd_pc (rcu_readers s ! i) \<noteq> Unregistered \<Longrightarrow> i \<in> set (ContainerOfVersion s)"
        using inv i by (simp_all add: rcu_inv_def)
      consider "k < length (ContainerOfVersion s)" | "k = length (ContainerOfVersion s)" "least > tmp"
        | "k = length (ContainerOfVersion s)" "\<not> least > tmp" using gv(2) by linarith
      then show ?thesis
      proof cases
        case 1
        then show ?thesis
          using use ver F_scan by (auto simp: s' scan_step_def Let_def use_ok_def fresh_obj_def set_take_Suc version_ok_def inside_def NoRCURead_def)
      next
        case 2
        then show ?thesis
          using use reg F_scan by (auto simp: s' scan_step_def use_ok_def fresh_obj_def)
      next
        case 3
        then show ?thesis
          using use F_scan by (auto simp: s' scan_step_def use_ok_def fresh_obj_def)
      qed
    qed
    ultimately show ?thesis
      using inv same by (intro keep) (auto simp: rcu_inv_def s' scan_step_def Let_def)
  next
    case F_delete
    show ?thesis
    proof (cases "FreeObjList s = []")
      case True
      then have s': "s' = s\<lparr>lock_for_node := Nobody, rcu_freer := F_start\<rparr>"
        using st F_delete by (simp add: FreeFunc_step_def)
      show ?thesis
        unfolding s' using inv F_delete True
        by (intro keep [unfolded s'])
          (auto simp: rcu_inv_def objects_ok_def locks_ok_def scan_ok_def use_ok_def version_ok_def fresh_obj_def in_hand_def)
    next
      case False
      then obtain xs p where list: "FreeObjList s = xs @ [p]"
        by (metis rev_exhaust)
      then have s': "s' = s\<lparr>deleted := p # deleted s, FreeObjList := xs\<rparr>"
        using st F_delete by (auto simp: FreeFunc_step_def delete_obj_def split: if_splits)
      have "use_ok s' i" if "i < n" for i
        using inv that F_delete by (auto simp: s' rcu_inv_def use_ok_def fresh_obj_def list)
      then show ?thesis
        using inv F_delete list
        by (intro keep)
          (auto simp: s' rcu_inv_def objects_ok_def locks_ok_def scan_ok_def version_ok_def fresh_obj_def in_hand_def)
    qed
  qed
qed

lemma reader_step_mono:
  assumes "reader_step i s = Done s'"
  shows "rcu_torn s \<Longrightarrow> rcu_torn s'" "rcu_waits s' = rcu_waits s" "length (rcu_readers s') = length (rcu_readers s)"
  using assms by (auto simp: reader_step_def RegisterVersion_def Let_def access_obj_def split: reader_pc.splits if_splits)

lemma WriteFunc_step_mono:
  assumes "WriteFunc_step s = Done s'"
  shows "rcu_torn s' = rcu_torn s" "rcu_waits s' = rcu_waits s" "rcu_readers s' = rcu_readers s"
  using assms by (auto simp: WriteFunc_step_def access_obj_def split: writer_pc.splits if_splits)

lemma FreeFunc_step_mono:
  assumes "FreeFunc_step s = Done s'"
  shows "rcu_torn s' = rcu_torn s" "rcu_waits s \<le> rcu_waits s'" "rcu_readers s' = rcu_readers s"
  using assms by (auto simp: FreeFunc_step_def scan_step_def Let_def delete_obj_def split: freer_pc.splits if_splits)

lemma rcu_step_mono:
  assumes "rcu_step th s = Done s'"
  shows "rcu_torn s \<Longrightarrow> rcu_torn s'" "rcu_waits s \<le> rcu_waits s'"
  using assms reader_step_mono WriteFunc_step_mono FreeFunc_step_mono by (cases th; force split: if_splits)+

lemma rcu_reach_inv:
  assumes "rcu_reach n s" "\<not> rcu_torn s" "rcu_waits s < 18446744073709551615"
  shows "rcu_inv n s"
  using assms
proof induction
  case 1
  then show ?case
    by (simp add: rcu_inv_def rcu_start_def objects_ok_def locks_ok_def scan_ok_def version_ok_def use_ok_def fresh_obj_def in_hand_def
        inside_def NoRCURead_def)
next
  case (2 s th s')
  have inv: "rcu_inv n s"
    using 2 rcu_step_mono [OF 2(2)] by auto
  show ?case
  proof (cases th)
    case (Reader_thread i)
    then show ?thesis
      using 2(2) inv reader_step_inv [OF inv _ _ 2(4)] by (auto simp: rcu_inv_def split: if_splits)
  next
    case Writer_thread
    then show ?thesis
      using 2(2) WriteFunc_step_inv [OF inv] by simp
  next
    case Freer_thread
    then show ?thesis
      using 2(2) FreeFunc_step_inv [OF inv _ 2(5)] by simp
  qed
qed

section \<open>Properties\<close>


primrec freer_run :: "nat \<Rightarrow> rcu \<Rightarrow> rcu outcome" where
  "freer_run 0 s = Done s"
| "freer_run (Suc k) s = and_then (FreeFunc_step s) (freer_run k)"

definition passed :: "int \<Rightarrow> rcu \<Rightarrow> bool" where
  "passed tmp s \<longleftrightarrow> list_all (\<lambda>i. CurrentVersionPerThread (rcu_readers s ! i) = NoRCURead \<or> CurrentVersionPerThread (rcu_readers s ! i) > tmp)
     (ContainerOfVersion s)"

lemma scan_pass:
  assumes "rcu_freer s = F_scan tmp i least" "i \<le> length (ContainerOfVersion s)" "passed tmp s"
  shows "\<exists>s' least'. freer_run (length (ContainerOfVersion s) - i) s = Done s' \<and> rcu_freer s' = F_scan tmp (length (ContainerOfVersion s)) least' \<and>
    (least > tmp \<longrightarrow> least' > tmp) \<and> ContainerOfVersion s' = ContainerOfVersion s \<and> rcu_readers s' = rcu_readers s"
  using assms
proof (induction "length (ContainerOfVersion s) - i" arbitrary: s i least)
  case 0
  then show ?case by simp
next
  case (Suc k)
  let ?v = "CurrentVersionPerThread (rcu_readers s ! (ContainerOfVersion s ! i))"
  let ?s = "s\<lparr>rcu_freer := F_scan tmp (Suc i) (if ?v \<noteq> NoRCURead then min least ?v else least)\<rparr>"
  have i: "i < length (ContainerOfVersion s)"
    using Suc.hyps(2) by simp
  have v: "?v = NoRCURead \<or> ?v > tmp"
    using Suc.prems(3) i by (auto simp: passed_def list_all_length)
  have step: "FreeFunc_step s = Done ?s"
    using Suc.prems(1) i by (simp add: FreeFunc_step_def scan_step_def Let_def)
  have k: "k = length (ContainerOfVersion ?s) - Suc i" and ps: "passed tmp ?s"
    and fr: "rcu_freer ?s = F_scan tmp (Suc i) (if ?v \<noteq> NoRCURead then min least ?v else least)"
    using Suc.hyps(2) Suc.prems(3) by (simp_all add: passed_def)
  obtain s' least' where s': "freer_run (length (ContainerOfVersion ?s) - Suc i) ?s = Done s'"
    "rcu_freer s' = F_scan tmp (length (ContainerOfVersion ?s)) least'"
    "(if ?v \<noteq> NoRCURead then min least ?v else least) > tmp \<longrightarrow> least' > tmp" "ContainerOfVersion s' = ContainerOfVersion ?s"
    "rcu_readers s' = rcu_readers ?s"
    using Suc.hyps(1) [OF k fr _ ps] i by auto
  have "length (ContainerOfVersion s) - i = Suc (length (ContainerOfVersion ?s) - Suc i)"
    using i by simp
  then show ?case
    using s' v step by (intro exI [of _ s'] exI [of _ least']) (auto split: if_splits)
qed

lemma freer_run_add: "freer_run (a + b) s = and_then (freer_run a s) (freer_run b)"
proof (induction a arbitrary: s)
  case (Suc a)
  then have "freer_run (a + b) = (\<lambda>s. and_then (freer_run a s) (freer_run b))"
    by (intro ext)
  then show ?case
    by (simp add: and_then_assoc)
qed simp


section \<open>Witnesses\<close>

fun rcu_run :: "rcu_thread list \<Rightarrow> rcu \<Rightarrow> rcu outcome" where
  "rcu_run [] s = Done s"
| "rcu_run (th # ths) s = and_then (rcu_step th s) (rcu_run ths)"

lemma reach_run: "rcu_reach n s \<Longrightarrow> rcu_run ths s = Done s' \<Longrightarrow> rcu_reach n s'"
  by (induction ths arbitrary: s) (auto simp: and_then_Done_iff intro: rcu_reach.intros)

definition read_and_replace :: "rcu_thread list" where
  "read_and_replace = replicate 4 (Reader_thread 0) @ replicate 6 Writer_thread"

definition fifteen_replaced :: "rcu_thread list" where
  "fifteen_replaced = replicate 90 Writer_thread @ replicate 3 Freer_thread"

lemma some_reader_run:
  obtains s where "rcu_run read_and_replace (rcu_start 1) = Done s" "rd_pc (rcu_readers s ! 0) = Using 0" "FreeObjList s = [0]"
    "\<not> rcu_torn s" "rcu_waits s = 0"
proof -
  have "case rcu_run read_and_replace (rcu_start 1) of Done s \<Rightarrow> rd_pc (rcu_readers s ! 0) = Using 0 \<and> FreeObjList s = [0] \<and> \<not> rcu_torn s \<and> rcu_waits s = 0
    | _ \<Rightarrow> False"
    by code_simp
  then show thesis
    using that by (cases "rcu_run read_and_replace (rcu_start 1)") auto
qed

lemma some_scan_run:
  obtains s where "rcu_run fifteen_replaced (rcu_start 1) = Done s" "rcu_freer s = F_scan 1 0 2" "ContainerOfVersion s = []"
    "\<not> rcu_torn s" "rcu_waits s = 1"
proof -
  have "case rcu_run fifteen_replaced (rcu_start 1) of Done s \<Rightarrow> rcu_freer s = F_scan 1 0 2 \<and> ContainerOfVersion s = [] \<and> \<not> rcu_torn s \<and> rcu_waits s = 1
    | _ \<Rightarrow> False"
    by code_simp
  then show thesis
    using that by (cases "rcu_run fifteen_replaced (rcu_start 1)") auto
qed



end
