(* ===== verification/Spin_Lock.thy ===== *)
theory Spin_Lock
  imports Kernel_Prelude
begin

text \<open>
  The spin locks of Utils (spinlock.hpp) and the program that counts with one (test/spin_lock.cpp). Both locks have the same interface: a request,
  turns of a loop that tries to get the lock, and the release. What the counting threads rely on is stated as a locale, and so is
  the order of service that the ticket lock promises and the other one does not. A step is one atomic operation; the counter itself is a
  plain variable, loaded and stored in two steps.
\<close>

section \<open>The locks\<close>

text \<open>The operations: \<open>lk_request\<close> is what \<open>lock\<close> does before its loop, \<open>lk_attempt\<close> a turn of the loop with the outcome that the
  lock is taken.\<close>

record ('t, 'l) lock_ops =
  lk_start :: 'l
  lk_request :: "'l \<Rightarrow> 't \<times> 'l"
  lk_attempt :: "'t \<Rightarrow> 'l \<Rightarrow> bool \<times> 'l"
  lk_unlock :: "'l \<Rightarrow> 'l"

text \<open>\<open>TICK\<close>: two counters of 32 bits that wrap around.\<close>

record tick_lock =
  mOwner :: int
  mNext :: int

definition tick_request :: "tick_lock \<Rightarrow> int \<times> tick_lock" where
  "tick_request l = (mNext l, l\<lparr>mNext := s32 (mNext l + 1)\<rparr>)"

definition tick_attempt :: "int \<Rightarrow> tick_lock \<Rightarrow> bool \<times> tick_lock" where
  "tick_attempt nextOwner l = (nextOwner = mOwner l, l)"

definition tick_unlock :: "tick_lock \<Rightarrow> tick_lock" where
  "tick_unlock l = l\<lparr>mOwner := s32 (mOwner l + 1)\<rparr>"

definition TICK :: "(int, tick_lock) lock_ops" where
  "TICK = \<lparr>lk_start = \<lparr>mOwner = 0, mNext = 0\<rparr>, lk_request = tick_request, lk_attempt = tick_attempt, lk_unlock = tick_unlock\<rparr>"

text \<open>\<open>WILD\<close>: a flag.\<close>

definition wild_attempt :: "unit \<Rightarrow> bool \<Rightarrow> bool \<times> bool" where
  "wild_attempt t mLock = (\<not> mLock, True)"

definition wild_unlock :: "bool \<Rightarrow> bool" where
  "wild_unlock mLock = False"

definition WILD :: "(unit, bool) lock_ops" where
  "WILD = \<lparr>lk_start = False, lk_request = (\<lambda>mLock. ((), mLock)), lk_attempt = wild_attempt, lk_unlock = wild_unlock\<rparr>"

section \<open>The counting threads\<close>

text \<open>Outside of \<open>lock\<close>; in its loop; with the lock; with the counter loaded; with the new value stored.\<close>

datatype 't count_pc = Idle | Spinning 't | Entered | Loaded int | Stored

record 't count_thread =
  ct_pc :: "'t count_pc"
  ct_left :: nat

text \<open>\<open>arrivals\<close> and \<open>entries\<close> record which threads requested and which got the lock, in order.\<close>

record ('t, 'l) counting =
  ct_threads :: "'t count_thread list"
  gLock :: 'l
  gCount :: int
  arrivals :: "nat list"
  entries :: "nat list"

definition count_start :: "('t, 'l) lock_ops \<Rightarrow> nat \<Rightarrow> nat \<Rightarrow> ('t, 'l) counting" where
  "count_start lk n loops =
     \<lparr>ct_threads = replicate n \<lparr>ct_pc = Idle, ct_left = loops\<rparr>, gLock = lk_start lk, gCount = 0, arrivals = [], entries = []\<rparr>"

definition set_thread :: "nat \<Rightarrow> 't count_pc \<Rightarrow> nat \<Rightarrow> ('t, 'l) counting \<Rightarrow> ('t, 'l) counting" where
  "set_thread i pc left s = s\<lparr>ct_threads := (ct_threads s)[i := \<lparr>ct_pc = pc, ct_left = left\<rparr>]\<rparr>"

definition threadFun_step :: "('t, 'l) lock_ops \<Rightarrow> nat \<Rightarrow> ('t, 'l) counting \<Rightarrow> ('t, 'l) counting" where
  "threadFun_step lk i s =
     (let left = ct_left (ct_threads s ! i) in
      case ct_pc (ct_threads s ! i) of
        Idle \<Rightarrow>
          (case left of
             0 \<Rightarrow> s
           | Suc k \<Rightarrow> (let (t, l) = lk_request lk (gLock s) in set_thread i (Spinning t) k (s\<lparr>gLock := l, arrivals := arrivals s @ [i]\<rparr>)))
      | Spinning t \<Rightarrow>
          (let (got, l) = lk_attempt lk t (gLock s)
           in if got then set_thread i Entered left (s\<lparr>gLock := l, entries := entries s @ [i]\<rparr>) else s\<lparr>gLock := l\<rparr>)
      | Entered \<Rightarrow> set_thread i (Loaded (gCount s)) left s
      | Loaded c \<Rightarrow> set_thread i Stored left (s\<lparr>gCount := u64 (c + 1)\<rparr>)
      | Stored \<Rightarrow> set_thread i Idle left (s\<lparr>gLock := lk_unlock lk (gLock s)\<rparr>))"

inductive count_reach :: "('t, 'l) lock_ops \<Rightarrow> nat \<Rightarrow> nat \<Rightarrow> ('t, 'l) counting \<Rightarrow> bool" for lk n loops where
  "count_reach lk n loops (count_start lk n loops)"
| "count_reach lk n loops s \<Longrightarrow> i < n \<Longrightarrow> count_reach lk n loops (threadFun_step lk i s)"

definition in_section :: "'t count_thread \<Rightarrow> bool" where
  "in_section th \<longleftrightarrow> (case ct_pc th of Idle \<Rightarrow> False | Spinning t \<Rightarrow> False | _ \<Rightarrow> True)"

definition count_finished :: "('t, 'l) counting \<Rightarrow> bool" where
  "count_finished s \<longleftrightarrow> list_all (\<lambda>th. ct_pc th = Idle \<and> ct_left th = 0) (ct_threads s)"

section \<open>What the threads rely on\<close>

definition remove_nth :: "nat \<Rightarrow> 'a list \<Rightarrow> 'a list" where
  "remove_nth k xs = take k xs @ drop (Suc k) xs"

text \<open>\<open>lock_inv l ts held\<close>: the lock is held or not, and \<open>ts\<close> are the tickets of the requests that wait, the oldest
  first. At most \<open>bound\<close> threads may use the lock.\<close>

locale mutual_exclusion =
  fixes lk :: "('t, 'l) lock_ops" and lock_inv :: "'l \<Rightarrow> 't list \<Rightarrow> bool \<Rightarrow> bool" and bound :: nat
  assumes start: "lock_inv (lk_start lk) [] False"
    and request: "lock_inv l ts held \<Longrightarrow> length ts + of_bool held < bound \<Longrightarrow> lk_request lk l = (t, l') \<Longrightarrow> lock_inv l' (ts @ [t]) held"
    and attempt_taken: "lock_inv l ts held \<Longrightarrow> k < length ts \<Longrightarrow> lk_attempt lk (ts ! k) l = (True, l') \<Longrightarrow> \<not> held \<and> lock_inv l' (remove_nth k ts) True"
    and attempt_failed: "lock_inv l ts held \<Longrightarrow> k < length ts \<Longrightarrow> lk_attempt lk (ts ! k) l = (False, l') \<Longrightarrow> lock_inv l' ts held"
    and oldest_served: "lock_inv l (t # ts) False \<Longrightarrow> fst (lk_attempt lk t l)"
    and unlock: "lock_inv l ts True \<Longrightarrow> lock_inv (lk_unlock lk l) ts False"

text \<open>A lock that serves in the order of the requests.\<close>

locale fifo_lock = mutual_exclusion +
  assumes attempt_oldest: "lock_inv l ts held \<Longrightarrow> k < length ts \<Longrightarrow> fst (lk_attempt lk (ts ! k) l) \<Longrightarrow> k = 0"

definition waits_in :: "('t, 'l) counting \<Rightarrow> nat list \<Rightarrow> 't list \<Rightarrow> bool" where
  "waits_in s ws ts \<longleftrightarrow> distinct ws \<and> length ts = length ws \<and> (\<forall>k < length ws. ws ! k < length (ct_threads s) \<and> ct_pc (ct_threads s ! (ws ! k)) = Spinning (ts ! k)) \<and>
     (\<forall>i < length (ct_threads s). (\<exists>t. ct_pc (ct_threads s ! i) = Spinning t) \<longrightarrow> i \<in> set ws)"

text \<open>How many increments a thread has done, of \<open>loops\<close>.\<close>

definition increments :: "nat \<Rightarrow> 't count_thread \<Rightarrow> int" where
  "increments loops th = int loops - int (ct_left th) -
     (case ct_pc th of Spinning t \<Rightarrow> 1 | Entered \<Rightarrow> 1 | Loaded c \<Rightarrow> 1 | _ \<Rightarrow> 0)"

definition counted :: "nat \<Rightarrow> ('t, 'l) counting \<Rightarrow> bool" where
  "counted loops s \<longleftrightarrow> gCount s = u64 (sum_list (map (increments loops) (ct_threads s))) \<and>
     (\<forall>i < length (ct_threads s). \<forall>c. ct_pc (ct_threads s ! i) = Loaded c \<longrightarrow> c = gCount s)"

lemma sum_list_update_int: "i < length xs \<Longrightarrow> sum_list (xs[i := x]) = sum_list xs - xs ! i + (x :: int)"
proof -
  assume i: "i < length xs"
  then have "sum_list xs = sum_list (take i xs @ xs ! i # drop (Suc i) xs)"
    by (simp only: id_take_nth_drop [symmetric])
  then show ?thesis
    using i by (simp add: upd_conv_take_nth_drop)
qed

lemma set_thread_simps [simp]:
  "gLock (set_thread i pc left s) = gLock s" "gCount (set_thread i pc left s) = gCount s" "arrivals (set_thread i pc left s) = arrivals s"
  "entries (set_thread i pc left s) = entries s" "ct_threads (set_thread i pc left s) = (ct_threads s)[i := \<lparr>ct_pc = pc, ct_left = left\<rparr>]"
  by (simp_all add: set_thread_def)

lemma u64_add_u64: "u64 (u64 a + b) = u64 (a + b)"
  by (simp add: u64_def mod_simps)

lemma in_section_simps [simp]:
  "\<not> in_section \<lparr>ct_pc = Idle, ct_left = k\<rparr>" "\<not> in_section \<lparr>ct_pc = Spinning t, ct_left = k\<rparr>" "in_section \<lparr>ct_pc = Entered, ct_left = k\<rparr>"
  "in_section \<lparr>ct_pc = Loaded c, ct_left = k\<rparr>" "in_section \<lparr>ct_pc = Stored, ct_left = k\<rparr>"
  by (simp_all add: in_section_def)

lemma num_zero: "num P xs = 0 \<Longrightarrow> i < length xs \<Longrightarrow> \<not> P (xs ! i)"
  using num_pos [of i xs P] by auto

lemma num_one: "num P xs \<le> 1 \<Longrightarrow> i < length xs \<Longrightarrow> P (xs ! i) \<Longrightarrow> j < length xs \<Longrightarrow> P (xs ! j) \<Longrightarrow> i = j"
proof (rule ccontr)
  assume a: "num P xs \<le> 1" "i < length xs" "P (xs ! i)" "j < length xs" "P (xs ! j)" "i \<noteq> j"
  obtain y where y: "\<not> P y \<or> (\<forall>z. P z)"
    by blast
  show False
  proof (cases "\<forall>z. P z")
    case True
    then have "num P xs = int (length xs)"
      by (simp add: num_def)
    then show False
      using a by linarith
  next
    case False
    then obtain y where "\<not> P y"
      by blast
    then have "num P (xs[i := y]) = num P xs - 1" "0 < num P (xs[i := y])"
      using a num_update [of i xs P y] num_pos [of j "xs[i := y]" P] by simp_all
    then show False
      using a by linarith
  qed
qed

definition count_inv :: "('l \<Rightarrow> 't list \<Rightarrow> bool \<Rightarrow> bool) \<Rightarrow> nat \<Rightarrow> nat \<Rightarrow> nat list \<Rightarrow> ('t, 'l) counting \<Rightarrow> bool" where
  "count_inv lock_inv bound loops ws s \<longleftrightarrow> length (ct_threads s) \<le> bound \<and> counted loops s \<and>
     (\<exists>ts held. waits_in s ws ts \<and> lock_inv (gLock s) ts held \<and> num in_section (ct_threads s) = of_bool held)"

text \<open>What a step does to the waiting threads.\<close>

definition waits_move :: "nat \<Rightarrow> nat list \<Rightarrow> nat list \<Rightarrow> ('t, 'l) counting \<Rightarrow> ('t, 'l) counting \<Rightarrow> bool" where
  "waits_move i ws ws' s s' \<longleftrightarrow>
     arrivals s' = arrivals s @ [i] \<and> entries s' = entries s \<and> ws' = ws @ [i] \<or>
     arrivals s' = arrivals s \<and> entries s' = entries s @ [i] \<and> (\<exists>k < length ws. ws ! k = i \<and> ws' = remove_nth k ws) \<or>
     arrivals s' = arrivals s \<and> entries s' = entries s \<and> ws' = ws"

lemma spinning_outside: "ct_pc th = Spinning t \<Longrightarrow> \<not> in_section th"
  by (simp add: in_section_def)

lemma waits_room:
  assumes "waits_in s ws ts" "i < length (ct_threads s)" "ct_pc (ct_threads s ! i) = Idle" "num in_section (ct_threads s) = of_bool held"
  shows "length ws + of_bool held < length (ct_threads s)"
proof -
  let ?n = "length (ct_threads s)"
  let ?S = "{j. j < ?n \<and> in_section (ct_threads s ! j)}"
  have "int (card ?S) = of_bool held"
    using assms(4) by (simp add: num_def length_filter_conv_card)
  then have S: "card ?S = of_bool held"
    by (cases held) simp_all
  have ws: "set ws \<subseteq> {..<?n}" "set ws \<inter> ?S = {}" "i \<notin> set ws" "i \<notin> ?S" "distinct ws"
    using assms(1,3) by (auto simp: waits_in_def in_set_conv_nth in_section_def)
  have "card (insert i (set ws \<union> ?S)) \<le> card {..<?n}"
    by (rule card_mono) (use ws assms(2) in auto)
  moreover have "card (insert i (set ws \<union> ?S)) = Suc (card (set ws) + card ?S)"
    using ws(2-4) by (simp add: card_Un_disjoint)
  ultimately show ?thesis
    using S ws(5) by (simp add: distinct_card)
qed

lemma waits_other:
  assumes "waits_in s ws ts" "i < length (ct_threads s)" "\<And>t. ct_pc (ct_threads s ! i) \<noteq> Spinning t" "\<And>t. pc \<noteq> Spinning t"
    "ct_threads s' = (ct_threads s)[i := \<lparr>ct_pc = pc, ct_left = left\<rparr>]"
  shows "waits_in s' ws ts"
proof -
  have "i \<notin> set ws"
    using assms(1,3) by (auto simp: waits_in_def in_set_conv_nth)
  then have "ws ! k \<noteq> i" if "k < length ws" for k
    using that by auto
  then show ?thesis
    using assms by (auto simp: waits_in_def nth_list_update)
qed

lemma waits_add:
  assumes "waits_in s ws ts" "i < length (ct_threads s)" "ct_pc (ct_threads s ! i) = Idle"
    "ct_threads s' = (ct_threads s)[i := \<lparr>ct_pc = Spinning t, ct_left = left\<rparr>]"
  shows "waits_in s' (ws @ [i]) (ts @ [t])"
proof -
  have "i \<notin> set ws"
    using assms(1,3) by (auto simp: waits_in_def in_set_conv_nth)
  then have "ws ! k \<noteq> i" if "k < length ws" for k
    using that by auto
  then show ?thesis
    using assms \<open>i \<notin> set ws\<close> by (auto simp: waits_in_def nth_list_update nth_append)
qed

lemma nth_remove_nth: "k < length xs \<Longrightarrow> j < length xs - 1 \<Longrightarrow> remove_nth k xs ! j = (if j < k then xs ! j else xs ! Suc j)"
  by (auto simp: remove_nth_def nth_append)

lemma length_remove_nth: "k < length xs \<Longrightarrow> length (remove_nth k xs) = length xs - 1"
  by (simp add: remove_nth_def)

lemma set_remove_nth: "distinct xs \<Longrightarrow> k < length xs \<Longrightarrow> distinct (remove_nth k xs) \<and> set (remove_nth k xs) = set xs - {xs ! k}"
proof -
  assume a: "distinct xs" "k < length xs"
  have "xs = take k xs @ xs ! k # drop (Suc k) xs"
    using a(2) by (rule id_take_nth_drop)
  then have "distinct (take k xs @ xs ! k # drop (Suc k) xs)" "set xs = insert (xs ! k) (set (remove_nth k xs))"
    using a(1) by (simp_all add: remove_nth_def) (metis Un_insert_right list.set(2) set_append)
  then show ?thesis
    by (auto simp: remove_nth_def)
qed

lemma waits_remove:
  assumes "waits_in s ws ts" "k < length ws" "ct_threads s' = (ct_threads s)[ws ! k := \<lparr>ct_pc = Entered, ct_left = left\<rparr>]"
  shows "waits_in s' (remove_nth k ws) (remove_nth k ts)"
proof -
  have d: "distinct ws" "length ts = length ws"
    using assms(1) by (simp_all add: waits_in_def)
  have old: "\<And>j. j < length ws \<Longrightarrow> ws ! j < length (ct_threads s) \<and> ct_pc (ct_threads s ! (ws ! j)) = Spinning (ts ! j)"
    "\<And>i. i < length (ct_threads s) \<Longrightarrow> \<exists>t. ct_pc (ct_threads s ! i) = Spinning t \<Longrightarrow> i \<in> set ws"
    using assms(1) by (simp_all add: waits_in_def)
  have "remove_nth k ws ! j < length (ct_threads s') \<and> ct_pc (ct_threads s' ! (remove_nth k ws ! j)) = Spinning (remove_nth k ts ! j)"
    if "j < length ws - 1" for j
  proof -
    let ?j = "if j < k then j else Suc j"
    have j: "?j < length ws" "?j \<noteq> k"
      using that assms(2) by auto
    then have "ws ! ?j \<noteq> ws ! k"
      using d(1) assms(2) by (simp add: nth_eq_iff_index_eq)
    then show ?thesis
      using old(1) [OF j(1)] that assms(2,3) d(2) by (cases "j < k") (simp_all add: nth_remove_nth)
  qed
  moreover have "i \<in> set (remove_nth k ws)" if "i < length (ct_threads s')" "\<exists>t. ct_pc (ct_threads s' ! i) = Spinning t" for i
    using that old(2) [of i] assms(3) set_remove_nth [OF d(1) assms(2)] by (cases "i = ws ! k") auto
  ultimately show ?thesis
    using set_remove_nth [OF d(1) assms(2)] d(2) assms(2) by (simp add: waits_in_def length_remove_nth)
qed

lemma counted_step:
  assumes "counted loops s" "i < length (ct_threads s)" "ct_threads s' = (ct_threads s)[i := th]" "gCount s' = gCount s"
    "increments loops th = increments loops (ct_threads s ! i)" "\<And>c. ct_pc th = Loaded c \<Longrightarrow> c = gCount s"
  shows "counted loops s'"
  using assms by (auto simp: counted_def map_update sum_list_update_int nth_list_update)

context mutual_exclusion
begin

lemma count_step_inv:
  assumes inv: "count_inv lock_inv bound loops ws s" and i: "i < length (ct_threads s)"
  shows "\<exists>ws'. count_inv lock_inv bound loops ws' (threadFun_step lk i s) \<and> waits_move i ws ws' s (threadFun_step lk i s)"
proof -
  let ?th = "ct_threads s ! i"
  obtain ts held where w: "waits_in s ws ts" "lock_inv (gLock s) ts held" "num in_section (ct_threads s) = of_bool held"
    and len: "length (ct_threads s) \<le> bound" and cnt: "counted loops s"
    using inv by (auto simp: count_inv_def)
  show ?thesis
  proof (cases "ct_pc ?th")
    case Idle
    show ?thesis
    proof (cases "ct_left ?th")
      case 0
      then show ?thesis
        using inv Idle by (intro exI [of _ ws]) (simp add: threadFun_step_def waits_move_def)
    next
      case (Suc k)
      obtain t l where req: "lk_request lk (gLock s) = (t, l)"
        by (cases "lk_request lk (gLock s)")
      let ?s = "set_thread i (Spinning t) k (s\<lparr>gLock := l, arrivals := arrivals s @ [i]\<rparr>)"
      have step: "threadFun_step lk i s = ?s"
        using Idle Suc req by (simp add: threadFun_step_def)
      have "length ts + of_bool held < bound"
        using waits_room [OF w(1) i Idle w(3)] w(1) len by (simp add: waits_in_def)
      then have "lock_inv l (ts @ [t]) held"
        by (rule request [OF w(2) _ req])
      moreover have "waits_in ?s (ws @ [i]) (ts @ [t])"
        by (rule waits_add [OF w(1) i Idle, of _ _ k]) simp
      moreover have "num in_section (ct_threads ?s) = of_bool held"
        using w(3) i Idle by (simp add: num_update) (simp add: in_section_def)
      moreover have "counted loops ?s"
        by (rule counted_step [OF cnt i, where th = "\<lparr>ct_pc = Spinning t, ct_left = k\<rparr>"]) (simp_all add: increments_def Idle Suc)
      ultimately have "count_inv lock_inv bound loops (ws @ [i]) ?s"
        using len by (auto simp: count_inv_def)
      then show ?thesis
        unfolding step by (intro exI [of _ "ws @ [i]"]) (simp add: waits_move_def)
    qed
  next
    case (Spinning t)
    then obtain k where k: "k < length ws" "ws ! k = i" "ts ! k = t" "k < length ts"
      using w(1) i by (auto simp: waits_in_def in_set_conv_nth)
    obtain got l where att: "lk_attempt lk (ts ! k) (gLock s) = (got, l)"
      by (cases "lk_attempt lk (ts ! k) (gLock s)")
    show ?thesis
    proof (cases got)
      case True
      let ?s = "set_thread i Entered (ct_left ?th) (s\<lparr>gLock := l, entries := entries s @ [i]\<rparr>)"
      have step: "threadFun_step lk i s = ?s"
        using Spinning att k True by (simp add: threadFun_step_def)
      have l: "\<not> held" "lock_inv l (remove_nth k ts) True"
        using attempt_taken [OF w(2) k(4)] att True by simp_all
      moreover have "waits_in ?s (remove_nth k ws) (remove_nth k ts)"
        by (rule waits_remove [OF w(1) k(1), of _ "ct_left ?th"]) (simp add: k(2))
      moreover have "num in_section (ct_threads ?s) = of_bool True"
        using w(3) i l(1) spinning_outside [OF Spinning] by (simp add: num_update)
      moreover have "counted loops ?s"
        by (rule counted_step [OF cnt i, where th = "\<lparr>ct_pc = Entered, ct_left = ct_left ?th\<rparr>"]) (simp_all add: increments_def Spinning)
      ultimately have "count_inv lock_inv bound loops (remove_nth k ws) ?s"
        using len unfolding count_inv_def by auto
      then show ?thesis
        unfolding step using k by (intro exI [of _ "remove_nth k ws"]) (auto simp: waits_move_def)
    next
      case False
      have step: "threadFun_step lk i s = s\<lparr>gLock := l\<rparr>"
        using Spinning att k False by (simp add: threadFun_step_def)
      have "lock_inv l ts held"
        using attempt_failed [OF w(2) k(4)] att False by simp
      then have "count_inv lock_inv bound loops ws (s\<lparr>gLock := l\<rparr>)"
        using w(1,3) len cnt by (auto simp: count_inv_def waits_in_def counted_def)
      then show ?thesis
        unfolding step by (intro exI [of _ ws]) (simp add: waits_move_def)
    qed
  next
    case Entered
    let ?s = "set_thread i (Loaded (gCount s)) (ct_left ?th) s"
    have step: "threadFun_step lk i s = ?s"
      using Entered by (simp add: threadFun_step_def)
    have "waits_in ?s ws ts"
      by (rule waits_other [OF w(1) i, of "Loaded (gCount s)"]) (simp_all add: Entered)
    moreover have "num in_section (ct_threads ?s) = of_bool held"
      using w(3) i Entered by (simp add: num_update) (simp add: in_section_def)
    moreover have "counted loops ?s"
      by (rule counted_step [OF cnt i, where th = "\<lparr>ct_pc = Loaded (gCount s), ct_left = ct_left ?th\<rparr>"]) (simp_all add: increments_def Entered)
    ultimately show ?thesis
      unfolding step using w(2) len by (intro exI [of _ ws]) (auto simp: count_inv_def waits_move_def)
  next
    case (Loaded c)
    let ?s = "set_thread i Stored (ct_left ?th) (s\<lparr>gCount := u64 (c + 1)\<rparr>)"
    have step: "threadFun_step lk i s = ?s"
      using Loaded by (simp add: threadFun_step_def)
    have "waits_in ?s ws ts"
      by (rule waits_other [OF w(1) i, of Stored]) (simp_all add: Loaded)
    moreover have sec: "in_section ?th"
      using Loaded by (simp add: in_section_def)
    then have "num in_section (ct_threads ?s) = of_bool held"
      using w(3) i by (simp add: num_update)
    moreover have "counted loops ?s"
    proof -
      have c: "c = gCount s" "gCount s = u64 (sum_list (map (increments loops) (ct_threads s)))"
        using cnt i Loaded unfolding counted_def by blast+
      have "increments loops (\<lparr>ct_pc = Stored, ct_left = ct_left ?th\<rparr> :: 't count_thread) = increments loops ?th + 1"
        by (simp add: increments_def Loaded)
      then have "sum_list (map (increments loops) (ct_threads ?s)) = sum_list (map (increments loops) (ct_threads s)) + 1"
        using i by (simp add: map_update sum_list_update_int)
      then have "gCount ?s = u64 (sum_list (map (increments loops) (ct_threads ?s)))"
        using c by (simp add: u64_add_u64)
      moreover have "ct_pc (ct_threads ?s ! j) \<noteq> Loaded c'" if "j < length (ct_threads s)" for j c'
      proof (cases "j = i")
        case False
        have "num in_section (ct_threads s) \<le> 1"
          using w(3) by (cases held) simp_all
        then have "\<not> in_section (ct_threads s ! j)"
          using num_one [of in_section "ct_threads s" i j] i sec that False by auto
        then show ?thesis
          using False by (auto simp: in_section_def)
      qed (use i in simp)
      ultimately show ?thesis
        by (simp add: counted_def)
    qed
    ultimately show ?thesis
      unfolding step using w(2) len by (intro exI [of _ ws]) (auto simp: count_inv_def waits_move_def)
  next
    case Stored
    let ?s = "set_thread i Idle (ct_left ?th) (s\<lparr>gLock := lk_unlock lk (gLock s)\<rparr>)"
    have step: "threadFun_step lk i s = ?s"
      using Stored by (simp add: threadFun_step_def)
    have sec: "in_section ?th"
      using Stored by (simp add: in_section_def)
    then have held
      using w(3) num_pos [OF i, of in_section] by (cases held) simp_all
    then have "lock_inv (lk_unlock lk (gLock s)) ts False"
      using unlock w(2) by simp
    moreover have "waits_in ?s ws ts"
      by (rule waits_other [OF w(1) i, of Idle]) (simp_all add: Stored)
    moreover have "num in_section (ct_threads ?s) = of_bool False"
      using w(3) i sec \<open>held\<close> by (simp add: num_update)
    moreover have "counted loops ?s"
      by (rule counted_step [OF cnt i, where th = "\<lparr>ct_pc = Idle, ct_left = ct_left ?th\<rparr>"]) (simp_all add: increments_def Stored)
    ultimately show ?thesis
      unfolding step using len by (intro exI [of _ ws]) (auto simp: count_inv_def waits_move_def)
  qed
qed

lemma count_reach_inv:
  assumes "count_reach lk n loops s" "n \<le> bound"
  shows "length (ct_threads s) = n \<and> (\<exists>ws. count_inv lock_inv bound loops ws s)"
  using assms
proof induction
  case 1
  let ?s = "count_start lk n loops"
  have "num in_section (ct_threads ?s) = of_bool False" "waits_in ?s [] []" "counted loops ?s"
    by (simp_all add: count_start_def num_def waits_in_def counted_def increments_def u64_def sum_list_replicate)
  then have "count_inv lock_inv bound loops [] ?s"
    using start 1 unfolding count_inv_def by (auto simp: count_start_def)
  then show ?case
    by (auto simp: count_start_def)
next
  case (2 s i)
  then obtain ws where ws: "count_inv lock_inv bound loops ws s" "length (ct_threads s) = n"
    by auto
  have "length (ct_threads (threadFun_step lk i s)) = n"
    using ws(2) by (simp add: threadFun_step_def Let_def split: count_pc.split nat.split prod.split)
  then show ?case
    using count_step_inv [OF ws(1), of i] ws(2) 2(2) by auto
qed

lemma exclusion:
  assumes "count_reach lk n loops s" "n \<le> bound" "i < n" "in_section (ct_threads s ! i)" "j < n" "in_section (ct_threads s ! j)"
  shows "i = j"
proof -
  obtain held where "num in_section (ct_threads s) = of_bool held" "length (ct_threads s) = n"
    using count_reach_inv [OF assms(1,2)] by (auto simp: count_inv_def)
  then show ?thesis
    using assms(3-6) by (intro num_one [of in_section "ct_threads s"]) (cases held, simp_all)+
qed

lemma exact:
  assumes "count_reach lk n loops s" "n \<le> bound" "count_finished s"
  shows "gCount s = u64 (int n * int loops)"
proof -
  have inv: "length (ct_threads s) = n" "gCount s = u64 (sum_list (map (increments loops) (ct_threads s)))"
    using count_reach_inv [OF assms(1,2)] by (auto simp: count_inv_def counted_def)
  have "map (increments loops) (ct_threads s) = replicate n (int loops)"
    using assms(3) inv(1) by (intro nth_equalityI) (auto simp: count_finished_def list_all_length increments_def)
  then show ?thesis
    using inv(2) by (simp add: sum_list_replicate)
qed

end

text \<open>The steps that are left to a thread, its turns of the loop that fail aside.\<close>

definition thread_work :: "'t count_thread \<Rightarrow> nat" where
  "thread_work th = 5 * ct_left th + (case ct_pc th of Idle \<Rightarrow> 0 | Spinning t \<Rightarrow> 4 | Entered \<Rightarrow> 3 | Loaded c \<Rightarrow> 2 | Stored \<Rightarrow> 1)"

definition total_work :: "('t, 'l) counting \<Rightarrow> nat" where
  "total_work s = sum_list (map thread_work (ct_threads s))"

fun count_run :: "('t, 'l) lock_ops \<Rightarrow> nat list \<Rightarrow> ('t, 'l) counting \<Rightarrow> ('t, 'l) counting" where
  "count_run lk [] s = s"
| "count_run lk (i # is) s = count_run lk is (threadFun_step lk i s)"

lemma total_work_update:
  assumes "i < length (ct_threads s)" "ct_threads s' = (ct_threads s)[i := th]" "Suc (thread_work th) = thread_work (ct_threads s ! i)"
  shows "Suc (total_work s') = total_work s"
proof -
  have "ct_threads s = take i (ct_threads s) @ ct_threads s ! i # drop (Suc i) (ct_threads s)"
    by (rule id_take_nth_drop [OF assms(1)])
  then have "total_work s = sum_list (map thread_work (take i (ct_threads s) @ ct_threads s ! i # drop (Suc i) (ct_threads s)))"
    unfolding total_work_def by (rule arg_cong)
  then show ?thesis
    using assms by (simp add: total_work_def upd_conv_take_nth_drop)
qed

lemma section_step:
  assumes "i < length (ct_threads s)" "in_section (ct_threads s ! i)"
  shows "Suc (total_work (threadFun_step lk i s)) = total_work s"
proof -
  let ?th = "ct_threads s ! i"
  show ?thesis
  proof (cases "ct_pc ?th")
    case Entered
    then show ?thesis
      by (intro total_work_update [OF assms(1), of _ "\<lparr>ct_pc = Loaded (gCount s), ct_left = ct_left ?th\<rparr>"]) (simp_all add: threadFun_step_def thread_work_def)
  next
    case (Loaded c)
    then show ?thesis
      by (intro total_work_update [OF assms(1), of _ "\<lparr>ct_pc = Stored, ct_left = ct_left ?th\<rparr>"]) (simp_all add: threadFun_step_def thread_work_def)
  next
    case Stored
    then show ?thesis
      by (intro total_work_update [OF assms(1), of _ "\<lparr>ct_pc = Idle, ct_left = ct_left ?th\<rparr>"]) (simp_all add: threadFun_step_def thread_work_def)
  qed (use assms(2) in \<open>simp_all add: in_section_def\<close>)
qed

context mutual_exclusion
begin

lemma progress:
  assumes "count_reach lk n loops s" "n \<le> bound" "\<not> count_finished s"
  shows "\<exists>i < n. Suc (total_work (threadFun_step lk i s)) = total_work s"
proof -
  obtain ws where inv: "length (ct_threads s) = n" "count_inv lock_inv bound loops ws s"
    using count_reach_inv [OF assms(1,2)] by blast
  obtain ts held where w: "waits_in s ws ts" "lock_inv (gLock s) ts held" "num in_section (ct_threads s) = of_bool held"
    using inv(2) by (auto simp: count_inv_def)
  show ?thesis
  proof (cases "\<exists>i < n. in_section (ct_threads s ! i)")
    case True
    then show ?thesis
      using inv(1) section_step by blast
  next
    case outside: False
    then have "filter in_section (ct_threads s) = []"
      using inv(1) by (auto simp: filter_empty_conv in_set_conv_nth)
    then have "\<not> held"
      using w(3) by (cases held) (simp_all add: num_def)
    show ?thesis
    proof (cases ws)
      case (Cons i ws')
      then obtain t ts' where ts: "ts = t # ts'"
        using w(1) by (cases ts) (auto simp: waits_in_def)
      have i: "i < n" "ct_pc (ct_threads s ! i) = Spinning t"
        using w(1) inv(1) by (auto simp: waits_in_def Cons ts)
      obtain l where "lk_attempt lk t (gLock s) = (True, l)"
        using oldest_served [of "gLock s" t ts'] w(2) \<open>\<not> held\<close> by (cases "lk_attempt lk t (gLock s)") (auto simp: ts)
      then have "Suc (total_work (threadFun_step lk i s)) = total_work s"
        using i inv(1)
        by (intro total_work_update [of i s _ "\<lparr>ct_pc = Entered, ct_left = ct_left (ct_threads s ! i)\<rparr>"]) (simp_all add: threadFun_step_def thread_work_def)
      then show ?thesis
        using i(1) by blast
    next
      case Nil
      have idle: "ct_pc (ct_threads s ! i) = Idle" if "i < n" for i
      proof -
        have "ct_pc (ct_threads s ! i) \<noteq> Spinning t" for t
          using w(1) inv(1) that by (simp add: waits_in_def Nil)
        moreover have "\<not> in_section (ct_threads s ! i)"
          using outside that by blast
        ultimately show ?thesis
          by (cases "ct_pc (ct_threads s ! i)") (auto simp: in_section_def)
      qed
      obtain i where i: "i < n" "ct_left (ct_threads s ! i) \<noteq> 0"
        using assms(3) inv(1) idle by (auto simp: count_finished_def list_all_length)
      then obtain k where i: "i < n" "ct_left (ct_threads s ! i) = Suc k"
        by (cases "ct_left (ct_threads s ! i)") simp_all
      obtain t l where "lk_request lk (gLock s) = (t, l)"
        by (cases "lk_request lk (gLock s)")
      then have "Suc (total_work (threadFun_step lk i s)) = total_work s"
        using i idle [OF i(1)] inv(1)
        by (intro total_work_update [of i s _ "\<lparr>ct_pc = Spinning t, ct_left = k\<rparr>"]) (simp_all add: threadFun_step_def thread_work_def)
      then show ?thesis
        using i(1) by blast
    qed
  qed
qed

lemma finishes:
  assumes "count_reach lk n loops s" "n \<le> bound"
  shows "\<exists>is. set is \<subseteq> {..<n} \<and> length is \<le> total_work s \<and> count_finished (count_run lk is s)"
  using assms
proof (induction "total_work s" arbitrary: s rule: less_induct)
  case less
  show ?case
  proof (cases "count_finished s")
    case True
    then show ?thesis
      by (intro exI [of _ "[]"]) simp
  next
    case False
    obtain i where i: "i < n" "Suc (total_work (threadFun_step lk i s)) = total_work s"
      using progress [OF less.prems False] by blast
    obtain "is" where "set is \<subseteq> {..<n}" "length is \<le> total_work (threadFun_step lk i s)" "count_finished (count_run lk is (threadFun_step lk i s))"
      using less.hyps [of "threadFun_step lk i s"] count_reach.intros(2) [OF less.prems(1) i(1)] i(2) less.prems(2) by auto
    then show ?thesis
      using i by (intro exI [of _ "i # is"]) auto
  qed
qed

end

context fifo_lock
begin

lemma first_come:
  assumes "count_reach lk n loops s" "n \<le> bound"
  shows "\<exists>ws. count_inv lock_inv bound loops ws s \<and> arrivals s = entries s @ ws"
  using assms
proof induction
  case 1
  obtain ws where ws: "count_inv lock_inv bound loops ws (count_start lk n loops)"
    using count_reach_inv [OF count_reach.intros(1) 1] by blast
  then have "ws = []"
    by (cases ws) (auto simp: count_inv_def waits_in_def count_start_def)
  then show ?case
    using ws by (auto simp: count_start_def)
next
  case (2 s i)
  let ?s = "threadFun_step lk i s"
  obtain ws where ws: "count_inv lock_inv bound loops ws s" "arrivals s = entries s @ ws"
    using 2 by blast
  have i: "i < length (ct_threads s)"
    using count_reach_inv [OF 2(1,4)] 2(2) by simp
  obtain ws' where ws': "count_inv lock_inv bound loops ws' ?s" "waits_move i ws ws' s ?s"
    using count_step_inv [OF ws(1) i] by blast
  have "k = 0" if k: "k < length ws" "ws ! k = i" "entries ?s = entries s @ [i]" for k
  proof -
    obtain ts held where w: "waits_in s ws ts" "lock_inv (gLock s) ts held"
      using ws(1) by (auto simp: count_inv_def)
    then have "ct_pc (ct_threads s ! i) = Spinning (ts ! k)" "k < length ts"
      using k(1,2) by (auto simp: waits_in_def)
    then show ?thesis
      using attempt_oldest [OF w(2)] k(3) by (auto simp: threadFun_step_def Let_def split: prod.splits if_splits)
  qed
  then have "arrivals ?s = arrivals s @ [i] \<and> entries ?s = entries s \<and> ws' = ws @ [i] \<or>
    arrivals ?s = arrivals s \<and> entries ?s = entries s @ [i] \<and> ws = i # ws' \<or>
    arrivals ?s = arrivals s \<and> entries ?s = entries s \<and> ws' = ws"
    using ws'(2) unfolding waits_move_def by (cases ws) (fastforce simp: remove_nth_def)+
  then have "arrivals ?s = entries ?s @ ws'"
    using ws(2) by auto
  then show ?case
    using ws'(1) by blast
qed

end

section \<open>The two locks\<close>

text \<open>The tickets that wait are consecutive, up to the next one.\<close>

definition tick_inv :: "tick_lock \<Rightarrow> int list \<Rightarrow> bool \<Rightarrow> bool" where
  "tick_inv l ts held \<longleftrightarrow> s32 (mOwner l) = mOwner l \<and> mNext l = s32 (mOwner l + of_bool held + int (length ts)) \<and>
     length ts + of_bool held \<le> 4294967296 \<and> (\<forall>k < length ts. ts ! k = s32 (mOwner l + of_bool held + int k))"

definition wild_inv :: "bool \<Rightarrow> unit list \<Rightarrow> bool \<Rightarrow> bool" where
  "wild_inv l ts held \<longleftrightarrow> l = held"

lemma s32_add: "s32 (s32 a + b) = s32 (a + b)"
  by (simp add: s32_def mod_simps algebra_simps)

lemma s32_add_right: "s32 (b + s32 a) = s32 (b + a)"
  using s32_add [of a b] by (simp add: add.commute)

lemma s32_idem: "s32 (s32 a) = s32 a"
  using s32_add [of a 0] by simp

lemma s32_apart:
  assumes "s32 (a + b) = s32 a" "0 \<le> b" "b < 4294967296"
  shows "b = 0"
proof -
  have "(a + b + 2147483648) mod 4294967296 = (a + 2147483648) mod 4294967296"
    using assms(1) by (simp add: s32_def)
  then have "4294967296 dvd b"
    by (simp add: mod_eq_dvd_iff)
  then show ?thesis
    using assms(2,3) zdvd_not_zless [of b 4294967296] by fastforce
qed

lemma tick_first:
  assumes "tick_inv l ts held" "k < length ts" "ts ! k = mOwner l"
  shows "k = 0 \<and> \<not> held"
proof -
  have "s32 (mOwner l + (of_bool held + int k)) = s32 (mOwner l)"
    using assms by (simp add: tick_inv_def add.assoc)
  moreover have "(of_bool held :: int) + int k < 4294967296"
    using assms(1,2) by (cases held) (simp_all add: tick_inv_def)
  ultimately have "(of_bool held :: int) + int k = 0"
    by (intro s32_apart) simp_all
  then show ?thesis
    by (cases held) simp_all
qed

lemma tick_request_ok:
  assumes "tick_inv l ts held" "length ts + of_bool held < 4294967296" "tick_request l = (t, l')"
  shows "tick_inv l' (ts @ [t]) held"
  using assms by (auto simp: tick_inv_def tick_request_def s32_add s32_add_right nth_append less_Suc_eq algebra_simps)

lemma tick_taken_ok:
  assumes "tick_inv l ts held" "k < length ts" "tick_attempt (ts ! k) l = (True, l')"
  shows "\<not> held \<and> tick_inv l' (remove_nth k ts) True"
proof -
  have k: "k = 0" "\<not> held" "l' = l"
    using tick_first [OF assms(1,2)] assms(3) by (simp_all add: tick_attempt_def)
  then show ?thesis
    using assms(1,2) by (cases ts) (auto simp: tick_inv_def remove_nth_def algebra_simps)
qed

lemma tick_unlock_ok: "tick_inv l ts True \<Longrightarrow> tick_inv (tick_unlock l) ts False"
  by (simp add: tick_inv_def tick_unlock_def s32_add s32_idem)

interpretation tick: fifo_lock TICK tick_inv 4294967296
proof unfold_locales
  show "tick_inv (lk_start TICK) [] False"
    by (simp add: TICK_def tick_inv_def s32_def)
  show "tick_inv l' (ts @ [t]) held"
    if "tick_inv l ts held" "length ts + of_bool held < 4294967296" "lk_request TICK l = (t, l')" for l ts held t l'
    using that tick_request_ok by (simp add: TICK_def)
  show "\<not> held \<and> tick_inv l' (remove_nth k ts) True"
    if "tick_inv l ts held" "k < length ts" "lk_attempt TICK (ts ! k) l = (True, l')" for l ts held k l'
    by (rule tick_taken_ok) (use that in \<open>simp_all add: TICK_def\<close>)
  show "tick_inv l' ts held" if "tick_inv l ts held" "k < length ts" "lk_attempt TICK (ts ! k) l = (False, l')" for l ts held k l'
    using that by (simp add: TICK_def tick_attempt_def)
  show "fst (lk_attempt TICK t l)" if "tick_inv l (t # ts) False" for l t ts
    using that by (auto simp: TICK_def tick_attempt_def tick_inv_def)
  show "tick_inv (lk_unlock TICK l) ts False" if "tick_inv l ts True" for l ts
    using that tick_unlock_ok by (simp add: TICK_def)
  show "k = 0" if "tick_inv l ts held" "k < length ts" "fst (lk_attempt TICK (ts ! k) l)" for l ts held k
    using tick_first [OF that(1,2)] that(3) by (simp add: TICK_def tick_attempt_def)
qed

interpretation wild: mutual_exclusion WILD wild_inv bound for bound
  by unfold_locales (auto simp: WILD_def wild_inv_def wild_attempt_def wild_unlock_def)

section \<open>Properties\<close>


text \<open>C33: The ticket lock serves the threads in the order of their requests.\<close>
theorem tick_first_come:
  assumes "count_reach TICK n loops s" "n \<le> 4294967296"
  shows "\<exists>ws. arrivals s = entries s @ ws \<and> distinct ws \<and> (\<forall>i < n. i \<in> set ws \<longleftrightarrow> (\<exists>t. ct_pc (ct_threads s ! i) = Spinning t))"
proof -
  obtain ws where ws: "count_inv tick_inv 4294967296 loops ws s" "arrivals s = entries s @ ws"
    using tick.first_come [OF assms] by blast
  have "length (ct_threads s) = n"
    using tick.count_reach_inv [OF assms] by blast
  then show ?thesis
    using ws by (intro exI [of _ ws]) (auto simp: count_inv_def waits_in_def in_set_conv_nth)
qed

text \<open>From every state the threads can finish, with as many steps as they have left: there is no deadlock.\<close>
theorem spin_lock_finishes:
  assumes "count_reach TICK n loops s" "n \<le> 4294967296"
  shows "\<exists>is. set is \<subseteq> {..<n} \<and> length is \<le> total_work s \<and> count_finished (count_run TICK is s)"
  by (rule tick.finishes [OF assms])

text \<open>The other lock does not keep the order.\<close>

lemma run_reach: "count_reach lk n loops s \<Longrightarrow> set is \<subseteq> {..<n} \<Longrightarrow> count_reach lk n loops (count_run lk is s)"
  by (induction "is" arbitrary: s) (auto intro: count_reach.intros(2))

lemmas count_eval = count_start_def threadFun_step_def set_thread_def TICK_def WILD_def tick_request_def tick_attempt_def tick_unlock_def
  wild_attempt_def wild_unlock_def s32_def u64_def

theorem wild_overtakes: "\<exists>s. count_reach WILD 2 1 s \<and> arrivals s = [0, 1] \<and> entries s = [1]"
proof -
  have "count_reach WILD 2 1 (count_run WILD [0, 1, 1] (count_start WILD 2 1))"
    by (rule run_reach [OF count_reach.intros(1)]) auto
  moreover have "arrivals (count_run WILD [0, 1, 1] (count_start WILD 2 1)) = [0, 1]" "entries (count_run WILD [0, 1, 1] (count_start WILD 2 1)) = [1]"
    by (simp_all add: count_eval numeral_2_eq_2)
  ultimately show ?thesis
    by blast
qed

definition one_then_other :: "nat list" where
  "one_then_other = [0, 1, 1, 0, 0, 0, 0, 1, 1, 1, 1]"


theorem tick_first_come_witness:
  "\<exists>ws. arrivals (count_run TICK [0, 1, 1] (count_start TICK 2 1)) = entries (count_run TICK [0, 1, 1] (count_start TICK 2 1)) @ ws"
proof -
  have "count_reach TICK 2 1 (count_run TICK [0, 1, 1] (count_start TICK 2 1))"
    by (rule run_reach [OF count_reach.intros(1)]) auto
  then show ?thesis
    using tick_first_come [of 2 1 "count_run TICK [0, 1, 1] (count_start TICK 2 1)"] by auto
qed

theorem spin_lock_finishes_witness:
  "\<exists>is. length is \<le> 10 \<and> count_finished (count_run TICK is (count_start TICK 2 1))"
proof -
  have "total_work (count_start TICK 2 1) = 10"
    by (simp add: total_work_def thread_work_def count_start_def sum_list_replicate)
  then show ?thesis
    using spin_lock_finishes [OF count_reach.intros(1), of 2 1] by auto
qed

end
